(* ===== verification/Prelude.thy ===== *)
theory Prelude
  imports Main "HOL-Library.Word" "HOL-Library.Monad_Syntax"
begin

unbundle bit_operations_syntax

text \<open>
  What the component theories share: the C integer types of an ILP32 target as words, the
  reading of undefined behaviour as \<open>None\<close>, checked array accesses, the counting loop
  \<open>for (i = lo; i < hi; i++)\<close> and its invariant rule, and the few facts on lists and
  words that several components use.

  A definition that can dereference outside an object, overflow a signed integer where C leaves
  this undefined, or run for ever, has a result of option type; \<open>None\<close> is all of these,
  so a theorem \<open>f x = Some y\<close> says at once that the code is memory safe, that it
  returns and what it returns.
\<close>

section \<open>Machine types\<close>

type_synonym u8 = "8 word"
type_synonym u16 = "16 word"
type_synonym u32 = "32 word"
type_synonym u64 = "64 word"

text \<open>Signed types have the same bit patterns; they are read with \<open>sint\<close>.\<close>

type_synonym s8 = "8 word"
type_synonym s16 = "16 word"
type_synonym s32 = "32 word"

section \<open>Facts on options collected for the simplifier\<close>

named_theorems memsafe \<open>reads and writes that are known to stay inside their array\<close>

lemma bind_Some_iff: "Option.bind m f = Some y \<longleftrightarrow> (\<exists>x. m = Some x \<and> f x = Some y)"
  by (cases m) auto

section \<open>Checked array accesses\<close>

definition rd :: "'a list \<Rightarrow> nat \<Rightarrow> 'a option" where
  "rd xs i = (if i < length xs then Some (xs ! i) else None)"

definition wr :: "'a list \<Rightarrow> nat \<Rightarrow> 'a \<Rightarrow> 'a list option" where
  "wr xs i v = (if i < length xs then Some (xs[i := v]) else None)"

lemma rd_Some [simp, memsafe]: "i < length xs \<Longrightarrow> rd xs i = Some (xs ! i)"
  by (simp add: rd_def)

lemma wr_Some [simp, memsafe]: "i < length xs \<Longrightarrow> wr xs i v = Some (xs[i := v])"
  by (simp add: wr_def)

lemma rd_None [simp]: "length xs \<le> i \<Longrightarrow> rd xs i = None"
  by (simp add: rd_def)

lemma wr_None [simp]: "length xs \<le> i \<Longrightarrow> wr xs i v = None"
  by (simp add: wr_def)

lemma wr_length: "wr xs i v = Some ys \<Longrightarrow> length ys = length xs"
  by (auto simp: wr_def split: if_splits)

section \<open>Counting loops\<close>

text \<open>\<open>for_upto n lo f s\<close> runs the body \<open>f\<close> for the \<open>n\<close> indices from \<open>lo\<close> on.\<close>

primrec for_upto :: "nat \<Rightarrow> nat \<Rightarrow> (nat \<Rightarrow> 's \<Rightarrow> 's option) \<Rightarrow> 's \<Rightarrow> 's option" where
  "for_upto 0 lo f s = Some s"
| "for_upto (Suc n) lo f s = do { s' \<leftarrow> f lo s; for_upto n (Suc lo) f s' }"

definition for_range :: "nat \<Rightarrow> nat \<Rightarrow> (nat \<Rightarrow> 's \<Rightarrow> 's option) \<Rightarrow> 's \<Rightarrow> 's option" where
  "for_range lo hi f s = for_upto (hi - lo) lo f s"

lemma for_upto_rule:
  assumes "I lo s"
    and "\<And>i t. lo \<le> i \<Longrightarrow> i < lo + n \<Longrightarrow> I i t \<Longrightarrow> \<exists>t'. f i t = Some t' \<and> I (Suc i) t'"
  shows "\<exists>s'. for_upto n lo f s = Some s' \<and> I (lo + n) s'"
  using assms
proof (induction n arbitrary: lo s)
  case 0
  then show ?case by simp
next
  case (Suc n)
  obtain t where t: "f lo s = Some t" "I (Suc lo) t"
    using Suc.prems(2) [of lo s] Suc.prems(1) by auto
  have "\<exists>s'. for_upto n (Suc lo) f t = Some s' \<and> I (Suc lo + n) s'"
    using t(2) Suc.prems(2) by (intro Suc.IH) auto
  with t(1) show ?case by simp
qed

text \<open>The rule the component proofs apply: an invariant indexed by the loop counter.\<close>

lemma for_range_rule:
  assumes "lo \<le> hi" and "I lo s"
    and "\<And>i t. lo \<le> i \<Longrightarrow> i < hi \<Longrightarrow> I i t \<Longrightarrow> \<exists>t'. f i t = Some t' \<and> I (Suc i) t'"
  shows "\<exists>s'. for_range lo hi f s = Some s' \<and> I hi s'"
proof -
  have "\<exists>s'. for_upto (hi - lo) lo f s = Some s' \<and> I (lo + (hi - lo)) s'"
    using assms by (intro for_upto_rule) auto
  with assms(1) show ?thesis by (simp add: for_range_def)
qed

text \<open>The functional reading: a body that is defined along the way is a plain fold.\<close>

lemma for_range_empty [simp]: "hi \<le> lo \<Longrightarrow> for_range lo hi f s = Some s"
  by (simp add: for_range_def)

lemma for_range_step:
  "lo < hi \<Longrightarrow> for_range lo hi f s = do { s' \<leftarrow> f lo s; for_range (Suc lo) hi f s' }"
proof -
  assume "lo < hi"
  then have "hi - lo = Suc (hi - Suc lo)" by simp
  then show ?thesis by (simp add: for_range_def)
qed

lemma for_range_eqI:
  assumes "lo \<le> hi" and "g lo = s"
    and "\<And>i. lo \<le> i \<Longrightarrow> i < hi \<Longrightarrow> f i (g i) = Some (g (Suc i))"
  shows "for_range lo hi f s = Some (g hi)"
  using for_range_rule [of lo hi "\<lambda>i t. t = g i" s f] assms by auto

text \<open>A loop that stores \<open>h i\<close> at every index below \<open>n\<close>.\<close>

lemma length_fold_upd: "(\<And>i b. length (f i b) = length b) \<Longrightarrow> length (fold f xs b) = length b"
  by (induction xs arbitrary: b) simp_all

definition upd_prefix :: "nat \<Rightarrow> (nat \<Rightarrow> 'a) \<Rightarrow> 'a list \<Rightarrow> 'a list" where
  "upd_prefix n h xs = map h [0..<n] @ drop n xs"

lemma length_upd_prefix [simp]: "n \<le> length xs \<Longrightarrow> length (upd_prefix n h xs) = length xs"
  by (simp add: upd_prefix_def)

lemma nth_upd_prefix:
  "n \<le> length xs \<Longrightarrow> i < length xs \<Longrightarrow>
     upd_prefix n h xs ! i = (if i < n then h i else xs ! i)"
  by (simp add: upd_prefix_def nth_append)

lemma upd_prefix_0 [simp]: "upd_prefix 0 h xs = xs"
  by (simp add: upd_prefix_def)

lemma upd_prefix_Suc:
  assumes "n < length xs"
  shows "(upd_prefix n h xs)[n := h n] = upd_prefix (Suc n) h xs"
  using assms by (intro nth_equalityI) (auto simp: nth_upd_prefix nth_list_update)

lemma for_store:
  assumes "n \<le> length xs"
    and "\<And>i. i < n \<Longrightarrow> f i (upd_prefix i h xs) = Some ((upd_prefix i h xs)[i := h i])"
  shows "for_range 0 n f xs = Some (upd_prefix n h xs)"
  using assms by (intro for_range_eqI [where g = "\<lambda>i. upd_prefix i h xs"]) (auto simp: upd_prefix_Suc)

lemma upd_prefix_id: "(\<And>i. i < n \<Longrightarrow> h i = xs ! i) \<Longrightarrow> n \<le> length xs \<Longrightarrow> upd_prefix n h xs = xs"
  by (intro nth_equalityI) (auto simp: nth_upd_prefix)

subsection \<open>Loops over a matrix\<close>

lemma for_range_split:
  "lo \<le> mid \<Longrightarrow> mid \<le> hi \<Longrightarrow>
     for_range lo hi f s = do { s' \<leftarrow> for_range lo mid f s; for_range mid hi f s' }"
proof (induction "mid - lo" arbitrary: lo s)
  case 0
  then show ?case by simp
next
  case (Suc n)
  then have "for_range (Suc lo) hi f t = do { s' \<leftarrow> for_range (Suc lo) mid f t; for_range mid hi f s' }" for t
    by simp
  with Suc(2-4) show ?case by (simp add: for_range_step [of lo])
qed

lemma for_range_shift: "for_range 0 n (\<lambda>j. f (k + j)) s = for_range k (k + n) f s"
proof -
  have "for_upto n lo (\<lambda>j. f (k + j)) s = for_upto n (k + lo) f s" for lo
    by (induction n arbitrary: lo s) simp_all
  from this [of 0] show ?thesis by (simp add: for_range_def)
qed

text \<open>Two nested loops over \<open>n\<close> rows of \<open>m\<close> elements visit \<open>i * m + j\<close> in order.\<close>

lemma for_range_rows:
  "for_range 0 n (\<lambda>i s. for_range 0 m (\<lambda>j. f (i * m + j)) s) s = for_range 0 (n * m) f s"
proof (induction n)
  case (Suc n)
  have "for_range 0 (Suc n) (\<lambda>i s. for_range 0 m (\<lambda>j. f (i * m + j)) s) s
      = do { s' \<leftarrow> for_range 0 (n * m) f s; for_range 0 m (\<lambda>j. f (n * m + j)) s' }"
    by (simp only: for_range_split [of 0 n "Suc n"] Suc) (simp add: for_range_step [of n])
  also have "\<dots> = do { s' \<leftarrow> for_range 0 (n * m) f s; for_range (n * m) (n * m + m) f s' }"
    by (simp only: for_range_shift)
  also have "\<dots> = for_range 0 (n * m + m) f s"
    by (rule for_range_split [symmetric]) simp_all
  finally show ?case by (simp add: add.commute)
qed simp

lemma for_range_cong:
  "(\<And>i t. lo \<le> i \<Longrightarrow> i < hi \<Longrightarrow> f i t = g i t) \<Longrightarrow> for_range lo hi f s = for_range lo hi g s"
proof (induction "hi - lo" arbitrary: lo s)
  case (Suc n)
  then have "for_range (Suc lo) hi f t = for_range (Suc lo) hi g t" for t by simp
  with Suc(2,3) show ?case by (simp add: for_range_step [of lo])
qed simp

lemma for_range_matrix:
  "for_range 0 n (\<lambda>i s. for_range 0 m (\<lambda>j. f i j) s) s
     = for_range 0 (n * m) (\<lambda>p. f (p div m) (p mod m)) s"
proof -
  have "for_range 0 n (\<lambda>i s. for_range 0 m (\<lambda>j. f i j) s) s
      = for_range 0 n (\<lambda>i s. for_range 0 m (\<lambda>j. (\<lambda>p. f (p div m) (p mod m)) (i * m + j)) s) s"
    by (intro for_range_cong) simp
  also have "\<dots> = for_range 0 (n * m) (\<lambda>p. f (p div m) (p mod m)) s"
    by (rule for_range_rows)
  finally show ?thesis .
qed

text \<open>The index arithmetic of a square matrix in row-major order.\<close>

lemma matrix_index:
  fixes p :: nat
  assumes "p < N * N"
  shows "p div N < N" and "p mod N < N" and "p div N * N + p mod N = p"
proof -
  have "0 < N" using assms by (cases N) auto
  then show "p div N < N" "p mod N < N" "p div N * N + p mod N = p"
    using assms by (auto simp: less_mult_imp_div_less)
qed

lemma matrix_row: "i < N \<Longrightarrow> k < N \<Longrightarrow> i * N + k < N * (N :: nat)"
proof -
  assume "i < N" "k < N"
  then have "i * N + k < (i + 1) * N" by simp
  also have "\<dots> \<le> N * N" using \<open>i < N\<close> by (intro mult_right_mono) auto
  finally show ?thesis .
qed

text \<open>A loop that accumulates into one array element.\<close>

lemma for_accumulate:
  fixes xs :: "'a::comm_monoid_add list"
  assumes "k < length xs" and "\<And>j. j < n \<Longrightarrow> g j = Some (h j)"
  shows "for_range 0 n (\<lambda>j xs. do { v \<leftarrow> g j; x \<leftarrow> rd xs k; wr xs k (x + v) }) xs
           = Some (xs[k := xs ! k + (\<Sum>j<n. h j)])"
  using assms by (intro for_range_eqI [where g = "\<lambda>j. xs[k := xs ! k + (\<Sum>j<j. h j)]"]) (auto simp: add.assoc)

text \<open>A loop whose body ends the program unless a condition on the index holds.\<close>

lemma for_range_guarded:
  assumes "\<And>i. i < n \<Longrightarrow> (\<forall>j < i. P j) \<Longrightarrow> f i (g i) = (if P i then Some (g (Suc i)) else None)"
  shows "for_range 0 n f (g 0) = (if \<forall>i < n. P i then Some (g n) else None)"
  using assms
proof (induction n)
  case (Suc n)
  have "for_range 0 (Suc n) f (g 0) = do { s \<leftarrow> for_range 0 n f (g 0); f n s }"
    by (simp add: for_range_split [of 0 n "Suc n"] for_range_step [of n])
  also have "\<dots> = (if \<forall>i < n. P i then f n (g n) else None)" using Suc by auto
  also have "\<dots> = (if \<forall>i < Suc n. P i then Some (g (Suc n)) else None)"
    using Suc.prems [of n] by (auto simp: less_Suc_eq)
  finally show ?case .
qed simp

lemma for_store_guarded:
  assumes "n \<le> length xs"
    and "\<And>i. i < n \<Longrightarrow> f i (upd_prefix i h xs) = (if P i then Some ((upd_prefix i h xs)[i := h i]) else None)"
  shows "for_range 0 n f xs = (if \<forall>i < n. P i then Some (upd_prefix n h xs) else None)"
  using for_range_guarded [of n P f "\<lambda>i. upd_prefix i h xs"] assms by (simp add: upd_prefix_Suc)

section \<open>NUL-terminated strings\<close>

text \<open>A C string is the list of its bytes before the terminator; reading it at the end gives 0.\<close>

definition cch :: "u8 list \<Rightarrow> u8" where
  "cch s = (case s of [] \<Rightarrow> 0 | c # _ \<Rightarrow> c)"

lemma cch_simps [simp]: "cch [] = 0" "cch (c # s) = c"
  by (simp_all add: cch_def)

definition is_dec :: "u8 \<Rightarrow> bool" where
  "is_dec c \<longleftrightarrow> 0x30 \<le> c \<and> c \<le> 0x39"

text \<open>The decimal rendering of \<open>printf\<close> and its value.\<close>

fun dec_str :: "nat \<Rightarrow> u8 list" where
  "dec_str n = (if n < 10 then [] else dec_str (n div 10)) @ [0x30 + of_nat (n mod 10)]"

declare dec_str.simps [simp del]

definition dec_val :: "u8 list \<Rightarrow> nat" where
  "dec_val ds = foldl (\<lambda>r c. r * 10 + (unat c - 0x30)) 0 ds"

lemma dec_val_foldl:
  "foldl (\<lambda>r c. r * 10 + (unat (c :: u8) - 0x30)) a ds = a * 10 ^ length ds + dec_val ds"
proof -
  have "foldl (\<lambda>r c. r * 10 + (unat (c :: u8) - 0x30)) (a + b) ds
      = a * 10 ^ length ds + foldl (\<lambda>r c. r * 10 + (unat c - 0x30)) b ds" for a b
  proof (induction ds arbitrary: a b)
    case (Cons c ds)
    show ?case
      using Cons [of "a * 10" "b * 10 + (unat c - 0x30)"] by (simp add: algebra_simps)
  qed simp
  from this [of a 0] show ?thesis by (simp add: dec_val_def)
qed

lemma dec_val_Nil [simp]: "dec_val [] = 0"
  by (simp add: dec_val_def)

lemma dec_val_Cons: "dec_val (c # ds) = (unat c - 0x30) * 10 ^ length ds + dec_val ds"
  using dec_val_foldl [of "unat c - 0x30" ds] by (simp add: dec_val_def)

lemma dec_val_snoc: "dec_val (ds @ [c]) = dec_val ds * 10 + (unat c - 0x30)"
  by (simp add: dec_val_def)

lemma unat_digit: "d < 10 \<Longrightarrow> unat (0x30 + of_nat d :: u8) = 0x30 + d"
  by (simp add: unat_word_ariths unat_of_nat)

lemma dec_val_dec_str [simp]: "dec_val (dec_str n) = n"
proof (induction n rule: dec_str.induct)
  case (1 n)
  then show ?case
    by (subst dec_str.simps) (auto simp: dec_val_snoc unat_digit)
qed

lemma dec_str_digits: "c \<in> set (dec_str n) \<Longrightarrow> is_dec c"
proof (induction n rule: dec_str.induct)
  case (1 n)
  then show ?case
    by (subst (asm) dec_str.simps)
      (auto simp: is_dec_def word_le_nat_alt unat_digit split: if_splits)
qed

lemma dec_str_Cons: "\<exists>c ds. dec_str n = c # ds \<and> (c = 0x30 \<longrightarrow> ds = [])"
proof (induction n rule: dec_str.induct)
  case (1 n)
  show ?case
  proof (cases "n < 10")
    case True
    then show ?thesis by (subst dec_str.simps) simp
  next
    case False
    with 1 obtain c ds where "dec_str (n div 10) = c # ds" "c = 0x30 \<longrightarrow> ds = []" by auto
    moreover have "c \<noteq> 0x30"
    proof
      assume "c = 0x30"
      with calculation have "dec_val (dec_str (n div 10)) = 0" by (simp add: dec_val_Cons)
      with False show False by simp
    qed
    ultimately show ?thesis using False by (subst dec_str.simps) simp
  qed
qed

lemma dec_str_nonempty [simp]: "dec_str n \<noteq> []"
  using dec_str_Cons [of n] by auto

lemma cch_dec_str: "is_dec (cch (dec_str n @ t))"
  using dec_str_Cons [of n] dec_str_digits [of _ n] by (metis append_Cons cch_simps(2) list.set_intros(1))

lemma dec_str_not_hex:
  "cch t \<noteq> 0x78 \<Longrightarrow> \<not> (cch (dec_str n @ t) = 0x30 \<and> cch (tl (dec_str n @ t)) = 0x78)"
proof
  assume t: "cch t \<noteq> 0x78" and h: "cch (dec_str n @ t) = 0x30 \<and> cch (tl (dec_str n @ t)) = 0x78"
  obtain c ds where "dec_str n = c # ds" "c = 0x30 \<longrightarrow> ds = []" using dec_str_Cons by blast
  with t h show False by auto
qed

section \<open>Signed arithmetic that must not overflow\<close>

text \<open>The value of a C \<open>int\<close> computation, \<open>None\<close> where it leaves the 32-bit range.\<close>

definition chk32 :: "int \<Rightarrow> int option" where
  "chk32 x = (if - (2 ^ 31) \<le> x \<and> x < 2 ^ 31 then Some x else None)"

lemma chk32_Some [simp, memsafe]: "- (2 ^ 31) \<le> x \<Longrightarrow> x < 2 ^ 31 \<Longrightarrow> chk32 x = Some x"
  by (simp add: chk32_def)

lemma chk32_eq_Some: "chk32 x = Some y \<longleftrightarrow> y = x \<and> - (2 ^ 31) \<le> x \<and> x < 2 ^ 31"
  by (auto simp: chk32_def)

text \<open>Addition of two \<open>int\<close> values held as words.\<close>

definition add32 :: "u32 \<Rightarrow> u32 \<Rightarrow> u32 option" where
  "add32 x y = do { d \<leftarrow> chk32 (sint x + sint y); Some (word_of_int d) }"

text \<open>Reading back a signed value that is in range.\<close>

lemma sint_word_of_int32: "\<bar>x\<bar> < 2 ^ 31 \<Longrightarrow> sint (word_of_int x :: 32 word) = x"
  by (simp add: sint_sbintrunc' signed_take_bit_int_eq_self)

lemma sint_unat: "unat (x :: u32) < 2 ^ 31 \<Longrightarrow> sint x = int (unat x)"
proof -
  assume "unat x < 2 ^ 31"
  then have "int (unat x) < int (2 ^ 31)" by (simp only: of_nat_less_iff)
  then have "uint x < 2 ^ 31" by simp
  then have "signed_take_bit 31 (uint x) = uint x"
    using uint_ge_0 [of x] by (intro signed_take_bit_int_eq_self) linarith+
  then show ?thesis by (simp add: sint_uint)
qed

section \<open>Alignment\<close>

text \<open>\<open>x & ~(n - 1)\<close> for a power of two \<open>n\<close> rounds down to a multiple of \<open>n\<close>.\<close>

lemma and_not_mask:
  fixes y :: "'a::len word"
  shows "y AND NOT (mask k) = y - take_bit k y"
proof -
  have "take_bit k y + (y AND NOT (mask k)) = take_bit k y OR (y AND NOT (mask k))"
    by (rule disjunctive_add) (auto simp: bit_simps)
  also have "\<dots> = y" by (rule bit_eqI) (auto simp: bit_simps)
  finally show ?thesis by (simp add: algebra_simps)
qed

lemma unat_take_bit: "unat (take_bit k y :: 'a::len word) = unat y mod 2 ^ k"
  by (simp only: unsigned_take_bit_eq) (simp add: take_bit_eq_mod)

lemma unat_and_not_mask:
  fixes y :: "'a::len word"
  shows "unat (y AND NOT (mask k)) = unat y - unat y mod 2 ^ k"
proof -
  have t: "unat (take_bit k y) = unat y mod 2 ^ k"
    by (rule unat_take_bit)
  then have "take_bit k y \<le> y" by (simp add: word_le_nat_alt)
  then have "unat (y - take_bit k y) = unat y - unat y mod 2 ^ k"
    by (simp add: unat_sub t)
  then show ?thesis by (simp add: and_not_mask)
qed

end
