(* ===== verification/McGf.thy ===== *)
theory McGf
  imports Prelude
begin

text \<open>
  The field arithmetic of Classic McEliece, \<open>src/lib/crypto_bench/mceliece348864/gf.c\<close> and \<open>gf.h\<close>:
  elements of the field with 4096 elements are words of 12 bits, the coefficients of a polynomial
  modulo \<open>x^12 + x^3 + 1\<close>. The type \<open>gfe\<close> makes them an instance of the type class of fields, with
  the inverse the code computes; every operation of the code is shown to be the one of that field.
\<close>

section \<open>The code\<close>

definition GFBITS :: nat where "GFBITS = 12"

definition gf_iszero :: "u16 \<Rightarrow> u16" where
  "gf_iszero a = (let t = ucast a :: u32; t = t - 1; t = drop_bit 20 t in ucast t)"

definition gf_add_mc :: "u16 \<Rightarrow> u16 \<Rightarrow> u16" where
  "gf_add_mc in0 in1 = in0 XOR in1"

text \<open>The two steps that reduce a product.\<close>

definition gf_reduce :: "u32 \<Rightarrow> u16" where
  "gf_reduce tmp =
     (let t = tmp AND 0x7FC000; tmp = tmp XOR drop_bit 9 t; tmp = tmp XOR drop_bit 12 t;
          t = tmp AND 0x3000; tmp = tmp XOR drop_bit 9 t; tmp = tmp XOR drop_bit 12 t
      in ucast (tmp AND (push_bit GFBITS 1 - 1)))"

definition gf_mul :: "u16 \<Rightarrow> u16 \<Rightarrow> u16" where
  "gf_mul in0 in1 =
     (let t0 = ucast in0 :: u32; t1 = ucast in1 :: u32;
          tmp = t0 * (t1 AND 1);
          tmp = fold (\<lambda>i tmp. tmp XOR t0 * (t1 AND push_bit i 1)) [1..<GFBITS] tmp
      in gf_reduce tmp)"

definition gf_sq :: "u16 \<Rightarrow> u16" where
  "gf_sq inp =
     (let x = ucast inp :: u32;
          x = (x OR push_bit 8 x) AND 0x00FF00FF;
          x = (x OR push_bit 4 x) AND 0x0F0F0F0F;
          x = (x OR push_bit 2 x) AND 0x33333333;
          x = (x OR push_bit 1 x) AND 0x55555555
      in gf_reduce x)"

definition gf_inv :: "u16 \<Rightarrow> u16" where
  "gf_inv inp =
     (let out = inp;
          out = gf_sq out;
          tmp_11 = gf_mul out inp;
          out = gf_sq tmp_11;
          out = gf_sq out;
          tmp_1111 = gf_mul out tmp_11;
          out = gf_sq tmp_1111;
          out = gf_sq out;
          out = gf_sq out;
          out = gf_sq out;
          out = gf_mul out tmp_1111;
          out = gf_sq out;
          out = gf_sq out;
          out = gf_mul out tmp_11;
          out = gf_sq out;
          out = gf_mul out inp
      in gf_sq out)"

definition gf_frac :: "u16 \<Rightarrow> u16 \<Rightarrow> u16" where
  "gf_frac den num = gf_mul (gf_inv den) num"

definition gf_mul2 :: "u16 \<Rightarrow> u16 \<Rightarrow> u16 \<Rightarrow> u64" where
  "gf_mul2 a b0 b1 =
     (let t0 = ucast a :: u64; t1 = ucast b1 :: u64; t1 = push_bit 32 t1 OR ucast b0;
          (tmp, mask) = fold (\<lambda>i (tmp, mask). (tmp XOR t0 * (t1 AND mask), mask + mask)) [0..<GFBITS] (0, 0x0000000100000001);
          t = tmp AND 0x007FC000007FC000; tmp = tmp XOR (drop_bit 9 t XOR drop_bit 12 t);
          t = tmp AND 0x0000300000003000; tmp = tmp XOR (drop_bit 9 t XOR drop_bit 12 t)
      in tmp AND 0x00000FFF00000FFF)"

section \<open>Linear functions on words\<close>

text \<open>A function that respects exclusive or is determined by its values at the powers of 2.\<close>

definition xlinear :: "('a::len word \<Rightarrow> 'b::len word) \<Rightarrow> bool" where
  "xlinear f \<longleftrightarrow> (\<forall>x y. f (x XOR y) = f x XOR f y)"

named_theorems xlin \<open>linear functions\<close>

lemma xlinear_0: "xlinear f \<Longrightarrow> f 0 = 0"
  by (metis xlinear_def xor_self_eq)

lemma xlinear_id [xlin]: "xlinear (\<lambda>x. x)"
  and xlinear_zero [xlin]: "xlinear (\<lambda>x. 0)"
  by (simp_all add: xlinear_def)

lemma xlinear_xor [xlin]: "xlinear f \<Longrightarrow> xlinear g \<Longrightarrow> xlinear (\<lambda>x. f x XOR g x)"
  by (simp add: xlinear_def xor.left_commute xor.assoc)

lemma xlinear_and [xlin]: "xlinear f \<Longrightarrow> xlinear (\<lambda>x. f x AND m)"
  unfolding xlinear_def
proof (intro allI bit_word_eqI)
  fix x y n assume "\<forall>x y. f (x XOR y) = f x XOR f y"
  then show "bit (f (x XOR y) AND m) n = bit (f x AND m XOR f y AND m) n" by (auto simp: bit_xor_iff bit_and_iff)
qed

lemma xlinear_push [xlin]: "xlinear f \<Longrightarrow> xlinear (\<lambda>x. push_bit n (f x))"
  by (simp add: xlinear_def push_bit_xor)

lemma xlinear_drop [xlin]: "xlinear f \<Longrightarrow> xlinear (\<lambda>x. drop_bit n (f x))"
  by (simp add: xlinear_def drop_bit_xor)

lemma xlinear_ucast [xlin]: "xlinear f \<Longrightarrow> xlinear (\<lambda>x. ucast (f x) :: 'c::len word)"
  by (simp add: xlinear_def unsigned_xor_eq)

lemma xlinear_if_bit [xlin]: "xlinear f \<Longrightarrow> xlinear (\<lambda>x. if bit (f x) i then c else 0)"
  by (auto simp: xlinear_def bit_xor_iff)

lemma xlinear_if [xlin]: "xlinear f \<Longrightarrow> xlinear (\<lambda>x. if P then f x else 0)"
  by (auto simp: xlinear_def)

lemma xlinear_comp: "xlinear f \<Longrightarrow> xlinear g \<Longrightarrow> xlinear (\<lambda>x. f (g x))"
  by (simp add: xlinear_def)

lemma xlinear_funpow:
  fixes f :: "'a::len word \<Rightarrow> 'a word"
  shows "xlinear f \<Longrightarrow> xlinear (f ^^ n)"
  by (induction n) (simp_all add: xlinear_def)

lemma word_split_top:
  fixes x :: "'a::len word"
  shows "take_bit (Suc n) x = take_bit n x XOR (if bit x n then 2 ^ n else 0)"
proof (rule bit_word_eqI)
  fix i assume "i < LENGTH('a)"
  then show "bit (take_bit (Suc n) x) i = bit (take_bit n x XOR (if bit x n then 2 ^ n else 0)) i"
    by (cases "i = n") (auto simp: bit_take_bit_iff bit_xor_iff bit_exp_iff less_Suc_eq)
qed

lemma xlinear_ext:
  assumes "xlinear f" "xlinear g" "\<And>i. i < n \<Longrightarrow> f (2 ^ i) = g (2 ^ i)" "take_bit n x = x"
  shows "f x = g x"
proof -
  have "f (take_bit k x) = g (take_bit k x)" if "k \<le> n" for k
    using that
  proof (induction k)
    case 0
    then show ?case using xlinear_0[OF assms(1)] xlinear_0[OF assms(2)] by simp
  next
    case (Suc k)
    then show ?case
      unfolding word_split_top assms(1,2)[unfolded xlinear_def, rule_format]
      using assms(3)[of k] xlinear_0[OF assms(1)] xlinear_0[OF assms(2)] by simp
  qed
  then show ?thesis using assms(4) by (metis order_refl)
qed

section \<open>The field\<close>

text \<open>Multiplication by \<open>x\<close>, and the product as a sum of shifted copies.\<close>

definition gf_xt :: "u16 \<Rightarrow> u16" where
  "gf_xt a = (push_bit 1 a AND 0xFFF) XOR (if bit a 11 then 9 else 0)"

fun xsum :: "(nat \<Rightarrow> 'a::len word) \<Rightarrow> nat \<Rightarrow> 'a word" where
  "xsum f 0 = 0"
| "xsum f (Suc n) = xsum f n XOR f n"

definition fmul :: "u16 \<Rightarrow> u16 \<Rightarrow> u16" where
  "fmul a b = xsum (\<lambda>i. if bit b i then (gf_xt ^^ i) a else 0) 12"

definition is_gf :: "u16 \<Rightarrow> bool" where
  "is_gf a \<longleftrightarrow> take_bit 12 a = a"

lemma is_gf_less: "is_gf a \<longleftrightarrow> a < 4096"
proof -
  have "take_bit 12 a = a \<longleftrightarrow> unat a < 2 ^ 12"
    by (metis mod_less unat_take_bit word_unat_eq_iff mod_less_divisor zero_less_numeral zero_less_power)
  then show ?thesis by (simp add: is_gf_def word_less_nat_alt)
qed

lemma xlinear_xsum [xlin]: "(\<And>i. i < n \<Longrightarrow> xlinear (\<lambda>x. f x i)) \<Longrightarrow> xlinear (\<lambda>x. xsum (f x) n)"
  by (induction n) (simp_all add: xlinear_zero xlinear_xor)

lemma xlinear_of_xsum: "xlinear f \<Longrightarrow> f (xsum g n) = xsum (\<lambda>i. f (g i)) n"
  by (induction n) (simp_all add: xlinear_def xlinear_0)

lemma xsum_cong: "(\<And>i. i < n \<Longrightarrow> f i = g i) \<Longrightarrow> xsum f n = xsum g n"
  by (induction n) simp_all

lemma xsum_single: "j < n \<Longrightarrow> xsum (\<lambda>i. if i = j then f i else 0) n = f j"
proof (induction n)
  case (Suc n)
  have "xsum (\<lambda>i. if i = n then f i else 0) m = 0" if "m \<le> n" for m
    using that by (induction m) simp_all
  then show ?case using Suc by (auto simp: less_Suc_eq)
qed simp

lemma xlinear_xt [xlin]: "xlinear gf_xt"
proof -
  have "xlinear (\<lambda>a :: u16. (push_bit 1 a AND 0xFFF) XOR (if bit a 11 then 9 else 0))" by (intro xlin)
  then show ?thesis by (simp add: gf_xt_def[abs_def])
qed

lemma xlinear_fmul_left [xlin]: "xlinear (\<lambda>a. fmul a b)"
  unfolding fmul_def by (intro xlin xlinear_comp[OF xlinear_funpow[OF xlinear_xt]])

lemma xlinear_fmul_right [xlin]: "xlinear (fmul a)"
proof -
  have "xlinear (\<lambda>b. xsum (\<lambda>i. if bit b i then (gf_xt ^^ i) a else 0) 12)" by (intro xlin)
  then show ?thesis by (simp add: fmul_def[abs_def])
qed

lemma fmul_pow2: "j < 12 \<Longrightarrow> fmul a (2 ^ j) = (gf_xt ^^ j) a"
proof -
  assume j: "j < 12"
  have "fmul a (2 ^ j) = xsum (\<lambda>i. if i = j then (gf_xt ^^ i) a else 0) 12"
    unfolding fmul_def by (rule xsum_cong) (use j in \<open>auto simp: bit_exp_iff\<close>)
  then show ?thesis using j by (simp only: xsum_single)
qed

lemma all_less_12: "(\<forall>j<12. P j) \<longleftrightarrow> list_all P [0..<12]"
  by (auto simp: list_all_iff)

lemma xt_power: "j < 12 \<Longrightarrow> (gf_xt ^^ j) 1 = 2 ^ j"
proof -
  have "\<forall>j<12. (gf_xt ^^ j) 1 = 2 ^ j" unfolding all_less_12
    by (simp add: upt_conv_Cons gf_xt_def funpow.simps eval_nat_numeral bit_numeral_word_iff)
  then show "j < 12 \<Longrightarrow> ?thesis" by simp
qed

lemma xt_add: "(gf_xt ^^ (i + j)) a = (gf_xt ^^ i) ((gf_xt ^^ j) a)"
  by (simp add: funpow_add)

lemma xt_12: "(gf_xt ^^ 12) 1 = (gf_xt ^^ 3) 1 XOR 1"
proof -
  have "(gf_xt ^^ 12) 1 = gf_xt ((gf_xt ^^ 11) 1)" using xt_add[of 1 11 1] by simp
  also have "\<dots> = gf_xt 2048" using xt_power[of 11] by simp
  also have "\<dots> = (gf_xt ^^ 3) 1 XOR 1" using xt_power[of 3] by (simp add: gf_xt_def bit_numeral_word_iff)
  finally show ?thesis .
qed

lemma xt_wraps: "is_gf a \<Longrightarrow> (gf_xt ^^ 12) a = (gf_xt ^^ 3) a XOR a"
  unfolding is_gf_def
proof (rule xlinear_ext[of "gf_xt ^^ 12" "\<lambda>a. (gf_xt ^^ 3) a XOR a" 12 a])
  show "xlinear (\<lambda>a. (gf_xt ^^ 3) a XOR a)" by (intro xlin xlinear_funpow)
  fix i :: nat assume i: "i < 12"
  have "(gf_xt ^^ 12) (2 ^ i) = (gf_xt ^^ i) ((gf_xt ^^ 12) 1)"
    unfolding xt_power[OF i, symmetric] xt_add[symmetric] by (simp add: add.commute)
  also have "\<dots> = (gf_xt ^^ i) ((gf_xt ^^ 3) 1) XOR (gf_xt ^^ i) 1"
    unfolding xt_12 using xlinear_funpow[OF xlinear_xt, of i] by (simp add: xlinear_def)
  also have "\<dots> = (gf_xt ^^ 3) (2 ^ i) XOR 2 ^ i"
    unfolding xt_power[OF i, symmetric] xt_add[symmetric] by (simp add: add.commute)
  finally show "(gf_xt ^^ 12) (2 ^ i) = (gf_xt ^^ 3) (2 ^ i) XOR 2 ^ i" .
qed (rule xlinear_funpow[OF xlinear_xt])

lemma is_gf_0 [simp]: "is_gf 0" and is_gf_1 [simp]: "is_gf 1"
  by (simp_all add: is_gf_less)

lemma is_gf_xor: "is_gf a \<Longrightarrow> is_gf b \<Longrightarrow> is_gf (a XOR b)"
  by (simp add: is_gf_def)

lemma is_gf_xt: "is_gf (gf_xt a)"
proof -
  have "is_gf (push_bit 1 a AND 0xFFF)"
  proof -
    have m: "(0xFFF :: u16) = mask 12" by (simp add: mask_eq_exp_minus_1)
    show ?thesis unfolding m is_gf_def by (simp only: take_bit_eq_mask[symmetric] take_bit_take_bit) simp
  qed
  moreover have "is_gf (if bit a 11 then 9 else 0)" by (simp add: is_gf_less)
  ultimately show ?thesis unfolding gf_xt_def by (rule is_gf_xor)
qed

lemma is_gf_fmul: "is_gf a \<Longrightarrow> is_gf (fmul a b)"
proof -
  assume a: "is_gf a"
  have p: "is_gf ((gf_xt ^^ i) a)" for i by (cases i) (simp_all add: a is_gf_xt)
  have "is_gf (xsum (\<lambda>i. if bit b i then (gf_xt ^^ i) a else 0) n)" for n
    by (induction n) (simp_all add: p is_gf_xor)
  then show ?thesis by (simp add: fmul_def)
qed

lemma fmul_commute:
  assumes "is_gf a" "is_gf b"
  shows "fmul a b = fmul b a"
proof (rule xlinear_ext[where n = 12 and x = a])
  show "xlinear (\<lambda>a. fmul a b)" "xlinear (fmul b)" by (rule xlin)+
  show "take_bit 12 a = a" using assms(1) by (simp add: is_gf_def)
  fix i :: nat assume i: "i < 12"
  show "fmul (2 ^ i) b = fmul b (2 ^ i)"
  proof (rule xlinear_ext[where n = 12 and x = b])
    show "xlinear (fmul (2 ^ i))" "xlinear (\<lambda>b. fmul b (2 ^ i))" by (rule xlin)+
    show "take_bit 12 b = b" using assms(2) by (simp add: is_gf_def)
    fix j :: nat assume j: "j < 12"
    have "fmul (2 ^ i) (2 ^ j) = (gf_xt ^^ (j + i)) 1" unfolding xt_add xt_power[OF i] by (rule fmul_pow2[OF j])
    moreover have "fmul (2 ^ j) (2 ^ i) = (gf_xt ^^ (i + j)) 1" unfolding xt_add xt_power[OF j] by (rule fmul_pow2[OF i])
    ultimately show "fmul (2 ^ i) (2 ^ j) = fmul (2 ^ j) (2 ^ i)" by (simp only: add.commute)
  qed
qed

lemma xt_fmul:
  assumes "is_gf a" "is_gf b"
  shows "gf_xt (fmul a b) = fmul a (gf_xt b)"
proof (rule xlinear_ext[where n = 12 and x = b])
  show "xlinear (\<lambda>b. gf_xt (fmul a b))" by (rule xlinear_comp) (rule xlin)+
  show "xlinear (\<lambda>b. fmul a (gf_xt b))" by (rule xlinear_comp) (rule xlin)+
  show "take_bit 12 b = b" using assms(2) by (simp add: is_gf_def)
  fix j :: nat assume j: "j < 12"
  show "gf_xt (fmul a (2 ^ j)) = fmul a (gf_xt (2 ^ j))"
  proof (cases "j = 11")
    case True
    have "gf_xt (2 ^ 11) = 2 ^ 3 XOR 2 ^ 0" by (simp add: gf_xt_def bit_numeral_word_iff)
    then have "fmul a (gf_xt (2 ^ 11)) = fmul a (2 ^ 3) XOR fmul a (2 ^ 0)"
      using xlinear_fmul_right[of a] unfolding xlinear_def by metis
    also have "\<dots> = (gf_xt ^^ 12) a" using xt_wraps[OF assms(1)] fmul_pow2[of 3 a] fmul_pow2[of 0 a] by simp
    also have "\<dots> = gf_xt (fmul a (2 ^ 11))" using fmul_pow2[of 11 a] by (simp add: eval_nat_numeral)
    finally show ?thesis using True by simp
  next
    case False
    then have "gf_xt (2 ^ j) = 2 ^ Suc j" using xt_power[OF j] xt_power[of "Suc j"] j by simp
    then show ?thesis using fmul_pow2[of j a] fmul_pow2[of "Suc j" a] j False by simp
  qed
qed

lemma fmul_assoc:
  assumes "is_gf a" "is_gf b" "is_gf c"
  shows "fmul (fmul a b) c = fmul a (fmul b c)"
proof (rule xlinear_ext[where n = 12 and x = c])
  show "xlinear (fmul (fmul a b))" by (rule xlin)
  show "xlinear (\<lambda>c. fmul a (fmul b c))" by (rule xlinear_comp) (rule xlin)+
  show "take_bit 12 c = c" using assms(3) by (simp add: is_gf_def)
  fix k :: nat assume k: "k < 12"
  have "(gf_xt ^^ n) (fmul a b) = fmul a ((gf_xt ^^ n) b)" for n
  proof (induction n)
    case (Suc n)
    have "is_gf ((gf_xt ^^ n) b)" by (cases n) (simp_all add: assms is_gf_xt)
    then show ?case using Suc xt_fmul[OF assms(1)] by simp
  qed simp
  then show "fmul (fmul a b) (2 ^ k) = fmul a (fmul b (2 ^ k))" by (simp add: fmul_pow2[OF k])
qed

lemma fmul_1: "fmul a 1 = a"
  using fmul_pow2[of 0 a] by simp

section \<open>The code computes in it\<close>

lemma xlinear_reduce [xlin]: "xlinear f \<Longrightarrow> xlinear (\<lambda>x. gf_reduce (f x))"
  unfolding gf_reduce_def Let_def by (intro xlin)

text \<open>A shift by \<open>i\<close> followed by the reduction multiplies \<open>i\<close> times by \<open>x\<close>.\<close>

lemma reduce_low:
  assumes "take_bit 12 y = y"
  shows "gf_reduce y = ucast y"
proof (rule xlinear_ext[where n = 12 and x = y])
  show "xlinear gf_reduce" using xlinear_reduce[OF xlinear_id] by simp
  show "xlinear (\<lambda>y :: u32. ucast y :: u16)" by (intro xlin)
  have "\<forall>i<12. gf_reduce (2 ^ i) = ucast (2 ^ i :: u32)" unfolding all_less_12
    by (simp add: upt_conv_Cons gf_reduce_def GFBITS_def)
  then show "gf_reduce (2 ^ i) = ucast (2 ^ i :: u32)" if "i < 12" for i using that by simp
qed (rule assms)

lemma all_less_22: "(\<forall>j<22. P j) \<longleftrightarrow> list_all P [0..<22]"
  by (auto simp: list_all_iff)

lemma reduce_step:
  assumes "take_bit 22 y = y"
  shows "gf_reduce (push_bit 1 y) = gf_xt (gf_reduce y)"
proof (rule xlinear_ext[where n = 22 and x = y])
  show "xlinear (\<lambda>y. gf_reduce (push_bit 1 y))" by (intro xlin)
  show "xlinear (\<lambda>y. gf_xt (gf_reduce y))" by (rule xlinear_comp[OF xlinear_xt]) (intro xlin)
  have "\<forall>i<22. gf_reduce (push_bit 1 (2 ^ i)) = gf_xt (gf_reduce (2 ^ i))" unfolding all_less_22
    by (simp add: upt_conv_Cons gf_reduce_def gf_xt_def GFBITS_def bit_numeral_word_iff)
  then show "gf_reduce (push_bit 1 (2 ^ i)) = gf_xt (gf_reduce (2 ^ i))" if "i < 22" for i using that by simp
qed (rule assms)

lemma take_bit_ucast:
  fixes a :: "'a::len word"
  assumes "take_bit n a = a" "n \<le> LENGTH('b)" "LENGTH('a) \<le> LENGTH('b)"
  shows "take_bit n (ucast a :: 'b::len word) = ucast a"
  by (rule bit_word_eqI) (metis assms(1) bit_take_bit_iff bit_ucast_iff)

lemma ucast_u16_u32 [simp]: "ucast (ucast (a :: u16) :: u32) = a"
  by (rule bit_word_eqI) (auto simp: bit_ucast_iff dest: bit_imp_le_length)

lemma reduce_shift:
  assumes "is_gf a" "i \<le> 11"
  shows "gf_reduce (push_bit i (ucast a)) = (gf_xt ^^ i) a"
  using assms(2)
proof (induction i)
  case 0
  have "take_bit 12 (ucast a :: u32) = ucast a" using assms(1) by (intro take_bit_ucast) (simp_all add: is_gf_def)
  then show ?case using reduce_low[of "ucast a"] by simp
next
  case (Suc i)
  have "take_bit 22 (push_bit i (ucast a :: u32)) = push_bit i (ucast a)"
  proof (rule bit_word_eqI)
    fix n assume "n < LENGTH(32)"
    have "bit a (n - i) \<Longrightarrow> n - i < 12" using assms(1) by (metis bit_take_bit_iff is_gf_def)
    then show "bit (take_bit 22 (push_bit i (ucast a :: u32))) n = bit (push_bit i (ucast a :: u32)) n"
      using Suc.prems by (auto simp: bit_take_bit_iff bit_push_bit_iff bit_ucast_iff)
  qed
  from reduce_step[OF this] have "gf_reduce (push_bit (Suc i) (ucast a)) = gf_xt (gf_reduce (push_bit i (ucast a)))"
    by (simp add: push_bit_push_bit)
  then show ?case using Suc by simp
qed

lemma mult_bit:
  "(x :: 'a::len word) * (y AND 2 ^ i) = (if bit y i then push_bit i x else 0)"
proof -
  have "y AND 2 ^ i = (if bit y i then 2 ^ i else 0)"
    by (rule bit_word_eqI) (auto simp: bit_and_iff bit_exp_iff)
  then show ?thesis by (simp add: push_bit_eq_mult mult.commute)
qed

lemma fold_xor_xsum: "fold (\<lambda>i r. r XOR f i) [0..<n] a = a XOR xsum f n"
  by (induction n) (simp_all add: xor.assoc)

theorem gf_mul_fmul:
  assumes "is_gf a"
  shows "gf_mul a b = fmul a b"
proof -
  let ?f = "\<lambda>i. ucast a * (ucast b AND push_bit i 1) :: u32"
  have "fold (\<lambda>i tmp. tmp XOR ?f i) [1..<GFBITS] (?f 0) = fold (\<lambda>i tmp. tmp XOR ?f i) [0..<GFBITS] 0"
    by (simp add: GFBITS_def upt_conv_Cons)
  also have "\<dots> = xsum ?f 12" by (simp only: fold_xor_xsum xor.left_neutral GFBITS_def)
  also have "\<dots> = xsum (\<lambda>i. if bit b i then push_bit i (ucast a) else 0) 12"
    by (rule xsum_cong) (simp add: mult_bit bit_ucast_iff)
  finally have "gf_mul a b = gf_reduce (xsum (\<lambda>i. if bit b i then push_bit i (ucast a) else 0) 12)"
    unfolding gf_mul_def Let_def by simp
  also have "\<dots> = xsum (\<lambda>i. gf_reduce (if bit b i then push_bit i (ucast a) else 0)) 12"
    by (rule xlinear_of_xsum) (use xlinear_reduce[OF xlinear_id] in simp)
  also have "\<dots> = fmul a b"
    unfolding fmul_def by (rule xsum_cong) (use reduce_shift[OF assms] xlinear_0[OF xlinear_reduce[OF xlinear_id]] in auto)
  finally show ?thesis .
qed

text \<open>The bits are spread by shifts that do not overlap.\<close>

lemma spread_step:
  fixes z :: "'a::len word"
  assumes "z AND M = z" "M AND push_bit k M AND m = 0"
  shows "(z OR push_bit k z) AND m = (z XOR push_bit k z) AND m"
proof (rule bit_word_eqI)
  fix n assume n: "n < LENGTH('a)"
  have zM: "bit z i \<Longrightarrow> bit M i" for i using assms(1) by (metis bit_and_iff)
  have "\<not> bit (M AND push_bit k M AND m) n" unfolding assms(2) by simp
  then have "\<not> (bit M n \<and> k \<le> n \<and> bit M (n - k) \<and> bit m n)" using n by (simp add: bit_and_iff bit_push_bit_iff)
  then show "bit ((z OR push_bit k z) AND m) n = bit ((z XOR push_bit k z) AND m) n"
    using zM by (auto simp: bit_and_iff bit_or_iff bit_xor_iff bit_push_bit_iff)
qed

definition spread :: "u32 \<Rightarrow> u32" where
  "spread x =
     (let x = (x XOR push_bit 8 x) AND 0x00FF00FF; x = (x XOR push_bit 4 x) AND 0x0F0F0F0F;
          x = (x XOR push_bit 2 x) AND 0x33333333
      in (x XOR push_bit 1 x) AND 0x55555555)"

lemma gf_sq_spread: "gf_sq a = gf_reduce (spread (ucast a))"
proof -
  have m: "(0xFFFF :: u32) = mask 16" by (simp add: mask_eq_exp_minus_1)
  have "(ucast a :: u32) AND 0xFFFF = ucast a"
    unfolding m by (rule bit_word_eqI) (auto simp: bit_and_iff bit_mask_iff bit_ucast_iff dest: bit_imp_le_length)
  then have 1: "(ucast a OR push_bit 8 (ucast a)) AND 0x00FF00FF = (ucast a XOR push_bit 8 (ucast a)) AND (0x00FF00FF :: u32)"
    by (rule spread_step) simp
  have 2: "((z AND 0x00FF00FF) OR push_bit 4 (z AND 0x00FF00FF)) AND 0x0F0F0F0F =
      ((z AND 0x00FF00FF) XOR push_bit 4 (z AND 0x00FF00FF)) AND 0x0F0F0F0F" for z :: u32
    by (rule spread_step[where M = "0x00FF00FF"]) (simp_all add: and.assoc)
  have 3: "((z AND 0x0F0F0F0F) OR push_bit 2 (z AND 0x0F0F0F0F)) AND 0x33333333 =
      ((z AND 0x0F0F0F0F) XOR push_bit 2 (z AND 0x0F0F0F0F)) AND 0x33333333" for z :: u32
    by (rule spread_step[where M = "0x0F0F0F0F"]) (simp_all add: and.assoc)
  have 4: "((z AND 0x33333333) OR push_bit 1 (z AND 0x33333333)) AND 0x55555555 =
      ((z AND 0x33333333) XOR push_bit 1 (z AND 0x33333333)) AND 0x55555555" for z :: u32
    by (rule spread_step[where M = "0x33333333"]) (simp_all add: and.assoc)
  show ?thesis unfolding gf_sq_def spread_def Let_def 1 2 3 4 ..
qed

lemma xlinear_sq [xlin]: "xlinear gf_sq"
proof -
  have "xlinear (\<lambda>a :: u16. gf_reduce (spread (ucast a)))"
    unfolding spread_def Let_def by (intro xlin)
  then show ?thesis by (simp add: gf_sq_spread[abs_def])
qed

text \<open>The squares of the powers of \<open>x\<close>.\<close>

definition sq_table :: "u16 list" where
  "sq_table = [1, 4, 16, 64, 256, 1024, 9, 36, 144, 576, 2304, 1042]"

lemma gf_sq_basis: "i < 12 \<Longrightarrow> gf_sq (2 ^ i) = sq_table ! i"
proof -
  have "\<forall>i<12. gf_sq (2 ^ i) = sq_table ! i" unfolding all_less_12
    by (simp add: upt_conv_Cons gf_sq_def gf_reduce_def GFBITS_def sq_table_def)
  then show "i < 12 \<Longrightarrow> ?thesis" by simp
qed

lemma is_gf_pow2: "i < 12 \<Longrightarrow> is_gf (2 ^ i)"
  unfolding is_gf_def by (rule bit_word_eqI) (auto simp: bit_take_bit_iff bit_exp_iff)

lemma xlinear_gf_eq:
  assumes "\<And>a b. is_gf a \<Longrightarrow> is_gf b \<Longrightarrow> f (a XOR b) = f a XOR f b" "\<And>a b. is_gf a \<Longrightarrow> is_gf b \<Longrightarrow> g (a XOR b) = g a XOR g b"
    "\<And>i. i < 12 \<Longrightarrow> f (2 ^ i) = g (2 ^ i)" "is_gf a"
  shows "f a = (g a :: u16)"
proof -
  have z: "f 0 = 0" "g 0 = 0" using assms(1)[of 0 0] assms(2)[of 0 0] by simp_all
  have gf: "is_gf (take_bit k a)" "is_gf (if bit a k then 2 ^ k else 0)" if "k < 12" for k
    using that is_gf_pow2 by (simp_all add: is_gf_def)
  have "f (take_bit k a) = g (take_bit k a)" if "k \<le> 12" for k
    using that
  proof (induction k)
    case (Suc k)
    then show ?case unfolding word_split_top using gf[of k] assms(1-3) z by simp
  qed (simp add: z)
  then show ?thesis using assms(4) by (metis is_gf_def order_refl)
qed

lemma fmul_self_xor: "is_gf a \<Longrightarrow> is_gf b \<Longrightarrow> fmul (a XOR b) (a XOR b) = fmul a a XOR fmul b b"
  using xlinear_fmul_left xlinear_fmul_right fmul_commute[of a b]
  by (simp add: xlinear_def xor.assoc xor.left_commute)

lemma sq_table_xt: "i < 12 \<Longrightarrow> sq_table ! i = (gf_xt ^^ (i + i)) 1"
proof -
  have "\<forall>i<12. sq_table ! i = (gf_xt ^^ (i + i)) 1" unfolding all_less_12
    by (simp add: upt_conv_Cons sq_table_def gf_xt_def funpow.simps eval_nat_numeral bit_numeral_word_iff)
  then show "i < 12 \<Longrightarrow> ?thesis" by simp
qed

theorem gf_sq_fmul:
  assumes "is_gf a"
  shows "gf_sq a = fmul a a"
proof (rule xlinear_gf_eq[OF _ _ _ assms])
  show "gf_sq (a XOR b) = gf_sq a XOR gf_sq b" for a b using xlinear_sq by (simp add: xlinear_def)
  show "is_gf a \<Longrightarrow> is_gf b \<Longrightarrow> fmul (a XOR b) (a XOR b) = fmul a a XOR fmul b b" for a b by (rule fmul_self_xor)
  show "gf_sq (2 ^ i) = fmul (2 ^ i) (2 ^ i)" if "i < 12" for i
    unfolding fmul_pow2[OF that] gf_sq_basis[OF that] sq_table_xt[OF that] xt_add using xt_power[OF that] by simp
qed

section \<open>The type of field elements\<close>

typedef gfe = "{a. is_gf a}" morphisms rep_gfe abs_gfe
  using is_gf_0 by blast

setup_lifting type_definition_gfe

lemma is_gf_rep [simp]: "is_gf (rep_gfe a)"
  using rep_gfe by simp

lemma rep_abs_gfe: "is_gf a \<Longrightarrow> rep_gfe (abs_gfe a) = a"
  by (simp add: abs_gfe_inverse)

instantiation gfe :: comm_ring_1
begin

lift_definition zero_gfe :: gfe is 0 by simp
lift_definition one_gfe :: gfe is 1 by simp
lift_definition plus_gfe :: "gfe \<Rightarrow> gfe \<Rightarrow> gfe" is "(XOR)" by (rule is_gf_xor)
lift_definition minus_gfe :: "gfe \<Rightarrow> gfe \<Rightarrow> gfe" is "(XOR)" by (rule is_gf_xor)
lift_definition uminus_gfe :: "gfe \<Rightarrow> gfe" is "\<lambda>a. a" .
lift_definition times_gfe :: "gfe \<Rightarrow> gfe \<Rightarrow> gfe" is fmul by (rule is_gf_fmul)

instance
proof
  fix a b c :: gfe
  show "a + b + c = a + (b + c)" by transfer (rule xor.assoc)
  show "a + b = b + a" by transfer (rule xor.commute)
  show "0 + a = a" by transfer simp
  show "- a + a = 0" by transfer simp
  show "a - b = a + - b" by transfer simp
  show "a * b * c = a * (b * c)" by transfer (rule fmul_assoc)
  show "a * b = b * a" by transfer (rule fmul_commute)
  show "1 * a = a" by transfer (metis fmul_1 fmul_commute is_gf_1)
  show "(a + b) * c = a * c + b * c" by transfer (use xlinear_fmul_left in \<open>simp add: xlinear_def\<close>)
  show "(0 :: gfe) \<noteq> 1" by transfer simp
qed

end

lemma gfe_double [simp]: "(a :: gfe) + a = 0"
  by transfer simp

lemma gfe_2 [simp]: "(2 :: gfe) = 0"
  by (metis one_add_one gfe_double)

lemma gfe_minus [simp]: "(a :: gfe) - b = a + b" "- a = a"
  by (transfer, simp)+

lemma gfe_add_cancel [simp]: "(a :: gfe) + (a + b) = b" "b + a + a = b"
  by (metis add.assoc add.left_neutral gfe_double, metis add.assoc add.right_neutral gfe_double)

lemma gfe_eq_iff: "(a :: gfe) = b \<longleftrightarrow> a + b = 0"
  by (metis gfe_double gfe_add_cancel(2) add.left_neutral)

text \<open>The element \<open>x\<close>.\<close>

definition gx :: gfe where "gx = abs_gfe 2"

lemma rep_gx: "rep_gfe gx = 2"
  by (simp add: gx_def rep_abs_gfe is_gf_less)

lemma rep_gx_power: "i < 12 \<Longrightarrow> rep_gfe (gx ^ i) = 2 ^ i"
proof (induction i)
  case (Suc i)
  have "rep_gfe (gx ^ Suc i) = fmul (rep_gfe (gx ^ i)) (2 ^ 1)"
    using fmul_commute[OF is_gf_pow2[of 1] is_gf_rep] by (simp add: times_gfe.rep_eq rep_gx)
  then show ?case using Suc fmul_pow2[of 1 "2 ^ i"] xt_power[of i] xt_power[of "Suc i"] by simp
qed (simp add: one_gfe.rep_eq)

lemma gx_12: "gx ^ 12 = gx ^ 3 + 1"
proof (rule rep_gfe_inject[THEN iffD1])
  have "rep_gfe (gx ^ 12) = fmul (rep_gfe (gx ^ 11)) (2 ^ 1)"
    using power_Suc2[of gx 11] by (simp add: times_gfe.rep_eq rep_gx)
  also have "\<dots> = gf_xt ((gf_xt ^^ 11) 1)" using rep_gx_power[of 11] fmul_pow2[of 1] xt_power[of 11] by simp
  also have "\<dots> = (gf_xt ^^ 3) 1 XOR 1" using xt_12 xt_add[of 1 11 1] by simp
  also have "\<dots> = rep_gfe (gx ^ 3 + 1)" using xt_power[of 3] rep_gx_power[of 3] by (simp add: plus_gfe.rep_eq one_gfe.rep_eq)
  finally show "rep_gfe (gx ^ 12) = rep_gfe (gx ^ 3 + 1)" .
qed

text \<open>Every element is the sum of the powers of \<open>x\<close> its bits select.\<close>

definition of_bits :: "(nat \<Rightarrow> bool) \<Rightarrow> nat \<Rightarrow> gfe" where
  "of_bits f n = (\<Sum>i<n. if f i then gx ^ i else 0)"

lemma rep_of_bits: "n \<le> 12 \<Longrightarrow> rep_gfe (of_bits f n) = xsum (\<lambda>i. if f i then 2 ^ i else 0) n"
  by (induction n) (simp_all add: of_bits_def zero_gfe.rep_eq plus_gfe.rep_eq rep_gx_power)

lemma xsum_bits: "take_bit n (a :: 'a::len word) = xsum (\<lambda>i. if bit a i then 2 ^ i else 0) n"
  by (induction n) (simp_all add: word_split_top)

lemma gfe_of_bits: "of_bits (bit (rep_gfe a)) 12 = a"
proof -
  have "rep_gfe (of_bits (bit (rep_gfe a)) 12) = take_bit 12 (rep_gfe a)" by (simp add: rep_of_bits xsum_bits)
  then show ?thesis using is_gf_rep[of a] by (simp add: is_gf_def rep_gfe_inject)
qed

lemma bit_of_bits: "i < 12 \<Longrightarrow> bit (rep_gfe (of_bits f 12)) i = f i"
proof -
  assume i: "i < 12"
  have "bit (xsum (\<lambda>i. if f i then 2 ^ i else 0 :: u16) n) i = (i < n \<and> f i)" if "n \<le> 12" for n
    using that by (induction n) (auto simp: bit_xor_iff bit_exp_iff less_Suc_eq)
  then show ?thesis using i by (simp add: rep_of_bits)
qed

lemma gf_mul_rep [simp]: "gf_mul (rep_gfe a) (rep_gfe b) = rep_gfe (a * b)"
  by (simp add: gf_mul_fmul times_gfe.rep_eq)

lemma gf_sq_rep [simp]: "gf_sq (rep_gfe a) = rep_gfe (a ^ 2)"
  by (simp add: gf_sq_fmul power2_eq_square times_gfe.rep_eq)

lemma gf_inv_power: "gf_inv (rep_gfe a) = rep_gfe (a ^ 4094)"
proof -
  have sq: "x = a ^ n \<Longrightarrow> x ^ 2 = a ^ (n * 2)" for x n by (simp add: power_mult)
  have mu: "x = a ^ n \<Longrightarrow> y = a ^ m \<Longrightarrow> x * y = a ^ (n + m)" for x y n m by (simp add: power_add)
  have a: "a = a ^ 1" by simp
  note t3 = mu[OF sq[OF a] a]
  note t15 = mu[OF sq[OF sq[OF t3]] t3]
  note t255 = mu[OF sq[OF sq[OF sq[OF sq[OF t15]]]] t15]
  note t1023 = mu[OF sq[OF sq[OF t255]] t3]
  have "gf_inv (rep_gfe a) = rep_gfe (a ^ (((((((1 * 2 + 1) * 2 * 2 + (1 * 2 + 1)) * 2 * 2 * 2 * 2 + ((1 * 2 + 1) * 2 * 2 + (1 * 2 + 1))) * 2 * 2 + (1 * 2 + 1)) * 2) + 1) * 2))"
    unfolding gf_inv_def Let_def gf_sq_rep gf_mul_rep sq[OF mu[OF sq[OF t1023] a]] ..
  then show ?thesis by simp
qed

lemma gfe_square_add: "(a + b :: gfe) ^ 2 = a ^ 2 + b ^ 2"
  by (simp add: power2_eq_square algebra_simps)

lemma gfe_frobenius_add: "(a + b :: gfe) ^ (2 ^ n) = a ^ (2 ^ n) + b ^ (2 ^ n)"
proof (induction n)
  case (Suc n)
  have "(a + b) ^ (2 ^ Suc n) = ((a + b) ^ (2 ^ n)) ^ 2" by (simp only: power_Suc mult.commute[of 2] power_mult)
  also have "\<dots> = (a ^ (2 ^ n)) ^ 2 + (b ^ (2 ^ n)) ^ 2" by (simp only: Suc gfe_square_add)
  finally show ?case by (simp only: power_Suc mult.commute[of 2] power_mult)
qed simp

lemma gx_45: "gx ^ 45 = 1"
proof -
  have "gx ^ 24 = (gx ^ 12) ^ 2" by (simp flip: power_mult)
  also have "\<dots> = gx ^ 6 + 1" unfolding gx_12 gfe_square_add by (simp flip: power_mult)
  finally have "(gx ^ 24) ^ 2 = (gx ^ 6 + 1) ^ 2" by simp
  then have 48: "gx ^ 48 = gx ^ 3" unfolding gfe_square_add using gx_12 by (simp flip: power_mult)
  have "gx * (gx ^ 11 + gx ^ 2) = gx ^ 12 + gx ^ 3" by (simp add: distrib_left flip: power_Suc)
  then have u: "gx * (gx ^ 11 + gx ^ 2) = 1" using gx_12 by (simp add: add.commute)
  have "gx ^ 45 * gx ^ 3 * (gx ^ 11 + gx ^ 2) ^ 3 = gx ^ 3 * (gx ^ 11 + gx ^ 2) ^ 3"
    using 48 by (simp flip: power_add)
  then show ?thesis by (simp only: mult.assoc power_mult_distrib[symmetric] u power_one mult_1_right)
qed

lemma gx_frobenius: "(gx ^ i) ^ 4096 = gx ^ i"
proof -
  have "gx ^ 4095 = (gx ^ 45) ^ 91" by (simp flip: power_mult)
  then have "gx ^ 4095 = 1" by (simp add: gx_45)
  then have "gx ^ 4096 = gx" using power_Suc[of gx 4095] by simp
  then show ?thesis by (simp add: power_mult[symmetric] mult.commute[of i] power_mult)
qed

lemma gfe_frobenius: "(a :: gfe) ^ 4096 = a"
proof -
  have "of_bits f n ^ (2 ^ 12) = of_bits f n" for f n
    by (induction n) (simp_all only: of_bits_def sum.lessThan_Suc gfe_frobenius_add, simp_all add: gx_frobenius)
  from this[of "bit (rep_gfe a)" 12] show ?thesis by (simp add: gfe_of_bits)
qed

text \<open>The bits of a square.\<close>

lemma gf_sq_table: "is_gf a \<Longrightarrow> gf_sq a = xsum (\<lambda>i. if bit a i then sq_table ! i else 0) 12"
proof -
  assume "is_gf a"
  then have "a = xsum (\<lambda>i. if bit a i then 2 ^ i else 0) 12" using xsum_bits[of 12 a] by (simp add: is_gf_def)
  then have "gf_sq a = xsum (\<lambda>i. gf_sq (if bit a i then 2 ^ i else 0)) 12" using xlinear_of_xsum[OF xlinear_sq] by metis
  also have "\<dots> = xsum (\<lambda>i. if bit a i then sq_table ! i else 0) 12"
    by (rule xsum_cong) (simp add: gf_sq_basis xlinear_0[OF xlinear_sq])
  finally show ?thesis .
qed

lemma gf_sq_bits:
  assumes "is_gf a"
  shows "bit (gf_sq a) 0 = (bit a 0 \<noteq> bit a 6)" "bit (gf_sq a) 1 = bit a 11" "bit (gf_sq a) 2 = (bit a 1 \<noteq> bit a 7)"
    "bit (gf_sq a) 3 = bit a 6" "bit (gf_sq a) 4 = ((bit a 2 \<noteq> bit a 11) \<noteq> bit a 8)" "bit (gf_sq a) 5 = bit a 7"
    "bit (gf_sq a) 6 = (bit a 3 \<noteq> bit a 9)" "bit (gf_sq a) 7 = bit a 8" "bit (gf_sq a) 8 = (bit a 4 \<noteq> bit a 10)"
    "bit (gf_sq a) 9 = bit a 9" "bit (gf_sq a) 10 = (bit a 5 \<noteq> bit a 11)" "bit (gf_sq a) 11 = bit a 10"
  unfolding gf_sq_table[OF assms]
  by (auto simp: eval_nat_numeral sq_table_def bit_xor_iff bit_numeral_word_iff)

text \<open>Every power \<open>a^4095\<close> is idempotent, and only 0 and 1 are: the ring is a field.\<close>

lemma gfe_idempotent:
  assumes "(e :: gfe) ^ 2 = e"
  shows "e = 0 \<or> e = 1"
proof -
  have sq: "gf_sq (rep_gfe e) = rep_gfe e" using assms by simp
  let ?b = "bit (rep_gfe e)"
  note bits = gf_sq_bits[OF is_gf_rep[of e], unfolded sq]
  have z: "\<not> ?b 6" "\<not> ?b 3" "\<not> ?b 9" "?b 1 = ?b 11" "?b 10 = ?b 11" "\<not> ?b 5" "\<not> ?b 7" "\<not> ?b 8" using bits by blast+
  then have z2: "\<not> ?b 4" "\<not> ?b 10" "\<not> ?b 11" "\<not> ?b 1" "\<not> ?b 2" using bits by blast+
  have "\<not> ?b i" if "i < 12" "i \<noteq> 0" for i
  proof -
    have "i \<in> {1, 2, 3, 4, 5, 6, 7, 8, 9, 10, 11}" using that by simp presburger
    then show ?thesis using z z2 by auto
  qed
  then have "of_bits ?b 12 = (\<Sum>i<12. if i = 0 \<and> ?b 0 then gx ^ i else 0)"
    unfolding of_bits_def by (intro sum.cong) auto
  also have "\<dots> = (if ?b 0 then 1 else 0)" by (simp add: if_distrib sum.delta cong: if_cong)
  finally show ?thesis unfolding gfe_of_bits by (simp split: if_splits)
qed

lemma gfe_fermat:
  assumes "(a :: gfe) \<noteq> 0"
  shows "a ^ 4095 = 1"
proof -
  have "(a ^ 4095) ^ 2 = a ^ 4094 * a ^ 4096" by (simp flip: power_mult power_add)
  also have "\<dots> = a ^ 4095" unfolding gfe_frobenius by (simp flip: power_Suc2)
  finally have "a ^ 4095 = 0 \<or> a ^ 4095 = 1" by (rule gfe_idempotent)
  moreover have "a ^ 4095 = 0 \<Longrightarrow> a = 0" using gfe_frobenius[of a] power_Suc[of a 4095] by simp
  ultimately show ?thesis using assms by blast
qed

instantiation gfe :: field
begin

definition inverse_gfe :: "gfe \<Rightarrow> gfe" where "inverse_gfe a = abs_gfe (gf_inv (rep_gfe a))"
definition divide_gfe :: "gfe \<Rightarrow> gfe \<Rightarrow> gfe" where "divide_gfe a b = a * inverse b"

lemma inverse_power: "inverse (a :: gfe) = a ^ 4094"
  by (simp add: inverse_gfe_def gf_inv_power rep_gfe_inverse)

instance
proof
  fix a b :: gfe
  show "inverse a * a = 1" if "a \<noteq> 0"
    using gfe_fermat[OF that] power_Suc2[of a 4094] by (simp add: inverse_power)
  show "a div b = a * inverse b" by (rule divide_gfe_def)
  show "inverse (0 :: gfe) = 0" by (simp add: inverse_power)
qed

end

lemma gf_inv_rep [simp]: "gf_inv (rep_gfe a) = rep_gfe (inverse a)"
  by (simp add: gf_inv_power inverse_power)

lemma rep_gfe_cases: "is_gf a \<Longrightarrow> (\<And>b. a = rep_gfe b \<Longrightarrow> thesis) \<Longrightarrow> thesis"
  by (metis rep_abs_gfe)

lemma rep_gfe_simps [simp]: "rep_gfe 0 = 0" "rep_gfe 1 = 1" "rep_gfe (a + b) = rep_gfe a XOR rep_gfe b"
  "rep_gfe a = 0 \<longleftrightarrow> a = 0" "rep_gfe a = rep_gfe b \<longleftrightarrow> a = b"
  by (simp_all add: zero_gfe.rep_eq one_gfe.rep_eq plus_gfe.rep_eq rep_gfe_inject)
    (metis rep_gfe_inject zero_gfe.rep_eq)

section \<open>Properties\<close>

text \<open>C33: For elements of 12 bits \<open>gf_inv\<close> is the inverse for \<open>gf_mul\<close>, and \<open>gf_frac\<close> the quotient: the product with the
  denominator gives the numerator back, for every denominator that is not 0. The inverse of 0 is 0, and so is a
  quotient by 0.\<close>

theorem gf_inv_correct:
  assumes "a < 4096" "b < 4096"
  shows "gf_mul a (gf_inv a) = (if a = 0 then 0 else 1) \<and> gf_mul a (gf_frac a b) = (if a = 0 then 0 else b) \<and>
    gf_inv a < 4096 \<and> (gf_inv a = 0 \<longleftrightarrow> a = 0) \<and> gf_frac 0 b = 0"
proof -
  obtain x y where xy: "a = rep_gfe x" "b = rep_gfe y" using assms by (metis is_gf_less rep_gfe_cases)
  have "x * inverse x = (if x = 0 then 0 else 1)" "x * (inverse x * y) = (if x = 0 then 0 else y)" by simp_all
  moreover have "gf_frac 0 b = 0" using gf_inv_rep[of 0] xy(2) rep_gfe_simps(1) gf_mul_rep[of 0 y] by (simp add: gf_frac_def)
  ultimately show ?thesis using xy is_gf_rep[of "inverse x"] by (auto simp: gf_frac_def is_gf_less)
qed

theorem gf_inv_correct_witness:
  "gf_mul 0xABC (gf_inv 0xABC) = 1 \<and> gf_mul 0xABC (gf_frac 0xABC 0x123) = 0x123 \<and> gf_inv 0 = 0"
  using gf_inv_correct[of "0xABC" "0x123"] gf_inv_correct[of 0 "0x123"] by simp

lemma gf_iszero_mask:
  assumes "a < 4096"
  shows "gf_iszero a = (if a = 0 then 0xFFF else 0)"
proof (cases "a = 0")
  case False
  have u: "unat (ucast a :: u32) = unat a" proof -
    have "unat a < 2 ^ 16" using unsigned_less[of a, where ?'a = nat] by simp
    then show ?thesis by (simp add: unsigned_ucast_eq take_bit_nat_eq_self)
  qed
  have "(ucast a :: u32) \<noteq> 0" using False u by (metis unat_0 unat_eq_zero)
  from unat_minus_one[OF this] u have "unat (ucast a - 1 :: u32) = unat a - 1" by simp
  moreover have "unat a < 4096" using assms by (simp add: word_less_nat_alt)
  ultimately have "unat (drop_bit 20 (ucast a - 1 :: u32)) = 0"
    by (simp only: unat_drop_bit_eq) (simp add: drop_bit_eq_div)
  then have "drop_bit 20 (ucast a - 1 :: u32) = 0" by (metis unat_eq_zero)
  then show ?thesis using False by (simp add: gf_iszero_def)
qed (simp add: gf_iszero_def, simp add: mask_eq_exp_minus_1)

section \<open>Two products at once\<close>

definition red2 :: "u64 \<Rightarrow> u64" where
  "red2 tmp =
     (let t = tmp AND 0x007FC000007FC000; tmp = tmp XOR (drop_bit 9 t XOR drop_bit 12 t);
          t = tmp AND 0x0000300000003000; tmp = tmp XOR (drop_bit 9 t XOR drop_bit 12 t)
      in tmp AND 0x00000FFF00000FFF)"

lemma fold_mask:
  fixes m0 :: "'b::len word"
  shows "fold (\<lambda>i (tmp, m). (tmp XOR f m, m + m)) [0..<n] (t, m0) = (t XOR xsum (\<lambda>i. f (2 ^ i * m0)) n, 2 ^ n * m0)"
  by (induction n) (simp_all add: xor.assoc mult.assoc flip: mult_2)

lemma all_less_23: "(\<forall>j<23. P j) \<longleftrightarrow> list_all P [0..<23]"
  by (auto simp: list_all_iff)

lemma red2_halves:
  assumes "take_bit 23 y = y"
  shows "red2 (ucast y) = ucast (gf_reduce y)" "red2 (push_bit 32 (ucast y)) = push_bit 32 (ucast (gf_reduce y))"
proof -
  have l: "xlinear (\<lambda>y :: u32. red2 (ucast y))" "xlinear (\<lambda>y :: u32. red2 (push_bit 32 (ucast y)))"
    unfolding red2_def Let_def by (intro xlin)+
  have r: "xlinear (\<lambda>y. ucast (gf_reduce y) :: u64)" "xlinear (\<lambda>y. push_bit 32 (ucast (gf_reduce y)) :: u64)" by (intro xlin)+
  have "\<forall>i<23. red2 (ucast (2 ^ i :: u32)) = ucast (gf_reduce (2 ^ i))" unfolding all_less_23
    by (simp add: upt_conv_Cons gf_reduce_def red2_def GFBITS_def)
  then show "red2 (ucast y) = ucast (gf_reduce y)" using xlinear_ext[OF l(1) r(1) _ assms] by simp
  have "\<forall>i<23. red2 (push_bit 32 (ucast (2 ^ i :: u32))) = push_bit 32 (ucast (gf_reduce (2 ^ i)))" unfolding all_less_23
    by (simp add: upt_conv_Cons gf_reduce_def red2_def GFBITS_def)
  then show "red2 (push_bit 32 (ucast y)) = push_bit 32 (ucast (gf_reduce y))" using xlinear_ext[OF l(2) r(2) _ assms] by simp
qed

definition raw_product :: "u16 \<Rightarrow> u16 \<Rightarrow> u32" where
  "raw_product a b = xsum (\<lambda>i. if bit b i then push_bit i (ucast a) else 0) 12"

lemma raw_product_bits:
  assumes "is_gf a"
  shows "take_bit 23 (raw_product a b) = raw_product a b"
proof -
  have "take_bit 23 (push_bit i (ucast a :: u32)) = push_bit i (ucast a)" if "i < 12" for i
  proof (rule bit_word_eqI)
    fix n assume "n < LENGTH(32)"
    have "bit a (n - i) \<Longrightarrow> n - i < 12" using assms by (metis bit_take_bit_iff is_gf_def)
    then show "bit (take_bit 23 (push_bit i (ucast a :: u32))) n = bit (push_bit i (ucast a :: u32)) n"
      using that by (auto simp: bit_take_bit_iff bit_push_bit_iff bit_ucast_iff)
  qed
  then have "take_bit 23 (xsum (\<lambda>i. if bit b i then push_bit i (ucast a :: u32) else 0) n) =
      xsum (\<lambda>i. if bit b i then push_bit i (ucast a) else 0) n" if "n \<le> 12" for n
    using that by (induction n) simp_all
  then show ?thesis by (simp add: raw_product_def)
qed

lemma gf_mul_raw:
  assumes "is_gf a"
  shows "gf_mul a b = gf_reduce (raw_product a b)"
proof -
  have "gf_reduce (raw_product a b) = xsum (\<lambda>i. gf_reduce (if bit b i then push_bit i (ucast a) else 0)) 12"
    unfolding raw_product_def by (rule xlinear_of_xsum) (use xlinear_reduce[OF xlinear_id] in simp)
  also have "\<dots> = fmul a b"
    unfolding fmul_def by (rule xsum_cong) (use reduce_shift[OF assms] xlinear_0[OF xlinear_reduce[OF xlinear_id]] in auto)
  finally show ?thesis using gf_mul_fmul[OF assms] by simp
qed

lemma two_bits:
  fixes b0 b1 :: u16
  assumes "i < 12"
  shows "(push_bit 32 (ucast b1) OR ucast b0 :: u64) AND (2 ^ i * 0x100000001) =
    (if bit b0 i then 2 ^ i else 0) + (if bit (b1 :: u16) i then 2 ^ (32 + i) else 0)"
proof -
  have dis: "(if P then 2 ^ i else 0 :: u64) AND (if R then 2 ^ (32 + i) else 0) = 0" for P R
    by (rule bit_word_eqI) (auto simp: bit_and_iff bit_exp_iff simp del: power_add)
  have "(2 ^ i * 0x100000001 :: u64) = 2 ^ i + 2 ^ (32 + i)" by (simp add: power_add algebra_simps)
  also have "\<dots> = 2 ^ i OR 2 ^ (32 + i)"
    by (rule disjunctive_add_eq_or) (use dis[of True True] in \<open>simp only: if_True\<close>)
  finally have m: "(2 ^ i * 0x100000001 :: u64) = 2 ^ i OR 2 ^ (32 + i)" .
  have "(push_bit 32 (ucast b1) OR ucast b0 :: u64) AND (2 ^ i OR 2 ^ (32 + i)) =
      (if bit b0 i then 2 ^ i else 0) OR (if bit b1 i then 2 ^ (32 + i) else 0)"
    using assms bit_imp_le_length[of b0 "32 + i"]
    by (intro bit_word_eqI) (auto simp: bit_and_iff bit_or_iff bit_exp_iff bit_push_bit_iff bit_ucast_iff dest: bit_imp_le_length)
  also have "\<dots> = (if bit b0 i then 2 ^ i else 0) + (if bit b1 i then 2 ^ (32 + i) else 0)"
    by (rule disjunctive_add_eq_or[OF dis, symmetric])
  finally show ?thesis unfolding m .
qed

lemma two_products:
  fixes b0 b1 :: u16
  assumes "is_gf a" "i < 12"
  shows "ucast a * ((if bit b0 i then 2 ^ i else 0) + (if bit (b1 :: u16) i then 2 ^ (32 + i) else 0)) =
    (ucast (if bit b0 i then push_bit i (ucast a) else 0 :: u32) :: u64) XOR
    push_bit 32 (ucast (if bit b1 i then push_bit i (ucast a) else 0 :: u32))"
proof -
  have low: "\<not> bit a n" if "12 \<le> n" for n using assms(1) that by (metis bit_take_bit_iff is_gf_def not_less)
  have p: "push_bit i (ucast a :: u64) = ucast (push_bit i (ucast a :: u32))"
    using assms(2) low by (intro bit_word_eqI) (auto simp: bit_push_bit_iff bit_ucast_iff not_le dest: bit_imp_le_length)
  have q: "push_bit (32 + i) (ucast a :: u64) = push_bit 32 (push_bit i (ucast a))" by (simp add: push_bit_push_bit)
  have x: "push_bit i (ucast a) + push_bit 32 (push_bit i (ucast a)) = push_bit i (ucast a) XOR (push_bit 32 (push_bit i (ucast a)) :: u64)"
    using assms(2) low by (intro disjunctive_add_eq_xor bit_word_eqI) (auto simp: bit_and_iff bit_push_bit_iff bit_ucast_iff)
  show ?thesis
    using x q by (auto simp: distrib_left push_bit_eq_mult[symmetric] mult.commute p)
qed

lemma gf_mul2_xsum: "gf_mul2 a b0 b1 = red2 (xsum (\<lambda>i. ucast a * ((push_bit 32 (ucast b1) OR ucast b0) AND (2 ^ i * 0x100000001))) 12)"
  unfolding gf_mul2_def red2_def Let_def fold_mask GFBITS_def by simp

lemma xsum_halves:
  "xsum (\<lambda>i. ucast (f i) XOR push_bit 32 (ucast (g i))) n = (ucast (xsum f n :: u32) :: u64) XOR push_bit 32 (ucast (xsum g n :: u32))"
  by (induction n) (simp_all add: unsigned_xor_eq push_bit_xor xor.assoc xor.left_commute)

text \<open>\<open>gf_mul2\<close> computes two products with one factor at once, one in each half of the result.\<close>

theorem gf_mul2_halves:
  assumes "a < 4096"
  shows "gf_mul2 a b0 b1 = ucast (gf_mul a b0) OR push_bit 32 (ucast (gf_mul a b1))"
proof -
  have a: "is_gf a" using assms by (simp add: is_gf_less)
  have "xsum (\<lambda>i. (ucast a :: u64) * ((push_bit 32 (ucast b1) OR ucast b0) AND (2 ^ i * 0x100000001))) 12 =
      xsum (\<lambda>i. ucast (if bit b0 i then push_bit i (ucast a) else 0 :: u32) XOR push_bit 32 (ucast (if bit b1 i then push_bit i (ucast a) else 0 :: u32))) 12"
    by (rule xsum_cong) (subst two_bits, assumption, rule two_products[OF a])
  also have "\<dots> = (ucast (raw_product a b0) :: u64) XOR push_bit 32 (ucast (raw_product a b1))"
    unfolding xsum_halves raw_product_def ..
  finally have "gf_mul2 a b0 b1 = red2 ((ucast (raw_product a b0) :: u64) XOR push_bit 32 (ucast (raw_product a b1)))"
    unfolding gf_mul2_xsum by simp
  also have "\<dots> = red2 (ucast (raw_product a b0)) XOR red2 (push_bit 32 (ucast (raw_product a b1)))"
  proof -
    have "xlinear red2" unfolding red2_def[abs_def] Let_def by (intro xlin)
    then show ?thesis by (simp add: xlinear_def)
  qed
  also have "\<dots> = ucast (gf_mul a b0) XOR push_bit 32 (ucast (gf_mul a b1))"
    unfolding gf_mul_raw[OF a] red2_halves[OF raw_product_bits[OF a]] ..
  also have "\<dots> = ucast (gf_mul a b0) OR push_bit 32 (ucast (gf_mul a b1))"
    by (rule bit_word_eqI) (auto simp: bit_xor_iff bit_or_iff bit_push_bit_iff bit_ucast_iff dest: bit_imp_le_length)
  finally show ?thesis .
qed

theorem gf_mul2_halves_witness: "gf_mul2 0xABC 0x123 0x456 = ucast (gf_mul 0xABC 0x123) OR push_bit 32 (ucast (gf_mul 0xABC 0x456))"
  using gf_mul2_halves[of "0xABC"] by simp

end
