(* ===== verification/McVec.thy ===== *)
theory McVec
  imports McGf
begin

text \<open>
  Bit-sliced arithmetic of Classic McEliece, \<open>vec.c\<close> and \<open>vec.h\<close>: a vector holds 64 field elements, its word
  \<open>i\<close> the bits \<open>i\<close> of all of them. Element \<open>k\<close> of a vector is \<open>lane k\<close>; each operation is shown to be the
  one of \<open>gf.c\<close> on every element. All indices are counters of loops over arrays of fixed length.
\<close>

section \<open>The code\<close>

definition vec_setbits :: "u64 \<Rightarrow> u64" where
  "vec_setbits b = - b"

definition vec_set1_16b :: "u16 \<Rightarrow> u64" where
  "vec_set1_16b v = (let ret = ucast v :: u64; ret = ret OR push_bit 16 ret in ret OR push_bit 32 ret)"

definition vec_copy :: "u64 list \<Rightarrow> u64 list" where
  "vec_copy inp = map ((!) inp) [0..<GFBITS]"

definition vec_or_reduce :: "u64 list \<Rightarrow> u64" where
  "vec_or_reduce a = fold (\<lambda>i ret. ret OR a ! i) [1..<GFBITS] (a ! 0)"

definition vec_testz :: "u64 \<Rightarrow> u64" where
  "vec_testz a =
     (let a = a OR drop_bit 32 a; a = a OR drop_bit 16 a; a = a OR drop_bit 8 a; a = a OR drop_bit 4 a;
          a = a OR drop_bit 2 a; a = a OR drop_bit 1 a
      in (a AND 1) XOR 1)"

definition vec_mul :: "u64 list \<Rightarrow> u64 list \<Rightarrow> u64 list" where
  "vec_mul f g =
     (let buf = replicate (2 * GFBITS - 1) 0;
          buf = fold (\<lambda>i. fold (\<lambda>j buf. buf[i + j := buf ! (i + j) XOR (f ! i AND g ! j)]) [0..<GFBITS]) [0..<GFBITS] buf;
          buf = fold (\<lambda>i buf.
                  let buf = buf[i - GFBITS + 3 := buf ! (i - GFBITS + 3) XOR buf ! i]
                  in buf[i - GFBITS + 0 := buf ! (i - GFBITS + 0) XOR buf ! i])
                (rev [GFBITS..<2 * GFBITS - 1]) buf
      in map ((!) buf) [0..<GFBITS])"

definition vec_sq :: "u64 list \<Rightarrow> u64 list" where
  "vec_sq inp =
     [inp ! 0 XOR inp ! 6,
      inp ! 11,
      inp ! 1 XOR inp ! 7,
      inp ! 6,
      inp ! 2 XOR inp ! 11 XOR inp ! 8,
      inp ! 7,
      inp ! 3 XOR inp ! 9,
      inp ! 8,
      inp ! 4 XOR inp ! 10,
      inp ! 9,
      inp ! 5 XOR inp ! 11,
      inp ! 10]"

text \<open>No caller passes the same array twice.\<close>

definition vec_inv :: "u64 list \<Rightarrow> u64 list" where
  "vec_inv inp =
     (let out = vec_copy inp;
          out = vec_sq out;
          tmp_11 = vec_mul out inp;
          out = vec_sq tmp_11;
          out = vec_sq out;
          tmp_1111 = vec_mul out tmp_11;
          out = vec_sq tmp_1111;
          out = vec_sq out;
          out = vec_sq out;
          out = vec_sq out;
          out = vec_mul out tmp_1111;
          out = vec_sq out;
          out = vec_sq out;
          out = vec_mul out tmp_11;
          out = vec_sq out;
          out = vec_mul out inp
      in vec_sq out)"

section \<open>Elements\<close>

definition lane :: "nat \<Rightarrow> u64 list \<Rightarrow> u16" where
  "lane k v = xsum (\<lambda>i. if bit (v ! i) k then 2 ^ i else 0) 12"

text \<open>The same as a field element, also for a longer buffer that is not reduced yet.\<close>

definition lane_sum :: "nat \<Rightarrow> nat \<Rightarrow> u64 list \<Rightarrow> gfe" where
  "lane_sum n k v = of_bits (\<lambda>i. bit (v ! i) k) n"

lemma rep_lane: "rep_gfe (lane_sum 12 k v) = lane k v"
  by (simp add: lane_sum_def lane_def rep_of_bits)

lemma bit_lane: "i < 12 \<Longrightarrow> bit (lane k v) i = bit (v ! i) k"
  unfolding rep_lane[symmetric] lane_sum_def by (rule bit_of_bits)

lemma is_gf_lane [simp]: "is_gf (lane k v)"
  unfolding rep_lane[symmetric] by simp

lemma lane_less: "lane k v < 4096"
  using is_gf_lane is_gf_less by blast

lemma gf_eqI: "is_gf a \<Longrightarrow> is_gf b \<Longrightarrow> (\<And>i. i < 12 \<Longrightarrow> bit a i = bit b i) \<Longrightarrow> a = b"
  unfolding is_gf_def by (rule bit_word_eqI) (metis bit_take_bit_iff)

lemma lane_eqI: "is_gf a \<Longrightarrow> (\<And>i. i < 12 \<Longrightarrow> bit (v ! i) k = bit a i) \<Longrightarrow> lane k v = a"
  by (rule gf_eqI) (simp_all add: bit_lane)

lemma lane_zero_iff: "lane k v = 0 \<longleftrightarrow> (\<forall>i<12. \<not> bit (v ! i) k)"
  using bit_lane[of _ k v] lane_eqI[of 0 v k] by auto

lemma lane_sum_Suc: "lane_sum (Suc n) k v = lane_sum n k v + (if bit (v ! n) k then gx ^ n else 0)"
  by (simp add: lane_sum_def of_bits_def)

lemma lane_sum_xor:
  assumes "i < n" "n \<le> length buf"
  shows "lane_sum n k (buf[i := buf ! i XOR w]) = lane_sum n k buf + (if bit w k then gx ^ i else 0)"
  using assms
proof (induction n)
  case (Suc n)
  show ?case
  proof (cases "i = n")
    case True
    have "lane_sum n k (buf[i := buf ! i XOR w]) = lane_sum n k buf"
      unfolding lane_sum_def of_bits_def by (rule sum.cong) (use True in auto)
    then show ?thesis using True Suc.prems by (simp add: lane_sum_Suc bit_xor_iff add.assoc)
  qed (use Suc in \<open>simp add: lane_sum_Suc add_ac\<close>)
qed simp

section \<open>Multiplication\<close>

lemma product_row:
  assumes "length buf = 23" "i < 12" "n \<le> 12"
  shows "lane_sum 23 k (fold (\<lambda>j buf. buf[i + j := buf ! (i + j) XOR (a AND g ! j)]) [0..<n] buf) =
    lane_sum 23 k buf + (if bit a k then gx ^ i else 0) * lane_sum n k g"
  using assms(3)
proof (induction n)
  case (Suc n)
  let ?b = "fold (\<lambda>j buf. buf[i + j := buf ! (i + j) XOR (a AND g ! j)]) [0..<n] buf"
  have "length ?b = 23" using assms(1) by (simp add: length_fold_upd)
  then show ?case
    using Suc assms(2) by (simp add: lane_sum_xor lane_sum_Suc bit_and_iff power_add distrib_left add.assoc)
qed (simp add: lane_sum_def of_bits_def)

lemma product_rows:
  assumes "length buf = 23" "n \<le> 12"
  shows "lane_sum 23 k (fold (\<lambda>i. fold (\<lambda>j buf. buf[i + j := buf ! (i + j) XOR (f ! i AND g ! j)]) [0..<12]) [0..<n] buf) =
    lane_sum 23 k buf + lane_sum n k f * lane_sum 12 k g"
  using assms(2)
proof (induction n)
  case (Suc n)
  let ?b = "fold (\<lambda>i. fold (\<lambda>j buf. buf[i + j := buf ! (i + j) XOR (f ! i AND g ! j)]) [0..<12]) [0..<n] buf"
  have "length ?b = 23" using assms(1) by (simp add: length_fold_upd)
  then show ?case using Suc by (simp add: product_row lane_sum_Suc distrib_right add.assoc)
qed (simp add: lane_sum_def of_bits_def)

lemma gx_reduce: "12 \<le> i \<Longrightarrow> gx ^ i = gx ^ (i - 9) + gx ^ (i - 12)"
proof -
  assume "12 \<le> i"
  then have "gx ^ i = gx ^ 12 * gx ^ (i - 12)" "gx ^ (i - 9) = gx ^ 3 * gx ^ (i - 12)" by (simp_all flip: power_add)
  then show ?thesis by (simp add: gx_12 distrib_right)
qed

definition fold_down :: "nat \<Rightarrow> u64 list \<Rightarrow> u64 list" where
  "fold_down i buf = (let buf = buf[i - 12 + 3 := buf ! (i - 12 + 3) XOR buf ! i] in buf[i - 12 + 0 := buf ! (i - 12 + 0) XOR buf ! i])"

lemma fold_down_sum:
  assumes "12 \<le> i" "i < length buf"
  shows "lane_sum i k (fold_down i buf) = lane_sum (Suc i) k buf" "length (fold_down i buf) = length buf"
proof -
  have i: "i - 12 + 3 < i" "i - 12 < i" "i - 12 + 3 \<noteq> i" "i - 12 + 3 = i - 9" using assms(1) by simp_all
  let ?b = "buf[i - 9 := buf ! (i - 9) XOR buf ! i]"
  have "lane_sum i k (?b[i - 12 := ?b ! (i - 12) XOR buf ! i]) =
      lane_sum i k buf + (if bit (buf ! i) k then gx ^ (i - 9) else 0) + (if bit (buf ! i) k then gx ^ (i - 12) else 0)"
    using lane_sum_xor[of "i - 12" i ?b k "buf ! i"] lane_sum_xor[of "i - 9" i buf k "buf ! i"] assms i by simp
  also have "\<dots> = lane_sum (Suc i) k buf" using gx_reduce[OF assms(1)] by (simp add: lane_sum_Suc add.assoc)
  finally show "lane_sum i k (fold_down i buf) = lane_sum (Suc i) k buf"
    using i assms by (simp add: fold_down_def Let_def)
qed (simp add: fold_down_def Let_def)

lemma fold_down_all:
  assumes "12 \<le> n" "n \<le> length buf"
  shows "lane_sum 12 k (fold fold_down (rev [12..<n]) buf) = lane_sum n k buf"
  using assms
proof (induction n arbitrary: buf)
  case (Suc n)
  show ?case
  proof (cases "n < 12")
    case False
    then have "rev [12..<Suc n] = n # rev [12..<n]" by simp
    then show ?thesis using Suc False fold_down_sum(1)[of n buf k] fold_down_sum(2)[of n buf] by simp
  qed (use Suc.prems in \<open>simp add: le_Suc_eq\<close>)
qed simp

lemma vec_mul_fold:
  "vec_mul f g = map ((!) (fold fold_down (rev [12..<23])
     (fold (\<lambda>i. fold (\<lambda>j buf. buf[i + j := buf ! (i + j) XOR (f ! i AND g ! j)]) [0..<12]) [0..<12] (replicate 23 0)))) [0..<12]"
proof -
  have n: "2 * 12 - 1 = (23 :: nat)" by simp
  show ?thesis unfolding vec_mul_def fold_down_def[abs_def] GFBITS_def Let_def n ..
qed

lemma length_vec_mul [simp]: "length (vec_mul f g) = 12"
  by (simp add: vec_mul_fold)

lemma lane_sum_map: "lane_sum 12 k (map ((!) b) [0..<12]) = lane_sum 12 k b"
  unfolding lane_sum_def of_bits_def by (rule sum.cong) simp_all

text \<open>The bit-sliced multiplication multiplies each of the 64 pairs of field elements as \<open>gf_mul\<close> does.\<close>

theorem vec_mul_lanes: "lane k (vec_mul f g) = gf_mul (lane k f) (lane k g)"
proof -
  let ?p = "fold (\<lambda>i. fold (\<lambda>j buf. buf[i + j := buf ! (i + j) XOR (f ! i AND g ! j)]) [0..<12]) [0..<12] (replicate 23 (0 :: u64))"
  have "length ?p = 23" by (simp add: length_fold_upd)
  then have "lane_sum 12 k (vec_mul f g) = lane_sum 23 k ?p"
    unfolding vec_mul_fold lane_sum_map by (intro fold_down_all) simp_all
  also have "\<dots> = lane_sum 12 k f * lane_sum 12 k g"
    by (subst product_rows) (simp_all add: lane_sum_def of_bits_def)
  finally show ?thesis unfolding rep_lane[symmetric] by simp
qed

lemma lane_bits:
  "bit (lane k v) 0 = bit (v ! 0) k" "bit (lane k v) 1 = bit (v ! 1) k" "bit (lane k v) 2 = bit (v ! 2) k"
  "bit (lane k v) 3 = bit (v ! 3) k" "bit (lane k v) 4 = bit (v ! 4) k" "bit (lane k v) 5 = bit (v ! 5) k"
  "bit (lane k v) 6 = bit (v ! 6) k" "bit (lane k v) 7 = bit (v ! 7) k" "bit (lane k v) 8 = bit (v ! 8) k"
  "bit (lane k v) 9 = bit (v ! 9) k" "bit (lane k v) 10 = bit (v ! 10) k" "bit (lane k v) 11 = bit (v ! 11) k"
  by (rule bit_lane, simp)+

lemma bit_of_vec_sq:
  assumes "i < 12"
  shows "bit (vec_sq v ! i) k = bit (gf_sq (lane k v)) i"
proof -
  have "i = 0 \<or> i = 1 \<or> i = 2 \<or> i = 3 \<or> i = 4 \<or> i = 5 \<or> i = 6 \<or> i = 7 \<or> i = 8 \<or> i = 9 \<or> i = 10 \<or> i = 11"
    using assms by presburger
  then show ?thesis
    by (elim disjE; hypsubst; unfold gf_sq_bits[OF is_gf_lane] lane_bits; auto simp: vec_sq_def bit_xor_iff)
qed

lemma vec_sq_lanes: "lane k (vec_sq v) = gf_sq (lane k v)"
proof (rule lane_eqI)
  show "is_gf (gf_sq (lane k v))" by (simp add: gf_sq_fmul is_gf_fmul)
qed (rule bit_of_vec_sq)

lemma vec_copy_lanes: "lane k (vec_copy v) = lane k v"
  by (rule lane_eqI) (simp_all add: vec_copy_def GFBITS_def bit_lane)

text \<open>C34: The bit-sliced inversion inverts each of the 64 field elements as \<open>gf_inv\<close> does.\<close>

theorem vec_inv_lanes: "lane k (vec_inv v) = gf_inv (lane k v)"
  by (simp only: vec_inv_def gf_inv_def Let_def vec_sq_lanes vec_mul_lanes vec_copy_lanes)

lemma length_vec_sq [simp]: "length (vec_sq v) = 12"
  by (simp add: vec_sq_def)

lemma length_vec_inv [simp]: "length (vec_inv v) = 12"
  by (simp add: vec_inv_def Let_def)

section \<open>Tests\<close>

lemma fold_or_bit: "bit (fold (\<lambda>i ret. ret OR a ! i) xs r) k = (bit r k \<or> (\<exists>i\<in>set xs. bit (a ! i :: u64) k))"
  by (induction xs arbitrary: r) (auto simp: bit_or_iff)

lemma vec_or_reduce_lanes: "bit (vec_or_reduce v) k = (lane k v \<noteq> 0)"
proof -
  have "{0} \<union> {1..<12} = {..<12 :: nat}" by auto
  then have "bit (vec_or_reduce v) k = (\<exists>i<12. bit (v ! i) k)"
    unfolding vec_or_reduce_def fold_or_bit GFBITS_def by (metis (no_types, lifting) Un_iff insert_iff empty_iff lessThan_iff set_upt)
  then show ?thesis by (simp add: lane_zero_iff)
qed

lemma or_shift_step:
  fixes x :: "'a::len word"
  assumes "\<And>n. bit x n \<longleftrightarrow> (\<exists>j<p. bit b (n + j * (2 * m)))"
  shows "bit (x OR drop_bit m x) n \<longleftrightarrow> (\<exists>j<2 * p. bit b (n + j * m))"
proof
  assume "bit (x OR drop_bit m x) n"
  then have "(\<exists>j<p. bit b (n + j * (2 * m))) \<or> (\<exists>j<p. bit b (m + n + j * (2 * m)))"
    by (simp add: bit_or_iff bit_drop_bit_eq assms)
  then show "\<exists>j<2 * p. bit b (n + j * m)"
  proof (elim disjE exE conjE)
    fix j assume "j < p" "bit b (n + j * (2 * m))"
    then show ?thesis by (intro exI[of _ "2 * j"]) (simp add: ac_simps)
  next
    fix j assume "j < p" "bit b (m + n + j * (2 * m))"
    then show ?thesis by (intro exI[of _ "2 * j + 1"]) (simp add: algebra_simps)
  qed
next
  assume "\<exists>j<2 * p. bit b (n + j * m)"
  then obtain j where j: "j < 2 * p" "bit b (n + j * m)" by blast
  show "bit (x OR drop_bit m x) n"
  proof (cases "even j")
    case True
    then obtain i where "j = 2 * i" by (elim evenE)
    then have "bit x n" using j by (auto simp: assms ac_simps)
    then show ?thesis by (simp add: bit_or_iff)
  next
    case False
    then obtain i where "j = 2 * i + 1" by (elim oddE)
    then have "i < p" "bit b (m + n + i * (2 * m))" using j by (simp_all add: algebra_simps)
    then have "bit x (m + n)" by (auto simp: assms)
    then show ?thesis by (simp add: bit_or_iff bit_drop_bit_eq)
  qed
qed

lemma vec_testz_iff: "vec_testz a = (if a = 0 then 1 else 0)"
proof -
  define a1 where "a1 = a OR drop_bit 32 a"
  define a2 where "a2 = a1 OR drop_bit 16 a1"
  define a3 where "a3 = a2 OR drop_bit 8 a2"
  define a4 where "a4 = a3 OR drop_bit 4 a3"
  define a5 where "a5 = a4 OR drop_bit 2 a4"
  define a6 where "a6 = a5 OR drop_bit 1 a5"
  have b1: "bit a1 n \<longleftrightarrow> (\<exists>j<2. bit a (n + j * 32))" for n
    unfolding a1_def using or_shift_step[of a 1 a 32 n] by simp
  have b2: "bit a2 n \<longleftrightarrow> (\<exists>j<4. bit a (n + j * 16))" for n
    unfolding a2_def using or_shift_step[of a1 2 a 16 n] b1 by simp
  have b3: "bit a3 n \<longleftrightarrow> (\<exists>j<8. bit a (n + j * 8))" for n
    unfolding a3_def using or_shift_step[of a2 4 a 8 n] b2 by simp
  have b4: "bit a4 n \<longleftrightarrow> (\<exists>j<16. bit a (n + j * 4))" for n
    unfolding a4_def using or_shift_step[of a3 8 a 4 n] b3 by simp
  have b5: "bit a5 n \<longleftrightarrow> (\<exists>j<32. bit a (n + j * 2))" for n
    unfolding a5_def using or_shift_step[of a4 16 a 2 n] b4 by simp
  have "bit a6 0 \<longleftrightarrow> (\<exists>j<64. bit a j)"
    unfolding a6_def using or_shift_step[of a5 32 a 1 0] b5 by simp
  also have "\<dots> \<longleftrightarrow> a \<noteq> 0" using bit_imp_le_length[of a] by (auto simp: bit_eq_iff)
  finally have "bit a6 0 \<longleftrightarrow> a \<noteq> 0" .
  moreover have "vec_testz a = (a6 AND 1) XOR 1"
    unfolding vec_testz_def Let_def a1_def a2_def a3_def a4_def a5_def a6_def ..
  moreover have "(a6 AND 1) = (if bit a6 0 then 1 else 0)" by (simp add: and_one_eq bit_0 mod2_eq_if)
  ultimately show ?thesis by simp
qed

end
