(* ===== verification/McBenes.thy ===== *)
theory McBenes
  imports McVec
begin

text \<open>
  The Benes network of Classic McEliece: loading and storing of words (\<open>util.h\<close>), the transposition of a
  64 by 64 bit matrix (\<open>transpose.h\<close>) and the network itself (\<open>benes.c\<close>), which permutes the 4096 bits of
  64 words. A pointer into the control bits is the list from there on or an offset. The arrays have fixed
  lengths; the properties assume them.
\<close>

section \<open>Loading and storing\<close>

definition store_gf :: "u16 \<Rightarrow> u8 list" where
  "store_gf a = [ucast (a AND 0xFF), ucast (drop_bit 8 a)]"

definition load_gf :: "u8 list \<Rightarrow> u16" where
  "load_gf src = (let a = ucast (src ! 1); a = push_bit 8 a; a = a OR ucast (src ! 0) in a AND (push_bit GFBITS 1 - 1))"

definition load4 :: "u8 list \<Rightarrow> u32" where
  "load4 src =
     (let a = ucast (src ! 3); a = push_bit 8 a; a = a OR ucast (src ! 2); a = push_bit 8 a;
          a = a OR ucast (src ! 1); a = push_bit 8 a
      in a OR ucast (src ! 0))"

definition load8 :: "u8 list \<Rightarrow> u64" where
  "load8 inp = fold (\<lambda>i ret. push_bit 8 ret OR ucast (inp ! i)) (rev [0..<7]) (ucast (inp ! 7))"

definition store8 :: "u64 \<Rightarrow> u8 list" where
  "store8 inp = map (\<lambda>j. ucast (drop_bit (8 * j) inp AND 0xFF)) [0..<8]"

definition bitrev :: "u16 \<Rightarrow> u16" where
  "bitrev a =
     (let a = push_bit 8 (a AND 0x00FF) OR drop_bit 8 (a AND 0xFF00);
          a = push_bit 4 (a AND 0x0F0F) OR drop_bit 4 (a AND 0xF0F0);
          a = push_bit 2 (a AND 0x3333) OR drop_bit 2 (a AND 0xCCCC);
          a = push_bit 1 (a AND 0x5555) OR drop_bit 1 (a AND 0xAAAA)
      in drop_bit 4 a)"

section \<open>The code\<close>

text \<open>\<open>for (i = 0; i < n; i += k)\<close>.\<close>

definition range_by :: "nat \<Rightarrow> nat \<Rightarrow> nat list" where
  "range_by k n = map (\<lambda>i. i * k) [0..<(n + k - 1) div k]"

definition transpose_masks :: "(u64 \<times> u64) list" where
  "transpose_masks =
     [(0x5555555555555555, 0xAAAAAAAAAAAAAAAA),
      (0x3333333333333333, 0xCCCCCCCCCCCCCCCC),
      (0x0F0F0F0F0F0F0F0F, 0xF0F0F0F0F0F0F0F0),
      (0x00FF00FF00FF00FF, 0xFF00FF00FF00FF00),
      (0x0000FFFF0000FFFF, 0xFFFF0000FFFF0000),
      (0x00000000FFFFFFFF, 0xFFFFFFFF00000000)]"

definition swap_blocks :: "u64 \<Rightarrow> u64 \<Rightarrow> nat \<Rightarrow> nat \<Rightarrow> u64 list \<Rightarrow> u64 list" where
  "swap_blocks m0 m1 s j out =
     (let x = (out ! j AND m0) OR push_bit s (out ! (j + s) AND m0);
          y = drop_bit s (out ! j AND m1) OR (out ! (j + s) AND m1)
      in out[j := x, j + s := y])"

definition transpose_64x64 :: "u64 list \<Rightarrow> u64 list" where
  "transpose_64x64 inp =
     fold (\<lambda>d out.
        let s = 2 ^ d; (m0, m1) = transpose_masks ! d
        in fold (\<lambda>i. fold (\<lambda>j. swap_blocks m0 m1 s j) [i..<i + s]) (range_by (s * 2) 64) out)
      (rev [0..<6]) (map ((!) inp) [0..<64])"

text \<open>One layer; the second component counts the control words used, \<open>*bits++\<close>.\<close>

definition layer_swap :: "u64 list \<Rightarrow> nat \<Rightarrow> nat \<Rightarrow> u64 list \<times> nat \<Rightarrow> u64 list \<times> nat" where
  "layer_swap bits s j = (\<lambda>(data, k).
     let d = data ! (j + 0) XOR data ! (j + s); d = d AND bits ! k;
         data = data[j + 0 := data ! (j + 0) XOR d]; data = data[j + s := data ! (j + s) XOR d]
     in (data, k + 1))"

definition layer :: "u64 list \<Rightarrow> u64 list \<Rightarrow> nat \<Rightarrow> u64 list" where
  "layer data bits lgs =
     (let s = 2 ^ lgs
      in fst (fold (\<lambda>i. fold (layer_swap bits s) [i..<i + s]) (range_by (s * 2) 64) (data, 0)))"

text \<open>The control words of a layer: a row of 32 bits per word, transposed, or 32 words.\<close>

definition cond4 :: "u8 list \<Rightarrow> u64 list" where
  "cond4 cond_ptr = transpose_64x64 (map (\<lambda>i. ucast (load4 (drop (i * 4) cond_ptr))) [0..<64])"

definition cond8 :: "u8 list \<Rightarrow> u64 list" where
  "cond8 cond_ptr = map (\<lambda>i. load8 (drop (i * 8) cond_ptr)) [0..<32]"

text \<open>\<open>ptr\<close> is the offset of \<open>cond_ptr\<close> in \<open>bits\<close>.\<close>

definition benes_layers :: "(u8 list \<Rightarrow> u64 list) \<Rightarrow> u8 list \<Rightarrow> int \<Rightarrow> nat list \<Rightarrow> u64 list \<times> int \<Rightarrow> u64 list \<times> int" where
  "benes_layers cond bits inc lows =
     fold (\<lambda>low (r, ptr). (layer r (cond (drop (nat ptr) bits)) low, ptr + inc)) lows"

definition benes :: "u64 list \<Rightarrow> u8 list \<Rightarrow> bool \<Rightarrow> u64 list" where
  "benes r bits rv =
     (let (inc, ptr) = (if \<not> rv then (256, 0) else (- 256, int ((2 * GFBITS - 2) * 256)));
          r = transpose_64x64 r;
          (r, ptr) = benes_layers cond4 bits inc [0..<6] (r, ptr);
          r = transpose_64x64 r;
          (r, ptr) = benes_layers cond8 bits inc [0..<6] (r, ptr);
          (r, ptr) = benes_layers cond8 bits inc (rev [0..<5]) (r, ptr);
          r = transpose_64x64 r;
          (r, ptr) = benes_layers cond4 bits inc (rev [0..<6]) (r, ptr)
      in transpose_64x64 r)"

section \<open>Updates of disjoint pairs\<close>

text \<open>A loop that replaces the two elements of each pair, all pairs being disjoint, works on the old elements.\<close>

definition upd_pair :: "('p \<Rightarrow> nat) \<Rightarrow> ('p \<Rightarrow> nat) \<Rightarrow> ('p \<Rightarrow> 'a \<Rightarrow> 'a \<Rightarrow> 'a) \<Rightarrow> ('p \<Rightarrow> 'a \<Rightarrow> 'a \<Rightarrow> 'a) \<Rightarrow> 'p \<Rightarrow> 'a list \<Rightarrow> 'a list" where
  "upd_pair A B F G p v = v[A p := F p (v ! A p) (v ! B p), B p := G p (v ! A p) (v ! B p)]"

lemma length_upd_pair [simp]: "length (upd_pair A B F G p v) = length v"
  by (simp add: upd_pair_def)

lemma fold_upd_pair:
  assumes "distinct (map A ps @ map B ps)" "\<forall>p\<in>set ps. A p < length v \<and> B p < length v"
  shows "length (fold (upd_pair A B F G) ps v) = length v"
    "p \<in> set ps \<Longrightarrow> fold (upd_pair A B F G) ps v ! A p = F p (v ! A p) (v ! B p)"
    "p \<in> set ps \<Longrightarrow> fold (upd_pair A B F G) ps v ! B p = G p (v ! A p) (v ! B p)"
    "i \<notin> A ` set ps \<Longrightarrow> i \<notin> B ` set ps \<Longrightarrow> fold (upd_pair A B F G) ps v ! i = v ! i"
proof -
  have len: "length (fold (upd_pair A B F G) ps v) = length v" for ps by (induction ps arbitrary: v) simp_all
  show "length (fold (upd_pair A B F G) ps v) = length v" by (rule len)
  have *: "(\<forall>p\<in>set ps. fold (upd_pair A B F G) ps v ! A p = F p (v ! A p) (v ! B p) \<and>
      fold (upd_pair A B F G) ps v ! B p = G p (v ! A p) (v ! B p)) \<and>
    (\<forall>i. i \<notin> A ` set ps \<and> i \<notin> B ` set ps \<longrightarrow> fold (upd_pair A B F G) ps v ! i = v ! i)"
    using assms
  proof (induction ps arbitrary: v)
    case (Cons q ps)
    let ?v = "upd_pair A B F G q v"
    have d: "distinct (map A ps @ map B ps)" "A q \<noteq> B q" "A q \<notin> A ` set ps" "A q \<notin> B ` set ps" "B q \<notin> A ` set ps" "B q \<notin> B ` set ps"
      using Cons.prems(1) by auto
    have same: "?v ! i = v ! i" if "i \<noteq> A q" "i \<noteq> B q" for i using that by (simp add: upd_pair_def)
    have new: "?v ! A q = F q (v ! A q) (v ! B q)" "?v ! B q = G q (v ! A q) (v ! B q)"
      using Cons.prems(2) d(2) by (simp_all add: upd_pair_def)
    have "\<forall>p\<in>set ps. A p < length ?v \<and> B p < length ?v" using Cons.prems(2) by simp
    note ih = Cons.IH[OF d(1) this]
    have "?v ! A p = v ! A p \<and> ?v ! B p = v ! B p" if "p \<in> set ps" for p using same d that by (metis image_eqI)
    then show ?case using ih new d same by auto
  qed simp
  show "p \<in> set ps \<Longrightarrow> fold (upd_pair A B F G) ps v ! A p = F p (v ! A p) (v ! B p)"
    "p \<in> set ps \<Longrightarrow> fold (upd_pair A B F G) ps v ! B p = G p (v ! A p) (v ! B p)"
    "i \<notin> A ` set ps \<Longrightarrow> i \<notin> B ` set ps \<Longrightarrow> fold (upd_pair A B F G) ps v ! i = v ! i"
    using * by blast+
qed

text \<open>The pairs of words \<open>2 ^ d\<close> apart, in the order of the loops.\<close>

definition low_indices :: "nat \<Rightarrow> nat list" where
  "low_indices d = concat (map (\<lambda>i. [i..<i + 2 ^ d]) (range_by (2 ^ d * 2) 64))"

lemma fold_nested: "fold (\<lambda>i. fold f (g i)) xs a = fold f (concat (map g xs)) a"
  by (induction xs arbitrary: a) simp_all

lemma less_6_cases: "(d :: nat) < 6 \<longleftrightarrow> d = 0 \<or> d = 1 \<or> d = 2 \<or> d = 3 \<or> d = 4 \<or> d = 5"
  by presburger

lemma low_indices_filter:
  assumes "d < 6"
  shows "low_indices d = filter (\<lambda>j. \<not> bit j d) [0..<64]"
proof -
  have "low_indices 0 = filter (\<lambda>j. \<not> bit j (0 :: nat)) [0..<64]" by code_simp
  moreover have "low_indices 1 = filter (\<lambda>j. \<not> bit j (1 :: nat)) [0..<64]" by code_simp
  moreover have "low_indices 2 = filter (\<lambda>j. \<not> bit j (2 :: nat)) [0..<64]" by code_simp
  moreover have "low_indices 3 = filter (\<lambda>j. \<not> bit j (3 :: nat)) [0..<64]" by code_simp
  moreover have "low_indices 4 = filter (\<lambda>j. \<not> bit j (4 :: nat)) [0..<64]" by code_simp
  moreover have "low_indices 5 = filter (\<lambda>j. \<not> bit j (5 :: nat)) [0..<64]" by code_simp
  ultimately show ?thesis using assms by (auto simp only: less_6_cases)
qed

lemma bit_nat_add: "bit (c + 2 ^ d) d \<longleftrightarrow> \<not> bit (c :: nat) d"
proof -
  have "(c + 2 ^ d) div 2 ^ d = c div 2 ^ d + 1" by (rule div_add_self2) simp
  then show ?thesis by (simp add: bit_iff_odd)
qed

lemma bit_nat_diff: "2 ^ d \<le> c \<Longrightarrow> bit (c - 2 ^ d) d \<longleftrightarrow> \<not> bit (c :: nat) d"
  using bit_nat_add[of "c - 2 ^ d" d] by simp

lemma bit_nat_le: "bit (c :: nat) d \<Longrightarrow> 2 ^ d \<le> c"
  by (metis bit_iff_odd div_less even_zero not_le)

text \<open>\<open>put d b r\<close> is \<open>r\<close> with bit \<open>d\<close> set to \<open>b\<close>.\<close>

definition put :: "nat \<Rightarrow> bool \<Rightarrow> nat \<Rightarrow> nat" where
  "put d b r = (if b then set_bit d r else unset_bit d r)"

lemma bit_put: "bit (put d b r) e = (if e = d then b else bit r e)"
  by (auto simp: put_def bit_set_bit_iff bit_unset_bit_iff)

lemma put_id: "put d (bit r d) r = r"
  by (rule bit_eqI) (auto simp: bit_put)

lemma put_add: "\<not> bit r d \<Longrightarrow> put d True r = r + 2 ^ d"
  by (simp add: put_def set_bit_eq)

lemma put_diff: "bit r d \<Longrightarrow> put d False r = r - 2 ^ d"
proof -
  assume r: "bit r d"
  note le = bit_nat_le[OF r]
  have "put d True (r - 2 ^ d) = r" using put_add[of "r - 2 ^ d" d] bit_nat_diff[OF le] r le by simp
  then have "bit r e = (e = d \<or> bit (r - 2 ^ d) e)" for e using bit_put[of d True "r - 2 ^ d" e] by auto
  then show "put d False r = r - 2 ^ d"
    using bit_nat_diff[OF le] r by (intro bit_eqI) (auto simp: bit_put)
qed

lemma bit_less_64: "bit (r :: nat) n \<Longrightarrow> r < 64 \<Longrightarrow> n < 6"
proof (rule ccontr)
  assume r: "bit r n" "r < 64" "\<not> n < 6"
  then have "(2 :: nat) ^ 6 \<le> 2 ^ n" by (intro power_increasing) simp_all
  then show False using bit_nat_le[OF r(1)] r(2) by simp
qed

lemma put_less: "r < 64 \<Longrightarrow> d < 6 \<Longrightarrow> put d b r < 64"
proof -
  assume "r < 64" "d < 6"
  then have "take_bit 6 (put d b r) = put d b r"
    by (intro bit_eqI) (auto simp: bit_put bit_take_bit_iff dest: bit_less_64)
  then have "put d b r < 2 ^ 6" by (metis take_bit_nat_less_exp)
  then show ?thesis by simp
qed

lemma masks_bits:
  assumes "d < 6" "c < 64"
  shows "bit (fst (transpose_masks ! d)) c = (\<not> bit c d)" "bit (snd (transpose_masks ! d)) c = bit c d"
proof -
  have *: "list_all (\<lambda>d. list_all (\<lambda>c. bit (fst (transpose_masks ! d)) c = (\<not> bit c d) \<and> bit (snd (transpose_masks ! d)) c = bit c d) [0..<64]) [0..<6]"
    by code_simp
  show "bit (fst (transpose_masks ! d)) c = (\<not> bit c d)" "bit (snd (transpose_masks ! d)) c = bit c d"
    using * assms by (auto simp: list_all_iff)
qed

section \<open>Transposition\<close>

lemma swap_blocks_pair:
  "swap_blocks m0 m1 s j = upd_pair (\<lambda>j. j) (\<lambda>j. j + s) (\<lambda>_ a b. (a AND m0) OR push_bit s (b AND m0)) (\<lambda>_ a b. drop_bit s (a AND m1) OR (b AND m1)) j"
  by (simp add: swap_blocks_def upd_pair_def Let_def fun_eq_iff)

lemma low_indices_pairs:
  assumes "d < 6" "length (v :: 'a list) = 64"
  shows "distinct (map (\<lambda>j. j) (low_indices d) @ map (\<lambda>j. j + 2 ^ d) (low_indices d))"
    "\<forall>j\<in>set (low_indices d). j < length v \<and> j + 2 ^ d < length v"
proof -
  have "j + 2 ^ d < 64" if "j < 64" "\<not> bit j d" for j :: nat
    using put_add[OF that(2)] put_less[OF that(1) assms(1), of True] by simp
  then show "\<forall>j\<in>set (low_indices d). j < length v \<and> j + 2 ^ d < length v"
    using assms by (auto simp: low_indices_filter)
  show "distinct (map (\<lambda>j. j) (low_indices d) @ map (\<lambda>j. j + 2 ^ d) (low_indices d))"
    using assms(1) bit_nat_add by (auto simp: low_indices_filter distinct_map inj_on_def)
qed

definition stage :: "nat \<Rightarrow> u64 list \<Rightarrow> u64 list" where
  "stage d = fold (swap_blocks (fst (transpose_masks ! d)) (snd (transpose_masks ! d)) (2 ^ d)) (low_indices d)"

lemma length_stage [simp]: "length (stage d v) = length v"
  unfolding stage_def swap_blocks_pair by (simp add: length_fold_upd)

text \<open>A stage exchanges bit \<open>d\<close> of the row with bit \<open>d\<close> of the column.\<close>

lemma stage_bits:
  assumes d: "d < 6" and v: "length v = 64" and rc: "r < 64" "c < 64"
  shows "bit (stage d v ! r) c = bit (v ! put d (bit c d) r) (put d (bit r d) c)"
proof -
  let ?F = "\<lambda>_ a b. (a AND fst (transpose_masks ! d)) OR push_bit (2 ^ d) (b AND fst (transpose_masks ! d))"
  let ?G = "\<lambda>_ a b. drop_bit (2 ^ d) (a AND snd (transpose_masks ! d)) OR (b AND snd (transpose_masks ! d))"
  have st: "stage d v = fold (upd_pair (\<lambda>j. j) (\<lambda>j. j + 2 ^ d) ?F ?G) (low_indices d) v"
    unfolding stage_def swap_blocks_pair ..
  note pairs = fold_upd_pair[OF low_indices_pairs[OF d v], where F = ?F and G = ?G]
  have m: "bit (fst (transpose_masks ! d)) n = (\<not> bit n d)" "bit (snd (transpose_masks ! d)) n = bit n d" if "n < 64" for n
    using masks_bits[OF d that] by auto
  show ?thesis
  proof (cases "bit r d")
    case False
    then have "r \<in> set (low_indices d)" using rc d by (simp add: low_indices_filter)
    from pairs(2)[OF this] have "stage d v ! r = ?F r (v ! r) (v ! (r + 2 ^ d))" unfolding st by simp
    then have b: "bit (stage d v ! r) c = ((\<not> bit c d \<and> bit (v ! r) c) \<or> (2 ^ d \<le> c \<and> \<not> bit (c - 2 ^ d) d \<and> bit (v ! (r + 2 ^ d)) (c - 2 ^ d)))"
      using m rc by (auto simp: bit_or_iff bit_and_iff bit_push_bit_iff)
    show ?thesis
    proof (cases "bit c d")
      case True
      then show ?thesis using b False bit_nat_le[OF True] bit_nat_diff[OF bit_nat_le[OF True]] put_add[OF False] put_diff[OF True] by simp
    next
      case F: False
      then have "put d False r = r" "put d False c = c" using put_id[of d r] put_id[of d c] False by simp_all
      then show ?thesis using b F False bit_nat_diff by auto
    qed
  next
    case True
    let ?j = "r - 2 ^ d"
    have j: "?j + 2 ^ d = r" "\<not> bit ?j d" using bit_nat_le[OF True] bit_nat_diff True by auto
    then have "?j \<in> set (low_indices d)" using rc d by (simp add: low_indices_filter)
    from pairs(3)[OF this] have sr: "stage d v ! r = ?G ?j (v ! ?j) (v ! r)" unfolding st j(1) by simp
    then have b: "bit (stage d v ! r) c = ((bit (c + 2 ^ d) d \<and> c + 2 ^ d < 64 \<and> bit (v ! ?j) (c + 2 ^ d)) \<or> (bit c d \<and> bit (v ! r) c))"
    proof -
      have "n < 64" if "bit (v ! ?j) n" for n using bit_imp_le_length[OF that] by simp
      then have "(bit (v ! ?j) (c + 2 ^ d) \<and> bit (snd (transpose_masks ! d)) (c + 2 ^ d)) = (bit (c + 2 ^ d) d \<and> c + 2 ^ d < 64 \<and> bit (v ! ?j) (c + 2 ^ d))"
        using m(2)[of "c + 2 ^ d"] by blast
      then show ?thesis using sr m(2)[OF rc(2)] by (auto simp: bit_or_iff bit_and_iff bit_drop_bit_eq add.commute)
    qed
    show ?thesis
    proof (cases "bit c d")
      case T: True
      then have "put d True r = r" "put d True c = c" using put_id[of d r] put_id[of d c] True by simp_all
      then show ?thesis using b T True bit_nat_add[of c d] by simp
    next
      case False
      have "c + 2 ^ d < 64" using put_add[OF False] put_less[OF rc(2) d, of True] by simp
      then show ?thesis using b False True bit_nat_add[of c d] put_add[OF False] put_diff[OF True] by simp
    qed
  qed
qed

lemma transpose_stages: "transpose_64x64 v = fold stage (rev [0..<6]) (map ((!) v) [0..<64])"
  unfolding transpose_64x64_def stage_def[abs_def] low_indices_def fold_nested[symmetric] Let_def case_prod_beta ..

text \<open>After the stages of a set of bits, these are exchanged.\<close>

lemma stages_bits:
  assumes "length v = 64" "set ds \<subseteq> {..<6}" "distinct ds"
  shows "\<forall>r<64. \<forall>c<64. \<forall>r' c'. (\<forall>n. bit r' n = (if n \<in> set ds then bit c n else bit r n)) \<and> (\<forall>n. bit c' n = (if n \<in> set ds then bit r n else bit c n)) \<longrightarrow>
    bit (fold stage ds v ! r) c = bit (v ! r') c'"
  using assms
proof (induction ds arbitrary: v rule: rev_induct)
  case Nil
  have "r' = r" if "\<forall>n. bit r' n = bit r n" for r r' :: nat using that by (intro bit_eqI) simp
  then show ?case by (metis empty_iff empty_set fold_simps(1))
next
  case (snoc d ds)
  show ?case
  proof (intro allI impI)
    fix r c r' c' :: nat
    assume rc: "r < 64" "c < 64" and h: "(\<forall>n. bit r' n = (if n \<in> set (ds @ [d]) then bit c n else bit r n)) \<and> (\<forall>n. bit c' n = (if n \<in> set (ds @ [d]) then bit r n else bit c n))"
    have d: "d < 6" "d \<notin> set ds" using snoc.prems by auto
    let ?r = "put d (bit c d) r" and ?c = "put d (bit r d) c"
    have l: "length (fold stage ds v) = 64" using snoc.prems(1) by (simp add: length_fold_upd)
    have "bit (fold stage (ds @ [d]) v ! r) c = bit (fold stage ds v ! ?r) ?c"
      using stage_bits[OF d(1) l rc] by simp
    also have "\<dots> = bit (v ! r') c'"
    proof -
      have "(\<forall>n. bit r' n = (if n \<in> set ds then bit ?c n else bit ?r n)) \<and> (\<forall>n. bit c' n = (if n \<in> set ds then bit ?r n else bit ?c n))"
        using h d(2) by (auto simp: bit_put)
      then show ?thesis using snoc put_less[OF rc(1) d(1)] put_less[OF rc(2) d(1)] by auto
    qed
    finally show "bit (fold stage (ds @ [d]) v ! r) c = bit (v ! r') c'" .
  qed
qed

lemma length_transpose [simp]: "length (transpose_64x64 v) = 64"
  unfolding transpose_stages by (simp add: length_fold_upd)

theorem transpose_bits:
  assumes "length v = 64" "r < 64" "c < 64"
  shows "bit (transpose_64x64 v ! r) c = bit (v ! c) r"
proof -
  have m: "map ((!) v) [0..<64] = v" using assms(1) by (simp add: list_eq_iff_nth_eq)
  have "(\<forall>n. bit c n = (if n \<in> set (rev [0..<6]) then bit c n else bit r n)) \<and> (\<forall>n. bit r n = (if n \<in> set (rev [0..<6]) then bit r n else bit c n))"
    using assms(2,3) bit_less_64 by auto
  moreover have "set (rev [0..<6]) \<subseteq> {..<6 :: nat}" "distinct (rev [0..<6 :: nat])" by auto
  ultimately show ?thesis unfolding transpose_stages m
    using stages_bits[OF assms(1), of "rev [0..<6]"] assms(2,3) by blast
qed

lemma words_eqI:
  assumes "length v = 64" "length w = 64" "\<And>r c. r < 64 \<Longrightarrow> c < 64 \<Longrightarrow> bit (v ! r :: u64) c = bit (w ! r) c"
  shows "v = w"
  using assms by (auto intro!: nth_equalityI bit_word_eqI)

lemma transpose_transpose: "length v = 64 \<Longrightarrow> transpose_64x64 (transpose_64x64 v) = v"
  by (rule words_eqI) (simp_all add: transpose_bits)

section \<open>Pairs of indices that differ in one bit\<close>

definition spread_pos :: "nat \<Rightarrow> nat \<Rightarrow> nat" where
  "spread_pos d k = (k div 2 ^ d) * 2 ^ Suc d + k mod 2 ^ d"

definition squash :: "nat \<Rightarrow> nat \<Rightarrow> nat" where
  "squash d e = (e div 2 ^ Suc d) * 2 ^ d + e mod 2 ^ d"

lemma div_suc: "x div 2 ^ Suc d = x div 2 ^ d div (2 :: nat)"
  by (simp only: div_mult2_eq[symmetric] power_Suc2)

lemma bit_split: "e = (e div 2 ^ Suc d) * 2 ^ Suc d + of_bool (bit e d) * 2 ^ d + e mod 2 ^ d" for e :: nat
proof -
  have "e div 2 ^ d = e div 2 ^ d div 2 * 2 + e div 2 ^ d mod 2" by (simp only: div_mult_mod_eq)
  moreover have "e div 2 ^ d div 2 = e div 2 ^ Suc d" by (rule div_suc[symmetric])
  moreover have "e div 2 ^ d mod 2 = of_bool (bit e d)" by (simp add: bit_iff_odd mod_2_eq_odd)
  ultimately have "e div 2 ^ d * 2 ^ d = (e div 2 ^ Suc d) * 2 ^ Suc d + of_bool (bit e d) * 2 ^ d"
    by (simp add: algebra_simps)
  then show ?thesis using div_mult_mod_eq[of e "2 ^ d"] by linarith
qed

lemma spread_bits:
  "\<not> bit (spread_pos d k) d" "squash d (spread_pos d k) = k" "squash d (spread_pos d k + 2 ^ d) = k"
proof -
  let ?D = "2 ^ d :: nat"
  have l: "k mod ?D < ?D" by simp
  have q: "spread_pos d k div ?D = 2 * (k div ?D)" using l by (simp add: spread_pos_def div_add1_eq mult.assoc)
  show n: "\<not> bit (spread_pos d k) d" by (simp add: bit_iff_odd q)
  have r: "spread_pos d k mod ?D = k mod ?D" 
    using mod_mult_self2[of "k mod ?D" ?D "2 * (k div ?D)"] by (simp add: spread_pos_def algebra_simps)
  have "spread_pos d k div 2 ^ Suc d = k div ?D" using q unfolding div_suc by simp
  then show "squash d (spread_pos d k) = k" unfolding squash_def r by (simp only: div_mult_mod_eq)
  have "(spread_pos d k + ?D) div ?D = spread_pos d k div ?D + 1" by (rule div_add_self2) simp
  then have "(spread_pos d k + ?D) div 2 ^ Suc d = k div ?D" unfolding div_suc q by simp
  moreover have "(spread_pos d k + ?D) mod ?D = k mod ?D" using r by simp
  ultimately show "squash d (spread_pos d k + 2 ^ d) = k" unfolding squash_def by (simp only: div_mult_mod_eq)
qed

lemma spread_squash: "spread_pos d (squash d e) = (if bit e d then e - 2 ^ d else e)"
proof -
  let ?D = "2 ^ d :: nat"
  have l: "e mod ?D < ?D" by simp
  have "squash d e div ?D = e div 2 ^ Suc d" "squash d e mod ?D = e mod ?D" using l by (simp_all add: squash_def)
  then have "spread_pos d (squash d e) = (e div 2 ^ Suc d) * 2 ^ Suc d + e mod ?D" by (simp add: spread_pos_def)
  then show ?thesis using bit_split[of e d] by (cases "bit e d") simp_all
qed

lemma squash_less: "e < 2 ^ Suc d * q \<Longrightarrow> squash d e < 2 ^ d * q"
proof -
  let ?D = "2 ^ d :: nat"
  assume "e < 2 ^ Suc d * q"
  then have "e div 2 ^ Suc d < q" by (simp add: less_mult_imp_div_less mult.commute)
  then have "(e div 2 ^ Suc d + 1) * ?D \<le> q * ?D" by (intro mult_le_mono1) simp
  moreover have "e mod ?D < ?D" by simp
  ultimately show ?thesis unfolding squash_def mult.commute[of ?D q] add_mult_distrib mult_1 by linarith
qed

lemma spread_less: "k < 2 ^ d * q \<Longrightarrow> spread_pos d k + 2 ^ d < 2 ^ Suc d * q"
proof -
  let ?D = "2 ^ d :: nat"
  assume "k < 2 ^ d * q"
  then have "k div ?D < q" by (simp add: less_mult_imp_div_less mult.commute)
  then have "(k div ?D + 1) * 2 ^ Suc d \<le> q * 2 ^ Suc d" by (intro mult_le_mono1) simp
  moreover have "k mod ?D < ?D" "(2 :: nat) ^ Suc d = ?D + ?D" by simp_all
  ultimately show ?thesis unfolding spread_pos_def mult.commute[of "2 ^ Suc d" q] add_mult_distrib mult_1 by linarith
qed

lemma range_by_mult: "0 < k \<Longrightarrow> range_by k (k * q) = map (\<lambda>i. i * k) [0..<q]"
proof -
  assume k: "0 < k"
  have "k * q + k - 1 = (k - 1) + k * q" using k by simp
  also have "\<dots> div k = q" using k by (simp only: div_mult_self2) simp
  finally show ?thesis by (simp add: range_by_def)
qed

lemma lows_spread:
  "concat (map (\<lambda>i. [i..<i + 2 ^ d]) (range_by (2 ^ d * 2) (2 ^ Suc d * q))) = map (spread_pos d) [0..<2 ^ d * q]"
proof -
  have r: "range_by (2 ^ d * 2) (2 ^ Suc d * q) = map (\<lambda>i. i * 2 ^ Suc d) [0..<q]"
    using range_by_mult[of "2 ^ Suc d" q] by (simp add: mult.commute)
  have "concat (map (\<lambda>i. [i..<i + 2 ^ d]) (map (\<lambda>i. i * 2 ^ Suc d) [0..<q])) = map (spread_pos d) [0..<2 ^ d * q]"
  proof (induction q)
    case (Suc q)
    have "map (spread_pos d) [2 ^ d * q..<2 ^ d * q + 2 ^ d] = [q * 2 ^ Suc d..<q * 2 ^ Suc d + 2 ^ d]"
      by (rule nth_equalityI) (simp_all add: spread_pos_def)
    moreover have "[0..<2 ^ d * Suc q] = [0..<2 ^ d * q] @ [2 ^ d * q..<2 ^ d * q + 2 ^ d]"
      using upt_add_eq_append[of 0 "2 ^ d * q" "2 ^ d"] by (simp add: add.commute)
    ultimately show ?case using Suc by simp
  qed simp
  then show ?thesis unfolding r .
qed

text \<open>A loop over the pairs.\<close>

lemma fold_pairs:
  assumes v: "length v = 2 ^ Suc d * q" and e: "e < 2 ^ Suc d * q"
  shows "fold (upd_pair (spread_pos d) (\<lambda>k. spread_pos d k + 2 ^ d) F G) [0..<2 ^ d * q] v ! e =
    (if bit e d then G (squash d e) (v ! (e - 2 ^ d)) (v ! e) else F (squash d e) (v ! e) (v ! (e + 2 ^ d)))"
proof -
  let ?A = "spread_pos d" and ?B = "\<lambda>k. spread_pos d k + 2 ^ d" and ?ks = "[0..<2 ^ d * q]"
  have inj: "inj_on ?A X" "inj_on ?B X" for X
    by (rule inj_on_inverseI[where g = "squash d"], rule spread_bits) (rule inj_on_inverseI[where g = "squash d"], rule spread_bits)
  have dis: "?A k \<noteq> ?B l" for k l using spread_bits(1)[of d k] bit_nat_add[of "spread_pos d l" d] spread_bits(1)[of d l] by metis
  have d: "distinct (map ?A ?ks @ map ?B ?ks)" using inj dis by (auto simp: distinct_map)
  have b: "\<forall>k\<in>set ?ks. ?A k < length v \<and> ?B k < length v" using spread_less v by fastforce
  note p = fold_upd_pair(2,3)[OF d b, of "squash d e"]
  have k: "squash d e \<in> set ?ks" using squash_less[OF e] by simp
  show ?thesis
  proof (cases "bit e d")
    case True
    then have "spread_pos d (squash d e) = e - 2 ^ d" "e - 2 ^ d + 2 ^ d = e" using bit_nat_le[OF True] by (simp_all add: spread_squash)
    then show ?thesis using p(2)[OF k, of F G] True by simp
  next
    case False
    then have "spread_pos d (squash d e) = e" by (simp add: spread_squash)
    then show ?thesis using p(1)[OF k, of F G] False by simp
  qed
qed

lemma flip_nat: "flip_bit d e = (if bit e d then e - 2 ^ d else e + 2 ^ d)" for e :: nat
proof (cases "bit e d")
  case True
  have "flip_bit d e = put d False e" by (rule bit_eqI) (auto simp: bit_put bit_flip_bit_iff True)
  then show ?thesis using True put_diff[OF True] by simp
next
  case False
  have "flip_bit d e = put d True e" by (rule bit_eqI) (auto simp: bit_put bit_flip_bit_iff False)
  then show ?thesis using False put_add[OF False] by simp
qed

lemma squash_flip: "squash d (flip_bit d e) = squash d e"
  using spread_bits(2,3)[of d "squash d e"] spread_squash[of d e] bit_nat_le[of e d] by (auto simp: flip_nat split: if_splits)

lemma flip_flip: "flip_bit d (flip_bit d e) = (e :: nat)"
  by (rule bit_eqI) (auto simp: bit_flip_bit_iff)

lemma flip_less: "e < 2 ^ w \<Longrightarrow> d < w \<Longrightarrow> flip_bit d e < (2 :: nat) ^ w"
proof -
  assume e: "e < 2 ^ w" "d < w"
  have "take_bit w e = e" using e by (simp add: take_bit_nat_eq_self)
  then have "bit e n \<Longrightarrow> n < w" for n by (metis bit_take_bit_iff)
  then have "take_bit w (flip_bit d e) = flip_bit d e" using e(2)
    by (intro bit_eqI) (auto simp: bit_flip_bit_iff bit_take_bit_iff)
  then show ?thesis by (metis take_bit_nat_less_exp)
qed

section \<open>A layer\<close>

lemma fold_count:
  assumes "\<And>k v. k < b \<Longrightarrow> step (g k) (v, k) = (h k v, Suc k)"
  shows "a \<le> b \<Longrightarrow> fold step (map g [a..<b]) (v, a) = (fold h [a..<b] v, b)"
proof (induction "b - a" arbitrary: a v)
  case (Suc n)
  then have "a < b" by simp
  then show ?case using Suc.hyps(1)[of "Suc a"] Suc.hyps(2) assms[of a v] by (simp add: upt_rec[of a b])
qed simp

abbreviation mix :: "('k \<Rightarrow> 'a :: semiring_bit_operations) \<Rightarrow> 'k \<Rightarrow> 'a \<Rightarrow> 'a \<Rightarrow> 'a" where
  "mix m k a b \<equiv> a XOR ((a XOR b) AND m k)"

lemma pow_64: "d < 6 \<Longrightarrow> \<exists>q :: nat. 64 = 2 ^ Suc d * q \<and> 32 = 2 ^ d * q"
  by (intro exI[of _ "2 ^ (5 - d)"]) (auto simp: less_6_cases)

lemma layer_pairs:
  assumes "lgs < 6"
  shows "layer data bits lgs =
    fold (upd_pair (spread_pos lgs) (\<lambda>k. spread_pos lgs k + 2 ^ lgs) (\<lambda>k a b. a XOR ((a XOR b) AND bits ! k)) (\<lambda>k a b. b XOR ((a XOR b) AND bits ! k)))
      [0..<32] data"
proof -
  have s: "layer_swap bits (2 ^ lgs) (spread_pos lgs k) (v, k) =
      (upd_pair (spread_pos lgs) (\<lambda>k. spread_pos lgs k + 2 ^ lgs) (\<lambda>k a b. a XOR ((a XOR b) AND bits ! k)) (\<lambda>k a b. b XOR ((a XOR b) AND bits ! k)) k v, Suc k)" for k v
    by (simp add: layer_swap_def upd_pair_def Let_def)
  obtain q where q: "64 = 2 ^ Suc lgs * (q :: nat)" "32 = 2 ^ lgs * q" using pow_64[OF assms] by blast
  show ?thesis
    unfolding layer_def Let_def fold_nested q lows_spread
    by (subst fold_count[where g = "spread_pos lgs", OF s]) simp_all
qed

lemma length_layer [simp]: "lgs < 6 \<Longrightarrow> length (layer data bits lgs) = length data"
  by (simp add: layer_pairs length_fold_upd)

lemma layer_bits:
  assumes "lgs < 6" "length v = 64" "r < 64"
  shows "bit (layer v bits lgs ! r) c = bit (v ! (if bit (bits ! squash lgs r) c then flip_bit lgs r else r)) c"
proof -
  obtain q where q: "64 = 2 ^ Suc lgs * (q :: nat)" "32 = 2 ^ lgs * q" using pow_64[OF assms(1)] by blast
  show ?thesis
    unfolding layer_pairs[OF assms(1)] q(2) fold_pairs[OF assms(2)[unfolded q(1)] assms(3)[unfolded q(1)]]
    by (auto simp: flip_nat bit_xor_iff bit_and_iff)
qed

text \<open>A layer undoes itself.\<close>

lemma layer_layer:
  assumes "lgs < 6" "length v = 64"
  shows "layer (layer v bits lgs) bits lgs = v"
proof (rule words_eqI)
  fix r c :: nat
  assume r: "r < 64"
  have f: "flip_bit lgs r < 64" using flip_less[of r 6 lgs] r assms(1) by simp
  show "bit (layer (layer v bits lgs) bits lgs ! r) c = bit (v ! r) c"
    using layer_bits[OF assms(1), of "layer v bits lgs" r bits c] layer_bits[OF assms r, of bits c] layer_bits[OF assms f, of bits c] assms r
    by (simp add: squash_flip flip_flip split: if_splits)
qed (use assms in simp_all)

section \<open>The network\<close>

text \<open>Bit \<open>p\<close> of a byte array.\<close>

definition cbit :: "u8 list \<Rightarrow> nat \<Rightarrow> bool" where
  "cbit b p = bit (b ! (p div 8)) (p mod 8)"

lemma little_endian_bits:
  assumes "n < LENGTH('w :: len)"
  shows "bit (fold (\<lambda>i ret. push_bit 8 ret OR ucast (inp ! i)) (rev [0..<m]) (w :: 'w word)) n =
    (if n < 8 * m then bit (inp ! (n div 8) :: u8) (n mod 8) else bit w (n - 8 * m))"
  using assms
proof (induction m arbitrary: w)
  case (Suc m)
  have b: "bit (inp ! m) k \<Longrightarrow> k < 8" for k using bit_imp_le_length[of "inp ! m" k] by simp
  show ?case
  proof (cases "n < 8 * m")
    case True
    then show ?thesis using Suc by simp
  next
    case False
    then have *: "bit (fold (\<lambda>i ret. push_bit 8 ret OR ucast (inp ! i)) (rev [0..<Suc m]) w) n = bit (push_bit 8 w OR ucast (inp ! m)) (n - 8 * m)"
      using Suc by simp
    show ?thesis
    proof (cases "n < 8 * Suc m")
      case T: True
      then obtain x where x: "n = x + 8 * m" "x < 8" using False by (metis add.commute add_less_cancel_left le_add_diff_inverse mult_Suc_right not_le)
      then have "n div 8 = m" "n mod 8 = n - 8 * m" by simp_all
      have "bit (push_bit 8 w OR ucast (inp ! m)) x = bit (inp ! m) x" if "x < 8" "x < LENGTH('w)" for x
        using that by (simp add: bit_or_iff bit_push_bit_iff bit_ucast_iff)
      then have "bit (push_bit 8 w OR ucast (inp ! m)) (n - 8 * m) = bit (inp ! m) (n - 8 * m)"
        using T Suc.prems by simp
      then show ?thesis unfolding * \<open>n div 8 = m\<close> \<open>n mod 8 = n - 8 * m\<close> if_P[OF T] .
    next
      case F: False
      have "bit (push_bit 8 w OR ucast (inp ! m)) x = bit w (x - 8)" if "8 \<le> x" "x < LENGTH('w)" for x
        using that b[of x] by (auto simp: bit_or_iff bit_push_bit_iff bit_ucast_iff)
      then have "bit (push_bit 8 w OR ucast (inp ! m)) (n - 8 * m) = bit w (n - 8 * m - 8)"
        using F Suc.prems by simp
      moreover have "n - 8 * Suc m = n - 8 * m - 8" by simp
      ultimately show ?thesis unfolding * if_not_P[OF F] by simp
    qed
  qed
qed simp

lemma load8_bits: "n < 64 \<Longrightarrow> bit (load8 inp) n = cbit inp n"
proof -
  assume n: "n < 64"
  have "bit (inp ! 7) k \<Longrightarrow> k < 8" for k using bit_imp_le_length[of "inp ! 7" k] by simp
  moreover have "n - 56 = n mod 8" "n div 8 = 7" if "\<not> n < 56" using that n by presburger+
  ultimately show ?thesis using n unfolding load8_def cbit_def
    by (subst little_endian_bits) (auto simp: bit_ucast_iff)
qed

lemma load4_fold: "load4 src = fold (\<lambda>i ret. push_bit 8 ret OR ucast (src ! i)) (rev [0..<3]) (ucast (src ! 3))"
proof -
  have "rev [0..<3] = [2, 1, 0 :: nat]" by code_simp
  then show ?thesis by (simp add: load4_def Let_def)
qed

lemma load4_bits: "n < 32 \<Longrightarrow> bit (load4 inp) n = cbit inp n"
proof -
  assume n: "n < 32"
  have "n - 24 = n mod 8" "n div 8 = 3" if "\<not> n < 24" using that n by presburger+
  then show ?thesis using n unfolding load4_fold cbit_def
    by (subst little_endian_bits) (auto simp: bit_ucast_iff)
qed

lemma cbit_drop: "k \<le> length b \<Longrightarrow> cbit (drop k b) p = cbit b (8 * k + p)"
  by (simp add: cbit_def add.commute)

text \<open>Where a layer takes the bit at \<open>e\<close> from, with the control bits at offset \<open>P\<close>.\<close>

definition route :: "u8 list \<Rightarrow> nat \<Rightarrow> nat \<Rightarrow> nat \<Rightarrow> nat" where
  "route cb P s e = (if cbit cb (8 * P + squash s e) then flip_bit s e else e)"

text \<open>The bits of the 64 words, by rows and by columns.\<close>

definition row_bit :: "u64 list \<Rightarrow> nat \<Rightarrow> bool" where
  "row_bit v e = bit (v ! (e div 64)) (e mod 64)"

definition col_bit :: "u64 list \<Rightarrow> nat \<Rightarrow> bool" where
  "col_bit v e = bit (v ! (e mod 64)) (e div 64)"

lemma transpose_views:
  assumes "length v = 64" "e < 4096"
  shows "col_bit (transpose_64x64 v) e = row_bit v e" "row_bit (transpose_64x64 v) e = col_bit v e"
proof -
  have "e div 64 < 64" using assms(2) by (simp add: less_mult_imp_div_less)
  then show "col_bit (transpose_64x64 v) e = row_bit v e" "row_bit (transpose_64x64 v) e = col_bit v e"
    using assms(1) by (simp_all add: col_bit_def row_bit_def transpose_bits)
qed

lemma row_bit_eqI: "length v = 64 \<Longrightarrow> length w = 64 \<Longrightarrow> (\<And>e. e < 4096 \<Longrightarrow> row_bit v e = row_bit w e) \<Longrightarrow> v = w"
proof (rule words_eqI)
  fix r c :: nat
  assume *: "\<And>e. e < 4096 \<Longrightarrow> row_bit v e = row_bit w e" and "r < 64" "c < 64"
  then show "bit (v ! r) c = bit (w ! r) c" using *[of "64 * r + c"] by (simp add: row_bit_def)
qed

lemma flip_low:
  assumes "s < 6"
  shows "flip_bit s e div 64 = e div (64 :: nat)" "flip_bit s e mod 64 = flip_bit s (e mod 64)"
    "squash s e = 32 * (e div 64) + squash s (e mod 64)"
proof -
  have "drop_bit 6 (flip_bit s e) = drop_bit 6 e" using assms by (intro bit_eqI) (auto simp: bit_drop_bit_eq bit_flip_bit_iff)
  then show "flip_bit s e div 64 = e div 64" by (simp add: drop_bit_eq_div)
  have "take_bit 6 (flip_bit s e) = flip_bit s (take_bit 6 e)" using assms by (intro bit_eqI) (auto simp: bit_take_bit_iff bit_flip_bit_iff)
  then show "flip_bit s e mod 64 = flip_bit s (e mod 64)" by (simp add: take_bit_eq_mod)
  obtain q where q: "64 = 2 ^ Suc s * (q :: nat)" "32 = 2 ^ s * q" using pow_64[OF assms] by blast
  have "e = e mod 64 + 2 ^ Suc s * (q * (e div 64))" unfolding mult.assoc[symmetric] q(1)[symmetric] by simp
  then have "e div 2 ^ Suc s = q * (e div 64) + e mod 64 div 2 ^ Suc s" by (metis div_mult_self2 power_not_zero zero_neq_numeral)
  moreover have "e mod 64 mod 2 ^ s = e mod 2 ^ s" by (rule mod_mod_cancel) (simp add: q(1))
  moreover have "32 * (e div 64) = q * (e div 64) * 2 ^ s" by (simp add: q(2))
  ultimately show "squash s e = 32 * (e div 64) + squash s (e mod 64)"
    unfolding squash_def by (simp add: add_mult_distrib)
qed

lemma flip_high:
  "flip_bit (6 + s) e div 64 = flip_bit s (e div (64 :: nat))" "flip_bit (6 + s) e mod 64 = e mod (64 :: nat)"
  "squash (6 + s) e = 64 * squash s (e div 64) + e mod 64"
proof -
  have "drop_bit 6 (flip_bit (6 + s) e) = flip_bit s (drop_bit 6 e)" by (intro bit_eqI) (auto simp: bit_drop_bit_eq bit_flip_bit_iff)
  then show "flip_bit (6 + s) e div 64 = flip_bit s (e div 64)" by (simp add: drop_bit_eq_div)
  have "take_bit 6 (flip_bit (6 + s) e) = take_bit 6 e" by (intro bit_eqI) (auto simp: bit_take_bit_iff bit_flip_bit_iff)
  then show "flip_bit (6 + s) e mod 64 = e mod 64" by (simp add: take_bit_eq_mod)
  have "e div 2 ^ Suc (6 + s) = e div 64 div 2 ^ Suc s" by (simp add: div_mult2_eq[symmetric] power_add)
  moreover have "e mod 2 ^ (6 + s) = 64 * (e div 64 mod 2 ^ s) + e mod 64" by (simp add: mod_mult2_eq power_add)
  ultimately show "squash (6 + s) e = 64 * squash s (e div 64) + e mod 64"
    unfolding squash_def by (simp add: power_add algebra_simps)
qed

lemma route_less: "e < 4096 \<Longrightarrow> s < 12 \<Longrightarrow> route cb P s e < 4096"
  using flip_less[of e 12 s] by (simp add: route_def)

text \<open>A layer routes the bits.\<close>

lemma layer_cond8:
  assumes "length v = 64" "P + 256 \<le> length bits" "s < 6" "e < 4096"
  shows "row_bit (layer v (cond8 (drop P bits)) s) e = row_bit v (route bits P (6 + s) e)"
proof -
  have r: "e div 64 < 64" using assms(4) by (simp add: less_mult_imp_div_less)
  have k: "squash s (e div 64) < 32"
    using squash_less[of "e div 64" s "2 ^ (5 - s)"] r assms(3) by (auto simp: less_6_cases)
  then have "bit (cond8 (drop P bits) ! squash s (e div 64)) (e mod 64) = cbit (drop (P + 8 * squash s (e div 64)) bits) (e mod 64)"
    by (simp add: cond8_def load8_bits add.commute mult.commute)
  also have "\<dots> = cbit bits (8 * P + squash (6 + s) e)"
    proof -
    have "8 * (P + 8 * squash s (e div 64)) + e mod 64 = 8 * P + squash (6 + s) e" unfolding flip_high(3) by simp
    then show ?thesis using k assms(2) by (simp only: cbit_drop)
  qed
  finally show ?thesis unfolding row_bit_def route_def layer_bits[OF assms(3,1) r]
    by (simp add: flip_high)
qed

lemma layer_cond4:
  assumes "length v = 64" "P + 256 \<le> length bits" "s < 6" "e < 4096"
  shows "col_bit (layer v (cond4 (drop P bits)) s) e = col_bit v (route bits P s e)"
proof -
  have c: "e div 64 < 64" using assms(4) by (simp add: less_mult_imp_div_less)
  have r: "e mod 64 < 64" by simp
  have k: "squash s (e mod 64) < 32"
    using squash_less[of "e mod 64" s "2 ^ (5 - s)"] assms(3) by (auto simp: less_6_cases)
  have "bit (cond4 (drop P bits) ! squash s (e mod 64)) (e div 64) = bit (ucast (load4 (drop (e div 64 * 4) (drop P bits))) :: u64) (squash s (e mod 64))"
    unfolding cond4_def using k c by (subst transpose_bits) simp_all
  also have "\<dots> = cbit (drop (P + 4 * (e div 64)) bits) (squash s (e mod 64))"
    unfolding bit_ucast_iff load4_bits[OF k] using k by (simp add: add.commute mult.commute)
  also have "\<dots> = cbit bits (8 * P + squash s e)"
    proof -
    have "8 * (P + 4 * (e div 64)) + squash s (e mod 64) = 8 * P + squash s e" unfolding flip_low(3)[OF assms(3), of e] by simp
    then show ?thesis using c assms(2) by (simp only: cbit_drop)
  qed
  finally have b: "bit (cond4 (drop P bits) ! squash s (e mod 64)) (e div 64) = cbit bits (8 * P + squash s e)" .
  show ?thesis unfolding col_bit_def route_def layer_bits[OF assms(3,1) r] b
    by (cases "cbit bits (8 * P + squash s e)") (simp_all only: if_True if_False flip_low(1,2)[OF assms(3)])
qed

text \<open>The offsets of the control bits and the strides of the layers; the routes of all layers together.\<close>

definition layer_schedule :: "(nat \<times> nat) list" where
  "layer_schedule = zip (map ((*) 256) [0..<23]) ([0..<12] @ rev [0..<11])"

abbreviation routes :: "u8 list \<Rightarrow> (nat \<times> nat) list \<Rightarrow> nat \<Rightarrow> nat" where
  "routes cb L \<equiv> foldr (\<lambda>(P, s). route cb P s) L"

lemma route_route: "route cb P s (route cb P s e) = e"
  by (simp add: route_def squash_flip flip_flip)

lemma routes_rev: "routes cb L (routes cb (rev L) e) = e"
  by (induction L arbitrary: e) (auto simp: route_route)

lemma routes_rev': "routes cb (rev L) (routes cb L e) = e"
  using routes_rev[of cb "rev L" e] by simp

lemma routes_less: "\<forall>(P, s)\<in>set L. s < 12 \<Longrightarrow> e < 4096 \<Longrightarrow> routes cb L e < 4096"
  by (induction L) (auto simp: route_less)

lemma benes_layers_routes:
  assumes view: "\<And>v P s e. length v = 64 \<Longrightarrow> P + 256 \<le> length bits \<Longrightarrow> s < 6 \<Longrightarrow> e < 4096 \<Longrightarrow> view (layer v (cond (drop P bits)) s) e = view v (route bits P (off + s) e)"
    and off: "off \<le> 6" and v: "length v = 64" and lows: "\<forall>s\<in>set lows. s < 6"
    and range: "\<forall>t<length lows. 0 \<le> ptr + inc * int t \<and> ptr + inc * int t + 256 \<le> int (length bits)"
  shows "length (fst (benes_layers cond bits inc lows (v, ptr))) = 64"
    "snd (benes_layers cond bits inc lows (v, ptr)) = ptr + inc * int (length lows)"
    "e < 4096 \<Longrightarrow> view (fst (benes_layers cond bits inc lows (v, ptr))) e =
      view v (routes bits (zip (map (\<lambda>t. nat (ptr + inc * int t)) [0..<length lows]) (map ((+) off) lows)) e)"
proof -
  have "length (fst (benes_layers cond bits inc lows (v, ptr))) = 64 \<and> snd (benes_layers cond bits inc lows (v, ptr)) = ptr + inc * int (length lows) \<and>
    (\<forall>e<4096. view (fst (benes_layers cond bits inc lows (v, ptr))) e =
      view v (routes bits (zip (map (\<lambda>t. nat (ptr + inc * int t)) [0..<length lows]) (map ((+) off) lows)) e))"
    using lows range
  proof (induction lows rule: rev_induct)
    case Nil
    then show ?case by (simp add: benes_layers_def v)
  next
    case (snoc s lows)
    let ?P = "ptr + inc * int (length lows)"
    obtain w where w: "benes_layers cond bits inc lows (v, ptr) = (w, ?P)"
      using snoc by (cases "benes_layers cond bits inc lows (v, ptr)") auto
    then have l: "length w = 64"
      and e: "\<And>e. e < 4096 \<Longrightarrow> view w e = view v (routes bits (zip (map (\<lambda>t. nat (ptr + inc * int t)) [0..<length lows]) (map ((+) off) lows)) e)"
      using snoc by auto
    have P: "0 \<le> ?P" "?P + 256 \<le> int (length bits)" using snoc.prems(2) by auto
    have st: "benes_layers cond bits inc (lows @ [s]) (v, ptr) = (layer w (cond (drop (nat ?P) bits)) s, ?P + inc)"
      using w by (simp add: benes_layers_def)
    have s: "s < 6" "off + s < 12" using snoc.prems(1) off by auto
    have "view (layer w (cond (drop (nat ?P) bits)) s) e = view v (routes bits (zip (map (\<lambda>t. nat (ptr + inc * int t)) [0..<length (lows @ [s])]) (map ((+) off) (lows @ [s]))) e)" if "e < 4096" for e
      using view[OF l _ s(1) that, of "nat ?P"] e[OF route_less[OF that s(2), of bits "nat ?P"]] P by simp
    moreover have "?P + inc = ptr + inc * int (length (lows @ [s]))" by (simp add: distrib_left)
    ultimately show ?case using st l s by simp
  qed
  then show "length (fst (benes_layers cond bits inc lows (v, ptr))) = 64"
    "snd (benes_layers cond bits inc lows (v, ptr)) = ptr + inc * int (length lows)"
    "e < 4096 \<Longrightarrow> view (fst (benes_layers cond bits inc lows (v, ptr))) e =
      view v (routes bits (zip (map (\<lambda>t. nat (ptr + inc * int t)) [0..<length lows]) (map ((+) off) lows)) e)"
    by auto
qed

abbreviation phase :: "int \<Rightarrow> int \<Rightarrow> nat \<Rightarrow> nat list \<Rightarrow> (nat \<times> nat) list" where
  "phase ptr inc off lows \<equiv> zip (map (\<lambda>t. nat (ptr + inc * int t)) [0..<length lows]) (map ((+) off) lows)"

lemma phase_step:
  assumes "view = row_bit \<and> cond = cond8 \<and> off = 6 \<or> view = col_bit \<and> cond = cond4 \<and> off = 0"
    "length v = 64" "set lows \<subseteq> {..<6}"
    "\<forall>t<length lows. 0 \<le> ptr + inc * int t \<and> ptr + inc * int t + 256 \<le> int (length bits)"
  obtains w where "benes_layers cond bits inc lows (v, ptr) = (w, ptr + inc * int (length lows))" "length w = 64"
    "\<And>e. e < 4096 \<Longrightarrow> view w e = view v (routes bits (phase ptr inc off lows) e)"
proof -
  have o: "off \<le> 6" and l: "\<forall>s\<in>set lows. s < 6" using assms by auto
  have "view (layer v (cond (drop P bits)) s) e = view v (route bits P (off + s) e)"
    if "length v = 64" "P + 256 \<le> length bits" "s < 6" "e < 4096" for v P s e
    using assms(1) layer_cond8[OF that] layer_cond4[OF that] by auto
  note * = benes_layers_routes[where view = view and cond = cond and off = off, OF this o assms(2) l assms(4)]
  show thesis using * that[of "fst (benes_layers cond bits inc lows (v, ptr))"] by (simp add: prod_eq_iff)
qed

lemma schedule_phases:
  "layer_schedule = phase 0 256 0 [0..<6] @ phase (0 + 256 * 6) 256 6 [0..<6] @ phase (0 + 256 * 12) 256 6 (rev [0..<5]) @ phase (0 + 256 * 17) 256 0 (rev [0..<6])"
  "rev layer_schedule = phase 5632 (- 256) 0 [0..<6] @ phase (5632 + - 256 * 6) (- 256) 6 [0..<6] @ phase (5632 + - 256 * 12) (- 256) 6 (rev [0..<5]) @ phase (5632 + - 256 * 17) (- 256) 0 (rev [0..<6])"
  by code_simp+

lemma benes_phases:
  assumes r: "length r = 64" and e: "e < 4096"
    and ip: "(inc, ptr) = (if \<not> rv then (256, 0) else (- 256, int ((2 * GFBITS - 2) * 256)))" and bits: "23 * 256 \<le> length bits"
  shows "length (benes r bits rv) = 64"
    "row_bit (benes r bits rv) e = row_bit r (routes bits
      (phase ptr inc 0 [0..<6] @ phase (ptr + inc * 6) inc 6 [0..<6] @ phase (ptr + inc * 12) inc 6 (rev [0..<5]) @ phase (ptr + inc * 17) inc 0 (rev [0..<6])) e)"
proof -
  have rng: "\<forall>t<length lows. 0 \<le> (ptr + inc * k) + inc * int t \<and> (ptr + inc * k) + inc * int t + 256 \<le> int (length bits)"
    if "0 \<le> k" "k + int (length lows) \<le> 23" for k lows
    using ip bits that by (auto simp: GFBITS_def split: if_splits)
  let ?T = transpose_64x64
  obtain u1 where u1: "benes_layers cond4 bits inc [0..<6] (?T r, ptr) = (u1, ptr + inc * 6)" "length u1 = 64"
    "\<And>e. e < 4096 \<Longrightarrow> col_bit u1 e = col_bit (?T r) (routes bits (phase ptr inc 0 [0..<6]) e)"
    by (rule phase_step[of col_bit cond4 0 "?T r" "[0..<6]" ptr inc bits]) (use rng[of 0 "[0..<6]"] in auto)
  obtain u2 where u2: "benes_layers cond8 bits inc [0..<6] (?T u1, ptr + inc * 6) = (u2, ptr + inc * 12)" "length u2 = 64"
    "\<And>e. e < 4096 \<Longrightarrow> row_bit u2 e = row_bit (?T u1) (routes bits (phase (ptr + inc * 6) inc 6 [0..<6]) e)"
    by (rule phase_step[of row_bit cond8 6 "?T u1" "[0..<6]" "ptr + inc * 6" inc bits]) (use rng[of 6 "[0..<6]"] in auto)
  obtain u3 where u3: "benes_layers cond8 bits inc (rev [0..<5]) (u2, ptr + inc * 12) = (u3, ptr + inc * 17)" "length u3 = 64"
    "\<And>e. e < 4096 \<Longrightarrow> row_bit u3 e = row_bit u2 (routes bits (phase (ptr + inc * 12) inc 6 (rev [0..<5])) e)"
    by (rule phase_step[of row_bit cond8 6 u2 "rev [0..<5]" "ptr + inc * 12" inc bits]) (use rng[of 12 "rev [0..<5]"] u2 in auto)
  obtain u4 where u4: "benes_layers cond4 bits inc (rev [0..<6]) (?T u3, ptr + inc * 17) = (u4, ptr + inc * 23)" "length u4 = 64"
    "\<And>e. e < 4096 \<Longrightarrow> col_bit u4 e = col_bit (?T u3) (routes bits (phase (ptr + inc * 17) inc 0 (rev [0..<6])) e)"
    by (rule phase_step[of col_bit cond4 0 "?T u3" "rev [0..<6]" "ptr + inc * 17" inc bits]) (use rng[of 17 "rev [0..<6]"] in auto)
  have b: "benes r bits rv = ?T u4" unfolding benes_def Let_def ip[symmetric] by (simp only: prod.case u1(1) u2(1) u3(1) u4(1))
  show "length (benes r bits rv) = 64" unfolding b by simp
  have less: "routes bits (phase p i off lows) e < 4096" if "set lows \<subseteq> {..<6}" "off \<le> 6" "e < 4096" for p i off lows e
    using that by (intro routes_less) (fastforce dest!: set_zip_rightD simp: subset_iff)+
  have lo: "set [0..<6] \<subseteq> {..<6 :: nat}" "set (rev [0..<6]) \<subseteq> {..<6 :: nat}" "set (rev [0..<5]) \<subseteq> {..<6 :: nat}" by auto
  let ?n4 = "routes bits (phase (ptr + inc * 17) inc 0 (rev [0..<6])) e"
  let ?n3 = "routes bits (phase (ptr + inc * 12) inc 6 (rev [0..<5])) ?n4"
  let ?n2 = "routes bits (phase (ptr + inc * 6) inc 6 [0..<6]) ?n3"
  have n4: "?n4 < 4096" by (rule less[OF lo(2) _ e]) simp
  have n3: "?n3 < 4096" by (rule less[OF lo(3) _ n4]) simp
  have n2: "?n2 < 4096" by (rule less[OF lo(1) _ n3]) simp
  have "row_bit (?T u4) e = col_bit u4 e" by (rule transpose_views(2)[OF u4(2) e])
  also have "\<dots> = row_bit u3 ?n4" unfolding u4(3)[OF e] by (rule transpose_views(1)[OF u3(2) n4])
  also have "\<dots> = row_bit (?T u1) ?n2" unfolding u3(3)[OF n4] u2(3)[OF n3] ..
  also have "\<dots> = col_bit u1 ?n2" by (rule transpose_views(2)[OF u1(2) n2])
  also have "\<dots> = row_bit r (routes bits (phase ptr inc 0 [0..<6]) ?n2)"
    unfolding u1(3)[OF n2] by (rule transpose_views(1)[OF r less[OF lo(1) _ n2]]) simp
  finally show "row_bit (benes r bits rv) e = row_bit r (routes bits
      (phase ptr inc 0 [0..<6] @ phase (ptr + inc * 6) inc 6 [0..<6] @ phase (ptr + inc * 12) inc 6 (rev [0..<5]) @ phase (ptr + inc * 17) inc 0 (rev [0..<6])) e)"
    unfolding b foldr_append comp_apply .
qed

lemma benes_routes:
  assumes "length r = 64" "23 * 256 \<le> length bits"
  shows "length (benes r bits rv) = 64"
    "e < 4096 \<Longrightarrow> row_bit (benes r bits rv) e = row_bit r (routes bits (if rv then rev layer_schedule else layer_schedule) e)"
proof -
  have ip: "(- 256, 5632) = (if \<not> True then (256, 0) else (- 256, int ((2 * GFBITS - 2) * 256)))"
    "(256, 0) = (if \<not> False then (256, 0) else (- 256, int ((2 * GFBITS - 2) * 256)))"
    by (simp_all add: GFBITS_def)
  show "length (benes r bits rv) = 64"
    using benes_phases(1)[OF assms(1) _ ip(1) assms(2), of 0] benes_phases(1)[OF assms(1) _ ip(2) assms(2), of 0] by (cases rv) simp_all
  assume e: "e < 4096"
  show "row_bit (benes r bits rv) e = row_bit r (routes bits (if rv then rev layer_schedule else layer_schedule) e)"
  proof (cases rv)
    case True
    then show ?thesis using benes_phases(2)[OF assms(1) e ip(1) assms(2)] by (simp only: if_True schedule_phases(2))
  next
    case False
    then show ?thesis using benes_phases(2)[OF assms(1) e ip(2) assms(2)] by (simp only: if_False schedule_phases(1))
  qed
qed

text \<open>C35: The Benes network run backwards over the same control bits undoes the network run forwards: decryption
  permutes the received word with \<open>rev\<close> set and the error vector without it.\<close>

theorem benes_inverse:
  assumes "length r = 64" "23 * 256 \<le> length bits"
  shows "benes (benes r bits False) bits True = r"
proof (rule row_bit_eqI)
  show "length (benes (benes r bits False) bits True) = 64" using assms by (intro benes_routes) (simp_all add: benes_routes)
  fix e :: nat
  assume e: "e < 4096"
  have "\<forall>(P, s)\<in>set (rev layer_schedule). s < 12" by code_simp
  then have "routes bits (rev layer_schedule) e < 4096" using e by (rule routes_less)
  then show "row_bit (benes (benes r bits False) bits True) e = row_bit r e"
    using benes_routes[OF assms] benes_routes(2)[OF benes_routes(1)[OF assms, of False] assms(2) e, of True]
    by (simp add: routes_rev)
qed (rule assms)

lemma benes_inverse_witness:
  "benes (benes (replicate 64 5) (replicate 5888 3) False) (replicate 5888 3) True = replicate 64 5"
  by (rule benes_inverse) simp_all

end
