(* ===== verification/McControlbits.thy ===== *)
theory McControlbits
  imports McBenes "HOL-Library.Multiset"
begin

text \<open>
  The check of the control bits of the Benes network (\<open>controlbits.c\<close>): the layers that
  \<open>controlbitsfrompermutation\<close> applies to the identity, to compare the result with the permutation.
\<close>

section \<open>The layers of the check of the control bits\<close>

text \<open>\<open>layer\<close> of \<open>controlbits.c\<close> permutes 16-bit numbers; the second component of its state is \<open>index\<close>.\<close>

definition cb_swap :: "u8 list \<Rightarrow> nat \<Rightarrow> nat \<Rightarrow> nat \<Rightarrow> u16 list \<times> nat \<Rightarrow> u16 list \<times> nat" where
  "cb_swap cb stride i j = (\<lambda>(p, index).
     let d = p ! (i + j) XOR p ! (i + j + stride);
         m = ucast (drop_bit (index AND 7) (cb ! drop_bit 3 index)) AND 1;
         m = - m;
         d = d AND m;
         p = p[i + j := p ! (i + j) XOR d];
         p = p[i + j + stride := p ! (i + j + stride) XOR d]
     in (p, index + 1))"

definition cb_layer :: "u16 list \<Rightarrow> u8 list \<Rightarrow> nat \<Rightarrow> nat \<Rightarrow> u16 list" where
  "cb_layer p cb s n =
     (let stride = 2 ^ s
      in fst (fold (\<lambda>i. fold (cb_swap cb stride i) [0..<stride]) (range_by (stride * 2) n) (p, 0)))"

definition cb_layers :: "u8 list \<Rightarrow> nat \<Rightarrow> nat list \<Rightarrow> u16 list \<times> nat \<Rightarrow> u16 list \<times> nat" where
  "cb_layers out n = fold (\<lambda>i (pi_test, ptr). (cb_layer pi_test (drop ptr out) i n, ptr + drop_bit 4 n))"

definition cb_pi_test :: "u8 list \<Rightarrow> nat \<Rightarrow> nat \<Rightarrow> u16 list" where
  "cb_pi_test out w n =
     (let pi_test = map of_nat [0..<n];
          (pi_test, ptr) = cb_layers out n [0..<w] (pi_test, 0);
          (pi_test, ptr) = cb_layers out n (rev [0..<w - 1]) (pi_test, ptr)
      in pi_test)"

lemma cb_swap_pair:
  "cb_swap cb (2 ^ s) i j (p, k) = (p[i + j := p ! (i + j) XOR (if cbit cb k then p ! (i + j) XOR p ! (i + j + 2 ^ s) else 0),
     i + j + 2 ^ s := p ! (i + j + 2 ^ s) XOR (if cbit cb k then p ! (i + j) XOR p ! (i + j + 2 ^ s) else 0)], Suc k)"
proof -
  have "k AND 7 = k mod 8" "drop_bit 3 k = k div 8"
    using and_nat_numerals take_bit_eq_mask[of 3 k] by (simp_all add: take_bit_eq_mod mask_eq_exp_minus_1 drop_bit_eq_div)
  then have "(ucast (drop_bit (k AND 7) (cb ! drop_bit 3 k)) :: u16) AND 1 = of_bool (cbit cb k)"
    by (intro bit_word_eqI) (auto simp: bit_and_iff bit_1_iff bit_ucast_iff bit_drop_bit_eq cbit_def intro!: gr0I)
  then show ?thesis by (simp add: cb_swap_def Let_def)
qed

lemma cb_layer_routes:
  assumes "length p = 2 ^ Suc s * q" "e < 2 ^ Suc s * q" "P \<le> length cb"
  shows "cb_layer p (drop P cb) s (2 ^ Suc s * q) ! e = p ! route cb P s e"
    "length (cb_layer p (drop P cb) s (2 ^ Suc s * q)) = length p"
proof -
  let ?d = "\<lambda>k a b. if cbit (drop P cb) k then a XOR b else (0 :: u16)"
  let ?h = "upd_pair (spread_pos s) (\<lambda>k. spread_pos s k + 2 ^ s) (\<lambda>k a b. a XOR ?d k a b) (\<lambda>k a b. b XOR ?d k a b)"
  have h: "cb_swap (drop P cb) (2 ^ s) 0 (spread_pos s k) (v, k) = (?h k v, Suc k)" for k v
    unfolding cb_swap_pair upd_pair_def by simp
  have shift: "fold (cb_swap (drop P cb) (2 ^ s) i) [0..<2 ^ s] = fold (cb_swap (drop P cb) (2 ^ s) 0) [i..<i + 2 ^ s]" for i
  proof -
    have "[i..<i + 2 ^ s] = map ((+) i) [0..<2 ^ s]" by (rule nth_equalityI) simp_all
    moreover have "cb_swap (drop P cb) (2 ^ s) i = cb_swap (drop P cb) (2 ^ s) 0 \<circ> (+) i" by (simp add: fun_eq_iff cb_swap_def)
    ultimately show ?thesis by (simp add: fold_map)
  qed
  have l: "cb_layer p (drop P cb) s (2 ^ Suc s * q) = fold ?h [0..<2 ^ s * q] p"
    unfolding cb_layer_def Let_def shift fold_nested lows_spread by (subst fold_count[where g = "spread_pos s", OF h]) simp_all
  show "length (cb_layer p (drop P cb) s (2 ^ Suc s * q)) = length p" unfolding l by (simp add: length_fold_upd)
  have x: "b XOR (a XOR b) = a" "b XOR a XOR b = a" for a b :: u16 by (rule bit_word_eqI; auto simp: bit_xor_iff)+
  show "cb_layer p (drop P cb) s (2 ^ Suc s * q) ! e = p ! route cb P s e"
    unfolding l fold_pairs[OF assms(1,2)] by (auto simp: route_def cbit_drop[OF assms(3)] flip_nat x)
qed

lemma cb_layers_routes:
  assumes "length p = 4096" "set ss \<subseteq> {..<12}" "ptr + 256 * length ss \<le> length out"
  shows "length (fst (cb_layers out 4096 ss (p, ptr))) = 4096 \<and> snd (cb_layers out 4096 ss (p, ptr)) = ptr + 256 * length ss \<and>
    (\<forall>e<4096. fst (cb_layers out 4096 ss (p, ptr)) ! e = p ! routes out (zip (map (\<lambda>t. ptr + 256 * t) [0..<length ss]) ss) e)"
  using assms(2,3)
proof (induction ss rule: rev_induct)
  case Nil
  then show ?case by (simp add: cb_layers_def assms(1))
next
  case (snoc s ss)
  let ?P = "ptr + 256 * length ss"
  obtain w where w: "cb_layers out 4096 ss (p, ptr) = (w, ?P)" using snoc by (cases "cb_layers out 4096 ss (p, ptr)") auto
  have l: "length w = 4096"
    and e: "\<And>e. e < 4096 \<Longrightarrow> w ! e = p ! routes out (zip (map (\<lambda>t. ptr + 256 * t) [0..<length ss]) ss) e"
    using snoc w by auto
  have s: "s < 12" using snoc.prems(1) by simp
  have q: "(4096 :: nat) = 2 ^ Suc s * 2 ^ (11 - s)" using s by (simp add: power_add[symmetric] flip: power_Suc)
  have st: "cb_layers out 4096 (ss @ [s]) (p, ptr) = (cb_layer w (drop ?P out) s 4096, ?P + 256)"
    using w by (simp add: cb_layers_def drop_bit_eq_div)
  have P: "?P \<le> length out" using snoc.prems(2) by simp
  note cl = cb_layer_routes[of w s "2 ^ (11 - s)" _ ?P out, folded q, OF l _ P]
  have "cb_layer w (drop ?P out) s 4096 ! e = p ! routes out (zip (map (\<lambda>t. ptr + 256 * t) [0..<length (ss @ [s])]) (ss @ [s])) e" if "e < 4096" for e
    using cl(1)[OF that] e[OF route_less[OF that s, of out ?P]] by simp
  moreover have "length (cb_layer w (drop ?P out) s 4096) = 4096" using cl(2)[of 0] l by simp
  ultimately show ?case using st by simp
qed

lemma cb_pi_test_routes:
  assumes "23 * 256 \<le> length out" "e < 4096"
  shows "cb_pi_test out 12 4096 ! e = of_nat (routes out layer_schedule e)"
proof -
  obtain w where w: "cb_layers out 4096 [0..<12] (map of_nat [0..<4096], 0) = (w, 3072)" "length w = 4096"
    "\<And>e. e < 4096 \<Longrightarrow> w ! e = map of_nat [0..<4096] ! routes out (zip (map ((*) 256) [0..<12]) [0..<12]) e"
    using cb_layers_routes[of "map of_nat [0..<4096]" "[0..<12]" 0 out] assms(1)
    by (cases "cb_layers out 4096 [0..<12] (map of_nat [0..<4096], 0)") (simp add: atLeast0LessThan)
  let ?L = "zip (map (\<lambda>t. 3072 + 256 * t) [0..<11]) (rev [0..<11])"
  have "\<forall>(P, s)\<in>set ?L. s < 12" by (auto dest!: set_zip_rightD)
  then have l: "routes out ?L e < 4096" using assms(2) by (rule routes_less)
  have "\<forall>(P, s)\<in>set (zip (map ((*) 256) [0..<12]) [0..<12 :: nat]). s < 12" by (auto dest!: set_zip_rightD)
  then have l': "routes out (zip (map ((*) 256) [0..<12]) [0..<12]) (routes out ?L e) < 4096" using l by (rule routes_less)
  have sched: "layer_schedule = zip (map ((*) 256) [0..<12]) [0..<12] @ ?L" by code_simp
  have "cb_pi_test out 12 4096 ! e = w ! routes out ?L e"
  proof -
    have "set (rev [0..<11]) \<subseteq> {..<12 :: nat}" by auto
    then show ?thesis using cb_layers_routes[OF w(2), of "rev [0..<11]" 3072 out] assms
      unfolding cb_pi_test_def Let_def w(1) prod.case by (simp add: case_prod_beta)
  qed
  also have "\<dots> = of_nat (routes out (zip (map ((*) 256) [0..<12]) [0..<12]) (routes out ?L e))"
    unfolding w(3)[OF l] using l' by simp
  finally show ?thesis unfolding sched foldr_append comp_apply .
qed

text \<open>C36: The network follows the layers with which \<open>controlbitsfrompermutation\<close> checks its control bits: after
  \<open>benes\<close>, bit \<open>e\<close> of the 4096 bits is the bit the test array names at \<open>e\<close>. So when the test array is the
  permutation, the check of that function, \<open>benes\<close> permutes the bits by it.\<close>

theorem benes_follows_check:
  assumes "length r = 64" "23 * 256 \<le> length bits" "e < 4096"
  shows "row_bit (benes r bits False) e = row_bit r (unat (cb_pi_test bits 12 4096 ! e))"
proof -
  have "\<forall>(P, s)\<in>set layer_schedule. s < 12" by code_simp
  then have "routes bits layer_schedule e < 4096" using assms(3) by (rule routes_less)
  then have "unat (of_nat (routes bits layer_schedule e) :: u16) = routes bits layer_schedule e"
    by (simp add: unat_of_nat take_bit_nat_eq_self)
  then show ?thesis using benes_routes(2)[OF assms(1,2,3), of False] by (simp add: cb_pi_test_routes[OF assms(2,3)])
qed

lemma benes_follows_check_witness:
  "row_bit (benes (replicate 64 5) (replicate 5888 3) False) 77 = row_bit (replicate 64 5) (unat (cb_pi_test (replicate 5888 3) 12 4096 ! 77))"
  by (rule benes_follows_check) simp_all

section \<open>The test array is a permutation\<close>

lemma cb_swap_mset: "i + j + 2 ^ s < length p \<Longrightarrow> mset (fst (cb_swap cb (2 ^ s) i j (p, k))) = mset p"
proof -
  assume l: "i + j + 2 ^ s < length p"
  have x: "a XOR (a XOR b) = b" "b XOR (a XOR b) = a" for a b :: u16 by (rule bit_word_eqI; auto simp: bit_xor_iff)+
  show ?thesis using l unfolding cb_swap_pair by (simp add: x mset_swap del: add.assoc)
qed

lemma fold_mset:
  assumes "\<And>x p. x \<in> set xs \<Longrightarrow> length (fst p) = n \<Longrightarrow> mset (fst (f x p)) = mset (fst p)" "length (fst p) = n"
  shows "mset (fst (fold f xs p)) = mset (fst p)"
  using assms
proof (induction xs arbitrary: p)
  case (Cons x xs)
  have "mset (fst (f x p)) = mset (fst p)" "length (fst (f x p)) = n"
    using Cons.prems mset_eq_length[of "fst (f x p)" "fst p"] by simp_all
  then show ?case using Cons.IH[of "f x p"] Cons.prems by simp
qed simp

lemma cb_layer_mset:
  assumes "s < w" "length p = 2 ^ w"
  shows "mset (cb_layer p cb s (2 ^ w)) = mset p"
proof -
  have n: "(2 :: nat) ^ w = 2 ^ s * 2 * 2 ^ (w - Suc s)" using assms(1) power_add[of "2 :: nat" "Suc s" "w - Suc s"] by (simp add: mult.commute)
  have r: "i + j + 2 ^ s < 2 ^ w" if i: "i \<in> set (range_by (2 ^ s * 2) (2 ^ w))" and j: "j < 2 ^ s" for i j
  proof -
    obtain k where k: "i = k * (2 ^ s * 2)" "k < 2 ^ (w - Suc s)" using i unfolding n by (auto simp: range_by_mult)
    then have "(k + 1) * (2 ^ s * 2) \<le> 2 ^ (w - Suc s) * (2 ^ s * 2)" by (intro mult_le_mono1) simp
    then show ?thesis unfolding n k(1) using j by (simp add: algebra_simps)
  qed
  have "mset (fst (fold (\<lambda>i. fold (cb_swap cb (2 ^ s) i) [0..<2 ^ s]) (range_by (2 ^ s * 2) (2 ^ w)) (p, 0))) = mset (fst (p, 0 :: nat))"
  proof (rule fold_mset[where n = "2 ^ w"])
    fix i and pk :: "u16 list \<times> nat"
    assume i: "i \<in> set (range_by (2 ^ s * 2) (2 ^ w))" and "length (fst pk) = 2 ^ w"
    then show "mset (fst (fold (cb_swap cb (2 ^ s) i) [0..<2 ^ s] pk)) = mset (fst pk)"
      using r[OF i] by (intro fold_mset[where n = "2 ^ w"]) (auto intro!: cb_swap_mset)
  qed (use assms in simp)
  then show ?thesis by (simp add: cb_layer_def Let_def)
qed

lemma cb_layers_mset:
  assumes "set ss \<subseteq> {..<w}" "length (fst p) = 2 ^ w"
  shows "mset (fst (cb_layers cb (2 ^ w) ss p)) = mset (fst p)"
  unfolding cb_layers_def by (rule fold_mset[where n = "2 ^ w"]) (use assms in \<open>auto simp: cb_layer_mset case_prod_beta\<close>)

text \<open>C40: Whatever the control bits are, the array with which they are checked always holds a permutation of
  \<open>0, \<dots>, n - 1\<close>: no layer loses or repeats a number.\<close>

theorem cb_pi_test_permutation:
  assumes "w \<le> 16"
  shows "mset (cb_pi_test out w (2 ^ w)) = mset (map of_nat [0..<2 ^ w]) \<and> distinct (cb_pi_test out w (2 ^ w))"
proof -
  let ?I = "map of_nat [0..<2 ^ w] :: u16 list"
  obtain p k where pk: "cb_layers out (2 ^ w) [0..<w] (?I, 0) = (p, k)" by (cases "cb_layers out (2 ^ w) [0..<w] (?I, 0)")
  have "mset p = mset ?I" using cb_layers_mset[of "[0..<w]" w "(?I, 0)" out] unfolding pk by (simp add: atLeast0LessThan)
  moreover from this have "length p = 2 ^ w" by (metis mset_eq_length length_map length_upt minus_nat.diff_0)
  moreover have "mset (fst (cb_layers out (2 ^ w) (rev [0..<w - 1]) (p, k))) = mset (fst (p, k))"
    by (rule cb_layers_mset) (use \<open>length p = 2 ^ w\<close> in auto)
  ultimately have m: "mset (cb_pi_test out w (2 ^ w)) = mset ?I" by (simp add: cb_pi_test_def pk case_prod_beta)
  have "(2 :: nat) ^ w \<le> 2 ^ 16" using assms by (intro power_increasing) simp_all
  then have "distinct ?I" by (auto simp: distinct_map inj_on_def of_nat_eq_iff take_bit_nat_eq_self word_of_nat_eq_iff)
  then show ?thesis using m mset_eq_imp_distinct_iff by blast
qed

theorem cb_pi_test_permutation_witness:
  "mset (cb_pi_test [0x5A, 0x3C, 0xFF] 3 8) = mset (map of_nat [0..<8]) \<and> distinct (cb_pi_test [0x5A, 0x3C, 0xFF] 3 8)"
  using cb_pi_test_permutation[of 3 "[0x5A, 0x3C, 0xFF]"] by simp

end
