(* ===== verification/McKeccak.thy ===== *)
theory McKeccak
  imports Prelude
begin

text \<open>
  The permutation of SHA-3 in Classic McEliece, \<open>src/lib/crypto_bench/mceliece348864/fips202.c\<close>: the code
  unrolls two rounds and renames the 25 words between them; it computes the permutation Keccak-f[1600] of
  FIPS 202, whose rotation offsets and round constants are given here by the algorithms of the standard.
\<close>

section \<open>The code\<close>

definition NROUNDS :: nat where "NROUNDS = 24"

definition ROL :: "u64 \<Rightarrow> nat \<Rightarrow> u64" where
  "ROL a offset = push_bit offset a XOR drop_bit (64 - offset) a"

definition load64 :: "u8 list \<Rightarrow> u64" where
  "load64 x = fold (\<lambda>i r. r OR push_bit (8 * i) (ucast (x ! i))) [0..<8] 0"

definition store64 :: "u64 \<Rightarrow> u8 list" where
  "store64 u = map (\<lambda>i. ucast (drop_bit (8 * i) u)) [0..<8]"

definition KeccakF_RoundConstants :: "u64 list" where
  "KeccakF_RoundConstants =
     [0x1, 0x8082, 0x800000000000808a, 0x8000000080008000,
      0x808b, 0x80000001, 0x8000000080008081, 0x8000000000008009,
      0x8a, 0x88, 0x80008009, 0x8000000a,
      0x8000808b, 0x800000000000008b, 0x8000000000008089, 0x8000000000008003,
      0x8000000000008002, 0x8000000000000080, 0x800a, 0x800000008000000a,
      0x8000000080008081, 0x8000000000008080, 0x80000001, 0x8000000080008008]"

text \<open>The two halves of the loop body: from the words \<open>A\<close> to the words \<open>E\<close> and back.\<close>

definition keccak_even :: "nat \<Rightarrow> u64 list \<Rightarrow> u64 list" where
  "keccak_even round s =
     (let Aba = s ! 0; Abe = s ! 1; Abi = s ! 2; Abo = s ! 3; Abu = s ! 4; Aga = s ! 5; Age = s ! 6; Agi = s ! 7;
          Ago = s ! 8; Agu = s ! 9; Aka = s ! 10; Ake = s ! 11; Aki = s ! 12; Ako = s ! 13; Aku = s ! 14; Ama = s ! 15;
          Ame = s ! 16; Ami = s ! 17; Amo = s ! 18; Amu = s ! 19; Asa = s ! 20; Ase = s ! 21; Asi = s ! 22; Aso = s ! 23;
          Asu = s ! 24; BCa = Aba XOR Aga XOR Aka XOR Ama XOR Asa; BCe = Abe XOR Age XOR Ake XOR Ame XOR Ase;
          BCi = Abi XOR Agi XOR Aki XOR Ami XOR Asi; BCo = Abo XOR Ago XOR Ako XOR Amo XOR Aso;
          BCu = Abu XOR Agu XOR Aku XOR Amu XOR Asu; Da = BCu XOR ROL BCe 1; De = BCa XOR ROL BCi 1;
          Di = BCe XOR ROL BCo 1; Do = BCi XOR ROL BCu 1; Du = BCo XOR ROL BCa 1; Aba = Aba XOR Da; BCa = Aba;
          Age = Age XOR De; BCe = ROL Age 44; Aki = Aki XOR Di; BCi = ROL Aki 43; Amo = Amo XOR Do; BCo = ROL Amo 21;
          Asu = Asu XOR Du; BCu = ROL Asu 14; Eba = BCa XOR ((NOT BCe) AND BCi);
          Eba = Eba XOR KeccakF_RoundConstants ! round; Ebe = BCe XOR ((NOT BCi) AND BCo);
          Ebi = BCi XOR ((NOT BCo) AND BCu); Ebo = BCo XOR ((NOT BCu) AND BCa); Ebu = BCu XOR ((NOT BCa) AND BCe);
          Abo = Abo XOR Do; BCa = ROL Abo 28; Agu = Agu XOR Du; BCe = ROL Agu 20; Aka = Aka XOR Da; BCi = ROL Aka 3;
          Ame = Ame XOR De; BCo = ROL Ame 45; Asi = Asi XOR Di; BCu = ROL Asi 61; Ega = BCa XOR ((NOT BCe) AND BCi);
          Ege = BCe XOR ((NOT BCi) AND BCo); Egi = BCi XOR ((NOT BCo) AND BCu); Ego = BCo XOR ((NOT BCu) AND BCa);
          Egu = BCu XOR ((NOT BCa) AND BCe); Abe = Abe XOR De; BCa = ROL Abe 1; Agi = Agi XOR Di; BCe = ROL Agi 6;
          Ako = Ako XOR Do; BCi = ROL Ako 25; Amu = Amu XOR Du; BCo = ROL Amu 8; Asa = Asa XOR Da; BCu = ROL Asa 18;
          Eka = BCa XOR ((NOT BCe) AND BCi); Eke = BCe XOR ((NOT BCi) AND BCo); Eki = BCi XOR ((NOT BCo) AND BCu);
          Eko = BCo XOR ((NOT BCu) AND BCa); Eku = BCu XOR ((NOT BCa) AND BCe); Abu = Abu XOR Du; BCa = ROL Abu 27;
          Aga = Aga XOR Da; BCe = ROL Aga 36; Ake = Ake XOR De; BCi = ROL Ake 10; Ami = Ami XOR Di; BCo = ROL Ami 15;
          Aso = Aso XOR Do; BCu = ROL Aso 56; Ema = BCa XOR ((NOT BCe) AND BCi); Eme = BCe XOR ((NOT BCi) AND BCo);
          Emi = BCi XOR ((NOT BCo) AND BCu); Emo = BCo XOR ((NOT BCu) AND BCa); Emu = BCu XOR ((NOT BCa) AND BCe);
          Abi = Abi XOR Di; BCa = ROL Abi 62; Ago = Ago XOR Do; BCe = ROL Ago 55; Aku = Aku XOR Du; BCi = ROL Aku 39;
          Ama = Ama XOR Da; BCo = ROL Ama 41; Ase = Ase XOR De; BCu = ROL Ase 2; Esa = BCa XOR ((NOT BCe) AND BCi);
          Ese = BCe XOR ((NOT BCi) AND BCo); Esi = BCi XOR ((NOT BCo) AND BCu); Eso = BCo XOR ((NOT BCu) AND BCa);
          Esu = BCu XOR ((NOT BCa) AND BCe)
      in [Eba, Ebe, Ebi, Ebo, Ebu, Ega, Ege, Egi, Ego, Egu, Eka, Eke, Eki, Eko, Eku, Ema, Eme, Emi, Emo, Emu, Esa, Ese, Esi, Eso, Esu])"

definition keccak_odd :: "nat \<Rightarrow> u64 list \<Rightarrow> u64 list" where
  "keccak_odd round s =
     (let Eba = s ! 0; Ebe = s ! 1; Ebi = s ! 2; Ebo = s ! 3; Ebu = s ! 4; Ega = s ! 5; Ege = s ! 6; Egi = s ! 7;
          Ego = s ! 8; Egu = s ! 9; Eka = s ! 10; Eke = s ! 11; Eki = s ! 12; Eko = s ! 13; Eku = s ! 14; Ema = s ! 15;
          Eme = s ! 16; Emi = s ! 17; Emo = s ! 18; Emu = s ! 19; Esa = s ! 20; Ese = s ! 21; Esi = s ! 22; Eso = s ! 23;
          Esu = s ! 24; BCa = Eba XOR Ega XOR Eka XOR Ema XOR Esa; BCe = Ebe XOR Ege XOR Eke XOR Eme XOR Ese;
          BCi = Ebi XOR Egi XOR Eki XOR Emi XOR Esi; BCo = Ebo XOR Ego XOR Eko XOR Emo XOR Eso;
          BCu = Ebu XOR Egu XOR Eku XOR Emu XOR Esu; Da = BCu XOR ROL BCe 1; De = BCa XOR ROL BCi 1;
          Di = BCe XOR ROL BCo 1; Do = BCi XOR ROL BCu 1; Du = BCo XOR ROL BCa 1; Eba = Eba XOR Da; BCa = Eba;
          Ege = Ege XOR De; BCe = ROL Ege 44; Eki = Eki XOR Di; BCi = ROL Eki 43; Emo = Emo XOR Do; BCo = ROL Emo 21;
          Esu = Esu XOR Du; BCu = ROL Esu 14; Aba = BCa XOR ((NOT BCe) AND BCi);
          Aba = Aba XOR KeccakF_RoundConstants ! (round + 1); Abe = BCe XOR ((NOT BCi) AND BCo);
          Abi = BCi XOR ((NOT BCo) AND BCu); Abo = BCo XOR ((NOT BCu) AND BCa); Abu = BCu XOR ((NOT BCa) AND BCe);
          Ebo = Ebo XOR Do; BCa = ROL Ebo 28; Egu = Egu XOR Du; BCe = ROL Egu 20; Eka = Eka XOR Da; BCi = ROL Eka 3;
          Eme = Eme XOR De; BCo = ROL Eme 45; Esi = Esi XOR Di; BCu = ROL Esi 61; Aga = BCa XOR ((NOT BCe) AND BCi);
          Age = BCe XOR ((NOT BCi) AND BCo); Agi = BCi XOR ((NOT BCo) AND BCu); Ago = BCo XOR ((NOT BCu) AND BCa);
          Agu = BCu XOR ((NOT BCa) AND BCe); Ebe = Ebe XOR De; BCa = ROL Ebe 1; Egi = Egi XOR Di; BCe = ROL Egi 6;
          Eko = Eko XOR Do; BCi = ROL Eko 25; Emu = Emu XOR Du; BCo = ROL Emu 8; Esa = Esa XOR Da; BCu = ROL Esa 18;
          Aka = BCa XOR ((NOT BCe) AND BCi); Ake = BCe XOR ((NOT BCi) AND BCo); Aki = BCi XOR ((NOT BCo) AND BCu);
          Ako = BCo XOR ((NOT BCu) AND BCa); Aku = BCu XOR ((NOT BCa) AND BCe); Ebu = Ebu XOR Du; BCa = ROL Ebu 27;
          Ega = Ega XOR Da; BCe = ROL Ega 36; Eke = Eke XOR De; BCi = ROL Eke 10; Emi = Emi XOR Di; BCo = ROL Emi 15;
          Eso = Eso XOR Do; BCu = ROL Eso 56; Ama = BCa XOR ((NOT BCe) AND BCi); Ame = BCe XOR ((NOT BCi) AND BCo);
          Ami = BCi XOR ((NOT BCo) AND BCu); Amo = BCo XOR ((NOT BCu) AND BCa); Amu = BCu XOR ((NOT BCa) AND BCe);
          Ebi = Ebi XOR Di; BCa = ROL Ebi 62; Ego = Ego XOR Do; BCe = ROL Ego 55; Eku = Eku XOR Du; BCi = ROL Eku 39;
          Ema = Ema XOR Da; BCo = ROL Ema 41; Ese = Ese XOR De; BCu = ROL Ese 2; Asa = BCa XOR ((NOT BCe) AND BCi);
          Ase = BCe XOR ((NOT BCi) AND BCo); Asi = BCi XOR ((NOT BCo) AND BCu); Aso = BCo XOR ((NOT BCu) AND BCa);
          Asu = BCu XOR ((NOT BCa) AND BCe)
      in [Aba, Abe, Abi, Abo, Abu, Aga, Age, Agi, Ago, Agu, Aka, Ake, Aki, Ako, Aku, Ama, Ame, Ami, Amo, Amu, Asa, Ase, Asi, Aso, Asu])"

text \<open>The 25 variables are the elements of a list in the order of \<open>copyFromState\<close>.\<close>

definition KeccakF1600_StatePermute :: "u64 list \<Rightarrow> u64 list" where
  "KeccakF1600_StatePermute state =
     (let A = map ((!) state) [0..<25];
          A = fold (\<lambda>k A. keccak_odd (2 * k) (keccak_even (2 * k) A)) [0..<NROUNDS div 2] A
      in A @ drop 25 state)"

section \<open>Keccak-f[1600] of FIPS 202\<close>

text \<open>Lane \<open>(x, y)\<close> of the state is element \<open>x + 5 * y\<close>.\<close>

abbreviation lane_of :: "u64 list \<Rightarrow> nat \<Rightarrow> nat \<Rightarrow> u64" where
  "lane_of A x y \<equiv> A ! (x mod 5 + 5 * (y mod 5))"

definition lanes :: "(nat \<Rightarrow> nat \<Rightarrow> 'a) \<Rightarrow> 'a list" where
  "lanes f = map (\<lambda>i. f (i mod 5) (i div 5)) [0..<25]"

definition column_parity :: "u64 list \<Rightarrow> nat \<Rightarrow> u64" where
  "column_parity A x = lane_of A x 0 XOR lane_of A x 1 XOR lane_of A x 2 XOR lane_of A x 3 XOR lane_of A x 4"

definition theta_lane :: "u64 list \<Rightarrow> nat \<Rightarrow> nat \<Rightarrow> u64" where
  "theta_lane A x y = lane_of A x y XOR (column_parity A (x + 4) XOR word_rotl 1 (column_parity A (x + 1)))"

definition theta :: "u64 list \<Rightarrow> u64 list" where
  "theta A = lanes (theta_lane A)"

text \<open>The offsets: the walk \<open>(x, y) := (y, 2 x + 3 y)\<close> from \<open>(1, 0)\<close> passes all lanes but \<open>(0, 0)\<close>.\<close>

fun rho_walk :: "nat \<Rightarrow> nat \<times> nat" where
  "rho_walk 0 = (1, 0)"
| "rho_walk (Suc t) = (case rho_walk t of (x, y) \<Rightarrow> (y, (2 * x + 3 * y) mod 5))"

definition rho_offset :: "nat \<Rightarrow> nat \<Rightarrow> nat" where
  "rho_offset x y = fold (\<lambda>t off. if rho_walk t = (x, y) then (t + 1) * (t + 2) div 2 mod 64 else off) [0..<24] 0"

definition rho :: "u64 list \<Rightarrow> u64 list" where
  "rho A = lanes (\<lambda>x y. word_rotl (rho_offset x y) (lane_of A x y))"

definition pi_step :: "u64 list \<Rightarrow> u64 list" where
  "pi_step A = lanes (\<lambda>x y. lane_of A (x + 3 * y) x)"

definition chi_lane :: "u64 \<Rightarrow> u64 \<Rightarrow> u64 \<Rightarrow> u64" where
  "chi_lane a b c = a XOR ((NOT b) AND c)"

definition chi :: "u64 list \<Rightarrow> u64 list" where
  "chi A = lanes (\<lambda>x y. chi_lane (lane_of A x y) (lane_of A (x + 1) y) (lane_of A (x + 2) y))"

text \<open>The bits of the round constants come from a linear feedback shift register.\<close>

fun lfsr :: "nat \<Rightarrow> bool list" where
  "lfsr 0 = [True, False, False, False, False, False, False, False]"
| "lfsr (Suc t) = (case lfsr t of [a, b, c, d, e, f, g, h] \<Rightarrow> [h, a, b, c, d \<noteq> h, e \<noteq> h, f \<noteq> h, g] | _ \<Rightarrow> [])"

definition round_constant :: "nat \<Rightarrow> u64" where
  "round_constant ir = fold (\<lambda>j rc. if hd (lfsr (j + 7 * ir)) then set_bit (2 ^ j - 1) rc else rc) [0..<7] 0"

definition iota :: "nat \<Rightarrow> u64 list \<Rightarrow> u64 list" where
  "iota ir A = A[0 := A ! 0 XOR round_constant ir]"

definition keccak_round :: "nat \<Rightarrow> u64 list \<Rightarrow> u64 list" where
  "keccak_round ir A = iota ir (chi (pi_step (rho (theta A))))"

definition keccak_f :: "u64 list \<Rightarrow> u64 list" where
  "keccak_f A = fold keccak_round [0..<24] A"

section \<open>The code computes Keccak-f\<close>

lemma ROL_rotl: "0 < n \<Longrightarrow> n < 64 \<Longrightarrow> ROL a n = word_rotl n a"
proof (rule bit_word_eqI)
  fix k :: nat
  assume n: "0 < n" "n < 64" and "k < LENGTH(64)"
  then have k: "k < 64" by simp
  have b: "bit a m \<Longrightarrow> m < 64" for m using bit_imp_le_length[of a m] by simp
  have m: "n mod 64 = n" using n by simp
  show "bit (ROL a n) k = bit (word_rotl n a) k"
  proof (cases "n \<le> k")
    case True
    then have "(k + (64 - n)) mod 64 = k - n" using n k by (simp add: mod_if)
    moreover have "\<not> bit a (64 - n + k)" using b[of "64 - n + k"] n True by linarith
    ultimately show ?thesis using n k True
      by (simp add: ROL_def bit_xor_iff bit_push_bit_iff bit_drop_bit_eq bit_word_rotl_iff m)
  next
    case False
    then have "(k + (64 - n)) mod 64 = 64 - n + k" using n k by (subst mod_less) linarith+
    then show ?thesis using n k False
      by (simp add: ROL_def bit_xor_iff bit_push_bit_iff bit_drop_bit_eq bit_word_rotl_iff m)
  qed
qed

lemma round_constants: "map round_constant [0..<24] = KeccakF_RoundConstants"
  by code_simp

lemma lanes_list:
  "lanes f = [f 0 0, f 1 0, f 2 0, f 3 0, f 4 0, f 0 1, f 1 1, f 2 1, f 3 1, f 4 1, f 0 2, f 1 2, f 2 2, f 3 2, f 4 2,
     f 0 3, f 1 3, f 2 3, f 3 3, f 4 3, f 0 4, f 1 4, f 2 4, f 3 4, f 4 4]"
proof -
  have "[0..<25] = [0, 1, 2, 3, 4, 5, 6, 7, 8, 9, 10, 11, 12, 13, 14, 15, 16, 17, 18, 19, 20, 21, 22, 23, 24]" by code_simp
  then show ?thesis by (simp add: lanes_def)
qed

lemma rho_list:
  "rho A = [word_rotl 0 (A ! 0), word_rotl 1 (A ! 1), word_rotl 62 (A ! 2), word_rotl 28 (A ! 3), word_rotl 27 (A ! 4),
    word_rotl 36 (A ! 5), word_rotl 44 (A ! 6), word_rotl 6 (A ! 7), word_rotl 55 (A ! 8), word_rotl 20 (A ! 9),
    word_rotl 3 (A ! 10), word_rotl 10 (A ! 11), word_rotl 43 (A ! 12), word_rotl 25 (A ! 13), word_rotl 39 (A ! 14),
    word_rotl 41 (A ! 15), word_rotl 45 (A ! 16), word_rotl 15 (A ! 17), word_rotl 21 (A ! 18), word_rotl 8 (A ! 19),
    word_rotl 18 (A ! 20), word_rotl 2 (A ! 21), word_rotl 61 (A ! 22), word_rotl 56 (A ! 23), word_rotl 14 (A ! 24)]"
proof -
  have "lanes rho_offset = [0, 1, 62, 28, 27, 36, 44, 6, 55, 20, 3, 10, 43, 25, 39, 41, 45, 15, 21, 8, 18, 2, 61, 56, 14]"
    by code_simp
  then have "rho_offset 0 0 = 0 \<and> rho_offset 1 0 = 1 \<and> rho_offset 2 0 = 62 \<and> rho_offset 3 0 = 28 \<and> rho_offset 4 0 = 27 \<and>
    rho_offset 0 1 = 36 \<and> rho_offset 1 1 = 44 \<and> rho_offset 2 1 = 6 \<and> rho_offset 3 1 = 55 \<and> rho_offset 4 1 = 20 \<and>
    rho_offset 0 2 = 3 \<and> rho_offset 1 2 = 10 \<and> rho_offset 2 2 = 43 \<and> rho_offset 3 2 = 25 \<and> rho_offset 4 2 = 39 \<and>
    rho_offset 0 3 = 41 \<and> rho_offset 1 3 = 45 \<and> rho_offset 2 3 = 15 \<and> rho_offset 3 3 = 21 \<and> rho_offset 4 3 = 8 \<and>
    rho_offset 0 4 = 18 \<and> rho_offset 1 4 = 2 \<and> rho_offset 2 4 = 61 \<and> rho_offset 3 4 = 56 \<and> rho_offset 4 4 = 14"
    unfolding lanes_list by (simp only: list.inject)
  then show ?thesis unfolding rho_def lanes_list by simp
qed

lemma round_constant_table: "ir < 24 \<Longrightarrow> round_constant ir = KeccakF_RoundConstants ! ir"
  by (simp flip: round_constants)

lemma pi_rho_theta:
  "pi_step (rho (theta A)) = [theta_lane A 0 0, word_rotl 44 (theta_lane A 1 1), word_rotl 43 (theta_lane A 2 2),
    word_rotl 21 (theta_lane A 3 3), word_rotl 14 (theta_lane A 4 4), word_rotl 28 (theta_lane A 3 0),
    word_rotl 20 (theta_lane A 4 1), word_rotl 3 (theta_lane A 0 2), word_rotl 45 (theta_lane A 1 3),
    word_rotl 61 (theta_lane A 2 4), word_rotl 1 (theta_lane A 1 0), word_rotl 6 (theta_lane A 2 1),
    word_rotl 25 (theta_lane A 3 2), word_rotl 8 (theta_lane A 4 3), word_rotl 18 (theta_lane A 0 4),
    word_rotl 27 (theta_lane A 4 0), word_rotl 36 (theta_lane A 0 1), word_rotl 10 (theta_lane A 1 2),
    word_rotl 15 (theta_lane A 2 3), word_rotl 56 (theta_lane A 3 4), word_rotl 62 (theta_lane A 2 0),
    word_rotl 55 (theta_lane A 3 1), word_rotl 39 (theta_lane A 4 2), word_rotl 41 (theta_lane A 0 3),
    word_rotl 2 (theta_lane A 1 4)]"
proof -
  have "word_rotl 0 a = a" for a :: u64 by (rule bit_word_eqI) (simp add: bit_word_rotl_iff)
  then show ?thesis by (simp add: pi_step_def rho_list theta_def lanes_list)
qed

lemma keccak_round_list:
  "keccak_round r A =
   [chi_lane (theta_lane A 0 0) (word_rotl 44 (theta_lane A 1 1)) (word_rotl 43 (theta_lane A 2 2)) XOR round_constant r,
    chi_lane (word_rotl 44 (theta_lane A 1 1)) (word_rotl 43 (theta_lane A 2 2)) (word_rotl 21 (theta_lane A 3 3)),
    chi_lane (word_rotl 43 (theta_lane A 2 2)) (word_rotl 21 (theta_lane A 3 3)) (word_rotl 14 (theta_lane A 4 4)),
    chi_lane (word_rotl 21 (theta_lane A 3 3)) (word_rotl 14 (theta_lane A 4 4)) (theta_lane A 0 0),
    chi_lane (word_rotl 14 (theta_lane A 4 4)) (theta_lane A 0 0) (word_rotl 44 (theta_lane A 1 1)),
    chi_lane (word_rotl 28 (theta_lane A 3 0)) (word_rotl 20 (theta_lane A 4 1)) (word_rotl 3 (theta_lane A 0 2)),
    chi_lane (word_rotl 20 (theta_lane A 4 1)) (word_rotl 3 (theta_lane A 0 2)) (word_rotl 45 (theta_lane A 1 3)),
    chi_lane (word_rotl 3 (theta_lane A 0 2)) (word_rotl 45 (theta_lane A 1 3)) (word_rotl 61 (theta_lane A 2 4)),
    chi_lane (word_rotl 45 (theta_lane A 1 3)) (word_rotl 61 (theta_lane A 2 4)) (word_rotl 28 (theta_lane A 3 0)),
    chi_lane (word_rotl 61 (theta_lane A 2 4)) (word_rotl 28 (theta_lane A 3 0)) (word_rotl 20 (theta_lane A 4 1)),
    chi_lane (word_rotl 1 (theta_lane A 1 0)) (word_rotl 6 (theta_lane A 2 1)) (word_rotl 25 (theta_lane A 3 2)),
    chi_lane (word_rotl 6 (theta_lane A 2 1)) (word_rotl 25 (theta_lane A 3 2)) (word_rotl 8 (theta_lane A 4 3)),
    chi_lane (word_rotl 25 (theta_lane A 3 2)) (word_rotl 8 (theta_lane A 4 3)) (word_rotl 18 (theta_lane A 0 4)),
    chi_lane (word_rotl 8 (theta_lane A 4 3)) (word_rotl 18 (theta_lane A 0 4)) (word_rotl 1 (theta_lane A 1 0)),
    chi_lane (word_rotl 18 (theta_lane A 0 4)) (word_rotl 1 (theta_lane A 1 0)) (word_rotl 6 (theta_lane A 2 1)),
    chi_lane (word_rotl 27 (theta_lane A 4 0)) (word_rotl 36 (theta_lane A 0 1)) (word_rotl 10 (theta_lane A 1 2)),
    chi_lane (word_rotl 36 (theta_lane A 0 1)) (word_rotl 10 (theta_lane A 1 2)) (word_rotl 15 (theta_lane A 2 3)),
    chi_lane (word_rotl 10 (theta_lane A 1 2)) (word_rotl 15 (theta_lane A 2 3)) (word_rotl 56 (theta_lane A 3 4)),
    chi_lane (word_rotl 15 (theta_lane A 2 3)) (word_rotl 56 (theta_lane A 3 4)) (word_rotl 27 (theta_lane A 4 0)),
    chi_lane (word_rotl 56 (theta_lane A 3 4)) (word_rotl 27 (theta_lane A 4 0)) (word_rotl 36 (theta_lane A 0 1)),
    chi_lane (word_rotl 62 (theta_lane A 2 0)) (word_rotl 55 (theta_lane A 3 1)) (word_rotl 39 (theta_lane A 4 2)),
    chi_lane (word_rotl 55 (theta_lane A 3 1)) (word_rotl 39 (theta_lane A 4 2)) (word_rotl 41 (theta_lane A 0 3)),
    chi_lane (word_rotl 39 (theta_lane A 4 2)) (word_rotl 41 (theta_lane A 0 3)) (word_rotl 2 (theta_lane A 1 4)),
    chi_lane (word_rotl 41 (theta_lane A 0 3)) (word_rotl 2 (theta_lane A 1 4)) (word_rotl 62 (theta_lane A 2 0)),
    chi_lane (word_rotl 2 (theta_lane A 1 4)) (word_rotl 62 (theta_lane A 2 0)) (word_rotl 55 (theta_lane A 3 1))]"
  by (simp add: keccak_round_def iota_def chi_def pi_rho_theta lanes_list)

lemma ROL_one: "ROL a 1 = word_rotl 1 a"
  by (rule ROL_rotl) simp_all

lemmas ROL_offsets =
  ROL_one ROL_rotl[of 2, simplified] ROL_rotl[of 3, simplified] ROL_rotl[of 6, simplified]
  ROL_rotl[of 8, simplified] ROL_rotl[of 10, simplified] ROL_rotl[of 14, simplified] ROL_rotl[of 15, simplified]
  ROL_rotl[of 18, simplified] ROL_rotl[of 20, simplified] ROL_rotl[of 21, simplified] ROL_rotl[of 25, simplified]
  ROL_rotl[of 27, simplified] ROL_rotl[of 28, simplified] ROL_rotl[of 36, simplified] ROL_rotl[of 39, simplified]
  ROL_rotl[of 41, simplified] ROL_rotl[of 43, simplified] ROL_rotl[of 44, simplified] ROL_rotl[of 45, simplified]
  ROL_rotl[of 55, simplified] ROL_rotl[of 56, simplified] ROL_rotl[of 61, simplified] ROL_rotl[of 62, simplified]

lemma theta_lanes:
  "theta_lane A 0 0 = A ! 0 XOR (column_parity A 4 XOR word_rotl 1 (column_parity A 1))"
  "theta_lane A 1 0 = A ! 1 XOR (column_parity A 0 XOR word_rotl 1 (column_parity A 2))"
  "theta_lane A 2 0 = A ! 2 XOR (column_parity A 1 XOR word_rotl 1 (column_parity A 3))"
  "theta_lane A 3 0 = A ! 3 XOR (column_parity A 2 XOR word_rotl 1 (column_parity A 4))"
  "theta_lane A 4 0 = A ! 4 XOR (column_parity A 3 XOR word_rotl 1 (column_parity A 0))"
  "theta_lane A 0 1 = A ! 5 XOR (column_parity A 4 XOR word_rotl 1 (column_parity A 1))"
  "theta_lane A 1 1 = A ! 6 XOR (column_parity A 0 XOR word_rotl 1 (column_parity A 2))"
  "theta_lane A 2 1 = A ! 7 XOR (column_parity A 1 XOR word_rotl 1 (column_parity A 3))"
  "theta_lane A 3 1 = A ! 8 XOR (column_parity A 2 XOR word_rotl 1 (column_parity A 4))"
  "theta_lane A 4 1 = A ! 9 XOR (column_parity A 3 XOR word_rotl 1 (column_parity A 0))"
  "theta_lane A 0 2 = A ! 10 XOR (column_parity A 4 XOR word_rotl 1 (column_parity A 1))"
  "theta_lane A 1 2 = A ! 11 XOR (column_parity A 0 XOR word_rotl 1 (column_parity A 2))"
  "theta_lane A 2 2 = A ! 12 XOR (column_parity A 1 XOR word_rotl 1 (column_parity A 3))"
  "theta_lane A 3 2 = A ! 13 XOR (column_parity A 2 XOR word_rotl 1 (column_parity A 4))"
  "theta_lane A 4 2 = A ! 14 XOR (column_parity A 3 XOR word_rotl 1 (column_parity A 0))"
  "theta_lane A 0 3 = A ! 15 XOR (column_parity A 4 XOR word_rotl 1 (column_parity A 1))"
  "theta_lane A 1 3 = A ! 16 XOR (column_parity A 0 XOR word_rotl 1 (column_parity A 2))"
  "theta_lane A 2 3 = A ! 17 XOR (column_parity A 1 XOR word_rotl 1 (column_parity A 3))"
  "theta_lane A 3 3 = A ! 18 XOR (column_parity A 2 XOR word_rotl 1 (column_parity A 4))"
  "theta_lane A 4 3 = A ! 19 XOR (column_parity A 3 XOR word_rotl 1 (column_parity A 0))"
  "theta_lane A 0 4 = A ! 20 XOR (column_parity A 4 XOR word_rotl 1 (column_parity A 1))"
  "theta_lane A 1 4 = A ! 21 XOR (column_parity A 0 XOR word_rotl 1 (column_parity A 2))"
  "theta_lane A 2 4 = A ! 22 XOR (column_parity A 1 XOR word_rotl 1 (column_parity A 3))"
  "theta_lane A 3 4 = A ! 23 XOR (column_parity A 2 XOR word_rotl 1 (column_parity A 4))"
  "theta_lane A 4 4 = A ! 24 XOR (column_parity A 3 XOR word_rotl 1 (column_parity A 0))"
  by (simp_all add: theta_lane_def column_parity_def numeral_2_eq_2)

lemma column_parities:
  "column_parity A 0 = A ! 0 XOR A ! 5 XOR A ! 10 XOR A ! 15 XOR A ! 20"
  "column_parity A 1 = A ! 1 XOR A ! 6 XOR A ! 11 XOR A ! 16 XOR A ! 21"
  "column_parity A 2 = A ! 2 XOR A ! 7 XOR A ! 12 XOR A ! 17 XOR A ! 22"
  "column_parity A 3 = A ! 3 XOR A ! 8 XOR A ! 13 XOR A ! 18 XOR A ! 23"
  "column_parity A 4 = A ! 4 XOR A ! 9 XOR A ! 14 XOR A ! 19 XOR A ! 24"
  by (simp_all add: column_parity_def)

lemma keccak_even_round: "r < 24 \<Longrightarrow> keccak_even r s = keccak_round r s"
  unfolding keccak_round_list keccak_even_def Let_def ROL_offsets chi_lane_def theta_lanes column_parities
  by (simp only: round_constant_table)

lemma keccak_odd_round: "r + 1 < 24 \<Longrightarrow> keccak_odd r s = keccak_round (r + 1) s"
  unfolding keccak_round_list keccak_odd_def Let_def ROL_offsets chi_lane_def theta_lanes column_parities
  by (simp only: round_constant_table)

text \<open>\<open>KeccakF1600_StatePermute\<close>, with its two unrolled rounds, is the permutation Keccak-f[1600] of FIPS 202 on
  the first 25 words.\<close>

lemma permute_keccak_f: "KeccakF1600_StatePermute (A @ B) = keccak_f A @ B" if "length A = 25"
proof -
  have l: "length (keccak_round r B) = 25" for r B by (simp add: keccak_round_list)
  have two: "fold (\<lambda>k A. keccak_odd (2 * k) (keccak_even (2 * k) A)) [0..<n] A = fold keccak_round [0..<2 * n] A" if "n \<le> 12" for n
    using that by (induction n) (simp_all add: keccak_even_round keccak_odd_round)
  have "map ((!) (A @ B)) [0..<25] = A" using that by (intro nth_equalityI) (simp_all add: nth_append)
  then show ?thesis using two[of 12] that by (simp add: KeccakF1600_StatePermute_def NROUNDS_def keccak_f_def)
qed

end
