(* ===== verification/McSponge.thy ===== *)
theory McSponge
  imports McKeccak
begin

text \<open>
  The sponge functions of \<open>fips202.c\<close>, on top of the permutation: absorbing and squeezing at once and in
  pieces, SHAKE and SHA-3. A pointer with a length is the list of bytes; the array of a context has 25 words, that
  of an incremental context 26, the last of which counts bytes. The rate \<open>r\<close> is one of the macros, a multiple
  of 8 of at most 168. Every function computes the sponge construction of FIPS 202, in whatever pieces the message is
  absorbed and the output squeezed.
\<close>

section \<open>The code\<close>

definition SHAKE128_RATE :: nat where "SHAKE128_RATE = 168"
definition SHAKE256_RATE :: nat where "SHAKE256_RATE = 136"
definition SHA3_256_RATE :: nat where "SHA3_256_RATE = 136"
definition SHA3_384_RATE :: nat where "SHA3_384_RATE = 104"
definition SHA3_512_RATE :: nat where "SHA3_512_RATE = 72"

definition absorb_block :: "nat \<Rightarrow> u8 list \<Rightarrow> u64 list \<Rightarrow> u64 list" where
  "absorb_block r m s = fold (\<lambda>i s. s[i := s ! i XOR load64 (drop (8 * i) m)]) [0..<r div 8] s"

text \<open>With the rate 0 the loop would not end.\<close>

function keccak_absorb_loop :: "nat \<Rightarrow> u8 list \<Rightarrow> u64 list \<Rightarrow> (u8 list \<times> u64 list) option" where
  "keccak_absorb_loop r m s =
     (if r = 0 then None
      else if r \<le> length m then keccak_absorb_loop r (drop r m) (KeccakF1600_StatePermute (absorb_block r m s))
      else Some (m, s))"
  by pat_completeness auto
termination by (relation "measure (\<lambda>(r, m, s). length m)") auto

declare keccak_absorb_loop.simps [simp del]

definition keccak_absorb :: "nat \<Rightarrow> u8 list \<Rightarrow> u8 \<Rightarrow> u64 list option" where
  "keccak_absorb r m p = do {
     (m, s) \<leftarrow> keccak_absorb_loop r m (replicate 25 0);
     let t = replicate r 0;
     let t = fold (\<lambda>i t. t[i := m ! i]) [0..<length m] t;
     let t = t[length m := p];
     let t = t[r - 1 := t ! (r - 1) OR 128];
     Some (absorb_block r t s)
   }"

primrec keccak_squeezeblocks :: "nat \<Rightarrow> u64 list \<Rightarrow> nat \<Rightarrow> u8 list \<times> u64 list" where
  "keccak_squeezeblocks 0 s r = ([], s)"
| "keccak_squeezeblocks (Suc nblocks) s r =
     (let s = KeccakF1600_StatePermute s;
          h = concat (map (\<lambda>i. store64 (s ! i)) [0..<drop_bit 3 r]);
          (h', s) = keccak_squeezeblocks nblocks s r
      in (h @ h', s))"

definition keccak_inc_init :: "u64 list" where
  "keccak_inc_init = replicate 25 0 @ [0]"

text \<open>\<open>s_inc[j >> 3] ^= (uint64_t)b << (8 * (j & 0x07))\<close>.\<close>

definition xor_byte :: "nat \<Rightarrow> u8 \<Rightarrow> u64 list \<Rightarrow> u64 list" where
  "xor_byte j b s = s[drop_bit 3 j := s ! drop_bit 3 j XOR push_bit (8 * (j AND 7)) (ucast b)]"

definition inc_xor :: "u8 list \<Rightarrow> nat \<Rightarrow> u64 list \<Rightarrow> u64 list" where
  "inc_xor m n s = fold (\<lambda>i s. xor_byte (unat (s ! 25) + i) (m ! i) s) [0..<n] s"

lemma length_xor_byte [simp]: "length (xor_byte j b s) = length s"
  by (simp add: xor_byte_def)

lemma length_inc_xor [simp]: "length (inc_xor m n s) = length s"
  by (simp add: inc_xor_def length_fold_upd)

lemma length_permute [simp]: "25 \<le> length s \<Longrightarrow> length (KeccakF1600_StatePermute s) = length s"
proof -
  have "length (fold (\<lambda>k A. keccak_odd (2 * k) (keccak_even (2 * k) A)) ks A) = 25" if "length A = 25" for ks A
    using that by (induction ks arbitrary: A) (simp_all add: keccak_odd_def Let_def)
  then show "25 \<le> length s \<Longrightarrow> length (KeccakF1600_StatePermute s) = length s"
    by (simp add: KeccakF1600_StatePermute_def)
qed

lemma keccak_rounds_length: "length A = 25 \<Longrightarrow> length (fold keccak_round rs A) = 25"
  by (induction rs arbitrary: A) (simp_all add: keccak_round_list)

lemma permute_26: "length s = 26 \<Longrightarrow> KeccakF1600_StatePermute s = keccak_f (take 25 s) @ [s ! 25]"
proof -
  assume s: "length s = 26"
  have "s = take 25 s @ [s ! 25]" by (rule nth_equalityI) (use s in \<open>auto simp: nth_append intro!: arg_cong[where f = "(!) s"]\<close>)
  then show ?thesis using permute_keccak_f[of "take 25 s" "[s ! 25]"] s by simp
qed

text \<open>The message is read to its end: reading beyond it, which \<open>s_inc[25] > r\<close> would lead to, is a fault. The
  context has 26 words, and a rate above 200 bytes would leave the first 25 of them.\<close>

function keccak_inc_absorb :: "nat \<Rightarrow> u8 list \<Rightarrow> u64 list \<Rightarrow> u64 list option" where
  "keccak_inc_absorb r m s_inc =
     (if r = 0 \<or> 200 < r \<or> length s_inc \<noteq> 26 then None
      else if r \<le> length m + unat (s_inc ! 25) then
        (let n = unat (of_nat r - ucast (s_inc ! 25) :: u32)
         in if length m < n then None
            else keccak_inc_absorb r (drop n m) (KeccakF1600_StatePermute ((inc_xor m n s_inc)[25 := 0])))
      else
        (let s_inc = inc_xor m (length m) s_inc
         in Some (s_inc[25 := s_inc ! 25 + of_nat (length m)])))"
  by pat_completeness auto
termination
proof (relation "measures [\<lambda>(r, m, s). length m, \<lambda>(r, m, s). if s ! 25 = 0 then 0 else 1]")
  fix r :: nat and m :: "u8 list" and s :: "u64 list" and n :: nat
  assume a: "\<not> (r = 0 \<or> 200 < r \<or> length s \<noteq> 26)" "r \<le> length m + unat (s ! 25)" "n = unat (of_nat r - ucast (s ! 25) :: u32)" "\<not> length m < n"
  have z: "KeccakF1600_StatePermute ((inc_xor m n s)[25 := 0]) ! 25 = 0"
    using a(1) by (subst permute_26) (simp_all add: keccak_f_def nth_append keccak_rounds_length)
  show "((r, drop n m, KeccakF1600_StatePermute ((inc_xor m n s)[25 := 0])), r, m, s)
    \<in> measures [\<lambda>(r, m, s). length m, \<lambda>(r, m, s). if s ! 25 = 0 then 0 else 1]"
  proof (cases "s ! 25 = 0")
    case True
    then have "n = r" using a by (simp add: unat_of_nat)
    then show ?thesis using a True by auto
  qed (use z in auto)
qed simp

declare keccak_inc_absorb.simps [simp del]

definition keccak_inc_finalize :: "u64 list \<Rightarrow> nat \<Rightarrow> u8 \<Rightarrow> u64 list" where
  "keccak_inc_finalize s_inc r p =
     (let s_inc = xor_byte (unat (s_inc ! 25)) p s_inc;
          s_inc = xor_byte (r - 1) 128 s_inc
      in s_inc[25 := 0])"

text \<open>Byte \<open>j\<close> of the words, \<open>(uint8_t)(s_inc[j >> 3] >> (8 * (j & 0x07)))\<close>.\<close>

definition byte_at :: "u64 list \<Rightarrow> nat \<Rightarrow> u8" where
  "byte_at s j = ucast (drop_bit (8 * (j AND 7)) (s ! drop_bit 3 j))"

function keccak_inc_squeeze_loop :: "nat \<Rightarrow> u64 list \<Rightarrow> nat \<Rightarrow> (u8 list \<times> u64 list) option" where
  "keccak_inc_squeeze_loop outlen s_inc r =
     (if outlen = 0 then Some ([], s_inc)
      else if r = 0 then None
      else
        (let s_inc = KeccakF1600_StatePermute s_inc;
             i = min outlen r;
             h = map (byte_at s_inc) [0..<i];
             s_inc = s_inc[25 := of_nat (r - i)]
         in do { (h', s_inc) \<leftarrow> keccak_inc_squeeze_loop (outlen - i) s_inc r; Some (h @ h', s_inc) }))"
  by pat_completeness auto
termination by (relation "measure fst") auto

declare keccak_inc_squeeze_loop.simps [simp del]

definition keccak_inc_squeeze :: "nat \<Rightarrow> u64 list \<Rightarrow> nat \<Rightarrow> (u8 list \<times> u64 list) option" where
  "keccak_inc_squeeze outlen s_inc r =
     (let c = unat (s_inc ! 25);
          i = min outlen c;
          h = map (\<lambda>i. byte_at s_inc (r - c + i)) [0..<i];
          s_inc = s_inc[25 := s_inc ! 25 - of_nat i]
      in do { (h', s_inc) \<leftarrow> keccak_inc_squeeze_loop (outlen - i) s_inc r; Some (h @ h', s_inc) })"

definition shake128_inc_init :: "u64 list" where "shake128_inc_init = keccak_inc_init"
definition shake128_inc_absorb :: "u64 list \<Rightarrow> u8 list \<Rightarrow> u64 list option" where
  "shake128_inc_absorb state input = keccak_inc_absorb SHAKE128_RATE input state"
definition shake128_inc_finalize :: "u64 list \<Rightarrow> u64 list" where
  "shake128_inc_finalize state = keccak_inc_finalize state SHAKE128_RATE 0x1F"
definition shake128_inc_squeeze :: "nat \<Rightarrow> u64 list \<Rightarrow> (u8 list \<times> u64 list) option" where
  "shake128_inc_squeeze outlen state = keccak_inc_squeeze outlen state SHAKE128_RATE"

definition shake256_inc_init :: "u64 list" where "shake256_inc_init = keccak_inc_init"
definition shake256_inc_absorb :: "u64 list \<Rightarrow> u8 list \<Rightarrow> u64 list option" where
  "shake256_inc_absorb state input = keccak_inc_absorb SHAKE256_RATE input state"
definition shake256_inc_finalize :: "u64 list \<Rightarrow> u64 list" where
  "shake256_inc_finalize state = keccak_inc_finalize state SHAKE256_RATE 0x1F"
definition shake256_inc_squeeze :: "nat \<Rightarrow> u64 list \<Rightarrow> (u8 list \<times> u64 list) option" where
  "shake256_inc_squeeze outlen state = keccak_inc_squeeze outlen state SHAKE256_RATE"

definition shake128_absorb :: "u8 list \<Rightarrow> u64 list option" where
  "shake128_absorb input = keccak_absorb SHAKE128_RATE input 0x1F"
definition shake128_squeezeblocks :: "nat \<Rightarrow> u64 list \<Rightarrow> u8 list \<times> u64 list" where
  "shake128_squeezeblocks nblocks state = keccak_squeezeblocks nblocks state SHAKE128_RATE"
definition shake256_absorb :: "u8 list \<Rightarrow> u64 list option" where
  "shake256_absorb input = keccak_absorb SHAKE256_RATE input 0x1F"
definition shake256_squeezeblocks :: "nat \<Rightarrow> u64 list \<Rightarrow> u8 list \<times> u64 list" where
  "shake256_squeezeblocks nblocks state = keccak_squeezeblocks nblocks state SHAKE256_RATE"

definition shake128 :: "nat \<Rightarrow> u8 list \<Rightarrow> u8 list option" where
  "shake128 outlen input = do {
     let nblocks = outlen div SHAKE128_RATE;
     s \<leftarrow> shake128_absorb input;
     let (output, s) = shake128_squeezeblocks nblocks s;
     let outlen = outlen - nblocks * SHAKE128_RATE;
     Some (if outlen \<noteq> 0 then
             (let (t, s) = shake128_squeezeblocks 1 s in output @ map ((!) t) [0..<outlen])
           else output)
   }"

definition shake256 :: "nat \<Rightarrow> u8 list \<Rightarrow> u8 list option" where
  "shake256 outlen input = do {
     let nblocks = outlen div SHAKE256_RATE;
     s \<leftarrow> shake256_absorb input;
     let (output, s) = shake256_squeezeblocks nblocks s;
     let outlen = outlen - nblocks * SHAKE256_RATE;
     Some (if outlen \<noteq> 0 then
             (let (t, s) = shake256_squeezeblocks 1 s in output @ map ((!) t) [0..<outlen])
           else output)
   }"

definition sha3_256_inc_init :: "u64 list" where "sha3_256_inc_init = keccak_inc_init"
definition sha3_256_inc_absorb :: "u64 list \<Rightarrow> u8 list \<Rightarrow> u64 list option" where
  "sha3_256_inc_absorb state input = keccak_inc_absorb SHA3_256_RATE input state"
definition sha3_256_inc_finalize :: "u64 list \<Rightarrow> u8 list" where
  "sha3_256_inc_finalize state =
     (let s = keccak_inc_finalize state SHA3_256_RATE 0x06;
          (t, s) = keccak_squeezeblocks 1 s SHA3_256_RATE
      in map ((!) t) [0..<32])"
definition sha3_256 :: "u8 list \<Rightarrow> u8 list option" where
  "sha3_256 input = do {
     s \<leftarrow> keccak_absorb SHA3_256_RATE input 0x06;
     let (t, s) = keccak_squeezeblocks 1 s SHA3_256_RATE;
     Some (map ((!) t) [0..<32])
   }"

definition sha3_384_inc_init :: "u64 list" where "sha3_384_inc_init = keccak_inc_init"
definition sha3_384_inc_absorb :: "u64 list \<Rightarrow> u8 list \<Rightarrow> u64 list option" where
  "sha3_384_inc_absorb state input = keccak_inc_absorb SHA3_384_RATE input state"
definition sha3_384_inc_finalize :: "u64 list \<Rightarrow> u8 list" where
  "sha3_384_inc_finalize state =
     (let s = keccak_inc_finalize state SHA3_384_RATE 0x06;
          (t, s) = keccak_squeezeblocks 1 s SHA3_384_RATE
      in map ((!) t) [0..<48])"
definition sha3_384 :: "u8 list \<Rightarrow> u8 list option" where
  "sha3_384 input = do {
     s \<leftarrow> keccak_absorb SHA3_384_RATE input 0x06;
     let (t, s) = keccak_squeezeblocks 1 s SHA3_384_RATE;
     Some (map ((!) t) [0..<48])
   }"

definition sha3_512_inc_init :: "u64 list" where "sha3_512_inc_init = keccak_inc_init"
definition sha3_512_inc_absorb :: "u64 list \<Rightarrow> u8 list \<Rightarrow> u64 list option" where
  "sha3_512_inc_absorb state input = keccak_inc_absorb SHA3_512_RATE input state"
definition sha3_512_inc_finalize :: "u64 list \<Rightarrow> u8 list" where
  "sha3_512_inc_finalize state =
     (let s = keccak_inc_finalize state SHA3_512_RATE 0x06;
          (t, s) = keccak_squeezeblocks 1 s SHA3_512_RATE
      in map ((!) t) [0..<64])"
definition sha3_512 :: "u8 list \<Rightarrow> u8 list option" where
  "sha3_512 input = do {
     s \<leftarrow> keccak_absorb SHA3_512_RATE input 0x06;
     let (t, s) = keccak_squeezeblocks 1 s SHA3_512_RATE;
     Some (map ((!) t) [0..<64])
   }"

section \<open>The sponge construction\<close>

text \<open>FIPS 202 for whole bytes: \<open>p\<close> is the suffix of the function with the first bit of the padding.\<close>

definition lane_word :: "u8 list \<Rightarrow> u64" where
  "lane_word bs = foldr (\<lambda>b w. push_bit 8 w OR ucast b) bs 0"

definition xor_block :: "u64 list \<Rightarrow> u8 list \<Rightarrow> u64 list" where
  "xor_block s bs = map (\<lambda>i. s ! i XOR lane_word (take 8 (drop (8 * i) bs))) [0..<25]"

function sponge_absorb :: "nat \<Rightarrow> u64 list \<Rightarrow> u8 list \<Rightarrow> u64 list" where
  "sponge_absorb r s xs =
     (if r = 0 \<or> length xs < r then s else sponge_absorb r (keccak_f (xor_block s (take r xs))) (drop r xs))"
  by pat_completeness auto
termination by (relation "measure (\<lambda>(r, s, xs). length xs)") auto

declare sponge_absorb.simps [simp del]

definition padding :: "nat \<Rightarrow> u8 \<Rightarrow> nat \<Rightarrow> u8 list" where
  "padding r p n = (let q = r - n mod r; z = p # replicate (q - 1) 0 in z[q - 1 := z ! (q - 1) XOR 128])"

definition state_bytes :: "u64 list \<Rightarrow> u8 list" where
  "state_bytes s = map (byte_at s) [0..<200]"

function sponge_squeeze :: "nat \<Rightarrow> nat \<Rightarrow> u64 list \<Rightarrow> u8 list" where
  "sponge_squeeze r d s =
     (if r = 0 \<or> d \<le> r then take d (state_bytes s)
      else take r (state_bytes s) @ sponge_squeeze r (d - r) (keccak_f s))"
  by pat_completeness auto
termination by (relation "measure (\<lambda>(r, d, s). d)") auto

declare sponge_squeeze.simps [simp del]

definition sponge :: "nat \<Rightarrow> u8 \<Rightarrow> u8 list \<Rightarrow> nat \<Rightarrow> u8 list" where
  "sponge r p m d = sponge_squeeze r d (sponge_absorb r (replicate 25 0) (m @ padding r p (length m)))"

section \<open>The state as bytes\<close>

lemma byte_index: "j AND 7 = j mod 8" "drop_bit 3 j = j div (8 :: nat)"
  using take_bit_eq_mask[of 3 j] by (simp_all add: take_bit_eq_mod mask_eq_exp_minus_1 drop_bit_eq_div)

lemma byte_at_eq: "byte_at s j = ucast (drop_bit (8 * (j mod 8)) (s ! (j div 8)))"
  by (simp add: byte_at_def byte_index)

lemma bit_byte_at: "bit (byte_at s j) n \<longleftrightarrow> n < 8 \<and> bit (s ! (j div 8)) (8 * (j mod 8) + n)"
  by (auto simp: byte_at_eq bit_ucast_iff bit_drop_bit_eq)

lemma words_bytes_eqI:
  assumes "length s = 25" "length t = 25" "\<And>j. j < 200 \<Longrightarrow> byte_at s j = byte_at t j"
  shows "s = t"
proof (rule nth_equalityI)
  show "length s = length t" using assms by simp
  fix i assume "i < length s"
  then have i: "i < 25" using assms by simp
  show "s ! i = t ! i"
  proof (rule bit_word_eqI)
    fix n :: nat
    assume n: "n < LENGTH(64)"
    then have "8 * i + n div 8 < 200" using i by simp
    from assms(3)[OF this] have "bit (byte_at s (8 * i + n div 8)) (n mod 8) = bit (byte_at t (8 * i + n div 8)) (n mod 8)" by simp
    moreover have "(8 * i + n div 8) div 8 = i" "(8 * i + n div 8) mod 8 = n div 8" using n by simp_all
    ultimately show "bit (s ! i) n = bit (t ! i) n" by (simp add: bit_byte_at)
  qed
qed

lemma byte_at_cong: "s ! (j div 8) = t ! (j div 8) \<Longrightarrow> byte_at s j = byte_at t j"
  by (simp add: byte_at_eq)

lemma byte_at_xor:
  assumes "t ! (j div 8) = s ! (j div 8) XOR w" "\<And>n. n < 8 \<Longrightarrow> bit w (8 * (j mod 8) + n) = bit b n"
  shows "byte_at t j = byte_at s j XOR b"
  using assms by (intro bit_word_eqI) (auto simp: bit_byte_at bit_xor_iff)

lemma byte_at_xor_byte:
  assumes "k div 8 < length s"
  shows "byte_at (xor_byte k b s) j = byte_at s j XOR (if j = k then b else 0)"
proof (cases "j div 8 = k div 8")
  case True
  have l: "bit b m \<Longrightarrow> m < 8" for m using bit_imp_le_length[of b m] by simp
  have eq: "j = k \<longleftrightarrow> j mod 8 = k mod 8" using True by (metis div_mod_decomp)
  show ?thesis
  proof (rule byte_at_xor)
    show "xor_byte k b s ! (j div 8) = s ! (j div 8) XOR push_bit (8 * (k mod 8)) (ucast b)"
      using assms True by (simp add: xor_byte_def byte_index)
    fix n :: nat
    assume n: "n < 8"
    have p: "8 * (j mod 8) + n < 64" using n by presburger
    show "bit (push_bit (8 * (k mod 8)) (ucast b) :: u64) (8 * (j mod 8) + n) = bit (if j = k then b else 0) n"
    proof (cases "j = k")
      case True
      then show ?thesis using n p by (simp add: bit_push_bit_iff bit_ucast_iff)
    next
      case False
      then have "j mod 8 < k mod 8 \<or> k mod 8 < j mod 8" using eq by linarith
      moreover have "a < c \<or> c < a \<Longrightarrow> \<not> (8 * c \<le> 8 * a + n \<and> 8 * a + n - 8 * c < 8)" for a c :: nat using n by presburger
      ultimately have "\<not> (8 * (k mod 8) \<le> 8 * (j mod 8) + n \<and> 8 * (j mod 8) + n - 8 * (k mod 8) < 8)" by blast
      then show ?thesis using False l[of "8 * (j mod 8) + n - 8 * (k mod 8)"] by (auto simp: bit_push_bit_iff bit_ucast_iff)
    qed
  qed
next
  case False
  then have "j \<noteq> k" by auto
  then show ?thesis using False by (auto intro: byte_at_cong simp: xor_byte_def byte_index)
qed

lemma load64_bits: "bit (load64 x) n \<longleftrightarrow> n < 64 \<and> bit (x ! (n div 8)) (n mod 8)"
proof -
  have "bit (fold (\<lambda>i r. r OR push_bit (8 * i) (ucast (x ! i))) [0..<m] (0 :: u64)) n \<longleftrightarrow> n < 8 * m \<and> bit (x ! (n div 8)) (n mod 8)"
    if "m \<le> 8" for m
    using that
  proof (induction m)
    case (Suc m)
    have l: "bit (x ! m) k \<Longrightarrow> k < 8" for k using bit_imp_le_length[of "x ! m" k] by simp
    have "bit (push_bit (8 * m) (ucast (x ! m)) :: u64) n \<longleftrightarrow> 8 * m \<le> n \<and> n < 8 * Suc m \<and> bit (x ! (n div 8)) (n mod 8)"
    proof (cases "8 * m \<le> n \<and> n < 8 * Suc m")
      case True
      then have "n div 8 = m" "n mod 8 = n - 8 * m" by (auto simp: div_nat_eqI modulo_nat_def)
      moreover have "n - 8 * m < 64" using True by auto
      ultimately show ?thesis using True Suc.prems by (simp add: bit_push_bit_iff bit_ucast_iff)
    next
      case False
      then show ?thesis using l[of "n - 8 * m"] by (auto simp: bit_push_bit_iff bit_ucast_iff)
    qed
    then show ?case using Suc by (auto simp: bit_or_iff)
  qed simp
  from this[of 8] show ?thesis by (simp add: load64_def)
qed

lemma lane_word_bits: "bit (lane_word bs) n \<longleftrightarrow> n < 64 \<and> n div 8 < length bs \<and> bit (bs ! (n div 8)) (n mod 8)"
proof (induction bs arbitrary: n)
  case Nil
  then show ?case by (simp add: lane_word_def)
next
  case (Cons b bs)
  have l: "bit b k \<Longrightarrow> k < 8" for k using bit_imp_le_length[of b k] by simp
  have *: "bit (lane_word (b # bs)) n \<longleftrightarrow> n < 64 \<and> (8 \<le> n \<and> bit (lane_word bs) (n - 8) \<or> bit b n)"
    by (auto simp: lane_word_def bit_or_iff bit_push_bit_iff bit_ucast_iff)
  show ?case
  proof (cases "8 \<le> n")
    case True
    then have "n div 8 = Suc ((n - 8) div 8)" "n mod 8 = (n - 8) mod 8" using le_div_geq[of 8 n] le_mod_geq[of 8 n] by simp_all
    moreover have "\<not> bit b n" using True l[of n] by auto
    ultimately show ?thesis unfolding * Cons using True by auto
  next
    case False
    then show ?thesis using * by simp
  qed
qed

lemma mod8_8: "8 * (j mod 8) + n < 64" "(8 * (j mod 8) + n) div 8 = j mod 8" "(8 * (j mod 8) + n) mod 8 = n" if "n < (8 :: nat)"
proof -
  have "j mod 8 < 8" by simp
  then show "8 * (j mod 8) + n < 64" using that by linarith
  show "(8 * (j mod 8) + n) div 8 = j mod 8" "(8 * (j mod 8) + n) mod 8 = n" using that by simp_all
qed

lemma byte_at_xor_block:
  assumes "j < 200"
  shows "byte_at (xor_block s bs) j = byte_at s j XOR (if j < length bs then bs ! j else 0)"
proof (rule byte_at_xor)
  have "j div 8 < 25" using assms by (simp add: less_mult_imp_div_less)
  then show "xor_block s bs ! (j div 8) = s ! (j div 8) XOR lane_word (take 8 (drop (8 * (j div 8)) bs))" by (simp add: xor_block_def)
  fix n :: nat
  assume n: "n < 8"
  have "8 * (j div 8) + j mod 8 = j" by simp
  moreover have "j mod 8 < length bs - 8 * (j div 8) \<longleftrightarrow> j < length bs" using \<open>8 * (j div 8) + j mod 8 = j\<close> by linarith
  ultimately show "bit (lane_word (take 8 (drop (8 * (j div 8)) bs))) (8 * (j mod 8) + n) = bit (if j < length bs then bs ! j else 0) n"
    using mod8_8[OF n, of j] by (auto simp: lane_word_bits)
qed

lemma length_xor_block [simp]: "length (xor_block s bs) = 25"
  by (simp add: xor_block_def)

lemma length_absorb_block [simp]: "length (absorb_block r m s) = length s"
  by (simp add: absorb_block_def length_fold_upd)

lemma nth_absorb_block:
  "i < length s \<Longrightarrow> absorb_block r m s ! i = (if i < r div 8 then s ! i XOR load64 (drop (8 * i) m) else s ! i)"
proof -
  have "fold (\<lambda>i s. s[i := s ! i XOR load64 (drop (8 * i) m)]) [0..<k] s ! i = (if i < k then s ! i XOR load64 (drop (8 * i) m) else s ! i)"
    if "i < length s" for k
    using that by (induction k) (auto simp: nth_list_update length_fold_upd less_Suc_eq)
  then show "i < length s \<Longrightarrow> absorb_block r m s ! i = (if i < r div 8 then s ! i XOR load64 (drop (8 * i) m) else s ! i)"
    by (simp add: absorb_block_def)
qed

text \<open>The rates: a positive multiple of 8, below the size of the state.\<close>

definition rate :: "nat \<Rightarrow> bool" where
  "rate r \<longleftrightarrow> 0 < r \<and> 8 dvd r \<and> r < 200"

lemma absorb_block_xor:
  assumes "rate r" "length s = 25" "r \<le> length m"
  shows "absorb_block r m s = xor_block s (take r m)"
proof (rule words_bytes_eqI)
  fix j :: nat
  assume j: "j < 200"
  have r: "8 * (r div 8) = r" using assms(1) by (auto simp: rate_def)
  have jd: "j div 8 < 25" "j div 8 < r div 8 \<longleftrightarrow> j < r" using j div_less_iff_less_mult[of 8 j "r div 8"] r by (simp_all add: less_mult_imp_div_less mult.commute)
  have "byte_at (absorb_block r m s) j = byte_at s j XOR (if j < r then m ! j else 0)"
  proof (rule byte_at_xor)
    show "absorb_block r m s ! (j div 8) = s ! (j div 8) XOR (if j < r then load64 (drop (8 * (j div 8)) m) else 0)"
      using jd assms by (simp add: nth_absorb_block)
    fix n :: nat
    assume n: "n < 8"
    have "8 * (j div 8) + j mod 8 = j" "8 * (j div 8) \<le> length m" if "j < r" using that assms(3) div_mult_mod_eq[of j 8] by linarith+
    then show "bit (if j < r then load64 (drop (8 * (j div 8)) m) else 0) (8 * (j mod 8) + n) = bit (if j < r then m ! j else 0) n"
      using mod8_8[OF n, of j] by (auto simp: load64_bits)
  qed
  then show "byte_at (absorb_block r m s) j = byte_at (xor_block s (take r m)) j"
    using j assms(3) by (simp add: byte_at_xor_block)
qed (use assms in simp_all)

section \<open>Absorbing\<close>

text \<open>What is left of a message behind its last full block.\<close>

definition rest :: "nat \<Rightarrow> u8 list \<Rightarrow> u8 list" where
  "rest r m = drop (length m div r * r) m"

lemma length_rest: "length (rest r m) = length m mod r"
  by (simp add: rest_def minus_div_mult_eq_mod)

lemma rest_short: "length m < r \<Longrightarrow> rest r m = m"
  by (simp add: rest_def)

lemma rest_block: "0 < r \<Longrightarrow> r \<le> length m \<Longrightarrow> rest r (drop r m) = rest r m"
  by (simp add: rest_def le_div_geq add.commute)

lemma length_keccak_f [simp]: "length A = 25 \<Longrightarrow> length (keccak_f A) = 25"
  by (simp add: keccak_f_def keccak_rounds_length)

lemma length_sponge_absorb [simp]: "length s = 25 \<Longrightarrow> length (sponge_absorb r s xs) = 25"
  by (induction r s xs rule: sponge_absorb.induct) (simp add: sponge_absorb.simps)

lemma sponge_absorb_append:
  assumes "0 < r"
  shows "sponge_absorb r s (m @ x) = sponge_absorb r (sponge_absorb r s m) (rest r m @ x)"
  using assms
proof (induction r s m rule: sponge_absorb.induct)
  case (1 r s m)
  show ?case
  proof (cases "length m < r")
    case True
    then show ?thesis by (simp add: rest_short sponge_absorb.simps[of r s m])
  next
    case False
    then show ?thesis using 1 sponge_absorb.simps[of r s "m @ x"] sponge_absorb.simps[of r s m]
      by (simp add: rest_block)
  qed
qed

lemma sponge_absorb_block: "0 < r \<Longrightarrow> length xs = r \<Longrightarrow> sponge_absorb r s xs = keccak_f (xor_block s xs)"
  by (simp add: sponge_absorb.simps[of r s xs] sponge_absorb.simps[of r _ "[]"])

lemma permute_25: "length s = 25 \<Longrightarrow> KeccakF1600_StatePermute s = keccak_f s"
  using permute_keccak_f[of s "[]"] by simp

lemma absorb_loop:
  assumes "rate r" "length s = 25"
  shows "keccak_absorb_loop r m s = Some (rest r m, sponge_absorb r s m)"
  using assms
proof (induction r m s rule: keccak_absorb_loop.induct)
  case (1 r m s)
  have r: "0 < r" using 1 by (simp add: rate_def)
  show ?case
  proof (cases "r \<le> length m")
    case True
    then show ?thesis using 1 r
      by (simp add: keccak_absorb_loop.simps[of r m] sponge_absorb.simps[of r s m] permute_25 absorb_block_xor rest_block)
  next
    case False
    then show ?thesis using r by (simp add: keccak_absorb_loop.simps[of r m] sponge_absorb.simps[of r s m] rest_short)
  qed
qed

lemma length_padding: "0 < r \<Longrightarrow> length (padding r p n) = r - n mod r"
  unfolding padding_def Let_def length_list_update by (simp add: Suc_diff_Suc)

lemma mod_rest: "0 < r \<Longrightarrow> n mod r < (r :: nat)"
  by simp

lemma nth_padding:
  assumes "i < r - n mod r"
  shows "padding r p n ! i = (if i = 0 then p else 0) XOR (if i = r - n mod r - 1 then 128 else 0)"
proof -
  let ?q = "r - n mod r" and ?z = "p # replicate (r - n mod r - 1) 0"
  have q: "0 < ?q" using assms by simp
  have z: "length ?z = ?q" "?z ! k = (if k = 0 then p else 0)" if "k < ?q" for k using q that by (simp_all add: nth_Cons')
  have "padding r p n ! i = (if i = ?q - 1 then ?z ! i XOR 128 else ?z ! i)"
    unfolding padding_def Let_def using nth_list_update[of "?q - 1" ?z "?z ! (?q - 1) XOR 128" i] z(1)[OF q] q by auto
  then show ?thesis using z(2)[OF assms] by auto
qed

text \<open>The state before the permutation of the last block, for any way of absorbing.\<close>

definition last_state :: "nat \<Rightarrow> u8 list \<Rightarrow> u8 \<Rightarrow> u64 list" where
  "last_state r m p = xor_block (sponge_absorb r (replicate 25 0) m) (rest r m @ padding r p (length m))"

lemma length_last_state [simp]: "length (last_state r m p) = 25"
  by (simp add: last_state_def)

lemma last_state_sponge:
  "0 < r \<Longrightarrow> keccak_f (last_state r m p) = sponge_absorb r (replicate 25 0) (m @ padding r p (length m))"
  by (simp add: sponge_absorb_append sponge_absorb_block length_rest length_padding last_state_def)

lemma keccak_absorb_last:
  assumes "rate r" "\<not> bit p 7"
  shows "keccak_absorb r m p = Some (last_state r m p)"
proof -
  have r: "0 < r" using assms by (simp add: rate_def)
  let ?m = "rest r m" and ?n = "length m mod r"
  have n: "?n < r" using r by simp
  have copy: "fold (\<lambda>i t. t[i := ?m ! i]) [0..<k] (replicate r 0) = take k ?m @ replicate (r - k) 0" if "k \<le> ?n" for k
    using that
  proof (induction k)
    case (Suc k)
    then have "k < length ?m" "k < r" using n by (simp_all add: length_rest)
    then have "(take k ?m @ replicate (r - k) 0)[k := ?m ! k] = take (Suc k) ?m @ replicate (r - Suc k) 0"
      by (intro nth_equalityI) (auto simp: nth_list_update nth_append)
    then show ?case using Suc by simp
  qed simp
  let ?t = "(?m @ replicate (r - ?n) 0)[?n := p]"
  have or: "p OR 128 = p XOR 128" "(0 :: u8) OR 128 = 128"
  proof -
    have "bit (128 :: u8) k \<longleftrightarrow> k = 7" for k
    proof -
      have e: "(128 :: u8) = push_bit 7 1" by simp
      show ?thesis unfolding e bit_push_bit_iff bit_1_iff by auto
    qed
    then show "p OR 128 = p XOR 128" using assms(2)
      by (intro bit_word_eqI) (simp only: bit_or_iff bit_xor_iff, blast)
  qed simp
  have "?t[r - 1 := ?t ! (r - 1) OR 128] = ?m @ padding r p (length m)"
  proof (rule nth_equalityI)
    fix i assume "i < length (?t[r - 1 := ?t ! (r - 1) OR 128])"
    then have i: "i < r" using n by (simp add: length_rest)
    show "?t[r - 1 := ?t ! (r - 1) OR 128] ! i = (?m @ padding r p (length m)) ! i"
    proof -
      have "8 \<le> r" using assms(1) dvd_imp_le[of 8 r] by (simp add: rate_def)
      then have "Suc 0 < r" "\<not> r - Suc 0 < ?n" using n by linarith+
      moreover from this have "r \<le> Suc ?n \<longleftrightarrow> r - Suc 0 = ?n" using n by linarith
      ultimately show ?thesis using i or by (auto simp: nth_list_update nth_append length_rest nth_padding)
    qed
  qed (use n in \<open>simp add: length_rest length_padding[OF r]\<close>)
  moreover have "absorb_block r (?m @ padding r p (length m)) (sponge_absorb r (replicate 25 0) m) = last_state r m p"
    unfolding last_state_def using absorb_block_xor[OF assms(1), of _ "?m @ padding r p (length m)"] n
    by (simp add: length_rest length_padding[OF r])
  ultimately show ?thesis
    unfolding keccak_absorb_def using absorb_loop[OF assms(1), of "replicate 25 0" m] copy[of ?n]
    by (simp add: length_rest Let_def)
qed

section \<open>Squeezing\<close>

text \<open>Byte \<open>t\<close> of the output, from the state after the last block was absorbed.\<close>

definition stream :: "nat \<Rightarrow> u64 list \<Rightarrow> nat \<Rightarrow> u8" where
  "stream r f t = byte_at ((keccak_f ^^ (t div r)) f) (t mod r)"

lemma stream_first: "t < r \<Longrightarrow> stream r f t = byte_at f t"
  by (simp add: stream_def)

lemma stream_later: "0 < r \<Longrightarrow> stream r ((keccak_f ^^ n) f) t = stream r f (n * r + t)"
  by (simp add: stream_def funpow_add[symmetric, THEN fun_cong, unfolded comp_def] add.commute)

lemma sponge_squeeze_stream:
  assumes "0 < r" "r < 200"
  shows "sponge_squeeze r d f = map (stream r f) [0..<d]"
  using assms
proof (induction r d f rule: sponge_squeeze.induct)
  case (1 r d f)
  show ?case
  proof (cases "d \<le> r")
    case True
    then have "take d (state_bytes f) = map (stream r f) [0..<d]"
      using 1 by (intro nth_equalityI) (auto simp: state_bytes_def stream_first)
    then show ?thesis using True by (simp add: sponge_squeeze.simps[of r d])
  next
    case False
    have "take r (state_bytes f) @ map (stream r (keccak_f f)) [0..<d - r] = map (stream r f) [0..<d]"
      using 1 False stream_later[of r 1 f]
      by (intro nth_equalityI) (auto simp: state_bytes_def stream_first nth_append)
    then show ?thesis using 1 False by (simp add: sponge_squeeze.simps[of r d])
  qed
qed

lemma store64_bytes: "concat (map (\<lambda>i. store64 (s ! i)) [0..<k]) = map (byte_at s) [0..<8 * k]"
proof (induction k)
  case (Suc k)
  have "store64 (s ! k) = map (byte_at s) [8 * k..<8 * k + 8]"
    by (intro nth_equalityI) (auto simp: store64_def byte_at_eq)
  moreover have "[0..<8 * Suc k] = [0..<8 * k] @ [8 * k..<8 * k + 8]" using upt_add_eq_append[of 0 "8 * k" 8] by (simp add: add.commute)
  ultimately show ?case using Suc by simp
qed simp

lemma squeezeblocks:
  assumes "rate r" "length s = 25"
  shows "keccak_squeezeblocks n s r = (map (stream r (keccak_f s)) [0..<n * r], (keccak_f ^^ n) s)"
  using assms(2)
proof (induction n arbitrary: s)
  case (Suc n)
  have r: "0 < r" "8 * drop_bit 3 r = r" using assms(1) by (auto simp: rate_def byte_index)
  have "map (byte_at (keccak_f s)) [0..<r] @ map (stream r (keccak_f (keccak_f s))) [0..<n * r] = map (stream r (keccak_f s)) [0..<Suc n * r]"
    using r(1) stream_later[of r 1 "keccak_f s"]
    by (intro nth_equalityI) (auto simp: stream_first nth_append)
  then show ?case using Suc
    by (simp add: permute_25 Let_def store64_bytes r(2) funpow_swap1)
qed simp

text \<open>SHAKE at once.\<close>

lemma sponge_stream:
  "rate r \<Longrightarrow> sponge r p m d = map (stream r (keccak_f (last_state r m p))) [0..<d]"
  by (simp add: sponge_def rate_def sponge_squeeze_stream last_state_sponge)

lemma squeeze_all:
  assumes "rate r" "length s = 25"
  shows "(let (output, s) = keccak_squeezeblocks (d div r) s r
      in if d - d div r * r \<noteq> 0 then
           (let (t, s) = keccak_squeezeblocks 1 s r in output @ map ((!) t) [0..<d - d div r * r])
         else output) = map (stream r (keccak_f s)) [0..<d]"
proof -
  have r: "0 < r" using assms(1) by (simp add: rate_def)
  have l: "length ((keccak_f ^^ n) s) = 25" for n using assms(2) by (induction n) simp_all
  let ?n = "d div r"
  have d: "d - ?n * r = d mod r" "d mod r < r" "?n * r + d mod r = d" using r by (simp_all add: minus_div_mult_eq_mod)
  have f: "keccak_f ((keccak_f ^^ ?n) s) = (keccak_f ^^ ?n) (keccak_f s)" by (simp add: funpow_swap1)
  have "map (stream r (keccak_f s)) [0..<?n * r] @ map ((!) (map (stream r (keccak_f ((keccak_f ^^ ?n) s))) [0..<1 * r])) [0..<d mod r] =
    map (stream r (keccak_f s)) [0..<d]"
    unfolding f using d stream_later[OF r, of ?n "keccak_f s"]
    by (intro nth_equalityI) (auto simp: nth_append)
  moreover have "d mod r = 0 \<Longrightarrow> ?n * r = d" using d(3) by simp
  ultimately show ?thesis
    unfolding squeezeblocks[OF assms] squeezeblocks[OF assms(1) l] Let_def prod.case d(1) by auto
qed

lemma rates: "rate SHAKE128_RATE" "rate SHAKE256_RATE" "rate SHA3_256_RATE" "rate SHA3_384_RATE" "rate SHA3_512_RATE"
  by (simp_all add: rate_def SHAKE128_RATE_def SHAKE256_RATE_def SHA3_256_RATE_def SHA3_384_RATE_def SHA3_512_RATE_def)

lemma suffixes: "\<not> bit (0x1F :: u8) 7" "\<not> bit (0x06 :: u8) 7"
  by simp_all

lemma shake128_sponge: "shake128 outlen input = Some (sponge SHAKE128_RATE 0x1F input outlen)"
  using squeeze_all[OF rates(1) length_last_state, where d = outlen]
  unfolding shake128_def shake128_absorb_def shake128_squeezeblocks_def keccak_absorb_last[OF rates(1) suffixes(1)] sponge_stream[OF rates(1)] Let_def case_prod_beta
  by (simp only: Option.bind_lunit)

lemma shake256_spec: "shake256 outlen input = Some (sponge SHAKE256_RATE 0x1F input outlen)"
  using squeeze_all[OF rates(2) length_last_state, where d = outlen]
  unfolding shake256_def shake256_absorb_def shake256_squeezeblocks_def keccak_absorb_last[OF rates(2) suffixes(1)] sponge_stream[OF rates(2)] Let_def case_prod_beta
  by (simp only: Option.bind_lunit)

text \<open>C37: \<open>shake256\<close>, which Classic McEliece hashes and expands its seeds with, is SHAKE256 of FIPS 202: the sponge
  with Keccak-f[1600], rate 136 and suffix 1111, for every length of input and output.\<close>

theorem shake256_sponge: "shake256 outlen input = Some (sponge SHAKE256_RATE 0x1F input outlen)"
  by (rule shake256_spec)

section \<open>In pieces\<close>

text \<open>An incremental context after the message \<open>m\<close>: the full blocks are absorbed, the rest is in the state.\<close>

definition absorbed :: "nat \<Rightarrow> u8 list \<Rightarrow> u64 list \<Rightarrow> bool" where
  "absorbed r m s \<longleftrightarrow> length s = 26 \<and> take 25 s = xor_block (sponge_absorb r (replicate 25 0) m) (rest r m) \<and>
     s ! 25 = of_nat (length m mod r)"

lemma byte_at_take: "j < 200 \<Longrightarrow> byte_at (take 25 s) j = byte_at s j"
  by (rule byte_at_cong) (simp add: less_mult_imp_div_less)

lemma byte_at_inc_xor:
  assumes "length s = 26" "unat (s ! 25) + n \<le> 200" "j < 200"
  shows "inc_xor m n s ! 25 = s ! 25"
    "byte_at (inc_xor m n s) j = byte_at s j XOR (if unat (s ! 25) \<le> j \<and> j < unat (s ! 25) + n then m ! (j - unat (s ! 25)) else 0)"
proof -
  have "inc_xor m n s ! 25 = s ! 25 \<and>
    byte_at (inc_xor m n s) j = byte_at s j XOR (if unat (s ! 25) \<le> j \<and> j < unat (s ! 25) + n then m ! (j - unat (s ! 25)) else 0)"
    using assms(2)
  proof (induction n)
    case (Suc n)
    have st: "inc_xor m (Suc n) s = xor_byte (unat (s ! 25) + n) (m ! n) (inc_xor m n s)" using Suc by (simp add: inc_xor_def)
    have k: "(unat (s ! 25) + n) div 8 < 25" using Suc.prems by (simp add: less_mult_imp_div_less)
    then have "xor_byte (unat (s ! 25) + n) (m ! n) (inc_xor m n s) ! 25 = s ! 25" using Suc by (simp add: xor_byte_def byte_index)
    moreover have "byte_at (xor_byte (unat (s ! 25) + n) (m ! n) (inc_xor m n s)) j =
        byte_at (inc_xor m n s) j XOR (if j = unat (s ! 25) + n then m ! n else 0)"
      by (rule byte_at_xor_byte) (use k assms(1) in simp)
    ultimately show ?case unfolding st using Suc by auto
  qed (auto simp: inc_xor_def)
  then show "inc_xor m n s ! 25 = s ! 25"
    "byte_at (inc_xor m n s) j = byte_at s j XOR (if unat (s ! 25) \<le> j \<and> j < unat (s ! 25) + n then m ! (j - unat (s ! 25)) else 0)"
    by blast+
qed

lemma unat_count: "n < 200 \<Longrightarrow> unat (of_nat n :: u64) = n"
  by (simp add: unat_of_nat take_bit_nat_eq_self)

lemma inc_xor_absorbed:
  assumes r: "rate r" and a: "absorbed r m s" and n: "n \<le> length x" "length m mod r + n \<le> r"
  shows "take 25 (inc_xor x n s) = xor_block (sponge_absorb r (replicate 25 0) m) (rest r m @ take n x)"
    "inc_xor x n s ! 25 = s ! 25"
proof -
  have "length m mod r < 200" using r mod_less_divisor[of r "length m"] unfolding rate_def by linarith
  then have c: "unat (s ! 25) = length m mod r" using a by (simp add: absorbed_def unat_count)
  have l: "length s = 26" using a by (simp add: absorbed_def)
  have le: "unat (s ! 25) + n \<le> 200" using c n(2) r by (simp add: rate_def)
  show "inc_xor x n s ! 25 = s ! 25" by (rule byte_at_inc_xor(1)[OF l le, of 0]) simp
  show "take 25 (inc_xor x n s) = xor_block (sponge_absorb r (replicate 25 0) m) (rest r m @ take n x)"
  proof (rule words_bytes_eqI)
    fix j :: nat
    assume j: "j < 200"
    have "byte_at s j = byte_at (xor_block (sponge_absorb r (replicate 25 0) m) (rest r m)) j"
      using byte_at_take[OF j, of s] a by (simp add: absorbed_def)
    then show "byte_at (take 25 (inc_xor x n s)) j = byte_at (xor_block (sponge_absorb r (replicate 25 0) m) (rest r m @ take n x)) j"
      unfolding byte_at_take[OF j] byte_at_inc_xor(2)[OF l le j] byte_at_xor_block[OF j] c
      using n(1) by (auto simp: length_rest nth_append)
  qed (use l in simp_all)
qed

lemma absorbed_init: "rate r \<Longrightarrow> absorbed r [] keccak_inc_init"
proof -
  assume "rate r"
  have "xor_block (replicate 25 0) [] = replicate 25 0"
    by (rule nth_equalityI) (simp_all add: xor_block_def lane_word_def)
  then show "absorbed r [] keccak_inc_init" using \<open>rate r\<close>
    by (simp add: absorbed_def keccak_inc_init_def rest_def rate_def sponge_absorb.simps nth_append)
qed

lemma keccak_inc_absorb_absorbed:
  assumes "rate r" "absorbed r m s"
  shows "\<exists>s'. keccak_inc_absorb r x s = Some s' \<and> absorbed r (m @ x) s'"
  using assms
proof (induction r x s arbitrary: m rule: keccak_inc_absorb.induct)
  case (1 r x s)
  have r: "0 < r" "r < 200" using 1 by (simp_all add: rate_def)
  let ?c = "length m mod r"
  have s: "length s = 26" "s ! 25 = of_nat ?c" using 1 by (simp_all add: absorbed_def)
  have c: "?c < r" using r by simp
  then have "?c < 200" using r by linarith
  then have u: "unat (s ! 25) = ?c" using s(2) by (simp add: unat_count)
  show ?case
  proof (cases "r \<le> length x + unat (s ! 25)")
    case True
    let ?n = "r - ?c"
    have n: "unat (of_nat r - ucast (s ! 25) :: u32) = ?n"
    proof -
      have "ucast (s ! 25) = (of_nat ?c :: u32)" using \<open>?c < 200\<close> unfolding s(2) by (simp add: unsigned_of_nat take_bit_nat_eq_self)
      then have e: "(of_nat r - ucast (s ! 25) :: u32) = of_nat ?n" using c by (simp add: of_nat_diff)
      show ?thesis unfolding e using r by (simp add: unat_of_nat take_bit_nat_eq_self del: of_nat_diff)
    qed
    have nl: "?n \<le> length x" using True u by simp
    let ?s = "KeccakF1600_StatePermute ((inc_xor x ?n s)[25 := 0])"
    note x = inc_xor_absorbed[OF 1(2,3) nl]
    have "length (rest r m @ take ?n x) = r" using nl c by (simp add: length_rest)
    then have p: "?s = sponge_absorb r (replicate 25 0) (m @ take ?n x) @ [0]"
      using x s c r by (simp add: permute_26 sponge_absorb_append sponge_absorb_block)
    have "length (m @ take ?n x) mod r = 0"
    proof -
      have "length m + ?n = length m div r * r + r" using c div_mult_mod_eq[of "length m" r] by linarith
      then show ?thesis using nl by simp
    qed
    then have z: "rest r (m @ take ?n x) = []" "length (m @ take ?n x) mod r = 0" using length_rest[of r "m @ take ?n x"] by simp_all
    have xb: "xor_block S [] = S" if "length S = 25" for S
      using that by (intro nth_equalityI) (simp_all add: xor_block_def lane_word_def)
    have ab: "absorbed r (m @ take ?n x) ?s"
      unfolding absorbed_def p z by (simp add: xb nth_append)
    have "\<exists>s'. keccak_inc_absorb r (drop ?n x) ?s = Some s' \<and> absorbed r ((m @ take ?n x) @ drop ?n x) s'"
      by (rule 1(1)[OF _ True n[symmetric] _ 1(2) ab]) (use r s nl in simp_all)
    moreover have "keccak_inc_absorb r x s = keccak_inc_absorb r (drop ?n x) ?s"
      unfolding keccak_inc_absorb.simps[of r x s] Let_def n using True r s(1) nl by simp
    ultimately show ?thesis by simp
  next
    case False
    then have n: "?c + length x < r" using u by simp
    have m: "length (m @ x) div r = length m div r" "length (m @ x) mod r = ?c + length x"
      using n div_add1_eq[of "length m" "length x" r] mod_add_left_eq[of "length m" r "length x"] by simp_all
    have rest: "rest r (m @ x) = rest r m @ x" using m(1) by (simp add: rest_def)
    have l: "length (rest r m @ x) < r" using n by (simp add: length_rest)
    then have ab: "sponge_absorb r (replicate 25 0) (m @ x) = sponge_absorb r (replicate 25 0) m"
      using r by (simp add: sponge_absorb_append sponge_absorb.simps[of r _ "rest r m @ x"])
    note i = inc_xor_absorbed[OF 1(2,3), of "length x" x]
    have "absorbed r (m @ x) ((inc_xor x (length x) s)[25 := inc_xor x (length x) s ! 25 + of_nat (length x)])"
      unfolding absorbed_def rest ab using i n s m(2) by simp
    moreover have "keccak_inc_absorb r x s = Some ((inc_xor x (length x) s)[25 := inc_xor x (length x) s ! 25 + of_nat (length x)])"
      unfolding keccak_inc_absorb.simps[of r x s] Let_def using False r s(1) by simp
    ultimately show ?thesis by blast
  qed
qed

lemma finalize_absorbed:
  assumes r: "rate r" and a: "absorbed r m s"
  shows "keccak_inc_finalize s r p = last_state r m p @ [0]"
proof -
  have r': "0 < r" "r < 200" using r by (simp_all add: rate_def)
  let ?c = "length m mod r"
  have c: "?c < r" using r' by simp
  then have "?c < 200" using r' by linarith
  then have s: "length s = 26" "unat (s ! 25) = ?c" using a by (simp_all add: absorbed_def unat_count)
  let ?t = "xor_byte (r - 1) 128 (xor_byte ?c p s)"
  have t: "take 25 ?t = last_state r m p"
  proof (rule words_bytes_eqI)
    fix j :: nat
    assume j: "j < 200"
    have k: "?c div 8 < length s" "(r - 1) div 8 < length (xor_byte ?c p s)"
      using less_mult_imp_div_less[of ?c 26 8] less_mult_imp_div_less[of "r - 1" 26 8] \<open>?c < 200\<close> r' s by simp_all
    have b: "byte_at s j = byte_at (xor_block (sponge_absorb r (replicate 25 0) m) (rest r m)) j"
      using byte_at_take[OF j, of s] a by (simp add: absorbed_def)
    have pad: "j - ?c < r - ?c \<Longrightarrow> padding r p (length m) ! (j - ?c) = (if j - ?c = 0 then p else 0) XOR (if j - ?c = r - ?c - 1 then 128 else 0)"
      by (rule nth_padding)
    show "byte_at (take 25 ?t) j = byte_at (last_state r m p) j"
      unfolding byte_at_take[OF j] byte_at_xor_byte[OF k(2)] byte_at_xor_byte[OF k(1)] b last_state_def byte_at_xor_block[OF j]
      using pad c by (auto simp: length_rest length_padding[OF r'(1)] nth_append xor.assoc)
  qed (use s in simp_all)
  have "keccak_inc_finalize s r p = take 25 ?t @ [0]"
    using s by (simp add: keccak_inc_finalize_def Let_def) (rule nth_equalityI, auto simp: nth_append nth_list_update)
  then show ?thesis using t by simp
qed

text \<open>An incremental context after \<open>k\<close> bytes of output from the state \<open>f\<close>.\<close>

definition squeezed :: "nat \<Rightarrow> u64 list \<Rightarrow> nat \<Rightarrow> u64 list \<Rightarrow> bool" where
  "squeezed r f k s \<longleftrightarrow> length s = 26 \<and> take 25 s = (keccak_f ^^ ((k + r - 1) div r)) f \<and>
     s ! 25 = of_nat ((k + r - 1) div r * r - k)"

lemma byte_at_append: "j < 200 \<Longrightarrow> length A = 25 \<Longrightarrow> byte_at (A @ B) j = byte_at A j"
  by (rule byte_at_cong) (simp add: nth_append less_mult_imp_div_less)

lemma round_up: "0 < r \<Longrightarrow> 0 < i \<Longrightarrow> i \<le> r \<Longrightarrow> (n * r + i + r - 1) div r = Suc n" for r :: nat
proof -
  assume a: "0 < r" "0 < i" "i \<le> r"
  then have "n * r + i + r - 1 = (i - 1) + Suc n * r" by (simp add: algebra_simps)
  then show ?thesis using a by (simp only: div_mult_self1) simp
qed

lemma round_up_mult: "0 < r \<Longrightarrow> (n * r + r - 1) div r = n" for r :: nat
proof -
  assume a: "0 < r"
  then have "n * r + r - 1 = (r - 1) + n * r" by simp
  then show ?thesis using a by (simp only: div_mult_self1) simp
qed

lemma squeeze_loop:
  assumes "rate r" "length f = 25" "length s = 26" "take 25 s = (keccak_f ^^ n) f" "s ! 25 = 0"
  shows "\<exists>s'. keccak_inc_squeeze_loop d s r = Some (map (stream r (keccak_f f)) [n * r..<n * r + d], s') \<and> squeezed r f (n * r + d) s'"
  using assms
proof (induction d s r arbitrary: n rule: keccak_inc_squeeze_loop.induct)
  case (1 d s r)
  have r: "0 < r" "r < 200" using 1(2) by (simp_all add: rate_def)
  have l: "length ((keccak_f ^^ k) f) = 25" for k using 1(3) by (induction k) simp_all
  show ?case
  proof (cases "d = 0")
    case True
    then show ?thesis using 1(3-) r by (simp add: keccak_inc_squeeze_loop.simps[of 0] squeezed_def round_up_mult[simplified])
  next
    case False
    let ?i = "min d r" and ?f = "(keccak_f ^^ Suc n) f"
    let ?s = "(KeccakF1600_StatePermute s)[25 := of_nat (r - ?i)]"
    have p: "KeccakF1600_StatePermute s = ?f @ [0]" using 1(4-) by (simp add: permute_26)
    then have s': "?s = ?f @ [of_nat (r - ?i)]" using l[of "Suc n"] by (simp add: list_update_append del: funpow.simps)
    have h: "map (byte_at (KeccakF1600_StatePermute s)) [0..<?i] = map (stream r (keccak_f f)) [n * r..<n * r + ?i]"
    proof (rule nth_equalityI)
      fix j assume "j < length (map (byte_at (KeccakF1600_StatePermute s)) [0..<?i])"
      then have j: "j < ?i" by simp
      have "stream r (keccak_f f) (n * r + j) = byte_at ?f j"
        using j stream_later[OF r(1), of n "keccak_f f" j] by (simp add: stream_first funpow_swap1)
      then show "map (byte_at (KeccakF1600_StatePermute s)) [0..<?i] ! j = map (stream r (keccak_f f)) [n * r..<n * r + ?i] ! j"
        using j r l[of "Suc n"] unfolding p by (simp add: byte_at_append del: funpow.simps)
    qed simp
    show ?thesis
    proof (cases "d \<le> r")
      case True
      then have i: "?i = d" by simp
      have "(n * r + d + r - 1) div r = Suc n" using round_up[OF r(1) _ True, of n] False by simp
      then have "squeezed r f (n * r + d) ?s"
        unfolding squeezed_def s' unfolding i using l[of "Suc n"] True by (simp add: nth_append del: funpow.simps)
      then show ?thesis using False True r h
        unfolding keccak_inc_squeeze_loop.simps[of d s r] Let_def i by (simp add: keccak_inc_squeeze_loop.simps[of 0])
    next
      case F: False
      then have i: "?i = r" by simp
      have "\<exists>s'. keccak_inc_squeeze_loop (d - ?i) ?s r = Some (map (stream r (keccak_f f)) [Suc n * r..<Suc n * r + (d - ?i)], s') \<and>
        squeezed r f (Suc n * r + (d - ?i)) s'"
        by (rule 1(1)[OF False _ refl refl refl refl 1(2,3)])
          (use r l[of "Suc n"] s' i in \<open>simp_all add: nth_append del: funpow.simps\<close>)
      moreover have "Suc n * r + (d - r) = n * r + d" using F by simp
      ultimately obtain s'' where s'': "keccak_inc_squeeze_loop (d - r) ?s r = Some (map (stream r (keccak_f f)) [Suc n * r..<n * r + d], s'')"
        "squeezed r f (n * r + d) s''" unfolding i by auto
      have "[n * r..<n * r + d] = [n * r..<n * r + r] @ [Suc n * r..<n * r + d]"
        using upt_add_eq_append[of "n * r" "n * r + r" "d - r"] F by (simp add: add.commute)
      then have "map (stream r (keccak_f f)) [n * r..<n * r + d] =
        map (stream r (keccak_f f)) [n * r..<n * r + r] @ map (stream r (keccak_f f)) [Suc n * r..<n * r + d]" by simp
      then show ?thesis using False r h s''
        unfolding keccak_inc_squeeze_loop.simps[of d s r] Let_def i by simp
    qed
  qed
qed

lemma keccak_inc_squeeze_squeezed:
  assumes "rate r" "length f = 25" "squeezed r f k s"
  shows "\<exists>s'. keccak_inc_squeeze d s r = Some (map (stream r (keccak_f f)) [k..<k + d], s') \<and> squeezed r f (k + d) s'"
proof -
  have r: "0 < r" "r < 200" using assms(1) by (simp_all add: rate_def)
  have l: "length ((keccak_f ^^ k) f) = 25" for k using assms(2) by (induction k) simp_all
  let ?n = "(k + r - 1) div r"
  let ?c = "?n * r - k"
  have n: "k \<le> ?n * r" "?n * r < k + r"
    using div_mult_mod_eq[of "k + r - 1" r] mod_less_divisor[OF r(1), of "k + r - 1"] r(1) by linarith+
  then have c: "?c < r" by linarith
  have s: "length s = 26" "take 25 s = (keccak_f ^^ ?n) f" "s ! 25 = of_nat ?c" using assms(3) by (simp_all add: squeezed_def)
  have u: "unat (s ! 25) = ?c" unfolding s(3) using c r by (intro unat_count) linarith
  let ?i = "min d ?c"
  have st: "byte_at s (r - ?c + j) = stream r (keccak_f f) (k + j)" if j: "j < ?i" for j
  proof -
    have "?n \<noteq> 0" using j by (cases "?n = 0") auto
    then obtain m where m: "?n = Suc m" using not0_implies_Suc by blast
    have "j < ?c" using j by simp
    then have b: "r - ?c + j < r" using c by linarith
    have "k + j = m * r + (r - ?c + j)" using m n j by simp
    then have "stream r (keccak_f f) (k + j) = byte_at ((keccak_f ^^ ?n) f) (r - ?c + j)"
      using stream_later[OF r(1), of m "keccak_f f" "r - ?c + j"] b unfolding m by (simp add: stream_first funpow_swap1)
    also have "\<dots> = byte_at s (r - ?c + j)" unfolding s(2)[symmetric] using b r by (intro byte_at_take) simp
    finally show ?thesis by simp
  qed
  have h: "map (\<lambda>j. byte_at s (r - ?c + j)) [0..<?i] = map (stream r (keccak_f f)) [k..<k + ?i]"
    using st by (intro nth_equalityI) simp_all
  let ?s = "s[25 := s ! 25 - of_nat ?i]"
  have z: "s ! 25 - of_nat ?i = of_nat (?c - ?i)" unfolding s(3) by (rule of_nat_diff[symmetric]) simp
  have "\<exists>s'. keccak_inc_squeeze_loop (d - ?i) ?s r = Some (map (stream r (keccak_f f)) [k + ?i..<k + d], s') \<and> squeezed r f (k + d) s'"
  proof (cases "d \<le> ?c")
    case True
    then have i: "?i = d" by simp
    have "(k + d + r - 1) div r = ?n"
    proof (cases "d = 0")
      case False
      have a: "k + d + r - 1 = ?n * r + (k + d + r - 1 - ?n * r)" "k + d + r - 1 - ?n * r < r" using n True False by linarith+
      show ?thesis by (subst a(1)) (use a(2) in simp)
    qed simp
    then have "squeezed r f (k + d) ?s" unfolding squeezed_def z unfolding i using s True by (simp del: of_nat_diff)
    then show ?thesis unfolding i by (simp add: keccak_inc_squeeze_loop.simps[of 0])
  next
    case False
    then have i: "?i = ?c" by simp
    have k: "k + ?c = ?n * r" "?n * r + (d - ?c) = k + d" using n False by linarith+
    have "take 25 ?s = (keccak_f ^^ ?n) f" "?s ! 25 = 0" "length ?s = 26" unfolding z i using s by simp_all
    then have "\<exists>s'. keccak_inc_squeeze_loop (d - ?c) ?s r = Some (map (stream r (keccak_f f)) [?n * r..<?n * r + (d - ?c)], s') \<and>
        squeezed r f (?n * r + (d - ?c)) s'"
      by (intro squeeze_loop[OF assms(1,2)])
    then show ?thesis unfolding k(2) i k(1) .
  qed
  then obtain s' where s': "keccak_inc_squeeze_loop (d - ?i) ?s r = Some (map (stream r (keccak_f f)) [k + ?i..<k + d], s')" "squeezed r f (k + d) s'" by blast
  have "[k..<k + d] = [k..<k + ?i] @ [k + ?i..<k + d]"
    using upt_add_eq_append[of k "k + ?i" "d - ?i"] by simp
  then show ?thesis unfolding keccak_inc_squeeze_def Let_def u h s'(1) using s'(2) by simp
qed

text \<open>A message absorbed in pieces, an output squeezed in pieces.\<close>

primrec shake256_absorb_pieces :: "u8 list list \<Rightarrow> u64 list \<Rightarrow> u64 list option" where
  "shake256_absorb_pieces [] s = Some s"
| "shake256_absorb_pieces (m # ms) s = do { s \<leftarrow> shake256_inc_absorb s m; shake256_absorb_pieces ms s }"

primrec shake256_squeeze_pieces :: "nat list \<Rightarrow> u64 list \<Rightarrow> u8 list option" where
  "shake256_squeeze_pieces [] s = Some []"
| "shake256_squeeze_pieces (d # ds) s = do {
     (h, s) \<leftarrow> shake256_inc_squeeze d s;
     h' \<leftarrow> shake256_squeeze_pieces ds s;
     Some (h @ h')
   }"

lemma absorb_pieces:
  "absorbed SHAKE256_RATE m s \<Longrightarrow> \<exists>s'. shake256_absorb_pieces ms s = Some s' \<and> absorbed SHAKE256_RATE (m @ concat ms) s'"
proof (induction ms arbitrary: m s)
  case (Cons x ms)
  obtain s1 where "keccak_inc_absorb SHAKE256_RATE x s = Some s1" "absorbed SHAKE256_RATE (m @ x) s1"
    using keccak_inc_absorb_absorbed[OF rates(2) Cons.prems] by blast
  then show ?case using Cons.IH[of "m @ x" s1] by (simp add: shake256_inc_absorb_def)
qed simp

lemma squeeze_pieces:
  assumes "length f = 25"
  shows "squeezed SHAKE256_RATE f k s \<Longrightarrow> shake256_squeeze_pieces ds s = Some (map (stream SHAKE256_RATE (keccak_f f)) [k..<k + sum_list ds])"
proof (induction ds arbitrary: k s)
  case (Cons d ds)
  obtain s1 where s1: "keccak_inc_squeeze d s SHAKE256_RATE = Some (map (stream SHAKE256_RATE (keccak_f f)) [k..<k + d], s1)"
    "squeezed SHAKE256_RATE f (k + d) s1"
    using keccak_inc_squeeze_squeezed[OF rates(2) assms Cons.prems] by blast
  have "[k..<k + (d + sum_list ds)] = [k..<k + d] @ [k + d..<k + d + sum_list ds]" 
    using upt_add_eq_append[of k "k + d" "sum_list ds"] by (simp only: add.assoc)
  then show ?case using s1 Cons.IH[OF s1(2)] by (simp add: shake256_inc_squeeze_def)
qed simp

text \<open>C38: The incremental interface computes the same function: whatever pieces the message is absorbed in and
  whatever pieces the output is squeezed in, the bytes are those of \<open>shake256\<close> on the whole.\<close>

theorem shake256_incremental:
  "do { s \<leftarrow> shake256_absorb_pieces ms shake256_inc_init; shake256_squeeze_pieces ds (shake256_inc_finalize s) } =
    shake256 (sum_list ds) (concat ms)"
proof -
  obtain s where s: "shake256_absorb_pieces ms shake256_inc_init = Some s" "absorbed SHAKE256_RATE (concat ms) s"
    using absorb_pieces[OF absorbed_init[OF rates(2)]] by (auto simp: shake256_inc_init_def)
  let ?f = "last_state SHAKE256_RATE (concat ms) 0x1F"
  have "squeezed SHAKE256_RATE ?f 0 (?f @ [0])"
    by (simp add: squeezed_def nth_append SHAKE256_RATE_def)
  then have "shake256_squeeze_pieces ds (?f @ [0]) = Some (map (stream SHAKE256_RATE (keccak_f ?f)) [0..<0 + sum_list ds])"
    by (rule squeeze_pieces[OF length_last_state])
  then show ?thesis
    unfolding s(1) Option.bind_lunit shake256_inc_finalize_def finalize_absorbed[OF rates(2) s(2)] shake256_spec sponge_stream[OF rates(2)]
    by (simp only: add_0)
qed

lemma sha3_sponge:
  "sha3_256 input = Some (sponge SHA3_256_RATE 0x06 input 32)"
  "sha3_384 input = Some (sponge SHA3_384_RATE 0x06 input 48)"
  "sha3_512 input = Some (sponge SHA3_512_RATE 0x06 input 64)"
proof -
  have *: "map ((!) (map g [0..<m])) [0..<d] = map g [0..<d]" if "d \<le> m" for g :: "nat \<Rightarrow> u8" and m d :: nat
    using that by (intro nth_equalityI) simp_all
  show "sha3_256 input = Some (sponge SHA3_256_RATE 0x06 input 32)"
    "sha3_384 input = Some (sponge SHA3_384_RATE 0x06 input 48)"
    "sha3_512 input = Some (sponge SHA3_512_RATE 0x06 input 64)"
    unfolding sha3_256_def sha3_384_def sha3_512_def keccak_absorb_last[OF rates(3) suffixes(2)]
      keccak_absorb_last[OF rates(4) suffixes(2)] keccak_absorb_last[OF rates(5) suffixes(2)] Option.bind_lunit
      squeezeblocks[OF rates(3) length_last_state] squeezeblocks[OF rates(4) length_last_state] squeezeblocks[OF rates(5) length_last_state]
      sponge_stream[OF rates(3)] sponge_stream[OF rates(4)] sponge_stream[OF rates(5)] Let_def prod.case
    by (simp_all add: * SHA3_256_RATE_def SHA3_384_RATE_def SHA3_512_RATE_def)
qed

end
