(* ===== verification/McNetwork.thy ===== *)
theory McNetwork
  imports McBenes
begin

text \<open>
  Networks of comparisons, and the network of the three sorting routines of Classic McEliece: Batcher's merge exchange, whose
  comparisons the code makes in another order (\<open>merge_reorder\<close>). That the network sorts (\<open>network_sorts\<close>) follows by the
  principle of zeros and ones: it is enough to follow sequences of bits, and of a sorted sequence of bits only the number
  of zeros matters.
\<close>

section \<open>Comparisons\<close>

definition cmpx :: "nat \<times> nat \<Rightarrow> 'a::linorder list \<Rightarrow> 'a list" where
  "cmpx c x = x[fst c := min (x ! fst c) (x ! snd c), snd c := max (x ! fst c) (x ! snd c)]"

lemma length_cmpx [simp]: "length (cmpx c x) = length x"
  by (simp add: cmpx_def)

lemma length_fold_cmpx [simp]: "length (fold cmpx cs x) = length x"
  by (simp add: length_fold_upd)

text \<open>Comparisons of one pass, in the order of the code: \<open>p = 2 ^ s\<close>, \<open>top = 2 ^ t\<close>.\<close>

definition first_pairs :: "nat \<Rightarrow> nat \<Rightarrow> (nat \<times> nat) list" where
  "first_pairs s n = map (\<lambda>i. (i, i + 2 ^ s)) (filter (\<lambda>i. \<not> bit i s) [0..<n - 2 ^ s])"

definition merge_at :: "nat \<Rightarrow> nat \<Rightarrow> nat \<Rightarrow> nat \<Rightarrow> (nat \<times> nat) list" where
  "merge_at s t n i =
     (if bit i s then [] else map (\<lambda>j. (i + 2 ^ s, i + 2 ^ j)) (filter (\<lambda>j. i + 2 ^ j < n) (rev [Suc s..<Suc t])))"

definition merge_code :: "nat \<Rightarrow> nat \<Rightarrow> nat \<Rightarrow> (nat \<times> nat) list" where
  "merge_code s t n = concat (map (merge_at s t n) [0..<n - 2 ^ Suc s])"

text \<open>In the order of Batcher: all comparisons of one distance after the other.\<close>

definition merge_row :: "nat \<Rightarrow> nat \<Rightarrow> nat \<Rightarrow> (nat \<times> nat) list" where
  "merge_row s n j = map (\<lambda>i. (i + 2 ^ s, i + 2 ^ j)) (filter (\<lambda>i. \<not> bit i s \<and> i + 2 ^ j < n) [0..<n - 2 ^ Suc s])"

definition merge_batcher :: "nat \<Rightarrow> nat \<Rightarrow> nat \<Rightarrow> (nat \<times> nat) list" where
  "merge_batcher s t n = concat (map (merge_row s n) (rev [Suc s..<Suc t]))"

subsection \<open>Reordering\<close>

lemma cmpx_commute:
  assumes "i \<noteq> k" "i \<noteq> l" "j \<noteq> k" "j \<noteq> l"
  shows "cmpx (i, j) (cmpx (k, l) x) = cmpx (k, l) (cmpx (i, j) x)"
  using assms by (auto simp: cmpx_def list_update_swap)

text \<open>Two nested loops may be exchanged if the steps that change places commute.\<close>

lemma fold_steps_commute:
  assumes "\<And>y. y \<in> set ys \<Longrightarrow> f x \<circ> f y = f y \<circ> f x"
  shows "f x \<circ> fold f ys = fold f ys \<circ> f x"
  using assms by (induction ys) (auto simp: fun_eq_iff)

lemma fold_lists_commute:
  assumes "\<And>x y. x \<in> set xs \<Longrightarrow> y \<in> set ys \<Longrightarrow> f x \<circ> f y = f y \<circ> f x"
  shows "fold f xs \<circ> fold f ys = fold f ys \<circ> fold f xs"
  using assms
proof (induction xs)
  case (Cons x xs)
  then show ?case using fold_steps_commute[of ys f x] by (auto simp: fun_eq_iff)
qed simp

lemma exchange_loops:
  assumes "sorted_wrt (<) us" "sorted_wrt (>) js"
    and "\<And>i i' j j' x y. i \<in> set us \<Longrightarrow> i' \<in> set us \<Longrightarrow> i < i' \<Longrightarrow> j \<in> set js \<Longrightarrow> j' \<in> set js \<Longrightarrow> j < j' \<Longrightarrow>
      x \<in> set (C (i :: nat) (j :: nat)) \<Longrightarrow> y \<in> set (C i' j') \<Longrightarrow> f x \<circ> f y = f y \<circ> f x"
  shows "fold f (concat (map (\<lambda>i. concat (map (C i) js)) us)) = fold f (concat (map (\<lambda>j. concat (map (\<lambda>i. C i j) us)) js))"
  using assms
proof (induction us)
  case Nil
  then show ?case by (induction js) (simp_all add: fun_eq_iff)
next
  case (Cons i us)
  have ih: "fold f (concat (map (\<lambda>i. concat (map (C i) js)) us)) = fold f (concat (map (\<lambda>j. concat (map (\<lambda>i. C i j) us)) js))"
    by (rule Cons.IH) (use Cons.prems(1,2) in simp, use Cons.prems(2) in simp, meson Cons.prems(3) list.set_intros(2))
  have "fold f (concat (map (\<lambda>j. C i j @ concat (map (\<lambda>i. C i j) us)) js)) =
    fold f (concat (map (\<lambda>j. concat (map (\<lambda>i. C i j) us)) js)) \<circ> fold f (concat (map (C i) js))"
    using Cons.prems(2,3)
  proof (induction js)
    case (Cons j js)
    have c: "fold f (concat (map (\<lambda>i. C i j) us)) \<circ> fold f (concat (map (C i) js)) = fold f (concat (map (C i) js)) \<circ> fold f (concat (map (\<lambda>i. C i j) us))"
    proof (rule fold_lists_commute)
      fix x y
      assume "x \<in> set (concat (map (\<lambda>i. C i j) us))" "y \<in> set (concat (map (C i) js))"
      then obtain i' j' where "i' \<in> set us" "x \<in> set (C i' j)" "j' \<in> set js" "y \<in> set (C i j')" by auto
      moreover from this have "i < i'" "j' < j" using \<open>sorted_wrt (<) (i # us)\<close> Cons.prems(1) by auto
      ultimately have "f y \<circ> f x = f x \<circ> f y" by (intro Cons.prems(2)[of i i' j' j y x]) simp_all
      then show "f x \<circ> f y = f y \<circ> f x" by (rule sym)
    qed
    have h: "fold f (concat (map (\<lambda>j. C i j @ concat (map (\<lambda>i. C i j) us)) js)) =
      fold f (concat (map (\<lambda>j. concat (map (\<lambda>i. C i j) us)) js)) \<circ> fold f (concat (map (C i) js))"
      by (rule Cons.IH) (use Cons.prems(1) in simp, meson Cons.prems(2) list.set_intros(2))
    show ?case using c h by (simp add: fun_eq_iff)
  qed simp
  then show ?case using ih by (simp add: fun_eq_iff)
qed

lemma merge_reorder: "fold cmpx (merge_code s t n) = (fold cmpx (merge_batcher s t n) :: 'a::linorder list \<Rightarrow> 'a list)"
proof -
  define C where "C i j = (if \<not> bit i s \<and> i + 2 ^ j < n then [(i + 2 ^ s, i + 2 ^ j)] else [])" for i j :: nat
  have filt: "map g (filter P xs) = concat (map (\<lambda>x. if P x then [g x] else []) xs)" for g :: "nat \<Rightarrow> nat \<times> nat" and P xs
    by (induction xs) simp_all
  have m: "merge_at s t n i = concat (map (C i) (rev [Suc s..<Suc t]))" for i
    unfolding merge_at_def filt C_def by (cases "bit i s") (simp_all add: concat_eq_Nil_conv)
  have r: "merge_row s n j = concat (map (\<lambda>i. C i j) [0..<n - 2 ^ Suc s])" for j
    unfolding merge_row_def filt C_def ..
  have c: "cmpx x \<circ> cmpx y = (cmpx y \<circ> cmpx x :: 'a list \<Rightarrow> 'a list)"
    if "i < i'" "j < j'" "s < j" "x \<in> set (C i j)" "y \<in> set (C i' j')" for i i' j j' x y
  proof -
    have x: "x = (i + 2 ^ s, i + 2 ^ j)" "\<not> bit i s" and y: "y = (i' + 2 ^ s, i' + 2 ^ j')" "\<not> bit i' s"
      using that(4,5) by (auto simp: C_def split: if_splits)
    have "bit (k + 2 ^ l) s = bit k s" if "s < l" for k l :: nat
    proof -
      have "(2 :: nat) ^ l = 2 ^ s * 2 ^ (l - s)" using that by (simp flip: power_add)
      then have "(k + 2 ^ l) div 2 ^ s = k div 2 ^ s + 2 ^ (l - s)" by simp
      then show ?thesis using that by (simp add: bit_iff_odd)
    qed
    then have b: "\<not> bit (i + 2 ^ j) s" "\<not> bit (i' + 2 ^ j') s" using x(2) y(2) that by auto
    have b': "bit (i + 2 ^ s) s" "bit (i' + 2 ^ s) s" using x(2) y(2) bit_nat_add by auto
    have "(2 :: nat) ^ j < 2 ^ j'" using that(2) by (intro power_strict_increasing) simp_all
    then have "i + 2 ^ s \<noteq> i' + 2 ^ s" "i + 2 ^ j \<noteq> i' + 2 ^ j'" using that(1) by linarith+
    moreover have "i + 2 ^ s \<noteq> i' + 2 ^ j'" "i + 2 ^ j \<noteq> i' + 2 ^ s" using b b' by metis+
    ultimately show ?thesis unfolding x(1) y(1) by (auto simp: fun_eq_iff intro!: cmpx_commute)
  qed
  have so: "sorted_wrt (>) (rev [Suc s..<Suc t])" unfolding sorted_wrt_rev by (simp del: upt_Suc)
  show ?thesis unfolding merge_code_def merge_batcher_def m r
  proof (rule exchange_loops)
    fix i i' j j' x y
    assume "i < i'" "j < j'" "j \<in> set (rev [Suc s..<Suc t])" "x \<in> set (C i j)" "y \<in> set (C i' j')"
    then show "cmpx x \<circ> cmpx y = (cmpx y \<circ> cmpx x :: 'a list \<Rightarrow> 'a list)" by (intro c[of i i' j j']) (simp_all del: upt_Suc)
  qed (use so in simp_all)
qed

subsection \<open>Steps on disjoint pairs\<close>

lemma cmpx_upd_pair: "cmpx c x = upd_pair fst snd (\<lambda>_ a b. min a b) (\<lambda>_ a b. max a b) c x"
  by (simp add: cmpx_def upd_pair_def)

lemma cmpx_row:
  fixes x :: "'a::linorder list"
  assumes d: "distinct is'" "\<forall>i\<in>set is'. \<not> bit (g i) s \<and> bit (h i) s \<or> bit (g i) s \<and> \<not> bit (h i) s"
    and inj: "inj g" "inj h" and same: "\<forall>i\<in>set is'. \<forall>k\<in>set is'. bit (g i) s = bit (g k) s"
    and len: "\<forall>i\<in>set is'. g i < length x \<and> h i < length x"
  shows "i \<in> set is' \<Longrightarrow> fold cmpx (map (\<lambda>i. (g i, h i)) is') x ! g i = min (x ! g i) (x ! h i)"
    "i \<in> set is' \<Longrightarrow> fold cmpx (map (\<lambda>i. (g i, h i)) is') x ! h i = max (x ! g i) (x ! h i)"
    "e \<notin> g ` set is' \<Longrightarrow> e \<notin> h ` set is' \<Longrightarrow> fold cmpx (map (\<lambda>i. (g i, h i)) is') x ! e = x ! e"
proof -
  let ?ps = "map (\<lambda>i. (g i, h i)) is'"
  have "distinct (map g is' @ map h is')"
  proof -
    have "g i \<noteq> h k" if "i \<in> set is'" "k \<in> set is'" for i k using d(2) same that by metis
    moreover have "inj_on g (set is')" "inj_on h (set is')" using inj by (auto simp: inj_on_def)
    ultimately show ?thesis using d(1) by (auto simp: distinct_map)
  qed
  then have dis: "distinct (map fst ?ps @ map snd ?ps)" by (simp add: comp_def)
  have l: "\<forall>p\<in>set ?ps. fst p < length x \<and> snd p < length x" using len by auto
  have f: "fold cmpx ?ps x = fold (upd_pair fst snd (\<lambda>_ a b. min a b) (\<lambda>_ a b. max a b)) ?ps x"
    unfolding cmpx_upd_pair[abs_def] ..
  note u = fold_upd_pair(2-4)[OF dis l, of _ "\<lambda>_ a b. min a b" "\<lambda>_ a b. max a b"]
  show "i \<in> set is' \<Longrightarrow> fold cmpx ?ps x ! g i = min (x ! g i) (x ! h i)"
    unfolding f using u(1)[of "(g i, h i)"] by auto
  show "i \<in> set is' \<Longrightarrow> fold cmpx ?ps x ! h i = max (x ! g i) (x ! h i)"
    unfolding f using u(2)[of "(g i, h i)"] by auto
  show "e \<notin> g ` set is' \<Longrightarrow> e \<notin> h ` set is' \<Longrightarrow> fold cmpx ?ps x ! e = x ! e"
    unfolding f using u(3)[of e] by (auto simp: image_image)
qed

text \<open>The elements of one class modulo \<open>2 ^ s\<close>: those with bit \<open>s\<close> clear and those with it set.\<close>

abbreviation evens :: "nat \<Rightarrow> nat \<Rightarrow> nat \<Rightarrow> nat" where
  "evens s c k \<equiv> c + k * 2 ^ Suc s"

abbreviation odds :: "nat \<Rightarrow> nat \<Rightarrow> nat \<Rightarrow> nat" where
  "odds s c k \<equiv> c + 2 ^ s + k * 2 ^ Suc s"

lemma bit_evens: "c < 2 ^ s \<Longrightarrow> \<not> bit (evens s c k) s" "c < 2 ^ s \<Longrightarrow> bit (odds s c k) s"
proof -
  assume c: "c < 2 ^ s"
  then have "spread_pos s (k * 2 ^ s + c) = evens s c k" by (simp add: spread_pos_def)
  then show e: "\<not> bit (evens s c k) s" using spread_bits(1)[of s "k * 2 ^ s + c"] by simp
  have "odds s c k = evens s c k + 2 ^ s" by simp
  then show "bit (odds s c k) s" unfolding bit_nat_add[of "evens s c k" s, folded \<open>odds s c k = _\<close>] using e by metis
qed

lemma evens_odds_cases:
  obtains c k where "c < 2 ^ s" "e = evens s c k" | c k where "c < 2 ^ s" "e = odds s c k"
proof (cases "bit e s")
  case True
  then have "e = odds s (e mod 2 ^ s) (e div 2 ^ Suc s)" using bit_split[of e s] by simp
  then show thesis using that(2)[of "e mod 2 ^ s"] by simp
next
  case False
  then have "e = evens s (e mod 2 ^ s) (e div 2 ^ Suc s)" using bit_split[of e s] by simp
  then show thesis using that(1)[of "e mod 2 ^ s"] by simp
qed

lemma first_step:
  assumes c: "c < 2 ^ s" and n: "length x = n"
  shows "evens s c k < n \<Longrightarrow> fold cmpx (first_pairs s n) x ! evens s c k = (if odds s c k < n then min (x ! evens s c k) (x ! odds s c k) else x ! evens s c k)"
    "odds s c k < n \<Longrightarrow> fold cmpx (first_pairs s n) x ! odds s c k = max (x ! evens s c k) (x ! odds s c k)"
proof -
  let ?is = "filter (\<lambda>i. \<not> bit i s) [0..<n - 2 ^ s]"
  have fp: "first_pairs s n = map (\<lambda>i. (i, i + 2 ^ s)) ?is" by (simp add: first_pairs_def)
  have d: "distinct ?is" "inj (\<lambda>i :: nat. i)" "inj (\<lambda>i. i + 2 ^ s :: nat)" by (auto simp: inj_def)
  have b: "\<forall>i\<in>set ?is. \<not> bit i s \<and> bit (i + 2 ^ s) s \<or> bit i s \<and> \<not> bit (i + 2 ^ s) s" using bit_nat_add by auto
  have l: "\<forall>i\<in>set ?is. i < length x \<and> i + 2 ^ s < length x" using n by auto
  have s: "\<forall>i\<in>set ?is. \<forall>k\<in>set ?is. bit i s = bit k s" by simp
  note row = cmpx_row[OF d(1) b d(2,3) s l, folded fp]
  have o: "odds s c k = evens s c k + 2 ^ s" by simp
  have e: "evens s c k \<in> set ?is \<longleftrightarrow> odds s c k < n" using bit_evens(1)[OF c, of k] by (auto simp: less_diff_conv)
  have ne: "evens s c k \<notin> (\<lambda>i. i + 2 ^ s) ` set ?is"
    using bit_evens(1)[OF c, of k] bit_nat_add by auto
  show "evens s c k < n \<Longrightarrow> fold cmpx (first_pairs s n) x ! evens s c k = (if odds s c k < n then min (x ! evens s c k) (x ! odds s c k) else x ! evens s c k)"
  proof (cases "odds s c k < n")
    case True
    then have "evens s c k \<in> set ?is" using e by blast
    from row(1)[OF this, folded o] show ?thesis unfolding if_P[OF True] .
  next
    case False
    then have "evens s c k \<notin> (\<lambda>i. i) ` set ?is" using e by (simp only: image_ident not_False_eq_True)
    from row(3)[OF this ne] show ?thesis unfolding if_not_P[OF False] .
  qed
  show "odds s c k < n \<Longrightarrow> fold cmpx (first_pairs s n) x ! odds s c k = max (x ! evens s c k) (x ! odds s c k)"
    using row(2)[of "evens s c k"] e unfolding o by blast
qed

lemma merge_step:
  assumes c: "c < 2 ^ s" and n: "length x = n" and M: "M = 2 ^ m"
  shows "evens s c k < n \<Longrightarrow> fold cmpx (merge_row s n (Suc s + m)) x ! evens s c k =
      (if M \<le> k then max (x ! odds s c (k - M)) (x ! evens s c k) else x ! evens s c k)"
    "odds s c k < n \<Longrightarrow> fold cmpx (merge_row s n (Suc s + m)) x ! odds s c k =
      (if evens s c (k + M) < n then min (x ! odds s c k) (x ! evens s c (k + M)) else x ! odds s c k)"
proof -
  let ?j = "Suc s + m"
  let ?is = "filter (\<lambda>i. \<not> bit i s \<and> i + 2 ^ ?j < n) [0..<n - 2 ^ Suc s]"
  have fp: "merge_row s n ?j = map (\<lambda>i. (i + 2 ^ s, i + 2 ^ ?j)) ?is" unfolding merge_row_def ..
  have J: "2 ^ ?j = M * 2 ^ Suc s" by (simp add: M power_add)
  have M1: "1 \<le> M" by (simp add: M)
  have d: "distinct ?is" "inj (\<lambda>i. i + 2 ^ s :: nat)" "inj (\<lambda>i. i + 2 ^ ?j :: nat)" by (auto simp: inj_def)
  have bj: "bit (i + 2 ^ ?j) s = bit i s" for i :: nat
  proof -
    have "(2 :: nat) ^ ?j = 2 ^ s * (2 * M)" unfolding J by simp
    then have "(i + 2 ^ ?j) div 2 ^ s = 2 * M + i div 2 ^ s" by (simp only: div_mult_self2 power_not_zero zero_neq_numeral[symmetric] not_False_eq_True)
    then show ?thesis by (simp add: bit_iff_odd)
  qed
  have b: "\<forall>i\<in>set ?is. \<not> bit (i + 2 ^ s) s \<and> bit (i + 2 ^ ?j) s \<or> bit (i + 2 ^ s) s \<and> \<not> bit (i + 2 ^ ?j) s"
    using bit_nat_add bj by auto
  have sm: "\<forall>i\<in>set ?is. \<forall>k\<in>set ?is. bit (i + 2 ^ s) s = bit (k + 2 ^ s) s" using bit_nat_add by auto
  have l: "\<forall>i\<in>set ?is. i + 2 ^ s < length x \<and> i + 2 ^ ?j < length x"
    using n by auto
  note row = cmpx_row[OF d(1) b d(2,3) sm l, folded fp]
  have mem: "evens s c i \<in> set ?is \<longleftrightarrow> evens s c (i + M) < n" for i
  proof -
    have "(1 :: nat) * 2 ^ Suc s \<le> M * 2 ^ Suc s" using M1 by (intro mult_le_mono1)
    then have "evens s c i < n - 2 ^ Suc s" if "evens s c (i + M) < n"
      using that unfolding add_mult_distrib by linarith
    then show ?thesis using bit_evens(1)[OF c, of i] unfolding J by (auto simp: add_mult_distrib)
  qed
  have o: "odds s c i = evens s c i + 2 ^ s" "evens s c (i + M) = evens s c i + 2 ^ ?j" for i
    unfolding J by (simp_all add: add_mult_distrib)
  have e1: "evens s c k \<notin> (\<lambda>i. i + 2 ^ s) ` set ?is" for k
  proof
    assume "evens s c k \<in> (\<lambda>i. i + 2 ^ s) ` set ?is"
    then obtain i where "evens s c k = i + 2 ^ s" "\<not> bit i s" by auto
    then show False using bit_evens(1)[OF c, of k] bit_nat_add[of i s] by metis
  qed
  have e2: "odds s c k \<notin> (\<lambda>i. i + 2 ^ ?j) ` set ?is" for k
  proof
    assume "odds s c k \<in> (\<lambda>i. i + 2 ^ ?j) ` set ?is"
    then obtain i where "odds s c k = i + 2 ^ ?j" "\<not> bit i s" by auto
    then show False using bit_evens(2)[OF c, of k] bj[of i] by metis
  qed
  show "fold cmpx (merge_row s n ?j) x ! evens s c k = (if M \<le> k then max (x ! odds s c (k - M)) (x ! evens s c k) else x ! evens s c k)"
    if kn: "evens s c k < n"
  proof (cases "M \<le> k")
    case True
    then have mk: "evens s c (k - M) \<in> set ?is" using mem[of "k - M"] kn by simp
    from True have k: "k - M + M = k" using True by simp
    from row(2)[OF mk, folded o, unfolded k] show ?thesis unfolding if_P[OF True] .
  next
    case False
    have "evens s c k \<notin> (\<lambda>i. i + 2 ^ ?j) ` set ?is"
    proof
      assume "evens s c k \<in> (\<lambda>i. i + 2 ^ ?j) ` set ?is"
      then have "M * 2 ^ Suc s \<le> evens s c k" unfolding J by auto
      moreover have "evens s c k < M * 2 ^ Suc s"
      proof -
        have "c < 2 ^ Suc s" using c by simp
        then have "evens s c k < Suc k * 2 ^ Suc s" by simp
        also have "\<dots> \<le> M * 2 ^ Suc s" using False by (intro mult_le_mono1) simp
        finally show ?thesis .
      qed
      ultimately show False by simp
    qed
    then show ?thesis using row(3)[OF e1] False by simp
  qed
  show "fold cmpx (merge_row s n ?j) x ! odds s c k = (if evens s c (k + M) < n then min (x ! odds s c k) (x ! evens s c (k + M)) else x ! odds s c k)"
    if kn: "odds s c k < n"
  proof (cases "evens s c (k + M) < n")
    case True
    then have "evens s c k \<in> set ?is" using mem by simp
    from row(1)[OF this] show ?thesis using True unfolding o(1)[of k] o(2)[of k] by simp
  next
    case False
    have "odds s c k \<notin> (\<lambda>i. i + 2 ^ s) ` set ?is"
    proof
      assume "odds s c k \<in> (\<lambda>i. i + 2 ^ s) ` set ?is"
      then have "evens s c k \<in> set ?is" unfolding o(1) by auto
      then show False using mem False by simp
    qed
    then show ?thesis using row(3)[OF _ e2] False by simp
  qed
qed

subsection \<open>Zeros and ones\<close>

text \<open>Every class of \<open>x\<close> consists of two sorted sequences; \<open>A c\<close> and \<open>B c\<close> are their numbers of zeros.\<close>

definition zeros :: "nat \<Rightarrow> bool list \<Rightarrow> (nat \<Rightarrow> nat) \<Rightarrow> (nat \<Rightarrow> nat) \<Rightarrow> bool" where
  "zeros s x A B \<longleftrightarrow> (\<forall>c<2 ^ s. \<forall>k.
     (evens s c k < length x \<longrightarrow> x ! evens s c k = (A c \<le> k)) \<and> (A c = Suc k \<longrightarrow> evens s c k < length x) \<and>
     (odds s c k < length x \<longrightarrow> x ! odds s c k = (B c \<le> k)) \<and> (B c = Suc k \<longrightarrow> odds s c k < length x))"

definition ordered :: "nat \<Rightarrow> 'a::linorder list \<Rightarrow> bool" where
  "ordered p x \<longleftrightarrow> (\<forall>i. i + p < length x \<longrightarrow> x ! i \<le> x ! (i + p))"

lemma mono_count:
  assumes "\<And>k. D (Suc k) \<Longrightarrow> D k \<and> (y k \<longrightarrow> y (Suc k))" "\<exists>k. \<not> D k"
  shows "\<exists>A :: nat. (\<forall>k. D k \<longrightarrow> y k = (A \<le> k)) \<and> (\<forall>k. A = Suc k \<longrightarrow> D k)"
proof -
  let ?P = "\<lambda>k. \<not> D k \<or> y k"
  define A where "A = (LEAST k. ?P k)"
  obtain k0 where "\<not> D k0" using assms(2) by blast
  then have "?P k0" by simp
  then have A: "?P A" unfolding A_def by (rule LeastI)
  have down: "D (k + d) \<Longrightarrow> D k \<and> (y k \<longrightarrow> y (k + d))" for k d
    by (induction d) (use assms(1) in auto)
  have "y k = (A \<le> k)" if "D k" for k
  proof
    show "y k \<Longrightarrow> A \<le> k" unfolding A_def by (rule Least_le) simp
    assume "A \<le> k"
    then obtain d where "k = A + d" using le_Suc_ex by blast
    then show "y k" using A down[of A d] that by auto
  qed
  moreover have "D k" if "A = Suc k" for k
  proof -
    have "k < A" unfolding that by simp
    then have "\<not> ?P k" unfolding A_def by (rule not_less_Least)
    then show ?thesis by blast
  qed
  ultimately show ?thesis by (intro exI[of _ A]) blast
qed

lemma zeros_exist:
  assumes "ordered (2 ^ Suc s) (x :: bool list)"
  shows "\<exists>A B. zeros s x A B"
proof -
  let ?n = "length x"
  have big: "\<exists>k. \<not> d + k * 2 ^ Suc s < ?n" for d
  proof (intro exI[of _ ?n])
    have "?n * 1 \<le> ?n * 2 ^ Suc s" by (intro mult_le_mono2) simp
    then show "\<not> d + ?n * 2 ^ Suc s < ?n" by linarith
  qed
  have "\<exists>A. (\<forall>k. d + k * 2 ^ Suc s < ?n \<longrightarrow> x ! (d + k * 2 ^ Suc s) = (A \<le> k)) \<and> (\<forall>k. A = Suc k \<longrightarrow> d + k * 2 ^ Suc s < ?n)" for d
  proof (rule mono_count)
    fix k
    assume a: "d + Suc k * 2 ^ Suc s < ?n"
    have e: "d + Suc k * 2 ^ Suc s = (d + k * 2 ^ Suc s) + 2 ^ Suc s" by simp
    have "x ! (d + k * 2 ^ Suc s) \<le> x ! (d + Suc k * 2 ^ Suc s)"
      unfolding e by (rule assms[unfolded ordered_def, rule_format]) (rule a[unfolded e])
    moreover have "d + k * 2 ^ Suc s < ?n" using a unfolding e by (rule add_lessD1)
    ultimately show "d + k * 2 ^ Suc s < ?n \<and> (x ! (d + k * 2 ^ Suc s) \<longrightarrow> x ! (d + Suc k * 2 ^ Suc s))"
      by (simp only: le_bool_def)
  qed (rule big)
  then obtain Z where Z: "\<And>d k. d + k * 2 ^ Suc s < ?n \<Longrightarrow> x ! (d + k * 2 ^ Suc s) = (Z d \<le> k)" "\<And>d k. Z d = Suc k \<Longrightarrow> d + k * 2 ^ Suc s < ?n"
    by metis
  have "zeros s x Z (\<lambda>c. Z (c + 2 ^ s))" unfolding zeros_def using Z by blast
  then show ?thesis by blast
qed

lemma min_max_bool: "min a b = (a \<and> b)" "max a b = (a \<or> b)" for a b :: bool
  by (auto simp: min_def max_def)

lemma evens_Suc: "odds s c k < n \<Longrightarrow> evens s c k < n" "evens s c (Suc k) < n \<Longrightarrow> odds s c k < n"
  "evens s c k < n \<Longrightarrow> k' \<le> k \<Longrightarrow> evens s c k' < n"
proof -
  show "odds s c k < n \<Longrightarrow> evens s c k < n" by simp
  have "odds s c k \<le> evens s c (Suc k)" by simp
  then show "evens s c (Suc k) < n \<Longrightarrow> odds s c k < n" by linarith
  show "evens s c k < n \<Longrightarrow> k' \<le> k \<Longrightarrow> evens s c k' < n"
    by (meson add_le_cancel_left le_less_trans mult_le_mono1)
qed

lemma zeros_first:
  assumes z: "zeros s x A B" and n: "length x = n"
  shows "zeros s (fold cmpx (first_pairs s n) x) (\<lambda>c. max (A c) (B c)) (\<lambda>c. min (A c) (B c))"
  unfolding zeros_def length_fold_cmpx
proof (intro allI impI conjI)
  fix c k :: nat
  assume c: "c < 2 ^ s"
  let ?y = "fold cmpx (first_pairs s n) x"
  have E: "evens s c k < n \<Longrightarrow> x ! evens s c k = (A c \<le> k)" "A c = Suc k \<Longrightarrow> evens s c k < n"
    and O: "odds s c k < n \<Longrightarrow> x ! odds s c k = (B c \<le> k)" "B c = Suc k \<Longrightarrow> odds s c k < n" for k
    using z c n unfolding zeros_def by blast+
  have Ble: "B c \<le> k" if "\<not> odds s c k < n"
  proof (rule ccontr)
    assume "\<not> B c \<le> k"
    then obtain l where "B c = Suc l" "k \<le> l" by (metis Suc_le_D not_less_eq_eq)
    then have "odds s c l < n" "odds s c k \<le> odds s c l" using O(2) by (auto intro: mult_le_mono1)
    then show False using that by linarith
  qed
  have Ale: "A c \<le> Suc k" if "\<not> evens s c (Suc k) < n"
  proof (rule ccontr)
    assume "\<not> A c \<le> Suc k"
    then obtain l where "A c = Suc l" "Suc k \<le> l" by (metis Suc_le_D not_less_eq_eq)
    then show False using E(2)[of l] evens_Suc(3)[of c l s n "Suc k"] that by blast
  qed
  show "?y ! evens s c k = (max (A c) (B c) \<le> k)" if "evens s c k < length x"
  proof (cases "odds s c k < n")
    case True
    then show ?thesis using first_step(1)[OF c n, of k] that E(1)[of k] O(1)[of k] n by (auto simp: min_max_bool)
  next
    case False
    then show ?thesis using first_step(1)[OF c n, of k] that E(1)[of k] Ble n by auto
  qed
  show "evens s c k < length x" if "max (A c) (B c) = Suc k"
    using that E(2)[of k] O(2)[of k] evens_Suc(1)[of c s k n] n by (auto simp: max_def split: if_splits)
  show "?y ! odds s c k = (min (A c) (B c) \<le> k)" if "odds s c k < length x"
    using first_step(2)[OF c n, of k] that E(1)[of k] O(1)[of k] evens_Suc(1)[of c s k n] n by (auto simp: min_max_bool)
  show "odds s c k < length x" if m: "min (A c) (B c) = Suc k"
  proof -
    have "Suc k \<le> B c" using m by linarith
    then obtain l where l: "B c = Suc l" "k \<le> l" by (cases "B c") auto
    then have "odds s c l < n" "odds s c k \<le> odds s c l" using O(2) by (auto intro: mult_le_mono1)
    then show ?thesis using n by linarith
  qed
qed

lemma zeros_merge:
  assumes z: "zeros s x A B" and n: "length x = n" and M: "M = 2 ^ m"
  shows "zeros s (fold cmpx (merge_row s n (Suc s + m)) x) (\<lambda>c. min (A c) (B c + M)) (\<lambda>c. max (B c) (A c - M))"
  unfolding zeros_def length_fold_cmpx
proof (intro allI impI conjI)
  fix c k :: nat
  assume c: "c < 2 ^ s"
  let ?y = "fold cmpx (merge_row s n (Suc s + m)) x"
  have M1: "1 \<le> M" by (simp add: M)
  have E: "evens s c k < n \<Longrightarrow> x ! evens s c k = (A c \<le> k)" "A c = Suc k \<Longrightarrow> evens s c k < n"
    and O: "odds s c k < n \<Longrightarrow> x ! odds s c k = (B c \<le> k)" "B c = Suc k \<Longrightarrow> odds s c k < n" for k
    using z c n unfolding zeros_def by blast+
  have Ale: "A c \<le> l" if "\<not> evens s c l < n" for l
  proof (rule ccontr)
    assume "\<not> A c \<le> l"
    then obtain l' where "A c = Suc l'" "l \<le> l'" by (metis Suc_le_D not_less_eq_eq)
    then show False using E(2)[of l'] evens_Suc(3)[of c l' s n l] that by blast
  qed
  show "?y ! evens s c k = (min (A c) (B c + M) \<le> k)" if "evens s c k < length x"
  proof (cases "M \<le> k")
    case True
    have "odds s c (k - M) < n"
    proof (rule evens_Suc(2))
      show "evens s c (Suc (k - M)) < n" by (rule evens_Suc(3)[of c k s]) (use that n True M1 in simp_all)
    qed
    then show ?thesis using merge_step(1)[OF c n M, of k] that E(1)[of k] O(1)[of "k - M"] n True by (auto simp: min_max_bool)
  next
    case False
    then show ?thesis using merge_step(1)[OF c n M, of k] that E(1)[of k] n by auto
  qed
  show "evens s c k < length x" if m': "min (A c) (B c + M) = Suc k"
  proof -
    have "Suc k \<le> A c" using m' by linarith
    then obtain l where l: "A c = Suc l" "k \<le> l" by (cases "A c") auto
    then show ?thesis using E(2)[of l] evens_Suc(3)[of c l s n k] n by blast
  qed
  show "?y ! odds s c k = (max (B c) (A c - M) \<le> k)" if "odds s c k < length x"
  proof (cases "evens s c (k + M) < n")
    case True
    then show ?thesis using merge_step(2)[OF c n M, of k] that E(1)[of "k + M"] O(1)[of k] n by (auto simp: min_max_bool)
  next
    case False
    then show ?thesis using merge_step(2)[OF c n M, of k] that O(1)[of k] Ale[of "k + M"] n by auto
  qed
  show "odds s c k < length x" if m': "max (B c) (A c - M) = Suc k"
  proof (cases "B c = Suc k")
    case True
    then show ?thesis using O(2)[of k] n by simp
  next
    case False
    then have "A c = Suc (k + M)" using m' by (auto simp: max_def split: if_splits)
    then have "evens s c (k + M) < n" by (rule E(2))
    then have "evens s c (Suc k) < n" by (rule evens_Suc(3)) (use M1 in simp)
    then show ?thesis using evens_Suc(2) n by blast
  qed
qed

lemma merge_zeros:
  assumes "s \<le> t" "length x = n" "zeros s x A B" "\<forall>c<2 ^ s. B c \<le> A c \<and> A c \<le> B c + 2 ^ (t - s)"
  shows "\<exists>A B. zeros s (fold cmpx (merge_batcher s t n) x) A B \<and> (\<forall>c<2 ^ s. B c \<le> A c \<and> A c \<le> B c + 1)"
  using assms
proof (induction "t - s" arbitrary: t x A B)
  case 0
  then show ?case by (auto simp: merge_batcher_def)
next
  case (Suc d)
  then obtain u where u: "t = Suc u" "s \<le> u" "d = u - s" by (metis Suc_diff_le Suc_inject diff_Suc_Suc diff_is_0_eq' le_SucE nat.distinct(1) not0_implies_Suc zero_diff)
  let ?M = "2 ^ (u - s) :: nat"
  let ?x = "fold cmpx (merge_row s n t) x"
  have t: "t = Suc s + (u - s)" using u by simp
  have st: "fold cmpx (merge_batcher s t n) x = fold cmpx (merge_batcher s u n) ?x"
    using u by (simp add: merge_batcher_def)
  have z: "zeros s ?x (\<lambda>c. min (A c) (B c + ?M)) (\<lambda>c. max (B c) (A c - ?M))"
    by (subst t, rule zeros_merge[OF Suc.prems(3,2)]) simp
  have two: "2 ^ (t - s) = ?M + ?M" using u by (simp add: Suc_diff_le mult_2)
  have "\<forall>c<2 ^ s. max (B c) (A c - ?M) \<le> min (A c) (B c + ?M) \<and> min (A c) (B c + ?M) \<le> max (B c) (A c - ?M) + ?M"
    using Suc.prems(4) unfolding two by auto
  then show ?case unfolding st using Suc.hyps(1)[OF u(3,2) _ z] Suc.prems(2) by simp
qed

lemma ordered_zeros:
  assumes "zeros s x A B" "\<forall>c<2 ^ s. B c \<le> A c \<and> A c \<le> B c + 1"
  shows "ordered (2 ^ s) x"
  unfolding ordered_def
proof (intro allI impI)
  fix i assume i: "i + 2 ^ s < length x"
  show "x ! i \<le> x ! (i + 2 ^ s)"
  proof (cases rule: evens_odds_cases[of s i])
    case (1 c k)
    have o: "i + 2 ^ s = odds s c k" using 1 by simp
    have "x ! evens s c k = (A c \<le> k)" "x ! odds s c k = (B c \<le> k)"
      using assms(1) 1(1) i evens_Suc(1)[of c s k "length x"] unfolding zeros_def o by blast+
    moreover have "B c \<le> A c" using assms(2) 1(1) by blast
    ultimately show ?thesis unfolding o unfolding 1(2) le_bool_def by simp
  next
    case (2 c k)
    have o: "i + 2 ^ s = evens s c (Suc k)" using 2 by simp
    have "x ! odds s c k = (B c \<le> k)" "x ! evens s c (Suc k) = (A c \<le> Suc k)"
      using assms(1) 2(1) i evens_Suc(2)[of c k s "length x"] unfolding zeros_def o by blast+
    moreover have "A c \<le> B c + 1" using assms(2) 2(1) by blast
    ultimately show ?thesis unfolding o unfolding 2(2) le_bool_def by simp
  qed
qed

text \<open>One pass halves the distance of the order.\<close>

lemma pass_ordered:
  assumes x: "ordered (2 ^ Suc s) (x :: bool list)" "length x = n" "n \<le> 2 ^ Suc t" "s \<le> t"
  shows "ordered (2 ^ s) (fold cmpx (merge_batcher s t n) (fold cmpx (first_pairs s n) x))"
proof -
  obtain A B where z: "zeros s x A B" using zeros_exist[OF x(1)] by blast
  let ?y = "fold cmpx (first_pairs s n) x"
  have zy: "zeros s ?y (\<lambda>c. max (A c) (B c)) (\<lambda>c. min (A c) (B c))" by (rule zeros_first[OF z x(2)])
  have "max (A c) (B c) \<le> 2 ^ (t - s)" if c: "c < 2 ^ s" for c
  proof (cases "max (A c) (B c)")
    case (Suc k)
    then have "evens s c k < n" using zy c x(2) unfolding zeros_def by auto
    then have "k * 2 ^ Suc s < 2 ^ Suc t" using x(3) by linarith
    also have "(2 :: nat) ^ Suc t = 2 ^ (t - s) * 2 ^ Suc s" using x(4) by (simp flip: power_add)
    finally show ?thesis using Suc by simp
  qed simp
  then have "\<exists>A B. zeros s (fold cmpx (merge_batcher s t n) ?y) A B \<and> (\<forall>c<2 ^ s. B c \<le> A c \<and> A c \<le> B c + 1)"
    by (intro merge_zeros[OF x(4) _ zy]) (auto simp: x(2) intro: trans_le_add2)
  then show ?thesis using ordered_zeros by blast
qed

text \<open>The whole network; its comparisons in the order of the code.\<close>

definition network :: "nat \<Rightarrow> nat \<Rightarrow> (nat \<times> nat) list" where
  "network n t = concat (map (\<lambda>s. first_pairs s n @ merge_code s t n) (rev [0..<Suc t]))"

lemma network_sorts_bool:
  assumes "length x = n" "n \<le> 2 ^ Suc t"
  shows "sorted (fold cmpx (network n t) (x :: bool list))"
proof -
  have o: "ordered (2 ^ k) (fold cmpx (concat (map (\<lambda>s. first_pairs s n @ merge_code s t n) (rev [k..<Suc t]))) x)" if "k \<le> Suc t" for k
    using that
  proof (induction "Suc t - k" arbitrary: k)
    case 0
    then have "k = Suc t" by simp
    then show ?case using assms by (simp add: ordered_def)
  next
    case (Suc d)
    then have k: "k \<le> t" "[k..<Suc t] = k # [Suc k..<Suc t]" by (simp_all add: upt_conv_Cons del: upt_Suc)
    let ?x = "fold cmpx (concat (map (\<lambda>s. first_pairs s n @ merge_code s t n) (rev [Suc k..<Suc t]))) x"
    have "ordered (2 ^ Suc k) ?x" using Suc.hyps(1)[of "Suc k"] Suc.hyps(2) k by simp
    then have "ordered (2 ^ k) (fold cmpx (merge_batcher k t n) (fold cmpx (first_pairs k n) ?x))"
      using assms k by (intro pass_ordered) simp_all
    then show ?case by (simp add: k(2) merge_reorder del: upt_Suc)
  qed
  from o[of 0] have "ordered 1 (fold cmpx (network n t) x)" by (simp add: network_def del: upt_Suc)
  then show ?thesis unfolding ordered_def sorted_iff_nth_Suc by simp
qed

text \<open>The principle of zeros and ones.\<close>

lemma map_cmpx:
  assumes "mono f" "fst c < length x" "snd c < length x"
  shows "map f (cmpx c x) = cmpx c (map f x)"
  using assms by (simp add: cmpx_def map_update min_of_mono max_of_mono)

lemma map_fold_cmpx:
  assumes "mono f" "\<forall>c\<in>set cs. fst c < length x \<and> snd c < length x"
  shows "map f (fold cmpx cs x) = fold cmpx cs (map f x)"
  using assms(2) by (induction cs arbitrary: x) (simp_all add: map_cmpx[OF assms(1)])

lemma network_range: "c \<in> set (network n t) \<Longrightarrow> fst c < n \<and> snd c < n"
proof -
  have "fst c < n \<and> snd c < n" if c: "c \<in> set (merge_code s t n)" for s
  proof -
    obtain i j where i: "i < n - 2 ^ Suc s" "c = (i + 2 ^ s, i + 2 ^ j)" "i + 2 ^ j < n"
      using c by (auto simp: merge_code_def merge_at_def split: if_splits)
    moreover have "(2 :: nat) ^ s \<le> 2 ^ Suc s" by simp
    ultimately show ?thesis by auto
  qed
  moreover have "c \<in> set (first_pairs s n) \<Longrightarrow> fst c < n \<and> snd c < n" for s by (auto simp: first_pairs_def)
  ultimately show "c \<in> set (network n t) \<Longrightarrow> fst c < n \<and> snd c < n" by (auto simp: network_def simp del: upt_Suc)
qed

lemma network_sorts:
  fixes x :: "'a::linorder list"
  assumes "length x = n" "n \<le> 2 ^ Suc t"
  shows "sorted (fold cmpx (network n t) x)"
proof (rule ccontr)
  let ?y = "fold cmpx (network n t) x"
  assume "\<not> sorted ?y"
  then obtain i where i: "Suc i < length ?y" "?y ! Suc i < ?y ! i" by (auto simp: sorted_iff_nth_Suc not_le)
  define f where "f v = (?y ! Suc i < v)" for v
  have m: "mono f" by (auto simp: mono_def f_def le_bool_def)
  have "sorted (map f ?y)"
  proof -
    have "map f ?y = fold cmpx (network n t) (map f x)"
      by (rule map_fold_cmpx[OF m]) (use network_range assms(1) in blast)
    then show ?thesis using network_sorts_bool[of "map f x" n t] assms by simp
  qed
  then have "map f ?y ! i \<le> map f ?y ! Suc i" using i(1) by (auto simp: sorted_iff_nth_Suc)
  then show False using i by (simp add: f_def le_bool_def)
qed

end
