(* ===== verification/McSort.thy ===== *)
theory McSort
  imports McNetwork "HOL-Library.Multiset"
begin

text \<open>
  The sorting routines of Classic McEliece, \<open>int32_sort.h\<close>, \<open>uint16_sort.h\<close> and \<open>uint64_sort.h\<close>: three copies of
  one network (\<open>sort_network\<close>) that differ in the comparison \<open>MINMAX\<close>, here a parameter. The locale \<open>minmax\<close> says what a
  comparison promises, and in it the routine is proved to sort; the three comparisons of the code are its instances.
\<close>

section \<open>The code\<close>

text \<open>\<open>for (q = hi; q > lo; q >>= 1)\<close>.\<close>

function for_halves :: "nat \<Rightarrow> nat \<Rightarrow> (nat \<Rightarrow> 's \<Rightarrow> 's option) \<Rightarrow> 's \<Rightarrow> 's option" where
  "for_halves lo q f s = (if lo < q then do { s \<leftarrow> f q s; for_halves lo (drop_bit 1 q) f s } else Some s)"
  by pat_completeness auto
termination by (relation "measure (\<lambda>(lo, q, f, s). q)") (auto simp: drop_bit_eq_div)

declare for_halves.simps [simp del]

text \<open>\<open>while (top < n - top) top += top\<close>; \<open>tp\<close> is \<open>top\<close>.\<close>

function sort_top :: "nat \<Rightarrow> nat \<Rightarrow> nat" where
  "sort_top n tp = (if 0 < tp \<and> tp < n - tp then sort_top n (tp + tp) else tp)"
  by pat_completeness auto
termination by (relation "measure (\<lambda>(n, tp). n - tp)") auto

declare sort_top.simps [simp del]

definition minmax_at :: "('a \<Rightarrow> 'a \<Rightarrow> ('a \<times> 'a) option) \<Rightarrow> nat \<Rightarrow> nat \<Rightarrow> 'a list \<Rightarrow> 'a list option" where
  "minmax_at MINMAX i j x = do {
     a \<leftarrow> rd x i;
     b \<leftarrow> rd x j;
     (a, b) \<leftarrow> MINMAX a b;
     x \<leftarrow> wr x i a;
     wr x j b
   }"

definition sort_inner :: "('a \<Rightarrow> 'a \<Rightarrow> ('a \<times> 'a) option) \<Rightarrow> nat \<Rightarrow> nat \<Rightarrow> nat \<Rightarrow> 'a list \<Rightarrow> 'a list option" where
  "sort_inner MINMAX p q i x = do {
     a \<leftarrow> rd x (i + p);
     (a, x) \<leftarrow> for_halves p q (\<lambda>r (a, x). do {
        b \<leftarrow> rd x (i + r);
        (a, b) \<leftarrow> MINMAX a b;
        x \<leftarrow> wr x (i + r) b;
        Some (a, x) }) (a, x);
     wr x (i + p) a
   }"

definition sort_pass :: "('a \<Rightarrow> 'a \<Rightarrow> ('a \<times> 'a) option) \<Rightarrow> nat \<Rightarrow> nat \<Rightarrow> nat \<Rightarrow> 'a list \<Rightarrow> 'a list option" where
  "sort_pass MINMAX n tp p x = do {
     x \<leftarrow> for_range 0 (n - p) (\<lambda>i x. if i AND p = 0 then minmax_at MINMAX i (i + p) x else Some x) x;
     (i, x) \<leftarrow> for_halves p tp (\<lambda>q (i, x). do {
        x \<leftarrow> for_range i (n - q) (\<lambda>i x. if i AND p = 0 then sort_inner MINMAX p q i x else Some x) x;
        Some (max i (n - q), x) }) (0, x);
     Some x
   }"

definition sort_network :: "('a \<Rightarrow> 'a \<Rightarrow> ('a \<times> 'a) option) \<Rightarrow> 'a list \<Rightarrow> nat \<Rightarrow> 'a list option" where
  "sort_network MINMAX x n =
     (if n < 2 then Some x
      else (let tp = sort_top n 1 in for_halves 0 tp (\<lambda>p x. sort_pass MINMAX n tp p x) x))"

definition int32_MINMAX :: "s32 \<Rightarrow> s32 \<Rightarrow> (s32 \<times> s32) option" where
  "int32_MINMAX a b = do {
     let ab = b XOR a;
     c \<leftarrow> chk32 (sint b - sint a);
     let c = (word_of_int c :: s32);
     let c = c XOR (ab AND (c XOR b));
     let c = signed_drop_bit 31 c;
     let c = c AND ab;
     Some (a XOR c, b XOR c)
   }"

definition uint16_MINMAX :: "u16 \<Rightarrow> u16 \<Rightarrow> (u16 \<times> u16) option" where
  "uint16_MINMAX a b =
     (let c = b - a; c = drop_bit 15 c; c = - c; c = c AND (a XOR b) in Some (a XOR c, b XOR c))"

definition uint64_MINMAX :: "u64 \<Rightarrow> u64 \<Rightarrow> (u64 \<times> u64) option" where
  "uint64_MINMAX a b =
     (let c = b - a; c = drop_bit 63 c; c = - c; c = c AND (a XOR b) in Some (a XOR c, b XOR c))"

definition int32_sort :: "s32 list \<Rightarrow> nat \<Rightarrow> s32 list option" where
  "int32_sort x n = sort_network int32_MINMAX x n"

text \<open>In \<open>uint16_sort\<close> the variable of the inner loop is an \<open>int16_t\<close>: the same 16 bits, and the comparison reads
  nothing but bits modulo \<open>2\<^sup>1\<^sup>6\<close>.\<close>

definition uint16_sort :: "u16 list \<Rightarrow> nat \<Rightarrow> u16 list option" where
  "uint16_sort x n = sort_network uint16_MINMAX x n"

definition uint64_sort :: "u64 list \<Rightarrow> nat \<Rightarrow> u64 list option" where
  "uint64_sort x n = sort_network uint64_MINMAX x n"

section \<open>Loops as lists of steps\<close>

primrec opt_fold :: "('c \<Rightarrow> 's \<Rightarrow> 's option) \<Rightarrow> 'c list \<Rightarrow> 's \<Rightarrow> 's option" where
  "opt_fold f [] s = Some s"
| "opt_fold f (c # cs) s = do { s \<leftarrow> f c s; opt_fold f cs s }"

lemma opt_fold_append: "opt_fold f (xs @ ys) s = do { s \<leftarrow> opt_fold f xs s; opt_fold f ys s }"
  by (induction xs arbitrary: s) simp_all

lemma for_range_opt_fold: "for_range lo hi f s = opt_fold f [lo..<hi] s"
proof (induction "hi - lo" arbitrary: lo s)
  case (Suc k)
  then have "lo < hi" by simp
  then have "[lo..<hi] = lo # [Suc lo..<hi]" by (rule upt_conv_Cons)
  then show ?case using Suc.hyps(1)[of "Suc lo"] Suc.hyps(2) \<open>lo < hi\<close> by (simp add: for_range_step)
qed simp

text \<open>The powers of 2 from \<open>2 ^ t\<close> down to above \<open>2 ^ s\<close>.\<close>

lemma for_halves_opt_fold: "s \<le> t \<Longrightarrow> for_halves (2 ^ s) (2 ^ t) f x = opt_fold (\<lambda>j. f (2 ^ j)) (rev [Suc s..<Suc t]) x"
proof (induction "t - s" arbitrary: t x)
  case 0
  then show ?case by (simp add: for_halves.simps)
next
  case (Suc k)
  then obtain u where u: "t = Suc u" "s \<le> u" by (metis Suc_le_D diff_is_0_eq le_Suc_eq nat.distinct(1) not_less_eq_eq)
  have "drop_bit 1 ((2 :: nat) ^ Suc u) = 2 ^ u" by (simp add: drop_bit_eq_div)
  moreover have "(2 :: nat) ^ s < 2 ^ t" using u by (intro power_strict_increasing) simp_all
  moreover have "for_halves (2 ^ s) (2 ^ u) f = opt_fold (\<lambda>j. f (2 ^ j)) (rev [Suc s..<Suc u])"
    by (rule ext, rule Suc.hyps(1)) (use Suc.hyps(2) u in simp_all)
  moreover have "rev [Suc s..<Suc t] = t # rev [Suc s..<Suc u]" using u by simp
  ultimately show ?case using u by (subst for_halves.simps) (simp del: upt_Suc power_Suc)
qed

lemma for_halves_0: "for_halves 0 (2 ^ t) f x = opt_fold (\<lambda>j. f (2 ^ j)) (rev [0..<Suc t]) x"
proof (induction t arbitrary: x)
  case 0
  have "for_halves 0 0 f = Some" by (rule ext) (simp add: for_halves.simps)
  then show ?case by (subst for_halves.simps) (simp add: drop_bit_eq_div)
next
  case (Suc t)
  have "drop_bit 1 ((2 :: nat) ^ Suc t) = 2 ^ t" by (simp add: drop_bit_eq_div)
  moreover have "for_halves 0 (2 ^ t) f = opt_fold (\<lambda>j. f (2 ^ j)) (rev [0..<Suc t])" by (rule ext, rule Suc)
  moreover have "rev [0..<Suc (Suc t)] = Suc t # rev [0..<Suc t]" by simp
  ultimately show ?case by (subst for_halves.simps) (simp del: upt_Suc power_Suc)
qed

text \<open>The number of elements lies above \<open>top\<close> and not above twice \<open>top\<close>.\<close>

lemma sort_top:
  assumes "2 \<le> n"
  obtains t where "sort_top n 1 = 2 ^ t" "2 ^ t < n" "n \<le> 2 ^ Suc t"
proof -
  have "\<exists>t. sort_top n m = 2 ^ t \<and> 2 ^ t < n \<and> n \<le> 2 ^ Suc t" if "m = 2 ^ k" "m < n" for m k
    using that
  proof (induction n m arbitrary: k rule: sort_top.induct)
    case (1 n m)
    show ?case
    proof (cases "m < n - m")
      case True
      then have "m + m < n" "0 < m" using 1(2) by simp_all
      moreover have "sort_top n m = sort_top n (m + m)" by (subst sort_top.simps) (use True 1(2) in simp)
      ultimately show ?thesis using 1(1)[of "Suc k"] 1(2) True by (simp add: mult_2)
    next
      case False
      then have "sort_top n m = m" by (simp add: sort_top.simps[of n m])
      then show ?thesis using False 1(2,3) by (intro exI[of _ k]) auto
    qed
  qed
  from this[of 1 0] show thesis using that assms by auto
qed

section \<open>The code runs the network\<close>

abbreviation cmp_at :: "('a \<Rightarrow> 'a \<Rightarrow> ('a \<times> 'a) option) \<Rightarrow> nat \<times> nat \<Rightarrow> 'a list \<Rightarrow> 'a list option" where
  "cmp_at MINMAX c x \<equiv> minmax_at MINMAX (fst c) (snd c) x"

lemma opt_fold_filter: "opt_fold (\<lambda>i x. if P i then f i x else Some x) xs s = opt_fold f (filter P xs) s"
  by (induction xs arbitrary: s) simp_all

lemma opt_fold_map: "opt_fold f (map g xs) s = opt_fold (\<lambda>x. f (g x)) xs s"
  by (induction xs arbitrary: s) simp_all

lemma opt_fold_concat: "opt_fold f (concat xss) s = opt_fold (opt_fold f) xss s"
  by (induction xss arbitrary: s) (simp_all add: opt_fold_append)

lemma opt_fold_inv:
  assumes "\<And>c s s'. c \<in> set cs \<Longrightarrow> I s \<Longrightarrow> f c s = Some s' \<Longrightarrow> I s'"
  shows "I s \<Longrightarrow> opt_fold f cs s = Some s' \<Longrightarrow> I s'"
  using assms by (induction cs arbitrary: s) (auto simp: bind_Some_iff)

lemma opt_fold_cong:
  assumes "\<And>c s. c \<in> set cs \<Longrightarrow> I s \<Longrightarrow> f c s = g c s" "\<And>c s s'. c \<in> set cs \<Longrightarrow> I s \<Longrightarrow> g c s = Some s' \<Longrightarrow> I s'"
  shows "I s \<Longrightarrow> opt_fold f cs s = opt_fold g cs s"
  using assms
proof (induction cs arbitrary: s)
  case (Cons c cs)
  have "f c s = g c s" using Cons.prems by simp
  moreover have "opt_fold f cs s' = opt_fold g cs s'" if "g c s = Some s'" for s'
    by (rule Cons.IH) (metis Cons.prems(1,3) list.set_intros(1) that, metis Cons.prems(2) list.set_intros(2), metis Cons.prems(3) list.set_intros(2))
  ultimately show ?case by (cases "g c s") simp_all
qed simp

lemma cmp_at_length: "cmp_at MINMAX c x = Some y \<Longrightarrow> length y = length x"
  by (auto simp: minmax_at_def bind_Some_iff dest!: wr_length split: prod.splits)

lemma opt_fold_cmp_length: "opt_fold (cmp_at MINMAX) cs x = Some y \<Longrightarrow> length y = length x"
  by (rule opt_fold_inv[where I = "\<lambda>y. length y = length x" and f = "cmp_at MINMAX" and cs = cs and s = x]) (auto dest: cmp_at_length)

lemma upd_again: "k < length x \<Longrightarrow> rd (x[k := a]) k = Some a" "k < length x \<Longrightarrow> wr (x[k := a]) k b = Some (x[k := b])"
  by simp_all

lemma minmax_at_kept:
  assumes "k < length x" "m < length x" "k \<noteq> m" "MINMAX a (x ! m) = Some (a', b')"
  shows "minmax_at MINMAX k m (x[k := a]) = Some (x[m := b', k := a'])"
  using assms by (simp add: minmax_at_def list_update_swap[of k m])

text \<open>The inner loop keeps one element in a variable.\<close>

lemma inner_loop:
  assumes "\<forall>j\<in>set js. s < j \<and> i + 2 ^ j < length x" "i + 2 ^ s < length x"
  shows "do { (a, x) \<leftarrow> opt_fold (\<lambda>j (a, x). do {
        b \<leftarrow> rd x (i + 2 ^ j);
        (a, b) \<leftarrow> MINMAX a b;
        x \<leftarrow> wr x (i + 2 ^ j) b;
        Some (a, x) }) js (a, x);
      wr x (i + 2 ^ s) a } = opt_fold (cmp_at MINMAX) (map (\<lambda>j. (i + 2 ^ s, i + 2 ^ j)) js) (x[i + 2 ^ s := a])"
  using assms
proof (induction js arbitrary: a x)
  case (Cons j js)
  have r: "i + 2 ^ j < length x" "(2 :: nat) ^ s < 2 ^ j" using Cons.prems by (auto intro: power_strict_increasing)
  show ?case
  proof (cases "MINMAX a (x ! (i + 2 ^ j))")
    case None
    then show ?thesis using r Cons.prems(2) by (simp add: minmax_at_def)
  next
    case (Some ab)
    obtain a' b' where ab: "ab = (a', b')" by (cases ab)
    have "cmp_at MINMAX (i + 2 ^ s, i + 2 ^ j) (x[i + 2 ^ s := a]) = Some (x[i + 2 ^ j := b', i + 2 ^ s := a'])"
      using minmax_at_kept[OF Cons.prems(2) r(1)] r(2) Some ab by simp
    then show ?thesis using Cons.IH[of "x[i + 2 ^ j := b']" a'] Cons.prems r Some ab by simp
  qed
qed simp

lemma sort_inner_merge:
  assumes "s \<le> u" "i + 2 ^ u < length x"
  shows "sort_inner MINMAX (2 ^ s) (2 ^ u) i x = opt_fold (cmp_at MINMAX) (map (\<lambda>j. (i + 2 ^ s, i + 2 ^ j)) (rev [Suc s..<Suc u])) x"
proof -
  have le: "i + 2 ^ j < length x" if "j \<le> u" for j
  proof -
    have "(2 :: nat) ^ j \<le> 2 ^ u" using that by (intro power_increasing) simp_all
    then show ?thesis using assms(2) by linarith
  qed
  have "\<forall>j\<in>set (rev [Suc s..<Suc u]). s < j \<and> i + 2 ^ j < length x" using le by (auto simp del: upt_Suc)
  from inner_loop[OF this le[OF assms(1)], where a = "x ! (i + 2 ^ s)" and MINMAX = MINMAX] le[OF assms(1)]
  show ?thesis unfolding sort_inner_def for_halves_opt_fold[OF assms(1)] by (simp del: upt_Suc)
qed

lemma outer_loop:
  assumes "s \<le> u" "u \<le> t" "n - 2 ^ Suc u \<le> i" "length x = n"
  shows "do { (i, x) \<leftarrow> opt_fold (\<lambda>j (i, x). do {
        x \<leftarrow> for_range i (n - 2 ^ j) (\<lambda>i x. if i AND 2 ^ s = 0 then sort_inner MINMAX (2 ^ s) (2 ^ j) i x else Some x) x;
        Some (max i (n - 2 ^ j), x) }) (rev [Suc s..<Suc u]) (i, x);
      Some x } = opt_fold (cmp_at MINMAX) (concat (map (merge_at s t n) [i..<n - 2 ^ Suc s])) x"
  using assms
proof (induction "u - s" arbitrary: u i x)
  case 0
  then have u: "u = s" by simp
  then have e: "[i..<n - 2 ^ Suc s] = []" using 0 by simp
  show ?case unfolding e u by simp
next
  case (Suc d)
  then obtain v where u: "u = Suc v" by (cases u) auto
  then have v: "u = Suc v" "s \<le> v" "d = v - s" using Suc.hyps(2) by simp_all
  have js: "rev [Suc s..<Suc u] = u # rev [Suc s..<Suc v]" using v by simp
  have P: "(2 :: nat) ^ Suc s \<le> 2 ^ u" using v by (intro power_increasing) simp_all
  have at: "merge_at s t n k = (if k AND 2 ^ s = 0 then map (\<lambda>j. (k + 2 ^ s, k + 2 ^ j)) (rev [Suc s..<Suc u]) else [])"
    if k: "i \<le> k" "k < n - 2 ^ u" for k
  proof -
    have "filter (\<lambda>j. k + 2 ^ j < n) [Suc s..<Suc t] = [Suc s..<Suc u]"
    proof -
      have "k + 2 ^ j < n" if "j \<le> u" for j
      proof -
        have "(2 :: nat) ^ j \<le> 2 ^ u" using that by (intro power_increasing) simp_all
        then show ?thesis using k(2) by linarith
      qed
      moreover have "\<not> k + 2 ^ j < n" if "u < j" for j
      proof -
        have "(2 :: nat) ^ Suc u \<le> 2 ^ j" using that by (intro power_increasing) simp_all
        then show ?thesis using k(1) Suc.prems(3) by linarith
      qed
      ultimately have "filter (\<lambda>j. k + 2 ^ j < n) [Suc s..<Suc u] = [Suc s..<Suc u]" "filter (\<lambda>j. k + 2 ^ j < n) [Suc u..<Suc t] = []"
        by (auto simp: filter_id_conv filter_empty_conv simp del: upt_Suc)
      moreover have "[Suc s..<Suc t] = [Suc s..<Suc u] @ [Suc u..<Suc t]"
        using upt_add_eq_append[of "Suc s" "Suc u" "t - u"] Suc.prems(1,2) by (simp del: upt_Suc)
      ultimately show ?thesis by (simp del: upt_Suc)
    qed
    then show ?thesis unfolding merge_at_def and_exp_eq_0_iff_not_bit rev_filter[symmetric] by (simp del: upt_Suc)
  qed
  have body: "for_range i (n - 2 ^ u) (\<lambda>i x. if i AND 2 ^ s = 0 then sort_inner MINMAX (2 ^ s) (2 ^ u) i x else Some x) x =
      opt_fold (cmp_at MINMAX) (concat (map (merge_at s t n) [i..<n - 2 ^ u])) x"
    unfolding for_range_opt_fold opt_fold_concat opt_fold_map
  proof (rule opt_fold_cong[where I = "\<lambda>x. length x = n"])
    fix k and y :: "'a list"
    assume k: "k \<in> set [i..<n - 2 ^ u]" and y: "length y = n"
    show "(if k AND 2 ^ s = 0 then sort_inner MINMAX (2 ^ s) (2 ^ u) k y else Some y) = opt_fold (cmp_at MINMAX) (merge_at s t n k) y"
      using at[of k] k y sort_inner_merge[OF Suc.prems(1), of k y MINMAX] by (auto simp: less_diff_conv simp del: upt_Suc)
  next
    fix k and y y' :: "'a list"
    assume "length y = n" "opt_fold (cmp_at MINMAX) (merge_at s t n k) y = Some y'"
    then show "length y' = n" using opt_fold_cmp_length by metis
  qed (rule Suc.prems)
  have split: "[i..<n - 2 ^ Suc s] = [i..<n - 2 ^ u] @ [max i (n - 2 ^ u)..<n - 2 ^ Suc s]"
  proof (cases "i \<le> n - 2 ^ u")
    case True
    have "n - 2 ^ u \<le> n - 2 ^ Suc s" using P by simp
    then have "n - 2 ^ Suc s = n - 2 ^ u + (n - 2 ^ Suc s - (n - 2 ^ u))" by simp
    then show ?thesis using upt_add_eq_append[OF True, of "n - 2 ^ Suc s - (n - 2 ^ u)"] True by (simp add: max_def)
  qed (simp add: max_def)
  show ?case
  proof (cases "opt_fold (cmp_at MINMAX) (concat (map (merge_at s t n) [i..<n - 2 ^ u])) x")
    case None
    then show ?thesis unfolding js split map_append concat_append opt_fold_append using body by (simp del: upt_Suc)
  next
    case (Some y)
    have y: "length y = n" using opt_fold_cmp_length[OF Some] Suc.prems(4) by simp
    have "n - 2 ^ Suc v \<le> max i (n - 2 ^ u)" using v by simp
    moreover have "v \<le> t" using v Suc.prems(2) by simp
    ultimately show ?thesis
      using Suc.hyps(1)[OF v(3,2) _ _ y] unfolding js split map_append concat_append opt_fold_append body[symmetric]
      using body Some by (simp del: upt_Suc power_Suc)
  qed
qed

lemma sort_pass_network:
  assumes "s \<le> t" "n \<le> 2 ^ Suc t" "length x = n"
  shows "sort_pass MINMAX n (2 ^ t) (2 ^ s) x = opt_fold (cmp_at MINMAX) (first_pairs s n @ merge_code s t n) x"
proof -
  have f: "for_range 0 (n - 2 ^ s) (\<lambda>i x. if i AND 2 ^ s = 0 then minmax_at MINMAX i (i + 2 ^ s) x else Some x) x =
      opt_fold (cmp_at MINMAX) (first_pairs s n) x"
    unfolding for_range_opt_fold opt_fold_filter first_pairs_def opt_fold_map and_exp_eq_0_iff_not_bit by simp
  have z: "n - 2 ^ Suc t \<le> 0" using assms(2) by simp
  show ?thesis
  proof (cases "opt_fold (cmp_at MINMAX) (first_pairs s n) x")
    case None
    then show ?thesis unfolding sort_pass_def f opt_fold_append by simp
  next
    case (Some y)
    then have "length y = n" using opt_fold_cmp_length assms(3) by metis
    from outer_loop[OF assms(1) order_refl z this, of MINMAX] Some show ?thesis
      unfolding sort_pass_def f opt_fold_append merge_code_def for_halves_opt_fold[OF assms(1)] by (simp del: upt_Suc)
  qed
qed

lemma sort_network_network:
  assumes "sort_top n 1 = 2 ^ t" "n \<le> 2 ^ Suc t" "2 \<le> n" "length x = n"
  shows "sort_network MINMAX x n = opt_fold (cmp_at MINMAX) (network n t) x"
proof -
  have "opt_fold (\<lambda>s. sort_pass MINMAX n (2 ^ t) (2 ^ s)) (rev [0..<Suc t]) x =
    opt_fold (\<lambda>s. opt_fold (cmp_at MINMAX) (first_pairs s n @ merge_code s t n)) (rev [0..<Suc t]) x"
  proof (rule opt_fold_cong[where I = "\<lambda>x. length x = n"])
    fix s and y :: "'a list"
    assume "s \<in> set (rev [0..<Suc t])" "length y = n"
    then show "sort_pass MINMAX n (2 ^ t) (2 ^ s) y = opt_fold (cmp_at MINMAX) (first_pairs s n @ merge_code s t n) y"
      using assms(2) by (intro sort_pass_network) (auto simp del: upt_Suc)
  next
    fix s and y y' :: "'a list"
    assume "length y = n" "opt_fold (cmp_at MINMAX) (first_pairs s n @ merge_code s t n) y = Some y'"
    then show "length y' = n" using opt_fold_cmp_length by metis
  qed (rule assms)
  then show ?thesis using assms(1,3) unfolding sort_network_def network_def opt_fold_concat opt_fold_map Let_def
    by (simp add: for_halves_0 del: upt_Suc)
qed

section \<open>The network sorts\<close>

text \<open>What a comparison promises on the elements of \<open>S\<close>: it exchanges two elements or not, so that their keys are in order.\<close>

locale minmax =
  fixes MINMAX :: "'a \<Rightarrow> 'a \<Rightarrow> ('a \<times> 'a) option" and key :: "'a \<Rightarrow> 'b::linorder" and S :: "'a set"
  assumes minmax: "a \<in> S \<Longrightarrow> b \<in> S \<Longrightarrow> MINMAX a b = Some (if key b < key a then (b, a) else (a, b))"
begin

lemma cmp_at_sim:
  assumes "set x \<subseteq> S" "i < length x" "j < length x" "i \<noteq> j"
  shows "\<exists>y. minmax_at MINMAX i j x = Some y \<and> map key y = cmpx (i, j) (map key x) \<and> mset y = mset x"
proof -
  have "x ! i \<in> S" "x ! j \<in> S" using assms by (auto dest!: nth_mem)
  then have m: "MINMAX (x ! i) (x ! j) = Some (if key (x ! j) < key (x ! i) then (x ! j, x ! i) else (x ! i, x ! j))" by (rule minmax)
  show ?thesis
  proof (cases "key (x ! j) < key (x ! i)")
    case True
    have "mset (x[i := x ! j, j := x ! i]) = mset x" using assms by (simp add: mset_swap)
    moreover have "min (key (x ! i)) (key (x ! j)) = key (x ! j)" "max (key (x ! i)) (key (x ! j)) = key (x ! i)" using True by simp_all
    ultimately show ?thesis using m True assms by (simp add: minmax_at_def cmpx_def map_update)
  next
    case False
    have "(map key x)[k := key (x ! k)] = map key x" for k by (metis list_update_id map_update)
    then have "cmpx (i, j) (map key x) = map key x" using False assms by (simp add: cmpx_def)
    then show ?thesis using m False assms by (simp add: minmax_at_def)
  qed
qed

lemma opt_fold_sim:
  assumes "set x \<subseteq> S" "\<forall>c\<in>set cs. fst c < length x \<and> snd c < length x \<and> fst c \<noteq> snd c"
  shows "\<exists>y. opt_fold (cmp_at MINMAX) cs x = Some y \<and> map key y = fold cmpx cs (map key x) \<and> mset y = mset x"
  using assms
proof (induction cs arbitrary: x)
  case (Cons c cs)
  obtain y where y: "minmax_at MINMAX (fst c) (snd c) x = Some y" "map key y = cmpx c (map key x)" "mset y = mset x"
    using cmp_at_sim[of x "fst c" "snd c"] Cons.prems by auto
  have "set y = set x" "length y = length x" using y(3) by (metis mset_eq_setD, metis mset_eq_length)
  then show ?case using Cons.IH[of y] Cons.prems y by simp
qed simp

lemma network_distinct: "c \<in> set (network n t) \<Longrightarrow> fst c \<noteq> snd c"
  by (auto simp: network_def merge_code_def merge_at_def first_pairs_def simp del: upt_Suc split: if_splits)

theorem sorts:
  assumes "set x \<subseteq> S"
  shows "\<exists>y. sort_network MINMAX x (length x) = Some y \<and> sorted (map key y) \<and> mset y = mset x"
proof (cases "length x < 2")
  case True
  then have "sorted (map key x)" by (cases x; cases "tl x") auto
  then show ?thesis using True by (simp add: sort_network_def)
next
  case False
  then have n: "2 \<le> length x" by simp
  obtain t where t: "sort_top (length x) 1 = 2 ^ t" "length x \<le> 2 ^ Suc t" using sort_top[OF n] by blast
  have "\<forall>c\<in>set (network (length x) t). fst c < length x \<and> snd c < length x \<and> fst c \<noteq> snd c"
    using network_range network_distinct by blast
  from opt_fold_sim[OF assms this] obtain y where y: "opt_fold (cmp_at MINMAX) (network (length x) t) x = Some y"
    "map key y = fold cmpx (network (length x) t) (map key x)" "mset y = mset x" by blast
  moreover have "sorted (map key y)" unfolding y(2) by (rule network_sorts) (use t(2) in simp_all)
  ultimately show ?thesis using sort_network_network[OF t n refl, of MINMAX] by auto
qed

end

section \<open>The three comparisons\<close>

text \<open>A mask of zeros or ones exchanges two words or leaves them.\<close>

lemma mask_exchange:
  fixes a b :: "'a::len word"
  shows "(a XOR (- (if P then 1 else 0) AND (a XOR b)), b XOR (- (if P then 1 else 0) AND (a XOR b))) = (if P then (b, a) else (a, b))"
proof -
  have "a XOR (a XOR b) = b" "b XOR (a XOR b) = a" by (simp_all add: xor.assoc[symmetric]) (simp add: xor.commute[of b] xor.assoc)
  then show ?thesis by simp
qed

text \<open>The top bit of the difference tells the order of unsigned words that are close to each other.\<close>

lemma top_bit_difference:
  fixes a b :: "'a::len word"
  assumes "LENGTH('a) = Suc k" "l \<le> unat a" "unat a < l + 2 ^ k" "l \<le> unat b" "unat b < l + 2 ^ k"
  shows "drop_bit k (b - a) = (if unat b < unat a then 1 else 0)"
proof -
  have d: "unat (drop_bit k (b - a)) = unat (b - a) div 2 ^ k" by (simp add: unat_drop_bit_eq flip: drop_bit_eq_div)
  show ?thesis
  proof (cases "unat b < unat a")
    case True
    then have "unat (b - a) = 2 ^ k + (2 ^ k + unat b - unat a)" using assms by (simp add: unat_sub_if' word_le_nat_alt)
    moreover have "2 ^ k + unat b - unat a < 2 ^ k" using True assms(3,4) by linarith
    moreover have "(2 ^ k + r) div 2 ^ k = 1" if "r < 2 ^ k" for r :: nat using that div_add_self1[of "2 ^ k" r] by simp
    ultimately have "unat (drop_bit k (b - a)) = 1" unfolding d by metis
    then show ?thesis using True by (simp add: word_eq_iff_unsigned word_unat_eq_iff)
  next
    case False
    then have "unat (b - a) = unat b - unat a" by (simp add: unat_sub_if' word_le_nat_alt)
    then have "unat (drop_bit k (b - a)) = 0" unfolding d using assms by simp
    then show ?thesis using False by (simp add: word_unat_eq_iff)
  qed
qed

lemma uint16_MINMAX_orders:
  assumes "a \<in> {a. l \<le> unat a \<and> unat a < l + 2 ^ 15}" "b \<in> {a. l \<le> unat a \<and> unat a < l + 2 ^ 15}"
  shows "uint16_MINMAX a b = Some (if unat b < unat a then (b, a) else (a, b))"
proof -
  have "drop_bit 15 (b - a) = (if unat b < unat a then 1 else 0)" by (rule top_bit_difference[where l = l]) (use assms in simp_all)
  then show ?thesis using mask_exchange[of a "unat b < unat a" b] by (simp add: uint16_MINMAX_def Let_def)
qed

lemma uint64_MINMAX_orders:
  assumes "a \<in> {a. l \<le> unat a \<and> unat a < l + 2 ^ 63}" "b \<in> {a. l \<le> unat a \<and> unat a < l + 2 ^ 63}"
  shows "uint64_MINMAX a b = Some (if unat b < unat a then (b, a) else (a, b))"
proof -
  have "drop_bit 63 (b - a) = (if unat b < unat a then 1 else 0)" by (rule top_bit_difference[where l = l]) (use assms in simp_all)
  then show ?thesis using mask_exchange[of a "unat b < unat a" b] by (simp add: uint64_MINMAX_def Let_def)
qed

text \<open>The arithmetic shift of a signed word by 31 bits copies its sign.\<close>

lemma sign_mask: "signed_drop_bit 31 (c :: s32) = - (if bit c 31 then 1 else 0)"
proof (rule bit_word_eqI)
  fix n assume "n < LENGTH(32)"
  then have "31 + n = 31 \<or> 32 \<le> 31 + n" by auto
  then show "bit (signed_drop_bit 31 c) n = bit (- (if bit c 31 then 1 else 0) :: s32) n"
    using \<open>n < LENGTH(32)\<close> by (auto simp: bit_signed_drop_bit_iff)
qed

lemma int32_MINMAX_orders:
  assumes "a \<in> {a. l \<le> sint a \<and> sint a < l + 2 ^ 31}" "b \<in> {a. l \<le> sint a \<and> sint a < l + 2 ^ 31}"
  shows "int32_MINMAX a b = Some (if sint b < sint a then (b, a) else (a, b))"
proof -
  define c :: s32 where "c = word_of_int (sint b - sint a)"
  have r: "- (2 ^ 31) \<le> sint b - sint a" "sint b - sint a < 2 ^ 31" using assms by auto
  then have ck: "chk32 (sint b - sint a) = Some (sint b - sint a)" by (simp add: chk32_def)
  have sc: "sint c = sint b - sint a" unfolding c_def by (rule sint_word_of_int32) (use assms in auto)
  have neg: "bit w 31 \<longleftrightarrow> sint w < 0" for w :: s32 using bit_last_iff[of w] by simp
  have "bit c 31 \<longleftrightarrow> sint b < sint a" unfolding neg sc by simp
  moreover have "sint b < sint a" if "bit b 31" "\<not> bit a 31" using that unfolding neg by simp
  moreover have "\<not> sint b < sint a" if "\<not> bit b 31" "bit a 31" using that unfolding neg by simp
  ultimately have "bit (c XOR ((b XOR a) AND (c XOR b))) 31 \<longleftrightarrow> sint b < sint a"
    unfolding bit_xor_iff bit_and_iff by blast
  then have m: "signed_drop_bit 31 (c XOR ((b XOR a) AND (c XOR b))) = - (if sint b < sint a then 1 else 0)"
    by (simp add: sign_mask)
  have "b XOR a = a XOR b" by (rule xor.commute)
  then show ?thesis using mask_exchange[of a "sint b < sint a" b] m
    unfolding int32_MINMAX_def Let_def ck bind.bind_lunit c_def[symmetric] by simp
qed

interpretation int32_mm: minmax int32_MINMAX sint "{a. l \<le> sint a \<and> sint a < l + 2 ^ 31}" for l
  by unfold_locales (rule int32_MINMAX_orders)

interpretation uint16_mm: minmax uint16_MINMAX unat "{a. l \<le> unat a \<and> unat a < l + 2 ^ 15}" for l
  by unfold_locales (rule uint16_MINMAX_orders)

interpretation uint64_mm: minmax uint64_MINMAX unat "{a. l \<le> unat a \<and> unat a < l + 2 ^ 63}" for l
  by unfold_locales (rule uint64_MINMAX_orders)

text \<open>C39: \<open>int32_sort\<close> sorts an array of any length in place, as signed numbers, if its values lie less than \<open>2\<^sup>3\<^sup>1\<close> apart:
  no subtraction overflows, the result is in order and holds the elements it was given.\<close>

theorem int32_sort_sorts:
  assumes "\<forall>a\<in>set x. l \<le> sint a \<and> sint a < l + 2 ^ 31"
  shows "\<exists>y. int32_sort x (length x) = Some y \<and> sorted (map sint y) \<and> mset y = mset x"
  unfolding int32_sort_def by (rule int32_mm.sorts[where l = l]) (use assms in auto)

theorem int32_sort_sorts_witness:
  "\<exists>y. int32_sort [3, -7, 2147483640, 0, 3] 5 = Some y \<and> sorted (map sint y) \<and> mset y = mset [3, -7, 2147483640, 0, 3]"
proof -
  have "length [3, -7, 2147483640, 0, 3 :: s32] = 5" by simp
  moreover have "\<forall>a\<in>set [3, -7, 2147483640, 0, 3 :: s32]. -7 \<le> sint a \<and> sint a < -7 + 2 ^ 31" by simp
  ultimately show ?thesis using int32_sort_sorts by metis
qed

text \<open>\<open>uint64_sort\<close>, which the key generation sorts its permutation with, sorts an array of any length in place if its values lie
  less than \<open>2\<^sup>6\<^sup>3\<close> apart, and keeps its elements; so does \<open>uint16_sort\<close> for \<open>2\<^sup>1\<^sup>5\<close>.\<close>

theorem uint_sorts_sort:
  assumes "\<forall>a\<in>set x. l \<le> unat a \<and> unat a < l + 2 ^ 63" "\<forall>a\<in>set z. m \<le> unat a \<and> unat a < m + 2 ^ 15"
  shows "(\<exists>y. uint64_sort x (length x) = Some y \<and> sorted (map unat y) \<and> mset y = mset x) \<and>
    (\<exists>y. uint16_sort z (length z) = Some y \<and> sorted (map unat y) \<and> mset y = mset z)"
  using assms uint64_mm.sorts[of x l] uint16_mm.sorts[of z m] unfolding uint64_sort_def uint16_sort_def by (simp add: subset_iff)

theorem uint_sorts_sort_witness:
  "(\<exists>y. uint64_sort [9, 9223372036854775810, 5] 3 = Some y \<and> sorted (map unat y) \<and> mset y = mset [9, 9223372036854775810, 5]) \<and>
   (\<exists>y. uint16_sort [40000, 60000, 39999, 50000] 4 = Some y \<and> sorted (map unat y) \<and> mset y = mset [40000, 60000, 39999, 50000])"
proof -
  have l: "length [9, 9223372036854775810, 5 :: u64] = 3" "length [40000, 60000, 39999, 50000 :: u16] = 4" by simp_all
  have h: "\<forall>a\<in>set [9, 9223372036854775810, 5 :: u64]. 5 \<le> unat a \<and> unat a < 5 + 2 ^ 63"
    "\<forall>a\<in>set [40000, 60000, 39999, 50000 :: u16]. 39999 \<le> unat a \<and> unat a < 39999 + 2 ^ 15" by simp_all
  show ?thesis using uint_sorts_sort[OF h] unfolding l .
qed

text \<open>Values further apart are not sorted: the top bit of the difference does not tell their order.\<close>

lemma uint16_sort_wide: "uint16_sort [0, 40000] 2 = Some [40000, 0]"
  by (simp add: uint16_sort_def sort_network_def sort_top.simps for_halves.simps sort_pass_def minmax_at_def uint16_MINMAX_def
    for_range_step Let_def)

lemma int32_sort_wide: "int32_sort [-2147483648, 1] 2 = None"
  by (simp add: int32_sort_def sort_network_def sort_top.simps for_halves.simps sort_pass_def minmax_at_def int32_MINMAX_def chk32_def
    for_range_step Let_def)

end
