(* ===== verification/CoreSort.thy ===== *)
theory CoreSort
  imports Prelude "HOL-Library.Multiset"
begin

text \<open>
  The in-place merge sort of \<open>src/lib/coremark/core_list_join.c\<close> on linked cells. A pointer
  is a number, 0 is null, and the \<open>next\<close> fields are a map from cells to cells; reading a field
  through null is \<open>None\<close>, and so is a loop that never ends and an \<open>ee_s32\<close> run length
  that overflows.

  The comparison function of the code has side effects (it caches what it computes), so it is a
  state transformer here. The locale \<open>comparator\<close> states what the sort needs of it: keys may
  become known while comparing but never change. Under it the code computes the stable sort of the
  cells by their final keys.
\<close>

section \<open>The code\<close>

type_synonym ptr = nat

definition fld :: "(ptr \<Rightarrow> 'a) \<Rightarrow> ptr \<Rightarrow> 'a option" where
  "fld f p = (if p = 0 then None else Some (f p))"

lemma fld_Some [simp]: "p \<noteq> 0 \<Longrightarrow> fld f p = Some (f p)"
  by (simp add: fld_def)

text \<open>\<open>for (i = 0; i < insize; i++) \<dots>\<close>: step \<open>insize\<close> places along.\<close>

primrec advance :: "(ptr \<Rightarrow> ptr) \<Rightarrow> nat \<Rightarrow> ptr \<Rightarrow> nat \<Rightarrow> (ptr \<times> nat) option" where
  "advance nx 0 q psize = Some (q, psize)"
| "advance nx (Suc k) q psize =
     do { n \<leftarrow> fld nx q; if n = 0 then Some (0, psize + 1) else advance nx k n (psize + 1) }"

text \<open>The choice of the next cell of the merge: the cell, then the two runs and their sizes.\<close>

definition merge_pick ::
  "('d \<Rightarrow> 'd \<Rightarrow> 's \<Rightarrow> (int \<times> 's) option) \<Rightarrow> (ptr \<Rightarrow> 'd) \<Rightarrow> (ptr \<Rightarrow> ptr) \<Rightarrow>
     ptr \<Rightarrow> nat \<Rightarrow> ptr \<Rightarrow> nat \<Rightarrow> 's \<Rightarrow> (ptr \<times> ptr \<times> nat \<times> ptr \<times> nat \<times> 's) option" where
  "merge_pick cmp info nx p psize q qsize s =
     (if psize = 0 then do { n \<leftarrow> fld nx q; Some (q, p, psize, n, qsize - 1, s) }
      else if qsize = 0 \<or> q = 0 then do { n \<leftarrow> fld nx p; Some (p, n, psize - 1, q, qsize, s) }
      else do { ip \<leftarrow> fld info p; iq \<leftarrow> fld info q; (c, s) \<leftarrow> cmp ip iq s;
                if c \<le> 0 then do { n \<leftarrow> fld nx p; Some (p, n, psize - 1, q, qsize, s) }
                else do { n \<leftarrow> fld nx q; Some (q, p, psize, n, qsize - 1, s) } })"

partial_function (option) merge_loop ::
  "('d \<Rightarrow> 'd \<Rightarrow> 's \<Rightarrow> (int \<times> 's) option) \<Rightarrow> (ptr \<Rightarrow> 'd) \<Rightarrow> (ptr \<Rightarrow> ptr) \<Rightarrow> ptr \<Rightarrow> ptr \<Rightarrow>
     ptr \<Rightarrow> nat \<Rightarrow> ptr \<Rightarrow> nat \<Rightarrow> 's \<Rightarrow> ((ptr \<Rightarrow> ptr) \<times> ptr \<times> ptr \<times> ptr \<times> 's) option" where
  [code]: "merge_loop cmp info nx list tail p psize q qsize s =
     (if psize > 0 \<or> qsize > 0 \<and> q \<noteq> 0
      then do { (e, p, psize, q, qsize, s) \<leftarrow> merge_pick cmp info nx p psize q qsize s;
                if tail \<noteq> 0
                then merge_loop cmp info (nx(tail := e)) list e p psize q qsize s
                else merge_loop cmp info nx e e p psize q qsize s }
      else Some (nx, list, tail, q, s))"

text \<open>One pass, \<open>while (p)\<close>: merge the runs of length \<open>insize\<close> in pairs.\<close>

partial_function (option) pass_loop ::
  "('d \<Rightarrow> 'd \<Rightarrow> 's \<Rightarrow> (int \<times> 's) option) \<Rightarrow> (ptr \<Rightarrow> 'd) \<Rightarrow> nat \<Rightarrow> (ptr \<Rightarrow> ptr) \<Rightarrow> ptr \<Rightarrow> ptr \<Rightarrow>
     ptr \<Rightarrow> nat \<Rightarrow> 's \<Rightarrow> ((ptr \<Rightarrow> ptr) \<times> ptr \<times> ptr \<times> nat \<times> 's) option" where
  [code]: "pass_loop cmp info insize nx list tail p nmerges s =
     (if p = 0 then Some (nx, list, tail, nmerges, s)
      else do { (q, psize) \<leftarrow> advance nx insize p 0;
                (nx, list, tail, q, s) \<leftarrow> merge_loop cmp info nx list tail p psize q insize s;
                pass_loop cmp info insize nx list tail q (nmerges + 1) s })"

text \<open>The outer \<open>while (1)\<close>; \<open>tail->next = NULL\<close> is reached with \<open>tail\<close> null when the
  list is empty.\<close>

partial_function (option) sort_loop ::
  "('d \<Rightarrow> 'd \<Rightarrow> 's \<Rightarrow> (int \<times> 's) option) \<Rightarrow> (ptr \<Rightarrow> 'd) \<Rightarrow> nat \<Rightarrow> (ptr \<Rightarrow> ptr) \<Rightarrow> ptr \<Rightarrow> 's \<Rightarrow>
     ((ptr \<Rightarrow> ptr) \<times> ptr \<times> 's) option" where
  [code]: "sort_loop cmp info insize nx list s =
     do { (nx, list, tail, nmerges, s) \<leftarrow> pass_loop cmp info insize nx 0 0 list 0 s;
          if tail = 0 then None
          else if nmerges \<le> 1 then Some (nx(tail := 0), list, s)
          else if 2 * insize < 2 ^ 31 then sort_loop cmp info (2 * insize) (nx(tail := 0)) list s
          else None }"

definition core_list_mergesort ::
  "('d \<Rightarrow> 'd \<Rightarrow> 's \<Rightarrow> (int \<times> 's) option) \<Rightarrow> (ptr \<Rightarrow> 'd) \<Rightarrow> (ptr \<Rightarrow> ptr) \<Rightarrow> ptr \<Rightarrow> 's \<Rightarrow>
     ((ptr \<Rightarrow> ptr) \<times> ptr \<times> 's) option" where
  "core_list_mergesort cmp info nx list s = sort_loop cmp info 1 nx list s"

section \<open>Linked cells\<close>

text \<open>\<open>path nx p xs\<close>: following \<open>next\<close> from \<open>p\<close> visits \<open>xs\<close>; where the last
  cell points is left open. \<open>lseg\<close> also says that the last one points to \<open>q\<close>.\<close>

fun path :: "(ptr \<Rightarrow> ptr) \<Rightarrow> ptr \<Rightarrow> ptr list \<Rightarrow> bool" where
  "path nx p [] \<longleftrightarrow> True"
| "path nx p (x # xs) \<longleftrightarrow> p = x \<and> path nx (nx x) xs"

fun lseg :: "(ptr \<Rightarrow> ptr) \<Rightarrow> ptr \<Rightarrow> ptr list \<Rightarrow> ptr \<Rightarrow> bool" where
  "lseg nx p [] q \<longleftrightarrow> p = q"
| "lseg nx p (x # xs) q \<longleftrightarrow> p = x \<and> lseg nx (nx x) xs q"

definition last0 :: "ptr list \<Rightarrow> ptr" where
  "last0 xs = (if xs = [] then 0 else last xs)"

definition hd0 :: "ptr list \<Rightarrow> ptr" where
  "hd0 xs = (case xs of [] \<Rightarrow> 0 | x # _ \<Rightarrow> x)"

text \<open>A list of cells as the program sees it: distinct, none null, ending in null.\<close>

definition cells_ok :: "ptr list \<Rightarrow> bool" where
  "cells_ok xs \<longleftrightarrow> distinct xs \<and> 0 \<notin> set xs"

lemma last0_simps [simp]: "last0 [] = 0" "last0 (xs @ [x]) = x"
  by (simp_all add: last0_def)

lemma last0_append: "ys \<noteq> [] \<Longrightarrow> last0 (xs @ ys) = last0 ys"
  by (simp add: last0_def)

lemma hd0_simps [simp]: "hd0 [] = 0" "hd0 (x # xs) = x"
  by (simp_all add: hd0_def)

lemma last0_in: "xs \<noteq> [] \<Longrightarrow> last0 xs \<in> set xs"
  by (simp add: last0_def)

lemma cells_ok_simps [simp]:
  "cells_ok []" "cells_ok (x # xs) \<longleftrightarrow> x \<noteq> 0 \<and> x \<notin> set xs \<and> cells_ok xs"
  "cells_ok (xs @ ys) \<longleftrightarrow> cells_ok xs \<and> cells_ok ys \<and> set xs \<inter> set ys = {}"
  by (auto simp: cells_ok_def)

lemma path_cong: "(\<And>x. x \<in> set xs \<Longrightarrow> nx x = nx' x) \<Longrightarrow> path nx p xs = path nx' p xs"
  by (induction xs arbitrary: p) auto

lemma lseg_cong: "(\<And>x. x \<in> set xs \<Longrightarrow> nx x = nx' x) \<Longrightarrow> lseg nx p xs q = lseg nx' p xs q"
  by (induction xs arbitrary: p) auto

lemma path_upd [simp]: "t \<notin> set xs \<Longrightarrow> path (nx(t := e)) p xs = path nx p xs"
  by (rule path_cong) auto

lemma lseg_upd [simp]: "t \<notin> set xs \<Longrightarrow> lseg (nx(t := e)) p xs q = lseg nx p xs q"
  by (rule lseg_cong) auto

lemma path_append: "path nx p (xs @ ys) \<longleftrightarrow> (if xs = [] then path nx p ys else path nx p xs \<and> path nx (nx (last xs)) ys)"
  by (induction xs arbitrary: p) auto

lemma lseg_append: "lseg nx p (xs @ ys) q \<longleftrightarrow> (\<exists>r. lseg nx p xs r \<and> lseg nx r ys q)"
  by (induction xs arbitrary: p) auto

lemma lseg_path: "lseg nx p xs q \<longleftrightarrow> path nx p xs \<and> (if xs = [] then p else nx (last xs)) = q"
  by (induction xs arbitrary: p) auto

lemma lseg_hd0: "lseg nx p xs 0 \<Longrightarrow> p = hd0 xs"
  by (cases xs) auto

section \<open>The sort on lists\<close>

text \<open>What the code does to the sequence of cells, the comparison still a state transformer.\<close>

fun fmerge :: "('a \<Rightarrow> 'a \<Rightarrow> 's \<Rightarrow> (int \<times> 's) option) \<Rightarrow> 's \<Rightarrow> 'a list \<Rightarrow> 'a list \<Rightarrow> ('a list \<times> 's) option" where
  "fmerge c s [] qs = Some (qs, s)"
| "fmerge c s (p # ps) [] = Some (p # ps, s)"
| "fmerge c s (p # ps) (q # qs) =
     do { (v, s) \<leftarrow> c p q s;
          if v \<le> 0 then do { (ms, s) \<leftarrow> fmerge c s ps (q # qs); Some (p # ms, s) }
          else do { (ms, s) \<leftarrow> fmerge c s (p # ps) qs; Some (q # ms, s) } }"

function fpass :: "('a \<Rightarrow> 'a \<Rightarrow> 's \<Rightarrow> (int \<times> 's) option) \<Rightarrow> nat \<Rightarrow> 's \<Rightarrow> 'a list \<Rightarrow> ('a list \<times> nat \<times> 's) option" where
  "fpass c n s xs =
     (if xs = [] then Some ([], 0, s)
      else if n = 0 then None
      else do { (ms, s) \<leftarrow> fmerge c s (take n xs) (take n (drop n xs));
                (ys, k, s) \<leftarrow> fpass c n s (drop (2 * n) xs);
                Some (ms @ ys, k + 1, s) })"
  by pat_completeness auto
termination by (relation "measure (\<lambda>(c, n, s, xs). length xs)") auto

declare fpass.simps [simp del]

section \<open>The code implements the sort on lists\<close>

lemma advance_lseg:
  assumes "lseg nx p xs 0" "cells_ok xs" "xs \<noteq> []"
  shows "advance nx n p k = Some (hd0 (drop n xs), k + min n (length xs))"
  using assms
proof (induction n arbitrary: p xs k)
  case 0
  then show ?case by (simp add: lseg_hd0)
next
  case (Suc n)
  then obtain x ys where xs: "xs = x # ys" by (cases xs) auto
  show ?case
  proof (cases "ys = []")
    case True
    with Suc.prems xs show ?thesis by simp
  next
    case False
    then obtain y zs where "ys = y # zs" by (cases ys) auto
    with Suc.prems xs Suc.IH [of y "y # zs" "Suc k"] show ?thesis by simp
  qed
qed

text \<open>The state of the merge: \<open>out\<close> has been linked, \<open>ps\<close> is left of the first run and
  \<open>rs\<close> is everything from \<open>q\<close> on.\<close>

definition merging ::
  "(ptr \<Rightarrow> ptr) \<Rightarrow> ptr \<Rightarrow> ptr \<Rightarrow> ptr \<Rightarrow> ptr \<Rightarrow> ptr list \<Rightarrow> ptr list \<Rightarrow> ptr list \<Rightarrow> bool" where
  "merging nx list tail p q out ps rs \<longleftrightarrow>
     path nx list out \<and> tail = last0 out \<and> path nx p ps \<and> lseg nx q rs 0 \<and> cells_ok (out @ ps @ rs)"

definition link :: "(ptr \<Rightarrow> ptr) \<Rightarrow> ptr \<Rightarrow> ptr \<Rightarrow> ptr \<Rightarrow> (ptr \<Rightarrow> ptr) \<times> ptr" where
  "link nx list tail e = (if tail \<noteq> 0 then (nx(tail := e), list) else (nx, e))"

lemma path_link:
  assumes "path nx list out" "cells_ok out" "e \<notin> set out" "link nx list (last0 out) e = (nx', list')"
  shows "path nx' list' (out @ [e])"
proof (cases out rule: rev_cases)
  case Nil
  with assms(4) show ?thesis by (auto simp: link_def)
next
  case (snoc ys t)
  with assms show ?thesis by (auto simp: link_def path_append)
qed

lemma link_other:
  assumes "cells_ok out" "link nx list (last0 out) e = (nx', list')" "x \<notin> set out"
  shows "nx' x = nx x"
  using assms last0_in [of out] by (cases "out = []") (auto simp: link_def split: if_splits)

lemma merging_p:
  assumes m: "merging nx list tail p q out (e # ps) rs" and l: "link nx list tail e = (nx', list')"
  shows "p = e" and "merging nx' list' e (nx e) q (out @ [e]) ps rs"
proof -
  show "p = e" using m by (simp add: merging_def)
  note o = link_other [of out nx list e nx' list']
  have "path nx' list' (out @ [e])" using path_link m l by (auto simp: merging_def)
  moreover have eq: "x \<in> set (ps @ rs) \<Longrightarrow> nx' x = nx x" for x
    using m l by (intro o) (auto simp: merging_def)
  moreover have "path nx' (nx e) ps = path nx (nx e) ps" "lseg nx' q rs 0 = lseg nx q rs 0"
    using eq by (intro path_cong lseg_cong; simp)+
  ultimately show "merging nx' list' e (nx e) q (out @ [e]) ps rs"
    using m by (auto simp: merging_def)
qed

lemma merging_q:
  assumes m: "merging nx list tail p q out ps (e # rs)" and l: "link nx list tail e = (nx', list')"
  shows "q = e" and "merging nx' list' e p (nx e) (out @ [e]) ps rs"
proof -
  show "q = e" using m by (simp add: merging_def)
  note o = link_other [of out nx list e nx' list']
  have "path nx' list' (out @ [e])" using path_link m l by (auto simp: merging_def)
  moreover have eq: "x \<in> set (ps @ rs) \<Longrightarrow> nx' x = nx x" for x
    using m l by (intro o) (auto simp: merging_def)
  moreover have "path nx' p ps = path nx p ps" "lseg nx' (nx e) rs 0 = lseg nx (nx e) rs 0"
    using eq by (intro path_cong lseg_cong; simp)+
  ultimately show "merging nx' list' e p (nx e) (out @ [e]) ps rs"
    using m by (auto simp: merging_def)
qed

abbreviation cell_cmp :: "('d \<Rightarrow> 'd \<Rightarrow> 's \<Rightarrow> (int \<times> 's) option) \<Rightarrow> (ptr \<Rightarrow> 'd) \<Rightarrow> ptr \<Rightarrow> ptr \<Rightarrow> 's \<Rightarrow> (int \<times> 's) option" where
  "cell_cmp cmp info a b s \<equiv> cmp (info a) (info b) s"

lemma merge_loop_step:
  assumes "psize > 0 \<or> qsize > 0 \<and> q \<noteq> 0"
    and "merge_pick cmp info nx p psize q qsize s = Some (e, p', psize', q', qsize', s')"
    and "link nx list tail e = (nx', list')"
  shows "merge_loop cmp info nx list tail p psize q qsize s
       = merge_loop cmp info nx' list' e p' psize' q' qsize' s'"
  using assms by (subst merge_loop.simps) (auto simp: link_def split: if_splits)

lemma merging_hd: "merging nx list tail p q out ps rs \<Longrightarrow> q = hd0 rs"
  by (auto simp: merging_def lseg_hd0)

lemma merge_loop_fmerge:
  assumes "fmerge (cell_cmp cmp info) s ps (take qsize rs) = Some (ms, s')"
    and "merging nx list tail p q out ps rs"
  shows "\<exists>nx' list'. merge_loop cmp info nx list tail p (length ps) q qsize s
           = Some (nx', list', last0 (out @ ms), hd0 (drop qsize rs), s')
       \<and> merging nx' list' (last0 (out @ ms)) 0 (hd0 (drop qsize rs)) (out @ ms) [] (drop qsize rs)
       \<and> (\<forall>x. x \<notin> set (out @ ps @ rs) \<longrightarrow> nx' x = nx x)"
  using assms
proof (induction "length ps + length (take qsize rs)" arbitrary: ps rs qsize nx list tail p q out s ms)
  case 0
  from 0(1) have t: "ps = []" "take qsize rs = []"
    by (simp_all only: eq_commute [of 0] add_is_0 length_0_conv)
  with 0(2) have e: "ps = []" "take qsize rs = []" "ms = []" "s' = s" by auto
  then have "rs = [] \<or> qsize = 0" by auto
  then have d: "drop qsize rs = rs" "\<not> (qsize > 0 \<and> q \<noteq> 0)" using merging_hd [OF 0(3)] by auto
  have "tail = last0 out" "q = hd0 rs" "merging nx list tail 0 q out [] rs"
    using 0(3) merging_hd [OF 0(3)] by (auto simp: merging_def)
  with d e show ?case by (subst merge_loop.simps) auto
next
  case (Suc n)
  note m = Suc.prems(2)
  let ?goal = "\<exists>nx' list'. merge_loop cmp info nx list tail p (length ps) q qsize s
           = Some (nx', list', last0 (out @ ms), hd0 (drop qsize rs), s')
       \<and> merging nx' list' (last0 (out @ ms)) 0 (hd0 (drop qsize rs)) (out @ ms) [] (drop qsize rs)
       \<and> (\<forall>x. x \<notin> set (out @ ps @ rs) \<longrightarrow> nx' x = nx x)"
  have q: "q = hd0 rs" using m by (rule merging_hd)
  have nz: "0 \<notin> set (out @ ps @ rs)" using m by (simp add: merging_def cells_ok_def)
  have stepP: ?goal
    if e: "ps = e # ps'" "merge_pick cmp info nx p (length ps) q qsize s = Some (e, nx e, length ps', q, qsize, s1)"
      "fmerge (cell_cmp cmp info) s1 ps' (take qsize rs) = Some (ms', s')" "ms = e # ms'" for e ps' s1 ms'
  proof -
    obtain nx1 list1 where l: "link nx list tail e = (nx1, list1)" by (cases "link nx list tail e")
    note m1 = merging_p [OF m [unfolded e(1)] l]
    have "n = length ps' + length (take qsize rs)" using Suc.hyps(2) e(1) by simp
    from Suc.hyps(1) [OF this e(3) m1(2)] obtain nx' list' where
      r: "merge_loop cmp info nx1 list1 e (nx e) (length ps') q qsize s1
           = Some (nx', list', last0 ((out @ [e]) @ ms'), hd0 (drop qsize rs), s')"
      "merging nx' list' (last0 ((out @ [e]) @ ms')) 0 (hd0 (drop qsize rs)) ((out @ [e]) @ ms') [] (drop qsize rs)"
      "\<forall>x. x \<notin> set ((out @ [e]) @ ps' @ rs) \<longrightarrow> nx' x = nx1 x" by blast
    have "merge_loop cmp info nx list tail p (length ps) q qsize s
        = merge_loop cmp info nx1 list1 e (nx e) (length ps') q qsize s1"
      using e(1,2) l by (intro merge_loop_step) auto
    moreover have "nx1 x = nx x" if "x \<notin> set out" for x
      using link_other that l m by (auto simp: merging_def)
    ultimately show ?thesis using r e(1,4) by (intro exI [of _ nx'] exI [of _ list']) auto
  qed
  have stepQ: ?goal
    if e: "rs = e # rs'" "qsize = Suc qz" "merge_pick cmp info nx p (length ps) q qsize s = Some (e, p, length ps, nx e, qz, s1)"
      "fmerge (cell_cmp cmp info) s1 ps (take qz rs') = Some (ms', s')" "ms = e # ms'" for e rs' qz s1 ms'
  proof -
    obtain nx1 list1 where l: "link nx list tail e = (nx1, list1)" by (cases "link nx list tail e")
    note m1 = merging_q [OF m [unfolded e(1)] l]
    have "n = length ps + length (take qz rs')" using Suc.hyps(2) e(1,2) by simp
    from Suc.hyps(1) [OF this e(4) m1(2)] obtain nx' list' where
      r: "merge_loop cmp info nx1 list1 e p (length ps) (nx e) qz s1
           = Some (nx', list', last0 ((out @ [e]) @ ms'), hd0 (drop qz rs'), s')"
      "merging nx' list' (last0 ((out @ [e]) @ ms')) 0 (hd0 (drop qz rs')) ((out @ [e]) @ ms') [] (drop qz rs')"
      "\<forall>x. x \<notin> set ((out @ [e]) @ ps @ rs') \<longrightarrow> nx' x = nx1 x" by blast
    have "merge_loop cmp info nx list tail p (length ps) q qsize s
        = merge_loop cmp info nx1 list1 e p (length ps) (nx e) qz s1"
      using e(1-3) l q nz by (intro merge_loop_step) auto
    moreover have "nx1 x = nx x" if "x \<notin> set out" for x
      using link_other that l m by (auto simp: merging_def)
    ultimately show ?thesis using r e(1,2,5) by (intro exI [of _ nx'] exI [of _ list']) auto
  qed
  show ?case
  proof (cases ps)
    case Nil
    then obtain e rs' qz where e: "rs = e # rs'" "qsize = Suc qz"
      using Suc.hyps(2) by (cases rs; cases qsize) auto
    then have "ms = e # take qz rs'" "s' = s" using Suc.prems(1) Nil by simp_all
    with e Nil q nz show ?thesis by (intro stepQ [OF e]) (auto simp: merge_pick_def)
  next
    case (Cons a ps')
    have pa: "p = a" "a \<noteq> 0" using m nz by (auto simp: merging_def Cons)
    show ?thesis
    proof (cases "take qsize rs")
      case Nil
      then have "ms = a # ps'" "s' = s" using Suc.prems(1) unfolding Nil Cons by simp_all
      moreover have "fmerge (cell_cmp cmp info) s ps' [] = Some (ps', s)" by (cases ps') auto
      moreover have "qsize = 0 \<or> q = 0" using Nil q by (auto simp: hd0_def split: list.splits)
      ultimately show ?thesis
        using Cons pa Nil by (intro stepP [OF Cons, of s ps']) (auto simp: merge_pick_def)
    next
      case (Cons b bs)
      then obtain rs' qz where e: "rs = b # rs'" "qsize = Suc qz" "bs = take qz rs'"
        by (cases rs; cases qsize) auto
      have qb: "q = b" "b \<noteq> 0" using q nz by (auto simp: e(1))
      obtain v s1 where c: "cmp (info a) (info b) s = Some (v, s1)"
        using Suc.prems(1) by (auto simp: \<open>ps = a # ps'\<close> Cons bind_Some_iff)
      show ?thesis
      proof (cases "v \<le> 0")
        case True
        then obtain ms' where "fmerge (cell_cmp cmp info) s1 ps' (take qsize rs) = Some (ms', s')" "ms = a # ms'"
          using Suc.prems(1) c by (auto simp: \<open>ps = a # ps'\<close> Cons bind_Some_iff)
        with True c pa qb e(2) \<open>ps = a # ps'\<close> show ?thesis
          by (intro stepP [OF \<open>ps = a # ps'\<close>, of s1 ms']) (auto simp: merge_pick_def)
      next
        case False
        then obtain ms' where "fmerge (cell_cmp cmp info) s1 ps bs = Some (ms', s')" "ms = b # ms'"
          using Suc.prems(1) c by (auto simp: \<open>ps = a # ps'\<close> Cons bind_Some_iff)
        with False c pa qb e \<open>ps = a # ps'\<close> show ?thesis
          by (intro stepQ [OF e(1,2), of s1 ms']) (auto simp: merge_pick_def)
      qed
    qed
  qed
qed

text \<open>A pass of the code is a pass on the list.\<close>

lemma fmerge_set: "fmerge c s ps qs = Some (ms, s') \<Longrightarrow> mset ms = mset ps + mset qs"
proof (induction c s ps qs arbitrary: ms rule: fmerge.induct)
  case (3 c s p ps q qs)
  then obtain v s1 where c: "c p q s = Some (v, s1)" by (auto simp: bind_Some_iff)
  show ?case
  proof (cases "v \<le> 0")
    case True
    then obtain ms' where "fmerge c s1 ps (q # qs) = Some (ms', s')" "ms = p # ms'"
      using 3(3) c by (auto simp: bind_Some_iff)
    with 3(1) [OF c refl True] show ?thesis by simp
  next
    case False
    then obtain ms' where "fmerge c s1 (p # ps) qs = Some (ms', s')" "ms = q # ms'"
      using 3(3) c by (auto simp: bind_Some_iff)
    with 3(2) [OF c refl False] show ?thesis by simp
  qed
qed auto

lemma pass_loop_fpass:
  assumes "fpass (cell_cmp cmp info) n s xs = Some (ys, k, s')" "0 < n"
    and "merging nx list tail 0 p out [] xs"
  shows "\<exists>nx' list'. pass_loop cmp info n nx list tail p nm s
           = Some (nx', list', last0 (out @ ys), nm + k, s')
       \<and> merging nx' list' (last0 (out @ ys)) 0 0 (out @ ys) [] []
       \<and> (\<forall>x. x \<notin> set (out @ xs) \<longrightarrow> nx' x = nx x)"
  using assms
proof (induction "length xs" arbitrary: xs nx list tail p out nm s ys k rule: less_induct)
  case less
  have p: "p = hd0 xs" using less.prems(3) by (rule merging_hd)
  have ok: "cells_ok xs" "lseg nx p xs 0" using less.prems(3) by (auto simp: merging_def)
  show ?case
  proof (cases "xs = []")
    case True
    then have "ys = []" "k = 0" "s' = s" using less.prems(1) by (auto simp: fpass.simps [of _ _ _ "[]"])
    moreover have "tail = last0 out" using less.prems(3) by (simp add: merging_def)
    ultimately show ?thesis using True less.prems(3) p by (subst pass_loop.simps) auto
  next
    case False
    then have p0: "p \<noteq> 0" using p ok by (cases xs) auto
    obtain ms s1 ys' k' where f: "fmerge (cell_cmp cmp info) s (take n xs) (take n (drop n xs)) = Some (ms, s1)"
      "fpass (cell_cmp cmp info) n s1 (drop (2 * n) xs) = Some (ys', k', s')" "ys = ms @ ys'" "k = k' + 1"
      using less.prems(1,2) False by (subst (asm) fpass.simps) (auto simp: bind_Some_iff)
    have adv: "advance nx n p 0 = Some (hd0 (drop n xs), length (take n xs))"
      using advance_lseg [OF ok(2,1) False, of n 0] by (simp add: min.commute)
    obtain r where "lseg nx p (take n xs) r" "lseg nx r (drop n xs) 0"
      using ok(2) lseg_append [of nx p "take n xs" "drop n xs" 0] by auto
    moreover from this(2) have "r = hd0 (drop n xs)" by (rule lseg_hd0)
    moreover have "cells_ok (out @ take n xs @ drop n xs)" using less.prems(3) by (simp add: merging_def)
    ultimately have m: "merging nx list tail p (hd0 (drop n xs)) out (take n xs) (drop n xs)"
      using less.prems(3) by (auto simp: merging_def lseg_path)
    obtain nx1 list1 where l1: "merge_loop cmp info nx list tail p (length (take n xs)) (hd0 (drop n xs)) n s
        = Some (nx1, list1, last0 (out @ ms), hd0 (drop (2 * n) xs), s1)"
      "merging nx1 list1 (last0 (out @ ms)) 0 (hd0 (drop (2 * n) xs)) (out @ ms) [] (drop (2 * n) xs)"
      "\<forall>x. x \<notin> set (out @ take n xs @ drop n xs) \<longrightarrow> nx1 x = nx x"
      using merge_loop_fmerge [where cmp = cmp and info = info and qsize = n and rs = "drop n xs" and ps = "take n xs", OF f(1) m] by (auto simp: mult_2)
    have "length (drop (2 * n) xs) < length xs" using False less.prems(2) by simp
    from less.hyps [OF this f(2) less.prems(2) l1(2), of "nm + 1"] obtain nx' list' where
      l2: "pass_loop cmp info n nx1 list1 (last0 (out @ ms)) (hd0 (drop (2 * n) xs)) (nm + 1) s1
           = Some (nx', list', last0 ((out @ ms) @ ys'), nm + 1 + k', s')"
      "merging nx' list' (last0 ((out @ ms) @ ys')) 0 0 ((out @ ms) @ ys') [] []"
      "\<forall>x. x \<notin> set ((out @ ms) @ drop (2 * n) xs) \<longrightarrow> nx' x = nx1 x" by blast
    have "set ms \<subseteq> set xs"
      using fmerge_set [OF f(1)] by (metis in_set_dropD in_set_takeD set_mset_mset set_mset_union subsetI Un_iff)
    then have "\<forall>x. x \<notin> set (out @ xs) \<longrightarrow> nx' x = nx x"
      using l1(3) l2(3) by (auto dest: in_set_takeD in_set_dropD)
    moreover have "pass_loop cmp info n nx list tail p nm s
        = Some (nx', list', last0 (out @ ys), nm + k, s')"
      using p0 adv l1(1) l2(1) f(3,4) by (subst pass_loop.simps) simp
    ultimately show ?thesis using l2(2) f(3) by auto
  qed
qed

section \<open>Sorting by keys\<close>

lemma sort_key_sorted_id: "sorted (map f xs) \<Longrightarrow> sort_key f xs = xs"
  by (induction xs) (auto simp: insort_is_Cons)

lemma insort_last_less:
  "\<forall>x \<in> set ps. f q < f x \<Longrightarrow> sort_key f (ps @ q # qs) = insort_key f q (sort_key f (ps @ qs))"
  by (induction ps) (auto simp: insort_key_left_comm)

lemma sort_key_stable': "filter (\<lambda>x. k = f x) (sort_key f xs) = filter (\<lambda>x. k = f x) xs"
proof -
  have "(\<lambda>x. k = f x) = (\<lambda>x. f x = k)" by auto
  then show ?thesis by (simp only: sort_key_stable)
qed

lemma sort_key_eqI:
  assumes "mset xs = mset ys" "\<And>k. filter (\<lambda>x. k = f x) xs = filter (\<lambda>x. k = f x) ys"
  shows "sort_key f xs = sort_key f ys"
  using assms by (intro properties_for_sort_key) (simp_all add: sort_key_stable')

lemma sort_key_merge: "sort_key f (sort_key f xs @ sort_key f ys) = sort_key f (xs @ ys)"
  by (rule sort_key_eqI) (simp_all add: sort_key_stable')

text \<open>The list with its blocks of length \<open>n\<close> sorted, the invariant between passes.\<close>

function blocks :: "('a \<Rightarrow> int) \<Rightarrow> nat \<Rightarrow> 'a list \<Rightarrow> 'a list" where
  "blocks f n xs = (if xs = [] \<or> n = 0 then xs else sort_key f (take n xs) @ blocks f n (drop n xs))"
  by pat_completeness auto
termination by (relation "measure (\<lambda>(f, n, xs). length xs)") auto

declare blocks.simps [simp del]

lemma blocks_Nil [simp]: "blocks f n [] = []"
  by (simp add: blocks.simps)

lemma blocks_all: "0 < n \<Longrightarrow> length xs \<le> n \<Longrightarrow> blocks f n xs = sort_key f xs"
  by (subst blocks.simps) auto

lemma blocks_1: "blocks f 1 xs = xs"
proof (induction xs)
  case (Cons x xs)
  then show ?case by (subst blocks.simps) simp
qed simp

lemma length_blocks [simp]: "length (blocks f n xs) = length xs"
proof (induction "length xs" arbitrary: xs rule: less_induct)
  case less
  then show ?case by (subst blocks.simps) auto
qed

lemma blocks_eq_Nil [simp]: "blocks f n xs = [] \<longleftrightarrow> xs = []" "[] = blocks f n xs \<longleftrightarrow> xs = []"
  using length_blocks [of f n xs] by (metis blocks_Nil length_0_conv)+

lemma take_drop_blocks:
  assumes "0 < n"
  shows "take n (blocks f n xs) = sort_key f (take n xs)" "drop n (blocks f n xs) = blocks f n (drop n xs)"
proof -
  have "take n (blocks f n xs) = sort_key f (take n xs) \<and> drop n (blocks f n xs) = blocks f n (drop n xs)"
  proof (cases "xs = []")
    case False
    then have "blocks f n xs = sort_key f (take n xs) @ blocks f n (drop n xs)"
      using assms by (subst blocks.simps) simp
    then show ?thesis by (cases "n \<le> length xs") (auto simp: min_def)
  qed simp
  then show "take n (blocks f n xs) = sort_key f (take n xs)" "drop n (blocks f n xs) = blocks f n (drop n xs)"
    by auto
qed

section \<open>What the sort needs of a comparison\<close>

text \<open>\<open>key s a\<close> is the key of cell \<open>a\<close> as far as it is known in state \<open>s\<close>. Comparing
  two cells makes their keys known, and a key that is known never changes.\<close>

locale comparator =
  fixes cmp :: "'d \<Rightarrow> 'd \<Rightarrow> 's \<Rightarrow> (int \<times> 's) option"
    and info :: "ptr \<Rightarrow> 'd"
    and inv :: "'s \<Rightarrow> bool"
    and key :: "'s \<Rightarrow> ptr \<Rightarrow> int option"
    and D :: "ptr set"
  assumes cmp_law: "inv s \<Longrightarrow> a \<in> D \<Longrightarrow> b \<in> D \<Longrightarrow>
    \<exists>v s' ka kb. cmp (info a) (info b) s = Some (v, s') \<and> inv s' \<and> key s \<subseteq>\<^sub>m key s'
      \<and> key s' a = Some ka \<and> key s' b = Some kb \<and> (v \<le> 0 \<longleftrightarrow> ka \<le> kb)"
begin

definition extends :: "(ptr \<Rightarrow> int) \<Rightarrow> 's \<Rightarrow> bool" where
  "extends f s \<longleftrightarrow> (\<forall>a k. key s a = Some k \<longrightarrow> f a = k)"

lemma extends_mono: "extends f s' \<Longrightarrow> key s \<subseteq>\<^sub>m key s' \<Longrightarrow> extends f s"
  unfolding extends_def
proof (intro allI impI)
  fix a k assume e: "\<forall>a k. key s' a = Some k \<longrightarrow> f a = k" and m: "key s \<subseteq>\<^sub>m key s'" and k: "key s a = Some k"
  have "a \<in> dom (key s)" using k by (rule domI)
  then have "key s' a = Some k" using m k by (simp add: map_le_def)
  then show "f a = k" using e by blast
qed

lemma fmerge_ok:
  assumes "inv s" "set ps \<union> set qs \<subseteq> D"
  shows "\<exists>ms s'. fmerge (cell_cmp cmp info) s ps qs = Some (ms, s') \<and> inv s' \<and> key s \<subseteq>\<^sub>m key s'
    \<and> (\<forall>f. extends f s' \<and> sorted (map f ps) \<and> sorted (map f qs) \<longrightarrow> ms = sort_key f (ps @ qs))"
  using assms
proof (induction "length ps + length qs" arbitrary: s ps qs)
  case 0
  then show ?case by auto
next
  case (Suc n)
  show ?case
  proof (cases "ps = [] \<or> qs = []")
    case True
    then have "fmerge (cell_cmp cmp info) s ps qs = Some (ps @ qs, s)" by (cases ps; cases qs) auto
    with Suc.prems True show ?thesis by (auto simp: sort_key_sorted_id)
  next
    case False
    then obtain p ps' q qs' where pq: "ps = p # ps'" "qs = q # qs'" by (cases ps; cases qs) auto
    then obtain v s1 kp kq where c: "cmp (info p) (info q) s = Some (v, s1)" "inv s1" "key s \<subseteq>\<^sub>m key s1"
      "key s1 p = Some kp" "key s1 q = Some kq" "v \<le> 0 \<longleftrightarrow> kp \<le> kq"
      using cmp_law [OF Suc.prems(1), of p q] Suc.prems(2) by auto
    show ?thesis
    proof (cases "v \<le> 0")
      case True
      have "n = length ps' + length qs" "set ps' \<union> set qs \<subseteq> D" using Suc.hyps(2) Suc.prems(2) pq by auto
      then obtain ms s' where m: "fmerge (cell_cmp cmp info) s1 ps' qs = Some (ms, s')" "inv s'" "key s1 \<subseteq>\<^sub>m key s'"
        "\<And>f. extends f s' \<Longrightarrow> sorted (map f ps') \<Longrightarrow> sorted (map f qs) \<Longrightarrow> ms = sort_key f (ps' @ qs)"
        using Suc.hyps(1) [OF _ c(2)] by blast
      have "p # ms = sort_key f (ps @ qs)"
        if f: "extends f s'" "sorted (map f ps)" "sorted (map f qs)" for f
      proof -
        have "f p = kp" "f q = kq" using extends_mono [OF f(1) m(3)] c(4,5) by (auto simp: extends_def)
        then have "f p \<le> f q" using True c(6) by simp
        then have "\<forall>x \<in> set (ps' @ qs). f p \<le> f x" using f(2,3) pq by auto
        with m(4) f pq show ?thesis by (simp add: insort_is_Cons)
      qed
      moreover have "fmerge (cell_cmp cmp info) s ps qs = Some (p # ms, s')"
        using c(1) m(1) True pq by simp
      moreover have "key s \<subseteq>\<^sub>m key s'" using c(3) m(3) by (rule map_le_trans)
      ultimately show ?thesis using m(2) by blast
    next
      case v: False
      have "n = length ps + length qs'" "set ps \<union> set qs' \<subseteq> D" using Suc.hyps(2) Suc.prems(2) pq by auto
      then obtain ms s' where m: "fmerge (cell_cmp cmp info) s1 ps qs' = Some (ms, s')" "inv s'" "key s1 \<subseteq>\<^sub>m key s'"
        "\<And>f. extends f s' \<Longrightarrow> sorted (map f ps) \<Longrightarrow> sorted (map f qs') \<Longrightarrow> ms = sort_key f (ps @ qs')"
        using Suc.hyps(1) [OF _ c(2)] by blast
      have "q # ms = sort_key f (ps @ qs)"
        if f: "extends f s'" "sorted (map f ps)" "sorted (map f qs)" for f
      proof -
        have "f p = kp" "f q = kq" using extends_mono [OF f(1) m(3)] c(4,5) by (auto simp: extends_def)
        then have "f q < f p" using v c(6) by simp
        then have l: "\<forall>x \<in> set ps. f q < f x" using f(2) pq by fastforce
        have "sort_key f (ps @ qs) = insort_key f q (sort_key f (ps @ qs'))"
          unfolding pq(2) by (rule insort_last_less [OF l])
        also have "\<dots> = q # sort_key f (ps @ qs')"
          using l f(3) pq(2) by (intro insort_is_Cons) (auto intro: less_imp_le)
        finally show ?thesis using m(4) f pq by simp
      qed
      moreover have "fmerge (cell_cmp cmp info) s ps qs = Some (q # ms, s')"
        using c(1) m(1) v pq by simp
      moreover have "key s \<subseteq>\<^sub>m key s'" using c(3) m(3) by (rule map_le_trans)
      ultimately show ?thesis using m(2) by blast
    qed
  qed
qed

lemma fpass_ok:
  assumes "inv s" "set xs \<subseteq> D" "0 < n"
  shows "\<exists>ys k s'. fpass (cell_cmp cmp info) n s xs = Some (ys, k, s') \<and> inv s' \<and> key s \<subseteq>\<^sub>m key s'
    \<and> mset ys = mset xs \<and> (k = 0 \<longleftrightarrow> xs = []) \<and> (k \<le> 1 \<longleftrightarrow> length xs \<le> 2 * n)
    \<and> (\<forall>f zs. extends f s' \<and> xs = blocks f n zs \<longrightarrow> ys = blocks f (2 * n) zs)"
  using assms
proof (induction "length xs" arbitrary: xs s rule: less_induct)
  case less
  show ?case
  proof (cases "xs = []")
    case True
    with less.prems show ?thesis by (auto simp: fpass.simps)
  next
    case False
    let ?as = "take n xs" and ?bs = "take n (drop n xs)" and ?r = "drop (2 * n) xs"
    have split: "xs = ?as @ ?bs @ ?r" by (metis append_take_drop_id drop_drop mult_2)
    have sub: "set ?as \<union> set ?bs \<subseteq> D" "set ?r \<subseteq> D"
      using less.prems(2) by (auto dest: in_set_takeD in_set_dropD)
    obtain ms s1 where m: "fmerge (cell_cmp cmp info) s ?as ?bs = Some (ms, s1)" "inv s1" "key s \<subseteq>\<^sub>m key s1"
      "\<And>f. extends f s1 \<Longrightarrow> sorted (map f ?as) \<Longrightarrow> sorted (map f ?bs) \<Longrightarrow> ms = sort_key f (?as @ ?bs)"
      using fmerge_ok [OF less.prems(1) sub(1)] by blast
    have "length ?r < length xs" using False less.prems(3) by simp
    from less.hyps [OF this m(2) sub(2) less.prems(3)] obtain ys k s' where
      r: "fpass (cell_cmp cmp info) n s1 ?r = Some (ys, k, s')" "inv s'" "key s1 \<subseteq>\<^sub>m key s'"
        "mset ys = mset ?r" "k = 0 \<longleftrightarrow> ?r = []"
        "\<And>f zs. extends f s' \<Longrightarrow> ?r = blocks f n zs \<Longrightarrow> ys = blocks f (2 * n) zs" by blast
    have "fpass (cell_cmp cmp info) n s xs = Some (ms @ ys, k + 1, s')"
      using False less.prems(3) m(1) r(1) by (subst fpass.simps) simp
    moreover have "mset (ms @ ys) = mset xs"
      using fmerge_set [OF m(1)] r(4) split by (metis add.assoc mset_append)
    moreover have "ms @ ys = blocks f (2 * n) zs" if f: "extends f s'" "xs = blocks f n zs" for f zs
    proof -
      note td = take_drop_blocks [OF less.prems(3), of f]
      have e1: "extends f s1" using f(1) r(3) by (rule extends_mono)
      have a: "?as = sort_key f (take n zs)" using f(2) td(1) by simp
      have b: "?bs = sort_key f (take n (drop n zs))" using f(2) td by simp
      have "sorted (map f ?as)" "sorted (map f ?bs)" unfolding a b by simp_all
      then have "ms = sort_key f (take n zs @ take n (drop n zs))"
        using m(4) [OF e1] a b sort_key_merge [of f] by metis
      then have ms: "ms = sort_key f (take (2 * n) zs)" by (simp add: mult_2 take_add)
      have "?r = blocks f n (drop (2 * n) zs)" using f(2) td(2) by (metis drop_drop mult_2)
      then have "ys = blocks f (2 * n) (drop (2 * n) zs)" by (rule r(6) [OF f(1)])
      moreover have "zs \<noteq> []" using f(2) False by auto
      ultimately show ?thesis using ms less.prems(3) by (subst blocks.simps) simp
    qed
    moreover have "key s \<subseteq>\<^sub>m key s'" using m(3) r(3) by (rule map_le_trans)
    ultimately show ?thesis using False r(2,5) by auto
  qed
qed

lemma sort_loop_ok:
  assumes "inv s" "set xs \<subseteq> D" "0 < n" "n = 1 \<or> n < length xs" "xs \<noteq> []" "cells_ok xs" "lseg nx p xs 0"
    and "length xs < 2 ^ 31"
  shows "\<exists>nx' ys s'. sort_loop cmp info n nx p s = Some (nx', hd0 ys, s') \<and> lseg nx' (hd0 ys) ys 0
    \<and> cells_ok ys \<and> mset ys = mset xs \<and> inv s' \<and> key s \<subseteq>\<^sub>m key s'
    \<and> (\<forall>f zs. extends f s' \<and> xs = blocks f n zs \<longrightarrow> ys = sort_key f zs)
    \<and> (\<forall>x. x \<notin> set xs \<longrightarrow> nx' x = nx x)"
  using assms
proof (induction "length xs - n" arbitrary: n xs nx p s rule: less_induct)
  case less
  obtain ys k s1 where f: "fpass (cell_cmp cmp info) n s xs = Some (ys, k, s1)" "inv s1" "key s \<subseteq>\<^sub>m key s1"
    "mset ys = mset xs" "k \<le> 1 \<longleftrightarrow> length xs \<le> 2 * n"
    "\<And>f zs. extends f s1 \<Longrightarrow> xs = blocks f n zs \<Longrightarrow> ys = blocks f (2 * n) zs"
    using fpass_ok [OF less.prems(1-3)] by blast
  have m0: "merging nx 0 0 0 p [] [] xs" using less.prems(6,7) by (simp add: merging_def)
  obtain nx1 list1 where l: "pass_loop cmp info n nx 0 0 p 0 s = Some (nx1, list1, last0 ys, k, s1)"
    "merging nx1 list1 (last0 ys) 0 0 ys [] []" "\<forall>x. x \<notin> set xs \<longrightarrow> nx1 x = nx x"
    using pass_loop_fpass [where cmp = cmp and info = info and nm = 0, OF f(1) less.prems(3) m0] by auto
  have ys: "ys \<noteq> []" "set ys = set xs" "length ys = length xs"
    using f(4) less.prems(5) by (auto dest: mset_eq_setD mset_eq_length)
  have ok: "cells_ok ys" "path nx1 list1 ys" using l(2) by (simp_all add: merging_def)
  have tail: "last0 ys \<noteq> 0" using ok(1) last0_in [OF ys(1)] by (metis cells_ok_def)
  define nx2 where "nx2 = nx1(last0 ys := 0)"
  have hd: "list1 = hd0 ys" using ok(2) ys(1) by (cases ys) auto
  have seg: "lseg nx2 (hd0 ys) ys 0"
  proof -
    obtain zs t where z: "ys = zs @ [t]" using ys(1) by (cases ys rule: rev_cases) auto
    have "zs \<noteq> [] \<Longrightarrow> last zs \<noteq> t" using ok(1) z last_in_set [of zs] by auto
    then have "path nx2 list1 ys" using ok z by (cases "zs = []") (auto simp: nx2_def path_append)
    then show ?thesis using z hd by (simp add: lseg_path nx2_def)
  qed
  have frame: "\<forall>x. x \<notin> set xs \<longrightarrow> nx2 x = nx x"
    using l(3) last0_in [OF ys(1)] ys(2) by (auto simp: nx2_def)
  show ?case
  proof (cases "k \<le> 1")
    case True
    then have le: "length xs \<le> 2 * n" using f(5) by simp
    have "sort_loop cmp info n nx p s = Some (nx2, hd0 ys, s1)"
      using l(1) tail True hd by (subst sort_loop.simps) (simp add: nx2_def)
    moreover have "ys = sort_key f zs" if "extends f s1" "xs = blocks f n zs" for f zs
      using f(6) [OF that] le less.prems(3) that(2) blocks_all [of "2 * n" zs f] by simp
    ultimately show ?thesis using seg ok(1) f(2-4) frame by blast
  next
    case False
    then have gt: "2 * n < length xs" using f(5) by simp
    have "length ys - 2 * n < length xs - n" using gt ys(3) less.prems(3) by simp
    from less.hyps [OF this f(2) _ _ _ ys(1) ok(1) seg] less.prems(2,3,8) ys(2,3) gt
    obtain nx' us s' where r: "sort_loop cmp info (2 * n) nx2 (hd0 ys) s1 = Some (nx', hd0 us, s')"
      "lseg nx' (hd0 us) us 0" "cells_ok us" "mset us = mset ys" "inv s'" "key s1 \<subseteq>\<^sub>m key s'"
      "\<And>f zs. extends f s' \<Longrightarrow> ys = blocks f (2 * n) zs \<Longrightarrow> us = sort_key f zs"
      "\<forall>x. x \<notin> set ys \<longrightarrow> nx' x = nx2 x" by auto
    have "sort_loop cmp info n nx p s = Some (nx', hd0 us, s')"
      using l(1) tail False hd gt less.prems(8) r(1) by (subst sort_loop.simps) (simp add: nx2_def)
    moreover have "us = sort_key f zs" if "extends f s'" "xs = blocks f n zs" for f zs
      using r(7) [OF that(1)] f(6) [OF extends_mono [OF that(1) r(6)] that(2)] by blast
    moreover have "key s \<subseteq>\<^sub>m key s'" using f(3) r(6) by (rule map_le_trans)
    moreover have "\<forall>x. x \<notin> set xs \<longrightarrow> nx' x = nx x" using r(8) frame ys(2) by simp
    ultimately show ?thesis using r(2-5) f(4) by (metis (no_types, lifting))
  qed
qed

text \<open>Keys that stay unknown could be anything, so in a list of two cells or more all are known
  in the end.\<close>

lemma keys_known:
  assumes "\<And>f. extends f s \<Longrightarrow> ys = sort_key f xs" "distinct xs" "2 \<le> length xs" "x \<in> set xs"
  shows "key s x \<noteq> None"
proof
  assume none: "key s x = None"
  define g where "g = (\<lambda>y. case key s y of Some k \<Rightarrow> k | None \<Rightarrow> 0)"
  define lo where "lo = Min (g ` set xs) - 1"
  define hi where "hi = Max (g ` set xs) + 1"
  have ext: "extends (g(x := v)) s" for v using none by (auto simp: extends_def g_def)
  have b: "lo < g y" "g y < hi" if "y \<in> set xs" for y
  proof -
    have "Min (g ` set xs) \<le> g y" "g y \<le> Max (g ` set xs)" using that by auto
    then show "lo < g y" "g y < hi" unfolding lo_def hi_def by linarith+
  qed
  obtain us vs where xs: "xs = us @ x # vs" using assms(4) by (auto dest: split_list)
  have len: "us @ vs \<noteq> []" using assms(3) xs by (cases us; cases vs) auto
  have l: "ys = sort_key (g(x := lo)) xs" and h: "ys = sort_key (g(x := hi)) xs"
    using assms(1) ext by blast+
  have d: "distinct ys" "length ys = length xs" using assms(2) l by (auto simp: distinct_sort length_sort)
  have "hd ys = x"
  proof (rule ccontr)
    assume "hd ys \<noteq> x"
    moreover have "x \<in> set ys" using assms(4) unfolding l by simp
    moreover have "ys \<noteq> []" using d(2) assms(3) by auto
    ultimately obtain y zs where y: "ys = y # zs" "y \<noteq> x" "x \<in> set zs" by (cases ys) auto
    have "sorted (map (g(x := lo)) ys)" unfolding l by simp
    then have "g y \<le> lo" using y by auto
    moreover have "y \<in> set xs" using y(1) l by (metis list.set_intros(1) set_sort)
    ultimately show False using b(1) [of y] by simp
  qed
  moreover have "last ys = x"
  proof (rule ccontr)
    assume "last ys \<noteq> x"
    moreover have "x \<in> set ys" using assms(4) unfolding l by simp
    moreover have "ys \<noteq> []" using d(2) assms(3) by auto
    ultimately obtain y zs where y: "ys = zs @ [y]" "y \<noteq> x" "x \<in> set zs" by (cases ys rule: rev_cases) auto
    have "sorted (map (g(x := hi)) ys)" unfolding h by simp
    then have "hi \<le> g y" using y by (auto simp: sorted_append)
    moreover have "y \<in> set xs" using y(1) l by (metis in_set_conv_decomp set_sort)
    ultimately show False using b(2) [of y] by simp
  qed
  moreover have "hd ys \<noteq> last ys" using d assms(3) by (cases ys) auto
  ultimately show False by simp
qed

text \<open>The sort as the code calls it.\<close>

lemma mergesort_ok:
  assumes "inv s" "set xs \<subseteq> D" "xs \<noteq> []" "cells_ok xs" "lseg nx p xs 0" "length xs < 2 ^ 31"
  shows "\<exists>nx' ys s'. core_list_mergesort cmp info nx p s = Some (nx', hd0 ys, s') \<and> lseg nx' (hd0 ys) ys 0
    \<and> cells_ok ys \<and> mset ys = mset xs \<and> inv s' \<and> key s \<subseteq>\<^sub>m key s'
    \<and> (\<forall>f. extends f s' \<longrightarrow> ys = sort_key f xs)
    \<and> (2 \<le> length xs \<longrightarrow> (\<forall>x \<in> set xs. key s' x \<noteq> None))
    \<and> (\<forall>x. x \<notin> set xs \<longrightarrow> nx' x = nx x)"
proof -
  obtain nx' ys s' where r: "sort_loop cmp info 1 nx p s = Some (nx', hd0 ys, s')" "lseg nx' (hd0 ys) ys 0"
    "cells_ok ys" "mset ys = mset xs" "inv s'" "key s \<subseteq>\<^sub>m key s'"
    "\<forall>f zs. extends f s' \<and> xs = blocks f 1 zs \<longrightarrow> ys = sort_key f zs"
    "\<forall>x. x \<notin> set xs \<longrightarrow> nx' x = nx x"
    using sort_loop_ok [OF assms(1,2) zero_less_one _ assms(3-6)] by auto
  have s: "\<And>f. extends f s' \<Longrightarrow> ys = sort_key f xs" using r(7) blocks_1 by metis
  have "key s' x \<noteq> None" if "2 \<le> length xs" "x \<in> set xs" for x
    using keys_known [OF s _ that] assms(4) by (simp add: cells_ok_def)
  then show ?thesis using r s by (auto simp: core_list_mergesort_def)
qed

end

end
