(* ===== verification/CoreUtil.thy ===== *)
theory CoreUtil
  imports Prelude
begin

unbundle bit_operations_syntax

text \<open>
  The service functions of CoreMark, \<open>src/lib/coremark/core_util.c\<close>: the 16-bit CRC the
  benchmark folds its results with, the seed sources (the volatile variables the build selects
  and the command-line parser) and the data-type check. The lemmas identify the bit loop of
  \<open>crcu8\<close> with the reflected CRC-16 register (polynomial 0xA001) and draw from it that
  the CRC is linear and that no two values and no two registers are ever confused.
\<close>

section \<open>The CRC\<close>

text \<open>The body of the loop in \<open>crcu8\<close>, on \<open>data\<close> and \<open>crc\<close>.\<close>

definition crcu8_body :: "u8 \<times> u16 \<Rightarrow> u8 \<times> u16" where
  "crcu8_body = (\<lambda>(data, crc).
     let x16 = (data AND 1) XOR ((ucast crc :: u8) AND 1);
         data = drop_bit 1 data;
         carry = (x16 = 1);
         crc = (if carry then crc XOR 0x4002 else crc);
         crc = drop_bit 1 crc
     in (data, if carry then crc OR 0x8000 else crc AND 0x7fff))"

definition crcu8 :: "u8 \<Rightarrow> u16 \<Rightarrow> u16" where
  "crcu8 data crc = snd ((crcu8_body ^^ 8) (data, crc))"

definition crcu16 :: "u16 \<Rightarrow> u16 \<Rightarrow> u16" where
  "crcu16 newval crc = crcu8 (ucast (drop_bit 8 newval)) (crcu8 (ucast newval) crc)"

definition crc16 :: "s16 \<Rightarrow> u16 \<Rightarrow> u16" where
  "crc16 newval crc = crcu16 newval crc"

definition crcu32 :: "u32 \<Rightarrow> u16 \<Rightarrow> u16" where
  "crcu32 newval crc = crc16 (ucast (drop_bit 16 newval)) (crc16 (ucast newval) crc)"

text \<open>The textbook register: shift right, and subtract the polynomial when a one falls out.\<close>

definition lfsr :: "u16 \<Rightarrow> u16" where
  "lfsr k = (if bit k 0 then drop_bit 1 k XOR 0xA001 else drop_bit 1 k)"

definition lfsr_back :: "u16 \<Rightarrow> u16" where
  "lfsr_back r = (if bit r 15 then push_bit 1 (r XOR 0xA001) OR 1 else push_bit 1 r)"

lemma bit_0x4002: "bit (0x4002 :: u16) n \<longleftrightarrow> n = 1 \<or> n = 14"
  by (rule iffI; (cases "n < 16")?) (auto simp: bit_simps numeral_eq_Suc less_Suc_eq)

lemma bit_0x2001: "bit (0x2001 :: u16) n \<longleftrightarrow> n = 0 \<or> n = 13"
  by (rule iffI; (cases "n < 16")?) (auto simp: bit_simps numeral_eq_Suc less_Suc_eq)

lemma bit_0x8000: "bit (0x8000 :: u16) n \<longleftrightarrow> n = 15"
  by (rule iffI; (cases "n < 16")?) (auto simp: bit_simps numeral_eq_Suc less_Suc_eq)

lemma bit_0x7fff: "bit (0x7fff :: u16) n \<longleftrightarrow> n < 15"
proof -
  have "(0x7fff :: u16) = mask 15" by (simp add: mask_eq_exp_minus_1)
  then show ?thesis by (simp only: bit_mask_iff) auto
qed

lemma bit_0xA001: "bit (0xA001 :: u16) n \<longleftrightarrow> n = 0 \<or> n = 13 \<or> n = 15"
  by (rule iffI; (cases "n < 16")?) (auto simp: bit_simps numeral_eq_Suc less_Suc_eq)

lemmas crc_masks = bit_0x4002 bit_0x2001 bit_0x8000 bit_0x7fff bit_0xA001

lemma xor_low_bits:
  "((d :: u8) AND 1) XOR ((ucast (c :: u16) :: u8) AND 1) = 1 \<longleftrightarrow> bit c 0 \<noteq> bit d 0"
proof -
  have "(d AND 1) XOR ((ucast c :: u8) AND 1) = (d XOR ucast c) AND 1"
    by (simp add: bit_eq_iff bit_simps) blast
  also have "\<dots> = of_bool (bit (d XOR (ucast c :: u8)) 0)"
    by (simp add: and_one_eq odd_iff_mod_2_eq_one [symmetric] mod2_eq_if bit_0)
  finally show ?thesis by (auto simp: bit_simps)
qed

lemma crcu8_body_eq:
  "crcu8_body (d, c) = (drop_bit 1 d, lfsr (c XOR ucast d) XOR ucast (drop_bit 1 d))"
  unfolding crcu8_body_def lfsr_def prod.case Let_def xor_low_bits
  by (simp add: bit_xor_iff bit_ucast_iff, intro conjI impI bit_eqI;
      simp add: bit_simps crc_masks del: bit_numeral_word_iff; auto dest: bit_imp_le_length)

lemma crcu8_body_funpow:
  "(crcu8_body ^^ n) (d, c) = (drop_bit n d, (lfsr ^^ n) (c XOR ucast d) XOR ucast (drop_bit n d))"
proof (induction n)
  case 0
  then show ?case by (simp add: xor.assoc)
next
  case (Suc n)
  then show ?case by (simp add: crcu8_body_eq xor.assoc)
qed

lemma crcu8_lfsr: "crcu8 d c = (lfsr ^^ 8) (c XOR ucast d)"
proof -
  have "drop_bit 8 d = 0" by (intro bit_eqI) (auto simp: bit_simps dest: bit_imp_le_length)
  then show ?thesis by (simp add: crcu8_def crcu8_body_funpow)
qed

lemma bit_lfsr:
  "bit (lfsr k) n \<longleftrightarrow> bit k (Suc n) \<noteq> (bit k 0 \<and> (n = 0 \<or> n = 13 \<or> n = 15))"
  unfolding lfsr_def
  by (simp add: bit_xor_iff bit_drop_bit_eq bit_0xA001 del: bit_numeral_word_iff)

lemma bit_lfsr_back:
  "bit (lfsr_back r) n \<longleftrightarrow> n < 16 \<and>
     (if n = 0 then bit r 15 else bit r (n - 1) \<noteq> (bit r 15 \<and> (n = 1 \<or> n = 14)))"
  by (cases "bit r 15"; simp only: lfsr_back_def if_True if_False bit_or_iff bit_push_bit_iff
      bit_xor_iff bit_0xA001 bit_1_iff; auto)

lemma lfsr_xor: "lfsr (a XOR b) = lfsr a XOR lfsr b"
  by (rule bit_eqI) (auto simp: bit_lfsr bit_xor_iff)

lemma lfsr_pow_xor: "(lfsr ^^ n) (a XOR b) = (lfsr ^^ n) a XOR (lfsr ^^ n) b"
  by (induction n) (simp_all add: lfsr_xor)

lemma lfsr_back_lfsr: "lfsr_back (lfsr k) = k"
proof (rule bit_eqI)
  fix n
  have "bit k 16 = False" by (auto dest: bit_imp_le_length)
  then show "bit (lfsr_back (lfsr k)) n = bit k n"
    by (cases n) (auto simp: bit_lfsr_back bit_lfsr dest: bit_imp_le_length)
qed

lemma lfsr_pow_inj: "(lfsr ^^ n) a = (lfsr ^^ n) b \<longleftrightarrow> a = b"
proof
  have undo: "(lfsr_back ^^ n) ((lfsr ^^ n) k) = k" for k
  proof (induction n arbitrary: k)
    case (Suc n)
    have "(lfsr_back ^^ Suc n) ((lfsr ^^ Suc n) k)
        = (lfsr_back ^^ n) (lfsr_back (lfsr ((lfsr ^^ n) k)))"
      by (metis (no_types, lifting) comp_apply funpow.simps(2) funpow_swap1)
    with Suc show ?case by (simp add: lfsr_back_lfsr)
  qed simp
  assume "(lfsr ^^ n) a = (lfsr ^^ n) b"
  then show "a = b" by (metis undo)
qed simp

lemma crcu8_eq_iff: "crcu8 d c = crcu8 d' c' \<longleftrightarrow> c XOR ucast d = c' XOR ucast d'"
  by (simp add: crcu8_lfsr lfsr_pow_inj)

lemma lfsr_pow_drop: "(\<forall>i < n. \<not> bit k i) \<Longrightarrow> (lfsr ^^ n) k = drop_bit n k"
proof (induction n)
  case (Suc n)
  then have IH: "(lfsr ^^ n) k = drop_bit n k" and "\<not> bit k n" by auto
  then have "lfsr (drop_bit n k) = drop_bit (Suc n) k"
    by (simp add: lfsr_def bit_drop_bit_eq drop_bit_drop_bit)
  with IH show ?case by simp
qed simp

lemma crcu16_lfsr: "crcu16 v c = (lfsr ^^ 16) (c XOR v)"
proof -
  let ?lo = "ucast (ucast v :: u8) :: u16" and ?hi = "push_bit 8 (drop_bit 8 v) :: u16"
  have v: "v = ?lo XOR ?hi"
    by (rule bit_eqI) (auto simp: bit_simps)
  have hi: "(lfsr ^^ 8) ?hi = ucast (ucast (drop_bit 8 v) :: u8)"
  proof -
    have "(lfsr ^^ 8) ?hi = drop_bit 8 ?hi" by (rule lfsr_pow_drop) (simp add: bit_simps)
    also have "\<dots> = ucast (ucast (drop_bit 8 v) :: u8)"
      by (rule bit_eqI) (auto simp: bit_simps dest: bit_imp_le_length)
    finally show ?thesis .
  qed
  have "crcu16 v c = (lfsr ^^ 8) ((lfsr ^^ 8) (c XOR ?lo) XOR (lfsr ^^ 8) ?hi)"
    by (simp only: crcu16_def crcu8_lfsr hi)
  also have "\<dots> = (lfsr ^^ 8) ((lfsr ^^ 8) (c XOR (?lo XOR ?hi)))"
    by (simp only: lfsr_pow_xor [symmetric] xor.assoc)
  also have "\<dots> = (lfsr ^^ (8 + 8)) (c XOR v)"
    by (simp only: v [symmetric] funpow_add comp_apply)
  finally show ?thesis by simp
qed

lemma crcu16_eq_iff: "crcu16 v c = crcu16 v' c' \<longleftrightarrow> c XOR v = c' XOR v'"
  by (simp add: crcu16_lfsr lfsr_pow_inj)

lemma xor_right_cancel: "(a :: 'a::len word) XOR b = c XOR b \<longleftrightarrow> a = c"
  by (metis xor.assoc xor.right_neutral xor_self_eq)

lemma xor_left_cancel: "(b :: 'a::len word) XOR a = b XOR c \<longleftrightarrow> a = c"
  by (metis xor.commute xor_right_cancel)

lemma crcu16_inj [simp]:
  "crcu16 v c = crcu16 v' c \<longleftrightarrow> v = v'"
  "crcu16 v c = crcu16 v c' \<longleftrightarrow> c = c'"
  by (simp_all add: crcu16_eq_iff xor_left_cancel xor_right_cancel)

lemma fold_crcu16_inj [simp]: "fold crcu16 vs c = fold crcu16 vs c' \<longleftrightarrow> c = c'"
  by (induction vs arbitrary: c c') simp_all

text \<open>the bit loop of \<open>crcu8\<close>, with its two-step update of the register
  (XOR with 0x4002 before the shift, bit 15 after it), is the reflected CRC-16 register with
  polynomial 0xA001: the byte enters the low half and the register is clocked eight times.\<close>

theorem crcu8_reference: "crcu8 d c = (lfsr ^^ 8) (c XOR ucast d)"
  by (rule crcu8_lfsr)

text \<open>C11: a change of one 16-bit word of a message always changes the CRC the benchmark
  reports, whatever precedes and follows it, and so does a different starting register.\<close>

theorem crcu16_detects:
  "(fold crcu16 (us @ x # vs) c = fold crcu16 (us @ y # vs) c \<longleftrightarrow> x = y) \<and>
   (fold crcu16 vs c = fold crcu16 vs c' \<longleftrightarrow> c = c')"
  by simp

text \<open>The CRC is linear over exclusive or, so the difference of two CRCs depends on the
  difference of the inputs only.\<close>

theorem crcu32_linear:
  "crcu32 (v XOR w) (c XOR d) = crcu32 v c XOR crcu32 w d"
proof -
  have c16: "crcu16 (a XOR b) (e XOR f) = crcu16 a e XOR crcu16 b f" for a b e f
    unfolding crcu16_lfsr lfsr_pow_xor by (simp only: xor.assoc xor.commute xor.left_commute)
  have cast: "(ucast (v XOR w) :: u16) = ucast v XOR ucast w"
    "(ucast (drop_bit 16 (v XOR w)) :: u16) = ucast (drop_bit 16 v) XOR ucast (drop_bit 16 w)"
    by (auto simp: bit_simps intro!: bit_eqI)
  show ?thesis by (simp only: crcu32_def crc16_def cast c16)
qed

section \<open>Seeds\<close>

text \<open>\<open>get_seed_32\<close> with \<open>SEED_METHOD == SEED_VOLATILE\<close>, the method the build selects.\<close>

record seeds =
  seed1_volatile :: s32
  seed2_volatile :: s32
  seed3_volatile :: s32
  seed4_volatile :: s32
  seed5_volatile :: s32

definition get_seed_32 :: "seeds \<Rightarrow> int \<Rightarrow> s32" where
  "get_seed_32 sv i =
     (if i = 1 then seed1_volatile sv
      else if i = 2 then seed2_volatile sv
      else if i = 3 then seed3_volatile sv
      else if i = 4 then seed4_volatile sv
      else if i = 5 then seed5_volatile sv
      else 0)"

text \<open>
  \<open>parseval\<close>, the parser of the \<open>SEED_ARG\<close> method. The argument is the string from
  \<open>*valstring\<close> on; each digit loop returns the value and the rest of the string, and a
  product or sum outside \<open>ee_s32\<close> is undefined.
\<close>

definition is_hex :: "u8 \<Rightarrow> bool" where
  "is_hex c \<longleftrightarrow> is_dec c \<or> 0x61 \<le> c \<and> c \<le> 0x66"

definition hex_digit :: "u8 \<Rightarrow> int" where
  "hex_digit c = (let digit = uint c - 0x30 in if 9 < digit then 10 + uint c - 0x61 else digit)"

fun parse_hex :: "u8 list \<Rightarrow> int \<Rightarrow> (int \<times> u8 list) option" where
  "parse_hex [] r = Some (r, [])"
| "parse_hex (c # s) r =
     (if is_hex c then do {
        r1 \<leftarrow> chk32 (r * 16);
        r2 \<leftarrow> chk32 (r1 + hex_digit c);
        parse_hex s r2 }
      else Some (r, c # s))"

fun parse_dec :: "u8 list \<Rightarrow> int \<Rightarrow> (int \<times> u8 list) option" where
  "parse_dec [] r = Some (r, [])"
| "parse_dec (c # s) r =
     (if is_dec c then do {
        r1 \<leftarrow> chk32 (r * 10);
        r2 \<leftarrow> chk32 (r1 + (uint c - 0x30));
        parse_dec s r2 }
      else Some (r, c # s))"

definition parseval :: "u8 list \<Rightarrow> int option" where
  "parseval valstring = (
     let neg = (if cch valstring = 0x2d then -1 else 1);
         s = (if cch valstring = 0x2d then tl valstring else valstring)
     in do {
       (r, s) \<leftarrow> (if cch s = 0x30 \<and> cch (tl s) = 0x78 then parse_hex (drop 2 s) 0 else parse_dec s 0);
       r \<leftarrow> (if cch s = 0x4b then chk32 (r * 1024) else Some r);
       r \<leftarrow> (if cch s = 0x4d then chk32 (r * (1024 * 1024)) else Some r);
       chk32 (r * neg) })"

definition get_seed_args :: "nat \<Rightarrow> u8 list list \<Rightarrow> int option" where
  "get_seed_args i argv = (if i < length argv then parseval (argv ! i) else Some 0)"


lemma parse_dec_digits:
  assumes "\<forall>c \<in> set ds. is_dec c" and "\<not> is_dec (cch t)"
    and "0 \<le> r" and "r * 10 ^ length ds + int (dec_val ds) < 2 ^ 31"
  shows "parse_dec (ds @ t) r = Some (r * 10 ^ length ds + int (dec_val ds), t)"
  using assms
proof (induction ds arbitrary: r)
  case Nil
  then show ?case by (cases t) simp_all
next
  case (Cons c ds)
  let ?v = "r * 10 + (uint c - 0x30)"
  have c: "0x30 \<le> uint c" "uint c \<le> 0x39"
    using Cons.prems(1) by (auto simp: is_dec_def word_le_def)
  have eq: "r * 10 ^ length (c # ds) + int (dec_val (c # ds)) = ?v * 10 ^ length ds + int (dec_val ds)"
  proof -
    have "int (unat c - 0x30) = uint c - 0x30"
      using c(1) uint_nat [of c] by linarith
    then have "int (dec_val (c # ds)) = (uint c - 0x30) * 10 ^ length ds + int (dec_val ds)"
      by (simp add: dec_val_Cons)
    then show ?thesis by (simp add: distrib_right)
  qed
  have "?v * 1 \<le> ?v * 10 ^ length ds"
    using c Cons.prems(3) by (intro mult_left_mono) auto
  then have "?v < 2 ^ 31" "0 \<le> ?v"
    using Cons.prems(3,4) c unfolding eq by auto
  then have "parse_dec (ds @ t) ?v = Some (?v * 10 ^ length ds + int (dec_val ds), t)"
    using Cons.prems unfolding eq by (intro Cons.IH) auto
  moreover have "chk32 (r * 10) = Some (r * 10)" "chk32 ?v = Some ?v"
    using \<open>?v < 2 ^ 31\<close> Cons.prems(3) c by (auto simp: chk32_def)
  ultimately show ?case
    using Cons.prems(1) by (simp only: eq) simp
qed

text \<open>A number that needs more than 31 bits overflows while it is read.\<close>

lemma parse_dec_overflow:
  assumes "\<forall>c \<in> set ds. is_dec c" and "0 \<le> r" and "r < 2 ^ 31"
    and "2 ^ 31 \<le> r * 10 ^ length ds + int (dec_val ds)"
  shows "parse_dec (ds @ t) r = None"
  using assms
proof (induction ds arbitrary: r)
  case (Cons c ds)
  let ?v = "r * 10 + (uint c - 0x30)"
  have c: "0x30 \<le> uint c" "uint c \<le> 0x39"
    using Cons.prems(1) by (auto simp: is_dec_def word_le_def)
  have "int (unat c - 0x30) = uint c - 0x30" using c(1) uint_nat [of c] by linarith
  then have eq: "r * 10 ^ length (c # ds) + int (dec_val (c # ds)) = ?v * 10 ^ length ds + int (dec_val ds)"
    by (simp add: dec_val_Cons distrib_right)
  show ?case
  proof (cases "?v < 2 ^ 31")
    case True
    then have "parse_dec (ds @ t) ?v = None"
      using Cons.prems c unfolding eq by (intro Cons.IH) auto
    moreover have "chk32 (r * 10) = Some (r * 10)" "chk32 ?v = Some ?v"
      using True Cons.prems(2) c by (auto simp: chk32_def)
    ultimately show ?thesis using Cons.prems(1) by simp
  next
    case False
    then have "chk32 ?v = None" by (simp add: chk32_def)
    then show ?thesis using Cons.prems(1) by (cases "chk32 (r * 10)") (auto simp: chk32_eq_Some)
  qed
qed simp

text \<open>C12: The argument parser reads back every decimal number without leading zeros, with an optional minus sign
  and an optional qualifier (\<open>K\<close> is 1024, \<open>M\<close> is 1024 squared), if its magnitude, qualifier included, is less
  than \<open>2\<^sup>3\<^sup>1\<close>; for every other one, the least \<open>ee_s32\<close> value among them, an \<open>int\<close> overflows.\<close>

theorem parseval_decimal:
  assumes "(q, m) \<in> {([], 1), ([0x4b], 1024), ([0x4d], 1024 * 1024)}"
    and "(g, k) \<in> {([], 1), ([0x2d], -1)}"
  shows "parseval (g @ dec_str n @ q) = (if int n * m < 2 ^ 31 then Some (int n * m * k) else None)"
proof -
  let ?s = "dec_str n @ q"
  have pd: "parse_dec ?s 0 = (if int n < 2 ^ 31 then Some (int n, q) else None)"
  proof (cases "int n < 2 ^ 31")
    case True
    then have "parse_dec ?s 0 = Some (0 * 10 ^ length (dec_str n) + int (dec_val (dec_str n)), q)"
      using assms(1) dec_str_digits by (intro parse_dec_digits) (auto simp: is_dec_def [of 0] is_dec_def [of "numeral _"])
    then show ?thesis using True by simp
  next
    case False
    then have "parse_dec ?s 0 = None" using dec_str_digits by (intro parse_dec_overflow) auto
    then show ?thesis using False by simp
  qed
  have hd: "is_dec (cch ?s)" by (rule cch_dec_str)
  then have dash: "cch ?s \<noteq> 0x2d" by (auto simp: is_dec_def)
  have nh: "\<not> (cch ?s = 0x30 \<and> cch (tl ?s) = 0x78)"
    using assms(1) dec_str_not_hex [of q n] by auto
  have "int n \<le> int n * m" using assms(1) by auto
  then show ?thesis using pd dash nh assms by (auto simp: parseval_def chk32_def)
qed

theorem parseval_decimal_witness:
  "parseval [0x2d, 0x32, 0x4b] = Some (- 2048) \<and> parseval [0x2d, 0x32, 0x30, 0x34, 0x38, 0x4d] = None"
proof -
  have "dec_str 2 = [0x32]" "dec_str 2048 = [0x32, 0x30, 0x34, 0x38]" by (simp_all add: dec_str.simps)
  then show ?thesis
    using parseval_decimal [of "[0x4b]" 1024 "[0x2d]" "-1" 2] parseval_decimal [of "[0x4d]" "1024 * 1024" "[0x2d]" "-1" 2048]
    by simp
qed

section \<open>The data-type check\<close>

text \<open>\<open>check_data_types\<close> on the sizes the compiler gives the types; the result counts the
  mismatches (the messages it prints are not modelled).\<close>

record type_sizes =
  sz_u8 :: nat
  sz_u16 :: nat
  sz_s16 :: nat
  sz_s32 :: nat
  sz_u32 :: nat
  sz_ptr_int :: nat
  sz_int_ptr :: nat

definition check_data_types :: "type_sizes \<Rightarrow> u8" where
  "check_data_types ts = (
     let retval = 0;
         retval = (if sz_u8 ts \<noteq> 1 then retval + 1 else retval);
         retval = (if sz_u16 ts \<noteq> 2 then retval + 1 else retval);
         retval = (if sz_s16 ts \<noteq> 2 then retval + 1 else retval);
         retval = (if sz_s32 ts \<noteq> 4 then retval + 1 else retval);
         retval = (if sz_u32 ts \<noteq> 4 then retval + 1 else retval);
         retval = (if sz_ptr_int ts \<noteq> sz_int_ptr ts then retval + 1 else retval)
     in retval)"

lemma check_data_types_0:
  "check_data_types ts = 0 \<longleftrightarrow> sz_u8 ts = 1 \<and> sz_u16 ts = 2 \<and> sz_s16 ts = 2 \<and> sz_s32 ts = 4 \<and>
     sz_u32 ts = 4 \<and> sz_ptr_int ts = sz_int_ptr ts"
  by (simp add: check_data_types_def Let_def)

end
