(* ===== verification/CoreState.thy ===== *)
theory CoreState
  imports CoreUtil
begin

unbundle bit_operations_syntax

text \<open>
  The state-machine benchmark of CoreMark, \<open>src/lib/coremark/core_state.c\<close>: the scanner
  \<open>core_state_transition\<close> for the number formats, the generator of its input
  \<open>core_init_state\<close>, and the benchmark that runs the scanner over a block of memory before
  and after a corruption pass. The memory block is the list of its bytes, a pointer into it is an
  index, and an access outside the block is \<open>None\<close>.
\<close>

section \<open>The scanner\<close>

datatype core_state =
    CORE_START | CORE_INVALID | CORE_S1 | CORE_S2
  | CORE_INT | CORE_FLOAT | CORE_EXPONENT | CORE_SCIENTIFIC

type_synonym counts = "core_state \<Rightarrow> u32"

definition incr :: "core_state \<Rightarrow> counts \<Rightarrow> counts" where
  "incr s tc = tc(s := tc s + 1)"

abbreviation (input) "comma \<equiv> (0x2c :: u8)"

definition ee_isdigit :: "u8 \<Rightarrow> bool" where
  "ee_isdigit c \<longleftrightarrow> 0x30 \<le> c \<and> c \<le> 0x39"

definition is_sign :: "u8 \<Rightarrow> bool" where
  "is_sign c \<longleftrightarrow> c = 0x2b \<or> c = 0x2d"

definition is_exp :: "u8 \<Rightarrow> bool" where
  "is_exp c \<longleftrightarrow> c = 0x45 \<or> c = 0x65"

text \<open>The \<open>switch\<close> of the scanner: the next state and the updated transition counts.\<close>

fun core_switch :: "core_state \<Rightarrow> u8 \<Rightarrow> counts \<Rightarrow> core_state \<times> counts" where
  "core_switch CORE_START c tc =
     (let (st, tc) =
        (if ee_isdigit c then (CORE_INT, tc)
         else if is_sign c then (CORE_S1, tc)
         else if c = 0x2e then (CORE_FLOAT, tc)
         else (CORE_INVALID, incr CORE_INVALID tc))
      in (st, incr CORE_START tc))"
| "core_switch CORE_S1 c tc =
     (if ee_isdigit c then (CORE_INT, incr CORE_S1 tc)
      else if c = 0x2e then (CORE_FLOAT, incr CORE_S1 tc)
      else (CORE_INVALID, incr CORE_S1 tc))"
| "core_switch CORE_INT c tc =
     (if c = 0x2e then (CORE_FLOAT, incr CORE_INT tc)
      else if \<not> ee_isdigit c then (CORE_INVALID, incr CORE_INT tc)
      else (CORE_INT, tc))"
| "core_switch CORE_FLOAT c tc =
     (if is_exp c then (CORE_S2, incr CORE_FLOAT tc)
      else if \<not> ee_isdigit c then (CORE_INVALID, incr CORE_FLOAT tc)
      else (CORE_FLOAT, tc))"
| "core_switch CORE_S2 c tc =
     (if is_sign c then (CORE_EXPONENT, incr CORE_S2 tc)
      else (CORE_INVALID, incr CORE_S2 tc))"
| "core_switch CORE_EXPONENT c tc =
     (if ee_isdigit c then (CORE_SCIENTIFIC, incr CORE_EXPONENT tc)
      else (CORE_INVALID, incr CORE_EXPONENT tc))"
| "core_switch CORE_SCIENTIFIC c tc =
     (if \<not> ee_isdigit c then (CORE_INVALID, incr CORE_INVALID tc)
      else (CORE_SCIENTIFIC, tc))"
| "core_switch CORE_INVALID c tc = (CORE_INVALID, tc)"

text \<open>The scanning loop: the position after the token, the final state and the counts.\<close>

function scan_loop :: "u8 list \<Rightarrow> nat \<Rightarrow> core_state \<Rightarrow> counts \<Rightarrow> (nat \<times> core_state \<times> counts) option" where
  "scan_loop m str st tc =
     (case rd m str of
        None \<Rightarrow> None
      | Some c \<Rightarrow>
          if c = 0 \<or> st = CORE_INVALID then Some (str, st, tc)
          else if c = comma then Some (Suc str, st, tc)
          else (let (st', tc') = core_switch st c tc in scan_loop m (Suc str) st' tc'))"
  by pat_completeness auto
termination
  by (relation "measure (\<lambda>(m, str, st, tc). length m - str)") (auto simp: rd_def split: if_splits)

declare scan_loop.simps [simp del]

definition core_state_transition ::
    "u8 list \<Rightarrow> nat \<Rightarrow> counts \<Rightarrow> (nat \<times> core_state \<times> counts) option" where
  "core_state_transition m instr tc = scan_loop m instr CORE_START tc"

section \<open>The input generator\<close>

definition intpat :: "u8 list list" where
  "intpat = [[0x35, 0x30, 0x31, 0x32], [0x31, 0x32, 0x33, 0x34],
             [0x2d, 0x38, 0x37, 0x34], [0x2b, 0x31, 0x32, 0x32]]"

definition floatpat :: "u8 list list" where
  "floatpat = [[0x33, 0x35, 0x2e, 0x35, 0x34, 0x34, 0x30, 0x30],
               [0x2e, 0x31, 0x32, 0x33, 0x34, 0x35, 0x30, 0x30],
               [0x2d, 0x31, 0x31, 0x30, 0x2e, 0x37, 0x30, 0x30],
               [0x2b, 0x30, 0x2e, 0x36, 0x34, 0x34, 0x30, 0x30]]"

definition scipat :: "u8 list list" where
  "scipat = [[0x35, 0x2e, 0x35, 0x30, 0x30, 0x65, 0x2b, 0x33],
             [0x2d, 0x2e, 0x31, 0x32, 0x33, 0x65, 0x2d, 0x32],
             [0x2d, 0x38, 0x37, 0x65, 0x2b, 0x38, 0x33, 0x32],
             [0x2b, 0x30, 0x2e, 0x36, 0x65, 0x2d, 0x31, 0x32]]"

definition errpat :: "u8 list list" where
  "errpat = [[0x54, 0x30, 0x2e, 0x33, 0x65, 0x2d, 0x31, 0x46],
             [0x2d, 0x54, 0x2e, 0x54, 0x2b, 0x2b, 0x54, 0x71],
             [0x31, 0x54, 0x33, 0x2e, 0x34, 0x65, 0x34, 0x7a],
             [0x33, 0x34, 0x2e, 0x30, 0x65, 0x2d, 0x54, 0x5e]]"

text \<open>The \<open>switch (seed & 0x7)\<close>: the pattern and its length \<open>next\<close>.\<close>

definition choose_pat :: "s16 \<Rightarrow> u8 list \<times> nat" where
  "choose_pat seed = (
     let k = unat (seed AND 7); j = unat (drop_bit 3 seed AND 3)
     in if k \<le> 2 then (intpat ! j, 4)
        else if k \<le> 4 then (floatpat ! j, 8)
        else if k \<le> 6 then (scipat ! j, 8)
        else (errpat ! j, 8))"

lemma choose_pat_len: "choose_pat seed = (buf, n) \<Longrightarrow> 4 \<le> n"
  by (auto simp: choose_pat_def Let_def split: if_splits)

text \<open>
  The first loop of \<open>core_init_state\<close>. \<open>sz\<close> is the decremented size; the sum
  \<open>tot + next + 1\<close> (\<open>tot\<close> is the code's \<open>total\<close>) is kept unbounded, since every byte below it has been
  written and no object of the target reaches 4 GiB.
\<close>

function init_fill ::
    "nat \<Rightarrow> s16 \<Rightarrow> nat \<Rightarrow> u8 list \<Rightarrow> nat \<Rightarrow> u8 list \<Rightarrow> (nat \<times> u8 list) option" where
  "init_fill sz seed tot buf next p =
     (if tot + next + 1 < sz then
        (case (if 0 < next then do {
                 p \<leftarrow> for_range 0 next (\<lambda>i p. do { c \<leftarrow> rd buf i; wr p (tot + i) c }) p;
                 p \<leftarrow> wr p (tot + next) comma;
                 Some (tot + next + 1, p) }
               else Some (tot, p)) of
           None \<Rightarrow> None
         | Some (tot', p') \<Rightarrow>
             (let seed' = seed + 1; (buf', next') = choose_pat seed'
              in init_fill sz seed' tot' buf' next' p'))
      else Some (tot, p))"
  by pat_completeness auto
termination
proof (relation "measure (\<lambda>(sz, seed, tot, buf, next, p). 2 * (sz - tot) + (if next = 0 then 1 else 0))", goal_cases)
  case 2
  then show ?case
    using choose_pat_len by (auto simp: bind_Some_iff split: if_splits) (metis not_numeral_le_zero)+
qed simp

declare init_fill.simps [simp del]

text \<open>The second loop, and the whole function.\<close>

definition init_zero :: "nat \<Rightarrow> nat \<Rightarrow> u8 list \<Rightarrow> u8 list option" where
  "init_zero tot sz p = for_range tot sz (\<lambda>i p. wr p i 0) p"

definition core_init_state :: "u32 \<Rightarrow> s16 \<Rightarrow> u8 list \<Rightarrow> u8 list option" where
  "core_init_state sz seed p = do {
     (tot, p) \<leftarrow> init_fill (unat (sz - 1)) seed 0 [] 0 p;
     init_zero tot (unat (sz - 1 + 1)) p }"

section \<open>The benchmark\<close>

text \<open>One pass of the scanner over the block, up to the first 0 byte.\<close>

lemma scan_loop_progress:
  "scan_loop m str st tc = Some (p, st', tc') \<Longrightarrow> str \<le> p \<and> (str < length m \<longrightarrow> m ! str \<noteq> 0 \<longrightarrow> st \<noteq> CORE_INVALID \<longrightarrow> str < p)"
proof (induction m str st tc rule: scan_loop.induct)
  case (1 m str st tc)
  then show ?case
    by (subst (asm) (2) scan_loop.simps)
      (force simp: rd_def split: if_splits prod.splits dest!: Suc_le_lessD)
qed

lemma core_state_transition_progress:
  "core_state_transition m p tc = Some (p', st', tc') \<Longrightarrow> rd m p = Some c \<Longrightarrow> c \<noteq> 0 \<Longrightarrow> p < p'"
  unfolding core_state_transition_def
  by (drule scan_loop_progress) (auto simp: rd_def split: if_splits)

function scan_block :: "u8 list \<Rightarrow> nat \<Rightarrow> counts \<Rightarrow> counts \<Rightarrow> (counts \<times> counts) option" where
  "scan_block m p final_counts track_counts =
     (case rd m p of
        None \<Rightarrow> None
      | Some c \<Rightarrow>
          if c = 0 then Some (final_counts, track_counts)
          else (case core_state_transition m p track_counts of
                  None \<Rightarrow> None
                | Some (p', fstate, track_counts') \<Rightarrow>
                    scan_block m p' (incr fstate final_counts) track_counts'))"
  by pat_completeness auto
termination
proof (relation "measure (\<lambda>(m, p, fc, tc). length m - p)", goal_cases)
  case (2 m p fc tc c a p' b fstate tc')
  then have "p < length m" and "p < p'"
    by (auto simp: rd_def split: if_splits dest: core_state_transition_progress)
  then show ?case by simp
qed simp

declare scan_block.simps [simp del]

text \<open>
  The corruption pass. A step of 0 never leaves the loop, and a negative one moves the pointer
  before the block; both are \<open>None\<close>.
\<close>

function corrupt :: "u8 list \<Rightarrow> nat \<Rightarrow> nat \<Rightarrow> s16 \<Rightarrow> s16 \<Rightarrow> u8 list option" where
  "corrupt m p blksize seed step =
     (if p < blksize then
        (case rd m p of
           None \<Rightarrow> None
         | Some c \<Rightarrow>
             if 0 < sint step
             then corrupt (if c \<noteq> comma then m[p := c XOR ucast seed] else m)
                    (p + nat (sint step)) blksize seed step
             else None)
      else Some m)"
  by pat_completeness auto
termination
  by (relation "measure (\<lambda>(m, p, blksize, seed, step). blksize - p)") auto

declare corrupt.simps [simp del]

text \<open>The states in the order of the enumeration, which is the order of the count arrays.\<close>

definition all_states :: "core_state list" where
  "all_states = [CORE_START, CORE_INVALID, CORE_S1, CORE_S2, CORE_INT, CORE_FLOAT,
                 CORE_EXPONENT, CORE_SCIENTIFIC]"

definition crc_counts :: "counts \<Rightarrow> counts \<Rightarrow> u16 \<Rightarrow> u16" where
  "crc_counts final_counts track_counts crc =
     fold (\<lambda>s crc. crcu32 (track_counts s) (crcu32 (final_counts s) crc)) all_states crc"

definition core_bench_state ::
    "u32 \<Rightarrow> u8 list \<Rightarrow> s16 \<Rightarrow> s16 \<Rightarrow> s16 \<Rightarrow> u16 \<Rightarrow> (u16 \<times> u8 list) option" where
  "core_bench_state blksize m seed1 seed2 step crc = do {
     (fc, tc) \<leftarrow> scan_block m 0 (\<lambda>_. 0) (\<lambda>_. 0);
     m \<leftarrow> corrupt m 0 (unat blksize) seed1 step;
     (fc, tc) \<leftarrow> scan_block m 0 fc tc;
     m \<leftarrow> corrupt m 0 (unat blksize) seed2 step;
     Some (crc_counts fc tc crc, m) }"

section \<open>What the scanner recognises\<close>

definition core_next :: "core_state \<Rightarrow> u8 \<Rightarrow> core_state" where
  "core_next st c = fst (core_switch st c (\<lambda>_. 0))"

lemma fst_core_switch [simp]: "fst (core_switch st c tc) = core_next st c"
  by (cases st) (simp_all add: core_next_def)

lemma core_next_simps:
  "core_next CORE_START c = (if ee_isdigit c then CORE_INT else if is_sign c then CORE_S1
     else if c = 0x2e then CORE_FLOAT else CORE_INVALID)"
  "core_next CORE_S1 c = (if ee_isdigit c then CORE_INT else if c = 0x2e then CORE_FLOAT
     else CORE_INVALID)"
  "core_next CORE_INT c = (if c = 0x2e then CORE_FLOAT else if ee_isdigit c then CORE_INT
     else CORE_INVALID)"
  "core_next CORE_FLOAT c = (if is_exp c then CORE_S2 else if ee_isdigit c then CORE_FLOAT
     else CORE_INVALID)"
  "core_next CORE_S2 c = (if is_sign c then CORE_EXPONENT else CORE_INVALID)"
  "core_next CORE_EXPONENT c = (if ee_isdigit c then CORE_SCIENTIFIC else CORE_INVALID)"
  "core_next CORE_SCIENTIFIC c = (if ee_isdigit c then CORE_SCIENTIFIC else CORE_INVALID)"
  "core_next CORE_INVALID c = CORE_INVALID"
  by (simp_all add: core_next_def)

text \<open>The number formats as languages of byte strings.\<close>

definition digits :: "u8 list \<Rightarrow> bool" where
  "digits w \<longleftrightarrow> (\<forall>c \<in> set w. ee_isdigit c)"

definition opt_sign :: "u8 list \<Rightarrow> bool" where
  "opt_sign w \<longleftrightarrow> w = [] \<or> (\<exists>c. is_sign c \<and> w = [c])"

definition int_format :: "u8 list \<Rightarrow> bool" where
  "int_format w \<longleftrightarrow> (\<exists>sg ds. w = sg @ ds \<and> opt_sign sg \<and> digits ds \<and> ds \<noteq> [])"

definition float_format :: "u8 list \<Rightarrow> bool" where
  "float_format w \<longleftrightarrow>
     (\<exists>sg a b. w = sg @ a @ 0x2e # b \<and> opt_sign sg \<and> digits a \<and> digits b)"

definition exp_format :: "u8 list \<Rightarrow> bool" where
  "exp_format w \<longleftrightarrow> (\<exists>u e. w = u @ [e] \<and> float_format u \<and> is_exp e)"

definition expsign_format :: "u8 list \<Rightarrow> bool" where
  "expsign_format w \<longleftrightarrow> (\<exists>u s. w = u @ [s] \<and> exp_format u \<and> is_sign s)"

definition sci_format :: "u8 list \<Rightarrow> bool" where
  "sci_format w \<longleftrightarrow> (\<exists>u ds. w = u @ ds \<and> expsign_format u \<and> digits ds \<and> ds \<noteq> [])"

fun format :: "core_state \<Rightarrow> u8 list \<Rightarrow> bool" where
  "format CORE_START w \<longleftrightarrow> w = []"
| "format CORE_S1 w \<longleftrightarrow> (\<exists>c. is_sign c \<and> w = [c])"
| "format CORE_INT w \<longleftrightarrow> int_format w"
| "format CORE_FLOAT w \<longleftrightarrow> float_format w"
| "format CORE_S2 w \<longleftrightarrow> exp_format w"
| "format CORE_EXPONENT w \<longleftrightarrow> expsign_format w"
| "format CORE_SCIENTIFIC w \<longleftrightarrow> sci_format w"
| "format CORE_INVALID w \<longleftrightarrow> False"

lemma char_classes [simp]:
  "is_sign c \<Longrightarrow> \<not> ee_isdigit c" "is_exp c \<Longrightarrow> \<not> ee_isdigit c" "\<not> ee_isdigit 0x2e"
  "\<not> is_sign 0x2e" "\<not> is_exp 0x2e" "is_sign c \<Longrightarrow> c \<noteq> 0x2e" "is_exp c \<Longrightarrow> c \<noteq> 0x2e"
  by (auto simp: is_sign_def is_exp_def ee_isdigit_def)

lemma digits_simps [simp]:
  "digits []" "digits (c # w) \<longleftrightarrow> ee_isdigit c \<and> digits w" "digits (v @ w) \<longleftrightarrow> digits v \<and> digits w"
  by (auto simp: digits_def)

lemma run_digits:
  "digits ds \<Longrightarrow> foldl core_next CORE_INT ds = CORE_INT"
  "digits ds \<Longrightarrow> foldl core_next CORE_FLOAT ds = CORE_FLOAT"
  "digits ds \<Longrightarrow> foldl core_next CORE_SCIENTIFIC ds = CORE_SCIENTIFIC"
proof -
  show "digits ds \<Longrightarrow> foldl core_next CORE_FLOAT ds = CORE_FLOAT"
  proof (induction ds)
    case (Cons c ds)
    then have "\<not> is_exp c" using char_classes(2) by auto
    with Cons show ?case by (simp add: core_next_simps)
  qed simp
qed (induction ds; auto simp: core_next_simps)+

lemma run_opt_sign:
  "opt_sign sg \<Longrightarrow> foldl core_next CORE_START sg = CORE_START \<and> sg = [] \<or>
     foldl core_next CORE_START sg = CORE_S1"
  by (auto simp: opt_sign_def core_next_simps)

lemma run_int: "int_format w \<Longrightarrow> foldl core_next CORE_START w = CORE_INT"
proof -
  assume "int_format w"
  then obtain sg d ds where w: "w = sg @ d # ds" "opt_sign sg" "ee_isdigit d" "digits ds"
    by (auto simp: int_format_def neq_Nil_conv)
  then show ?thesis
    using run_opt_sign [OF w(2)] by (auto simp: core_next_simps run_digits)
qed

lemma run_float: "float_format w \<Longrightarrow> foldl core_next CORE_START w = CORE_FLOAT"
proof -
  assume "float_format w"
  then obtain sg a b where w: "w = sg @ a @ 0x2e # b" "opt_sign sg" "digits a" "digits b"
    by (auto simp: float_format_def)
  show ?thesis
  proof (cases a)
    case Nil
    then show ?thesis
      using w run_opt_sign [OF w(2)] by (auto simp: core_next_simps run_digits)
  next
    case (Cons c a')
    then show ?thesis
      using w run_opt_sign [OF w(2)] by (auto simp: core_next_simps run_digits)
  qed
qed

lemma run_exp: "exp_format w \<Longrightarrow> foldl core_next CORE_START w = CORE_S2"
  by (auto simp: exp_format_def run_float core_next_simps)

lemma run_expsign: "expsign_format w \<Longrightarrow> foldl core_next CORE_START w = CORE_EXPONENT"
  by (auto simp: expsign_format_def run_exp core_next_simps)

lemma run_sci: "sci_format w \<Longrightarrow> foldl core_next CORE_START w = CORE_SCIENTIFIC"
  by (auto simp: sci_format_def run_expsign core_next_simps run_digits neq_Nil_conv)

lemma format_run: "format st w \<Longrightarrow> foldl core_next CORE_START w = st"
  by (cases st) (auto simp: run_int run_float run_exp run_expsign run_sci core_next_simps)

text \<open>The converse: one more byte leads from a format to a format, or to \<open>CORE_INVALID\<close>.\<close>

lemma format_snoc_int:
  "ee_isdigit c \<Longrightarrow> int_format w \<or> opt_sign w \<Longrightarrow> int_format (w @ [c])"
  unfolding int_format_def
  by (elim disjE exE conjE)
    (metis append.assoc digits_simps(1-3) snoc_eq_iff_butlast, metis digits_simps(1,2) not_Cons_self2)

lemma format_snoc_point:
  "int_format w \<or> opt_sign w \<Longrightarrow> float_format (w @ [0x2e])"
  unfolding int_format_def float_format_def
  by (elim disjE exE conjE) (metis append.assoc digits_simps(1), metis append_Nil digits_simps(1))

lemma format_snoc_float: "ee_isdigit c \<Longrightarrow> float_format w \<Longrightarrow> float_format (w @ [c])"
  unfolding float_format_def
  by (elim exE conjE) (metis append.assoc append_Cons digits_simps(1-3))

lemma format_snoc_sci:
  "ee_isdigit c \<Longrightarrow> sci_format w \<or> expsign_format w \<Longrightarrow> sci_format (w @ [c])"
  unfolding sci_format_def
  by (elim disjE exE conjE) (metis append.assoc digits_simps(1-3) snoc_eq_iff_butlast, metis digits_simps(1,2) not_Cons_self2)

lemma format_snoc:
  "format st w \<Longrightarrow> core_next st c \<noteq> CORE_INVALID \<Longrightarrow> format (core_next st c) (w @ [c])"
proof (cases st)
  case CORE_FLOAT
  moreover assume "format st w" "core_next st c \<noteq> CORE_INVALID"
  ultimately show ?thesis
    by (auto simp: core_next_simps format_snoc_float exp_format_def split: if_splits)
next
  case CORE_S2
  moreover assume "format st w" "core_next st c \<noteq> CORE_INVALID"
  ultimately show ?thesis
    by (auto simp: core_next_simps expsign_format_def split: if_splits)
qed (auto simp: core_next_simps opt_sign_def format_snoc_int format_snoc_point format_snoc_sci
      split: if_splits intro!: format_snoc_int [of _ "[]", simplified] format_snoc_point [of "[]", simplified]
        format_snoc_int [of _ "[_]", simplified] format_snoc_point [of "[_]", simplified])

lemma run_format:
  "foldl core_next CORE_START w \<noteq> CORE_INVALID \<Longrightarrow> format (foldl core_next CORE_START w) w"
proof (induction w rule: rev_induct)
  case (snoc c w)
  then have "foldl core_next CORE_START w \<noteq> CORE_INVALID"
    by (auto simp: core_next_simps)
  with snoc show ?case using format_snoc by simp
qed simp

lemma run_eq_format:
  "st \<noteq> CORE_INVALID \<Longrightarrow> foldl core_next CORE_START w = st \<longleftrightarrow> format st w"
  using format_run run_format by metis

section \<open>The scanner on a token in memory\<close>

text \<open>\<open>token w\<close>: bytes the scanner neither stops at nor skips.\<close>

definition token :: "u8 list \<Rightarrow> bool" where
  "token w \<longleftrightarrow> 0 \<notin> set w \<and> comma \<notin> set w"

lemma run_invalid [simp]: "foldl core_next CORE_INVALID w = CORE_INVALID"
  by (induction w) (simp_all add: core_next_simps)

text \<open>Where the scanner stops: behind the byte that made the state invalid, else at the end of the token.\<close>

lemma scan_loop_token:
  assumes "token w" and "t = 0 \<or> t = comma"
  shows "\<exists>p tc'. scan_loop (pre @ w @ t # post) (length pre) st tc
           = Some (p, foldl core_next st w, tc') \<and>
         (foldl core_next st w \<noteq> CORE_INVALID \<longrightarrow>
            p = length pre + length w + (if t = comma then 1 else 0)) \<and>
         (foldl core_next st w = CORE_INVALID \<longrightarrow> st \<noteq> CORE_INVALID \<longrightarrow>
            (\<exists>k < length w. p = length pre + Suc k \<and> foldl core_next st (take k w) \<noteq> CORE_INVALID \<and>
               foldl core_next st (take (Suc k) w) = CORE_INVALID)) \<and>
         (st = CORE_INVALID \<longrightarrow> p = length pre)"
  using assms(1)
proof (induction w arbitrary: pre st tc)
  case Nil
  then show ?case using assms(2)
    by (auto simp: scan_loop.simps nth_append)
next
  case (Cons c w)
  then have c: "c \<noteq> 0" "c \<noteq> comma" "token w" by (auto simp: token_def)
  show ?case
  proof (cases "st = CORE_INVALID")
    case True
    then show ?thesis using c by (simp add: scan_loop.simps nth_append core_next_simps)
  next
    case False
    obtain st' tc1 where sw: "core_switch st c tc = (st', tc1)" by fastforce
    then have st': "st' = core_next st c" using fst_core_switch [of st c tc] by simp
    have e: "scan_loop (pre @ (c # w) @ t # post) (length pre) st tc
        = scan_loop ((pre @ [c]) @ w @ t # post) (length (pre @ [c])) st' tc1"
      using False c sw by (subst scan_loop.simps) (simp add: nth_append)
    obtain p tc' where p: "scan_loop ((pre @ [c]) @ w @ t # post) (length (pre @ [c])) st' tc1 = Some (p, foldl core_next st' w, tc')"
      "foldl core_next st' w \<noteq> CORE_INVALID \<Longrightarrow> p = length (pre @ [c]) + length w + (if t = comma then 1 else 0)"
      "foldl core_next st' w = CORE_INVALID \<Longrightarrow> st' \<noteq> CORE_INVALID \<Longrightarrow>
        \<exists>k < length w. p = length (pre @ [c]) + Suc k \<and> foldl core_next st' (take k w) \<noteq> CORE_INVALID \<and>
          foldl core_next st' (take (Suc k) w) = CORE_INVALID"
      "st' = CORE_INVALID \<Longrightarrow> p = length (pre @ [c])"
      using Cons.IH [OF c(3), of "pre @ [c]" st' tc1] by blast
    have "\<exists>k < length (c # w). p = length pre + Suc k \<and> foldl core_next st (take k (c # w)) \<noteq> CORE_INVALID \<and>
        foldl core_next st (take (Suc k) (c # w)) = CORE_INVALID" if i: "foldl core_next st' w = CORE_INVALID"
    proof (cases "st' = CORE_INVALID")
      case True
      then show ?thesis using p(4) False st' by (intro exI [of _ 0]) simp
    next
      case st: False
      obtain k where "k < length w" "p = length (pre @ [c]) + Suc k" "foldl core_next st' (take k w) \<noteq> CORE_INVALID"
        "foldl core_next st' (take (Suc k) w) = CORE_INVALID" using p(3) [OF i st] by blast
      then show ?thesis using st' by (intro exI [of _ "Suc k"]) simp
    qed
    then show ?thesis unfolding e using p(1,2) False st' by auto
  qed
qed

text \<open>C7: The scanner classifies a token exactly by the number formats: at a token that ends at a
  comma or at the terminating 0 byte it reports state \<open>st\<close> other than
  \<open>CORE_INVALID\<close> if and only if the whole token has the format of \<open>st\<close> (integer, float,
  scientific or a proper prefix of these), and \<open>CORE_INVALID\<close> if it has none. After a valid
  token the pointer stands behind the comma, or on the terminator; after an invalid one it stands behind the first
  byte with which the token no longer has any of the formats, so mostly inside the token.\<close>

theorem core_state_transition_format:
  assumes "token w" and "t = 0 \<or> t = comma"
  shows "\<exists>p st tc'. core_state_transition (pre @ w @ t # post) (length pre) tc = Some (p, st, tc') \<and>
           (\<forall>f. f \<noteq> CORE_INVALID \<longrightarrow> (st = f \<longleftrightarrow> format f w)) \<and>
           (st \<noteq> CORE_INVALID \<longrightarrow> p = length pre + length w + (if t = comma then 1 else 0)) \<and>
           (st = CORE_INVALID \<longrightarrow> (\<exists>k < length w. p = length pre + Suc k \<and>
              (\<exists>f. format f (take k w)) \<and> (\<forall>f. \<not> format f (take (Suc k) w))))"
proof -
  obtain p tc' where p: "core_state_transition (pre @ w @ t # post) (length pre) tc = Some (p, foldl core_next CORE_START w, tc')"
    "foldl core_next CORE_START w \<noteq> CORE_INVALID \<Longrightarrow> p = length pre + length w + (if t = comma then 1 else 0)"
    "foldl core_next CORE_START w = CORE_INVALID \<Longrightarrow>
       \<exists>k < length w. p = length pre + Suc k \<and> foldl core_next CORE_START (take k w) \<noteq> CORE_INVALID \<and>
         foldl core_next CORE_START (take (Suc k) w) = CORE_INVALID"
    using scan_loop_token [OF assms, of pre post CORE_START tc] unfolding core_state_transition_def by blast
  have f: "(\<exists>f. format f v) \<longleftrightarrow> foldl core_next CORE_START v \<noteq> CORE_INVALID" for v
    using run_format [of v] format_run [of _ v] by (metis format.simps(8))
  have "foldl core_next CORE_START w = CORE_INVALID \<longrightarrow> (\<exists>k < length w. p = length pre + Suc k \<and>
      (\<exists>f. format f (take k w)) \<and> (\<forall>f. \<not> format f (take (Suc k) w)))"
  proof
    assume "foldl core_next CORE_START w = CORE_INVALID"
    then obtain k where "k < length w" "p = length pre + Suc k" "foldl core_next CORE_START (take k w) \<noteq> CORE_INVALID"
      "foldl core_next CORE_START (take (Suc k) w) = CORE_INVALID" using p(3) by blast
    then show "\<exists>k < length w. p = length pre + Suc k \<and> (\<exists>f. format f (take k w)) \<and> (\<forall>f. \<not> format f (take (Suc k) w))"
      using f by blast
  qed
  moreover have "\<forall>f. f \<noteq> CORE_INVALID \<longrightarrow> (foldl core_next CORE_START w = f \<longleftrightarrow> format f w)" using run_eq_format by blast
  ultimately show ?thesis using p(1,2) by (intro exI [of _ p] exI [of _ "foldl core_next CORE_START w"] exI [of _ tc']) simp
qed

theorem core_state_transition_format_witness:
  "format CORE_SCIENTIFIC [0x2b, 0x30, 0x2e, 0x36, 0x65, 0x2d, 0x31, 0x32] \<and>
   (\<exists>p tc'. core_state_transition [0x2b, 0x30, 0x2e, 0x36, 0x65, 0x2d, 0x31, 0x32, 0] 0 (\<lambda>_. 0)
      = Some (p, CORE_SCIENTIFIC, tc'))"
proof -
  let ?w = "[0x2b, 0x30, 0x2e, 0x36, 0x65, 0x2d, 0x31, 0x32] :: u8 list"
  have f: "format CORE_SCIENTIFIC ?w"
    by (subst run_eq_format [symmetric]) (simp_all add: core_next_simps ee_isdigit_def is_sign_def is_exp_def)
  have "token ?w" by (simp add: token_def)
  from core_state_transition_format [OF this, of 0 "[]" "[]" "\<lambda>_. 0"] f show ?thesis by auto
qed

section \<open>The pass over the block stays inside it\<close>

lemma scan_loop_total:
  assumes "str \<le> z" and "z < length m" and "m ! z = 0"
  shows "\<exists>p st' tc'. scan_loop m str st tc = Some (p, st', tc') \<and> p \<le> z"
  using assms
proof (induction m str st tc rule: scan_loop.induct)
  case (1 m str st tc)
  show ?case
  proof (cases "m ! str = 0 \<or> st = CORE_INVALID \<or> m ! str = comma")
    case True
    then show ?thesis
      using 1(2-4) by (subst scan_loop.simps) (auto simp: Suc_le_eq le_less)
  next
    case False
    then have "str < z" using 1(2,4) by (metis le_neq_implies_less)
    moreover obtain st' tc1 where sw: "core_switch st (m ! str) tc = (st', tc1)" by fastforce
    ultimately have "\<exists>p s t. scan_loop m (Suc str) st' tc1 = Some (p, s, t) \<and> p \<le> z"
      using False 1(3,4) by (intro 1(1) [of "m ! str"]) auto
    then show ?thesis
      using False 1(2-4) sw by (subst scan_loop.simps) simp
  qed
qed

lemma scan_block_total:
  assumes "p \<le> z" and "z < length m" and "m ! z = 0"
  shows "\<exists>r. scan_block m p fc tc = Some r"
  using assms
proof (induction m p fc tc rule: scan_block.induct)
  case (1 m p fc tc)
  show ?case
  proof (cases "m ! p = 0")
    case True
    then show ?thesis using 1(2-3) by (subst scan_block.simps) simp
  next
    case False
    obtain p' st tc' where t: "core_state_transition m p tc = Some (p', st, tc')" "p' \<le> z"
      using scan_loop_total [OF 1(2-4)] unfolding core_state_transition_def by blast
    have "\<exists>r. scan_block m p' (incr st fc) tc' = Some r"
      using False 1(2-4) t by (intro 1(1) [OF _ _ t(1) refl refl]) auto
    then show ?thesis
      using False 1(2-4) t by (subst scan_block.simps) simp
  qed
qed

section \<open>The corruption pass\<close>

definition corrupted :: "nat \<Rightarrow> nat \<Rightarrow> nat \<Rightarrow> u8 \<Rightarrow> u8 list \<Rightarrow> u8 list" where
  "corrupted p blk d k m =
     map (\<lambda>i. if p \<le> i \<and> i < blk \<and> d dvd (i - p) \<and> m ! i \<noteq> comma
              then m ! i XOR k else m ! i) [0..<length m]"

lemma length_corrupted [simp]: "length (corrupted p blk d k m) = length m"
  by (simp add: corrupted_def)

lemma corrupt_eq:
  assumes "0 < sint step" and "blk \<le> length m"
  shows "corrupt m p blk seed step = Some (corrupted p blk (nat (sint step)) (ucast seed) m)"
  using assms
proof (induction m p blk seed step rule: corrupt.induct)
  case (1 m p blk seed step)
  let ?d = "nat (sint step)"
  have d: "0 < ?d" using 1(2) by simp
  show ?case
  proof (cases "p < blk")
    case False
    then show ?thesis
      by (subst corrupt.simps) (auto simp: corrupted_def intro!: nth_equalityI)
  next
    case True
    let ?m = "if m ! p \<noteq> comma then m[p := m ! p XOR ucast seed] else m"
    have shift: "?d dvd i - p \<longleftrightarrow> p + ?d \<le> i \<and> ?d dvd i - (p + ?d)" if "p < i" for i
    proof (cases "p + ?d \<le> i")
      case True
      then have "i - p = (i - (p + ?d)) + ?d" by simp
      with True show ?thesis by (metis dvd_add_left_iff dvd_refl)
    next
      case False
      with that show ?thesis by (auto dest: dvd_imp_le)
    qed
    have "corrupt m p blk seed step = corrupt ?m (p + ?d) blk seed step"
      using True 1(2,3) by (subst corrupt.simps) simp
    also have "\<dots> = Some (corrupted (p + ?d) blk ?d (ucast seed) ?m)"
      using True 1(2,3) by (intro 1(1) [of "m ! p"]) (auto simp: if_distrib)
    also have "corrupted (p + ?d) blk ?d (ucast seed) ?m = corrupted p blk ?d (ucast seed) m"
      using True 1(3) d by (intro nth_equalityI) (auto simp: corrupted_def nth_list_update shift)
    finally show ?thesis .
  qed
qed

section \<open>The generated input\<close>

text \<open>The bytes of the patterns.\<close>

definition pattern_bytes :: "u8 set" where
  "pattern_bytes = \<Union> (set ` set (intpat @ floatpat @ scipat @ errpat))"

lemma choose_pat_bytes:
  "choose_pat seed = (buf, n) \<Longrightarrow> length buf = n \<and> set buf \<subseteq> pattern_bytes"
proof -
  assume c: "choose_pat seed = (buf, n)"
  let ?j = "unat (drop_bit 3 seed AND 3)"
  have "drop_bit 3 seed AND 3 \<le> (3 :: s16)" by (rule word_and_le1)
  then have "?j \<le> 3" by (simp add: word_le_nat_alt)
  then have j: "?j \<in> {0, 1, 2, 3}" by auto
  have nth: "p ! ?j \<in> set p" if "length p = 4" for p :: "u8 list list"
    using j that by (intro nth_mem) auto
  have l4: "length intpat = 4" "length floatpat = 4" "length scipat = 4" "length errpat = 4"
    by (simp_all add: intpat_def floatpat_def scipat_def errpat_def)
  have "\<forall>b \<in> set intpat. length b = 4" "\<forall>b \<in> set (floatpat @ scipat @ errpat). length b = 8"
    by (simp_all add: intpat_def floatpat_def scipat_def errpat_def)
  then show ?thesis
    using c nth [OF l4(1)] nth [OF l4(2)] nth [OF l4(3)] nth [OF l4(4)]
    by (auto simp: choose_pat_def Let_def pattern_bytes_def split: if_splits)
qed

definition good_pat :: "u8 list \<Rightarrow> nat \<Rightarrow> bool" where
  "good_pat buf n \<longleftrightarrow> n = 0 \<or> length buf = n \<and> set buf \<subseteq> pattern_bytes"

lemma copy_pattern:
  assumes "length buf = n" and "tot + n < length p"
  shows "for_range 0 n (\<lambda>i p. do { c \<leftarrow> rd buf i; wr p (tot + i) c }) p
           = Some (take tot p @ buf @ drop (tot + n) p)"
proof -
  let ?g = "\<lambda>i. take tot p @ take i buf @ drop (tot + i) p"
  have "for_range 0 n (\<lambda>i p. do { c \<leftarrow> rd buf i; wr p (tot + i) c }) p = Some (?g n)"
  proof (rule for_range_eqI [where g = ?g])
    fix i assume "0 \<le> i" "i < n"
    then have "(?g i)[tot + i := buf ! i] = ?g (Suc i)"
      using assms
      by (intro nth_equalityI; auto simp: nth_list_update nth_append min_def not_less;
          intro arg_cong [where f = "(!) p"]; linarith)
    then show "do { c \<leftarrow> rd buf i; wr (?g i) (tot + i) c } = Some (?g (Suc i))"
      using assms \<open>i < n\<close> by simp
  qed (use assms in auto)
  then show ?thesis using assms by simp
qed

text \<open>What the first loop keeps: the bytes written so far are pattern bytes and commas.\<close>

definition filled :: "nat \<Rightarrow> nat \<Rightarrow> u8 list \<Rightarrow> u8 list \<Rightarrow> bool" where
  "filled lo hi p p' \<longleftrightarrow> length p' = length p \<and>
     (\<forall>i < length p. if lo \<le> i \<and> i < hi then p' ! i \<in> insert comma pattern_bytes else p' ! i = p ! i)"

lemma filledD:
  "filled lo hi p p' \<Longrightarrow> lo \<le> i \<Longrightarrow> i < hi \<Longrightarrow> i < length p \<Longrightarrow> p' ! i \<in> insert comma pattern_bytes"
  unfolding filled_def by metis

lemma filled_trans:
  "filled lo mid p p' \<Longrightarrow> filled mid hi p' p'' \<Longrightarrow> lo \<le> mid \<Longrightarrow> mid \<le> hi \<Longrightarrow> filled lo hi p p''"
  unfolding filled_def by (smt (verit) le_trans not_le order_less_le_trans)

lemma filled_copy:
  assumes "length buf = n" and "set buf \<subseteq> pattern_bytes" and "tot + n < length p"
  shows "filled tot (tot + n + 1) p ((take tot p @ buf @ drop (tot + n) p)[tot + n := comma])"
proof -
  have "buf ! (i - tot) \<in> pattern_bytes" if "tot \<le> i" "i < tot + n" for i
    using that assms(1,2) nth_mem [of "i - tot" buf] by auto
  then show ?thesis
    using assms by (auto simp: filled_def nth_list_update nth_append not_less)
qed

lemma init_fill_safe:
  assumes "tot < sz" and "sz \<le> length p" and "good_pat buf next"
  shows "\<exists>tot' p'. init_fill sz seed tot buf next p = Some (tot', p') \<and>
           tot \<le> tot' \<and> tot' < sz \<and> filled tot tot' p p'"
  using assms
proof (induction sz seed tot buf "next" p rule: init_fill.induct)
  case (1 sz seed tot buf nxt p)
  show ?case
  proof (cases "tot + nxt + 1 < sz")
    case False
    then show ?thesis using 1(2,3) by (subst init_fill.simps) (auto simp: filled_def)
  next
    case True
    obtain buf' n' where c: "choose_pat (seed + 1) = (buf', n')" by fastforce
    then have good: "good_pat buf' n'" using choose_pat_bytes by (auto simp: good_pat_def)
    show ?thesis
    proof (cases "nxt = 0")
      case True
      then have "init_fill sz seed tot buf nxt p = init_fill sz (seed + 1) tot buf' n' p"
        using \<open>tot + nxt + 1 < sz\<close> c by (subst init_fill.simps) simp
      moreover have "\<exists>tot' p'. init_fill sz (seed + 1) tot buf' n' p = Some (tot', p') \<and>
              tot \<le> tot' \<and> tot' < sz \<and> filled tot tot' p p'"
        using \<open>tot + nxt + 1 < sz\<close> True c good 1(2,3)
        by (intro 1(1) [of "(tot, p)" _ _ "seed + 1" "(buf', n')"]) auto
      ultimately show ?thesis by simp
    next
      case False
      then have b: "length buf = nxt" "set buf \<subseteq> pattern_bytes" "tot + nxt < length p"
        using 1(3,4) True by (auto simp: good_pat_def)
      define p1 where "p1 = (take tot p @ buf @ drop (tot + nxt) p)[tot + nxt := comma]"
      have f1: "filled tot (tot + nxt + 1) p p1"
        unfolding p1_def using b by (rule filled_copy)
      then have l1: "length p1 = length p" by (simp add: filled_def)
      have step: "init_fill sz seed tot buf nxt p = init_fill sz (seed + 1) (tot + nxt + 1) buf' n' p1"
        using True False b c by (subst init_fill.simps) (simp add: copy_pattern p1_def)
      have "\<exists>tot' p'. init_fill sz (seed + 1) (tot + nxt + 1) buf' n' p1 = Some (tot', p') \<and>
              tot + nxt + 1 \<le> tot' \<and> tot' < sz \<and> filled (tot + nxt + 1) tot' p1 p'"
        using True False b c good l1 1(3)
        by (intro 1(1) [of "(tot + nxt + 1, p1)" _ _ "seed + 1" "(buf', n')"]) (auto simp: copy_pattern p1_def)
      then show ?thesis unfolding step using filled_trans [OF f1] by fastforce
    qed
  qed
qed


lemma init_zero_eq:
  "tot \<le> sz \<Longrightarrow> sz \<le> length p \<Longrightarrow>
     init_zero tot sz p = Some (map (\<lambda>i. if tot \<le> i \<and> i < sz then 0 else p ! i) [0..<length p])"
proof -
  assume a: "tot \<le> sz" "sz \<le> length p"
  let ?g = "\<lambda>h. map (\<lambda>i. if tot \<le> i \<and> i < h then 0 else p ! i) [0..<length p]"
  have "for_range tot sz (\<lambda>i p. wr p i 0) p = Some (?g sz)"
    using a by (intro for_range_eqI [where g = ?g])
      (auto intro!: nth_equalityI simp: nth_list_update less_Suc_eq)
  then show ?thesis by (simp add: init_zero_def)
qed

text \<open>\<open>generated sz p p'\<close>: the block \<open>p'\<close> that \<open>core_init_state\<close> leaves of \<open>p\<close>.\<close>

definition generated :: "nat \<Rightarrow> u8 list \<Rightarrow> u8 list \<Rightarrow> bool" where
  "generated sz p p' \<longleftrightarrow> length p' = length p \<and>
     (\<forall>i < sz. p' ! i \<in> {0, comma} \<union> pattern_bytes) \<and>
     p' ! (sz - 2) = 0 \<and> p' ! (sz - 1) = 0 \<and>
     (\<forall>i. sz \<le> i \<longrightarrow> i < length p \<longrightarrow> p' ! i = p ! i)"

lemma core_init_state_total:
  assumes "2 \<le> unat sz" and "unat sz \<le> length p"
  shows "\<exists>p'. core_init_state sz seed p = Some p' \<and> generated (unat sz) p p'"
proof -
  have sz: "unat (sz - 1) = unat sz - 1"
    using assms(1) by (intro unat_minus_one) auto
  obtain tot p1 where f: "init_fill (unat sz - 1) seed 0 [] 0 p = Some (tot, p1)"
      "tot < unat sz - 1" "filled 0 tot p p1"
  proof -
    have "0 < unat sz - 1" "unat sz - 1 \<le> length p" using assms by auto
    then show thesis
      using init_fill_safe [of 0 "unat sz - 1" p "[]" 0 seed] that by (auto simp: good_pat_def)
  qed
  let ?p2 = "map (\<lambda>i. if tot \<le> i \<and> i < unat sz then 0 else p1 ! i) [0..<length p1]"
  have l: "length p1 = length p" using f(3) by (simp add: filled_def)
  then have "core_init_state sz seed p = Some ?p2"
    using f assms init_zero_eq [of tot "unat sz" p1] by (simp add: core_init_state_def sz)
  moreover have "p1 ! i \<in> insert comma pattern_bytes" if "i < tot" for i
    using f(2) assms(2) that filledD [OF f(3), of i] by simp
  then have "generated (unat sz) p ?p2"
    using f l assms by (auto simp: generated_def filled_def)
  ultimately show ?thesis by blast
qed

text \<open>\<open>core_init_state\<close> stays inside a block of at least two bytes, terminates, fills its
  first \<open>size\<close> bytes with pattern bytes, commas and zeros, leaves everything after them alone, and
  always ends the input with two 0 bytes.\<close>

theorem core_init_state_safe:
  assumes "2 \<le> unat sz" and "unat sz \<le> length p"
  shows "\<exists>p'. core_init_state sz seed p = Some p' \<and> generated (unat sz) p p'"
  by (rule core_init_state_total [OF assms])

theorem core_init_state_safe_witness:
  "\<exists>p'. core_init_state 40 0 (replicate 64 7) = Some p' \<and> generated 40 (replicate 64 7) p'"
  using core_init_state_safe [of 40 "replicate 64 7" 0] by simp

section \<open>The benchmark restores its input\<close>

lemma two_zeros_survive:
  assumes "2 \<le> d" and "m ! z = 0" and "m ! Suc z = 0" and "Suc z < length m"
  shows "\<exists>z'. z' < length m \<and> corrupted 0 blk d k m ! z' = 0"
proof (cases "d dvd z")
  case True
  then have "\<not> d dvd Suc z" using assms(1) by (metis Suc_1 Suc_n_not_le_n dvd_add_right_iff nat_dvd_1_iff_1 plus_1_eq_Suc add.commute)
  then have "corrupted 0 blk d k m ! Suc z = 0" using assms by (simp add: corrupted_def)
  with assms(4) show ?thesis by blast
next
  case False
  then have "corrupted 0 blk d k m ! z = 0" using assms by (simp add: corrupted_def)
  with assms(4) show ?thesis by (metis Suc_lessD)
qed

text \<open>No corrupted byte is mistaken for a separator when the corruption is undone.\<close>

definition undoable :: "nat \<Rightarrow> u8 \<Rightarrow> u8 list \<Rightarrow> bool" where
  "undoable blk k m \<longleftrightarrow> list_all (\<lambda>c. c \<noteq> comma \<longrightarrow> c XOR k \<noteq> comma) (take blk m)"

lemma corrupted_twice:
  "undoable blk k m \<Longrightarrow> corrupted 0 blk d k (corrupted 0 blk d k m) = m"
  by (intro nth_equalityI) (auto simp: corrupted_def undoable_def list_all_length xor.assoc)

lemma core_bench_state_total:
  assumes "Suc z < length m" and "m ! z = 0" and "m ! Suc z = 0"
    and "unat blksize \<le> length m" and "2 \<le> sint step"
    and "(ucast seed1 :: u8) = ucast seed2" and "undoable (unat blksize) (ucast seed1) m"
  shows "\<exists>crc'. core_bench_state blksize m seed1 seed2 step crc = Some (crc', m)"
proof -
  let ?m = "corrupted 0 (unat blksize) (nat (sint step)) (ucast seed1) m"
  obtain fc tc where s1: "scan_block m 0 (\<lambda>_. 0) (\<lambda>_. 0) = Some (fc, tc)"
    using scan_block_total [of 0 z m] assms(1,2) by (metis Suc_lessD surj_pair zero_le)
  have c1: "corrupt m 0 (unat blksize) seed1 step = Some ?m"
    using assms(4,5) by (intro corrupt_eq) auto
  obtain z' where z': "z' < length ?m" "?m ! z' = 0"
  proof -
    have "2 \<le> nat (sint step)" using assms(5) by linarith
    then show thesis
      using two_zeros_survive [of "nat (sint step)" m z "unat blksize" "ucast seed1"] assms(1-3) that
      by auto
  qed
  then obtain fc' tc' where s2: "scan_block ?m 0 fc tc = Some (fc', tc')"
    using scan_block_total [of 0 z' ?m] by (metis surj_pair zero_le)
  have c2: "corrupt ?m 0 (unat blksize) seed2 step = Some m"
    using corrupt_eq [of step "unat blksize" ?m 0 seed2] assms(4-7) by (simp add: corrupted_twice)
  from s1 c1 s2 c2 show ?thesis by (simp add: core_bench_state_def)
qed

text \<open>C8: the benchmark stays inside the block, terminates, and with equal seeds gives the memory
  back as it found it, for every block that holds two adjacent 0 bytes, every step of at least 2
  and every seed that turns no byte of the block into a comma.\<close>

theorem core_bench_state_restores:
  assumes "Suc z < length m" and "m ! z = 0" and "m ! Suc z = 0"
    and "unat blksize \<le> length m" and "2 \<le> sint step"
    and "(ucast seed1 :: u8) = ucast seed2" and "undoable (unat blksize) (ucast seed1) m"
  shows "\<exists>crc'. core_bench_state blksize m seed1 seed2 step crc = Some (crc', m)"
  by (rule core_bench_state_total [OF assms])

theorem core_bench_state_restores_witness:
  "\<exists>crc'. core_bench_state 4 [0x35, 0x2c, 0, 0] 0x3415 0x3415 2 0 = Some (crc', [0x35, 0x2c, 0, 0])"
proof (rule core_bench_state_restores [of 2])
  show "undoable (unat (4 :: u32)) (ucast (0x3415 :: s16)) [0x35, 0x2c, 0, 0]"
    by (simp add: undoable_def)
qed simp_all


text \<open>Seeds that turn no byte of the generated input into a comma.\<close>

definition seed_ok :: "s16 \<Rightarrow> bool" where
  "seed_ok seed \<longleftrightarrow>
     list_all (\<lambda>c. c XOR ucast seed \<noteq> comma) (0 # concat (intpat @ floatpat @ scipat @ errpat))"

text \<open>on the input \<open>core_init_state\<close> generates, with the block size it was generated for
  and any seed that turns neither a pattern byte nor 0 into a comma, the benchmark gives the block
  back unchanged; the seeds of the performance run (0), of the validation run (0x3415) and of the
  profile run (8) are such seeds.\<close>

theorem generated_input_restored:
  assumes "2 \<le> unat sz" and "unat sz \<le> length p" and "2 \<le> sint step" and "seed_ok seed"
  shows "(\<exists>m crc'. core_init_state sz s p = Some m \<and>
           core_bench_state sz m seed seed step crc = Some (crc', m)) \<and>
         seed_ok 0 \<and> seed_ok 0x3415 \<and> seed_ok 8"
proof -
  obtain m where m: "core_init_state sz s p = Some m" "generated (unat sz) p m"
    using core_init_state_total [OF assms(1,2)] by blast
  have "m ! i \<noteq> comma \<longrightarrow> m ! i XOR ucast seed \<noteq> comma" if "i < unat sz" for i
  proof -
    have "m ! i \<in> {0, comma} \<union> pattern_bytes" using m(2) that by (simp add: generated_def)
    then show ?thesis
      using assms(4) by (auto simp: seed_ok_def list_all_iff pattern_bytes_def)
  qed
  then have "undoable (unat sz) (ucast seed) m"
    by (auto simp: undoable_def list_all_length)
  then have "\<exists>crc'. core_bench_state sz m seed seed step crc = Some (crc', m)"
    using assms m(2) by (intro core_bench_state_total [of "unat sz - 2"])
      (auto simp: generated_def Suc_diff_Suc numeral_2_eq_2)
  moreover have "seed_ok 0" "seed_ok 0x3415" "seed_ok 8"
    by (simp_all add: seed_ok_def intpat_def floatpat_def scipat_def errpat_def)
  ultimately show ?thesis using m(1) by blast
qed

theorem generated_input_restored_witness:
  "\<exists>m crc'. core_init_state 40 0x3415 (replicate 40 0) = Some m \<and>
     core_bench_state 40 m 0x3415 0x3415 0x22 0 = Some (crc', m)"
proof -
  have "seed_ok 0x3415" by (simp add: seed_ok_def intpat_def floatpat_def scipat_def errpat_def)
  then show ?thesis
    using generated_input_restored [of 40 "replicate 40 0" "0x22" "0x3415" "0x3415" 0] by simp
qed

section \<open>Where the comments and the code part\<close>

text \<open>The third of the patterns the generator emits as scientific numbers has no decimal point,
  and the scanner rejects it.\<close>

lemma scipat_2_invalid: "foldl core_next CORE_START (scipat ! 2) = CORE_INVALID"
  by (simp add: scipat_def core_next_simps ee_isdigit_def is_sign_def)

text \<open>Equal seeds alone do not undo the corruption: a byte that becomes a comma stays one.\<close>

lemma equal_seeds_not_enough:
  "\<exists>m crc'. core_bench_state 1 [0x39, 0, 0] 0x15 0x15 2 0 = Some (crc', m) \<and> m \<noteq> [0x39, 0, 0]"
proof -
  have "corrupted 0 1 2 0x15 [0x39, 0, 0] = [0x2c, 0, 0]"
    "corrupted 0 1 2 0x15 [0x2c, 0, 0] = [0x2c, 0, 0]"
    by (simp_all add: corrupted_def upt_rec)
  moreover obtain fc tc where "scan_block [0x39, 0, 0] 0 (\<lambda>_. 0) (\<lambda>_. 0) = Some (fc, tc)"
    using scan_block_total [of 0 1 "[0x39, 0, 0]"] by (fastforce simp: numeral_eq_Suc)
  moreover obtain fc' tc' where "scan_block [0x2c, 0, 0] 0 fc tc = Some (fc', tc')"
    using scan_block_total [of 0 1 "[0x2c, 0, 0]"] by (fastforce simp: numeral_eq_Suc)
  ultimately show ?thesis
    by (simp add: core_bench_state_def corrupt_eq)
qed

end
