(* ===== verification/CoreMatrix.thy ===== *)
theory CoreMatrix
  imports CoreUtil
begin

unbundle bit_operations_syntax

text \<open>
  The matrix benchmark of CoreMark, \<open>src/lib/coremark/core_matrix.c\<close>, for the integer
  configuration \<open>MATDAT_INT\<close> (\<open>MATDAT\<close> is \<open>ee_s16\<close>, \<open>MATRES\<close> is \<open>ee_s32\<close>). A
  matrix is the list of its elements in row-major order; an access outside it is \<open>None\<close>. The
  index \<open>i * N + j\<close> is a natural number: it addresses an element, so it does not wrap. A sum of
  \<open>MATRES\<close> values that leaves 32 bits is undefined behaviour, \<open>None\<close>; the product of two
  \<open>MATDAT\<close> values never does, and the macro \<open>bit_extract\<close> computes in unsigned numbers.
  \<open>mat_fits\<close> says, from the contents of the matrices, when no sum leaves the range.
\<close>

type_synonym matdat = "16 word"
type_synonym matres = "32 word"

section \<open>The operations\<close>

definition matrix_mul_const ::
    "nat \<Rightarrow> matres list \<Rightarrow> matdat list \<Rightarrow> matdat \<Rightarrow> matres list option" where
  "matrix_mul_const N C A val =
     for_range 0 N (\<lambda>i C. for_range 0 N (\<lambda>j C. do {
       a \<leftarrow> rd A (i * N + j);
       wr C (i * N + j) (scast a * scast val) }) C) C"

definition matrix_add_const :: "nat \<Rightarrow> matdat list \<Rightarrow> matdat \<Rightarrow> matdat list option" where
  "matrix_add_const N A val =
     for_range 0 N (\<lambda>i A. for_range 0 N (\<lambda>j A. do {
       a \<leftarrow> rd A (i * N + j);
       wr A (i * N + j) (a + val) }) A) A"

definition matrix_mul_vect ::
    "nat \<Rightarrow> matres list \<Rightarrow> matdat list \<Rightarrow> matdat list \<Rightarrow> matres list option" where
  "matrix_mul_vect N C A B =
     for_range 0 N (\<lambda>i C. do {
       C \<leftarrow> wr C i 0;
       for_range 0 N (\<lambda>j C. do {
         v \<leftarrow> do { a \<leftarrow> rd A (i * N + j); b \<leftarrow> rd B j; Some (scast a * scast b) };
         c \<leftarrow> rd C i;
         c \<leftarrow> add32 c v;
         wr C i c }) C }) C"

definition matrix_mul_matrix ::
    "nat \<Rightarrow> matres list \<Rightarrow> matdat list \<Rightarrow> matdat list \<Rightarrow> matres list option" where
  "matrix_mul_matrix N C A B =
     for_range 0 N (\<lambda>i C. for_range 0 N (\<lambda>j C. do {
       C \<leftarrow> wr C (i * N + j) 0;
       for_range 0 N (\<lambda>k C. do {
         v \<leftarrow> do { a \<leftarrow> rd A (i * N + k); b \<leftarrow> rd B (k * N + j); Some (scast a * scast b) };
         c \<leftarrow> rd C (i * N + j);
         c \<leftarrow> add32 c v;
         wr C (i * N + j) c }) C }) C) C"

text \<open>The macro \<open>bit_extract\<close>: an arithmetic shift of the signed product, then the mask.\<close>

definition bit_extract :: "matres \<Rightarrow> nat \<Rightarrow> nat \<Rightarrow> u32" where
  "bit_extract x from to = signed_drop_bit from x AND NOT (push_bit to 0xffffffff)"

definition matrix_mul_matrix_bitextract ::
    "nat \<Rightarrow> matres list \<Rightarrow> matdat list \<Rightarrow> matdat list \<Rightarrow> matres list option" where
  "matrix_mul_matrix_bitextract N C A B =
     for_range 0 N (\<lambda>i C. for_range 0 N (\<lambda>j C. do {
       C \<leftarrow> wr C (i * N + j) 0;
       for_range 0 N (\<lambda>k C. do {
         v \<leftarrow> do {
           a \<leftarrow> rd A (i * N + k);
           b \<leftarrow> rd B (k * N + j);
           let tmp = (scast a * scast b :: matres)
           in Some (bit_extract tmp 2 4 * bit_extract tmp 5 7) };
         c \<leftarrow> rd C (i * N + j);
         wr C (i * N + j) (c + v) }) C }) C) C"

text \<open>The body of \<open>matrix_sum\<close> on \<open>(tmp, prev, ret)\<close>; comparisons are signed.\<close>

definition matrix_sum_body ::
    "matdat \<Rightarrow> matres \<Rightarrow> matres \<times> matres \<times> s16 \<Rightarrow> (matres \<times> matres \<times> s16) option" where
  "matrix_sum_body clipval cur = (\<lambda>(tmp, prev, ret). do {
     tmp \<leftarrow> add32 tmp cur;
     Some (if sint clipval < sint tmp then (0, cur, ret + 10)
           else (tmp, cur, ret + (if sint prev < sint cur then 1 else 0))) })"

definition matrix_sum :: "nat \<Rightarrow> matres list \<Rightarrow> matdat \<Rightarrow> s16 option" where
  "matrix_sum N C clipval = do {
     (tmp, prev, ret) \<leftarrow>
       for_range 0 N (\<lambda>i s. for_range 0 N (\<lambda>j s. do {
         cur \<leftarrow> rd C (i * N + j);
         matrix_sum_body clipval cur s }) s) (0, 0, 0);
     Some ret }"

definition matrix_big :: "matdat \<Rightarrow> matdat" where
  "matrix_big x = 0xf000 OR x"

text \<open>\<open>matrix_test\<close> returns the CRC and leaves the new contents of \<open>C\<close> and of \<open>A\<close>.\<close>

definition matrix_test ::
    "nat \<Rightarrow> matres list \<Rightarrow> matdat list \<Rightarrow> matdat list \<Rightarrow> matdat \<Rightarrow>
     (u16 \<times> matres list \<times> matdat list) option" where
  "matrix_test N C A B val = (
     let crc = 0; clipval = matrix_big val in do {
       A \<leftarrow> matrix_add_const N A val;
       C \<leftarrow> matrix_mul_const N C A val;
       r \<leftarrow> matrix_sum N C clipval;
       crc \<leftarrow> Some (crc16 r crc);
       C \<leftarrow> matrix_mul_vect N C A B;
       r \<leftarrow> matrix_sum N C clipval;
       crc \<leftarrow> Some (crc16 r crc);
       C \<leftarrow> matrix_mul_matrix N C A B;
       r \<leftarrow> matrix_sum N C clipval;
       crc \<leftarrow> Some (crc16 r crc);
       C \<leftarrow> matrix_mul_matrix_bitextract N C A B;
       r \<leftarrow> matrix_sum N C clipval;
       crc \<leftarrow> Some (crc16 r crc);
       A \<leftarrow> matrix_add_const N A (- val);
       Some (crc, C, A) })"

text \<open>\<open>mat_params\<close>: the dimension and the three arrays.\<close>

record mat_params =
  mat_N :: s32
  mat_A :: "matdat list"
  mat_B :: "matdat list"
  mat_C :: "matres list"

definition core_bench_matrix :: "mat_params \<Rightarrow> s16 \<Rightarrow> u16 \<Rightarrow> (u16 \<times> mat_params) option" where
  "core_bench_matrix p seed crc = do {
     (r, C, A) \<leftarrow> matrix_test (unat (mat_N p)) (mat_C p) (mat_A p) (mat_B p) seed;
     Some (crc16 r crc, p\<lparr>mat_C := C, mat_A := A\<rparr>) }"

section \<open>The initialisation\<close>

text \<open>The search for the dimension on 32-bit counters; it need not end for a huge block.\<close>

partial_function (option) dim_loop :: "u32 \<Rightarrow> u32 \<Rightarrow> u32 \<Rightarrow> u32 option" where
  "dim_loop blksize i j =
     (if j < blksize then dim_loop blksize (i + 1) ((i + 1) * (i + 1) * 2 * 4) else Some i)"

definition align_mem :: "u32 \<Rightarrow> u32" where
  "align_mem x = 4 + ((x - 1) AND NOT 3)"

definition matrix_clip :: "matdat \<Rightarrow> bool \<Rightarrow> matdat" where
  "matrix_clip x y = (if y then x AND 0x0ff else x AND 0x0ffff)"

text \<open>C's remainder truncates towards zero.\<close>

definition c_rem :: "int \<Rightarrow> int \<Rightarrow> int" where
  "c_rem a b = sgn a * (\<bar>a\<bar> mod \<bar>b\<bar>)"

text \<open>The body of the filling loop on \<open>(A, B, seed, order)\<close>.\<close>

definition init_matrix_body ::
    "nat \<Rightarrow> matdat list \<times> matdat list \<times> int \<times> int \<Rightarrow> (matdat list \<times> matdat list \<times> int \<times> int) option" where
  "init_matrix_body k = (\<lambda>(A, B, seed, order). do {
     x \<leftarrow> chk32 (order * seed);
     seed \<leftarrow> Some (c_rem x 65536);
     v \<leftarrow> chk32 (seed + order);
     val \<leftarrow> Some (matrix_clip (word_of_int v) False);
     B \<leftarrow> wr B k val;
     w \<leftarrow> chk32 (sint val + order);
     val \<leftarrow> Some (matrix_clip (word_of_int w) True);
     A \<leftarrow> wr A k val;
     order \<leftarrow> chk32 (order + 1);
     Some (A, B, seed, order) })"

text \<open>
  \<open>core_init_matrix\<close>: the dimension, the addresses of the three matrices and the new contents
  of \<open>A\<close> and \<open>B\<close>, given the contents \<open>A0\<close>, \<open>B0\<close> of the memory at these addresses.
\<close>

definition core_init_matrix ::
    "u32 \<Rightarrow> u32 \<Rightarrow> s32 \<Rightarrow> matdat list \<Rightarrow> matdat list \<Rightarrow>
     (u32 \<times> (u32 \<times> u32 \<times> u32) \<times> matdat list \<times> matdat list) option" where
  "core_init_matrix blksize memblk seed A0 B0 = do {
     i \<leftarrow> dim_loop blksize 0 0;
     N \<leftarrow> Some (i - 1);
     pA \<leftarrow> Some (align_mem memblk);
     pB \<leftarrow> Some (pA + 2 * (N * N));
     (A, B, s, ord) \<leftarrow>
       for_range 0 (unat N) (\<lambda>i st. for_range 0 (unat N) (\<lambda>j. init_matrix_body (i * unat N + j)) st)
         (A0, B0, (if seed = 0 then 1 else sint seed), 1);
     pC \<leftarrow> Some (align_mem (pB + 2 * (N * N)));
     Some (N, (pA, pB, pC), A, B) }"

section \<open>What the loops compute\<close>

lemma matrix_add_const_eq:
  assumes "N * N \<le> length A"
  shows "matrix_add_const N A val = Some (upd_prefix (N * N) (\<lambda>p. A ! p + val) A)"
  unfolding matrix_add_const_def for_range_matrix
  using assms by (intro for_store) (auto simp: matrix_index nth_upd_prefix)

lemma matrix_mul_const_eq:
  assumes "N * N \<le> length A" and "N * N \<le> length C"
  shows "matrix_mul_const N C A val = Some (upd_prefix (N * N) (\<lambda>p. scast (A ! p) * scast val) C)"
  unfolding matrix_mul_const_def for_range_matrix
  using assms by (intro for_store) (auto simp: matrix_index)

text \<open>Sums in 32 bits: all partial sums of \<open>h 0 + \<dots> + h (n - 1)\<close> are in range.\<close>

definition in32 :: "int \<Rightarrow> bool" where
  "in32 x \<longleftrightarrow> - (2 ^ 31) \<le> x \<and> x < 2 ^ 31"

definition sums_fit :: "nat \<Rightarrow> (nat \<Rightarrow> int) \<Rightarrow> bool" where
  "sums_fit n h \<longleftrightarrow> (\<forall>k < n. in32 (\<Sum>j<Suc k. h j))"

lemma chk32_in32: "chk32 x = (if in32 x then Some x else None)"
  by (simp add: chk32_def in32_def)

lemma sint_in32: "in32 x \<Longrightarrow> sint (word_of_int x :: 32 word) = x"
  by (simp add: in32_def sint_sbintrunc' signed_take_bit_int_eq_self)

lemma sums_fit_total: "sums_fit n h \<Longrightarrow> in32 (\<Sum>j<n. h j)"
  by (cases n) (auto simp: sums_fit_def in32_def)

lemma sint_mat_prod: "sint (scast (a :: matdat) * scast (b :: matdat) :: matres) = sint a * sint b"
proof -
  have "\<bar>sint x\<bar> \<le> 2 ^ 15" for x :: matdat using sint_ge [of x] sint_lt [of x] by simp
  then have "\<bar>sint a * sint b\<bar> \<le> 2 ^ 15 * 2 ^ 15" unfolding abs_mult by (intro mult_mono) auto
  then have "\<bar>sint a * sint b\<bar> < 2 ^ 31" by simp
  moreover have "(scast a * scast b :: matres) = word_of_int (sint a * sint b)"
    by (simp only: of_int_mult scast_eq)
  ultimately show ?thesis by (simp only: sint_word_of_int32)
qed

lemma for_mac:
  assumes "k < length xs" and "xs ! k = 0"
    and "\<And>j. j < n \<Longrightarrow> g j = Some (v j)" and "\<And>j. j < n \<Longrightarrow> sint (v j) = h j"
  shows "for_range 0 n (\<lambda>j xs. do { v \<leftarrow> g j; c \<leftarrow> rd xs k; c \<leftarrow> add32 c v; wr xs k c }) xs
           = (if sums_fit n h then Some (xs[k := word_of_int (\<Sum>j<n. h j)]) else None)"
proof -
  let ?f = "\<lambda>j xs. do { v \<leftarrow> g j; c \<leftarrow> rd xs k; c \<leftarrow> add32 c v; wr xs k c }"
  let ?g = "\<lambda>i. xs[k := word_of_int (\<Sum>j<i. h j)]" and ?P = "\<lambda>i. in32 (\<Sum>j<Suc i. h j)"
  have "for_range 0 n ?f (?g 0) = (if \<forall>i < n. ?P i then Some (?g n) else None)"
  proof (rule for_range_guarded)
    fix i assume i: "i < n" "\<forall>j < i. ?P j"
    have "in32 (\<Sum>j<i. h j)" using i(2) by (intro sums_fit_total) (simp add: sums_fit_def)
    then have "add32 (word_of_int (\<Sum>j<i. h j)) (v i)
        = (if ?P i then Some (word_of_int (\<Sum>j<Suc i. h j)) else None)"
      using assms(4) [OF i(1)] by (simp add: add32_def sint_in32 chk32_in32 del: of_int_sum)
    then show "?f i (?g i) = (if ?P i then Some (?g (Suc i)) else None)"
      using i(1) assms(1,3) by simp
  qed
  moreover have "?g 0 = xs" using assms(2) by (simp add: list_update_same_conv assms(1))
  ultimately show ?thesis by (simp only: sums_fit_def)
qed

lemma vector_product_loop:
  assumes "N \<le> length C"
    and "\<And>i j. i < N \<Longrightarrow> j < N \<Longrightarrow> g i j = Some (v i j)" and "\<And>i j. sint (v i j) = h i j"
  shows "for_range 0 N (\<lambda>i C. do {
           C \<leftarrow> wr C i (0 :: matres);
           for_range 0 N (\<lambda>j C. do { v \<leftarrow> g i j; c \<leftarrow> rd C i; c \<leftarrow> add32 c v; wr C i c }) C }) C
         = (if \<forall>i < N. sums_fit N (h i)
            then Some (upd_prefix N (\<lambda>i. word_of_int (\<Sum>j<N. h i j)) C) else None)"
proof (rule for_store_guarded [OF assms(1)])
  fix i assume i: "i < N"
  let ?C = "upd_prefix i (\<lambda>i. word_of_int (\<Sum>j<N. h i j)) C"
  show "do { C \<leftarrow> wr ?C i 0; for_range 0 N (\<lambda>j C. do {
            v \<leftarrow> g i j; c \<leftarrow> rd C i; c \<leftarrow> add32 c v; wr C i c }) C }
      = (if sums_fit N (h i) then Some (?C[i := word_of_int (\<Sum>j<N. h i j)]) else None)"
    using i assms by (simp add: for_mac [where h = "h i" and v = "v i"])
qed

text \<open>The terms of the products, for the matrices \<open>a\<close> and \<open>b\<close> given as functions of the index.\<close>

definition vect_term :: "nat \<Rightarrow> (nat \<Rightarrow> matdat) \<Rightarrow> (nat \<Rightarrow> matdat) \<Rightarrow> nat \<Rightarrow> nat \<Rightarrow> int" where
  "vect_term N a b i k = sint (a (i * N + k)) * sint (b k)"

definition prod_term :: "nat \<Rightarrow> (nat \<Rightarrow> matdat) \<Rightarrow> (nat \<Rightarrow> matdat) \<Rightarrow> nat \<Rightarrow> nat \<Rightarrow> int" where
  "prod_term N a b p k = sint (a (p div N * N + k)) * sint (b (k * N + p mod N))"

definition bits_sum :: "nat \<Rightarrow> (nat \<Rightarrow> matdat) \<Rightarrow> (nat \<Rightarrow> matdat) \<Rightarrow> nat \<Rightarrow> matres" where
  "bits_sum N a b p =
     (\<Sum>k<N. let tmp = scast (a (p div N * N + k)) * scast (b (k * N + p mod N))
            in bit_extract tmp 2 4 * bit_extract tmp 5 7)"

lemma matrix_mul_vect_eq:
  assumes "N * N \<le> length A" and "N \<le> length B" and "N \<le> length C"
  shows "matrix_mul_vect N C A B
    = (if \<forall>i < N. sums_fit N (vect_term N ((!) A) ((!) B) i)
       then Some (upd_prefix N (\<lambda>i. word_of_int (\<Sum>k<N. vect_term N ((!) A) ((!) B) i k)) C) else None)"
  unfolding matrix_mul_vect_def
  using assms order.strict_trans2 [OF matrix_row]
  by (intro vector_product_loop [where v = "\<lambda>i j. scast (A ! (i * N + j)) * scast (B ! j)"])
    (auto simp: vect_term_def sint_mat_prod)

text \<open>The loop nest of the two matrix products, for a body that accumulates with \<open>acc\<close>.\<close>

lemma matrix_product_loop:
  assumes "N * N \<le> length C"
    and "\<And>p xs. p < N * N \<Longrightarrow> p < length xs \<Longrightarrow> xs ! p = (0 :: matres) \<Longrightarrow>
           for_range 0 N (\<lambda>k. acc (p div N) (p mod N) k p) xs = (if P p then Some (xs[p := h p]) else None)"
  shows "for_range 0 N (\<lambda>i C. for_range 0 N (\<lambda>j C. do {
           C \<leftarrow> wr C (i * N + j) 0; for_range 0 N (\<lambda>k. acc i j k (i * N + j)) C }) C) C
         = (if \<forall>p < N * N. P p then Some (upd_prefix (N * N) h C) else None)"
  unfolding for_range_matrix
proof (rule for_store_guarded [OF assms(1)])
  fix p assume p: "p < N * N"
  show "do { C \<leftarrow> wr (upd_prefix p h C) (p div N * N + p mod N) 0;
             for_range 0 N (\<lambda>k. acc (p div N) (p mod N) k (p div N * N + p mod N)) C }
      = (if P p then Some ((upd_prefix p h C)[p := h p]) else None)"
    using p assms(1) assms(2) [OF p, of "(upd_prefix p h C)[p := 0]"] matrix_index(3) [OF p] by simp
qed

lemma matrix_mul_matrix_eq:
  assumes "N * N \<le> length A" and "N * N \<le> length B" and "N * N \<le> length C"
  shows "matrix_mul_matrix N C A B
    = (if \<forall>p < N * N. sums_fit N (prod_term N ((!) A) ((!) B) p)
       then Some (upd_prefix (N * N) (\<lambda>p. word_of_int (\<Sum>k<N. prod_term N ((!) A) ((!) B) p k)) C) else None)"
  unfolding matrix_mul_matrix_def
proof (rule matrix_product_loop [OF assms(3)])
  fix p and xs :: "matres list"
  assume p: "p < N * N" "p < length xs" "xs ! p = 0"
  note idx = matrix_index [OF p(1)]
  show "for_range 0 N (\<lambda>k C. do {
            v \<leftarrow> do { a \<leftarrow> rd A (p div N * N + k); b \<leftarrow> rd B (k * N + p mod N); Some (scast a * scast b) };
            c \<leftarrow> rd C p; c \<leftarrow> add32 c v; wr C p c }) xs
      = (if sums_fit N (prod_term N ((!) A) ((!) B) p)
         then Some (xs[p := word_of_int (\<Sum>k<N. prod_term N ((!) A) ((!) B) p k)]) else None)"
    using idx order.strict_trans2 [OF matrix_row] assms(1,2)
    by (intro for_mac [OF p(2,3),
          where v = "\<lambda>k. scast (A ! (p div N * N + k)) * scast (B ! (k * N + p mod N))"])
      (auto simp: prod_term_def sint_mat_prod)
qed

lemma matrix_mul_matrix_bitextract_eq:
  assumes "N * N \<le> length A" and "N * N \<le> length B" and "N * N \<le> length C"
  shows "matrix_mul_matrix_bitextract N C A B = Some (upd_prefix (N * N) (bits_sum N ((!) A) ((!) B)) C)"
proof -
  have "matrix_mul_matrix_bitextract N C A B =
      (if \<forall>p < N * N. True then Some (upd_prefix (N * N) (bits_sum N ((!) A) ((!) B)) C) else None)"
    unfolding matrix_mul_matrix_bitextract_def
  proof (rule matrix_product_loop [OF assms(3)])
    fix p and xs :: "matres list"
    assume p: "p < N * N" "p < length xs" "xs ! p = 0"
    note idx = matrix_index [OF p(1)]
    have "for_range 0 N (\<lambda>k C. do {
            v \<leftarrow> do { a \<leftarrow> rd A (p div N * N + k); b \<leftarrow> rd B (k * N + p mod N);
              let tmp = (scast a * scast b :: matres) in Some (bit_extract tmp 2 4 * bit_extract tmp 5 7) };
            c \<leftarrow> rd C p; wr C p (c + v) }) xs = Some (xs[p := xs ! p + bits_sum N ((!) A) ((!) B) p])"
      unfolding bits_sum_def
      using idx order.strict_trans2 [OF matrix_row] assms(1,2)
      by (intro for_accumulate [OF p(2)]) (auto simp: Let_def)
    then show "for_range 0 N (\<lambda>k C. do {
            v \<leftarrow> do { a \<leftarrow> rd A (p div N * N + k); b \<leftarrow> rd B (k * N + p mod N);
              let tmp = (scast a * scast b :: matres) in Some (bit_extract tmp 2 4 * bit_extract tmp 5 7) };
            c \<leftarrow> rd C p; wr C p (c + v) }) xs
        = (if True then Some (xs[p := bits_sum N ((!) A) ((!) B) p]) else None)"
      by (simp only: p(3) add_0_left if_True)
  qed
  then show ?thesis by simp
qed

section \<open>The sum\<close>

fun sum_run :: "matdat \<Rightarrow> matres list \<Rightarrow> matres \<times> matres \<times> s16 \<Rightarrow> (matres \<times> matres \<times> s16) option" where
  "sum_run clipval [] s = Some s"
| "sum_run clipval (c # cs) s = do { s \<leftarrow> matrix_sum_body clipval c s; sum_run clipval cs s }"

text \<open>The running total of \<open>matrix_sum\<close> stays in range; it starts anew above \<open>clip\<close>.\<close>

fun sum_fits :: "int \<Rightarrow> int \<Rightarrow> int list \<Rightarrow> bool" where
  "sum_fits clip tmp [] \<longleftrightarrow> True"
| "sum_fits clip tmp (c # cs) \<longleftrightarrow> in32 (tmp + c) \<and> sum_fits clip (if clip < tmp + c then 0 else tmp + c) cs"

lemma sum_run_snoc: "sum_run clipval (cs @ [c]) s = do { s \<leftarrow> sum_run clipval cs s; matrix_sum_body clipval c s }"
  by (induction cs arbitrary: s) (auto split: bind_splits)

lemma matrix_sum_eq:
  assumes "N * N \<le> length C"
  shows "matrix_sum N C clipval = map_option (snd \<circ> snd) (sum_run clipval (take (N * N) C) (0, 0, 0))"
proof -
  have "for_range 0 n (\<lambda>p s. do { cur \<leftarrow> rd C p; matrix_sum_body clipval cur s }) s = sum_run clipval (take n C) s"
    if "n \<le> length C" for n s
    using that
  proof (induction n)
    case (Suc n)
    then show ?case
      by (simp add: for_range_split [of 0 n "Suc n"] for_range_step [of n] take_Suc_conv_app_nth sum_run_snoc)
  qed simp
  moreover have "for_range 0 N (\<lambda>i s. for_range 0 N (\<lambda>j s. do {
          cur \<leftarrow> rd C (i * N + j); matrix_sum_body clipval cur s }) s) (0, 0, 0)
      = for_range 0 (N * N) (\<lambda>p s. do { cur \<leftarrow> rd C p; matrix_sum_body clipval cur s }) (0, 0, 0)"
    unfolding for_range_matrix by (intro for_range_cong) (simp add: matrix_index)
  ultimately show ?thesis
    using assms by (auto simp: matrix_sum_def map_option_case split: bind_splits option.splits)
qed

lemma sum_run_fits:
  "sum_run clipval cs (tmp, prev, ret) \<noteq> None \<longleftrightarrow> sum_fits (sint clipval) (sint tmp) (map sint cs)"
proof (induction cs arbitrary: tmp prev ret)
  case (Cons c cs)
  have "in32 (sint tmp + sint c) \<Longrightarrow> sint (tmp + c) = sint tmp + sint c"
    using sint_in32 [of "sint tmp + sint c"] by simp
  with Cons show ?case by (simp add: matrix_sum_body_def add32_def chk32_in32)
qed simp

lemma matrix_sum_when:
  assumes "N * N \<le> length C" and "map sint (take (N * N) C) = xs"
  shows "matrix_sum N C clipval = (if sum_fits (sint clipval) 0 xs then Some (the (matrix_sum N C clipval)) else None)"
  using sum_run_fits [of clipval "take (N * N) C" 0 0 0] matrix_sum_eq [OF assms(1), of clipval] assms(2)
  by (cases "sum_run clipval (take (N * N) C) (0, 0, 0)") simp_all

lemma sum_run_bound:
  assumes "sum_run clipval cs (tmp, prev, ret) = Some (t, p, r)"
  shows "unat r \<le> unat ret + 10 * length cs"
  using assms
proof (induction cs arbitrary: tmp prev ret)
  case (Cons c cs)
  obtain t1 p1 r1 where 1: "matrix_sum_body clipval c (tmp, prev, ret) = Some (t1, p1, r1)"
      "sum_run clipval cs (t1, p1, r1) = Some (t, p, r)"
    using Cons.prems by (auto simp: bind_eq_Some_conv)
  have "unat (ret + 10) \<le> unat ret + 10" "unat (ret + 1) \<le> unat ret + 1"
    by (auto simp: unat_word_ariths intro: order.trans [OF mod_less_eq_dividend])
  then have "unat r1 \<le> unat ret + 10"
    using 1(1) by (auto simp: matrix_sum_body_def bind_eq_Some_conv split: if_splits)
  then show ?case using Cons.IH [OF 1(2)] by simp
qed simp

section \<open>When the sums fit\<close>

text \<open>
  The condition on the contents of \<open>A\<close> and \<open>B\<close> under which \<open>matrix_test\<close> with the value
  \<open>val\<close> has no overflow: every sum of the two products and, for each of the four matrices it
  writes, every running total of \<open>matrix_sum\<close> is in range. The second of these matrices has the
  vector product in its first row; the rest is still the matrix times \<open>val\<close>.
\<close>

definition mat_fits :: "nat \<Rightarrow> matdat list \<Rightarrow> matdat list \<Rightarrow> matdat \<Rightarrow> bool" where
  "mat_fits N A B val \<longleftrightarrow>
     (let a = (\<lambda>p. A ! p + val); b = (\<lambda>p. B ! p); clip = sint (matrix_big val) in
      (\<forall>i < N. sums_fit N (vect_term N a b i)) \<and>
      (\<forall>p < N * N. sums_fit N (prod_term N a b p)) \<and>
      sum_fits clip 0 (map (\<lambda>p. sint (a p) * sint val) [0..<N * N]) \<and>
      sum_fits clip 0 (map (\<lambda>p. if p < N then \<Sum>k<N. vect_term N a b p k else sint (a p) * sint val) [0..<N * N]) \<and>
      sum_fits clip 0 (map (\<lambda>p. \<Sum>k<N. prod_term N a b p k) [0..<N * N]) \<and>
      sum_fits clip 0 (map (\<lambda>p. sint (bits_sum N a b p)) [0..<N * N]))"

text \<open>Only the first \<open>N * N\<close> elements of the two matrices enter the products.\<close>

lemma terms_cong:
  assumes "\<And>p. p < N * N \<Longrightarrow> a p = a' p" and "k < N"
  shows "i < N \<Longrightarrow> vect_term N a b i k = vect_term N a' b i k"
    and "p < N * N \<Longrightarrow> prod_term N a b p k = prod_term N a' b p k"
  using assms matrix_row matrix_index by (simp_all add: vect_term_def prod_term_def)

lemma bits_sum_cong:
  assumes "\<And>p. p < N * N \<Longrightarrow> a p = a' p" and "p < N * N"
  shows "bits_sum N a b p = bits_sum N a' b p"
  unfolding bits_sum_def using assms matrix_row matrix_index by (intro sum.cong) simp_all

lemma sums_fit_cong: "(\<And>k. k < n \<Longrightarrow> h k = h' k) \<Longrightarrow> sums_fit n h = sums_fit n h'"
  unfolding sums_fit_def by (intro all_cong arg_cong [where f = in32] sum.cong) auto

lemma mat_fits_cong:
  assumes "\<And>p. p < N * N \<Longrightarrow> A1 ! p = A ! p + val"
  shows "mat_fits N A B val \<longleftrightarrow>
     (\<forall>i < N. sums_fit N (vect_term N ((!) A1) ((!) B) i)) \<and>
     (\<forall>p < N * N. sums_fit N (prod_term N ((!) A1) ((!) B) p)) \<and>
     sum_fits (sint (matrix_big val)) 0 (map (\<lambda>p. sint (A1 ! p) * sint val) [0..<N * N]) \<and>
     sum_fits (sint (matrix_big val)) 0
       (map (\<lambda>p. if p < N then \<Sum>k<N. vect_term N ((!) A1) ((!) B) p k else sint (A1 ! p) * sint val) [0..<N * N]) \<and>
     sum_fits (sint (matrix_big val)) 0 (map (\<lambda>p. \<Sum>k<N. prod_term N ((!) A1) ((!) B) p k) [0..<N * N]) \<and>
     sum_fits (sint (matrix_big val)) 0 (map (\<lambda>p. sint (bits_sum N ((!) A1) ((!) B) p)) [0..<N * N])"
proof -
  have e: "(\<lambda>p. A ! p + val) p = ((!) A1) p" if "p < N * N" for p using assms that by simp
  have 1: "(\<forall>i < N. sums_fit N (vect_term N (\<lambda>p. A ! p + val) ((!) B) i)) = (\<forall>i < N. sums_fit N (vect_term N ((!) A1) ((!) B) i))"
    by (intro all_cong sums_fit_cong terms_cong(1) [OF e])
  have 2: "(\<forall>p < N * N. sums_fit N (prod_term N (\<lambda>p. A ! p + val) ((!) B) p)) = (\<forall>p < N * N. sums_fit N (prod_term N ((!) A1) ((!) B) p))"
    by (intro all_cong sums_fit_cong terms_cong(2) [OF e])
  have 3: "map (\<lambda>p. sint (A ! p + val) * sint val) [0..<N * N] = map (\<lambda>p. sint (A1 ! p) * sint val) [0..<N * N]"
    using assms by simp
  have "N \<le> N * N" by (cases N) auto
  then have 4: "map (\<lambda>p. if p < N then \<Sum>k<N. vect_term N (\<lambda>p. A ! p + val) ((!) B) p k else sint (A ! p + val) * sint val) [0..<N * N]
      = map (\<lambda>p. if p < N then \<Sum>k<N. vect_term N ((!) A1) ((!) B) p k else sint (A1 ! p) * sint val) [0..<N * N]"
    using assms by (intro map_cong if_cong sum.cong terms_cong(1) [OF e]) simp_all
  have 5: "map (\<lambda>p. \<Sum>k<N. prod_term N (\<lambda>p. A ! p + val) ((!) B) p k) [0..<N * N]
      = map (\<lambda>p. \<Sum>k<N. prod_term N ((!) A1) ((!) B) p k) [0..<N * N]"
    by (intro map_cong sum.cong terms_cong(2) [OF e]) simp_all
  have 6: "map (\<lambda>p. sint (bits_sum N (\<lambda>p. A ! p + val) ((!) B) p)) [0..<N * N]
      = map (\<lambda>p. sint (bits_sum N ((!) A1) ((!) B) p)) [0..<N * N]"
    by (intro map_cong arg_cong [where f = sint] bits_sum_cong [OF e]) simp_all
  show ?thesis unfolding mat_fits_def Let_def 1 2 3 4 5 6 ..
qed

section \<open>The benchmark\<close>

lemma nat_le_square: "n \<le> n * (n :: nat)"
  by (cases n) auto

text \<open>What an operation on \<open>C\<close> leaves alone: the length and the elements from \<open>n\<close> on.\<close>

definition mat_frame :: "nat \<Rightarrow> matres list \<Rightarrow> matres list \<Rightarrow> bool" where
  "mat_frame n C C' \<longleftrightarrow> length C' = length C \<and> (\<forall>p. n \<le> p \<longrightarrow> p < length C \<longrightarrow> C' ! p = C ! p)"

lemma mat_frame_trans: "mat_frame n C D \<Longrightarrow> mat_frame n D E \<Longrightarrow> mat_frame n C E"
  by (auto simp: mat_frame_def)

lemma mat_frame_length: "mat_frame n C D \<Longrightarrow> m \<le> length C \<Longrightarrow> m \<le> length D"
  by (simp add: mat_frame_def)

lemma mat_frame_upd_prefix: "m \<le> n \<Longrightarrow> n \<le> length C \<Longrightarrow> mat_frame n C (upd_prefix m h C)"
  by (auto simp: mat_frame_def nth_upd_prefix)

lemma matrix_add_const_undo:
  assumes "N * N \<le> length A"
  shows "\<exists>A'. matrix_add_const N A val = Some A' \<and> N * N \<le> length A' \<and>
           matrix_add_const N A' (- val) = Some A \<and> (\<forall>p < N * N. A' ! p = A ! p + val)"
proof -
  let ?A = "upd_prefix (N * N) (\<lambda>p. A ! p + val) A"
  have "matrix_add_const N ?A (- val) = Some (upd_prefix (N * N) (\<lambda>p. ?A ! p + - val) ?A)"
    using assms by (intro matrix_add_const_eq) simp
  also have "upd_prefix (N * N) (\<lambda>p. ?A ! p + - val) ?A = A"
    using assms by (intro nth_equalityI) (auto simp: nth_upd_prefix)
  finally show ?thesis
    using assms matrix_add_const_eq by (intro exI [of _ ?A]) (simp add: nth_upd_prefix)
qed

text \<open>The four matrices, as \<open>matrix_sum\<close> reads them.\<close>

lemma take_upd_prefix: "n \<le> length xs \<Longrightarrow> map f (take n (upd_prefix n h xs)) = map (\<lambda>p. f (h p)) [0..<n]"
  by (simp add: upd_prefix_def)

lemma take_upd_upd_prefix:
  assumes "m \<le> n" and "n \<le> length xs"
  shows "map f (take n (upd_prefix m g (upd_prefix n h xs))) = map (\<lambda>p. if p < m then f (g p) else f (h p)) [0..<n]"
  using assms by (intro nth_equalityI) (auto simp: nth_upd_prefix)

lemma map_sint_sums:
  "(\<And>p. p < n \<Longrightarrow> P p \<Longrightarrow> in32 (h p)) \<Longrightarrow>
     map (\<lambda>p. if P p then sint (word_of_int (h p) :: matres) else g p) [0..<n] = map (\<lambda>p. if P p then h p else g p) [0..<n]"
  by (intro map_cong) (auto simp: sint_in32)

lemma matrix_test_cases:
  assumes "N * N \<le> length A" and "N * N \<le> length B" and "N * N \<le> length C"
  shows "if mat_fits N A B val
         then \<exists>crc C'. matrix_test N C A B val = Some (crc, C', A) \<and> mat_frame (N * N) C C'
         else matrix_test N C A B val = None"
proof -
  obtain A1 where A1: "matrix_add_const N A val = Some A1" "N * N \<le> length A1"
      "matrix_add_const N A1 (- val) = Some A" "\<And>p. p < N * N \<Longrightarrow> A1 ! p = A ! p + val"
    using matrix_add_const_undo [OF assms(1)] by blast
  let ?clip = "matrix_big val" and ?a = "(!) A1" and ?b = "(!) B"
  have N: "N \<le> N * N" by (rule nat_le_square)
  let ?vec = "\<lambda>p. \<Sum>k<N. vect_term N ?a ?b p k" and ?prd = "\<lambda>p. \<Sum>k<N. prod_term N ?a ?b p k"
  let ?C1 = "upd_prefix (N * N) (\<lambda>p. scast (A1 ! p) * scast val) C"
  let ?C2 = "upd_prefix N (\<lambda>p. word_of_int (?vec p)) ?C1"
  let ?C3 = "upd_prefix (N * N) (\<lambda>p. word_of_int (?prd p)) ?C2"
  let ?C4 = "upd_prefix (N * N) (bits_sum N ?a ?b) ?C3"
  let ?V = "\<forall>i < N. sums_fit N (vect_term N ?a ?b i)" and ?M = "\<forall>p < N * N. sums_fit N (prod_term N ?a ?b p)"
  have l: "N \<le> length B" "N \<le> length ?C1" "N * N \<le> length ?C1" "N * N \<le> length ?C2" "N * N \<le> length ?C3" "N * N \<le> length ?C4"
    using N assms(2,3) by (simp_all add: order.trans [OF N])
  have ops: "matrix_mul_const N C A1 val = Some ?C1"
    "matrix_mul_vect N ?C1 A1 B = (if ?V then Some ?C2 else None)"
    "matrix_mul_matrix N ?C2 A1 B = (if ?M then Some ?C3 else None)"
    "matrix_mul_matrix_bitextract N ?C3 A1 B = Some ?C4"
    by (rule matrix_mul_const_eq [OF A1(2) assms(3)] matrix_mul_vect_eq [OF A1(2) l(1,2)]
        matrix_mul_matrix_eq [OF A1(2) assms(2) l(4)] matrix_mul_matrix_bitextract_eq [OF A1(2) assms(2) l(5)])+
  let ?x1 = "map (\<lambda>p. sint (A1 ! p) * sint val) [0..<N * N]"
    and ?x2 = "map (\<lambda>p. if p < N then ?vec p else sint (A1 ! p) * sint val) [0..<N * N]"
    and ?x3 = "map ?prd [0..<N * N]" and ?x4 = "map (\<lambda>p. sint (bits_sum N ?a ?b p)) [0..<N * N]"
  have x1: "map sint (take (N * N) ?C1) = ?x1"
    using assms(3) by (simp only: take_upd_prefix sint_mat_prod)
  have x2: "map sint (take (N * N) ?C2) = ?x2" if ?V
  proof -
    have "in32 (?vec p)" if "p < N" for p using \<open>?V\<close> that by (intro sums_fit_total) simp
    then show ?thesis
      using assms(3) N by (simp only: take_upd_upd_prefix sint_mat_prod map_sint_sums)
  qed
  have x3: "map sint (take (N * N) ?C3) = ?x3" if ?M
  proof -
    have "in32 (?prd p)" if "p < N * N" for p using \<open>?M\<close> that by (intro sums_fit_total) simp
    then show ?thesis using l(4) by (simp only: take_upd_prefix) (simp add: sint_in32 del: of_int_sum)
  qed
  have x4: "map sint (take (N * N) ?C4) = ?x4" using l(5) by (simp only: take_upd_prefix)
  let ?f = "\<lambda>xs. sum_fits (sint ?clip) 0 xs"
  define r1 r2 r3 r4 where "r1 = the (matrix_sum N ?C1 ?clip)" and "r2 = the (matrix_sum N ?C2 ?clip)"
    and "r3 = the (matrix_sum N ?C3 ?clip)" and "r4 = the (matrix_sum N ?C4 ?clip)"
  have sums: "matrix_sum N ?C1 ?clip = (if ?f ?x1 then Some r1 else None)"
    "?V \<Longrightarrow> matrix_sum N ?C2 ?clip = (if ?f ?x2 then Some r2 else None)"
    "?M \<Longrightarrow> matrix_sum N ?C3 ?clip = (if ?f ?x3 then Some r3 else None)"
    "matrix_sum N ?C4 ?clip = (if ?f ?x4 then Some r4 else None)"
    unfolding r1_def r2_def r3_def r4_def
    by (rule matrix_sum_when, rule l x1 x2 x3 x4, rule x1 x2 x3 x4, assumption?)+
  have fits: "mat_fits N A B val \<longleftrightarrow> ?V \<and> ?M \<and> ?f ?x1 \<and> ?f ?x2 \<and> ?f ?x3 \<and> ?f ?x4"
    by (rule mat_fits_cong [OF A1(4)])
  show ?thesis
  proof (cases "?V \<and> ?M \<and> ?f ?x1 \<and> ?f ?x2 \<and> ?f ?x3 \<and> ?f ?x4")
    case True
    have "mat_frame (N * N) C ?C1" "mat_frame (N * N) ?C1 ?C2" "mat_frame (N * N) ?C2 ?C3" "mat_frame (N * N) ?C3 ?C4"
      by (intro mat_frame_upd_prefix order.refl N assms(3) l)+
    then have "mat_frame (N * N) C ?C4" by (blast intro: mat_frame_trans)
    moreover have "matrix_test N C A B val = Some (crc16 r4 (crc16 r3 (crc16 r2 (crc16 r1 0))), ?C4, A)"
      using True by (simp add: matrix_test_def Let_def A1(1,3) ops sums del: upd_prefix_0 of_int_sum)
    ultimately show ?thesis using True fits by auto
  next
    case False
    then have "matrix_test N C A B val = None"
      by (auto simp add: matrix_test_def Let_def A1(1,3) ops sums simp del: upd_prefix_0 of_int_sum)
    then show ?thesis using False fits by simp
  qed
qed

lemma core_bench_matrix_cases:
  assumes "unat (mat_N p) * unat (mat_N p) \<le> length (mat_A p)"
    and "unat (mat_N p) * unat (mat_N p) \<le> length (mat_B p)"
    and "unat (mat_N p) * unat (mat_N p) \<le> length (mat_C p)"
  shows "if mat_fits (unat (mat_N p)) (mat_A p) (mat_B p) seed
         then \<exists>crc' C'. core_bench_matrix p seed crc = Some (crc', p\<lparr>mat_C := C'\<rparr>) \<and>
           length C' = length (mat_C p) \<and>
           (\<forall>q. unat (mat_N p) * unat (mat_N p) \<le> q \<longrightarrow> q < length (mat_C p) \<longrightarrow> C' ! q = mat_C p ! q)
         else core_bench_matrix p seed crc = None"
proof (cases "mat_fits (unat (mat_N p)) (mat_A p) (mat_B p) seed")
  case True
  then obtain r C' where r: "matrix_test (unat (mat_N p)) (mat_C p) (mat_A p) (mat_B p) seed = Some (r, C', mat_A p)"
    and f: "mat_frame (unat (mat_N p) * unat (mat_N p)) (mat_C p) C'"
    using matrix_test_cases [OF assms, of seed] by auto
  have "core_bench_matrix p seed crc = Some (crc16 r crc, p\<lparr>mat_C := C', mat_A := mat_A p\<rparr>)"
    by (simp add: core_bench_matrix_def r)
  also have "p\<lparr>mat_C := C', mat_A := mat_A p\<rparr> = p\<lparr>mat_C := C'\<rparr>" by simp
  finally show ?thesis using f True by (auto simp: mat_frame_def)
next
  case False
  then show ?thesis using matrix_test_cases [OF assms, of seed] by (simp add: core_bench_matrix_def)
qed

text \<open>C9: the matrix benchmark stays inside its arrays and restores its operands, as its comment
  says: for arrays of at least N times N elements, if no sum leaves 32 bits, it returns, \<open>A\<close> and
  \<open>B\<close> have their original contents, and nothing behind the first N times N elements of \<open>C\<close> has
  changed; if a sum does, the behaviour is undefined. Nothing else can go wrong.\<close>

theorem core_bench_matrix_restores:
  assumes "unat (mat_N p) * unat (mat_N p) \<le> length (mat_A p)"
    and "unat (mat_N p) * unat (mat_N p) \<le> length (mat_B p)"
    and "unat (mat_N p) * unat (mat_N p) \<le> length (mat_C p)"
  shows "if mat_fits (unat (mat_N p)) (mat_A p) (mat_B p) seed
         then \<exists>crc' C'. core_bench_matrix p seed crc = Some (crc', p\<lparr>mat_C := C'\<rparr>) \<and>
           length C' = length (mat_C p) \<and>
           (\<forall>q. unat (mat_N p) * unat (mat_N p) \<le> q \<longrightarrow> q < length (mat_C p) \<longrightarrow> C' ! q = mat_C p ! q)
         else core_bench_matrix p seed crc = None"
  using assms by (rule core_bench_matrix_cases)

text \<open>\<open>matrix_big\<close> is negative, so \<open>matrix_sum\<close> starts anew as soon as its total is not far
  below zero, and only negative elements can make the total overflow.\<close>

lemma sint_matrix_big: "sint (matrix_big x) < 0"
proof -
  have "bit (0xf000 :: matdat) 15" by simp
  then have "bit (matrix_big x) 15" by (simp only: matrix_big_def bit_or_iff simp_thms)
  then show ?thesis using bit_last_iff [of "matrix_big x"] by simp
qed

lemma sum_fits_bounded:
  assumes "clip < 0" and "tmp \<le> 0" and "\<forall>c \<in> set cs. c < 2 ^ 31"
    and "(\<Sum>c\<leftarrow>cs. max 0 (- c)) - tmp \<le> 2 ^ 31"
  shows "sum_fits clip tmp cs"
  using assms(2-)
proof (induction cs arbitrary: tmp)
  case (Cons c cs)
  have nn: "0 \<le> (\<Sum>c\<leftarrow>cs. max 0 (- c))" by (intro sum_list_nonneg) auto
  have "in32 (tmp + c)" using Cons.prems nn by (auto simp: in32_def)
  moreover have "sum_fits clip (if clip < tmp + c then 0 else tmp + c) cs"
    using Cons.prems nn assms(1) by (intro Cons.IH) auto
  ultimately show ?case by simp
qed simp

lemma sum_fits_map:
  assumes "clip < 0" and "\<And>p. p < n \<Longrightarrow> f p < 2 ^ 31 \<and> - f p \<le> m p" and "\<And>p. p < n \<Longrightarrow> 0 \<le> m p"
    and "(\<Sum>p<n. m p) \<le> 2 ^ 31"
  shows "sum_fits clip 0 (map f [0..<n])"
proof (rule sum_fits_bounded [OF assms(1)])
  have "(\<Sum>c\<leftarrow>map f [0..<n]. max 0 (- c)) = (\<Sum>p<n. max 0 (- f p))"
    by (simp add: interv_sum_list_conv_sum_set_nat atLeast0LessThan comp_def)
  also have "\<dots> \<le> (\<Sum>p<n. m p)" using assms(2,3) by (intro sum_mono) auto
  finally show "(\<Sum>c\<leftarrow>map f [0..<n]. max 0 (- c)) - 0 \<le> 2 ^ 31" using assms(4) by linarith
qed (use assms(2) in auto)

lemma sums_fit_bounded:
  assumes "\<And>k. k < n \<Longrightarrow> - m k \<le> h k \<and> h k \<le> M" and "\<And>k. k < n \<Longrightarrow> 0 \<le> m k" and "0 \<le> M"
    and "(\<Sum>k<n. m k) \<le> 2 ^ 31" and "int n * M < 2 ^ 31"
  shows "sums_fit n h"
  unfolding sums_fit_def
proof (intro allI impI)
  fix k assume k: "k < n"
  have "(\<Sum>j<Suc k. h j) \<le> (\<Sum>j<Suc k. M)" using assms(1) k by (intro sum_mono) auto
  also have "\<dots> \<le> int n * M" using k assms(3) by (simp add: mult_right_mono flip: of_nat_Suc)
  finally have u: "(\<Sum>j<Suc k. h j) < 2 ^ 31" using assms(5) by linarith
  have "(\<Sum>j<Suc k. - h j) \<le> (\<Sum>j<Suc k. m j)"
    using assms(1) k by (intro sum_mono) (metis lessThan_iff minus_le_iff order_less_le_trans Suc_leI)
  also have "\<dots> \<le> (\<Sum>k<n. m k)" using assms(2) k by (intro sum_mono2) auto
  finally show "in32 (\<Sum>j<Suc k. h j)"
    using u assms(4) unfolding in32_def sum_negf by linarith
qed

lemma sums_fit_abs:
  assumes "\<And>k. k < n \<Longrightarrow> \<bar>h k\<bar> \<le> c" and "int n * c < 2 ^ 31"
  shows "sums_fit n h"
proof (cases n)
  case (Suc n')
  have "0 \<le> c" using assms(1) [of 0] Suc by simp
  moreover have "- c \<le> h k \<and> h k \<le> c" if "k < n" for k using assms(1) [OF that] by linarith
  ultimately show ?thesis
    using assms(2) by (intro sums_fit_bounded [where m = "\<lambda>_. c" and M = c]) simp_all
qed (simp add: sums_fit_def)

lemma sum_rows: "(\<Sum>p<N * M. f (p div M) (p mod M)) = (\<Sum>i<N. \<Sum>j<(M :: nat). f i j :: int)"
proof -
  have "(\<Sum>i<N. \<Sum>p\<in>{i * M..<i * M + M}. f (p div M) (p mod M)) = (\<Sum>p<N * M. f (p div M) (p mod M))"
    by (rule sum.nat_group)
  moreover have "(\<Sum>p\<in>{i * M..<i * M + M}. f (p div M) (p mod M)) = (\<Sum>j<M. f i j)" for i
    using sum.shift_bounds_nat_ivl [of "\<lambda>p. f (p div M) (p mod M)" 0 "i * M" M]
    by (simp add: add.commute atLeast0LessThan)
  ultimately show ?thesis by simp
qed

text \<open>A product of two entries is below only by what a negative factor contributes.\<close>

lemma product_bounds:
  fixes x y :: int
  assumes "0 \<le> x" "x \<le> 510" "y \<le> 2 ^ 15"
  shows "- (510 * max 0 (- y)) \<le> x * y \<and> x * y \<le> 510 * 2 ^ 15"
proof (cases "0 \<le> y")
  case True
  then have "0 \<le> x * y" using assms(1) by simp
  moreover have "x * y \<le> 510 * 2 ^ 15" using True assms by (intro mult_mono) auto
  ultimately show ?thesis using True by simp
next
  case False
  then have "x * - y \<le> 510 * - y" "x * y \<le> 0" using assms by (auto intro: mult_right_mono mult_nonneg_nonpos)
  with False show ?thesis by simp
qed

lemma sint_matdat: "unat (x :: matdat) < 2 ^ 15 \<Longrightarrow> sint x = int (unat x)"
proof -
  assume "unat x < 2 ^ 15"
  then have "int (unat x) < int (2 ^ 15)" by (simp only: of_nat_less_iff)
  then have "uint x < 2 ^ 15" by simp
  then have "signed_take_bit 15 (uint x) = uint x"
    using uint_ge_0 [of x] by (intro signed_take_bit_int_eq_self) linarith+
  then show ?thesis by (simp add: sint_uint)
qed

lemma byte_sum_range:
  assumes "x \<le> 0xff" and "y \<le> (0xff :: matdat)"
  shows "0 \<le> sint (x + y) \<and> sint (x + y) \<le> 510" and "0 \<le> sint y \<and> sint y \<le> 255"
proof -
  have u: "unat x \<le> 255" "unat y \<le> 255" using assms by (simp_all add: word_le_nat_alt)
  then have "unat (x + y) = unat x + unat y" by (simp add: unat_word_ariths)
  moreover from this u have "unat (x + y) < 2 ^ 15" "unat y < 2 ^ 15" by simp_all
  ultimately have "sint (x + y) = int (unat x + unat y)" "sint y = int (unat y)"
    by (metis sint_matdat)+
  with u show "0 \<le> sint (x + y) \<and> sint (x + y) \<le> 510" "0 \<le> sint y \<and> sint y \<le> 255"
    by linarith+
qed

lemma bits_sum_range:
  assumes "N \<le> 128"
  shows "0 \<le> sint (bits_sum N a b p) \<and> sint (bits_sum N a b p) < 2 ^ 31"
proof -
  have ext: "unat (bit_extract x f 4) \<le> 15" "unat (bit_extract x f 7) \<le> 127" for x f
  proof -
    have "bit_extract x f n = take_bit n (signed_drop_bit f x)" for n
    proof -
      have "(0xffffffff :: u32) = - 1" by simp
      then show ?thesis
        unfolding bit_extract_def by (simp only:) (rule bit_word_eqI, auto simp: bit_simps)
    qed
    then have "unat (bit_extract x f n) < 2 ^ n" for n
      by (simp only: unat_take_bit) (simp add: take_bit_eq_mod)
    from this [of 4] this [of 7] show "unat (bit_extract x f 4) \<le> 15" "unat (bit_extract x f 7) \<le> 127"
      by simp_all
  qed
  have le: "unat (\<Sum>k<n. bit_extract (h k) 2 4 * bit_extract (h k) 5 7) \<le> n * 1905" if "n \<le> 128" for n h
    using that
  proof (induction n)
    case (Suc n)
    have "unat (bit_extract (h n) 2 4) * unat (bit_extract (h n) 5 7) \<le> 15 * 127"
      by (intro mult_le_mono ext)
    then have "unat (bit_extract (h n) 2 4 * bit_extract (h n) 5 7) \<le> 1905"
      by (simp add: unat_word_ariths)
    with Suc show ?case by (simp add: unat_word_ariths)
  qed simp
  have "unat (bits_sum N a b p) \<le> N * 1905" unfolding bits_sum_def Let_def by (rule le [OF assms])
  then have lt: "unat (bits_sum N a b p) < 2 ^ 31" using assms by simp
  then have "sint (bits_sum N a b p) = int (unat (bits_sum N a b p))" by (rule sint_unat)
  moreover have "int (unat (bits_sum N a b p)) < int (2 ^ 31)" using lt by (simp only: of_nat_less_iff)
  ultimately show ?thesis by (simp only: of_nat_0_le_iff of_nat_power of_nat_numeral simp_thms)
qed

text \<open>What the negative elements of \<open>B\<close> contribute: to one product term, to one sum of the vector
  product, and to one sum of the matrix product, which sees one column of \<open>B\<close>.\<close>

definition neg_part :: "matdat \<Rightarrow> int" where
  "neg_part x = max 0 (- sint x)"

lemma neg_part_nonneg [simp]: "0 \<le> neg_part x"
  by (simp add: neg_part_def)

definition col_neg :: "nat \<Rightarrow> (nat \<Rightarrow> matdat) \<Rightarrow> nat \<Rightarrow> int" where
  "col_neg N b j = (\<Sum>k<N. neg_part (b (k * N + j)))"

lemma term_bounds:
  assumes "0 \<le> sint (x :: matdat) \<and> sint x \<le> 510"
  shows "- (510 * neg_part y) \<le> sint x * sint y \<and> sint x * sint y \<le> 510 * 2 ^ 15"
proof -
  have "sint y \<le> 2 ^ 15" using sint_lt [of y] by simp
  then show ?thesis using assms unfolding neg_part_def by (intro product_bounds) auto
qed

lemma sums_of_terms:
  assumes "\<And>k. k < N \<Longrightarrow> - (510 * m k) \<le> h k \<and> h k \<le> 510 * 2 ^ 15" and "\<And>k. 0 \<le> m k"
    and "510 * (\<Sum>k<N. m k) \<le> 2 ^ 31" and "N \<le> 128"
  shows "sums_fit N h" and "- (\<Sum>k<N. h k) \<le> 510 * (\<Sum>k<N. m k)"
proof -
  have "int N * (510 * 2 ^ 15) < 2 ^ 31" using assms(4) by simp
  then show "sums_fit N h"
    using assms(1-3)
    by (intro sums_fit_bounded [where m = "\<lambda>k. 510 * m k" and M = "510 * 2 ^ 15"]) (simp_all add: sum_distrib_left)
  have "(\<Sum>k<N. - h k) \<le> (\<Sum>k<N. 510 * m k)" using assms(1) by (intro sum_mono) (simp add: minus_le_iff)
  then show "- (\<Sum>k<N. h k) \<le> 510 * (\<Sum>k<N. m k)" by (simp add: sum_negf sum_distrib_left)
qed

lemma col_neg_sum:
  shows "(\<Sum>j<N. col_neg N b j) = (\<Sum>q<N * N. neg_part (b q))"
    and "j < N \<Longrightarrow> col_neg N b j \<le> (\<Sum>q<N * N. neg_part (b q))"
proof -
  have "(\<Sum>q<N * N. neg_part (b q)) = (\<Sum>k<N. \<Sum>j<N. neg_part (b (k * N + j)))"
    using sum_rows [of "\<lambda>k j. neg_part (b (k * N + j))" N N] by simp
  also have "\<dots> = (\<Sum>j<N. col_neg N b j)" unfolding col_neg_def by (rule sum.swap)
  finally show s: "(\<Sum>j<N. col_neg N b j) = (\<Sum>q<N * N. neg_part (b q))" ..
  have "0 \<le> col_neg N b j" for j unfolding col_neg_def by (intro sum_nonneg) simp
  then show "j < N \<Longrightarrow> col_neg N b j \<le> (\<Sum>q<N * N. neg_part (b q))"
    unfolding s [symmetric] by (intro member_le_sum) auto
qed

text \<open>The sums of the two products, for a matrix \<open>a\<close> with elements from 0 to 510.\<close>

lemma product_sums_fit:
  assumes S_def: "S = (\<Sum>q<N * N. neg_part (b q))" and "\<And>p. p < N * N \<Longrightarrow> 0 \<le> sint (a p) \<and> sint (a p) \<le> 510" and "N \<le> 128"
    and "510 * S \<le> 2 ^ 31"
  shows "i < N \<Longrightarrow> sums_fit N (vect_term N a b i)"
    and "i < N \<Longrightarrow> - (\<Sum>k<N. vect_term N a b i k) \<le> 510 * S"
    and "p < N * N \<Longrightarrow> sums_fit N (prod_term N a b p)"
    and "p < N * N \<Longrightarrow> - (\<Sum>k<N. prod_term N a b p k) \<le> 510 * col_neg N b (p mod N)"
proof -
  assume i: "i < N"
  have t: "- (510 * neg_part (b k)) \<le> vect_term N a b i k \<and> vect_term N a b i k \<le> 510 * 2 ^ 15" if "k < N" for k
    unfolding vect_term_def by (intro term_bounds assms(2) matrix_row i that)
  have s: "(\<Sum>k<N. neg_part (b k)) \<le> S" unfolding S_def using nat_le_square [of N] by (intro sum_mono2) auto
  then have le: "510 * (\<Sum>k<N. neg_part (b k)) \<le> 2 ^ 31" using assms(4) by linarith
  note st = sums_of_terms [where m = "\<lambda>k. neg_part (b k)" and h = "vect_term N a b i", OF t _ le assms(3)]
  show "sums_fit N (vect_term N a b i)" by (rule st(1)) simp_all
  have "- (\<Sum>k<N. vect_term N a b i k) \<le> 510 * (\<Sum>k<N. neg_part (b k))" by (rule st(2)) simp_all
  then show "- (\<Sum>k<N. vect_term N a b i k) \<le> 510 * S" using s by linarith
next
  assume p: "p < N * N"
  note idx = matrix_index [OF p]
  have t: "- (510 * neg_part (b (k * N + p mod N))) \<le> prod_term N a b p k \<and> prod_term N a b p k \<le> 510 * 2 ^ 15" if "k < N" for k
    unfolding prod_term_def by (intro term_bounds assms(2) matrix_row idx that)
  have le: "510 * (\<Sum>k<N. neg_part (b (k * N + p mod N))) \<le> 2 ^ 31"
    using col_neg_sum(2) [OF idx(2), of b] assms(4) unfolding S_def col_neg_def by linarith
  note st = sums_of_terms [where m = "\<lambda>k. neg_part (b (k * N + p mod N))" and h = "prod_term N a b p", OF t _ le assms(3)]
  show "sums_fit N (prod_term N a b p)" by (rule st(1)) simp_all
  show "- (\<Sum>k<N. prod_term N a b p k) \<le> 510 * col_neg N b (p mod N)"
    unfolding col_neg_def by (rule st(2)) simp_all
qed

text \<open>
  A sufficient condition on the operator matrix \<open>B\<close> alone, for the values the benchmark uses:
  \<open>A\<close> holds bytes, as \<open>core_init_matrix\<close> leaves it, and the value added is a byte.
\<close>

lemma mat_fits_sufficient:
  assumes "N \<le> 128" and "\<forall>p < N * N. A ! p \<le> 0xff" and "val \<le> 0xff"
    and "510 * int N * (\<Sum>q<N * N. neg_part (B ! q)) \<le> 2 ^ 31"
  shows "mat_fits N A B val"
proof -
  define a b S where "a = (\<lambda>p. A ! p + val)" and "b = (\<lambda>p. B ! p)" and "S = (\<Sum>q<N * N. neg_part (b q))"
  have N: "N \<le> N * N" by (rule nat_le_square)
  have av: "0 \<le> sint (a p) \<and> sint (a p) \<le> 510" if "p < N * N" for p
    using byte_sum_range(1) [of "A ! p" val] assms(2,3) that by (simp add: a_def)
  have v: "0 \<le> sint val \<and> sint val \<le> 255" using byte_sum_range(2) [OF assms(3) assms(3)] .
  have S: "510 * int N * S \<le> 2 ^ 31" using assms(4) by (simp add: S_def b_def)
  have S0: "0 \<le> S" unfolding S_def by (intro sum_nonneg) simp
  have NS: "510 * S \<le> 2 ^ 31" if "0 < N"
  proof -
    have "510 * S * 1 \<le> 510 * S * int N" using that S0 by (intro mult_left_mono) auto
    then show ?thesis using S by (simp add: mult.commute mult.left_commute)
  qed
  have v: "0 \<le> sint val \<and> sint val \<le> 255" using byte_sum_range(2) [OF assms(3) assms(3)] .
  let ?clip = "sint (matrix_big val)"
  note clip = sum_fits_map [OF sint_matrix_big [of val]]
  have "mat_fits N A B val" if "0 < N"
  proof -
    note fit = product_sums_fit [where S = S and N = N and b = b and a = a, OF S_def av assms(1) NS [OF that]]
    have mul: "sint (a p) * sint val < 2 ^ 31 \<and> - (sint (a p) * sint val) \<le> 0" if "p < N * N" for p
    proof -
      have "sint (a p) * sint val \<le> 510 * 255" using av [OF that] v by (intro mult_mono) auto
      then show ?thesis using av [OF that] v by simp
    qed
    have lt: "(\<Sum>k<N. h k) < 2 ^ 31" if "sums_fit N h" for h
      using sums_fit_total [OF that] by (simp add: in32_def)
    have row: "(\<Sum>p<N * N. if p < N then 510 * S else 0) = 510 * int N * S"
    proof -
      have "{..<N * N} \<inter> {p. p < N} = {..<N}" by (auto intro: order.strict_trans2 [OF _ N])
      then show ?thesis by (simp add: sum.If_cases)
    qed
    have cols: "(\<Sum>p<N * N. 510 * col_neg N b (p mod N)) = 510 * int N * S"
      using sum_rows [of "\<lambda>i j. 510 * col_neg N b j" N N] col_neg_sum(1) [of N b]
      by (simp add: S_def flip: sum_distrib_left)
    have r3: "sum_fits ?clip 0 (map (\<lambda>p. \<Sum>k<N. prod_term N a b p k) [0..<N * N])"
      using S unfolding cols [symmetric]
    proof (rule clip [rotated 2])
      fix p assume p: "p < N * N"
      show "(\<Sum>k<N. prod_term N a b p k) < 2 ^ 31 \<and> - (\<Sum>k<N. prod_term N a b p k) \<le> 510 * col_neg N b (p mod N)"
        by (intro conjI lt fit(3,4) p)
      show "0 \<le> 510 * col_neg N b (p mod N)" unfolding col_neg_def by (simp add: sum_nonneg)
    qed
    have r2: "sum_fits ?clip 0 (map (\<lambda>p. if p < N then \<Sum>k<N. vect_term N a b p k else sint (a p) * sint val) [0..<N * N])"
      using S unfolding row [symmetric]
    proof (rule clip [rotated 2])
      fix p assume p: "p < N * N"
      show "(if p < N then \<Sum>k<N. vect_term N a b p k else sint (a p) * sint val) < 2 ^ 31 \<and>
          - (if p < N then \<Sum>k<N. vect_term N a b p k else sint (a p) * sint val) \<le> (if p < N then 510 * S else 0)"
        using mul [OF p] lt [OF fit(1)] fit(2) by (cases "p < N") (simp_all only: if_True if_False simp_thms)
      show "0 \<le> (if p < N then 510 * S else 0)" using S0 by simp
    qed
    have r1: "sum_fits ?clip 0 (map (\<lambda>p. sint (a p) * sint val) [0..<N * N])"
      by (rule clip [where m = "\<lambda>_. 0"]) (use mul in simp_all)
    have r4: "sum_fits ?clip 0 (map (\<lambda>p. sint (bits_sum N a b p)) [0..<N * N])"
      by (rule clip [where m = "\<lambda>_. 0"]) (use bits_sum_range [OF assms(1)] in simp_all)
    show ?thesis
      unfolding mat_fits_def Let_def a_def [symmetric] b_def [symmetric]
      using fit(1,3) r1 r2 r3 r4 by blast
  qed
  then show ?thesis by (cases N) (simp_all add: mat_fits_def)
qed

lemma matrix_overflow_example:
  "matrix_test 6 (replicate 36 0) (replicate 36 255) (replicate 36 0x8000) 255 = None"
proof -
  have "\<not> mat_fits 6 (replicate 36 255) (replicate 36 0x8000) 255"
  proof -
    let ?t = "prod_term 6 (\<lambda>p. replicate 36 255 ! p + 255) ((!) (replicate 36 0x8000))"
    have t: "?t p k = - 16711680" if "p < 36" "k < 6" for p k
      using that matrix_row [of "p div 6" 6 k] matrix_row [of k 6 "p mod 6"] matrix_index [of p 6]
      by (simp add: prod_term_def)
    have "map (\<lambda>p. \<Sum>k<6. ?t p k) [0..<36] = map (\<lambda>p. - 100270080) [0..<36]"
    proof (intro map_cong refl)
      fix p assume "p \<in> set [0..<36 :: nat]"
      then have "(\<Sum>k<6. ?t p k) = (\<Sum>k<6 :: nat. - 16711680)" using t by (intro sum.cong) auto
      then show "(\<Sum>k<6. ?t p k) = - 100270080" by simp
    qed
    then have "map (\<lambda>p. \<Sum>k<6. ?t p k) [0..<6 * 6] = replicate 36 (- 100270080)"
      by (simp add: map_replicate_const)
    moreover have "\<not> sum_fits (sint (matrix_big 255)) 0 (replicate 36 (- 100270080))"
      by (simp add: matrix_big_def in32_def numeral_eq_Suc)
    ultimately show ?thesis unfolding mat_fits_def Let_def by metis
  qed
  then show ?thesis
    using matrix_test_cases [of 6 "replicate 36 255" "replicate 36 0x8000" "replicate 36 0" 255] by simp
qed

text \<open>The condition on the lists, in a form that can be evaluated, and an instance.\<close>

lemma mat_fits_by_sum:
  assumes "N \<le> 128" and "length A = N * N" and "length B = N * N" and "\<forall>a \<in> set A. a \<le> 0xff" and "val \<le> 0xff"
    and "510 * int N * (\<Sum>b\<leftarrow>B. neg_part b) \<le> 2 ^ 31"
  shows "mat_fits N A B val"
  using assms by (intro mat_fits_sufficient) (simp_all add: sum_list_sum_nth atLeast0LessThan)

lemma small_mat_fits:
  "val \<le> 0xff \<Longrightarrow> mat_fits 2 [1, 2, 3, 4] [5, 6, 7, 8] val"
  by (rule mat_fits_by_sum) (simp_all add: neg_part_def)

theorem core_bench_matrix_restores_witness:
  "\<exists>crc' C'. core_bench_matrix \<lparr>mat_N = 2, mat_A = [1, 2, 3, 4], mat_B = [5, 6, 7, 8], mat_C = [0, 0, 0, 0]\<rparr> 3 0
     = Some (crc', \<lparr>mat_N = 2, mat_A = [1, 2, 3, 4], mat_B = [5, 6, 7, 8], mat_C = C'\<rparr>)"
  using core_bench_matrix_restores
    [of "\<lparr>mat_N = 2, mat_A = [1, 2, 3, 4], mat_B = [5, 6, 7, 8], mat_C = [0, 0, 0, 0]\<rparr>" 3 0] small_mat_fits [of 3]
  by auto

text \<open>C10: \<open>matrix_mul_matrix\<close> computes the matrix product: when the entries are bounded by \<open>a\<close>
  and \<open>b\<close> with N times \<open>a\<close> times \<open>b\<close> below 2 to the 31, it returns and every element of \<open>C\<close> is
  the exact integer product; no sum overflows.\<close>

theorem matrix_mul_matrix_exact:
  assumes "N * N \<le> length A" and "N * N \<le> length B" and "N * N \<le> length C"
    and "\<forall>x \<in> set A. \<bar>sint x\<bar> \<le> a" and "\<forall>y \<in> set B. \<bar>sint y\<bar> \<le> b" and "int N * (a * b) < 2 ^ 31"
  shows "\<exists>C'. matrix_mul_matrix N C A B = Some C' \<and> length C' = length C \<and>
     (\<forall>i < N. \<forall>j < N. sint (C' ! (i * N + j))
        = (\<Sum>k<N. sint (A ! (i * N + k)) * sint (B ! (k * N + j))))"
proof -
  let ?h = "prod_term N ((!) A) ((!) B)"
  have fit: "sums_fit N (?h p)" if p: "p < N * N" for p
  proof (rule sums_fit_abs [OF _ assms(6)])
    fix k assume k: "k < N"
    note idx = matrix_index [OF p]
    have "A ! (p div N * N + k) \<in> set A" "B ! (k * N + p mod N) \<in> set B"
      using k idx assms(1,2) matrix_row [of "p div N" N k] matrix_row [of k N "p mod N"] by (auto intro!: nth_mem)
    then show "\<bar>?h p k\<bar> \<le> a * b"
      using assms(4,5) by (auto simp: prod_term_def abs_mult intro!: mult_mono)
  qed
  let ?C = "upd_prefix (N * N) (\<lambda>p. word_of_int (\<Sum>k<N. ?h p k)) C"
  have "matrix_mul_matrix N C A B = Some ?C" using matrix_mul_matrix_eq [OF assms(1-3)] fit by simp
  moreover have "sint (?C ! (i * N + j)) = (\<Sum>k<N. sint (A ! (i * N + k)) * sint (B ! (k * N + j)))"
    if ij: "i < N" "j < N" for i j
  proof -
    note p = matrix_row [OF ij]
    then have "?C ! (i * N + j) = word_of_int (\<Sum>k<N. ?h (i * N + j) k)"
      using assms(3) by (simp add: nth_upd_prefix del: of_int_sum)
    then show ?thesis
      using sint_in32 [OF sums_fit_total [OF fit [OF p]]] ij by (simp only:) (simp add: prod_term_def)
  qed
  ultimately show ?thesis using assms(3) by (intro exI [of _ ?C]) simp
qed

theorem matrix_mul_matrix_exact_witness:
  "\<exists>C'. matrix_mul_matrix 2 [0, 0, 0, 0] [1, 2, 3, 4] [5, - 6, 7, 8] = Some C' \<and> sint (C' ! 1) = 10"
proof -
  obtain C' where "matrix_mul_matrix 2 [0, 0, 0, 0] [1, 2, 3, 4] [5, - 6, 7, 8] = Some C'"
    and c: "\<forall>i < 2. \<forall>j < 2. sint (C' ! (i * 2 + j))
        = (\<Sum>k<2. sint ([1, 2, 3, 4 :: 16 word] ! (i * 2 + k)) * sint ([5, - 6, 7, 8 :: 16 word] ! (k * 2 + j)))"
    using matrix_mul_matrix_exact [of 2 "[1, 2, 3, 4]" "[5, - 6, 7, 8]" "[0, 0, 0, 0]" 4 8] by auto
  moreover have "sint (C' ! 1) = 10"
    using c [rule_format, of 0 1] by (simp add: numeral_2_eq_2)
  ultimately show ?thesis by blast
qed

text \<open>The value \<open>matrix_sum\<close> returns is at most ten per element, so its \<open>ee_s16\<close> result does not
  wrap for the dimensions the benchmark uses; it is defined whenever the running total fits.\<close>

lemma matrix_sum_bound:
  assumes "N * N \<le> length C"
  shows "if sum_fits (sint clipval) 0 (map sint (take (N * N) C))
         then \<exists>r. matrix_sum N C clipval = Some r \<and> unat r \<le> 10 * (N * N)
         else matrix_sum N C clipval = None"
proof -
  have "unat r \<le> 10 * (N * N)" if "matrix_sum N C clipval = Some r" for r
    using that assms matrix_sum_eq [OF assms, of clipval] sum_run_bound [of clipval "take (N * N) C" 0 0 0]
    by (auto simp: min_absorb2)
  then show ?thesis using matrix_sum_when [OF assms refl, of clipval] by auto
qed

section \<open>The initialisation fits its block\<close>

lemma unat_dim: "n \<le> 16384 \<Longrightarrow> unat (8 * (of_nat n * of_nat n) :: u32) = 8 * (n * n)"
proof -
  assume n: "n \<le> 16384"
  then have "n * n \<le> 16384 * 16384" by (intro mult_le_mono)
  then have "8 * (n * n) < 2 ^ 32" by simp
  moreover have "(8 * (of_nat n * of_nat n) :: u32) = of_nat (8 * (n * n))" by (simp add: algebra_simps)
  ultimately show ?thesis by (simp only: unat_of_nat) simp
qed

text \<open>The loop finds the least dimension whose three matrices no longer fit.\<close>

lemma dim_loop_from:
  assumes "n \<le> 16384" and "unat blk \<le> 2 ^ 31" and "n = 0 \<or> 8 * ((n - 1) * (n - 1)) < unat blk"
    and "0 < unat blk"
  shows "\<exists>m. 0 < m \<and> m \<le> 16384 \<and>
    dim_loop blk (of_nat n) (8 * (of_nat n * of_nat n)) = Some (of_nat m) \<and>
    8 * ((m - 1) * (m - 1)) < unat blk \<and> unat blk \<le> 8 * (m * m)"
  using assms(1,3)
proof (induction "16384 - n" arbitrary: n)
  case (Suc d)
  show ?case
  proof (cases "8 * (n * n) < unat blk")
    case True
    then have "dim_loop blk (of_nat n) (8 * (of_nat n * of_nat n))
        = dim_loop blk (of_nat (Suc n)) (8 * (of_nat (Suc n) * of_nat (Suc n)))"
      using Suc.prems by (subst dim_loop.simps) (simp add: word_less_nat_alt unat_dim add.commute)
    then show ?thesis using Suc.hyps(1) [of "Suc n"] Suc.hyps(2) True by simp
  next
    case False
    then have "n \<noteq> 0" using assms(4) by (intro notI) simp
    with False show ?thesis
      using Suc.prems by (subst dim_loop.simps) (auto simp: word_less_nat_alt unat_dim)
  qed
next
  case 0
  then have n: "n = 16384" by simp
  then have "\<not> (8 * (of_nat n * of_nat n) < blk)"
    using assms(2) unat_dim [of n] by (simp add: word_less_nat_alt)
  then have "dim_loop blk (of_nat n) (8 * (of_nat n * of_nat n)) = Some (of_nat n)"
    by (subst dim_loop.simps) simp
  then show ?case using n 0(3) assms(2) by (intro exI [of _ n]) simp
qed

lemma dim_loop_total:
  assumes "0 < unat blk" and "unat blk \<le> 2 ^ 31"
  shows "\<exists>m. 0 < m \<and> m \<le> 16384 \<and> dim_loop blk 0 0 = Some (of_nat m) \<and>
    8 * ((m - 1) * (m - 1)) < unat blk \<and> unat blk \<le> 8 * (m * m)"
  using dim_loop_from [of 0 blk] assms by simp

lemma pred_mod_4: "4 dvd n \<Longrightarrow> n \<noteq> 0 \<Longrightarrow> (n - 1) mod 4 = (3 :: nat)"
proof -
  assume "4 dvd n" "n \<noteq> 0"
  then obtain q where "n = 4 * Suc q" by (metis dvdE mult_0_right not0_implies_Suc)
  then have "n - 1 = 3 + q * 4" by simp
  then show ?thesis by simp
qed

lemma align_mem_id: "4 dvd unat x \<Longrightarrow> align_mem x = x"
proof -
  assume d: "4 dvd unat x"
  have "unat (x - 1) mod 4 = 3"
  proof (cases "x = 0")
    case False
    then have "unat x \<noteq> 0" by (metis unat_eq_zero)
    then show ?thesis using unat_minus_one [OF False] pred_mod_4 [OF d] by metis
  next
    case True
    then have "unat (x - 1) = 2 ^ 32 - 1" by (simp add: unsigned_minus_1_eq_mask mask_eq_exp_minus_1)
    then show ?thesis by (simp only:) simp
  qed
  then have "unat (take_bit 2 (x - 1)) = 3"
    by (simp only: unat_take_bit) simp
  then have "take_bit 2 (x - 1) = of_nat 3" by (metis of_nat_unat ucast_id)
  moreover have m: "mask 2 = (3 :: u32)" by (simp add: mask_eq_exp_minus_1)
  ultimately have "(x - 1) AND NOT 3 = x - 1 - 3"
    using and_not_mask [of "x - 1" 2] unfolding m by simp
  then show ?thesis unfolding align_mem_def by simp
qed

text \<open>What the filling loop keeps, before element \<open>k\<close>.\<close>

definition init_inv ::
    "nat \<Rightarrow> nat \<Rightarrow> matdat list \<times> matdat list \<times> int \<times> int \<Rightarrow> bool" where
  "init_inv n k = (\<lambda>(A, B, seed, order). length A = n \<and> length B = n \<and> order = int k + 1 \<and>
     (k = 0 \<longrightarrow> \<bar>seed\<bar> \<le> 2 ^ 31 \<and> seed \<noteq> 2 ^ 31) \<and> (0 < k \<longrightarrow> \<bar>seed\<bar> < 65536) \<and>
     (\<forall>p < k. A ! p \<le> 0xff))"

lemma c_rem_bound: "\<bar>c_rem a 65536\<bar> < 65536"
  by (cases "a = 0") (auto simp: c_rem_def abs_mult)

lemma init_matrix_body_inv:
  assumes "init_inv n k st" and "k < n" and "n \<le> 32761"
  shows "\<exists>st'. init_matrix_body k st = Some st' \<and> init_inv n (Suc k) st'"
proof -
  obtain A B seed order where st: "st = (A, B, seed, order)" by (metis prod_cases4)
  note i = assms(1) [unfolded st init_inv_def prod.case]
  have "\<bar>order * seed\<bar> \<le> 32761 * 65535 \<or> k = 0 \<and> order * seed = seed"
  proof (cases "k = 0")
    case False
    then have "order * \<bar>seed\<bar> \<le> 32761 * 65535"
      using i assms(2,3) by (intro mult_mono) auto
    moreover have "\<bar>order * seed\<bar> = order * \<bar>seed\<bar>" using i by (simp add: abs_mult)
    ultimately show ?thesis by simp
  qed (use i in simp)
  then have 1: "chk32 (order * seed) = Some (order * seed)"
    using i by (auto simp: chk32_def)
  define s where "s = c_rem (order * seed) 65536"
  have s: "\<bar>s\<bar> < 65536" unfolding s_def by (rule c_rem_bound)
  have o: "1 \<le> order" "order \<le> 32761" using i assms(2,3) by auto
  define b where "b = matrix_clip (word_of_int (s + order)) False"
  have b: "- (2 ^ 15) \<le> sint b" "sint b < 2 ^ 15"
    using sint_ge [of b] sint_lt [of b] by simp_all
  define a where "a = matrix_clip (word_of_int (sint b + order)) True"
  have a: "a \<le> 0xff" unfolding a_def matrix_clip_def by (simp add: word_and_le1)
  have "init_matrix_body k st = Some (A[k := a], B[k := b], s, order + 1)"
  proof -
    have 2: "chk32 (s + order) = Some (s + order)" "chk32 (sint b + order) = Some (sint b + order)"
      "chk32 (order + 1) = Some (order + 1)"
      using s o b by (auto simp: chk32_def)
    have 3: "k < length A" "k < length B" using i assms(2) by auto
    show ?thesis
      unfolding st init_matrix_body_def prod.case 1 2(1) Option.bind.bind_lunit s_def [symmetric]
        b_def [symmetric]
      by (simp add: 2 3 a_def)
  qed
  moreover have "init_inv n (Suc k) (A[k := a], B[k := b], s, order + 1)"
    using i s a assms(2) by (auto simp: init_inv_def nth_list_update less_Suc_eq)
  ultimately show ?thesis by blast
qed


lemma unat_square: "n * n < 2 ^ 32 \<Longrightarrow> unat (of_nat n * of_nat n :: u32) = n * n"
  by (simp only: of_nat_mult [symmetric] unat_of_nat) simp

lemma square_between:
  fixes n k b :: nat
  assumes "8 * (n * n) < b" "b \<le> 8 * (Suc n * Suc n)" "8 * (k * k) < b" "b \<le> 8 * (Suc k * Suc k)"
  shows "n = k"
proof (rule antisym)
  have "x \<le> y" if "8 * (x * x) < b" "b \<le> 8 * (Suc y * Suc y)" for x y
  proof (rule ccontr)
    assume "\<not> x \<le> y"
    then have "Suc y * Suc y \<le> x * x" by (intro mult_le_mono) auto
    with that show False by linarith
  qed
  then show "n \<le> k" "k \<le> n" using assms by blast+
qed

lemma small_dim:
  fixes n b :: nat
  assumes "8 * (n * n) < b" and "b \<le> 2 ^ 18"
  shows "n * n \<le> 32761" and "n \<le> 181"
proof -
  show n: "n \<le> 181"
  proof (rule ccontr)
    assume "\<not> n \<le> 181"
    then have "182 * 182 \<le> n * n" by (intro mult_le_mono) auto
    then show False using assms by simp
  qed
  have "n * n \<le> 181 * 181" using n by (intro mult_le_mono)
  then show "n * n \<le> 32761" by simp
qed

lemma matrix_addresses:
  fixes N memblk :: u32
  assumes "unat (N * N) = q" and "4 dvd unat memblk" and "unat memblk + 8 * q < 2 ^ 32"
  shows "align_mem memblk = memblk" and "unat (memblk + 2 * (N * N)) = unat memblk + 2 * q"
    and "unat (align_mem (memblk + 2 * (N * N) + 2 * (N * N))) = unat memblk + 4 * q"
proof -
  have 2: "unat (2 * (N * N)) = 2 * q" using assms(1,3) by (simp add: unat_word_ariths)
  have add: "unat (m + w) = unat m + 2 * q" if "unat w = 2 * q" "unat m + 2 * q < 2 ^ 32" for m w :: u32
    using that by (simp add: unat_word_ariths)
  show B: "unat (memblk + 2 * (N * N)) = unat memblk + 2 * q"
    using assms(3) by (intro add [OF 2]) simp
  then have C: "unat (memblk + 2 * (N * N) + 2 * (N * N)) = unat memblk + 4 * q"
    using assms(3) add [OF 2, of "memblk + 2 * (N * N)"] by simp
  show "align_mem memblk = memblk" by (rule align_mem_id [OF assms(2)])
  have "4 dvd unat memblk + 4 * q" using assms(2) by simp
  then show "unat (align_mem (memblk + 2 * (N * N) + 2 * (N * N))) = unat memblk + 4 * q"
    using C align_mem_id by metis
qed

text \<open>The result of the initialisation, wherever the block starts.\<close>

lemma core_init_matrix_total:
  assumes "8 * (n * n) < unat blk" and "unat blk \<le> 8 * (Suc n * Suc n)" and "unat blk \<le> 2 ^ 18"
    and "length A0 = n * n" and "length B0 = n * n"
  shows "\<exists>A B. core_init_matrix blk memblk seed A0 B0 = Some (of_nat n,
      (align_mem memblk, align_mem memblk + 2 * (of_nat n * of_nat n),
       align_mem (align_mem memblk + 2 * (of_nat n * of_nat n) + 2 * (of_nat n * of_nat n))), A, B) \<and>
     length A = n * n \<and> length B = n * n \<and> (\<forall>a \<in> set A. a \<le> 0xff)"
proof -
  define s0 where "s0 = (if seed = 0 then 1 else sint seed)"
  obtain m where m: "0 < m" "dim_loop blk 0 0 = Some (of_nat m)"
      "8 * ((m - 1) * (m - 1)) < unat blk" "unat blk \<le> 8 * (m * m)"
    using dim_loop_total [of blk] assms(1,3) by auto
  have "m - 1 = n" using m assms(1,2) by (intro square_between [of "m - 1" "unat blk"]) auto
  then have N: "(of_nat m - 1 :: u32) = of_nat n" using m(1) by (cases m) auto
  note n2 = small_dim [OF assms(1,3)]
  have uN: "unat (of_nat n :: u32) = n" using n2(2) by (simp add: unat_of_nat)
  have "init_inv (n * n) 0 (A0, B0, s0, 1)"
    using assms(4,5) sint_ge [of seed] sint_lt [of seed] by (auto simp: init_inv_def s0_def)
  then have "\<exists>st. for_range 0 (n * n) init_matrix_body (A0, B0, s0, 1) = Some st
       \<and> init_inv (n * n) (n * n) st"
    using init_matrix_body_inv [OF _ _ n2(1)]
    by (intro for_range_rule [where I = "init_inv (n * n)"]) blast+
  then obtain A B s' ord where f: "for_range 0 (n * n) init_matrix_body (A0, B0, s0, 1) = Some (A, B, s', ord)"
      "init_inv (n * n) (n * n) (A, B, s', ord)" by (metis prod_cases4)
  show ?thesis
    using f(2)
    by (simp add: core_init_matrix_def m(2) N uN for_range_rows f(1) flip: s0_def)
      (auto simp: init_inv_def in_set_conv_nth)
qed

text \<open>for any block of at most 256 KiB the initialisation terminates without signed overflow,
  picks the largest dimension N with 8 N N below the block size, fills A with values of one byte,
  and, if the block starts at a multiple of four, places A at its start, B behind A, C behind B,
  and C ends inside the block.\<close>

theorem core_init_matrix_fits:
  assumes "8 * (n * n) < unat blk" and "unat blk \<le> 8 * (Suc n * Suc n)" and "unat blk \<le> 2 ^ 18"
    and "4 dvd unat memblk" and "unat memblk + unat blk \<le> 2 ^ 32"
    and "length A0 = n * n" and "length B0 = n * n"
  shows "\<exists>pB pC A B. core_init_matrix blk memblk seed A0 B0 = Some (of_nat n, (memblk, pB, pC), A, B) \<and>
     length A = n * n \<and> length B = n * n \<and> (\<forall>a \<in> set A. a \<le> 0xff) \<and>
     unat pB = unat memblk + 2 * (n * n) \<and> unat pC = unat pB + 2 * (n * n) \<and>
     unat pC + 4 * (n * n) < unat memblk + unat blk"
proof -
  have sq: "unat (of_nat n * of_nat n :: u32) = n * n"
    using small_dim [OF assms(1,3)] by (intro unat_square) simp
  have "unat memblk + 8 * (n * n) < 2 ^ 32" using assms(1,5) by linarith
  note adr = matrix_addresses [OF sq assms(4) this]
  show ?thesis
    using core_init_matrix_total [OF assms(1-3,6,7), of memblk seed] adr assms(1) by auto
qed

theorem core_init_matrix_fits_witness:
  "\<exists>pB pC A B. core_init_matrix 100 4096 7 (replicate 9 0) (replicate 9 0)
     = Some (3, (4096, pB, pC), A, B) \<and> unat pC + 36 < 4196"
  using core_init_matrix_fits [of 3 100 4096 "replicate 9 0" "replicate 9 0" 7] by auto

text \<open>Without the alignment the matrices can leave the block: here by two bytes.\<close>

lemma core_init_matrix_misaligned:
  "core_init_matrix 9 4097 7 [0] [0] = Some (1, (4100, 4102, 4104), [9], [8]) \<and> 4104 + 4 > 4097 + (9 :: nat)"
proof -
  have "dim_loop 9 0 0 = Some 2" by (simp add: dim_loop.simps)
  then show ?thesis
    by (simp add: core_init_matrix_def align_mem_def for_range_step init_matrix_body_def chk32_def
        c_rem_def matrix_clip_def)
qed

end
