(* ===== verification/CoreList.thy ===== *)
theory CoreList
  imports CoreSort CoreUtil CoreState CoreMatrix
begin

text \<open>
  The list benchmark of CoreMark, \<open>src/lib/coremark/core_list_join.c\<close>. The memory of the list
  is a store of fields: \<open>next\<close> and \<open>info\<close> of the list heads, \<open>data16\<close> and
  \<open>idx\<close> of the data items. The results structure of a run carries what the comparison of data
  items reads and caches. The main result is that a run of the benchmark gives the list back exactly
  as it found it, as the comment in the code promises.
\<close>

section \<open>Data\<close>

record list_store =
  nxt :: "ptr \<Rightarrow> ptr"
  info :: "ptr \<Rightarrow> ptr"
  data16 :: "ptr \<Rightarrow> s16"
  idx :: "ptr \<Rightarrow> s16"

text \<open>\<open>core_results\<close>; of the four memory blocks only the one of the state machine is read
  through this structure, and the matrix parameters carry their arrays.\<close>

record core_results =
  seed1 :: s16
  seed2 :: s16
  seed3 :: s16
  memblock3 :: "u8 list"
  res_size :: u32
  iterations :: u32
  execs :: u32
  res_list :: ptr
  mat :: mat_params
  crc :: u16
  crclist :: u16
  crcmatrix :: u16
  crcstate :: u16
  err :: s16

section \<open>Comparing data items\<close>

text \<open>\<open>calc_func\<close> on the value of a data item. First its \<open>switch\<close>: the operation that the
  low three bits select, on the replicated four bits above them.\<close>

definition calc_switch :: "s16 \<Rightarrow> core_results \<Rightarrow> (s16 \<times> core_results) option" where
  "calc_switch data res =
     (let flag = data AND 0x7;
          dtype = drop_bit 3 data AND 0xf;
          dtype = dtype OR push_bit 4 dtype
      in if flag = 0 then
           do { let dtype = (if sint dtype < 0x22 then 0x22 else dtype);
                (r, m) \<leftarrow> core_bench_state (res_size res) (memblock3 res) (seed1 res) (seed2 res) dtype (crc res);
                Some (r, res\<lparr>memblock3 := m, crcstate := (if crcstate res = 0 then r else crcstate res)\<rparr>) }
         else if flag = 1 then
           do { (r, p) \<leftarrow> core_bench_matrix (mat res) dtype (crc res);
                Some (r, res\<lparr>mat := p, crcmatrix := (if crcmatrix res = 0 then r else crcmatrix res)\<rparr>) }
         else Some (data, res))"

text \<open>The 7-bit result, the item with the result cached in its low byte, and the results
  structure.\<close>

definition calc_func :: "s16 \<Rightarrow> core_results \<Rightarrow> (s16 \<times> s16 \<times> core_results) option" where
  "calc_func data res =
     (if bit data 7 then Some (data AND 0x007f, data, res)
      else
        do { (retval, res) \<leftarrow> calc_switch data res;
             let res = res\<lparr>crc := crcu16 retval (crc res)\<rparr>;
             let retval = retval AND 0x007f;
             Some (retval, (data AND 0xff00) OR 0x0080 OR retval, res) })"

definition cmp_complex ::
  "ptr \<Rightarrow> ptr \<Rightarrow> (ptr \<Rightarrow> s16) \<times> core_results \<Rightarrow> (int \<times> (ptr \<Rightarrow> s16) \<times> core_results) option" where
  "cmp_complex a b s =
     do { let (d, res) = s;
          x \<leftarrow> fld d a;
          (val1, x, res) \<leftarrow> calc_func x res;
          let d = d(a := x);
          y \<leftarrow> fld d b;
          (val2, y, res) \<leftarrow> calc_func y res;
          Some (sint val1 - sint val2, d(b := y), res) }"

definition regen :: "s16 \<Rightarrow> s16" where
  "regen d = (d AND 0xff00) OR (0x00ff AND signed_drop_bit 8 d)"

text \<open>\<open>cmp_idx\<close>; \<open>no_res\<close> says that it is called with a null results pointer.\<close>

definition cmp_idx ::
  "(ptr \<Rightarrow> s16) \<Rightarrow> bool \<Rightarrow> ptr \<Rightarrow> ptr \<Rightarrow> (ptr \<Rightarrow> s16) \<Rightarrow> (int \<times> (ptr \<Rightarrow> s16)) option" where
  "cmp_idx ix no_res a b d =
     do { d \<leftarrow> (if no_res
               then do { x \<leftarrow> fld d a; let d = d(a := regen x);
                         y \<leftarrow> fld d b; Some (d(b := regen y)) }
               else Some d);
          i \<leftarrow> fld ix a; j \<leftarrow> fld ix b;
          Some (sint i - sint j, d) }"

section \<open>List operations\<close>

text \<open>\<open>copy_info\<close>.\<close>

definition copy_info :: "list_store \<Rightarrow> ptr \<Rightarrow> s16 \<Rightarrow> s16 \<Rightarrow> list_store option" where
  "copy_info S to d i =
     (if to = 0 then None else Some (S\<lparr>data16 := (data16 S)(to := d), idx := (idx S)(to := i)\<rparr>))"

text \<open>\<open>core_list_find\<close>: by index when the wanted index is not negative, else by data.\<close>

partial_function (option) find_loop :: "(ptr \<Rightarrow> ptr) \<Rightarrow> (ptr \<Rightarrow> bool option) \<Rightarrow> ptr \<Rightarrow> ptr option" where
  [code]: "find_loop nx differs list =
     (if list = 0 then Some list
      else do { c \<leftarrow> differs list;
                if c then do { n \<leftarrow> fld nx list; find_loop nx differs n } else Some list })"

definition core_list_find :: "list_store \<Rightarrow> ptr \<Rightarrow> s16 \<Rightarrow> s16 \<Rightarrow> ptr option" where
  "core_list_find S list want_idx want_data =
     (if 0 \<le> sint want_idx
      then find_loop (nxt S)
             (\<lambda>l. do { p \<leftarrow> fld (info S) l; i \<leftarrow> fld (idx S) p; Some (i \<noteq> want_idx) }) list
      else find_loop (nxt S)
             (\<lambda>l. do { p \<leftarrow> fld (info S) l; d \<leftarrow> fld (data16 S) p; Some (d AND 0xff \<noteq> want_data) }) list)"

partial_function (option) reverse_loop :: "(ptr \<Rightarrow> ptr) \<Rightarrow> ptr \<Rightarrow> ptr \<Rightarrow> ((ptr \<Rightarrow> ptr) \<times> ptr) option" where
  [code]: "reverse_loop nx list nt =
     (if list = 0 then Some (nx, nt)
      else do { tmp \<leftarrow> fld nx list; reverse_loop (nx(list := nt)) tmp list })"

definition core_list_reverse :: "list_store \<Rightarrow> ptr \<Rightarrow> (list_store \<times> ptr) option" where
  "core_list_reverse S list = do { (nx, l) \<leftarrow> reverse_loop (nxt S) list 0; Some (S\<lparr>nxt := nx\<rparr>, l) }"

definition core_list_remove :: "list_store \<Rightarrow> ptr \<Rightarrow> (list_store \<times> ptr) option" where
  "core_list_remove S item =
     do { ret \<leftarrow> fld (nxt S) item;
          tmp \<leftarrow> fld (info S) item;
          ri \<leftarrow> fld (info S) ret;
          let inf = (info S)(item := ri, ret := tmp);
          n \<leftarrow> fld (nxt S) item;
          nn \<leftarrow> fld (nxt S) n;
          Some (S\<lparr>info := inf, nxt := (nxt S)(item := nn, ret := 0)\<rparr>, ret) }"

definition core_list_undo_remove :: "list_store \<Rightarrow> ptr \<Rightarrow> ptr \<Rightarrow> (list_store \<times> ptr) option" where
  "core_list_undo_remove S item_removed item_modified =
     do { tmp \<leftarrow> fld (info S) item_removed;
          mi \<leftarrow> fld (info S) item_modified;
          let inf = (info S)(item_removed := mi, item_modified := tmp);
          mn \<leftarrow> fld (nxt S) item_modified;
          Some (S\<lparr>info := inf, nxt := (nxt S)(item_removed := mn, item_modified := item_removed)\<rparr>, item_removed) }"

text \<open>\<open>core_list_insert_new\<close>: besides the store it moves the two allocation pointers; a list head
  takes 8 bytes and a data item 4.\<close>

definition core_list_insert_new ::
  "list_store \<Rightarrow> ptr \<Rightarrow> s16 \<Rightarrow> s16 \<Rightarrow> ptr \<Rightarrow> ptr \<Rightarrow> ptr \<Rightarrow> ptr \<Rightarrow> (list_store \<times> ptr \<times> ptr \<times> ptr) option" where
  "core_list_insert_new S insert_point d i memblock datablock memblock_end datablock_end =
     (if memblock_end \<le> memblock + 8 then Some (S, memblock, datablock, 0)
      else if datablock_end \<le> datablock + 4 then Some (S, memblock, datablock, 0)
      else if memblock = 0 then None
      else do { let newitem = memblock;
                n \<leftarrow> fld (nxt S) insert_point;
                let S = S\<lparr>nxt := (nxt S)(newitem := n, insert_point := newitem),
                          info := (info S)(newitem := datablock)\<rparr>;
                S \<leftarrow> copy_info S datablock d i;
                Some (S, memblock + 8, datablock + 4, newitem) })"

section \<open>Initialisation\<close>

definition list_data :: "u32 \<Rightarrow> s16 \<Rightarrow> s16" where
  "list_data i seed =
     (let datpat = (seed XOR ucast i) AND 0xf;
          dat = push_bit 3 datpat OR ucast (i AND 0x7)
      in push_bit 8 dat OR dat)"

definition list_idx :: "u32 \<Rightarrow> s16 \<Rightarrow> u32 \<Rightarrow> s16" where
  "list_idx sz seed i =
     (if i < sz div 5 then ucast i
      else let pat = ucast i XOR seed; i = i + 1 in 0x3fff AND (push_bit 8 (ucast (i AND 0x07)) OR pat))"

definition insert_round ::
  "ptr \<Rightarrow> s16 \<Rightarrow> ptr \<Rightarrow> ptr \<Rightarrow> nat \<Rightarrow> list_store \<times> ptr \<times> ptr \<Rightarrow> (list_store \<times> ptr \<times> ptr) option" where
  "insert_round list seed memblock_end datablock_end i st =
     (case st of (S, mb, db) \<Rightarrow>
      do { (S, mb, db, _) \<leftarrow> core_list_insert_new S list (list_data (of_nat i) seed) 0x7fff mb db memblock_end datablock_end;
           Some (S, mb, db) })"

partial_function (option) index_loop ::
  "(ptr \<Rightarrow> ptr) \<Rightarrow> (ptr \<Rightarrow> ptr) \<Rightarrow> u32 \<Rightarrow> s16 \<Rightarrow> (ptr \<Rightarrow> s16) \<Rightarrow> ptr \<Rightarrow> u32 \<Rightarrow> (ptr \<Rightarrow> s16) option" where
  [code]: "index_loop nx fo sz seed ix finder i =
     do { n \<leftarrow> fld nx finder;
          if n \<noteq> 0
          then do { p \<leftarrow> fld fo finder;
                    if p = 0 then None
                    else index_loop nx fo sz seed (ix(p := list_idx sz seed i)) n (i + 1) }
          else Some ix }"

text \<open>\<open>core_list_init\<close> on the memory from \<open>memblock\<close> on: list heads first, data items behind
  them. \<open>sizeof(list_data)\<close> is 4, so an item needs 20 bytes.\<close>

definition list_size :: "u32 \<Rightarrow> u32" where
  "list_size blksize = blksize div (16 + 4) - 2"

definition core_list_init :: "list_store \<Rightarrow> u32 \<Rightarrow> ptr \<Rightarrow> s16 \<Rightarrow> (list_store \<times> ptr) option" where
  "core_list_init S blksize memblock seed =
     (let sz = list_size blksize;
          memblock_end = memblock + 8 * unat sz;
          datablock = memblock_end;
          datablock_end = datablock + 4 * unat sz;
          list = memblock
      in if list = 0 then None
         else do { let S = S\<lparr>nxt := (nxt S)(list := 0), info := (info S)(list := datablock)\<rparr>;
                   S \<leftarrow> copy_info S datablock 0x8080 0;
                   (S, mb, db, _) \<leftarrow> core_list_insert_new S list 0xffff 0x7fff (memblock + 8) (datablock + 4)
                                        memblock_end datablock_end;
                   (S, mb, db) \<leftarrow> for_range 0 (unat sz) (insert_round list seed memblock_end datablock_end) (S, mb, db);
                   finder \<leftarrow> fld (nxt S) list;
                   ix \<leftarrow> index_loop (nxt S) (info S) sz seed (idx S) finder 1;
                   (nx, list, d) \<leftarrow> core_list_mergesort (cmp_idx ix True) (info S) (nxt S) list (data16 S);
                   Some (S\<lparr>nxt := nx, data16 := d, idx := ix\<rparr>, list) })"

section \<open>The benchmark\<close>

text \<open>One round of the search loop: the state is the store, the list, \<open>retval\<close>, \<open>found\<close>,
  \<open>missed\<close>, and the item looked for.\<close>

definition data_at :: "list_store \<Rightarrow> ptr \<Rightarrow> s16 option" where
  "data_at S l = do { p \<leftarrow> fld (info S) l; fld (data16 S) p }"

definition cache_next :: "(ptr \<Rightarrow> ptr) \<Rightarrow> ptr \<Rightarrow> ptr \<Rightarrow> (ptr \<Rightarrow> ptr) option" where
  "cache_next nx list this_find =
     do { finder \<leftarrow> fld nx this_find;
          if finder \<noteq> 0
          then do { nf \<leftarrow> fld nx finder;
                    let nx = nx(this_find := nf);
                    ln \<leftarrow> fld nx list;
                    Some (nx(finder := ln, list := finder)) }
          else Some nx }"

definition find_round ::
  "nat \<Rightarrow> list_store \<times> ptr \<times> u16 \<times> u16 \<times> u16 \<times> s16 \<times> s16 \<Rightarrow>
     (list_store \<times> ptr \<times> u16 \<times> u16 \<times> u16 \<times> s16 \<times> s16) option" where
  "find_round i st =
     (case st of (S, list, retval, found, missed, want_idx, _) \<Rightarrow>
      do { let want_data = of_nat i AND 0xff;
           this_find \<leftarrow> core_list_find S list want_idx want_data;
           (S, list) \<leftarrow> core_list_reverse S list;
           (S, retval, found, missed) \<leftarrow>
             (if this_find = 0
              then do { n \<leftarrow> fld (nxt S) list; d \<leftarrow> data_at S n;
                        Some (S, retval + (signed_drop_bit 8 d AND 1), found, missed + 1) }
              else do { d \<leftarrow> data_at S this_find;
                        nx \<leftarrow> cache_next (nxt S) list this_find;
                        Some (S\<lparr>nxt := nx\<rparr>,
                              (if d AND 1 \<noteq> 0 then retval + (signed_drop_bit 9 d AND 1) else retval),
                              found + 1, missed) });
           Some (S, list, retval, found, missed, (if 0 \<le> sint want_idx then want_idx + 1 else want_idx), want_data) })"

text \<open>\<open>while (finder) { retval = crc16(list->info->data16, retval); finder = finder->next; }\<close>\<close>

partial_function (option) crc_loop :: "list_store \<Rightarrow> ptr \<Rightarrow> ptr \<Rightarrow> u16 \<Rightarrow> u16 option" where
  [code]: "crc_loop S list finder retval =
     (if finder = 0 then Some retval
      else do { d \<leftarrow> data_at S list; n \<leftarrow> fld (nxt S) finder; crc_loop S list n (crc16 d retval) })"

text \<open>\<open>junk\<close> is the uninitialised \<open>info.data16\<close>, read when no search round has set it.\<close>

definition core_bench_list ::
  "s16 \<Rightarrow> list_store \<Rightarrow> core_results \<Rightarrow> s16 \<Rightarrow> (u16 \<times> list_store \<times> core_results) option" where
  "core_bench_list junk S res finder_idx =
     do { (S, list, retval, found, missed, want_idx, want_data) \<leftarrow>
            for_range 0 (nat (sint (seed3 res))) find_round (S, res_list res, 0, 0, 0, finder_idx, junk);
          let retval = retval + (found * 4 - missed);
          (S, list, res) \<leftarrow>
            (if 0 < sint finder_idx
             then do { (nx, l, d, r) \<leftarrow> core_list_mergesort cmp_complex (info S) (nxt S) list (data16 S, res);
                       Some (S\<lparr>nxt := nx, data16 := d\<rparr>, l, r) }
             else Some (S, list, res));
          second \<leftarrow> fld (nxt S) list;
          (S, remover) \<leftarrow> core_list_remove S second;
          finder \<leftarrow> core_list_find S list want_idx want_data;
          finder \<leftarrow> (if finder = 0 then fld (nxt S) list else Some finder);
          retval \<leftarrow> crc_loop S list finder retval;
          second \<leftarrow> fld (nxt S) list;
          (S, remover) \<leftarrow> core_list_undo_remove S remover second;
          (nx, list, d) \<leftarrow> core_list_mergesort (cmp_idx (idx S) True) (info S) (nxt S) list (data16 S);
          let S = S\<lparr>nxt := nx, data16 := d\<rparr>;
          finder \<leftarrow> fld (nxt S) list;
          retval \<leftarrow> crc_loop S list finder retval;
          Some (retval, S, res) }"

section \<open>Lists in the store\<close>

text \<open>\<open>wf S l xs\<close>: the list from \<open>l\<close> consists of the cells \<open>xs\<close>, each with a data item.\<close>

definition wf :: "list_store \<Rightarrow> ptr \<Rightarrow> ptr list \<Rightarrow> bool" where
  "wf S l xs \<longleftrightarrow> lseg (nxt S) l xs 0 \<and> cells_ok xs \<and> (\<forall>x \<in> set xs. info S x \<noteq> 0)"

lemma cells_ok_nz: "cells_ok xs \<Longrightarrow> x \<in> set xs \<Longrightarrow> x \<noteq> 0"
  by (metis cells_ok_def)

lemma find_loop_lseg:
  assumes "lseg nx p xs 0" "cells_ok xs" "\<And>x. x \<in> set xs \<Longrightarrow> differs x = Some (P x)"
  shows "find_loop nx differs p = Some (hd0 (dropWhile P xs))"
  using assms
proof (induction xs arbitrary: p)
  case Nil
  then show ?case by (subst find_loop.simps) simp
next
  case (Cons x xs)
  then show ?case by (subst find_loop.simps) auto
qed

lemma core_list_find_wf:
  assumes "wf S l xs"
  shows "\<exists>t. core_list_find S l wi wd = Some t \<and> (t = 0 \<or> t \<in> set xs)"
proof -
  have seg: "lseg (nxt S) l xs 0" "cells_ok xs" using assms by (auto simp: wf_def)
  have h: "hd0 (dropWhile P xs) = 0 \<or> hd0 (dropWhile P xs) \<in> set xs" for P
  proof (cases "dropWhile P xs")
    case (Cons y ys)
    then have "y \<in> set (dropWhile P xs)" by simp
    then have "y \<in> set xs" using set_dropWhileD by metis
    then show ?thesis unfolding Cons hd0_simps by simp
  qed (simp only: hd0_simps simp_thms)
  show ?thesis
  proof (cases "0 \<le> sint wi")
    case True
    have "core_list_find S l wi wd = Some (hd0 (dropWhile (\<lambda>x. idx S (info S x) \<noteq> wi) xs))"
      unfolding core_list_find_def if_P [OF True]
      using assms cells_ok_nz [OF seg(2)] by (intro find_loop_lseg [OF seg]) (simp add: wf_def)
    with h show ?thesis by blast
  next
    case False
    have "core_list_find S l wi wd = Some (hd0 (dropWhile (\<lambda>x. data16 S (info S x) AND 0xff \<noteq> wd) xs))"
      unfolding core_list_find_def if_not_P [OF False]
      using assms cells_ok_nz [OF seg(2)] by (intro find_loop_lseg [OF seg]) (simp add: wf_def)
    with h show ?thesis by blast
  qed
qed

lemma reverse_loop_lseg:
  assumes "lseg nx p xs 0" "lseg nx nt ys 0" "cells_ok (xs @ ys)"
  shows "\<exists>nx'. reverse_loop nx p nt = Some (nx', hd0 (rev xs @ ys)) \<and>
    lseg nx' (hd0 (rev xs @ ys)) (rev xs @ ys) 0 \<and> (\<forall>x. x \<notin> set xs \<longrightarrow> nx' x = nx x)"
  using assms
proof (induction xs arbitrary: nx p nt ys)
  case Nil
  then have "nt = hd0 ys" by (intro lseg_hd0)
  with Nil show ?case by (subst reverse_loop.simps) auto
next
  case (Cons x xs)
  then have x: "p = x" "x \<noteq> 0" "lseg nx (nx x) xs 0" "x \<notin> set xs" "x \<notin> set ys" by auto
  let ?nx = "nx(x := nt)"
  have "lseg ?nx (nx x) xs 0" "lseg ?nx x (x # ys) 0" "cells_ok (xs @ x # ys)"
    using Cons.prems x by auto
  from Cons.IH [OF this] obtain nx' where
    r: "reverse_loop ?nx (nx x) x = Some (nx', hd0 (rev xs @ x # ys))"
      "lseg nx' (hd0 (rev xs @ x # ys)) (rev xs @ x # ys) 0" "\<forall>y. y \<notin> set xs \<longrightarrow> nx' y = ?nx y" by blast
  then show ?case using x by (subst reverse_loop.simps) auto
qed

lemma cache_next_lseg:
  assumes "lseg nx l xs 0" "cells_ok xs" "t \<in> set xs"
  shows "\<exists>nx' ys. cache_next nx l t = Some nx' \<and> lseg nx' l ys 0 \<and> mset ys = mset xs \<and>
    (\<forall>x. x \<notin> set xs \<longrightarrow> nx' x = nx x)"
proof -
  obtain us vs where xs: "xs = us @ t # vs" using assms(3) by (auto dest: split_list)
  have t: "t \<noteq> 0" using assms(2) xs by simp
  have seg: "lseg nx l us t" "lseg nx (nx t) vs 0" using assms(1) xs by (auto simp: lseg_append)
  show ?thesis
  proof (cases vs)
    case Nil
    then have "cache_next nx l t = Some nx" using t seg(2) by (simp add: cache_next_def)
    with assms(1) show ?thesis by blast
  next
    case (Cons f ws)
    have f: "nx t = f" "f \<noteq> 0" "lseg nx (nx f) ws 0" using seg(2) Cons assms(2) xs by auto
    show ?thesis
    proof (cases us)
      case Nil
      then have "l = t" using seg(1) by simp
      then have "cache_next nx l t = Some (nx(t := nx f, f := nx f, t := f))"
        using t f by (simp add: cache_next_def)
      moreover have "nx(t := nx f, f := nx f, t := f) = nx" using f(1) by auto
      ultimately show ?thesis using assms(1) by force
    next
      case (Cons h us')
      have l: "l = h" "h \<noteq> 0" "h \<noteq> t" "h \<noteq> f" using seg(1) assms(2) xs Cons \<open>vs = f # ws\<close> by auto
      let ?nx = "nx(t := nx f, f := nx h, h := f)"
      have "cache_next nx l t = Some ?nx" using t f l by (simp add: cache_next_def)
      moreover have "lseg ?nx l (h # f # us' @ t # ws) 0"
        using seg f l assms(2) unfolding xs Cons \<open>vs = f # ws\<close> by (auto simp: lseg_append)
      moreover have "mset (h # f # us' @ t # ws) = mset xs" by (simp add: xs Cons \<open>vs = f # ws\<close>)
      moreover have "\<forall>x. x \<notin> set xs \<longrightarrow> ?nx x = nx x" by (auto simp: xs Cons \<open>vs = f # ws\<close>)
      ultimately show ?thesis by blast
    qed
  qed
qed

lemma cells_ok_mset: "mset ys = mset xs \<Longrightarrow> cells_ok xs \<Longrightarrow> cells_ok ys"
  by (metis cells_ok_def mset_eq_imp_distinct_iff mset_eq_setD)

text \<open>\<open>same_list S0 xs S l\<close>: the store differs from \<open>S0\<close> only in the order of the cells
  \<open>xs\<close>.\<close>

definition same_cells :: "list_store \<Rightarrow> ptr list \<Rightarrow> list_store \<Rightarrow> ptr \<Rightarrow> bool" where
  "same_cells S0 xs S l \<longleftrightarrow>
     info S = info S0 \<and> idx S = idx S0 \<and> (\<forall>x. x \<notin> set xs \<longrightarrow> nxt S x = nxt S0 x) \<and>
     (\<exists>ys. wf S l ys \<and> mset ys = mset xs)"

lemma data_at_wf: "wf S l xs \<Longrightarrow> x \<in> set xs \<Longrightarrow> data_at S x = Some (data16 S (info S x))"
  using cells_ok_nz [of xs x] by (auto simp: data_at_def wf_def)

lemma find_round_total:
  assumes same: "same_cells S0 xs S l" "data16 S = data16 S0" and len: "2 \<le> length xs"
  shows "\<exists>S' l' r' f' m' w' d'. find_round i (S, l, r, f, m, w, d) = Some (S', l', r', f', m', w', d')
    \<and> same_cells S0 xs S' l' \<and> data16 S' = data16 S0"
proof -
  obtain ys where ys: "wf S l ys" "mset ys = mset xs" using same(1) by (auto simp: same_cells_def)
  have st: "set ys = set xs" "length ys = length xs" using ys(2) by (metis mset_eq_setD, metis size_mset)
  have cok: "cells_ok xs" using ys cells_ok_mset [of xs ys] by (simp add: wf_def)
  obtain t where t: "core_list_find S l w (of_nat i AND 0xff) = Some t" "t = 0 \<or> t \<in> set ys"
    using core_list_find_wf [OF ys(1)] by blast
  obtain nx where nx: "reverse_loop (nxt S) l 0 = Some (nx, hd0 (rev ys))" "lseg nx (hd0 (rev ys)) (rev ys) 0"
    "\<forall>x. x \<notin> set ys \<longrightarrow> nx x = nxt S x"
    using reverse_loop_lseg [of "nxt S" l ys 0 "[]"] ys(1) by (auto simp: wf_def)
  let ?S = "S\<lparr>nxt := nx\<rparr>" and ?l = "hd0 (rev ys)"
  have wf1: "wf ?S ?l (rev ys)" using nx(2) ys(1) by (auto simp: wf_def cells_ok_def)
  obtain a b zs where ab: "rev ys = a # b # zs"
    using len st(2) by (cases "rev ys"; cases "tl (rev ys)") auto
  have a0: "a \<noteq> 0" "nx a = b" using wf1 ab by (auto simp: wf_def)
  have same1: "same_cells S0 xs ?S ?l"
    using same(1) wf1 ys(2) nx(3) st by (auto simp: same_cells_def intro!: exI [of _ "rev ys"])
  show ?thesis
  proof (cases "t = 0")
    case True
    have "data_at ?S b = Some (data16 S (info S b))" using data_at_wf [OF wf1, of b] ab by simp
    then show ?thesis
      using t(1) nx(1) True a0 ab same1 same(2) by (simp add: find_round_def core_list_reverse_def)
  next
    case False
    then have ty: "t \<in> set (rev ys)" using t(2) by simp
    obtain nx' zs where c: "cache_next nx ?l t = Some nx'" "lseg nx' ?l zs 0" "mset zs = mset (rev ys)"
      "\<forall>x. x \<notin> set (rev ys) \<longrightarrow> nx' x = nx x"
      using cache_next_lseg [OF nx(2) _ ty] wf1 by (auto simp: wf_def)
    have sz: "set zs = set ys" using c(3) by (metis mset_eq_setD set_rev)
    have "wf (S\<lparr>nxt := nx'\<rparr>) ?l zs"
      using c(2,3) wf1 sz cells_ok_mset [of zs "rev ys"] by (auto simp: wf_def)
    then have "same_cells S0 xs (S\<lparr>nxt := nx'\<rparr>) ?l"
      using same(1) ys(2) c(3,4) nx(3) st by (auto simp: same_cells_def intro!: exI [of _ zs])
    moreover have "data_at ?S t = Some (data16 S (info S t))" using data_at_wf [OF wf1 ty] by simp
    ultimately show ?thesis
      using t(1) nx(1) False c(1) same(2) by (simp add: find_round_def core_list_reverse_def)
  qed
qed

lemma find_rounds_total:
  assumes "same_cells S0 xs S l" "data16 S = data16 S0" "2 \<le> length xs"
  shows "\<exists>S' l' r' f' m' w' d'. for_range 0 n find_round (S, l, r, f, m, w, d) = Some (S', l', r', f', m', w', d')
    \<and> same_cells S0 xs S' l' \<and> data16 S' = data16 S0"
proof -
  have "\<exists>st. for_range 0 n find_round (S, l, r, f, m, w, d) = Some st \<and>
      (case st of (S', l', _) \<Rightarrow> same_cells S0 xs S' l' \<and> data16 S' = data16 S0)"
    using assms find_round_total [OF _ _ assms(3)]
    by (intro for_range_rule [where I = "\<lambda>_ st. case st of (S', l', _) \<Rightarrow> same_cells S0 xs S' l' \<and> data16 S' = data16 S0"])
      fastforce+
  then show ?thesis by (auto split: prod.splits)
qed

lemma crc_loop_lseg:
  assumes "lseg (nxt S) p xs 0" "cells_ok xs" "data_at S l = Some d"
  shows "\<exists>r'. crc_loop S l p r = Some r'"
  using assms
proof (induction xs arbitrary: p r)
  case Nil
  then show ?case by (subst crc_loop.simps) simp
next
  case (Cons x xs)
  then show ?case by (subst crc_loop.simps) auto
qed

section \<open>The comparisons meet the contract of the sort\<close>

lemma bit_list_masks:
  "bit (0x007f :: s16) n \<longleftrightarrow> n < 7" "bit (0x0080 :: s16) n \<longleftrightarrow> n = 7"
  "bit (0x00ff :: s16) n \<longleftrightarrow> n < 8" "bit (0xff00 :: s16) n \<longleftrightarrow> 8 \<le> n \<and> n < 16"
  by (rule iffI; (cases "n < 16")?; auto simp: bit_simps numeral_eq_Suc less_Suc_eq)+

text \<open>The values \<open>calc_func\<close> passes to the matrix benchmark are a nibble written twice; no sum of
  the matrix benchmark may overflow for any of them.\<close>

definition matrices_ok :: "mat_params \<Rightarrow> bool" where
  "matrices_ok p \<longleftrightarrow> (\<forall>d < 16. mat_fits (unat (mat_N p)) (mat_A p) (mat_B p) (of_nat d OR push_bit 4 (of_nat d)))"

lemma nibble_twice_byte: "d < 16 \<Longrightarrow> of_nat d OR push_bit 4 (of_nat d) \<le> (0xff :: matdat)"
proof -
  assume "d < 16"
  then have "d \<in> {0, 1, 2, 3, 4, 5, 6, 7, 8, 9, 10, 11, 12, 13, 14, 15}" by (simp only: insert_iff empty_iff) presburger
  then show ?thesis by (auto simp: push_bit_eq_mult)
qed

lemma matrices_ok_mat_C [simp]: "matrices_ok (p\<lparr>mat_C := C\<rparr>) = matrices_ok p"
  by (simp add: matrices_ok_def)

text \<open>What a run of the state machine and of the matrix benchmark needs.\<close>

definition res_ok :: "core_results \<Rightarrow> bool" where
  "res_ok res \<longleftrightarrow>
     (\<exists>z. Suc z < length (memblock3 res) \<and> memblock3 res ! z = 0 \<and> memblock3 res ! Suc z = 0) \<and>
     unat (res_size res) \<le> length (memblock3 res) \<and> (ucast (seed1 res) :: u8) = ucast (seed2 res) \<and>
     undoable (unat (res_size res)) (ucast (seed1 res)) (memblock3 res) \<and>
     unat (mat_N (mat res)) * unat (mat_N (mat res)) \<le> length (mat_A (mat res)) \<and>
     unat (mat_N (mat res)) * unat (mat_N (mat res)) \<le> length (mat_B (mat res)) \<and>
     unat (mat_N (mat res)) * unat (mat_N (mat res)) \<le> length (mat_C (mat res)) \<and>
     matrices_ok (mat res)"

lemma res_ok_upd [simp]:
  "res_ok (res\<lparr>crc := c\<rparr>) = res_ok res" "res_ok (res\<lparr>crcstate := c\<rparr>) = res_ok res"
  "res_ok (res\<lparr>crcmatrix := c\<rparr>) = res_ok res" "res_ok (res\<lparr>memblock3 := memblock3 res\<rparr>) = res_ok res"
  by (simp_all add: res_ok_def)

lemma res_ok_mat:
  "length C = length (mat_C (mat res)) \<Longrightarrow> res_ok (res\<lparr>mat := (mat res)\<lparr>mat_C := C\<rparr>\<rparr>) = res_ok res"
  by (simp add: res_ok_def)

text \<open>The inputs a run must leave alone.\<close>

definition res_inputs :: "core_results \<Rightarrow> s16 \<times> s16 \<times> s16 \<times> u8 list \<times> u32 \<times> u32 \<times> u32 \<times> ptr \<times> s32 \<times> matdat list \<times> matdat list" where
  "res_inputs r = (seed1 r, seed2 r, seed3 r, memblock3 r, res_size r, iterations r, execs r, res_list r,
     mat_N (mat r), mat_A (mat r), mat_B (mat r))"

lemma calc_func_cached: "bit d 7 \<Longrightarrow> calc_func d res = Some (d AND 0x7f, d, res)"
  by (simp add: calc_func_def)

lemma sint_step: "2 \<le> sint (if sint d < 0x22 then 0x22 else d :: s16)"
  by simp

lemma calc_switch_total:
  assumes "res_ok res"
  shows "\<exists>rv res1. calc_switch d res = Some (rv, res1) \<and> res_ok res1 \<and> res_inputs res1 = res_inputs res"
proof -
  define dt where "dt = (drop_bit 3 d AND 0xf) OR push_bit 4 (drop_bit 3 d AND 0xf)"
  show ?thesis
  proof (cases "d AND 7 = 0")
    case True
    obtain z where "Suc z < length (memblock3 res)" "memblock3 res ! z = 0" "memblock3 res ! Suc z = 0"
      using assms by (auto simp: res_ok_def)
    then obtain c where c: "core_bench_state (res_size res) (memblock3 res) (seed1 res) (seed2 res)
        (if sint dt < 0x22 then 0x22 else dt) (crc res) = Some (c, memblock3 res)"
      using core_bench_state_total [OF _ _ _ _ sint_step] assms unfolding res_ok_def by blast
    have "calc_switch d res = Some (c, res\<lparr>crcstate := (if crcstate res = 0 then c else crcstate res)\<rparr>)"
      unfolding calc_switch_def Let_def dt_def [symmetric] using True c by simp
    with assms show ?thesis by (simp add: res_inputs_def)
  next
    case f0: False
    show ?thesis
    proof (cases "d AND 7 = 1")
      case True
      have "unat (drop_bit 3 d AND 0xf) \<le> unat (0xf :: s16)"
        by (simp only: word_and_le1 flip: word_le_nat_alt)
      then have "unat (drop_bit 3 d AND 0xf) < 16" by simp
      moreover have "of_nat (unat (drop_bit 3 d AND 0xf)) = drop_bit 3 d AND 0xf" by (simp only: of_nat_unat ucast_id)
      ultimately have fits: "mat_fits (unat (mat_N (mat res))) (mat_A (mat res)) (mat_B (mat res)) dt"
        using assms unfolding res_ok_def matrices_ok_def dt_def by metis
      obtain c C where c: "core_bench_matrix (mat res) dt (crc res) = Some (c, (mat res)\<lparr>mat_C := C\<rparr>)"
        "length C = length (mat_C (mat res))"
        using core_bench_matrix_cases [of "mat res" dt "crc res"] fits assms unfolding res_ok_def by auto
      have "calc_switch d res = Some (c, res\<lparr>mat := (mat res)\<lparr>mat_C := C\<rparr>,
          crcmatrix := (if crcmatrix res = 0 then c else crcmatrix res)\<rparr>)"
        unfolding calc_switch_def Let_def dt_def [symmetric] using True f0 c(1) by simp
      with assms c(2) show ?thesis by (simp add: res_inputs_def res_ok_mat)
    next
      case False
      with f0 have "calc_switch d res = Some (d, res)" by (simp only: calc_switch_def Let_def if_False)
      with assms show ?thesis by simp
    qed
  qed
qed

lemma calc_func_total:
  assumes "res_ok res"
  shows "\<exists>r d' res'. calc_func d res = Some (r, d', res') \<and> res_ok res' \<and> res_inputs res' = res_inputs res
    \<and> bit d' 7 \<and> d' AND 0x7f = r \<and> d' AND 0xff00 = d AND 0xff00 \<and> (bit d 7 \<longrightarrow> d' = d)"
proof (cases "bit d 7")
  case True
  with assms show ?thesis by (simp add: calc_func_cached)
next
  case False
  obtain rv res1 where "calc_switch d res = Some (rv, res1)" "res_ok res1" "res_inputs res1 = res_inputs res"
    using calc_switch_total [OF assms] by blast
  then obtain rv res1 where c: "calc_func d res = Some (rv AND 0x7f, (d AND 0xff00) OR 0x80 OR (rv AND 0x7f),
      res1\<lparr>crc := crcu16 rv (crc res1)\<rparr>)" "res_ok res1" "res_inputs res1 = res_inputs res"
    using False that [of rv res1] by (simp add: calc_func_def Let_def)
  let ?d = "(d AND 0xff00) OR 0x80 OR (rv AND 0x7f)"
  have "bit ?d 7" by (simp add: bit_or_iff bit_and_iff bit_list_masks)
  moreover have "?d AND 0x7f = rv AND 0x7f" "?d AND 0xff00 = d AND 0xff00"
    by (rule bit_word_eqI; auto simp: bit_or_iff bit_and_iff bit_list_masks simp del: bit_numeral_word_iff)+
  moreover have "res_ok (res1\<lparr>crc := x\<rparr>)" "res_inputs (res1\<lparr>crc := x\<rparr>) = res_inputs res1" for x
    using c(2) by (simp_all add: res_inputs_def)
  ultimately show ?thesis using c False by simp
qed

text \<open>\<open>data_frame D I d\<close>: the data \<open>d\<close> differs from \<open>D\<close> at most in the low bytes of the
  items \<open>I\<close>.\<close>

definition data_frame :: "(ptr \<Rightarrow> s16) \<Rightarrow> ptr set \<Rightarrow> (ptr \<Rightarrow> s16) \<Rightarrow> bool" where
  "data_frame D I d \<longleftrightarrow> (\<forall>p. d p AND 0xff00 = D p AND 0xff00) \<and> (\<forall>p. p \<notin> I \<longrightarrow> d p = D p)"

definition cached_key :: "(ptr \<Rightarrow> ptr) \<Rightarrow> (ptr \<Rightarrow> s16) \<times> core_results \<Rightarrow> ptr \<Rightarrow> int option" where
  "cached_key fo s x = (if bit (fst s (fo x)) 7 then Some (sint (fst s (fo x) AND 0x7f)) else None)"

definition complex_inv :: "(ptr \<Rightarrow> s16) \<Rightarrow> ptr set \<Rightarrow> core_results \<Rightarrow> (ptr \<Rightarrow> s16) \<times> core_results \<Rightarrow> bool" where
  "complex_inv D I r0 s \<longleftrightarrow> data_frame D I (fst s) \<and> res_ok (snd s) \<and> res_inputs (snd s) = res_inputs r0"

lemma cmp_complex_law:
  assumes "complex_inv D I r0 s" "fo a \<in> I - {0}" "fo b \<in> I - {0}"
  shows "\<exists>v s' ka kb. cmp_complex (fo a) (fo b) s = Some (v, s') \<and> complex_inv D I r0 s'
    \<and> cached_key fo s \<subseteq>\<^sub>m cached_key fo s'
    \<and> cached_key fo s' a = Some ka \<and> cached_key fo s' b = Some kb \<and> (v \<le> 0 \<longleftrightarrow> ka \<le> kb)"
proof -
  obtain d res where s: "s = (d, res)" by fastforce
  have nz: "fo a \<noteq> 0" "fo b \<noteq> 0" using assms(2,3) by auto
  have i: "data_frame D I d" "res_ok res" "res_inputs res = res_inputs r0"
    using assms(1) by (simp_all add: complex_inv_def s)
  obtain v1 x res1 where c1: "calc_func (d (fo a)) res = Some (v1, x, res1)" "res_ok res1"
    "res_inputs res1 = res_inputs r0" "bit x 7" "x AND 0x7f = v1"
    "x AND 0xff00 = d (fo a) AND 0xff00" "bit (d (fo a)) 7 \<longrightarrow> x = d (fo a)"
    using calc_func_total [OF i(2)] i(3) by metis
  define d1 where "d1 = d(fo a := x)"
  obtain v2 y res2 where c2: "calc_func (d1 (fo b)) res1 = Some (v2, y, res2)" "res_ok res2"
    "res_inputs res2 = res_inputs r0" "bit y 7" "y AND 0x7f = v2"
    "y AND 0xff00 = d1 (fo b) AND 0xff00" "bit (d1 (fo b)) 7 \<longrightarrow> y = d1 (fo b)"
    using calc_func_total [OF c1(2)] c1(3) by metis
  define d2 where "d2 = d1(fo b := y)"
  have "cmp_complex (fo a) (fo b) s = Some (sint v1 - sint v2, d2, res2)"
    using c1(1) c2(1) nz by (cases "fo b = fo a") (simp_all add: cmp_complex_def s d1_def d2_def)
  moreover have "data_frame D I d2"
    using i(1) c1(6) c2(6) assms(2,3) by (auto simp: data_frame_def d2_def d1_def)
  moreover have keep: "bit (d p) 7 \<Longrightarrow> d2 p = d p" for p
    using c1(4,7) c2(7) by (auto simp: d2_def d1_def)
  then have "cached_key fo s \<subseteq>\<^sub>m cached_key fo (d2, res2)"
    by (auto simp: map_le_def cached_key_def s split: if_splits)
  moreover have "d2 (fo a) = x"
    using c1(4) c2(7) by (auto simp: d2_def d1_def)
  then have "cached_key fo (d2, res2) a = Some (sint v1)" using c1(4,5) by (simp add: cached_key_def)
  moreover have "cached_key fo (d2, res2) b = Some (sint v2)" using c2(4,5) by (simp add: cached_key_def d2_def)
  ultimately show ?thesis using c2(2,3) by (auto simp: complex_inv_def)
qed

text \<open>For \<open>cmp_idx\<close> an item counts as known once its data have been regenerated.\<close>

lemma regen_props: "regen d AND 0xff00 = d AND 0xff00" "regen (regen d) = regen d"
  by (rule bit_eqI; auto simp: regen_def bit_or_iff bit_and_iff bit_list_masks bit_signed_drop_bit_iff
        simp del: bit_numeral_word_iff)+

lemma regen_cong: "d AND 0xff00 = e AND 0xff00 \<Longrightarrow> regen d = regen e"
proof -
  assume *: "d AND 0xff00 = e AND 0xff00"
  have b: "bit d n = bit e n" if "8 \<le> n" "n < 16" for n
    using arg_cong [OF *, of "\<lambda>w. bit w n"] that by (simp add: bit_and_iff bit_list_masks del: bit_numeral_word_iff)
  show ?thesis
  proof (rule bit_word_eqI)
    fix n assume "n < LENGTH(16)"
    then show "bit (regen d) n = bit (regen e) n"
      using b [of n] b [of "8 + n"]
      by (auto simp: regen_def bit_or_iff bit_and_iff bit_list_masks bit_signed_drop_bit_iff
        simp del: bit_numeral_word_iff)
  qed
qed

definition regen_key :: "(ptr \<Rightarrow> ptr) \<Rightarrow> (ptr \<Rightarrow> s16) \<Rightarrow> (ptr \<Rightarrow> s16) \<Rightarrow> ptr \<Rightarrow> int option" where
  "regen_key fo ix d x = (if regen (d (fo x)) = d (fo x) then Some (sint (ix (fo x))) else None)"

lemma cmp_idx_law:
  assumes "data_frame D I d" "fo a \<in> I - {0}" "fo b \<in> I - {0}"
  shows "\<exists>v d' ka kb. cmp_idx ix True (fo a) (fo b) d = Some (v, d') \<and> data_frame D I d'
    \<and> regen_key fo ix d \<subseteq>\<^sub>m regen_key fo ix d'
    \<and> regen_key fo ix d' a = Some ka \<and> regen_key fo ix d' b = Some kb \<and> (v \<le> 0 \<longleftrightarrow> ka \<le> kb)"
proof -
  have nz: "fo a \<noteq> 0" "fo b \<noteq> 0" using assms(2,3) by auto
  define d1 where "d1 = d(fo a := regen (d (fo a)))"
  define d2 where "d2 = d1(fo b := regen (d1 (fo b)))"
  have "cmp_idx ix True (fo a) (fo b) d = Some (sint (ix (fo a)) - sint (ix (fo b)), d2)"
    using nz by (simp add: cmp_idx_def d1_def d2_def)
  moreover have "data_frame D I d2"
    using assms(1-3) by (auto simp: data_frame_def d2_def d1_def regen_props)
  moreover have "regen_key fo ix d \<subseteq>\<^sub>m regen_key fo ix d2"
    by (auto simp: map_le_def regen_key_def d2_def d1_def regen_props split: if_splits)
  ultimately show ?thesis by (auto simp: regen_key_def d2_def d1_def regen_props)
qed

interpretation sort_complex: comparator cmp_complex fo "complex_inv D I r0" "cached_key fo" "{x. fo x \<in> I - {0}}"
  for fo D I r0
  by unfold_locales (rule cmp_complex_law; simp)

interpretation sort_idx: comparator "cmp_idx ix True" fo "data_frame D I" "regen_key fo ix" "{x. fo x \<in> I - {0}}"
  for ix fo D I
  by unfold_locales (rule cmp_idx_law; simp)

section \<open>The benchmark gives the list back\<close>

lemma remove_undo:
  assumes "wf S l (h # a # b # xs)" "info S a \<noteq> 0" "info S b \<noteq> 0"
  shows "\<exists>S1. core_list_remove S a = Some (S1, b) \<and> wf S1 l (h # a # xs) \<and> data16 S1 = data16 S \<and> idx S1 = idx S
    \<and> nxt S1 l = a \<and> core_list_undo_remove S1 b a = Some (S, b)"
proof -
  have n: "l = h" "nxt S h = a" "nxt S a = b" "h \<noteq> 0" "a \<noteq> 0" "b \<noteq> 0" "h \<noteq> a" "h \<noteq> b" "a \<noteq> b"
    using assms(1) by (auto simp: wf_def)
  let ?S = "S\<lparr>info := (info S)(a := info S b, b := info S a), nxt := (nxt S)(a := nxt S b, b := 0)\<rparr>"
  have "core_list_remove S a = Some (?S, b)"
    using n assms by (simp add: core_list_remove_def)
  moreover have "wf ?S l (h # a # xs)"
    using assms n by (auto simp: wf_def)
  moreover have "nxt ?S l = a" using n by simp
  moreover have "(nxt S)(a := nxt S b, b := nxt S b, a := b) = nxt S" "(info S)(a := info S b, b := info S b, a := info S a) = info S"
    using n by auto
  then have "core_list_undo_remove ?S b a = Some (S, b)"
    using n assms(2,3) by (simp add: core_list_undo_remove_def fun_upd_twist)
  ultimately show ?thesis by (intro exI [of _ ?S]) simp
qed

lemma lseg_next_unique:
  assumes "lseg nx p xs q" "lseg nx' p xs q" "x \<in> set xs"
  shows "nx x = nx' x"
  using assms
proof (induction xs arbitrary: p)
  case (Cons y ys)
  then show ?case by (cases ys) auto
qed simp

lemma store_eqI:
  "nxt S = nxt T \<Longrightarrow> info S = info T \<Longrightarrow> data16 S = data16 T \<Longrightarrow> idx S = idx T \<Longrightarrow> S = (T :: list_store)"
  by simp

lemma regen_frame:
  assumes "data_frame D I d" "\<And>p. p \<in> I \<Longrightarrow> regen (D p) = D p" "\<And>p. p \<in> I \<Longrightarrow> regen (d p) = d p"
  shows "d = D"
proof
  fix p show "d p = D p"
    using assms regen_cong [of "d p" "D p"] by (cases "p \<in> I") (auto simp: data_frame_def)
qed

text \<open>The middle of the benchmark: the sort by data.\<close>

lemma sort_complex_total:
  assumes "wf S l ys" "ys \<noteq> []" "length ys < 2 ^ 31" "res_ok res" "data_frame D (info S ` set ys) (data16 S)"
  shows "\<exists>nx zs d res'. core_list_mergesort cmp_complex (info S) (nxt S) l (data16 S, res) = Some (nx, hd0 zs, d, res')
    \<and> wf (S\<lparr>nxt := nx, data16 := d\<rparr>) (hd0 zs) zs \<and> mset zs = mset ys
    \<and> data_frame D (info S ` set ys) d \<and> res_ok res' \<and> res_inputs res' = res_inputs res
    \<and> (\<forall>x. x \<notin> set ys \<longrightarrow> nx x = nxt S x)
    \<and> (2 \<le> length ys \<longrightarrow> (\<forall>z \<in> set zs. bit (d (info S z)) 7) \<and> zs = sort_key (\<lambda>z. sint (d (info S z) AND 0x7f)) ys)"
proof -
  let ?I = "info S ` set ys"
  have pre: "complex_inv D ?I res (data16 S, res)" "set ys \<subseteq> {x. info S x \<in> ?I - {0}}"
    "cells_ok ys" "lseg (nxt S) l ys 0"
    using assms by (auto simp: complex_inv_def wf_def)
  obtain nx zs s where r: "core_list_mergesort cmp_complex (info S) (nxt S) l (data16 S, res) = Some (nx, hd0 zs, s)"
    "lseg nx (hd0 zs) zs 0" "cells_ok zs" "mset zs = mset ys" "complex_inv D ?I res s"
    "\<forall>f. sort_complex.extends (info S) f s \<longrightarrow> zs = sort_key f ys"
    "2 \<le> length ys \<longrightarrow> (\<forall>x \<in> set ys. cached_key (info S) s x \<noteq> None)"
    "\<forall>x. x \<notin> set ys \<longrightarrow> nx x = nxt S x"
    using sort_complex.mergesort_ok [OF pre(1,2) assms(2) pre(3,4) assms(3)] by blast
  obtain d res' where s: "s = (d, res')" by fastforce
  have zs: "set zs = set ys" using r(4) by (rule mset_eq_setD)
  have "(\<forall>z \<in> set zs. bit (d (info S z)) 7) \<and> zs = sort_key (\<lambda>z. sint (d (info S z) AND 0x7f)) ys"
    if "2 \<le> length ys"
  proof
    show "\<forall>z \<in> set zs. bit (d (info S z)) 7"
      using r(7) that zs by (auto simp: cached_key_def s split: if_splits)
    have "sort_complex.extends (info S) (\<lambda>z. sint (d (info S z) AND 0x7f)) s"
      unfolding sort_complex.extends_def by (auto simp: cached_key_def s split: if_splits)
    then show "zs = sort_key (\<lambda>z. sint (d (info S z) AND 0x7f)) ys" using r(6) by blast
  qed
  moreover have "wf (S\<lparr>nxt := nx, data16 := d\<rparr>) (hd0 zs) zs"
    using r(2,3) assms(1) zs by (simp add: wf_def)
  ultimately show ?thesis using r(1,4,5,8) unfolding s complex_inv_def by auto
qed

text \<open>The end: the sort by index restores order and data.\<close>

lemma sort_idx_total:
  assumes "wf S l ys" "2 \<le> length ys" "length ys < 2 ^ 31"
    and "data_frame D (info S ` set ys) (data16 S)" "\<And>x. x \<in> set ys \<Longrightarrow> regen (D (info S x)) = D (info S x)"
  shows "\<exists>nx zs. core_list_mergesort (cmp_idx (idx S) True) (info S) (nxt S) l (data16 S) = Some (nx, hd0 zs, D)
    \<and> lseg nx (hd0 zs) zs 0 \<and> cells_ok zs \<and> zs = sort_key (\<lambda>x. sint (idx S (info S x))) ys
    \<and> (\<forall>x. x \<notin> set ys \<longrightarrow> nx x = nxt S x)"
proof -
  let ?I = "info S ` set ys"
  have pre: "set ys \<subseteq> {x. info S x \<in> ?I - {0}}" "ys \<noteq> []" "cells_ok ys" "lseg (nxt S) l ys 0"
    using assms(1,2) by (auto simp: wf_def)
  obtain nx zs d where r: "core_list_mergesort (cmp_idx (idx S) True) (info S) (nxt S) l (data16 S) = Some (nx, hd0 zs, d)"
    "lseg nx (hd0 zs) zs 0" "cells_ok zs" "mset zs = mset ys" "data_frame D ?I d"
    "regen_key (info S) (idx S) (data16 S) \<subseteq>\<^sub>m regen_key (info S) (idx S) d"
    "\<forall>f. sort_idx.extends (info S) (idx S) f d \<longrightarrow> zs = sort_key f ys"
    "2 \<le> length ys \<longrightarrow> (\<forall>x \<in> set ys. regen_key (info S) (idx S) d x \<noteq> None)"
    "\<forall>x. x \<notin> set ys \<longrightarrow> nx x = nxt S x"
    using sort_idx.mergesort_ok [where ix = "idx S" and fo = "info S" and D = D and I = "?I", OF assms(4) pre assms(3)]
    by (elim exE conjE) (rule that)
  have "sort_idx.extends (info S) (idx S) (\<lambda>x. sint (idx S (info S x))) d"
    unfolding sort_idx.extends_def by (auto simp: regen_key_def split: if_splits)
  then have zs: "zs = sort_key (\<lambda>x. sint (idx S (info S x))) ys" using r(7) by blast
  have "regen (d (info S x)) = d (info S x)" if "x \<in> set ys" for x
    using r(8) assms(2) that by (auto simp: regen_key_def split: if_splits)
  then have "d = D" using regen_frame [OF r(5)] assms(5) by blast
  with r(1-3,9) zs show ?thesis by blast
qed

lemma sort_idx_restores:
  assumes "wf S l ys" "mset ys = mset xs" "2 \<le> length xs" "length xs < 2 ^ 31"
    and "data_frame D (info S ` set xs) (data16 S)" "\<And>x. x \<in> set xs \<Longrightarrow> regen (D (info S x)) = D (info S x)"
    and "sorted (map (\<lambda>x. sint (idx S (info S x))) xs)" "inj_on (\<lambda>x. sint (idx S (info S x))) (set xs)"
  shows "\<exists>nx. core_list_mergesort (cmp_idx (idx S) True) (info S) (nxt S) l (data16 S) = Some (nx, hd0 xs, D)
    \<and> lseg nx (hd0 xs) xs 0 \<and> (\<forall>x. x \<notin> set xs \<longrightarrow> nx x = nxt S x)"
proof -
  have sz: "set ys = set xs" "length ys = length xs" using assms(2) by (metis mset_eq_setD, metis size_mset)
  have pre: "2 \<le> length ys" "length ys < 2 ^ 31" "data_frame D (info S ` set ys) (data16 S)"
    "\<And>x. x \<in> set ys \<Longrightarrow> regen (D (info S x)) = D (info S x)"
    using assms(3-6) sz by simp_all
  have "sort_key (\<lambda>x. sint (idx S (info S x))) ys = xs"
    using sort_key_inj_key_eq [OF assms(2) _ assms(7)] assms(8) sz(1) by simp
  with sort_idx_total [OF assms(1) pre] show ?thesis using sz(1) by auto
qed

lemma core_bench_list_total:
  assumes wf: "wf S (res_list res) xs" and len: "3 \<le> length xs" "length xs < 2 ^ 31" and res: "res_ok res"
    and dat: "\<And>x. x \<in> set xs \<Longrightarrow> regen (data16 S (info S x)) = data16 S (info S x)"
    and srt: "sorted (map (\<lambda>x. sint (idx S (info S x))) xs)" "inj_on (\<lambda>x. sint (idx S (info S x))) (set xs)"
  shows "\<exists>retval res'. core_bench_list junk S res finder_idx = Some (retval, S, res') \<and> res_ok res'
    \<and> res_inputs res' = res_inputs res"
proof -
  let ?I = "info S ` set xs"
  have len2: "2 \<le> length xs" using len(1) by simp
  have same: "same_cells S xs S (res_list res)" using wf by (auto simp: same_cells_def)
  obtain S1 l1 r1 f1 m1 w1 d1 where
    p1: "for_range 0 (nat (sint (seed3 res))) find_round (S, res_list res, 0, 0, 0, finder_idx, junk)
          = Some (S1, l1, r1, f1, m1, w1, d1)" "same_cells S xs S1 l1" "data16 S1 = data16 S"
    using find_rounds_total [OF same refl len2] by blast
  obtain ys where ys: "wf S1 l1 ys" "mset ys = mset xs" using p1(2) by (auto simp: same_cells_def)
  have S1: "info S1 = info S" "idx S1 = idx S" "\<forall>x. x \<notin> set xs \<longrightarrow> nxt S1 x = nxt S x"
    using p1(2) by (auto simp: same_cells_def)
  have sy: "set ys = set xs" "length ys = length xs" using ys(2) by (metis mset_eq_setD, metis size_mset)
  have df: "data_frame (data16 S) ?I (data16 S1)" using p1(3) by (simp add: data_frame_def)
  obtain S2 l2 res2 zs where p2: "(if 0 < sint finder_idx
      then do { (nx, l, d, r) \<leftarrow> core_list_mergesort cmp_complex (info S1) (nxt S1) l1 (data16 S1, res);
                Some (S1\<lparr>nxt := nx, data16 := d\<rparr>, l, r) }
      else Some (S1, l1, res)) = Some (S2, l2, res2)"
    "wf S2 l2 zs" "mset zs = mset xs" "data_frame (data16 S) ?I (data16 S2)" "res_ok res2"
    "res_inputs res2 = res_inputs res" "info S2 = info S" "idx S2 = idx S"
    "\<forall>x. x \<notin> set xs \<longrightarrow> nxt S2 x = nxt S x"
  proof (cases "0 < sint finder_idx")
    case True
    have "ys \<noteq> []" "length ys < 2 ^ 31" "data_frame (data16 S) (info S1 ` set ys) (data16 S1)"
      using len sy df S1(1) by auto
    then obtain nx zs d res' where "core_list_mergesort cmp_complex (info S1) (nxt S1) l1 (data16 S1, res) = Some (nx, hd0 zs, d, res')"
      "wf (S1\<lparr>nxt := nx, data16 := d\<rparr>) (hd0 zs) zs" "mset zs = mset ys"
      "data_frame (data16 S) (info S1 ` set ys) d" "res_ok res'" "res_inputs res' = res_inputs res"
      "\<forall>x. x \<notin> set ys \<longrightarrow> nx x = nxt S1 x"
      using sort_complex_total [OF ys(1) _ _ res] by blast
    with True show ?thesis
      using ys(2) S1 sy that [of "S1\<lparr>nxt := nx, data16 := d\<rparr>" "hd0 zs" res' zs] by simp
  next
    case False
    with that [of S1 l1 res ys] ys S1 df res show ?thesis by simp
  qed
  have sz: "set zs = set xs" "length zs = length xs" using p2(3) by (metis mset_eq_setD, metis size_mset)
  then obtain h a b vs where z: "zs = h # a # b # vs"
    using len(1) by (cases zs; cases "tl zs"; cases "tl (tl zs)") auto
  have nz: "h \<noteq> 0" "a \<noteq> 0" "l2 = h" "nxt S2 h = a" "info S2 a \<noteq> 0" "info S2 b \<noteq> 0" "info S2 h \<noteq> 0"
    using p2(2) z by (auto simp: wf_def)
  obtain S3 where S3: "core_list_remove S2 a = Some (S3, b)" "wf S3 l2 (h # a # vs)" "data16 S3 = data16 S2"
    "idx S3 = idx S2" "nxt S3 l2 = a" "core_list_undo_remove S3 b a = Some (S2, b)"
    using remove_undo [OF p2(2) [unfolded z] nz(5,6)] by blast
  obtain t where t: "core_list_find S3 l2 w1 d1 = Some t" "t = 0 \<or> t \<in> set (h # a # vs)"
    using core_list_find_wf [OF S3(2)] by blast
  define fi where "fi = (if t = 0 then a else t)"
  have fi: "(if t = 0 then fld (nxt S3) l2 else Some t) = Some fi" "fi \<in> set (h # a # vs)"
    using t(2) S3(5) nz by (auto simp: fi_def)
  obtain us ws where uw: "h # a # vs = us @ fi # ws" using split_list [OF fi(2)] by blast
  have seg3: "lseg (nxt S3) fi (fi # ws) 0" "cells_ok (fi # ws)"
    using S3(2) unfolding wf_def uw by (auto simp: lseg_append)
  have da3: "data_at S3 l2 = Some (data16 S3 (info S3 h))"
    using data_at_wf [OF S3(2), of h] nz by simp
  obtain r3 where r3: "crc_loop S3 l2 fi (r1 + (f1 * 4 - m1)) = Some r3"
    using crc_loop_lseg [OF seg3 da3] by blast
  obtain nx where nx: "core_list_mergesort (cmp_idx (idx S2) True) (info S2) (nxt S2) l2 (data16 S2) = Some (nx, hd0 xs, data16 S)"
    "lseg nx (hd0 xs) xs 0" "\<forall>x. x \<notin> set xs \<longrightarrow> nx x = nxt S2 x"
    using sort_idx_restores [OF p2(2,3) len2 len(2), of "data16 S"] p2(4,7,8) dat srt by auto
  have hd: "hd0 xs = res_list res" using wf lseg_hd0 by (auto simp: wf_def)
  have nxS: "nx = nxt S"
  proof
    fix x show "nx x = nxt S x"
      using nx(2,3) p2(9) wf lseg_next_unique [of nx "hd0 xs" xs 0 "nxt S" x] hd
      by (cases "x \<in> set xs") (auto simp: wf_def)
  qed
  then have S: "S2\<lparr>nxt := nx, data16 := data16 S\<rparr> = S" using p2(7,8) by (intro store_eqI) simp_all
  obtain x1 x2 xt where x: "xs = x1 # x2 # xt" using len(1) by (cases xs; cases "tl xs") auto
  have dS: "data_at S (hd0 xs) = Some (data16 S (info S x1))" using data_at_wf [OF wf, of x1] x by simp
  have seg: "lseg (nxt S) x2 (x2 # xt) 0" "cells_ok (x2 # xt)" "fld (nxt S) (hd0 xs) = Some x2"
    using wf x by (auto simp: wf_def)
  obtain r4 where r4: "crc_loop S (hd0 xs) x2 r3 = Some r4" using crc_loop_lseg [OF seg(1,2) dS] by blast
  have "core_bench_list junk S res finder_idx = Some (r4, S, res2)"
    unfolding core_bench_list_def
    using p1(1) p2(1) nz S3(1,5,6) t(1) r3 nx(1) S seg(3) r4 nxS
    by (cases "t = 0") (simp_all add: Let_def fi_def)
  with p2(5,6) show ?thesis by blast
qed


end
