(* ===== verification/CoreListInit.thy ===== *)
theory CoreListInit
  imports CoreList
begin

text \<open>
  The list that \<open>core_list_init\<close> builds, and the properties of the list benchmark: the cells
  and items stay inside the block handed over, the items start out regenerated, and the list comes
  out sorted by index; with distinct indices it meets what \<open>core_bench_list\<close> needs to give it
  back unchanged.
\<close>

section \<open>The regenerated form of a data item\<close>

lemma regen_list_data: "regen (list_data i seed) = list_data i seed"
proof -
  define dat where "dat = push_bit 3 ((seed XOR ucast i) AND 0xf) OR (ucast (i AND 0x7) :: s16)"
  have m: "(0xf :: s16) = mask 4" "(0x7 :: u32) = mask 3" by (simp_all add: mask_eq_exp_minus_1)
  have small: "\<not> bit dat n" if "7 \<le> n" for n
    using that by (auto simp: dat_def m bit_simps)
  have "list_data i seed = push_bit 8 dat OR dat" by (simp add: list_data_def dat_def Let_def)
  moreover have "regen (push_bit 8 dat OR dat) = push_bit 8 dat OR dat"
    using small
    by (intro bit_word_eqI) (auto simp: regen_def bit_or_iff bit_and_iff bit_push_bit_iff bit_list_masks
        bit_signed_drop_bit_iff simp del: bit_numeral_word_iff)
  ultimately show ?thesis by simp
qed

lemma regen_ends: "regen 0x8080 = 0x8080" "regen 0xffff = 0xffff"
  by code_simp+

section \<open>Building the list\<close>

definition cell :: "ptr \<Rightarrow> nat \<Rightarrow> ptr" where "cell B j = B + 8 * j"
definition item :: "ptr \<Rightarrow> nat \<Rightarrow> nat \<Rightarrow> ptr" where "item B n j = B + 8 * n + 4 * j"

lemma cell_inj [simp]: "cell B i = cell B j \<longleftrightarrow> i = j"
  by (simp add: cell_def)

lemma item_inj [simp]: "item B n i = item B n j \<longleftrightarrow> i = j"
  by (simp add: item_def)

lemma cell_nz [simp]: "0 < B \<Longrightarrow> 0 < cell B j" "0 < B \<Longrightarrow> 0 < item B n j"
  by (simp_all add: cell_def item_def)

lemma cell_Suc: "cell B j + 8 = cell B (Suc j)" "item B n j + 4 = item B n (Suc j)"
  by (simp_all add: cell_def item_def)

text \<open>The cells in list order after \<open>k\<close> insertions: the head, the youngest first, the tail last.\<close>

definition order :: "ptr \<Rightarrow> nat \<Rightarrow> ptr list" where
  "order B k = cell B 0 # rev (map (cell B) [1..<Suc k])"

definition built :: "ptr \<Rightarrow> nat \<Rightarrow> list_store \<Rightarrow> nat \<Rightarrow> bool" where
  "built B n S k \<longleftrightarrow>
     lseg (nxt S) B (order B k) 0 \<and> (\<forall>j \<le> k. info S (cell B j) = item B n j) \<and>
     (\<forall>j \<le> k. regen (data16 S (item B n j)) = data16 S (item B n j)) \<and>
     idx S (item B n 0) = 0 \<and> (1 \<le> k \<longrightarrow> idx S (item B n 1) = 0x7fff)"

lemma order_Suc: "order B (Suc k) = cell B 0 # cell B (Suc k) # tl (order B k)"
  by (simp add: order_def)

lemma order_set: "set (order B k) = cell B ` {0..k}"
proof -
  have "{0..k} = insert 0 {1..<Suc k}" by auto
  moreover have "set (order B k) = insert (cell B 0) (cell B ` {1..<Suc k})"
    by (simp only: order_def list.set set_rev set_map set_upt)
  ultimately show ?thesis by simp
qed

lemma order_ok: "0 < B \<Longrightarrow> cells_ok (order B k)" "length (order B k) = Suc k"
  by (auto simp: order_def cells_ok_def distinct_map inj_on_def cell_def)

lemma insert_new_built:
  assumes "built B n S k" "0 < B" "Suc (Suc k) < n" "regen d = d" "k = 0 \<Longrightarrow> i = 0x7fff"
  shows "\<exists>S'. core_list_insert_new S B d i (cell B (Suc k)) (item B n (Suc k)) (cell B n) (item B n n)
      = Some (S', cell B (Suc (Suc k)), item B n (Suc (Suc k)), cell B (Suc k)) \<and> built B n S' (Suc k)
    \<and> (\<forall>p. p \<noteq> item B n (Suc k) \<longrightarrow> idx S' p = idx S p)"
proof -
  have B: "B = cell B 0" by (simp add: cell_def)
  let ?c = "cell B (Suc k)" and ?i = "item B n (Suc k)"
  let ?S = "S\<lparr>nxt := (nxt S)(?c := nxt S B, B := ?c), info := (info S)(?c := ?i),
      data16 := (data16 S)(?i := d), idx := (idx S)(?i := i)\<rparr>"
  have "core_list_insert_new S B d i ?c ?i (cell B n) (item B n n) = Some (?S, cell B (Suc (Suc k)), item B n (Suc (Suc k)), ?c)"
    using assms(2,3) by (simp add: core_list_insert_new_def cell_Suc copy_info_def Let_def) (simp add: cell_def item_def)
  moreover have "built B n ?S (Suc k)"
  proof -
    have seg: "lseg (nxt S) (nxt S B) (tl (order B k)) 0"
      using assms(1) by (simp add: built_def order_def B [symmetric])
    have "B \<noteq> ?c" by (simp add: cell_def)
    moreover have "B \<notin> set (tl (order B k))" "?c \<notin> set (tl (order B k))"
      using B by (auto simp: order_def cell_def)
    ultimately have "lseg (nxt ?S) B (order B (Suc k)) 0"
      using seg B [symmetric] by (simp add: order_Suc)
    moreover have "\<forall>j \<le> Suc k. info ?S (cell B j) = item B n j"
      using assms(1) by (auto simp: built_def le_Suc_eq)
    moreover have "\<forall>j \<le> Suc k. regen (data16 ?S (item B n j)) = data16 ?S (item B n j)"
      using assms(1,4) by (auto simp: built_def le_Suc_eq)
    moreover have "idx ?S (item B n 0) = 0" "idx ?S (item B n 1) = 0x7fff"
      using assms(1,5) by (cases k; auto simp: built_def)+
    ultimately show ?thesis by (simp add: built_def)
  qed
  ultimately show ?thesis by (intro exI [of _ ?S]) simp
qed

lemma insert_new_full:
  assumes "n \<le> Suc (Suc k)"
  shows "core_list_insert_new S B d i (cell B (Suc k)) (item B n (Suc k)) (cell B n) (item B n n)
      = Some (S, cell B (Suc k), item B n (Suc k), 0)"
  using assms by (simp add: core_list_insert_new_def cell_def item_def)

text \<open>The insertion loop fills the block: \<open>n - 2\<close> cells besides the head.\<close>

lemma insert_rounds:
  assumes "built B n S 1" "0 < B" "3 \<le> n"
  shows "\<exists>S'. for_range 0 n (insert_round B seed (cell B n) (item B n n)) (S, cell B 2, item B n 2)
      = Some (S', cell B (n - 1), item B n (n - 1)) \<and> built B n S' (n - 2)"
proof -
  let ?k = "\<lambda>i. min (Suc i) (n - 2)"
  have "\<exists>st. for_range 0 n (insert_round B seed (cell B n) (item B n n)) (S, cell B 2, item B n 2) = Some st
    \<and> (\<exists>S'. st = (S', cell B (Suc (?k n)), item B n (Suc (?k n))) \<and> built B n S' (?k n))"
  proof (rule for_range_rule [where I = "\<lambda>i st. \<exists>S'. st = (S', cell B (Suc (?k i)), item B n (Suc (?k i))) \<and> built B n S' (?k i)"])
    show "\<exists>S'. (S, cell B 2, item B n 2) = (S', cell B (Suc (?k 0)), item B n (Suc (?k 0))) \<and> built B n S' (?k 0)"
      using assms by (simp add: numeral_2_eq_2)
    fix i st assume "\<exists>S'. st = (S', cell B (Suc (?k i)), item B n (Suc (?k i))) \<and> built B n S' (?k i)"
    then obtain S' where st: "st = (S', cell B (Suc (?k i)), item B n (Suc (?k i)))" "built B n S' (?k i)" by blast
    show "\<exists>t. insert_round B seed (cell B n) (item B n n) i st = Some t
      \<and> (\<exists>S'. t = (S', cell B (Suc (?k (Suc i))), item B n (Suc (?k (Suc i)))) \<and> built B n S' (?k (Suc i)))"
    proof (cases "Suc (Suc (?k i)) < n")
      case True
      then have k: "?k (Suc i) = Suc (?k i)" by simp
      show ?thesis
        using insert_new_built [where i = 32767 and d = "list_data (of_nat i) seed", OF st(2) assms(2) True regen_list_data] st(1)
        unfolding k by (auto simp: insert_round_def)
    next
      case False
      then have k: "?k (Suc i) = ?k i" by simp
      have "n \<le> Suc (Suc (?k i))" using False by simp
      from insert_new_full [OF this] st show ?thesis unfolding k by (simp add: insert_round_def)
    qed
  qed simp
  moreover have "?k n = n - 2" "Suc (n - 2) = n - 1" using assms(3) by simp_all
  ultimately show ?thesis by auto
qed

section \<open>Numbering the items\<close>

lemma index_loop_lseg:
  assumes "lseg nx p (xs @ [t]) 0" "cells_ok (xs @ [t])" "\<forall>x \<in> set xs. fo x \<noteq> 0" "inj_on fo (set xs)"
  shows "\<exists>ix'. index_loop nx fo sz seed ix p i = Some ix'
    \<and> map (\<lambda>x. ix' (fo x)) xs = map (\<lambda>j. list_idx sz seed (i + of_nat j)) [0..<length xs]
    \<and> (\<forall>q. q \<notin> fo ` set xs \<longrightarrow> ix' q = ix q)"
  using assms
proof (induction xs arbitrary: p ix i)
  case Nil
  then show ?case by (subst index_loop.simps) simp
next
  case (Cons x xs)
  have p: "p = x" "x \<noteq> 0" "nx x \<noteq> 0" "lseg nx (nx x) (xs @ [t]) 0" "fo x \<noteq> 0" "fo x \<notin> fo ` set xs"
    using Cons.prems by (cases xs; auto)+
  have pr: "cells_ok (xs @ [t])" "\<forall>x \<in> set xs. fo x \<noteq> 0" "inj_on fo (set xs)" using Cons.prems by auto
  obtain ix' where r: "index_loop nx fo sz seed (ix(fo x := list_idx sz seed i)) (nx x) (i + 1) = Some ix'"
    "map (\<lambda>x. ix' (fo x)) xs = map (\<lambda>j. list_idx sz seed (i + 1 + of_nat j)) [0..<length xs]"
    "\<forall>q. q \<notin> fo ` set xs \<longrightarrow> ix' q = (ix(fo x := list_idx sz seed i)) q"
    using Cons.IH [OF p(4) pr, of "ix(fo x := list_idx sz seed i)" "i + 1"] by blast
  have "index_loop nx fo sz seed ix p i = Some ix'"
    using p r(1) by (subst index_loop.simps) simp
  moreover have "map (\<lambda>x. ix' (fo x)) (x # xs) = map (\<lambda>j. list_idx sz seed (i + of_nat j)) [0..<length (x # xs)]"
  proof -
    have "[0..<length (x # xs)] = 0 # map Suc [0..<length xs]" by (simp only: length_Cons map_Suc_upt) (rule upt_conv_Cons, simp)
    moreover have "ix' (fo x) = list_idx sz seed i" using r(3) p(6) by simp
    ultimately show ?thesis using r(2) by (simp add: add.assoc)
  qed
  moreover have "\<forall>q. q \<notin> fo ` set (x # xs) \<longrightarrow> ix' q = ix q" using r(3) by auto
  ultimately show ?case by blast
qed

definition init_indices :: "nat \<Rightarrow> s16 \<Rightarrow> s16 list" where
  "init_indices n seed = 0 # map (\<lambda>j. list_idx (of_nat n) seed (1 + of_nat j)) [0..<n - 3] @ [0x7fff]"

lemma order_split: "1 \<le> k \<Longrightarrow> order B k = cell B 0 # rev (map (cell B) [2..<Suc k]) @ [cell B 1]"
  by (simp add: order_def upt_conv_Cons numeral_2_eq_2)

lemma sint_16_nonneg: "unat (x :: s16) < 2 ^ 15 \<Longrightarrow> 0 \<le> sint x"
proof -
  assume "unat x < 2 ^ 15"
  then have "int (unat x) < int (2 ^ 15)" by (simp only: of_nat_less_iff)
  then have "uint x < 2 ^ 15" by simp
  then show ?thesis
    using signed_take_bit_int_eq_self [of 15 "uint x"] uint_ge_0 [of x] by (simp add: sint_uint)
qed

lemma list_idx_nonneg:
  assumes "unat sz < 163840"
  shows "0 \<le> sint (list_idx sz seed i)"
proof (cases "i < sz div 5")
  case True
  then have "unat i < unat sz div 5" by (simp add: word_less_nat_alt unat_div)
  then have "unat i < 2 ^ 15" using assms by simp
  moreover from this have "unat (ucast i :: s16) = unat i" by (simp only: unsigned_ucast_eq unsigned_take_bit_eq) (simp add: take_bit_nat_eq_self)
  ultimately show ?thesis using True sint_16_nonneg [of "ucast i"] by (simp add: list_idx_def)
next
  case False
  have "unat (0x3fff AND x :: s16) < 2 ^ 15" for x
  proof -
    have "0x3fff AND x \<le> (0x3fff :: s16)" by (rule word_and_le2)
    then show ?thesis by (simp add: word_le_nat_alt)
  qed
  with False show ?thesis by (auto simp: list_idx_def Let_def intro!: sint_16_nonneg)
qed

section \<open>The whole initialisation\<close>

lemma core_list_init_total:
  assumes B: "0 < B" and n: "n = unat (list_size blksize)" "3 \<le> n" "n < 163840"
  shows "\<exists>S' xs. core_list_init S blksize B seed = Some (S', B) \<and> wf S' B xs \<and> length xs = n - 1
    \<and> (\<forall>x \<in> set xs. \<exists>j < n. x = cell B j \<and> info S' x = item B n j)
    \<and> (\<forall>x \<in> set xs. regen (data16 S' (info S' x)) = data16 S' (info S' x))
    \<and> sorted (map (\<lambda>x. sint (idx S' (info S' x))) xs)
    \<and> mset (map (\<lambda>x. idx S' (info S' x)) xs) = mset (init_indices n seed)"
proof -
  define sz where "sz = list_size blksize"
  have nsz: "unat sz = n" "of_nat n = sz" using n(1) by (simp_all add: sz_def)
  have me: "B + 8 * n = cell B n" "cell B n + 4 * n = item B n n" "B + 8 = cell B 1" "cell B n + 4 = item B n 1" "item B n 0 = cell B n"
    by (simp_all add: cell_def item_def)
  define S0 where "S0 = S\<lparr>nxt := (nxt S)(B := 0), info := (info S)(B := cell B n),
      data16 := (data16 S)(cell B n := 0x8080), idx := (idx S)(cell B n := 0)\<rparr>"
  have cB: "cell B 0 = B" by (simp add: cell_def)
  have b0: "built B n S0 0"
    using cB me(5) by (simp add: built_def S0_def order_def regen_ends)
  have "Suc (Suc 0) < n" using n(2) by simp
  then obtain S1 where S1: "core_list_insert_new S0 B 0xffff 0x7fff (cell B 1) (item B n 1) (cell B n) (item B n n)
      = Some (S1, cell B 2, item B n 2, cell B 1)" "built B n S1 1"
    using insert_new_built [where i = 32767 and d = 65535, OF b0 B _ regen_ends(2)] by (auto simp: numeral_2_eq_2)
  obtain S2 where S2: "for_range 0 n (insert_round B seed (cell B n) (item B n n)) (S1, cell B 2, item B n 2)
      = Some (S2, cell B (n - 1), item B n (n - 1))" "built B n S2 (n - 2)"
    using insert_rounds [OF S1(2) B n(2)] by blast
  define k where "k = n - 2"
  have k: "1 \<le> k" "k < n" using n(2) by (simp_all add: k_def)
  have b2: "built B n S2 k" using S2(2) by (simp add: k_def)
  define xs where "xs = rev (map (cell B) [2..<Suc k])"
  have o: "order B k = B # xs @ [cell B 1]" using order_split [OF k(1)] cB by (simp add: xs_def)
  have seg: "lseg (nxt S2) B (B # xs @ [cell B 1]) 0" using b2 o by (simp add: built_def)
  have cok: "cells_ok (B # xs @ [cell B 1])" using order_ok(1) [OF B, of k] o by simp
  have inf: "info S2 (cell B j) = item B n j" if "j \<le> k" for j using b2 that by (simp add: built_def)
  have wf2: "wf S2 B (order B k)"
    using b2 order_ok(1) [OF B] order_set inf B by (auto simp: wf_def built_def)
  have injo: "inj_on (info S2) (set (order B k))"
    using inf by (auto simp: inj_on_def order_set)
  then have inj: "inj_on (info S2) (set xs)" by (rule inj_on_subset) (auto simp: o)
  obtain ix where ix: "index_loop (nxt S2) (info S2) sz seed (idx S2) (nxt S2 B) 1 = Some ix"
    "map (\<lambda>x. ix (info S2 x)) xs = map (\<lambda>j. list_idx sz seed (1 + of_nat j)) [0..<length xs]"
    "\<forall>q. q \<notin> info S2 ` set xs \<longrightarrow> ix q = idx S2 q"
  proof -
    have "lseg (nxt S2) (nxt S2 B) (xs @ [cell B 1]) 0" "cells_ok (xs @ [cell B 1])" using seg cok by simp_all
    moreover have "\<forall>x \<in> set xs. info S2 x \<noteq> 0" using wf2 o by (simp add: wf_def)
    ultimately show ?thesis using index_loop_lseg [OF _ _ _ inj, of _ _ _ sz seed "idx S2" 1] that by blast
  qed
  have ends: "ix (info S2 B) = 0" "ix (info S2 (cell B 1)) = 0x7fff"
  proof -
    have "info S2 B \<notin> info S2 ` set xs" "info S2 (cell B 1) \<notin> info S2 ` set xs"
      using injo cok unfolding o by (auto simp: inj_on_def)
    moreover have "info S2 B = item B n 0" "info S2 (cell B 1) = item B n 1" using inf [of 0] inf [of 1] k cB by simp_all
    ultimately show "ix (info S2 B) = 0" "ix (info S2 (cell B 1)) = 0x7fff"
      using ix(3) b2 k(1) by (auto simp: built_def)
  qed
  have len: "length xs = n - 3"
    using n(2) unfolding xs_def k_def length_rev length_map length_upt by linarith
  have idxs: "map (\<lambda>x. ix (info S2 x)) (order B k) = init_indices n seed"
    using ix(2) ends len by (simp add: o init_indices_def nsz(2) del: map_map rev_map)
  let ?S = "S2\<lparr>idx := ix\<rparr>"
  have wf3: "wf ?S B (order B k)" using wf2 by (simp add: wf_def)
  have reg: "regen (data16 ?S (info ?S x)) = data16 ?S (info ?S x)" if "x \<in> set (order B k)" for x
    using that b2 inf by (auto simp: order_set built_def)
  have df: "data_frame (data16 ?S) (info ?S ` set (order B k)) (data16 ?S)" by (simp add: data_frame_def)
  have l2: "2 \<le> length (order B k)" "length (order B k) < 2 ^ 31" using order_ok(2) [of B k] k n(3) by simp_all
  let ?f = "\<lambda>x. sint (ix (info S2 x))"
  obtain nx zs where so: "core_list_mergesort (cmp_idx ix True) (info S2) (nxt S2) B (data16 S2) = Some (nx, hd0 zs, data16 S2)"
    "lseg nx (hd0 zs) zs 0" "cells_ok zs" "zs = sort_key ?f (order B k)"
    using sort_idx_total [OF wf3 l2 df reg] by auto
  have zset: "set zs = set (order B k)" "mset zs = mset (order B k)" "length zs = Suc k"
    using so(4) order_ok(2) [of B k] by simp_all
  have "\<forall>x \<in> set (order B k). 0 \<le> ?f x"
  proof -
    have "\<forall>v \<in> set (init_indices n seed). 0 \<le> sint v"
      using list_idx_nonneg [of "of_nat n"] n(3) nsz by (auto simp: init_indices_def)
    then show ?thesis unfolding idxs [symmetric] by simp
  qed
  then have "zs = B # sort_key ?f (xs @ [cell B 1])"
    using ends(1) unfolding so(4) o by (simp add: insort_is_Cons)
  then have hd: "hd0 zs = B" by simp
  let ?T = "S2\<lparr>nxt := nx, data16 := data16 S2, idx := ix\<rparr>"
  have init: "core_list_init S blksize B seed = Some (?T, B)"
  proof -
    have c: "copy_info (S\<lparr>nxt := (nxt S)(B := 0), info := (info S)(B := cell B n)\<rparr>) (cell B n) 0x8080 0 = Some S0"
      using B by (simp add: copy_info_def S0_def)
    have f: "fld (nxt S2) B = Some (nxt S2 B)" using B by simp
    show ?thesis
      unfolding core_list_init_def sz_def [symmetric] Let_def nsz(1) me
      using B c S1(1) S2(1) f ix(1) so(1) hd by (simp add: me cB)
  qed
  moreover have "wf ?T B zs" using so(2,3) hd wf2 zset(1) by (simp add: wf_def)
  moreover have "\<forall>x \<in> set zs. \<exists>j < n. x = cell B j \<and> info ?T x = item B n j"
    using inf k(2) unfolding zset(1) order_set by auto
  moreover have "\<forall>x \<in> set zs. regen (data16 ?T (info ?T x)) = data16 ?T (info ?T x)"
    using reg unfolding zset(1) by simp
  moreover have "sorted (map (\<lambda>x. sint (idx ?T (info ?T x))) zs)" using so(4) by simp
  moreover have "mset (map (\<lambda>x. idx ?T (info ?T x)) zs) = mset (init_indices n seed)"
    using zset(2) unfolding idxs [symmetric] by simp
  moreover have "length zs = n - 1" using zset(3) n(2) by (simp add: k_def)
  ultimately show ?thesis by blast
qed

section \<open>Properties\<close>

text \<open>C3: \<open>core_list_mergesort\<close> with the data comparison: although the comparison computes keys on
  the fly, runs the other benchmarks and rewrites the items while the list is being relinked, the
  sort ends, returns exactly the cells it was given, relinked in place, ordered stably by their
  final cached values, all of which are known; the upper bytes of the items, the other cells and the
  inputs of the run do not change.\<close>

theorem core_list_sorted_by_data:
  assumes "wf S l ys" "2 \<le> length ys" "length ys < 2 ^ 31" "res_ok res"
  shows "\<exists>nx zs d res'. core_list_mergesort cmp_complex (info S) (nxt S) l (data16 S, res) = Some (nx, hd0 zs, d, res')
    \<and> wf (S\<lparr>nxt := nx, data16 := d\<rparr>) (hd0 zs) zs
    \<and> zs = sort_key (\<lambda>z. sint (d (info S z) AND 0x7f)) ys \<and> (\<forall>z \<in> set zs. bit (d (info S z)) 7)
    \<and> data_frame (data16 S) (info S ` set ys) d \<and> res_ok res' \<and> res_inputs res' = res_inputs res
    \<and> (\<forall>x. x \<notin> set ys \<longrightarrow> nx x = nxt S x)"
proof -
  have "ys \<noteq> []" "data_frame (data16 S) (info S ` set ys) (data16 S)" using assms(2) by (auto simp: data_frame_def)
  from sort_complex_total [OF assms(1) this(1) assms(3,4) this(2)] assms(2) show ?thesis by blast
qed

text \<open>\<open>core_list_mergesort\<close> with the index comparison and no results structure is the stable
  sort by index, and it regenerates the data of every item from its upper byte.\<close>

theorem core_list_sorted_by_idx:
  assumes "wf S l ys" "2 \<le> length ys" "length ys < 2 ^ 31"
  shows "\<exists>nx zs d. core_list_mergesort (cmp_idx (idx S) True) (info S) (nxt S) l (data16 S) = Some (nx, hd0 zs, d)
    \<and> lseg nx (hd0 zs) zs 0 \<and> cells_ok zs \<and> zs = sort_key (\<lambda>x. sint (idx S (info S x))) ys
    \<and> (\<forall>x \<in> set zs. d (info S x) = regen (data16 S (info S x)))
    \<and> (\<forall>p. p \<notin> info S ` set ys \<longrightarrow> d p = data16 S p)"
proof -
  let ?D = "\<lambda>p. if p \<in> info S ` set ys then regen (data16 S p) else data16 S p"
  have "data_frame ?D (info S ` set ys) (data16 S)" by (auto simp: data_frame_def regen_props)
  moreover have "\<And>x. x \<in> set ys \<Longrightarrow> regen (?D (info S x)) = ?D (info S x)" by (auto simp: regen_props)
  ultimately obtain nx zs where r:
    "core_list_mergesort (cmp_idx (idx S) True) (info S) (nxt S) l (data16 S) = Some (nx, hd0 zs, ?D)"
    "lseg nx (hd0 zs) zs 0" "cells_ok zs" "zs = sort_key (\<lambda>x. sint (idx S (info S x))) ys"
    using sort_idx_total [OF assms, of ?D] by blast
  moreover have "set zs = set ys" unfolding r(4) by simp
  ultimately show ?thesis by (intro exI [of _ nx] exI [of _ zs] exI [of _ ?D]) auto
qed

text \<open>C1: a run of \<open>core_bench_list\<close> stays inside the list, ends, and gives the list store back
  exactly as it found it, links, item pointers, data and indices alike, although it reverses the list
  and moves cells in every search, sorts it by data, removes a cell and puts it back. This holds for
  every list of at least three cells that is sorted by distinct indices and has regenerated data,
  whatever the uninitialised search item holds, and for a results structure that meets \<open>res_ok\<close>: the
  input of the state machine has two zeros in a row, its corruption can be undone, and no sum of
  the matrix benchmark leaves 32 bits, which is what the items call during the sort.\<close>

theorem core_bench_list_restores:
  assumes "wf S (res_list res) xs" "3 \<le> length xs" "length xs < 2 ^ 31" "res_ok res"
    and "\<forall>x \<in> set xs. regen (data16 S (info S x)) = data16 S (info S x)"
    and "sorted (map (\<lambda>x. sint (idx S (info S x))) xs)" "distinct (map (\<lambda>x. idx S (info S x)) xs)"
  shows "\<exists>retval res'. core_bench_list junk S res finder_idx = Some (retval, S, res') \<and> res_ok res'
    \<and> res_inputs res' = res_inputs res"
proof -
  have "inj_on (\<lambda>x. sint (idx S (info S x))) (set xs)"
    using assms(7) by (auto simp: distinct_map inj_on_def dest!: signed_word_eqI)
  then show ?thesis using core_bench_list_total [OF assms(1-4) _ assms(6)] assms(5) by blast
qed

text \<open>The cells (two pointers, eight bytes) and the items (two \<open>ee_s16\<close>, four bytes) of a list lie in
  a block of \<open>sz\<close> bytes at \<open>B\<close>, and no two of them share a byte.\<close>

definition list_placed :: "ptr \<Rightarrow> nat \<Rightarrow> list_store \<Rightarrow> ptr list \<Rightarrow> bool" where
  "list_placed B sz S xs \<longleftrightarrow>
     (\<forall>x \<in> set xs. B \<le> x \<and> x + 8 \<le> B + sz \<and> B \<le> info S x \<and> info S x + 4 \<le> B + sz) \<and>
     (\<forall>x \<in> set xs. \<forall>y \<in> set xs. x + 8 \<le> info S y \<or> info S y + 4 \<le> x) \<and>
     (\<forall>x \<in> set xs. \<forall>y \<in> set xs. x \<noteq> y \<longrightarrow>
        (x + 8 \<le> y \<or> y + 8 \<le> x) \<and> (info S x + 4 \<le> info S y \<or> info S y + 4 \<le> info S x))"

lemma cells_placed:
  assumes "\<forall>x \<in> set xs. \<exists>j < n. x = cell B j \<and> info S x = item B n j" "12 * n \<le> sz"
  shows "list_placed B sz S xs"
proof -
  obtain j where j: "\<And>x. x \<in> set xs \<Longrightarrow> j x < n \<and> x = cell B (j x) \<and> info S x = item B n (j x)"
    using assms(1) by metis
  have io: "B \<le> x \<and> x + 8 \<le> B + sz \<and> B \<le> info S x \<and> info S x + 4 \<le> B + sz" if "x \<in> set xs" for x
    using j [OF that] assms(2) by (simp only: cell_def item_def) linarith
  have ci: "x + 8 \<le> info S y" if "x \<in> set xs" "y \<in> set xs" for x y
    using j [OF that(1)] j [OF that(2)] by (simp only: cell_def item_def) linarith
  have "(x + 8 \<le> y \<or> y + 8 \<le> x) \<and> (info S x + 4 \<le> info S y \<or> info S y + 4 \<le> info S x)"
    if "x \<in> set xs" "y \<in> set xs" "x \<noteq> y" for x y
  proof -
    have "j x < j y \<or> j y < j x" using j [OF that(1)] j [OF that(2)] that(3) by (metis nat_neq_iff)
    then show ?thesis
      using j [OF that(1)] j [OF that(2)] by (simp only: cell_def item_def) linarith
  qed
  with io ci show ?thesis unfolding list_placed_def by blast
qed

lemma core_list_init_small:
  assumes "0 < B" "100 \<le> unat blksize" "unat blksize < 3000000"
  shows "\<exists>S' xs. core_list_init S blksize B seed = Some (S', B) \<and> wf S' B xs
    \<and> length xs = unat blksize div 20 - 3
    \<and> list_placed B (unat blksize) S' xs
    \<and> (\<forall>x \<in> set xs. regen (data16 S' (info S' x)) = data16 S' (info S' x))
    \<and> sorted (map (\<lambda>x. sint (idx S' (info S' x))) xs)
    \<and> mset (map (\<lambda>x. idx S' (info S' x)) xs) = mset (init_indices (unat blksize div 20 - 2) seed)"
proof -
  let ?n = "unat blksize div 20 - 2"
  have "unat (blksize div 20) = unat blksize div 20" by (simp add: unat_div)
  moreover from this have "2 \<le> blksize div 20" using assms(2) by (simp add: word_le_nat_alt)
  ultimately have n: "?n = unat (list_size blksize)" by (simp add: list_size_def unat_sub)
  have "100 div 20 \<le> unat blksize div 20" using assms(2) by (rule div_le_mono)
  moreover have "20 * (unat blksize div 20) \<le> unat blksize" by simp
  ultimately have b: "3 \<le> ?n" "?n < 163840" "12 * ?n \<le> unat blksize" using assms(3) by linarith+
  obtain S' xs where r: "core_list_init S blksize B seed = Some (S', B)" "wf S' B xs" "length xs = ?n - 1"
    "\<forall>x \<in> set xs. \<exists>j < ?n. x = cell B j \<and> info S' x = item B ?n j"
    "\<forall>x \<in> set xs. regen (data16 S' (info S' x)) = data16 S' (info S' x)"
    "sorted (map (\<lambda>x. sint (idx S' (info S' x))) xs)"
    "mset (map (\<lambda>x. idx S' (info S' x)) xs) = mset (init_indices ?n seed)"
    using core_list_init_total [OF assms(1) n b(1,2)] by blast
  have "list_placed B (unat blksize) S' xs" by (rule cells_placed [OF r(4) b(3)])
  with r show ?thesis by auto
qed

text \<open>\<open>core_list_init\<close> on a block of at least 100 bytes builds a list of two cells less than the
  block has room for plus the head, with every cell and every item inside the block, regenerated
  data, sorted by the indices it gave out, with the head still in front.\<close>

theorem core_list_init_ok:
  assumes "0 < B" "100 \<le> unat blksize" "unat blksize < 3000000"
  shows "\<exists>S' xs. core_list_init S blksize B seed = Some (S', B) \<and> wf S' B xs
    \<and> length xs = unat blksize div 20 - 3
    \<and> list_placed B (unat blksize) S' xs
    \<and> (\<forall>x \<in> set xs. regen (data16 S' (info S' x)) = data16 S' (info S' x))
    \<and> sorted (map (\<lambda>x. sint (idx S' (info S' x))) xs)
    \<and> mset (map (\<lambda>x. idx S' (info S' x)) xs) = mset (init_indices (unat blksize div 20 - 2) seed)"
  using assms by (rule core_list_init_small)

text \<open>The indices of the standard runs are distinct: the 2000-byte block shared by three algorithms
  with the seeds of the performance and the validation run, and the 1200 bytes of the profile run.\<close>

lemma standard_indices:
  "distinct (init_indices 31 0)" "distinct (init_indices 31 0x3415)" "distinct (init_indices 18 8)"
  by code_simp+

text \<open>C6: on the list \<open>core_list_init\<close> builds, \<open>core_bench_list\<close> leaves every field of the
  list as it was, provided the generated indices are distinct, which they are for the three standard
  configurations of the benchmark, and the results structure meets the conditions of a run
  (\<open>res_ok\<close>: the input of the state machine can be restored, no sum of the matrices overflows).\<close>

theorem generated_list_restored:
  assumes "0 < B" "120 \<le> unat blksize" "unat blksize < 3000000"
    and "distinct (init_indices (unat blksize div 20 - 2) seed)" "res_ok res" "res_list res = B"
  shows "(\<exists>S' retval res'. core_list_init S blksize B seed = Some (S', B) \<and>
            core_bench_list junk S' res finder_idx = Some (retval, S', res')) \<and>
         distinct (init_indices 31 0) \<and> distinct (init_indices 31 0x3415) \<and> distinct (init_indices 18 8)"
proof -
  have "100 \<le> unat blksize" using assms(2) by simp
  then obtain S' xs where i: "core_list_init S blksize B seed = Some (S', B)" "wf S' B xs"
    "length xs = unat blksize div 20 - 3"
    "\<forall>x \<in> set xs. regen (data16 S' (info S' x)) = data16 S' (info S' x)"
    "sorted (map (\<lambda>x. sint (idx S' (info S' x))) xs)"
    "mset (map (\<lambda>x. idx S' (info S' x)) xs) = mset (init_indices (unat blksize div 20 - 2) seed)"
    using core_list_init_small [OF assms(1) _ assms(3)] by blast
  have "120 div 20 \<le> unat blksize div 20" using assms(2) by (rule div_le_mono)
  then have len: "3 \<le> length xs" "length xs < 2 ^ 31" using i(3) assms(3) by simp_all
  have "distinct (map (\<lambda>x. idx S' (info S' x)) xs)"
    using assms(4) i(6) mset_eq_imp_distinct_iff by blast
  then have "inj_on (\<lambda>x. sint (idx S' (info S' x))) (set xs)"
    by (auto simp: distinct_map inj_on_def dest!: signed_word_eqI)
  then obtain rv res' where "core_bench_list junk S' res finder_idx = Some (rv, S', res')"
    using core_bench_list_total [of S' res xs junk finder_idx] i(2,4,5) assms(5,6) len by blast
  with i(1) standard_indices show ?thesis by blast
qed

section \<open>A concrete list and run\<close>

definition example_store :: list_store where
  "example_store = \<lparr>nxt = (\<lambda>_. 0)(4 := 12, 12 := 20), info = (\<lambda>_. 0)(4 := 100, 12 := 104, 20 := 108),
     data16 = (\<lambda>_. 0)(100 := 0x8080, 104 := 0x0909, 108 := 0xffff), idx = (\<lambda>_. 0)(104 := 1, 108 := 0x7fff)\<rparr>"

definition example_res :: core_results where
  "example_res = \<lparr>seed1 = 0x3415, seed2 = 0x3415, seed3 = 2, memblock3 = [0x35, 0x2c, 0, 0], res_size = 4,
     iterations = 1, execs = 7, res_list = 4,
     mat = \<lparr>mat_N = 2, mat_A = [1, 2, 3, 4], mat_B = [5, 6, 7, 8], mat_C = [0, 0, 0, 0]\<rparr>,
     crc = 0, crclist = 0, crcmatrix = 0, crcstate = 0, err = 0\<rparr>"

lemma example_wf: "wf example_store 4 [4, 12, 20]"
  by (simp add: wf_def example_store_def)

lemma example_res_ok: "res_ok example_res"
proof -
  have "undoable (unat (4 :: u32)) (ucast (0x3415 :: s16)) [0x35, 0x2c, 0, 0]" by (simp add: undoable_def)
  moreover have "matrices_ok (mat example_res)"
    unfolding matrices_ok_def example_res_def
    by (auto intro!: small_mat_fits nibble_twice_byte)
  ultimately show ?thesis by (auto simp: res_ok_def example_res_def intro!: exI [of _ 2])
qed

lemma core_list_sorted_by_data_witness:
  "\<exists>nx zs d res'. core_list_mergesort cmp_complex (info example_store) (nxt example_store) 4 (data16 example_store, example_res)
      = Some (nx, hd0 zs, d, res')
    \<and> zs = sort_key (\<lambda>z. sint (d (info example_store z) AND 0x7f)) [4, 12, 20]"
  using core_list_sorted_by_data [OF example_wf _ _ example_res_ok] by fastforce

lemma core_list_sorted_by_idx_witness:
  "\<exists>nx zs d. core_list_mergesort (cmp_idx (idx example_store) True) (info example_store) (nxt example_store) 4 (data16 example_store)
      = Some (nx, hd0 zs, d)
    \<and> zs = sort_key (\<lambda>x. sint (idx example_store (info example_store x))) [4, 12, 20]"
  using core_list_sorted_by_idx [OF example_wf] by fastforce

lemma example_regen: "\<forall>x \<in> set [4, 12, 20]. regen (data16 example_store (info example_store x)) = data16 example_store (info example_store x)"
proof -
  have "regen 0x0909 = 0x0909" by code_simp
  then show ?thesis using regen_ends by (simp add: example_store_def)
qed

lemma core_bench_list_restores_witness:
  "\<exists>retval res'. core_bench_list 0 example_store example_res 1 = Some (retval, example_store, res')"
proof -
  have "res_list example_res = 4" by (simp add: example_res_def)
  moreover have "sorted (map (\<lambda>x. sint (idx example_store (info example_store x))) [4, 12, 20])"
    "distinct (map (\<lambda>x. idx example_store (info example_store x)) [4, 12, 20])"
    by (simp_all add: example_store_def)
  ultimately show ?thesis
    using core_bench_list_restores [of example_store example_res "[4, 12, 20]" 0 1] example_wf example_res_ok example_regen
    by auto
qed

lemma core_list_init_ok_witness:
  "\<exists>S' xs. core_list_init example_store 666 4 0 = Some (S', 4) \<and> wf S' 4 xs \<and> length xs = 30"
  using core_list_init_ok [of 4 666 example_store 0] by auto

lemma generated_list_restored_witness:
  "\<exists>S' retval res'. core_list_init example_store 666 4 0x3415 = Some (S', 4)
    \<and> core_bench_list 0 S' example_res 1 = Some (retval, S', res')"
  using generated_list_restored [where B = 4 and blksize = 666 and seed = 13333 and res = example_res and S = example_store
      and junk = 0 and finder_idx = 1] example_res_ok standard_indices(2)
  by (auto simp: example_res_def)

section \<open>Where the comments and the code part\<close>

text \<open>The comment in the sort allows for the empty list, but the statement before it writes through
  \<open>tail\<close>, which is still null then.\<close>

lemma mergesort_empty_list: "core_list_mergesort cmp fo nx 0 s = None"
  by (subst core_list_mergesort_def, subst sort_loop.simps, subst pass_loop.simps) simp

text \<open>The loops announced as a CRC of the data content of the list fold the item of the list head
  once per cell and never look at the data of the others.\<close>

lemma crc_loop_head_only:
  assumes "lseg (nxt S) p xs 0" "cells_ok xs" "data_at S l = Some d"
  shows "crc_loop S l p r = Some ((crc16 d ^^ length xs) r)"
  using assms
proof (induction xs arbitrary: p r)
  case Nil
  then show ?case by (subst crc_loop.simps) simp
next
  case (Cons x xs)
  then show ?case by (subst crc_loop.simps) (auto simp: funpow_swap1)
qed

end
