(* ===== verification/Harness.thy ===== *)
theory Harness
  imports Prelude
begin

text \<open>
  The program every benchmark is linked with: \<open>src/generic/main.c\<close>, the measurement library
  \<open>src/lib/bench/bench.c\<close> and \<open>src/lib/support/exit.c\<close>. The benchmark is a parameter, the four
  functions \<open>mlonmcu_init\<close>, \<open>mlonmcu_run\<close>, \<open>mlonmcu_check\<close> and \<open>mlonmcu_deinit\<close>; so are the target's
  counters: \<open>clk k n\<close> is what metric \<open>k\<close> reads in the \<open>n\<close>-th call of \<open>start_bench\<close> or \<open>stop_bench\<close>.
\<close>

section \<open>Results\<close>

text \<open>A call returns or ends the program with \<open>exit\<close>.\<close>

datatype outcome = Returned s32 | Exited s32

section \<open>Measurements\<close>

definition BENCH_INIT :: nat where "BENCH_INIT = 0"
definition BENCH_RUN :: nat where "BENCH_RUN = 1"
definition BENCH_TOTAL :: nat where "BENCH_TOTAL = 2"
definition BENCH_DEINIT :: nat where "BENCH_DEINIT = 3"

datatype event = StartMsg | BenchLine nat nat u64 | FinishMsg | ExitMsg s32

text \<open>The arrays \<open>temp_0\<close>, \<open>temp_1\<close> and \<open>temp_2\<close>, one for each metric, the number of measurements
  so far and what was printed.\<close>

record bench =
  temp :: "u64 list list"
  reads :: nat
  printed :: "event list"

text \<open>\<open>ms\<close> lists the metrics the target has, in the order of the code: cycles, instructions, time.\<close>

fun store_values :: "(u64 \<Rightarrow> u64 \<Rightarrow> u64) \<Rightarrow> (nat \<Rightarrow> u64) \<Rightarrow> nat list \<Rightarrow> nat \<Rightarrow> u64 list list \<Rightarrow> u64 list list option" where
  "store_values f v [] index t = Some t"
| "store_values f v (k # ks) index t =
     do { row \<leftarrow> rd t k; old \<leftarrow> rd row index; row \<leftarrow> wr row index (f (v k) old); t \<leftarrow> wr t k row;
          store_values f v ks index t }"

definition start_bench :: "(nat \<Rightarrow> nat \<Rightarrow> u64) \<Rightarrow> nat list \<Rightarrow> nat \<Rightarrow> bench \<Rightarrow> bench option" where
  "start_bench clk ms index b =
     do { t \<leftarrow> store_values (\<lambda>now old. now) (\<lambda>k. clk k (reads b)) ms index (temp b);
          Some (b\<lparr>temp := t, reads := reads b + 1\<rparr>) }"

definition stop_bench :: "(nat \<Rightarrow> nat \<Rightarrow> u64) \<Rightarrow> nat list \<Rightarrow> nat \<Rightarrow> bench \<Rightarrow> bench option" where
  "stop_bench clk ms index b =
     do { t \<leftarrow> store_values (\<lambda>now old. now - old) (\<lambda>k. clk k (reads b)) ms index (temp b);
          Some (b\<lparr>temp := t, reads := reads b + 1\<rparr>) }"

datatype target_kind = ARA | LITEX | VICUNA | VICUNA2 | OTHER_TARGET

text \<open>\<open>BENCH_FMT\<close>: the number printed for a counter of 64 bits. With \<open>%u\<close>, on the two Vicuna targets, \<open>printf\<close> takes
  the low 32 bits of the argument, which comes in a pair of registers.\<close>

definition bench_fmt :: "target_kind \<Rightarrow> u64 \<Rightarrow> u64" where
  "bench_fmt tgt v = (if tgt = VICUNA \<or> tgt = VICUNA2 then ucast (ucast v :: u32) else v)"

fun print_bench :: "target_kind \<Rightarrow> nat list \<Rightarrow> nat \<Rightarrow> bench \<Rightarrow> bench option" where
  "print_bench tgt [] index b = Some b"
| "print_bench tgt (k # ks) index b =
     do { row \<leftarrow> rd (temp b) k; v \<leftarrow> rd row index;
          print_bench tgt ks index (b\<lparr>printed := printed b @ [BenchLine index k (bench_fmt tgt v)]\<rparr>) }"

section \<open>The end of the program\<close>

text \<open>The statuses of \<open>exit.h\<close>.\<close>

definition EXIT_MLIF_BASE :: s32 where "EXIT_MLIF_BASE = 0x10"
definition EXIT_MLIF_INVALID_SIZE :: s32 where "EXIT_MLIF_INVALID_SIZE = EXIT_MLIF_BASE + 1"
definition EXIT_MLIF_MISSMATCH :: s32 where "EXIT_MLIF_MISSMATCH = EXIT_MLIF_BASE + 2"

text \<open>On Vicuna the code jumps to address 0, which ends the simulation without a status.\<close>

datatype ending = RETURN s32 | EXIT s32 | JUMP_TO_ZERO

definition mlonmcu_exit :: "target_kind \<Rightarrow> s32 \<Rightarrow> bench \<Rightarrow> ending option \<times> bench" where
  "mlonmcu_exit tgt status b =
     (let b = b\<lparr>printed := printed b @ [ExitMsg status]\<rparr> in
      (case tgt of
         ARA \<Rightarrow> (None, b)
       | LITEX \<Rightarrow> (None, b)
       | VICUNA \<Rightarrow> (Some JUMP_TO_ZERO, b)
       | VICUNA2 \<Rightarrow> (Some (EXIT status), b)
       | OTHER_TARGET \<Rightarrow> (Some (EXIT status), b)))"

section \<open>The main program\<close>

record 'p benchmark =
  mlonmcu_init :: "'p \<Rightarrow> (outcome \<times> 'p) option"
  mlonmcu_run :: "'p \<Rightarrow> (outcome \<times> 'p) option"
  mlonmcu_check :: "'p \<Rightarrow> (outcome \<times> 'p) option"
  mlonmcu_deinit :: "'p \<Rightarrow> (outcome \<times> 'p) option"

text \<open>From the label \<open>cleanup\<close> on.\<close>

definition cleanup ::
  "target_kind \<Rightarrow> (nat \<Rightarrow> nat \<Rightarrow> u64) \<Rightarrow> nat list \<Rightarrow> s32 \<Rightarrow> 'p \<Rightarrow> bench \<Rightarrow> (ending \<times> 'p \<times> bench) option" where
  "cleanup tgt clk ms ret p b =
     do { b \<leftarrow> stop_bench clk ms BENCH_TOTAL b;
          b \<leftarrow> print_bench tgt ms BENCH_INIT b;
          b \<leftarrow> print_bench tgt ms BENCH_RUN b;
          b \<leftarrow> print_bench tgt ms BENCH_DEINIT b;
          b \<leftarrow> print_bench tgt ms BENCH_TOTAL b;
          let b = b\<lparr>printed := printed b @ [FinishMsg]\<rparr>;
          (case mlonmcu_exit tgt ret b of
             (None, b) \<Rightarrow> Some (RETURN ret, p, b)
           | (Some e, b) \<Rightarrow> Some (e, p, b)) }"

text \<open>A call of the benchmark: \<open>exit\<close> inside it ends the program, otherwise \<open>k\<close> goes on with the
  value returned.\<close>

definition call ::
  "('p \<Rightarrow> (outcome \<times> 'p) option) \<Rightarrow> (s32 \<Rightarrow> 'p \<Rightarrow> (ending \<times> 'p \<times> bench) option) \<Rightarrow> 'p \<Rightarrow> bench \<Rightarrow> (ending \<times> 'p \<times> bench) option" where
  "call f k p b =
     do { (out, p) \<leftarrow> f p;
          (case out of Exited c \<Rightarrow> Some (EXIT c, p, b) | Returned r \<Rightarrow> k r p) }"

text \<open>\<open>skip\<close> is \<open>MLONMCU_SKIP_CHECK\<close>.\<close>

definition main_program ::
  "bool \<Rightarrow> target_kind \<Rightarrow> (nat \<Rightarrow> nat \<Rightarrow> u64) \<Rightarrow> nat list \<Rightarrow> 'p benchmark \<Rightarrow> 'p \<Rightarrow> bench \<Rightarrow> (ending \<times> 'p \<times> bench) option" where
  "main_program skip tgt clk ms B p b =
     do { let b = b\<lparr>printed := printed b @ [StartMsg]\<rparr>;
          b \<leftarrow> start_bench clk ms BENCH_TOTAL b;
          b \<leftarrow> start_bench clk ms BENCH_INIT b;
          call (mlonmcu_init B) (\<lambda>ret p.
            do { b \<leftarrow> stop_bench clk ms BENCH_INIT b;
                 if ret \<noteq> 0 then cleanup tgt clk ms ret p b
                 else do {
                   b \<leftarrow> start_bench clk ms BENCH_RUN b;
                   call (mlonmcu_run B) (\<lambda>ret p.
                     do { b \<leftarrow> stop_bench clk ms BENCH_RUN b;
                          if ret \<noteq> 0 then cleanup tgt clk ms ret p b
                          else call (if skip then (\<lambda>p. Some (Returned ret, p)) else mlonmcu_check B) (\<lambda>ret p.
                            if ret \<noteq> 0 then cleanup tgt clk ms ret p b
                            else do {
                              b \<leftarrow> start_bench clk ms BENCH_DEINIT b;
                              call (mlonmcu_deinit B) (\<lambda>ret p.
                                do { b \<leftarrow> stop_bench clk ms BENCH_DEINIT b;
                                     cleanup tgt clk ms ret p b }) p b }) p b }) p b } }) p b }"

section \<open>What the program reports\<close>

text \<open>The steps of the benchmark in order, up to the first that fails.\<close>

fun steps :: "('p \<Rightarrow> (outcome \<times> 'p) option) list \<Rightarrow> 'p \<Rightarrow> (outcome \<times> 'p) option" where
  "steps [] p = Some (Returned 0, p)"
| "steps (f # fs) p =
     do { (out, p') \<leftarrow> f p;
          if out = Returned 0 then steps fs p' else Some (out, p') }"

definition the_steps :: "bool \<Rightarrow> 'p benchmark \<Rightarrow> ('p \<Rightarrow> (outcome \<times> 'p) option) list" where
  "the_steps skip B = [mlonmcu_init B, mlonmcu_run B] @ (if skip then [] else [mlonmcu_check B]) @ [mlonmcu_deinit B]"

definition final_ending :: "target_kind \<Rightarrow> outcome \<Rightarrow> ending" where
  "final_ending tgt out =
     (case out of Exited c \<Rightarrow> EXIT c
      | Returned r \<Rightarrow> if tgt \<in> {ARA, LITEX} then RETURN r else if tgt = VICUNA then JUMP_TO_ZERO else EXIT r)"

text \<open>The measurement arrays have the four entries of every metric.\<close>

definition bench_ok :: "nat list \<Rightarrow> bench \<Rightarrow> bool" where
  "bench_ok ms b \<longleftrightarrow> (\<forall>k\<in>set ms. k < length (temp b)) \<and> (\<forall>row\<in>set (temp b). length row = 4) \<and> distinct ms"

lemma store_values_ok:
  assumes "\<forall>k\<in>set ms. k < length t" "\<forall>row\<in>set t. length row = 4" "distinct ms" "index < 4"
  shows "store_values f v ms index t =
    Some (map (\<lambda>k. if k \<in> set ms then (t ! k)[index := f (v k) (t ! k ! index)] else t ! k) [0..<length t])"
  using assms
proof (induction ms arbitrary: t)
  case Nil
  then show ?case by (simp add: map_nth)
next
  case (Cons m ms)
  then have m: "m < length t" "length (t ! m) = 4" "m \<notin> set ms" by auto
  let ?t = "t[m := (t ! m)[index := f (v m) (t ! m ! index)]]"
  have "\<forall>row\<in>set ?t. length row = 4"
    using Cons.prems(2) m(2) by (auto dest!: set_update_subset_insert [THEN subsetD])
  then have "store_values f v ms index ?t =
      Some (map (\<lambda>k. if k \<in> set ms then (?t ! k)[index := f (v k) (?t ! k ! index)] else ?t ! k) [0..<length ?t])"
    using Cons.prems by (intro Cons.IH) auto
  moreover have "map (\<lambda>k. if k \<in> set ms then (?t ! k)[index := f (v k) (?t ! k ! index)] else ?t ! k) [0..<length ?t] =
      map (\<lambda>k. if k \<in> set (m # ms) then (t ! k)[index := f (v k) (t ! k ! index)] else t ! k) [0..<length t]"
    using m by (auto simp: nth_list_update)
  ultimately show ?case using m Cons.prems(4) by simp
qed

text \<open>What both routines leave in the arrays: \<open>f\<close> combines the counter with the old entry.\<close>

definition measured :: "(u64 \<Rightarrow> u64 \<Rightarrow> u64) \<Rightarrow> (nat \<Rightarrow> nat \<Rightarrow> u64) \<Rightarrow> nat list \<Rightarrow> nat \<Rightarrow> bench \<Rightarrow> bench" where
  "measured f clk ms index b =
     b\<lparr>temp := map (\<lambda>k. if k \<in> set ms then (temp b ! k)[index := f (clk k (reads b)) (temp b ! k ! index)]
                      else temp b ! k) [0..<length (temp b)],
       reads := reads b + 1\<rparr>"

lemma measured_simps [simp]:
  "reads (measured f clk ms index b) = reads b + 1"
  "printed (measured f clk ms index b) = printed b"
  "length (temp (measured f clk ms index b)) = length (temp b)"
  by (simp_all add: measured_def)

lemma measured_ok [intro]: "bench_ok ms b \<Longrightarrow> bench_ok ms (measured f clk ms index b)"
  by (auto simp: bench_ok_def measured_def)

lemma bench_okD: "bench_ok ms b \<Longrightarrow> k \<in> set ms \<Longrightarrow> k < length (temp b) \<and> length (temp b ! k) = 4"
  by (auto simp: bench_ok_def)

lemma bench_ok_printed [simp]: "bench_ok ms (b\<lparr>printed := ps\<rparr>) \<longleftrightarrow> bench_ok ms b"
  by (simp add: bench_ok_def)

lemma measured_entry [simp]:
  assumes "bench_ok ms b" "k \<in> set ms" "index < 4"
  shows "temp (measured f clk ms index b) ! k ! i =
    (if i = index then f (clk k (reads b)) (temp b ! k ! index) else temp b ! k ! i)"
  using bench_okD [OF assms(1,2)] assms(2,3) by (simp add: measured_def)

lemma start_bench_ok [simp]:
  "bench_ok ms b \<Longrightarrow> index < 4 \<Longrightarrow> start_bench clk ms index b = Some (measured (\<lambda>now old. now) clk ms index b)"
  by (simp add: start_bench_def measured_def bench_ok_def store_values_ok)

lemma stop_bench_ok [simp]:
  "bench_ok ms b \<Longrightarrow> index < 4 \<Longrightarrow> stop_bench clk ms index b = Some (measured (\<lambda>now old. now - old) clk ms index b)"
  by (simp add: stop_bench_def measured_def bench_ok_def store_values_ok)

lemma print_bench_ok:
  assumes "\<forall>k\<in>set ks. k < length (temp b) \<and> length (temp b ! k) = 4" "index < 4"
  shows "print_bench tgt ks index b =
    Some (b\<lparr>printed := printed b @ map (\<lambda>k. BenchLine index k (bench_fmt tgt (temp b ! k ! index))) ks\<rparr>)"
  using assms by (induction ks arbitrary: b) simp_all

lemma print_bench_bench_ok [simp]:
  "bench_ok ms b \<Longrightarrow> index < 4 \<Longrightarrow> print_bench tgt ms index b =
    Some (b\<lparr>printed := printed b @ map (\<lambda>k. BenchLine index k (bench_fmt tgt (temp b ! k ! index))) ms\<rparr>)"
  by (rule print_bench_ok) (auto dest: bench_okD)

lemmas bench_index_defs = BENCH_INIT_def BENCH_RUN_def BENCH_TOTAL_def BENCH_DEINIT_def

lemmas bench_index [simp] =
  BENCH_INIT_def [THEN arg_cong, of "\<lambda>i. i < 4", simplified] BENCH_RUN_def [THEN arg_cong, of "\<lambda>i. i < 4", simplified]
  BENCH_TOTAL_def [THEN arg_cong, of "\<lambda>i. i < 4", simplified] BENCH_DEINIT_def [THEN arg_cong, of "\<lambda>i. i < 4", simplified]

text \<open>The lines printed from \<open>cleanup\<close> on, given the arrays after the last measurement.\<close>

definition bench_report :: "target_kind \<Rightarrow> nat list \<Rightarrow> u64 list list \<Rightarrow> s32 \<Rightarrow> event list" where
  "bench_report tgt ms t ret =
     concat (map (\<lambda>i. map (\<lambda>k. BenchLine i k (bench_fmt tgt (t ! k ! i))) ms) [BENCH_INIT, BENCH_RUN, BENCH_DEINIT, BENCH_TOTAL]) @
     [FinishMsg, ExitMsg ret]"

lemma cleanup_ok:
  assumes "bench_ok ms b"
  shows "cleanup tgt clk ms ret p b =
    (let m = measured (\<lambda>now old. now - old) clk ms BENCH_TOTAL b in
     Some (final_ending tgt (Returned ret), p, m\<lparr>printed := printed b @ bench_report tgt ms (temp m) ret\<rparr>))"
  using assms measured_ok [OF assms]
  by (cases tgt) (simp_all add: cleanup_def Let_def bench_report_def mlonmcu_exit_def final_ending_def)

text \<open>A run in which every step succeeds takes the eight readings in a fixed order.\<close>

definition successful_run :: "(nat \<Rightarrow> nat \<Rightarrow> u64) \<Rightarrow> nat list \<Rightarrow> bench \<Rightarrow> bench" where
  "successful_run clk ms b =
     (let start = measured (\<lambda>now old. now) clk ms; stop = measured (\<lambda>now old. now - old) clk ms in
      stop BENCH_TOTAL (stop BENCH_DEINIT (start BENCH_DEINIT (stop BENCH_RUN (start BENCH_RUN
        (stop BENCH_INIT (start BENCH_INIT (start BENCH_TOTAL (b\<lparr>printed := printed b @ [StartMsg]\<rparr>)))))))))"

lemma steps_Returned_0:
  assumes "steps (the_steps skip B) p = Some (Returned 0, q)"
  obtains p1 p2 p3 where "mlonmcu_init B p = Some (Returned 0, p1)" "mlonmcu_run B p1 = Some (Returned 0, p2)"
    "if skip then p3 = p2 else mlonmcu_check B p2 = Some (Returned 0, p3)" "mlonmcu_deinit B p3 = Some (Returned 0, q)"
  using assms by (auto simp: the_steps_def split: prod.splits outcome.splits if_splits Option.bind_splits)

lemma main_successful:
  assumes "bench_ok ms b" "steps (the_steps skip B) p = Some (Returned 0, q)"
  shows "main_program skip tgt clk ms B p b = Some (final_ending tgt (Returned 0), q,
    (successful_run clk ms b)\<lparr>printed := printed b @ [StartMsg] @ bench_report tgt ms (temp (successful_run clk ms b)) 0\<rparr>)"
proof -
  note ok = measured_ok [of ms]
  obtain p1 p2 p3 where "mlonmcu_init B p = Some (Returned 0, p1)" "mlonmcu_run B p1 = Some (Returned 0, p2)"
    "if skip then p3 = p2 else mlonmcu_check B p2 = Some (Returned 0, p3)" "mlonmcu_deinit B p3 = Some (Returned 0, q)"
    using assms(2) by (rule steps_Returned_0)
  then show ?thesis using assms(1)
    by (simp add: main_program_def call_def ok cleanup_ok Let_def successful_run_def split: if_splits)
qed

lemma successful_run_entries:
  assumes "bench_ok ms b" "reads b = 0" "k \<in> set ms"
  shows "temp (successful_run clk ms b) ! k ! BENCH_INIT = clk k 2 - clk k 1"
    "temp (successful_run clk ms b) ! k ! BENCH_RUN = clk k 4 - clk k 3"
    "temp (successful_run clk ms b) ! k ! BENCH_DEINIT = clk k 6 - clk k 5"
    "temp (successful_run clk ms b) ! k ! BENCH_TOTAL = clk k 7 - clk k 0"
  using assms by (simp_all add: successful_run_def Let_def measured_ok bench_index_defs eval_nat_numeral)

lemma unat_elapsed:
  "m \<le> n \<Longrightarrow> n - m < 2 ^ 64 \<Longrightarrow> unat (word_of_nat n - word_of_nat m :: u64) = n - m"
  by (simp flip: of_nat_diff add: unat_of_nat)

lemma main_follows_steps:
  assumes "bench_ok ms b"
  shows "map_option (\<lambda>(e, q, b'). (e, q)) (main_program skip tgt clk ms B p b) =
    map_option (\<lambda>(out, q). (final_ending tgt out, q)) (steps (the_steps skip B) p)"
  using assms measured_ok [OF assms]
  by (auto simp: main_program_def the_steps_def call_def cleanup_ok measured_ok Let_def final_ending_def
      split: prod.split outcome.split Option.bind_split)

lemma main_by_steps:
  assumes "bench_ok ms b" "steps (the_steps skip B) p = Some (out, q)"
  shows "\<exists>b'. main_program skip tgt clk ms B p b = Some (final_ending tgt out, q, b')"
  using main_follows_steps [OF assms(1), of skip tgt clk B p] assms(2) by auto

section \<open>Properties\<close>

text \<open>C17: \<open>main\<close> never leaves the measurement arrays, whatever the benchmark does, and ends with the
  first status that is not 0: it runs the steps in order, the check only if it is compiled in, stops
  at the first that fails or calls \<open>exit\<close>, and passes that step's value to \<open>mlonmcu_exit\<close> (on the
  targets that do not end there it returns it). It adds no fault and no endless loop of its own.\<close>

theorem main_status:
  assumes "bench_ok ms b"
  shows "map_option (\<lambda>(e, q, b'). (e, q)) (main_program skip tgt clk ms B p b) =
    map_option (\<lambda>(out, q). (final_ending tgt out, q)) (steps (the_steps skip B) p)"
  using assms by (rule main_follows_steps)

lemma unat_bench_fmt:
  "unat (bench_fmt tgt v) = (if tgt = VICUNA \<or> tgt = VICUNA2 then unat v mod 2 ^ 32 else unat v)"
  by (simp add: bench_fmt_def unsigned_ucast_eq take_bit_eq_mod unat_mod_distrib)

text \<open>C18: On a run in which every step succeeds the numbers measured are the true elapsed counts, even
  when a counter of 64 bits wraps around in between (it must not do so twice): what is stored for
  each phase is what its counter advanced between the two readings around it, and initialisation,
  run and clean-up together are at most the total. The numbers printed are these, on the two Vicuna targets, whose
  format is \<open>%u\<close>, their low 32 bits.\<close>

theorem main_measures:
  assumes "bench_ok ms b" "reads b = 0" "steps (the_steps skip B) p = Some (Returned 0, q)"
    and "\<And>k. k \<in> set ms \<Longrightarrow> mono (count k) \<and> count k 7 < count k 0 + 2 ^ 64"
  shows "\<exists>b'. main_program skip tgt (\<lambda>k n. word_of_nat (count k n)) ms B p b =
      Some (final_ending tgt (Returned 0), q, b') \<and>
    printed b' = printed b @ [StartMsg] @ bench_report tgt ms (temp b') 0 \<and>
    (\<forall>v. unat (bench_fmt tgt v) = (if tgt = VICUNA \<or> tgt = VICUNA2 then unat v mod 2 ^ 32 else unat v)) \<and>
    (\<forall>k\<in>set ms.
       unat (temp b' ! k ! BENCH_INIT) = count k 2 - count k 1 \<and>
       unat (temp b' ! k ! BENCH_RUN) = count k 4 - count k 3 \<and>
       unat (temp b' ! k ! BENCH_DEINIT) = count k 6 - count k 5 \<and>
       unat (temp b' ! k ! BENCH_TOTAL) = count k 7 - count k 0 \<and>
       unat (temp b' ! k ! BENCH_INIT) + unat (temp b' ! k ! BENCH_RUN) + unat (temp b' ! k ! BENCH_DEINIT)
         \<le> unat (temp b' ! k ! BENCH_TOTAL))"
proof -
  have "count k 0 \<le> count k 1 \<and> count k 1 \<le> count k 2 \<and> count k 2 \<le> count k 3 \<and> count k 3 \<le> count k 4 \<and>
      count k 4 \<le> count k 5 \<and> count k 5 \<le> count k 6 \<and> count k 6 \<le> count k 7" if "k \<in> set ms" for k
    using assms(4) [OF that] by (auto elim!: monoD)
  then have "\<forall>k\<in>set ms. let t = temp (successful_run (\<lambda>k n. word_of_nat (count k n)) ms b) ! k in
      unat (t ! BENCH_INIT) = count k 2 - count k 1 \<and> unat (t ! BENCH_RUN) = count k 4 - count k 3 \<and>
      unat (t ! BENCH_DEINIT) = count k 6 - count k 5 \<and> unat (t ! BENCH_TOTAL) = count k 7 - count k 0 \<and>
      count k 2 - count k 1 + (count k 4 - count k 3) + (count k 6 - count k 5) \<le> count k 7 - count k 0"
    using assms(4) by (fastforce simp: successful_run_entries [OF assms(1,2)] Let_def unat_elapsed)
  then show ?thesis using unat_bench_fmt by (simp add: main_successful [OF assms(1,3)] Let_def)
qed

text \<open>A target with one counter, which wraps around while the benchmark runs, and a benchmark that
  succeeds; and one whose check fails.\<close>

definition sample_benchmark :: "s32 \<Rightarrow> unit benchmark" where
  "sample_benchmark r =
     \<lparr>mlonmcu_init = (\<lambda>p. Some (Returned 0, p)), mlonmcu_run = (\<lambda>p. Some (Returned 0, p)),
      mlonmcu_check = (\<lambda>p. Some (Returned r, p)), mlonmcu_deinit = (\<lambda>p. Some (Exited 1, p))\<rparr>"

definition sample_success :: "unit benchmark" where
  "sample_success = (sample_benchmark 0)\<lparr>mlonmcu_deinit := (\<lambda>p. Some (Returned 0, p))\<rparr>"

definition sample_bench :: bench where
  "sample_bench = \<lparr>temp = [[0, 0, 0, 0]], reads = 0, printed = []\<rparr>"

theorem main_status_witness:
  "\<exists>b'. main_program False OTHER_TARGET (\<lambda>k n. 0) [0] (sample_benchmark 7) () sample_bench = Some (EXIT 7, (), b')"
  using main_status [of "[0]" sample_bench False OTHER_TARGET "\<lambda>k n. 0" "sample_benchmark 7" "()"]
  by (simp add: bench_ok_def sample_bench_def sample_benchmark_def the_steps_def final_ending_def)

theorem main_measures_witness:
  "\<exists>b'. main_program False OTHER_TARGET (\<lambda>k n. word_of_nat (2 ^ 64 - 20 + 10 * n)) [0] sample_success () sample_bench =
      Some (EXIT 0, (), b') \<and> unat (temp b' ! 0 ! BENCH_INIT) = 10 \<and> unat (temp b' ! 0 ! BENCH_TOTAL) = 70"
  using main_measures [of "[0]" sample_bench False sample_success "()" "()" "\<lambda>k n. 2 ^ 64 - 20 + 10 * n" OTHER_TARGET]
  by (auto simp: bench_ok_def sample_bench_def sample_benchmark_def sample_success_def the_steps_def final_ending_def mono_def)

end
