(* ===== verification/CoreMain.thy ===== *)
theory CoreMain
  imports CoreListInit Harness
begin

text \<open>
  The main program of CoreMark, \<open>src/lib/coremark/core_main.c\<close> with the port \<open>core_portme.c\<close>, in the
  configuration of the repository: one context, a static memory block, volatile seeds, no floating point.
  The static block is divided among the algorithms that run; the models of the three algorithms work on
  their parts. \<open>clk n\<close> is what \<open>target_cycles\<close> returns in its \<open>n\<close>-th call.
\<close>

section \<open>State\<close>

text \<open>What \<open>mlonmcu_deinit\<close> reports, apart from the constant parts of the text.\<close>

datatype report =
  Known_parameters int
| List_crc_error u16 u16
| Matrix_crc_error u16 u16
| State_crc_error u16 u16
| Sizes u32 u32
| Too_short
| Checksums u16 core_results
| Correct_operation
| Errors_detected
| Cannot_validate

record coremark =
  res :: core_results
  lists :: list_store
  memblock1 :: u32
  memblock2 :: u32
  memblock3_at :: u32
  matrices_at :: "u32 \<times> u32 \<times> u32"
  total_time :: u32
  seedcrc :: u16
  known_id :: int
  total_errors :: s16
  next_block :: u16
  num_algorithms :: u16
  start_time_val :: u64
  stop_time_val :: u64
  reads_done :: nat
  reports :: "report list"

definition ID_LIST :: u32 where "ID_LIST = 1"
definition ID_MATRIX :: u32 where "ID_MATRIX = 2"
definition ID_STATE :: u32 where "ID_STATE = 4"
definition ALL_ALGORITHMS_MASK :: u32 where "ALL_ALGORITHMS_MASK = ID_LIST OR ID_MATRIX OR ID_STATE"
definition NUM_ALGORITHMS :: nat where "NUM_ALGORITHMS = 3"

definition list_known_crc :: "u16 list" where "list_known_crc = [0xd4b0, 0x3340, 0x6a79, 0xe714, 0xe3c1]"
definition matrix_known_crc :: "u16 list" where "matrix_known_crc = [0xbe52, 0x1199, 0x5608, 0x1fd7, 0x0747]"
definition state_known_crc :: "u16 list" where "state_known_crc = [0x5e47, 0x39bf, 0xe5a4, 0x8e3a, 0x8d84]"

definition no_results :: core_results where
  "no_results =
     \<lparr>seed1 = 0, seed2 = 0, seed3 = 0, memblock3 = [], res_size = 0, iterations = 0, execs = 0, res_list = 0,
      mat = \<lparr>mat_N = 0, mat_A = [], mat_B = [], mat_C = []\<rparr>, crc = 0, crclist = 0, crcmatrix = 0, crcstate = 0, err = 0\<rparr>"

text \<open>The globals before the program starts.\<close>

definition coremark_globals :: coremark where
  "coremark_globals =
     \<lparr>res = no_results, lists = \<lparr>nxt = \<lambda>_. 0, info = \<lambda>_. 0, data16 = \<lambda>_. 0, idx = \<lambda>_. 0\<rparr>,
      memblock1 = 0, memblock2 = 0, memblock3_at = 0, matrices_at = (0, 0, 0), total_time = 0, seedcrc = 0, known_id = - 1, total_errors = 0,
      next_block = 0, num_algorithms = 0, start_time_val = 0, stop_time_val = 0, reads_done = 0, reports = []\<rparr>"

section \<open>The port\<close>

definition start_time :: "(nat \<Rightarrow> u64) \<Rightarrow> coremark \<Rightarrow> coremark" where
  "start_time clk s = s\<lparr>start_time_val := clk (reads_done s), reads_done := reads_done s + 1\<rparr>"

definition stop_time :: "(nat \<Rightarrow> u64) \<Rightarrow> coremark \<Rightarrow> coremark" where
  "stop_time clk s = s\<lparr>stop_time_val := clk (reads_done s), reads_done := reads_done s + 1\<rparr>"

definition get_time :: "coremark \<Rightarrow> u32" where
  "get_time s = ucast (stop_time_val s - start_time_val s)"

definition time_in_secs :: "u32 \<Rightarrow> u32" where
  "time_in_secs ticks = ticks"

section \<open>core\_main.c\<close>

text \<open>\<open>junk i f\<close> is the uninitialised search item in iteration \<open>i\<close>.\<close>

definition iterate ::
  "(nat \<Rightarrow> s16 \<Rightarrow> s16) \<Rightarrow> list_store \<Rightarrow> core_results \<Rightarrow> (list_store \<times> core_results) option" where
  "iterate junk S r =
     (let r = r\<lparr>crc := 0, crclist := 0, crcmatrix := 0, crcstate := 0\<rparr>
      in for_range 0 (unat (iterations r))
           (\<lambda>i (S, r).
              do { (c, S, r) \<leftarrow> core_bench_list (junk i 1) S r 1;
                   let r = r\<lparr>crc := crcu16 c (crc r)\<rparr>;
                   (c, S, r) \<leftarrow> core_bench_list (junk i (- 1)) S r (- 1);
                   let r = r\<lparr>crc := crcu16 c (crc r)\<rparr>;
                   let r = (if i = 0 then r\<lparr>crclist := crc r\<rparr> else r);
                   Some (S, r) })
           (S, r))"

text \<open>The seeds, with the two shorthands of the performance and the validation run.\<close>

definition set_seeds :: "seeds \<Rightarrow> core_results \<Rightarrow> core_results" where
  "set_seeds sv r =
     (let r = r\<lparr>seed1 := ucast (get_seed_32 sv 1), seed2 := ucast (get_seed_32 sv 2), seed3 := ucast (get_seed_32 sv 3),
                iterations := get_seed_32 sv 4, execs := get_seed_32 sv 5\<rparr>;
          r = (if execs r = 0 then r\<lparr>execs := ALL_ALGORITHMS_MASK\<rparr> else r);
          r = (if seed1 r = 0 \<and> seed2 r = 0 \<and> seed3 r = 0 then r\<lparr>seed1 := 0, seed2 := 0, seed3 := 0x66\<rparr> else r);
          r = (if seed1 r = 1 \<and> seed2 r = 0 \<and> seed3 r = 0 then r\<lparr>seed1 := 0x3415, seed2 := 0x3415, seed3 := 0x66\<rparr> else r)
      in r)"

definition count_algorithms :: "u32 \<Rightarrow> u16 \<Rightarrow> u16" where
  "count_algorithms ex n =
     fold (\<lambda>i n. if push_bit i 1 AND ex \<noteq> 0 then n + 1 else n) [0..<NUM_ALGORITHMS] n"

definition set_memblock :: "nat \<Rightarrow> u32 \<Rightarrow> coremark \<Rightarrow> coremark" where
  "set_memblock k a s =
     (if k = 1 then s\<lparr>memblock1 := a\<rparr> else if k = 2 then s\<lparr>memblock2 := a\<rparr> else s\<lparr>memblock3_at := a\<rparr>)"

text \<open>The loop that assigns the pointers; \<open>block\<close> is the address of the static memory.\<close>

definition assign_blocks :: "u32 \<Rightarrow> coremark \<Rightarrow> coremark" where
  "assign_blocks block s =
     fold (\<lambda>i s. if push_bit i 1 AND execs (res s) \<noteq> 0
                 then (set_memblock (i + 1) (block + res_size (res s) * ucast (next_block s)) s)\<lparr>next_block := next_block s + 1\<rparr>
                 else s)
       [0..<NUM_ALGORITHMS] s"

text \<open>The matrices lie in static memory that is still 0; each list here has exactly the \<open>N * N\<close> elements
  that \<open>core_init_matrix\<close> lays out, so an access behind a matrix would be undefined.\<close>

definition matrix_init :: "u32 \<Rightarrow> u32 \<Rightarrow> s32 \<Rightarrow> ((u32 \<times> u32 \<times> u32) \<times> mat_params) option" where
  "matrix_init blksize memblk seed =
     do { i \<leftarrow> dim_loop blksize 0 0;
          let n = unat (i - 1) * unat (i - 1);
          (N, at, A, B) \<leftarrow> core_init_matrix blksize memblk seed (replicate n 0) (replicate n 0);
          Some (at, \<lparr>mat_N = N, mat_A = A, mat_B = B, mat_C = replicate n 0\<rparr>) }"

definition init_list :: "coremark \<Rightarrow> coremark option" where
  "init_list s =
     (if execs (res s) AND ID_LIST \<noteq> 0
      then do { (S, l) \<leftarrow> core_list_init (lists s) (res_size (res s)) (unat (memblock1 s)) (seed1 (res s));
                Some (s\<lparr>lists := S, res := (res s)\<lparr>res_list := l\<rparr>\<rparr>) }
      else Some s)"

definition matrix_seed :: "core_results \<Rightarrow> s32" where
  "matrix_seed r = scast (seed1 r) OR push_bit 16 (scast (seed2 r))"

definition init_matrix :: "coremark \<Rightarrow> coremark option" where
  "init_matrix s =
     (if execs (res s) AND ID_MATRIX \<noteq> 0
      then do { (at, m) \<leftarrow> matrix_init (res_size (res s)) (memblock2 s) (matrix_seed (res s));
                Some (s\<lparr>matrices_at := at, res := (res s)\<lparr>mat := m\<rparr>\<rparr>) }
      else Some s)"

definition init_state :: "coremark \<Rightarrow> coremark option" where
  "init_state s =
     (if execs (res s) AND ID_STATE \<noteq> 0
      then do { p \<leftarrow> core_init_state (res_size (res s)) (seed1 (res s)) (replicate (unat (res_size (res s))) 0);
                Some (s\<lparr>res := (res s)\<lparr>memblock3 := p\<rparr>\<rparr>) }
      else Some s)"

text \<open>Ten times as many iterations until a run takes a second.\<close>

partial_function (option) calibrate ::
  "(nat \<Rightarrow> u64) \<Rightarrow> (nat \<Rightarrow> s16 \<Rightarrow> s16) \<Rightarrow> u32 \<Rightarrow> coremark \<Rightarrow> (u32 \<times> coremark) option" where
  [code]: "calibrate clk junk secs_passed s =
     (if secs_passed < 1
      then do { let s = s\<lparr>res := (res s)\<lparr>iterations := iterations (res s) * 10\<rparr>\<rparr>;
                let s = start_time clk s;
                (S, r) \<leftarrow> iterate junk (lists s) (res s);
                let s = stop_time clk (s\<lparr>lists := S, res := r\<rparr>);
                calibrate clk junk (time_in_secs (get_time s)) s }
      else Some (secs_passed, s))"

definition set_iterations :: "(nat \<Rightarrow> u64) \<Rightarrow> (nat \<Rightarrow> s16 \<Rightarrow> s16) \<Rightarrow> coremark \<Rightarrow> coremark option" where
  "set_iterations clk junk s =
     (if iterations (res s) = 0
      then do { (secs_passed, s) \<leftarrow> calibrate clk junk 0 (s\<lparr>res := (res s)\<lparr>iterations := 1\<rparr>\<rparr>);
                let divisor = (if secs_passed = 0 then 1 else secs_passed);
                Some (s\<lparr>res := (res s)\<lparr>iterations := iterations (res s) * (1 + 10 div divisor)\<rparr>\<rparr>) }
      else Some s)"

definition coremark_init ::
  "(nat \<Rightarrow> u64) \<Rightarrow> (nat \<Rightarrow> s16 \<Rightarrow> s16) \<Rightarrow> seeds \<Rightarrow> u32 \<Rightarrow> u32 \<Rightarrow> coremark \<Rightarrow> coremark option" where
  "coremark_init clk junk sv total_data_size block s =
     do { let r = set_seeds sv (res s);
          let r = r\<lparr>res_size := total_data_size, err := 0\<rparr>;
          let n = count_algorithms (execs r) (num_algorithms s);
          r \<leftarrow> (if n = 0 then None else Some (r\<lparr>res_size := res_size r div ucast n\<rparr>));
          let s = assign_blocks block (s\<lparr>res := r, num_algorithms := n\<rparr>);
          s \<leftarrow> init_list s;
          s \<leftarrow> init_matrix s;
          s \<leftarrow> init_state s;
          set_iterations clk junk s }"

definition coremark_run :: "(nat \<Rightarrow> u64) \<Rightarrow> (nat \<Rightarrow> s16 \<Rightarrow> s16) \<Rightarrow> coremark \<Rightarrow> coremark option" where
  "coremark_run clk junk s =
     do { let s = start_time clk s;
          (S, r) \<leftarrow> iterate junk (lists s) (res s);
          Some (stop_time clk (s\<lparr>lists := S, res := r\<rparr>)) }"

definition coremark_check :: "coremark \<Rightarrow> s32" where
  "coremark_check s = (if sint (total_errors s) > 0 then EXIT_MLIF_MISSMATCH else 0)"

definition report :: "report \<Rightarrow> coremark \<Rightarrow> coremark" where
  "report m s = s\<lparr>reports := reports s @ [m]\<rparr>"

definition identify :: "coremark \<Rightarrow> coremark" where
  "identify s =
     (if seedcrc s = 0x8a02 then report (Known_parameters 0) (s\<lparr>known_id := 0\<rparr>)
      else if seedcrc s = 0x7b05 then report (Known_parameters 1) (s\<lparr>known_id := 1\<rparr>)
      else if seedcrc s = 0x4eaf then report (Known_parameters 2) (s\<lparr>known_id := 2\<rparr>)
      else if seedcrc s = 0xe9f5 then report (Known_parameters 3) (s\<lparr>known_id := 3\<rparr>)
      else if seedcrc s = 0x18f2 then report (Known_parameters 4) (s\<lparr>known_id := 4\<rparr>)
      else s\<lparr>total_errors := - 1\<rparr>)"

definition count_error :: "report \<Rightarrow> coremark \<Rightarrow> coremark" where
  "count_error m s = report m (s\<lparr>res := (res s)\<lparr>err := err (res s) + 1\<rparr>\<rparr>)"

text \<open>The loop over the contexts, of which there is one.\<close>

definition compare_crcs :: "coremark \<Rightarrow> coremark option" where
  "compare_crcs s =
     do { let k = nat (known_id s);
          let s = s\<lparr>res := (res s)\<lparr>err := 0\<rparr>\<rparr>;
          l \<leftarrow> rd list_known_crc k;
          let s = (if execs (res s) AND ID_LIST \<noteq> 0 \<and> crclist (res s) \<noteq> l
                   then count_error (List_crc_error (crclist (res s)) l) s else s);
          m \<leftarrow> rd matrix_known_crc k;
          let s = (if execs (res s) AND ID_MATRIX \<noteq> 0 \<and> crcmatrix (res s) \<noteq> m
                   then count_error (Matrix_crc_error (crcmatrix (res s)) m) s else s);
          t \<leftarrow> rd state_known_crc k;
          let s = (if execs (res s) AND ID_STATE \<noteq> 0 \<and> crcstate (res s) \<noteq> t
                   then count_error (State_crc_error (crcstate (res s)) t) s else s);
          Some (s\<lparr>total_errors := total_errors s + err (res s)\<rparr>) }"

definition coremark_deinit :: "type_sizes \<Rightarrow> coremark \<Rightarrow> coremark option" where
  "coremark_deinit ts s =
     do { let s = s\<lparr>total_time := get_time s\<rparr>;
          let s = s\<lparr>seedcrc := crc16 (seed1 (res s)) (seedcrc s)\<rparr>;
          let s = s\<lparr>seedcrc := crc16 (seed2 (res s)) (seedcrc s)\<rparr>;
          let s = s\<lparr>seedcrc := crc16 (seed3 (res s)) (seedcrc s)\<rparr>;
          let s = s\<lparr>seedcrc := crc16 (ucast (res_size (res s))) (seedcrc s)\<rparr>;
          let s = identify s;
          s \<leftarrow> (if 0 \<le> known_id s then compare_crcs s else Some s);
          let s = s\<lparr>total_errors := total_errors s + ucast (check_data_types ts)\<rparr>;
          let s = report (Sizes (res_size (res s)) (total_time s)) s;
          let s = (if time_in_secs (total_time s) < 10
                   then report Too_short (s\<lparr>total_errors := total_errors s + 1\<rparr>) else s);
          let s = report (Checksums (seedcrc s) (res s)) s;
          let s = (if total_errors s = 0 then report Correct_operation s else s);
          let s = (if 0 < sint (total_errors s) then report Errors_detected s else s);
          let s = (if sint (total_errors s) < 0 then report Cannot_validate s else s);
          Some s }"

definition coremark_program ::
  "(nat \<Rightarrow> u64) \<Rightarrow> (nat \<Rightarrow> s16 \<Rightarrow> s16) \<Rightarrow> seeds \<Rightarrow> type_sizes \<Rightarrow> u32 \<Rightarrow> u32 \<Rightarrow> coremark benchmark" where
  "coremark_program clk junk sv ts total_data_size block =
     \<lparr>mlonmcu_init = \<lambda>s. do { s \<leftarrow> coremark_init clk junk sv total_data_size block s; Some (Returned 0, s) },
      mlonmcu_run = \<lambda>s. do { s \<leftarrow> coremark_run clk junk s; Some (Returned 0, s) },
      mlonmcu_check = \<lambda>s. Some (Returned (coremark_check s), s),
      mlonmcu_deinit = \<lambda>s. do { s \<leftarrow> coremark_deinit ts s; Some (Returned 0, s) }\<rparr>"

section \<open>The iterations\<close>

lemma res_ok_crclist [simp]: "res_ok (r\<lparr>crclist := c\<rparr>) = res_ok r"
  by (simp add: res_ok_def)

lemma res_inputs_upd [simp]:
  "res_inputs (r\<lparr>crc := c\<rparr>) = res_inputs r" "res_inputs (r\<lparr>crclist := c\<rparr>) = res_inputs r"
  "res_inputs (r\<lparr>crcmatrix := c\<rparr>) = res_inputs r" "res_inputs (r\<lparr>crcstate := c\<rparr>) = res_inputs r"
  by (simp_all add: res_inputs_def)

lemma res_inputs_list: "res_inputs r = res_inputs r' \<Longrightarrow> res_list r = res_list r'"
  by (simp add: res_inputs_def)

text \<open>A list as \<open>core_list_init\<close> builds it, with distinct indices.\<close>

definition list_ready :: "list_store \<Rightarrow> ptr \<Rightarrow> bool" where
  "list_ready S l \<longleftrightarrow>
     (\<exists>xs. wf S l xs \<and> 3 \<le> length xs \<and> length xs < 2 ^ 31 \<and>
       (\<forall>x \<in> set xs. regen (data16 S (info S x)) = data16 S (info S x)) \<and>
       sorted (map (\<lambda>x. sint (idx S (info S x))) xs) \<and> inj_on (\<lambda>x. sint (idx S (info S x))) (set xs))"

lemma bench_list_ready:
  assumes "list_ready S (res_list r)" "res_ok r"
  shows "\<exists>c r'. core_bench_list junk S r f = Some (c, S, r') \<and> res_ok r' \<and> res_inputs r' = res_inputs r"
  using assms core_bench_list_total [of S r _ junk f] unfolding list_ready_def by blast

lemma iterate_ok:
  assumes "list_ready S (res_list r)" "res_ok r"
  shows "\<exists>r'. iterate junk S r = Some (S, r') \<and> res_ok r' \<and> res_inputs r' = res_inputs r"
proof -
  define r0 where "r0 = r\<lparr>crc := 0, crclist := 0, crcmatrix := 0, crcstate := 0\<rparr>"
  define I where "I = (\<lambda>i :: nat. \<lambda>(S', r'). S' = S \<and> res_ok r' \<and> res_inputs r' = res_inputs r)"
  have l: "res_list x = res_list r" if "res_inputs x = res_inputs r" for x using that by (rule res_inputs_list)
  have body: "\<exists>t'. (case t of (S, r) \<Rightarrow>
       do { (c, S, r) \<leftarrow> core_bench_list (junk i 1) S r 1;
            let r = r\<lparr>crc := crcu16 c (crc r)\<rparr>;
            (c, S, r) \<leftarrow> core_bench_list (junk i (- 1)) S r (- 1);
            let r = r\<lparr>crc := crcu16 c (crc r)\<rparr>;
            let r = (if i = 0 then r\<lparr>crclist := crc r\<rparr> else r);
            Some (S, r) }) = Some t' \<and> I (Suc i) t'" if t: "I i t" for i t
  proof -
    obtain r1 where r1: "t = (S, r1)" "res_ok r1" "res_inputs r1 = res_inputs r"
      using t by (cases t) (auto simp: I_def)
    then obtain c r2 where r2: "core_bench_list (junk i 1) S r1 1 = Some (c, S, r2)" "res_ok r2" "res_inputs r2 = res_inputs r"
      using bench_list_ready [of S r1] assms(1) l by metis
    define r3 where "r3 = r2\<lparr>crc := crcu16 c (crc r2)\<rparr>"
    have "res_ok r3" "res_inputs r3 = res_inputs r" using r2 by (simp_all add: r3_def)
    then obtain d r4 where "core_bench_list (junk i (- 1)) S r3 (- 1) = Some (d, S, r4)" "res_ok r4" "res_inputs r4 = res_inputs r"
      using bench_list_ready [of S r3] assms(1) l by metis
    with r1 r2 show ?thesis by (simp add: Let_def I_def flip: r3_def)
  qed
  have "I 0 (S, r0)" using assms(2) by (simp add: I_def r0_def)
  then have "\<exists>s'. for_range 0 (unat (iterations r0)) (\<lambda>i (S, r).
       do { (c, S, r) \<leftarrow> core_bench_list (junk i 1) S r 1;
            let r = r\<lparr>crc := crcu16 c (crc r)\<rparr>;
            (c, S, r) \<leftarrow> core_bench_list (junk i (- 1)) S r (- 1);
            let r = r\<lparr>crc := crcu16 c (crc r)\<rparr>;
            let r = (if i = 0 then r\<lparr>crclist := crc r\<rparr> else r);
            Some (S, r) }) (S, r0) = Some s' \<and> I (unat (iterations r0)) s'"
    by (intro for_range_rule [where I = I] body) simp_all
  then show ?thesis unfolding iterate_def r0_def [symmetric] Let_def by (auto simp: I_def)
qed

lemma coremark_run_ok:
  assumes "list_ready (lists s) (res_list (res s))" "res_ok (res s)"
  shows "\<exists>t. coremark_run clk junk s = Some t \<and> lists t = lists s \<and> res_ok (res t) \<and> res_inputs (res t) = res_inputs (res s) \<and>
    total_errors t = total_errors s \<and> known_id t = known_id s"
  using iterate_ok [OF assms, of junk]
  by (auto simp: coremark_run_def start_time_def stop_time_def Let_def)

section \<open>The partition of the memory\<close>

lemma unat_align_mem:
  assumes "0 < unat x" "unat x + 3 < 2 ^ 32"
  shows "unat (align_mem x) = 4 * ((unat x + 3) div 4)"
proof -
  have x: "unat (x - 1) = unat x - 1" using assms(1) by (intro unat_minus_one) auto
  have m: "(3 :: u32) = mask 2" by (simp add: mask_eq_exp_minus_1)
  have "unat ((x - 1) AND NOT 3) = unat (x - 1) - unat (x - 1) mod 4"
    unfolding m by (simp add: unat_and_not_mask)
  also have "\<dots> = 4 * ((unat x - 1) div 4)" unfolding x by (simp add: minus_mod_eq_mult_div)
  finally have "unat (align_mem x) = 4 + 4 * ((unat x - 1) div 4)"
    using assms unfolding align_mem_def by (subst unat_add_lem [THEN iffD1]) auto
  also have "\<dots> = 4 * ((unat x + 3) div 4)" using assms(1) by presburger
  finally show ?thesis .
qed

lemma four_algorithms: "count_algorithms ALL_ALGORITHMS_MASK 0 = 3"
  by (simp add: count_algorithms_def NUM_ALGORITHMS_def ALL_ALGORITHMS_MASK_def ID_LIST_def ID_MATRIX_def ID_STATE_def
      upt_rec)

lemma assign_blocks_all:
  assumes "execs (res s) = ALL_ALGORITHMS_MASK" "next_block s = 0"
  shows "assign_blocks block s = s\<lparr>memblock1 := block, memblock2 := block + res_size (res s),
    memblock3_at := block + res_size (res s) * 2, next_block := 3\<rparr>"
  using assms
  by (simp add: assign_blocks_def NUM_ALGORITHMS_def ALL_ALGORITHMS_MASK_def ID_LIST_def ID_MATRIX_def ID_STATE_def
      upt_rec set_memblock_def)

text \<open>The matrices in a block that need not be aligned: three bytes of slack are enough.\<close>

lemma matrix_init_ok:
  assumes "8 * (n * n) + 3 \<le> unat blk" "unat blk \<le> 8 * (Suc n * Suc n)" "unat blk \<le> 2 ^ 18"
    "0 < unat memblk" "unat memblk + unat blk < 2 ^ 32"
  shows "\<exists>pA pB pC p. matrix_init blk memblk seed = Some ((pA, pB, pC), p) \<and>
    unat memblk \<le> unat pA \<and> unat pB = unat pA + 2 * (n * n) \<and> unat pC = unat pB + 2 * (n * n) \<and>
    unat pC + 4 * (n * n) \<le> unat memblk + unat blk \<and>
    mat_N p = of_nat n \<and> length (mat_A p) = n * n \<and> length (mat_B p) = n * n \<and> length (mat_C p) = n * n \<and>
    (\<forall>a \<in> set (mat_A p). a \<le> 0xff)"
proof -
  have lt: "8 * (n * n) < unat blk" using assms(1) by simp
  note small = small_dim [OF lt assms(3)]
  obtain m where m: "0 < m" "dim_loop blk 0 0 = Some (of_nat m)"
      "8 * ((m - 1) * (m - 1)) < unat blk" "unat blk \<le> 8 * (m * m)"
    using dim_loop_total [of blk] lt assms(3) by auto
  have "m - 1 = n" using m lt assms(2) by (intro square_between [of "m - 1" "unat blk"]) auto
  then have N: "(of_nat m - 1 :: u32) = of_nat n" using m(1) by (cases m) auto
  have uN: "unat (of_nat n :: u32) = n" using small(2) by (simp add: unat_of_nat)
  have sq: "unat (of_nat n * of_nat n :: u32) = n * n" using small(1) by (intro unat_square) simp
  define pA where "pA = align_mem memblk"
  have a: "unat pA = 4 * ((unat memblk + 3) div 4)"
    using assms(1,4,5) unfolding pA_def by (intro unat_align_mem) simp_all
  then have b: "unat memblk \<le> unat pA" "unat pA \<le> unat memblk + 3" "4 dvd unat pA" by auto
  then have "unat pA + 8 * (n * n) < 2 ^ 32" using assms(1,5) by linarith
  note adr = matrix_addresses [OF sq b(3) this]
  obtain A B where "core_init_matrix blk memblk seed (replicate (n * n) 0) (replicate (n * n) 0) =
      Some (of_nat n, (pA, pA + 2 * (of_nat n * of_nat n), align_mem (pA + 2 * (of_nat n * of_nat n) + 2 * (of_nat n * of_nat n))), A, B)"
      "length A = n * n" "length B = n * n" "\<forall>a \<in> set A. a \<le> 0xff"
    using core_init_matrix_total [OF lt assms(2,3), of "replicate (n * n) 0" "replicate (n * n) 0" memblk seed]
    unfolding pA_def by auto
  then show ?thesis using m(2) N uN adr b assms(1) by (auto simp: matrix_init_def Let_def)
qed

text \<open>The operator matrix, element by element, from the seed and the counter.\<close>

fun init_B :: "nat \<Rightarrow> int \<Rightarrow> int \<Rightarrow> matdat list" where
  "init_B 0 seed c = []"
| "init_B (Suc n) seed c =
     (let s = c_rem (c * seed) 65536 in matrix_clip (word_of_int (s + c)) False # init_B n s (c + 1))"

lemma init_matrix_body_B:
  assumes "init_matrix_body k (A, B, s, c) = Some (A1, B1, s1, c1)"
  shows "B1 = B[k := matrix_clip (word_of_int (c_rem (c * s) 65536 + c)) False] \<and>
    s1 = c_rem (c * s) 65536 \<and> c1 = c + 1"
  using assms by (auto simp: init_matrix_body_def bind_Some_iff chk32_eq_Some wr_def split: if_splits)

lemma for_upto_init_B:
  assumes "for_upto n k init_matrix_body (A, B, s, ord) = Some (A', B', s', ord')" "k + n \<le> length B"
  shows "length B' = length B \<and> take (k + n) B' = take k B @ init_B n s ord"
  using assms
proof (induction n arbitrary: k A B s ord)
  case (Suc n)
  let ?s = "c_rem (ord * s) 65536"
  let ?b = "matrix_clip (word_of_int (?s + ord)) False"
  obtain A1 B1 s1 c1 where b: "init_matrix_body k (A, B, s, ord) = Some (A1, B1, s1, c1)"
    "for_upto n (Suc k) init_matrix_body (A1, B1, s1, c1) = Some (A', B', s', ord')"
    using Suc.prems(1) by (auto simp: bind_Some_iff)
  have 1: "for_upto n (Suc k) init_matrix_body (A1, B[k := ?b], ?s, ord + 1) = Some (A', B', s', ord')"
    using b(2) init_matrix_body_B [OF b(1)] by (simp only:)
  have "take (Suc k) (B[k := ?b]) = take k B @ [?b]"
    using Suc.prems(2) by (simp add: take_Suc_conv_app_nth)
  then show ?case using Suc.IH [OF 1] Suc.prems(2) by (simp add: Let_def)
qed simp

lemma matrix_init_B:
  assumes "matrix_init blk memblk seed = Some (at, p)"
  shows "mat_B p = init_B (length (mat_B p)) (if seed = 0 then 1 else sint seed) 1"
proof -
  obtain i A B s' ord where i: "dim_loop blk 0 0 = Some i"
    "for_range 0 (unat (i - 1) * unat (i - 1)) init_matrix_body
       (replicate (unat (i - 1) * unat (i - 1)) 0, replicate (unat (i - 1) * unat (i - 1)) 0, (if seed = 0 then 1 else sint seed), 1)
       = Some (A, B, s', ord)" "mat_B p = B"
    using assms
    by (auto simp: matrix_init_def core_init_matrix_def for_range_rows bind_Some_iff Let_def)
  from for_upto_init_B [OF i(2) [unfolded for_range_def]] i(3)
  have "length (mat_B p) = unat (i - 1) * unat (i - 1)"
    "take (length (mat_B p)) (mat_B p) = init_B (length (mat_B p)) (if seed = 0 then 1 else sint seed) 1"
    by (simp_all split del: if_split)
  then show ?thesis by (simp split del: if_split)
qed

lemma negative_sum: "(\<Sum>b\<leftarrow>init_B 81 1 1. neg_part b) = 135349"
  by code_simp

text \<open>Where the three algorithms put their data: each in its own third of the block.\<close>

definition well_placed :: "u32 \<Rightarrow> u32 \<Rightarrow> nat \<Rightarrow> nat \<Rightarrow> ptr list \<Rightarrow> coremark \<Rightarrow> bool" where
  "well_placed block total_size sz n xs s \<longleftrightarrow>
     list_placed (unat block) sz (lists s) xs \<and>
     (case matrices_at s of (pA, pB, pC) \<Rightarrow>
        unat block + sz \<le> unat pA \<and> unat pA + 2 * (n * n) \<le> unat pB \<and> unat pB + 2 * (n * n) \<le> unat pC \<and>
        unat pC + 4 * (n * n) \<le> unat block + 2 * sz) \<and>
     unat (memblock3_at s) = unat block + 2 * sz \<and> length (memblock3 (res s)) = sz \<and>
     unat block + 3 * sz \<le> unat block + unat total_size"

text \<open>The conditions on the configuration: all algorithms, a given number of iterations, and a block of
  at most 768 KiB with room for the matrices at any alignment.\<close>

definition config_ok :: "seeds \<Rightarrow> u32 \<Rightarrow> u32 \<Rightarrow> nat \<Rightarrow> bool" where
  "config_ok sv total_size block n \<longleftrightarrow>
     execs (set_seeds sv no_results) = ALL_ALGORITHMS_MASK \<and> get_seed_32 sv 4 \<noteq> 0 \<and>
     120 \<le> unat total_size div 3 \<and> unat total_size div 3 \<le> 2 ^ 18 \<and> 8 * (n * n) + 3 \<le> unat total_size div 3 \<and>
     unat total_size div 3 \<le> 8 * (Suc n * Suc n) \<and> block \<noteq> 0 \<and> unat block + unat total_size < 2 ^ 32"

lemma set_seeds_fields [simp]:
  "iterations (set_seeds sv r) = get_seed_32 sv 4" "crc (set_seeds sv r) = crc r"
  "memblock3 (set_seeds sv r) = memblock3 r" "mat (set_seeds sv r) = mat r"
  by (simp_all add: set_seeds_def Let_def)

lemma coremark_init_ok:
  assumes "config_ok sv total_size block n"
  shows "\<exists>s xs. coremark_init clk junk sv total_size block coremark_globals = Some s \<and>
    wf (lists s) (res_list (res s)) xs \<and> length xs = unat total_size div 3 div 20 - 3 \<and>
    (\<forall>x \<in> set xs. regen (data16 (lists s) (info (lists s) x)) = data16 (lists s) (info (lists s) x)) \<and>
    sorted (map (\<lambda>x. sint (idx (lists s) (info (lists s) x))) xs) \<and>
    mset (map (\<lambda>x. idx (lists s) (info (lists s) x)) xs) =
      mset (init_indices (unat total_size div 3 div 20 - 2) (seed1 (set_seeds sv no_results))) \<and>
    well_placed block total_size (unat total_size div 3) n xs s \<and>
    generated (unat total_size div 3) (replicate (unat total_size div 3) 0) (memblock3 (res s)) \<and>
    mat_N (mat (res s)) = of_nat n \<and> length (mat_A (mat (res s))) = n * n \<and> length (mat_B (mat (res s))) = n * n \<and>
    length (mat_C (mat (res s))) = n * n \<and> unat (res_size (res s)) = unat total_size div 3 \<and>
    seed1 (res s) = seed1 (set_seeds sv no_results) \<and> seed2 (res s) = seed2 (set_seeds sv no_results) \<and>
    total_errors s = 0 \<and> known_id s = - 1 \<and>
    matrix_init (total_size div 3) (block + total_size div 3) (matrix_seed (set_seeds sv no_results)) =
      Some (matrices_at s, mat (res s))"
proof -
  note c = assms [unfolded config_ok_def]
  define r0 where "r0 = set_seeds sv no_results"
  define sz where "sz = total_size div 3"
  have usz: "unat sz = unat total_size div 3" by (simp add: sz_def unat_div)
  define r1 where "r1 = r0\<lparr>err := 0, res_size := sz\<rparr>"
  define s1 where "s1 = coremark_globals\<lparr>res := r1, num_algorithms := 3, memblock1 := block,
      memblock2 := block + sz, memblock3_at := block + sz * 2, next_block := 3\<rparr>"
  have ex: "execs r0 = ALL_ALGORITHMS_MASK" using c by (simp add: r0_def)
  have pos: "0 < unat block" using c by (simp add: unat_gt_0)
  have lim: "3 * unat sz \<le> unat total_size" using usz by simp
  have m2: "unat (block + sz) = unat block + unat sz"
    using c lim by (subst unat_add_lem [THEN iffD1]) auto
  have m3: "unat (block + sz * 2) = unat block + 2 * unat sz"
  proof -
    have "unat (sz * 2) = 2 * unat sz" using c usz by (subst unat_mult_lem [THEN iffD1]) auto
    then show ?thesis using c lim by (subst unat_add_lem [THEN iffD1]) auto
  qed
  obtain S' xs where l: "core_list_init (lists s1) sz (unat block) (seed1 r0) = Some (S', unat block)" "wf S' (unat block) xs"
    "length xs = unat sz div 20 - 3"
    "list_placed (unat block) (unat sz) S' xs"
    "\<forall>x \<in> set xs. regen (data16 S' (info S' x)) = data16 S' (info S' x)"
    "sorted (map (\<lambda>x. sint (idx S' (info S' x))) xs)"
    "mset (map (\<lambda>x. idx S' (info S' x)) xs) = mset (init_indices (unat sz div 20 - 2) (seed1 r0))"
    using core_list_init_small [OF pos, of sz "lists s1" "seed1 r0"] c usz by auto
  have room: "8 * (n * n) + 3 \<le> unat sz" "unat sz \<le> 8 * (Suc n * Suc n)" "unat sz \<le> 2 ^ 18" "0 < unat (block + sz)"
      "unat (block + sz) + unat sz < 2 ^ 32"
    using c m2 pos lim unfolding usz [symmetric] by linarith+
  obtain pA pB pC p where m: "matrix_init sz (block + sz) (matrix_seed r0) = Some ((pA, pB, pC), p)"
    "unat (block + sz) \<le> unat pA" "unat pB = unat pA + 2 * (n * n)" "unat pC = unat pB + 2 * (n * n)"
    "unat pC + 4 * (n * n) \<le> unat (block + sz) + unat sz"
    "mat_N p = of_nat n" "length (mat_A p) = n * n" "length (mat_B p) = n * n" "length (mat_C p) = n * n"
    using matrix_init_ok [OF room, of "matrix_seed r0"] by blast
  obtain q where q: "core_init_state sz (seed1 r0) (replicate (unat sz) 0) = Some q"
    "generated (unat sz) (replicate (unat sz) 0) q"
    using core_init_state_total [of sz "replicate (unat sz) 0" "seed1 r0"] c usz by auto
  let ?r = "r1\<lparr>res_list := unat block, mat := p, memblock3 := q\<rparr>"
  let ?s = "s1\<lparr>lists := S', matrices_at := (pA, pB, pC), res := ?r\<rparr>"
  have masks: "ALL_ALGORITHMS_MASK AND ID_LIST \<noteq> 0" "ALL_ALGORITHMS_MASK AND ID_MATRIX \<noteq> 0" "ALL_ALGORITHMS_MASK AND ID_STATE \<noteq> 0"
    by (simp_all add: ALL_ALGORITHMS_MASK_def ID_LIST_def ID_MATRIX_def ID_STATE_def)
  have g: "res coremark_globals = no_results" "num_algorithms coremark_globals = 0" "next_block coremark_globals = 0"
    "total_errors coremark_globals = 0" "known_id coremark_globals = - 1"
    by (simp_all add: coremark_globals_def)
  have "assign_blocks block (coremark_globals\<lparr>res := r1, num_algorithms := 3\<rparr>) = s1"
    using g ex by (subst assign_blocks_all) (simp_all add: s1_def r1_def)
  moreover have "iterations r0 \<noteq> 0" using c by (simp add: r0_def)
  ultimately have "coremark_init clk junk sv total_size block coremark_globals = Some ?s"
    using ex l(1) m(1) [unfolded matrix_seed_def] q(1) masks
    by (simp add: coremark_init_def g four_algorithms init_list_def init_matrix_def matrix_seed_def init_state_def set_iterations_def
        Let_def flip: r0_def sz_def) (simp add: r1_def s1_def sz_def matrix_seed_def)
  moreover have "well_placed block total_size (unat sz) n xs ?s"
    using l(4) m m2 m3 q(2) lim by (simp add: well_placed_def generated_def s1_def)
  ultimately show ?thesis
    using l m q g usz
    by (intro exI [of _ ?s] exI [of _ xs]) (simp add: s1_def r1_def r0_def flip: sz_def)
qed

section \<open>The verdict\<close>

text \<open>The checksum by which \<open>mlonmcu_deinit\<close> recognises a standard configuration, and the codes.\<close>

definition seed_code :: "core_results \<Rightarrow> u16 \<Rightarrow> u16" where
  "seed_code r c = crc16 (ucast (res_size r)) (crc16 (seed3 r) (crc16 (seed2 r) (crc16 (seed1 r) c)))"

definition seed_codes :: "u16 list" where
  "seed_codes = [0x8a02, 0x7b05, 0x4eaf, 0xe9f5, 0x18f2]"

text \<open>The algorithms that ran and whose checksum is not the one known for configuration \<open>k\<close>.\<close>

definition wrong_crcs :: "nat \<Rightarrow> core_results \<Rightarrow> nat" where
  "wrong_crcs k r =
     of_bool (execs r AND ID_LIST \<noteq> 0 \<and> crclist r \<noteq> list_known_crc ! k) +
     of_bool (execs r AND ID_MATRIX \<noteq> 0 \<and> crcmatrix r \<noteq> matrix_known_crc ! k) +
     of_bool (execs r AND ID_STATE \<noteq> 0 \<and> crcstate r \<noteq> state_known_crc ! k)"

lemma known_crc_lengths [simp]:
  "length list_known_crc = 5" "length matrix_known_crc = 5" "length state_known_crc = 5"
  by (simp_all add: list_known_crc_def matrix_known_crc_def state_known_crc_def)

lemma report_simps [simp]:
  "res (report m s) = res s" "known_id (report m s) = known_id s" "total_errors (report m s) = total_errors s"
  "seedcrc (report m s) = seedcrc s" "total_time (report m s) = total_time s" "reports (report m s) = reports s @ [m]"
  by (simp_all add: report_def)

lemma identify_known:
  assumes "k < 5" "seedcrc s = seed_codes ! k"
  shows "identify s = report (Known_parameters (int k)) (s\<lparr>known_id := int k\<rparr>)"
proof -
  have "k = 0 \<or> k = 1 \<or> k = 2 \<or> k = 3 \<or> k = 4" using assms(1) by auto
  then show ?thesis using assms(2) by (auto simp: identify_def seed_codes_def)
qed

lemma identify_unknown:
  assumes "seedcrc s \<notin> set seed_codes"
  shows "identify s = s\<lparr>total_errors := - 1\<rparr>"
  using assms by (simp add: identify_def seed_codes_def)

lemma compare_crcs_ok:
  assumes "k < 5" "known_id s = int k"
  shows "\<exists>t. compare_crcs s = Some t \<and> total_errors t = total_errors s + of_nat (wrong_crcs k (res s)) \<and>
    total_time t = total_time s \<and> execs (res t) = execs (res s)"
  using assms by (auto simp: compare_crcs_def count_error_def wrong_crcs_def Let_def)

lemma coremark_deinit_known:
  assumes "k < 5" "seed_code (res s) (seedcrc s) = seed_codes ! k"
  shows "\<exists>t. coremark_deinit ts s = Some t \<and>
    total_errors t = total_errors s + of_nat (wrong_crcs k (res s)) + ucast (check_data_types ts) +
      of_bool (get_time s < 10)"
proof -
  let ?s = "s\<lparr>total_time := get_time s, seedcrc := seed_codes ! k\<rparr>"
  obtain t where "compare_crcs (identify ?s) = Some t" "total_time t = get_time s"
    "total_errors t = total_errors s + of_nat (wrong_crcs k (res s))"
    using compare_crcs_ok [of k "identify ?s"] assms(1) by (auto simp: identify_known)
  moreover have "known_id (identify ?s) = int k" using assms(1) by (simp add: identify_known)
  ultimately show ?thesis
    using assms(2) by (simp add: coremark_deinit_def seed_code_def Let_def time_in_secs_def)
qed

lemma coremark_deinit_unknown:
  assumes "seed_code (res s) (seedcrc s) \<notin> set seed_codes" "known_id s = - 1"
  shows "\<exists>t. coremark_deinit ts s = Some t \<and>
    total_errors t = - 1 + ucast (check_data_types ts) + of_bool (get_time s < 10) \<and>
    (total_errors t = 0 \<longrightarrow> Correct_operation \<in> set (reports t))"
  using assms by (simp add: coremark_deinit_def seed_code_def Let_def time_in_secs_def identify_unknown)

lemma coremark_deinit_total:
  assumes "known_id s = - 1"
  shows "\<exists>t. coremark_deinit ts s = Some t"
proof (cases "seed_code (res s) (seedcrc s) \<in> set seed_codes")
  case True
  moreover have "length seed_codes = 5" by (simp add: seed_codes_def)
  ultimately obtain k where "k < 5" "seed_code (res s) (seedcrc s) = seed_codes ! k" by (metis in_set_conv_nth)
  then show ?thesis using coremark_deinit_known by blast
next
  case False
  then show ?thesis using coremark_deinit_unknown assms by blast
qed

lemma lists_count [simp]: "lists (report m s) = lists s" "lists (count_error m s) = lists s" "lists (identify s) = lists s"
  by (simp_all add: count_error_def report_def identify_def)

lemma lists_compare: "compare_crcs s = Some t \<Longrightarrow> lists t = lists s"
  by (auto simp: compare_crcs_def Let_def bind_Some_iff)

lemma if_lists: "lists (if b then s else t) = (if b then lists s else lists t)"
  by simp

lemma coremark_deinit_lists:
  assumes "coremark_deinit ts s = Some t"
  shows "lists t = lists s"
  using assms lists_compare
  by (cases "0 \<le> known_id (identify (s\<lparr>total_time := get_time s, seedcrc := seed_code (res s) (seedcrc s)\<rparr>))")
    (auto simp: coremark_deinit_def Let_def bind_Some_iff if_lists seed_code_def simp del: if_split)

section \<open>Properties\<close>

text \<open>C27: In a configuration that meets \<open>config_ok\<close>, initialisation ends and gives each algorithm its own third of
  the static block: all cells and items of the list lie in the first and no two of them share a byte, the three
  matrices lie one after the other in the second, the input of the state machine fills the third. The block need not
  be aligned, but a third must have three bytes more than the matrices take, or an unaligned one would end behind it
  (\<open>core_init_matrix_misaligned\<close>).\<close>

theorem coremark_layout:
  assumes "config_ok sv total_size block n"
  shows "\<exists>s xs. coremark_init clk junk sv total_size block coremark_globals = Some s \<and>
    wf (lists s) (res_list (res s)) xs \<and> length xs = unat total_size div 3 div 20 - 3 \<and>
    well_placed block total_size (unat total_size div 3) n xs s"
  using coremark_init_ok [OF assms] by blast

lemma generated_undoable:
  assumes "generated sz p m" "seed_ok seed"
  shows "undoable sz (ucast seed) m"
proof -
  have "m ! i \<noteq> comma \<longrightarrow> m ! i XOR ucast seed \<noteq> comma" if "i < sz" for i
  proof -
    have "m ! i \<in> {0, comma} \<union> pattern_bytes" using assms(1) that by (simp add: generated_def)
    then show ?thesis using assms(2) by (auto simp: seed_ok_def list_all_iff pattern_bytes_def)
  qed
  then show ?thesis by (auto simp: undoable_def list_all_length)
qed

text \<open>No sum of the matrix benchmark overflows on the matrices that the seeds generate.\<close>

definition matrices_fit :: "seeds \<Rightarrow> u32 \<Rightarrow> u32 \<Rightarrow> bool" where
  "matrices_fit sv total_size block \<longleftrightarrow>
     (case matrix_init (total_size div 3) (block + total_size div 3) (matrix_seed (set_seeds sv no_results)) of
        Some (_, m) \<Rightarrow> matrices_ok m
      | None \<Rightarrow> False)"

text \<open>The seeds: equal low bytes, no byte of the input becomes a comma, and distinct list indices.\<close>

definition seeds_ok :: "seeds \<Rightarrow> u32 \<Rightarrow> bool" where
  "seeds_ok sv total_size \<longleftrightarrow>
     (let r = set_seeds sv no_results
      in (ucast (seed1 r) :: u8) = ucast (seed2 r) \<and> seed_ok (seed1 r) \<and>
         distinct (init_indices (unat total_size div 3 div 20 - 2) (seed1 r)))"

lemma coremark_init_ready:
  assumes "config_ok sv total_size block n" "seeds_ok sv total_size" "matrices_fit sv total_size block"
  shows "\<exists>s. coremark_init clk junk sv total_size block coremark_globals = Some s \<and>
    list_ready (lists s) (res_list (res s)) \<and> res_ok (res s) \<and> total_errors s = 0 \<and> known_id s = - 1"
proof -
  let ?sz = "unat total_size div 3" and ?r = "set_seeds sv no_results"
  obtain s xs where s: "coremark_init clk junk sv total_size block coremark_globals = Some s"
    "wf (lists s) (res_list (res s)) xs" "length xs = ?sz div 20 - 3"
    "\<forall>x \<in> set xs. regen (data16 (lists s) (info (lists s) x)) = data16 (lists s) (info (lists s) x)"
    "sorted (map (\<lambda>x. sint (idx (lists s) (info (lists s) x))) xs)"
    "mset (map (\<lambda>x. idx (lists s) (info (lists s) x)) xs) = mset (init_indices (?sz div 20 - 2) (seed1 ?r))"
    "generated ?sz (replicate ?sz 0) (memblock3 (res s))"
    "mat_N (mat (res s)) = of_nat n" "length (mat_A (mat (res s))) = n * n" "length (mat_B (mat (res s))) = n * n"
    "length (mat_C (mat (res s))) = n * n" "unat (res_size (res s)) = ?sz"
    "seed1 (res s) = seed1 ?r" "seed2 (res s) = seed2 ?r" "total_errors s = 0" "known_id s = - 1" "matrices_ok (mat (res s))"
    using coremark_init_ok [OF assms(1), of clk junk] assms(3) by (auto simp: matrices_fit_def)
  note c = assms(1) [unfolded config_ok_def]
  have "120 div 20 \<le> ?sz div 20" using c by (intro div_le_mono) simp
  then have "3 \<le> length xs" using s(3) by simp
  moreover have "length xs \<le> ?sz div 20" using s(3) by simp
  then have "length xs \<le> ?sz" by (rule order_trans) simp
  moreover have "?sz < 2 ^ 31" using c by (intro le_less_trans [of ?sz "2 ^ 18"]) simp_all
  ultimately have len: "3 \<le> length xs" "length xs < 2 ^ 31" by (simp_all only: le_less_trans)
  have "distinct (map (\<lambda>x. idx (lists s) (info (lists s) x)) xs)"
    using assms(2) s(6) mset_eq_imp_distinct_iff unfolding seeds_ok_def Let_def by blast
  then have "inj_on (\<lambda>x. sint (idx (lists s) (info (lists s) x))) (set xs)"
    by (auto simp: distinct_map inj_on_def dest!: signed_word_eqI)
  with s len have "list_ready (lists s) (res_list (res s))" unfolding list_ready_def by blast
  moreover have "res_ok (res s)"
  proof -
    have n: "n \<le> 181" using small_dim(2) [of n ?sz] c by simp
    then have "unat (of_nat n :: u32) = n" by (simp add: unat_of_nat)
    moreover have "undoable ?sz (ucast (seed1 ?r)) (memblock3 (res s))"
      using generated_undoable [OF s(7)] assms(2) unfolding seeds_ok_def Let_def by blast
    moreover have "Suc (?sz - 2) < length (memblock3 (res s))" "memblock3 (res s) ! (?sz - 2) = 0"
      "memblock3 (res s) ! Suc (?sz - 2) = 0"
      using s(7) c by (auto simp: generated_def Suc_diff_Suc numeral_2_eq_2)
    ultimately show ?thesis
      using s(7-14,17) assms(2) by (auto simp: res_ok_def seeds_ok_def Let_def generated_def)
  qed
  ultimately show ?thesis using s by blast
qed

text \<open>C28: The whole program ends, without undefined behaviour in any of its parts, for every given (nonzero) number of
  iterations and every clock: initialisation, all iterations of the three algorithms, check and report succeed,
  \<open>main\<close> ends with status 0, and the list is left as it was built. The conditions: \<open>config_ok\<close> on the sizes,
  \<open>seeds_ok\<close> (the input of the state machine can be restored, the list indices are distinct) and
  \<open>matrices_fit\<close> (no sum over the generated matrices leaves 32 bits); the standard configuration meets them.\<close>

theorem coremark_completes:
  assumes "config_ok sv total_size block n" "seeds_ok sv total_size" "matrices_fit sv total_size block" "bench_ok ms b"
  shows "\<exists>s t b'. coremark_init ticks junk sv total_size block coremark_globals = Some s \<and> lists t = lists s \<and>
    main_program skip tgt clk ms (coremark_program ticks junk sv ts total_size block) coremark_globals b =
      Some (final_ending tgt (Returned 0), t, b')"
proof -
  obtain s where s: "coremark_init ticks junk sv total_size block coremark_globals = Some s"
    "list_ready (lists s) (res_list (res s))" "res_ok (res s)" "total_errors s = 0" "known_id s = - 1"
    using coremark_init_ready [OF assms(1-3)] by blast
  obtain t where t: "coremark_run ticks junk s = Some t" "lists t = lists s" "total_errors t = 0" "known_id t = - 1"
    using coremark_run_ok [OF s(2,3), of ticks junk] s(4,5) by auto
  obtain u where u: "coremark_deinit ts t = Some u" "lists u = lists t"
    using coremark_deinit_total [OF t(4)] coremark_deinit_lists by blast
  have "steps (the_steps skip (coremark_program ticks junk sv ts total_size block)) coremark_globals = Some (Returned 0, u)"
    using s(1) t u by (simp add: the_steps_def coremark_program_def coremark_check_def)
  from main_by_steps [OF assms(4) this] s(1) t(2) u(2) show ?thesis by metis
qed

text \<open>C26: The verdict: when the checksum of the seeds and the size is the code of a standard configuration, the errors counted
  are the algorithms that ran with a checksum other than the one known for it, the wrong data types, and one
  when fewer than ten ticks passed.\<close>

theorem coremark_verdict:
  assumes "k < 5" "seed_code (res s) (seedcrc s) = seed_codes ! k" "total_errors s = 0"
  shows "\<exists>t. coremark_deinit ts s = Some t \<and>
    total_errors t = of_nat (wrong_crcs k (res s)) + ucast (check_data_types ts) + of_bool (get_time s < 10)"
  using coremark_deinit_known [OF assms(1,2), of ts] assms(3) by auto

lemma lfsr_16: "(lfsr ^^ 16) x =
    lfsr (lfsr (lfsr (lfsr (lfsr (lfsr (lfsr (lfsr (lfsr (lfsr (lfsr (lfsr (lfsr (lfsr (lfsr (lfsr x)))))))))))))))"
  by (simp add: numeral_eq_Suc)

lemmas crc16_eval = crc16_def crcu16_lfsr lfsr_16 lfsr_def bit_0

text \<open>The configurations behind the codes are those the comments in the code name.\<close>

lemma seed_codes_documented:
  "seed_code (no_results\<lparr>seed1 := 0, seed2 := 0, seed3 := 0x66, res_size := 2000\<rparr>) 0 = seed_codes ! 0"
  "seed_code (no_results\<lparr>seed1 := 0x3415, seed2 := 0x3415, seed3 := 0x66, res_size := 2000\<rparr>) 0 = seed_codes ! 1"
  "seed_code (no_results\<lparr>seed1 := 8, seed2 := 8, seed3 := 8, res_size := 400\<rparr>) 0 = seed_codes ! 2"
  "seed_code (no_results\<lparr>seed1 := 0, seed2 := 0, seed3 := 0x66, res_size := 666\<rparr>) 0 = seed_codes ! 3"
  "seed_code (no_results\<lparr>seed1 := 0x3415, seed2 := 0x3415, seed3 := 0x66, res_size := 666\<rparr>) 0 = seed_codes ! 4"
  by (simp_all add: seed_code_def seed_codes_def no_results_def crc16_eval)

section \<open>The configuration of the repository\<close>

text \<open>\<open>PERFORMANCE_RUN\<close> with ten iterations and the default size, at some address; and the same seeds
  given as the shorthand of the validation run.\<close>

definition performance_seeds :: seeds where
  "performance_seeds =
     \<lparr>seed1_volatile = 0, seed2_volatile = 0, seed3_volatile = 0x66, seed4_volatile = 10, seed5_volatile = 0\<rparr>"

lemma performance_config: "config_ok performance_seeds 2000 0x1c000102 9"
  by (simp add: config_ok_def set_seeds_def get_seed_32_def performance_seeds_def ALL_ALGORITHMS_MASK_def Let_def
      no_results_def)

lemma performance_seeds_ok: "seeds_ok performance_seeds 2000"
proof -
  have "seed_ok 0" by (simp add: seed_ok_def intpat_def floatpat_def scipat_def errpat_def)
  then show ?thesis
    using standard_indices(1)
    by (simp add: seeds_ok_def set_seeds_def get_seed_32_def performance_seeds_def ALL_ALGORITHMS_MASK_def Let_def no_results_def)
qed

text \<open>The operator matrix for these seeds, and what its negative elements add up to.\<close>

lemma performance_matrices: "matrices_fit performance_seeds 2000 0x1c000102"
proof -
  let ?r = "set_seeds performance_seeds no_results"
  have seed: "matrix_seed ?r = 0"
    by (simp add: matrix_seed_def set_seeds_def get_seed_32_def performance_seeds_def Let_def no_results_def)
  have "8 * (9 * 9) + 3 \<le> unat (666 :: u32)" "unat (666 :: u32) \<le> 8 * (Suc 9 * Suc 9)" "unat (666 :: u32) \<le> 2 ^ 18"
    "0 < unat (0x1c00039c :: u32)" "unat (0x1c00039c :: u32) + unat (666 :: u32) < 2 ^ 32" by simp_all
  from matrix_init_ok [OF this, of 0] obtain at p where p: "matrix_init 666 0x1c00039c 0 = Some (at, p)"
    "mat_N p = of_nat 9" "length (mat_A p) = 9 * 9" "length (mat_B p) = 9 * 9" "\<forall>a \<in> set (mat_A p). a \<le> 0xff"
    by blast
  have "(\<Sum>b\<leftarrow>mat_B p. neg_part b) = 135349"
  proof -
    have "mat_B p = init_B 81 1 1" using matrix_init_B [OF p(1)] p(4) by simp
    then show ?thesis by (simp only: negative_sum)
  qed
  then have "matrices_ok p"
    using p unfolding matrices_ok_def by (auto intro!: mat_fits_by_sum nibble_twice_byte)
  then show ?thesis by (simp add: matrices_fit_def seed p(1))
qed

definition sample_types :: type_sizes where
  "sample_types = \<lparr>sz_u8 = 1, sz_u16 = 2, sz_s16 = 2, sz_s32 = 4, sz_u32 = 4, sz_ptr_int = 4, sz_int_ptr = 4\<rparr>"

theorem coremark_layout_witness:
  "\<exists>s xs. coremark_init of_nat (\<lambda>_ _. 7) performance_seeds 2000 0x1c000102 coremark_globals = Some s \<and>
    wf (lists s) (res_list (res s)) xs \<and> length xs = 30 \<and> well_placed 0x1c000102 2000 666 9 xs s"
  using coremark_layout [OF performance_config, of of_nat "\<lambda>_ _. 7"] by simp

theorem coremark_completes_witness:
  "\<exists>s t b'. coremark_init of_nat (\<lambda>_ _. 7) performance_seeds 2000 0x1c000102 coremark_globals = Some s \<and> lists t = lists s \<and>
    main_program False OTHER_TARGET (\<lambda>k n. of_nat n) [0]
      (coremark_program of_nat (\<lambda>_ _. 7) performance_seeds sample_types 2000 0x1c000102) coremark_globals
      \<lparr>temp = [[0, 0, 0, 0]], reads = 0, printed = []\<rparr> =
      Some (final_ending OTHER_TARGET (Returned 0), t, b')"
  using coremark_completes [OF performance_config performance_seeds_ok performance_matrices,
      of "[0]" "\<lparr>temp = [[0, 0, 0, 0]], reads = 0, printed = []\<rparr>" of_nat "\<lambda>_ _. 7" False OTHER_TARGET "\<lambda>k n. of_nat n"]
  by (auto simp: bench_ok_def)

definition verdict_state :: coremark where
  "verdict_state = coremark_globals\<lparr>stop_time_val := 1000,
     res := no_results\<lparr>seed3 := 0x66, res_size := 666, execs := 7, crclist := 0xe714, crcmatrix := 0x1fd7, crcstate := 1\<rparr>\<rparr>"

theorem coremark_verdict_witness:
  "\<exists>t. coremark_deinit sample_types verdict_state = Some t \<and> total_errors t = 1"
proof -
  have "seed_code (res verdict_state) (seedcrc verdict_state) = seed_codes ! 3"
    using seed_codes_documented(4) by (simp add: verdict_state_def coremark_globals_def seed_code_def no_results_def)
  then obtain t where "coremark_deinit sample_types verdict_state = Some t"
    "total_errors t = of_nat (wrong_crcs 3 (res verdict_state)) + ucast (check_data_types sample_types) +
       of_bool (get_time verdict_state < 10)"
    using coremark_verdict [of 3 verdict_state sample_types] by (auto simp: verdict_state_def coremark_globals_def)
  moreover have "wrong_crcs 3 (res verdict_state) = 1"
    by (simp add: wrong_crcs_def verdict_state_def list_known_crc_def matrix_known_crc_def state_known_crc_def
        ID_LIST_def ID_MATRIX_def ID_STATE_def)
  moreover have "check_data_types sample_types = 0" by (simp add: check_data_types_0 sample_types_def)
  moreover have "\<not> get_time verdict_state < 10" by (simp add: get_time_def verdict_state_def coremark_globals_def)
  ultimately show ?thesis by simp
qed

section \<open>Departures\<close>

text \<open>The errors are counted in \<open>mlonmcu_deinit\<close>, but \<open>main\<close> calls \<open>mlonmcu_check\<close> before it: the check reads the counter
  while it is still 0 and passes, whatever the checksums are.\<close>

lemma coremark_check_too_early:
  assumes "coremark_run clk junk s = Some t" "total_errors s = 0"
  shows "coremark_check t = 0"
  using assms by (auto simp: coremark_run_def start_time_def stop_time_def Let_def bind_Some_iff coremark_check_def)

text \<open>With seeds that are not known the counter starts at -1, and a run of fewer than ten ticks adds one: the
  report is then that the operation is correct.\<close>

lemma coremark_short_unknown:
  assumes "seed_code (res s) (seedcrc s) \<notin> set seed_codes" "known_id s = - 1" "get_time s < 10" "check_data_types ts = 0"
  shows "\<exists>t. coremark_deinit ts s = Some t \<and> Correct_operation \<in> set (reports t)"
  using coremark_deinit_unknown [OF assms(1,2), of ts] assms(3,4) by auto

end
