(* ===== verification/CLib.thy ===== *)
theory CLib
  imports Prelude
begin

text \<open>
  The parts of the C library the input and output code uses: string literals, \<open>atoi\<close>,
  \<open>strcmp\<close>, \<open>strtok\<close> on one separator, \<open>fgets\<close>, and files as a byte sequence with a
  position. A file is absent (\<open>None\<close>) or its contents; \<open>handles\<close> counts the streams that
  were opened and not closed.
\<close>

section \<open>Strings\<close>

definition str :: "string \<Rightarrow> u8 list" where
  "str s = map of_char s"

lemma str_simps [simp]:
  "str [] = []" "str (c # s) = of_char c # str s" "length (str s) = length s"
  by (simp_all add: str_def)

lemma str_append [simp]: "str (s @ t) = str s @ str t"
  by (simp add: str_def)

definition is_space :: "u8 \<Rightarrow> bool" where
  "is_space c \<longleftrightarrow> c = 0x20 \<or> 0x09 \<le> c \<and> c \<le> 0x0d"

text \<open>\<open>atoi\<close>; the value must be an \<open>int\<close>.\<close>

definition atoi :: "u8 list \<Rightarrow> int option" where
  "atoi s =
     (let s = dropWhile is_space s in
      if cch s = 0x2d then chk32 (- int (dec_val (takeWhile is_dec (tl s))))
      else chk32 (int (dec_val (takeWhile is_dec (if cch s = 0x2b then tl s else s)))))"

lemma takeWhile_dec_str: "\<not> is_dec (cch t) \<Longrightarrow> takeWhile is_dec (dec_str n @ t) = dec_str n"
  using dec_str_digits [of _ n] by (cases t) (auto simp: takeWhile_append2)

lemma is_dec_0 [simp]: "\<not> is_dec 0"
  by (simp add: is_dec_def)

lemma is_dec_not_space: "is_dec c \<Longrightarrow> \<not> is_space c \<and> c \<noteq> 0x2d \<and> c \<noteq> 0x2b"
  by (auto simp: is_dec_def is_space_def word_le_nat_alt)

lemma atoi_dec_str:
  assumes "n < 2 ^ 31" "\<not> is_dec (cch t)"
  shows "atoi (dec_str n @ t) = Some (int n)"
proof -
  obtain c ds where c: "dec_str n = c # ds" using dec_str_Cons by blast
  then have "is_dec c" using dec_str_digits [of c n] by simp
  then have "dropWhile is_space (dec_str n @ t) = dec_str n @ t" "cch (dec_str n @ t) \<noteq> 0x2d" "cch (dec_str n @ t) \<noteq> 0x2b"
    using is_dec_not_space c by auto
  moreover have "chk32 (int n) = Some (int n)" using assms(1) by (simp add: chk32_def)
  ultimately show ?thesis by (simp add: atoi_def Let_def takeWhile_dec_str [OF assms(2)])
qed

text \<open>\<open>strtok\<close> with a single separator: the maximal runs of other bytes.\<close>

function tokens :: "u8 \<Rightarrow> u8 list \<Rightarrow> u8 list list" where
  "tokens d s =
     (let s = dropWhile (\<lambda>c. c = d) s in
      if s = [] then [] else takeWhile (\<lambda>c. c \<noteq> d) s # tokens d (dropWhile (\<lambda>c. c \<noteq> d) s))"
  by pat_completeness auto
termination
proof (relation "measure (\<lambda>(d, s). length s)", goal_cases)
  case (2 d s x)
  then obtain c r where x: "dropWhile (\<lambda>c. c = d) s = c # r" by (cases "dropWhile (\<lambda>c. c = d) s") auto
  then have "c \<noteq> d" using hd_dropWhile [of "\<lambda>c. c = d" s] by auto
  then have "length (dropWhile (\<lambda>c. c \<noteq> d) (c # r)) \<le> length r" by (simp add: length_dropWhile_le)
  also have "length r < length (dropWhile (\<lambda>c. c = d) s)" by (simp add: x)
  also have "\<dots> \<le> length s" by (rule length_dropWhile_le)
  finally show ?case using 2 x by simp
qed simp

declare tokens.simps [simp del]

text \<open>\<open>fgets\<close> with a buffer of \<open>n\<close> bytes: up to \<open>n - 1\<close> bytes, ending behind a newline;
  \<open>None\<close> at the end of the input. The result is the line and the rest of the input.\<close>

definition fgets :: "nat \<Rightarrow> u8 list \<Rightarrow> (u8 list \<times> u8 list) option" where
  "fgets n inp =
     (if inp = [] then None
      else let k = min (n - 1) (length (takeWhile (\<lambda>c. c \<noteq> 0x0a) inp) + 1)
           in Some (take k inp, drop k inp))"

section \<open>Files\<close>

record fstate =
  content :: "u8 list option"
  handles :: nat

text \<open>Writing \<open>bs\<close> at position \<open>p\<close>, inside the file or at its end.\<close>

definition fput :: "u8 list \<Rightarrow> u8 list \<times> nat \<Rightarrow> u8 list \<times> nat" where
  "fput bs fp = (take (snd fp) (fst fp) @ bs @ drop (snd fp + length bs) (fst fp), snd fp + length bs)"

text \<open>Reading up to \<open>n\<close> bytes at position \<open>p\<close> into a buffer; \<open>None\<close> if they do not fit.\<close>

definition fread :: "u8 list \<Rightarrow> nat \<Rightarrow> nat \<Rightarrow> u8 list \<Rightarrow> (u8 list \<times> nat) option" where
  "fread f p n buf =
     (let bs = take n (drop p f) in
      if length bs \<le> length buf then Some (bs @ drop (length bs) buf, p + length bs) else None)"

text \<open>\<open>fseek\<close> relative to the start; a negative offset fails and leaves the position.\<close>

definition fseek_set :: "nat \<Rightarrow> u32 \<Rightarrow> nat" where
  "fseek_set p off = (if 0 \<le> sint off then unat off else p)"

lemma fput_end: "fput bs (f, length f) = (f @ bs, length (f @ bs))"
  by (simp add: fput_def)

end
