(* ===== verification/Dhrystone.thy ===== *)
theory Dhrystone
  imports CLib Harness
begin

text \<open>
  Dhrystone, \<open>src/lib/dhrystone\<close>, as the repository builds it (\<open>TIME\<close> and \<open>UNTIME\<close> are defined). The
  global variables are one record; the two records that \<open>malloc\<close> provides are a map from addresses. A C
  \<open>int\<close> is an integer that every operation checks against the 32-bit range, and \<open>char\<close> is unsigned, as on
  RISC-V. An array index outside its array, an access through a null pointer, the use of a variable that
  was not set and a loop that does not end are \<open>None\<close>.
\<close>

section \<open>Data\<close>

datatype Enumeration = Ident_1 | Ident_2 | Ident_3 | Ident_4 | Ident_5

text \<open>Only the first variant of the union is ever used.\<close>

record Rec_Type =
  Ptr_Comp :: u32
  Discr :: Enumeration
  Enum_Comp :: Enumeration
  Int_Comp :: int
  Str_Comp :: "u8 list"

text \<open>What \<open>dhrystone_deinit\<close> prints: a value with the one it should have (none for an address), or the
  line about the time.\<close>

datatype shown = Num int | Chr u8 | Text "u8 list"
datatype printout = Value shown "shown option" | Too_Small | Speed int int

record dhry =
  Ptr_Glob :: u32
  Next_Ptr_Glob :: u32
  Int_Glob :: int
  Bool_Glob :: bool
  Ch_1_Glob :: u8
  Ch_2_Glob :: u8
  Arr_1_Glob :: "int list"
  Arr_2_Glob :: "int list list"
  Int_1_Loc :: int
  Int_2_Loc :: int
  Int_3_Loc :: int
  Ch_Index :: u8
  Enum_Loc :: Enumeration
  Str_1_Loc :: "u8 list"
  Str_2_Loc :: "u8 list"
  Run_Index :: int
  Number_Of_Runs :: int
  Begin_Time :: int
  End_Time :: int
  heap :: "u32 \<Rightarrow> Rec_Type option"
  console :: "printout list"

text \<open>The globals before the program starts.\<close>

definition dhry_globals :: dhry where
  "dhry_globals =
     \<lparr>Ptr_Glob = 0, Next_Ptr_Glob = 0, Int_Glob = 0, Bool_Glob = False, Ch_1_Glob = 0, Ch_2_Glob = 0,
      Arr_1_Glob = replicate 50 0, Arr_2_Glob = replicate 50 (replicate 50 0),
      Int_1_Loc = 0, Int_2_Loc = 0, Int_3_Loc = 0, Ch_Index = 0, Enum_Loc = Ident_1,
      Str_1_Loc = replicate 31 0, Str_2_Loc = replicate 31 0, Run_Index = 0, Number_Of_Runs = 0,
      Begin_Time = 0, End_Time = 0, heap = (\<lambda>_. None), console = []\<rparr>"

section \<open>The C library and memory\<close>

definition strcpy :: "u8 list \<Rightarrow> u8 list \<Rightarrow> u8 list option" where
  "strcpy dst src =
     (if length src < length dst then Some (src @ 0 # drop (length src + 1) dst) else None)"

fun strcmp :: "u8 list \<Rightarrow> u8 list \<Rightarrow> int option" where
  "strcmp (a # as) (b # bs) =
     (if a < b then Some (- 1) else if b < a then Some 1 else if a = 0 then Some 0 else strcmp as bs)"
| "strcmp as bs = None"

text \<open>The string \<open>printf\<close> shows.\<close>

definition c_string :: "u8 list \<Rightarrow> u8 list option" where
  "c_string s = (if 0 \<in> set s then Some (takeWhile (\<lambda>c. c \<noteq> 0) s) else None)"

text \<open>Division truncates towards 0.\<close>

definition cdiv :: "int \<Rightarrow> int \<Rightarrow> int option" where
  "cdiv a b = (if b = 0 then None else chk32 (sgn a * sgn b * (\<bar>a\<bar> div \<bar>b\<bar>)))"

definition index :: "int \<Rightarrow> nat option" where
  "index i = (if 0 \<le> i then Some (nat i) else None)"

definition put2 :: "int list list \<Rightarrow> nat \<Rightarrow> nat \<Rightarrow> int \<Rightarrow> int list list option" where
  "put2 a i j v = do { row \<leftarrow> rd a i; row \<leftarrow> wr row j v; wr a i row }"

definition rec_at :: "u32 \<Rightarrow> dhry \<Rightarrow> Rec_Type option" where
  "rec_at p s = (if p = 0 then None else heap s p)"

definition set_rec :: "u32 \<Rightarrow> (Rec_Type \<Rightarrow> Rec_Type) \<Rightarrow> dhry \<Rightarrow> dhry option" where
  "set_rec p f s = do { r \<leftarrow> rec_at p s; Some (s\<lparr>heap := (heap s)(p := Some (f r))\<rparr>) }"

text \<open>\<open>malloc (sizeof (Rec_Type))\<close> returned \<open>p\<close>, and the memory there happens to hold \<open>junk\<close>.\<close>

definition malloc_rec :: "u32 \<Rightarrow> Rec_Type \<Rightarrow> dhry \<Rightarrow> dhry" where
  "malloc_rec p junk s = (if p = 0 then s else s\<lparr>heap := (heap s)(p := Some junk)\<rparr>)"

section \<open>dhry\_2.c\<close>

definition Func_3 :: "Enumeration \<Rightarrow> bool" where
  "Func_3 Enum_Par_Val \<longleftrightarrow> Enum_Par_Val = Ident_3"

text \<open>Reference parameters are results: \<open>Proc_6\<close> and \<open>Proc_7\<close> return what they store.\<close>

definition Proc_6 :: "Enumeration \<Rightarrow> dhry \<Rightarrow> Enumeration" where
  "Proc_6 Enum_Val_Par s =
     (let r = Enum_Val_Par;
          r = (if \<not> Func_3 Enum_Val_Par then Ident_4 else r)
      in (case Enum_Val_Par of
            Ident_1 \<Rightarrow> Ident_1
          | Ident_2 \<Rightarrow> (if Int_Glob s > 100 then Ident_1 else Ident_4)
          | Ident_3 \<Rightarrow> Ident_2
          | Ident_4 \<Rightarrow> r
          | Ident_5 \<Rightarrow> Ident_3))"

definition Proc_7 :: "int \<Rightarrow> int \<Rightarrow> int option" where
  "Proc_7 Int_1_Par_Val Int_2_Par_Val =
     do { Int_Loc \<leftarrow> chk32 (Int_1_Par_Val + 2); chk32 (Int_2_Par_Val + Int_Loc) }"

definition Proc_8 ::
  "int list \<Rightarrow> int list list \<Rightarrow> int \<Rightarrow> int \<Rightarrow> dhry \<Rightarrow> (int list \<times> int list list \<times> dhry) option" where
  "Proc_8 a1 a2 Int_1_Par_Val Int_2_Par_Val s =
     do { Int_Loc \<leftarrow> chk32 (Int_1_Par_Val + 5);
          l \<leftarrow> index Int_Loc;
          a1 \<leftarrow> wr a1 l Int_2_Par_Val;
          v \<leftarrow> rd a1 l;
          a1 \<leftarrow> wr a1 (l + 1) v;
          a1 \<leftarrow> wr a1 (l + 30) Int_Loc;
          a2 \<leftarrow> for_range l (l + 2) (\<lambda>Int_Index a2. put2 a2 l Int_Index Int_Loc) a2;
          k \<leftarrow> index (Int_Loc - 1);
          row \<leftarrow> rd a2 l;
          old \<leftarrow> rd row k;
          v \<leftarrow> chk32 (old + 1);
          a2 \<leftarrow> put2 a2 l k v;
          v \<leftarrow> rd a1 l;
          a2 \<leftarrow> put2 a2 (l + 20) l v;
          Some (a1, a2, s\<lparr>Int_Glob := 5\<rparr>) }"

definition Func_1 :: "u8 \<Rightarrow> u8 \<Rightarrow> dhry \<Rightarrow> Enumeration \<times> dhry" where
  "Func_1 Ch_1_Par_Val Ch_2_Par_Val s =
     (if Ch_1_Par_Val \<noteq> Ch_2_Par_Val then (Ident_1, s) else (Ident_2, s\<lparr>Ch_1_Glob := Ch_1_Par_Val\<rparr>))"

text \<open>\<open>Ch_Loc\<close> is not set before the loop.\<close>

partial_function (option) Func_2_loop ::
  "u8 list \<Rightarrow> u8 list \<Rightarrow> int \<Rightarrow> u8 option \<Rightarrow> dhry \<Rightarrow> (int \<times> u8 option \<times> dhry) option" where
  [code]: "Func_2_loop Str_1_Par_Ref Str_2_Par_Ref Int_Loc Ch_Loc s =
     (if Int_Loc \<le> 2
      then do { i \<leftarrow> index Int_Loc;
                c1 \<leftarrow> rd Str_1_Par_Ref i;
                c2 \<leftarrow> rd Str_2_Par_Ref (i + 1);
                case Func_1 c1 c2 s of
                  (e, s) \<Rightarrow>
                    if e = Ident_1
                    then Func_2_loop Str_1_Par_Ref Str_2_Par_Ref (Int_Loc + 1) (Some 0x41) s
                    else Func_2_loop Str_1_Par_Ref Str_2_Par_Ref Int_Loc Ch_Loc s }
      else Some (Int_Loc, Ch_Loc, s))"

definition Func_2 :: "u8 list \<Rightarrow> u8 list \<Rightarrow> dhry \<Rightarrow> (bool \<times> dhry) option" where
  "Func_2 Str_1_Par_Ref Str_2_Par_Ref s =
     do { (Int_Loc, Ch, s) \<leftarrow> Func_2_loop Str_1_Par_Ref Str_2_Par_Ref 2 None s;
          Ch_Loc \<leftarrow> Ch;
          let Int_Loc = (if 0x57 \<le> Ch_Loc \<and> Ch_Loc < 0x5a then 7 else Int_Loc);
          if Ch_Loc = 0x52 then Some (True, s)
          else do { c \<leftarrow> strcmp Str_1_Par_Ref Str_2_Par_Ref;
                    if c > 0
                    then do { Int_Loc \<leftarrow> chk32 (Int_Loc + 7); Some (True, s\<lparr>Int_Glob := Int_Loc\<rparr>) }
                    else Some (False, s) } }"

section \<open>dhry\_1.c\<close>

definition Proc_5 :: "dhry \<Rightarrow> dhry" where
  "Proc_5 s = s\<lparr>Ch_1_Glob := 0x41, Bool_Glob := False\<rparr>"

definition Proc_4 :: "dhry \<Rightarrow> dhry" where
  "Proc_4 s =
     (let Bool_Loc = (Ch_1_Glob s = 0x41)
      in s\<lparr>Bool_Glob := Bool_Loc \<or> Bool_Glob s, Ch_2_Glob := 0x42\<rparr>)"

text \<open>The reference parameter of \<open>Proc_3\<close> is the component \<open>Ptr_Comp\<close> of the record at \<open>r\<close>.\<close>

definition Proc_3 :: "u32 \<Rightarrow> dhry \<Rightarrow> dhry option" where
  "Proc_3 r s =
     do { s \<leftarrow> (if Ptr_Glob s \<noteq> 0
               then do { g \<leftarrow> rec_at (Ptr_Glob s) s; set_rec r (\<lambda>x. x\<lparr>Ptr_Comp := Ptr_Comp g\<rparr>) s }
               else Some s);
          v \<leftarrow> Proc_7 10 (Int_Glob s);
          set_rec (Ptr_Glob s) (\<lambda>x. x\<lparr>Int_Comp := v\<rparr>) s }"

text \<open>The loop of \<open>Proc_2\<close> on \<open>Int_Loc\<close>, the variable referred to and the local \<open>Enum_Loc\<close>.\<close>

partial_function (option) Proc_2_loop :: "int \<Rightarrow> int \<Rightarrow> Enumeration option \<Rightarrow> dhry \<Rightarrow> int option" where
  [code]: "Proc_2_loop Int_Loc ref Enum s =
     do { (Int_Loc, ref, Enum) \<leftarrow>
            (if Ch_1_Glob s = 0x41
             then do { Int_Loc \<leftarrow> chk32 (Int_Loc - 1); v \<leftarrow> chk32 (Int_Loc - Int_Glob s); Some (Int_Loc, v, Some Ident_1) }
             else Some (Int_Loc, ref, Enum));
          e \<leftarrow> Enum;
          if e \<noteq> Ident_1 then Proc_2_loop Int_Loc ref Enum s else Some ref }"

definition Proc_2 :: "int \<Rightarrow> dhry \<Rightarrow> int option" where
  "Proc_2 ref s = do { Int_Loc \<leftarrow> chk32 (ref + 10); Proc_2_loop Int_Loc ref None s }"

definition Proc_1 :: "u32 \<Rightarrow> dhry \<Rightarrow> dhry option" where
  "Proc_1 Ptr_Val_Par s =
     do { r \<leftarrow> rec_at Ptr_Val_Par s;
          let Next_Record = Ptr_Comp r;
          g \<leftarrow> rec_at (Ptr_Glob s) s;
          s \<leftarrow> set_rec Next_Record (\<lambda>_. g) s;
          s \<leftarrow> set_rec Ptr_Val_Par (\<lambda>x. x\<lparr>Int_Comp := 5\<rparr>) s;
          r \<leftarrow> rec_at Ptr_Val_Par s;
          s \<leftarrow> set_rec Next_Record (\<lambda>x. x\<lparr>Int_Comp := Int_Comp r\<rparr>) s;
          r \<leftarrow> rec_at Ptr_Val_Par s;
          s \<leftarrow> set_rec Next_Record (\<lambda>x. x\<lparr>Ptr_Comp := Ptr_Comp r\<rparr>) s;
          s \<leftarrow> Proc_3 Next_Record s;
          n \<leftarrow> rec_at Next_Record s;
          if Discr n = Ident_1
          then do { s \<leftarrow> set_rec Next_Record (\<lambda>x. x\<lparr>Int_Comp := 6\<rparr>) s;
                    r \<leftarrow> rec_at Ptr_Val_Par s;
                    s \<leftarrow> set_rec Next_Record (\<lambda>x. x\<lparr>Enum_Comp := Proc_6 (Enum_Comp r) s\<rparr>) s;
                    g \<leftarrow> rec_at (Ptr_Glob s) s;
                    s \<leftarrow> set_rec Next_Record (\<lambda>x. x\<lparr>Ptr_Comp := Ptr_Comp g\<rparr>) s;
                    n \<leftarrow> rec_at Next_Record s;
                    v \<leftarrow> Proc_7 (Int_Comp n) 10;
                    set_rec Next_Record (\<lambda>x. x\<lparr>Int_Comp := v\<rparr>) s }
          else do { r \<leftarrow> rec_at Ptr_Val_Par s;
                    n \<leftarrow> rec_at (Ptr_Comp r) s;
                    set_rec Ptr_Val_Par (\<lambda>_. n) s } }"

text \<open>The three string literals of the benchmark.\<close>

definition some_string :: "u8 list" where "some_string = str ''DHRYSTONE PROGRAM, SOME STRING''"
definition string_1 :: "u8 list" where "string_1 = str ''DHRYSTONE PROGRAM, 1'ST STRING''"
definition string_2 :: "u8 list" where "string_2 = str ''DHRYSTONE PROGRAM, 2'ND STRING''"
definition string_3 :: "u8 list" where "string_3 = str ''DHRYSTONE PROGRAM, 3'RD STRING''"

partial_function (option) int_loop :: "dhry \<Rightarrow> dhry option" where
  [code]: "int_loop s =
     (if Int_1_Loc s < Int_2_Loc s
      then do { v \<leftarrow> chk32 (5 * Int_1_Loc s);
                v \<leftarrow> chk32 (v - Int_2_Loc s);
                let s = s\<lparr>Int_3_Loc := v\<rparr>;
                v \<leftarrow> Proc_7 (Int_1_Loc s) (Int_2_Loc s);
                let s = s\<lparr>Int_3_Loc := v\<rparr>;
                v \<leftarrow> chk32 (Int_1_Loc s + 1);
                int_loop (s\<lparr>Int_1_Loc := v\<rparr>) }
      else Some s)"

partial_function (option) char_loop :: "dhry \<Rightarrow> dhry option" where
  [code]: "char_loop s =
     (if Ch_Index s \<le> Ch_2_Glob s
      then case Func_1 (Ch_Index s) 0x43 s of
             (e, s) \<Rightarrow>
               do { s \<leftarrow> (if Enum_Loc s = e
                         then do { let s = s\<lparr>Enum_Loc := Proc_6 Ident_1 s\<rparr>;
                                   t \<leftarrow> strcpy (Str_2_Loc s) string_3;
                                   Some (s\<lparr>Str_2_Loc := t, Int_2_Loc := Run_Index s, Int_Glob := Run_Index s\<rparr>) }
                         else Some s);
                    char_loop (s\<lparr>Ch_Index := Ch_Index s + 1\<rparr>) }
      else Some s)"

text \<open>One run, the body of the loop over \<open>Run_Index\<close>.\<close>

definition run_body :: "dhry \<Rightarrow> dhry option" where
  "run_body s =
     do { let s = Proc_4 (Proc_5 s);
          let s = s\<lparr>Int_1_Loc := 2, Int_2_Loc := 3\<rparr>;
          t \<leftarrow> strcpy (Str_2_Loc s) string_2;
          let s = s\<lparr>Str_2_Loc := t, Enum_Loc := Ident_2\<rparr>;
          (b, s) \<leftarrow> Func_2 (Str_1_Loc s) (Str_2_Loc s) s;
          let s = s\<lparr>Bool_Glob := \<not> b\<rparr>;
          s \<leftarrow> int_loop s;
          (a1, a2, s) \<leftarrow> Proc_8 (Arr_1_Glob s) (Arr_2_Glob s) (Int_1_Loc s) (Int_3_Loc s) s;
          let s = s\<lparr>Arr_1_Glob := a1, Arr_2_Glob := a2\<rparr>;
          s \<leftarrow> Proc_1 (Ptr_Glob s) s;
          s \<leftarrow> char_loop (s\<lparr>Ch_Index := 0x41\<rparr>);
          v \<leftarrow> chk32 (Int_2_Loc s * Int_1_Loc s);
          let s = s\<lparr>Int_2_Loc := v\<rparr>;
          v \<leftarrow> cdiv (Int_2_Loc s) (Int_3_Loc s);
          let s = s\<lparr>Int_1_Loc := v\<rparr>;
          v \<leftarrow> chk32 (Int_2_Loc s - Int_3_Loc s);
          v \<leftarrow> chk32 (7 * v);
          v \<leftarrow> chk32 (v - Int_1_Loc s);
          let s = s\<lparr>Int_2_Loc := v\<rparr>;
          v \<leftarrow> Proc_2 (Int_1_Loc s) s;
          Some (s\<lparr>Int_1_Loc := v\<rparr>) }"

partial_function (option) run_loop :: "dhry \<Rightarrow> dhry option" where
  [code]: "run_loop s =
     (if Run_Index s \<le> Number_Of_Runs s
      then do { s \<leftarrow> run_body s; i \<leftarrow> chk32 (Run_Index s + 1); run_loop (s\<lparr>Run_Index := i\<rparr>) }
      else Some s)"

definition dhrystone_main :: "dhry \<Rightarrow> dhry option" where
  "dhrystone_main s = run_loop (s\<lparr>Run_Index := 1\<rparr>)"

text \<open>With \<open>UNTIME\<close> the file defines \<open>time\<close> itself.\<close>

definition time :: int where "time = 0"

text \<open>\<open>n\<close> is \<open>NUMBER_OF_RUNS\<close>; \<open>m1\<close> and \<open>m2\<close> are what the two calls of \<open>malloc\<close> return.\<close>

definition dhrystone_init :: "int \<Rightarrow> u32 \<times> Rec_Type \<Rightarrow> u32 \<times> Rec_Type \<Rightarrow> dhry \<Rightarrow> dhry option" where
  "dhrystone_init n m1 m2 s =
     do { let s = (malloc_rec (fst m1) (snd m1) s)\<lparr>Next_Ptr_Glob := fst m1\<rparr>;
          let s = (malloc_rec (fst m2) (snd m2) s)\<lparr>Ptr_Glob := fst m2\<rparr>;
          s \<leftarrow> set_rec (Ptr_Glob s) (\<lambda>x. x\<lparr>Ptr_Comp := Next_Ptr_Glob s\<rparr>) s;
          s \<leftarrow> set_rec (Ptr_Glob s) (\<lambda>x. x\<lparr>Discr := Ident_1\<rparr>) s;
          s \<leftarrow> set_rec (Ptr_Glob s) (\<lambda>x. x\<lparr>Enum_Comp := Ident_3\<rparr>) s;
          s \<leftarrow> set_rec (Ptr_Glob s) (\<lambda>x. x\<lparr>Int_Comp := 40\<rparr>) s;
          g \<leftarrow> rec_at (Ptr_Glob s) s;
          t \<leftarrow> strcpy (Str_Comp g) some_string;
          s \<leftarrow> set_rec (Ptr_Glob s) (\<lambda>x. x\<lparr>Str_Comp := t\<rparr>) s;
          t \<leftarrow> strcpy (Str_1_Loc s) string_1;
          a2 \<leftarrow> put2 (Arr_2_Glob s) 8 7 10;
          Some (s\<lparr>Str_1_Loc := t, Arr_2_Glob := a2, Number_Of_Runs := n, Begin_Time := time\<rparr>) }"

fun ord_of :: "Enumeration \<Rightarrow> int" where
  "ord_of Ident_1 = 0" | "ord_of Ident_2 = 1" | "ord_of Ident_3 = 2" | "ord_of Ident_4 = 3" | "ord_of Ident_5 = 4"

definition Too_Small_Time :: int where "Too_Small_Time = 2"

definition dhrystone_deinit :: "dhry \<Rightarrow> dhry option" where
  "dhrystone_deinit s =
     do { let s = s\<lparr>End_Time := time\<rparr>;
          a8 \<leftarrow> rd (Arr_1_Glob s) 8;
          row \<leftarrow> rd (Arr_2_Glob s) 8;
          a87 \<leftarrow> rd row 7;
          g \<leftarrow> rec_at (Ptr_Glob s) s;
          gs \<leftarrow> c_string (Str_Comp g);
          n \<leftarrow> rec_at (Next_Ptr_Glob s) s;
          ns \<leftarrow> c_string (Str_Comp n);
          s1 \<leftarrow> c_string (Str_1_Loc s);
          s2 \<leftarrow> c_string (Str_2_Loc s);
          let vs =
            [Value (Num (Int_Glob s)) (Some (Num 5)), Value (Num (of_bool (Bool_Glob s))) (Some (Num 1)),
             Value (Chr (Ch_1_Glob s)) (Some (Chr 0x41)), Value (Chr (Ch_2_Glob s)) (Some (Chr 0x42)),
             Value (Num a8) (Some (Num 7)), Value (Num a87) (Some (Num (Number_Of_Runs s + 10))),
             Value (Num (sint (Ptr_Comp g))) None, Value (Num (ord_of (Discr g))) (Some (Num 0)),
             Value (Num (ord_of (Enum_Comp g))) (Some (Num 2)), Value (Num (Int_Comp g)) (Some (Num 17)),
             Value (Text gs) (Some (Text some_string)),
             Value (Num (sint (Ptr_Comp n))) (Some (Num (sint (Ptr_Comp g)))), Value (Num (ord_of (Discr n))) (Some (Num 0)),
             Value (Num (ord_of (Enum_Comp n))) (Some (Num 1)), Value (Num (Int_Comp n)) (Some (Num 18)),
             Value (Text ns) (Some (Text some_string)),
             Value (Num (Int_1_Loc s)) (Some (Num 5)), Value (Num (Int_2_Loc s)) (Some (Num 13)),
             Value (Num (Int_3_Loc s)) (Some (Num 7)), Value (Num (ord_of (Enum_Loc s))) (Some (Num 1)),
             Value (Text s1) (Some (Text string_1)), Value (Text s2) (Some (Text string_2))];
          User_Time \<leftarrow> chk32 (End_Time s - Begin_Time s);
          let t = (if User_Time < Too_Small_Time then Too_Small else Speed User_Time (Number_Of_Runs s));
          Some (s\<lparr>console := console s @ vs @ [t]\<rparr>) }"

section \<open>dhrystone.c\<close>

definition dhrystone_program :: "int \<Rightarrow> u32 \<times> Rec_Type \<Rightarrow> u32 \<times> Rec_Type \<Rightarrow> dhry benchmark" where
  "dhrystone_program n m1 m2 =
     \<lparr>mlonmcu_init = \<lambda>s. do { s \<leftarrow> dhrystone_init n m1 m2 s; Some (Returned 0, s) },
      mlonmcu_run = \<lambda>s. do { s \<leftarrow> dhrystone_main s; Some (Returned 0, s) },
      mlonmcu_check = \<lambda>s. Some (Returned 0, s),
      mlonmcu_deinit = \<lambda>s. do { s \<leftarrow> dhrystone_deinit s; Some (Returned 0, s) }\<rparr>"

section \<open>One run\<close>

lemma index_eq [simp]: "0 \<le> i \<Longrightarrow> index i = Some (nat i)"
  by (simp add: index_def)

lemma strcpy_fit: "length dst = length src + 1 \<Longrightarrow> strcpy dst src = Some (src @ [0])"
  by (simp add: strcpy_def)

lemma strings [simp]: "length some_string = 30" "length string_1 = 30" "length string_2 = 30"
  by (simp_all add: some_string_def string_1_def string_2_def)

lemma Func_2_strings: "Func_2 (string_1 @ [0]) (string_2 @ [0]) s = Some (False, s)"
  by (simp add: Func_2_def Func_2_loop.simps [of _ _ 2] Func_2_loop.simps [of _ _ 3] Func_1_def string_1_def string_2_def
      nth_Cons' Let_def)

lemma int_loop_ok:
  assumes "Int_1_Loc s = 2" "Int_2_Loc s = 3"
  shows "int_loop s = Some (s\<lparr>Int_3_Loc := 7, Int_1_Loc := 3\<rparr>)"
  using assms by (subst int_loop.simps, simp add: Proc_7_def, subst int_loop.simps, simp)

lemma put2_Some: "i < length a \<Longrightarrow> j < length (a ! i) \<Longrightarrow> put2 a i j v = Some (a[i := (a ! i)[j := v]])"
  by (simp add: put2_def)

lemma Proc_8_ok:
  assumes "length a1 = 50" "length a2 = 50" "\<forall>i < 50. length (a2 ! i) = 50" "- (2 ^ 31) \<le> a2 ! 8 ! 7"
  shows "Proc_8 a1 a2 3 7 s =
    (if a2 ! 8 ! 7 < 2 ^ 31 - 1
     then Some (a1[8 := 7, 9 := 7, 38 := 8],
                a2[8 := (a2 ! 8)[8 := 8, 9 := 8, 7 := a2 ! 8 ! 7 + 1], 28 := (a2 ! 28)[8 := 7]],
                s\<lparr>Int_Glob := 5\<rparr>)
     else None)"
proof -
  have r: "length (a2 ! i) = 50" if "i < 50" for i using that assms by simp
  have "chk32 (a2 ! 8 ! 7 + 1) = (if a2 ! 8 ! 7 < 2 ^ 31 - 1 then Some (a2 ! 8 ! 7 + 1) else None)"
    using assms(4) by (simp add: chk32_def)
  then show ?thesis
    using r [of 8] r [of 28] assms
    by (simp add: Proc_8_def for_range_step put2_Some numeral_2_eq_2 [symmetric])
qed

lemma char_loop_ok:
  assumes "Ch_Index s = 0x41" "Ch_2_Glob s = 0x42" "Enum_Loc s = Ident_2"
  shows "char_loop s = Some (s\<lparr>Ch_Index := 0x43\<rparr>)"
  using assms
  by (subst char_loop.simps, simp add: Func_1_def, subst char_loop.simps, simp add: Func_1_def, subst char_loop.simps, simp)

lemma Proc_2_ok:
  assumes "Ch_1_Glob s = 0x41" "Int_Glob s = 5"
  shows "Proc_2 1 s = Some 5"
  using assms by (simp add: Proc_2_def Proc_2_loop.simps)

text \<open>The effect of \<open>Proc_1\<close> on the two records.\<close>

lemma Proc_1_ok:
  assumes "Ptr_Glob s = p" "p \<noteq> 0" "q \<noteq> 0" "p \<noteq> q" "heap s p = Some r" "Ptr_Comp r = q" "Discr r = Ident_1"
    "Enum_Comp r = Ident_3" "heap s q \<noteq> None" "Int_Glob s = 5"
  shows "Proc_1 p s = Some (s\<lparr>heap := (heap s)
    (p := Some (r\<lparr>Int_Comp := 17\<rparr>), q := Some (r\<lparr>Enum_Comp := Ident_2, Int_Comp := 18\<rparr>))\<rparr>)"
  using assms
  by (auto simp: Proc_1_def Proc_3_def Proc_6_def Proc_7_def Func_3_def rec_at_def set_rec_def Let_def fun_upd_twist)

text \<open>What holds before a run, after \<open>k\<close> of them.\<close>

definition ready :: "int \<Rightarrow> u32 \<Rightarrow> u32 \<Rightarrow> int \<Rightarrow> dhry \<Rightarrow> bool" where
  "ready n p q k s \<longleftrightarrow>
     Ptr_Glob s = p \<and> Next_Ptr_Glob s = q \<and> p \<noteq> 0 \<and> q \<noteq> 0 \<and> p \<noteq> q \<and>
     length (Arr_1_Glob s) = 50 \<and> length (Arr_2_Glob s) = 50 \<and> (\<forall>i < 50. length (Arr_2_Glob s ! i) = 50) \<and>
     Arr_2_Glob s ! 8 ! 7 = 10 + k \<and> Number_Of_Runs s = n \<and> Begin_Time s = time \<and>
     Str_1_Loc s = string_1 @ [0] \<and> length (Str_2_Loc s) = 31 \<and> heap s q \<noteq> None \<and>
     (\<exists>r. heap s p = Some r \<and> Ptr_Comp r = q \<and> Discr r = Ident_1 \<and> Enum_Comp r = Ident_3 \<and>
       Str_Comp r = some_string @ [0])"

text \<open>The values the program documents, after at least one run.\<close>

definition finished :: "dhry \<Rightarrow> bool" where
  "finished s \<longleftrightarrow>
     Int_Glob s = 5 \<and> Bool_Glob s \<and> Ch_1_Glob s = 0x41 \<and> Ch_2_Glob s = 0x42 \<and> Arr_1_Glob s ! 8 = 7 \<and>
     Int_1_Loc s = 5 \<and> Int_2_Loc s = 13 \<and> Int_3_Loc s = 7 \<and> Enum_Loc s = Ident_2 \<and> Str_2_Loc s = string_2 @ [0] \<and>
     (\<exists>g. heap s (Ptr_Glob s) = Some g \<and> Int_Comp g = 17 \<and>
       heap s (Next_Ptr_Glob s) = Some (g\<lparr>Int_Comp := 18, Enum_Comp := Ident_2\<rparr>))"

lemma run_body_ok:
  assumes "ready n p q k s" "0 \<le> k" "k < 2 ^ 31 - 11"
  shows "\<exists>s'. run_body s = Some s' \<and> ready n p q (k + 1) s' \<and> finished s' \<and> Run_Index s' = Run_Index s \<and> console s' = console s"
proof -
  obtain r where r: "heap s p = Some r" "Ptr_Comp r = q" "Discr r = Ident_1" "Enum_Comp r = Ident_3"
      "Str_Comp r = some_string @ [0]"
    using assms(1) by (auto simp: ready_def)
  have l: "length (Arr_2_Glob s ! 8) = 50" "length (Arr_2_Glob s ! 28) = 50"
    using assms(1) by (auto simp: ready_def)
  show ?thesis
    using assms r l
    by (simp add: run_body_def ready_def finished_def Proc_5_def Proc_4_def Let_def strcpy_fit Func_2_strings int_loop_ok
        Proc_8_ok Proc_1_ok [of _ p q r] char_loop_ok Proc_2_ok cdiv_def nth_list_update)
qed

text \<open>The run that makes \<open>Arr_2_Glob [8] [7]\<close> overflow.\<close>

lemma run_body_overflow:
  assumes "ready n p q (2 ^ 31 - 11) s"
  shows "run_body s = None"
  using assms
  by (simp add: run_body_def ready_def Proc_5_def Proc_4_def Let_def strcpy_fit Func_2_strings int_loop_ok Proc_8_ok)

lemma run_loop_ok:
  assumes "ready n p q k s" "0 \<le> k" "k \<le> 2 ^ 31 - 11" "Run_Index s = k + 1" "0 < k \<Longrightarrow> finished s" "k \<le> n" "0 < n"
  shows "if n \<le> 2 ^ 31 - 11
    then \<exists>s'. run_loop s = Some s' \<and> ready n p q n s' \<and> finished s' \<and> console s' = console s
    else run_loop s = None"
  using assms
proof (induction "nat (n - k)" arbitrary: k s rule: less_induct)
  case less
  have n: "Number_Of_Runs s = n" using less.prems(1) by (simp add: ready_def)
  show ?case
  proof (cases "k = n")
    case True
    with less.prems n show ?thesis by (simp add: run_loop.simps)
  next
    case False
    then have k: "k < n" using less.prems by simp
    show ?thesis
    proof (cases "k = 2 ^ 31 - 11")
      case True
      with k n less.prems show ?thesis by (simp add: run_loop.simps run_body_overflow)
    next
      case False
      then have "k < 2 ^ 31 - 11" using less.prems by simp
      then obtain t where t: "run_body s = Some t" "ready n p q (k + 1) t" "finished t"
          "Run_Index t = Run_Index s" "console t = console s"
        using run_body_ok [OF less.prems(1,2)] by auto
      let ?t = "t\<lparr>Run_Index := 2 + k\<rparr>"
      have step: "run_loop s = run_loop ?t"
        using t k n less.prems \<open>k < 2 ^ 31 - 11\<close> by (subst run_loop.simps) simp
      have "ready n p q (k + 1) ?t" "finished ?t" using t by (simp_all add: ready_def finished_def)
      moreover have "nat (n - (k + 1)) < nat (n - k)" using k by simp
      ultimately have "if n \<le> 2 ^ 31 - 11
          then \<exists>s'. run_loop ?t = Some s' \<and> ready n p q n s' \<and> finished s' \<and> console s' = console ?t
          else run_loop ?t = None"
        using less.prems(2,4,7) k \<open>k < 2 ^ 31 - 11\<close> t(4) by (intro less.hyps [of "k + 1"]) (simp_all add: add.commute)
      moreover have "console ?t = console s" using t(5) by simp
      ultimately show ?thesis by (simp only: step)
    qed
  qed
qed

lemma dhrystone_init_ok:
  assumes "q \<noteq> 0" "p \<noteq> 0" "p \<noteq> q" "length (Str_Comp d) = 31"
  shows "\<exists>s. dhrystone_init n (q, c) (p, d) dhry_globals = Some s \<and> ready n p q 0 s \<and> console s = []"
  using assms
  by (simp add: dhrystone_init_def malloc_rec_def set_rec_def rec_at_def strcpy_fit put2_Some ready_def dhry_globals_def
      nth_list_update Let_def)

lemma c_string_end: "0 \<notin> set xs \<Longrightarrow> c_string (xs @ [0]) = Some xs"
  by (simp add: c_string_def takeWhile_tail) (metis append.right_neutral takeWhile_append2 takeWhile.simps(2) takeWhile_eq_all_conv)

lemma no_zero [simp]: "0 \<notin> set some_string" "0 \<notin> set string_1" "0 \<notin> set string_2"
  by (simp_all add: some_string_def string_1_def string_2_def)

text \<open>A printed line agrees with what it says it should be.\<close>

fun agrees :: "printout \<Rightarrow> bool" where
  "agrees (Value v w) \<longleftrightarrow> w = None \<or> w = Some v"
| "agrees _ \<longleftrightarrow> True"

lemma dhrystone_deinit_ok:
  assumes "ready n p q n s" "finished s" "console s = []"
  shows "\<exists>s'. dhrystone_deinit s = Some s' \<and> length (console s') = 23 \<and> list_all agrees (console s') \<and> last (console s') = Too_Small"
  using assms
  by (auto simp: dhrystone_deinit_def ready_def finished_def rec_at_def c_string_end Let_def time_def Too_Small_Time_def)

section \<open>Correctness\<close>

text \<open>C25: For every positive number of runs that leaves room for the counter in \<open>Arr_2_Glob [8] [7]\<close> and any
  two distinct records from \<open>malloc\<close>, whatever they hold, initialisation, runs and report stay inside the arrays and
  strings, end, and every value printed is the one printed as what it should be.\<close>

theorem dhrystone_values:
  assumes "q \<noteq> 0" "p \<noteq> 0" "p \<noteq> q" "length (Str_Comp d) = 31" "0 < n" "n \<le> 2 ^ 31 - 11"
  shows "\<exists>s t u. dhrystone_init n (q, c) (p, d) dhry_globals = Some s \<and> dhrystone_main s = Some t \<and>
    dhrystone_deinit t = Some u \<and> length (console u) = 23 \<and> list_all agrees (console u)"
proof -
  obtain s where s: "dhrystone_init n (q, c) (p, d) dhry_globals = Some s" "ready n p q 0 s" "console s = []"
    using dhrystone_init_ok [OF assms(1-4)] by blast
  let ?s = "s\<lparr>Run_Index := 1\<rparr>"
  have "ready n p q 0 ?s" using s(2) by (simp add: ready_def)
  then obtain t where t: "run_loop ?s = Some t" "ready n p q n t" "finished t" "console t = console ?s"
    using run_loop_ok [of n p q 0 ?s] assms(5,6) by auto
  then obtain u where "dhrystone_deinit t = Some u" "length (console u) = 23" "list_all agrees (console u)"
    using dhrystone_deinit_ok [OF t(2,3)] s(3) by auto
  with s(1) t(1) show ?thesis by (auto simp: dhrystone_main_def)
qed

text \<open>The number of runs is limited exactly by that counter: the runs are free of undefined behaviour
  for up to 2147483637 of them, and with one more the counter, which starts at 10 and is incremented in every run,
  overflows.\<close>

theorem dhrystone_run_limit:
  assumes "q \<noteq> 0" "p \<noteq> 0" "p \<noteq> q" "length (Str_Comp d) = 31" "0 < n"
  shows "(Option.bind (dhrystone_init n (q, c) (p, d) dhry_globals) dhrystone_main \<noteq> None) = (n \<le> 2147483637)"
proof -
  obtain s where s: "dhrystone_init n (q, c) (p, d) dhry_globals = Some s" "ready n p q 0 s"
    using dhrystone_init_ok [OF assms(1-4)] by blast
  have "ready n p q 0 (s\<lparr>Run_Index := 1\<rparr>)" using s(2) by (simp add: ready_def)
  then show ?thesis
    using run_loop_ok [of n p q 0 "s\<lparr>Run_Index := 1\<rparr>"] assms(5) s(1) by (auto simp: dhrystone_main_def split: if_splits)
qed

definition sample_rec :: Rec_Type where
  "sample_rec = \<lparr>Ptr_Comp = 7, Discr = Ident_5, Enum_Comp = Ident_4, Int_Comp = 99, Str_Comp = replicate 31 0xff\<rparr>"

theorem dhrystone_values_witness:
  "\<exists>s t u. dhrystone_init 10 (0x2000, sample_rec) (0x2040, sample_rec) dhry_globals = Some s \<and>
    dhrystone_main s = Some t \<and> dhrystone_deinit t = Some u \<and> length (console u) = 23 \<and> list_all agrees (console u)"
  by (rule dhrystone_values) (simp_all add: sample_rec_def)

theorem dhrystone_run_limit_witness:
  "(Option.bind (dhrystone_init 2147483638 (0x2000, sample_rec) (0x2040, sample_rec) dhry_globals) dhrystone_main \<noteq> None) =
    ((2147483638 :: int) \<le> 2147483637)"
  by (rule dhrystone_run_limit) (simp_all add: sample_rec_def)

section \<open>Departures\<close>

text \<open>The time that is printed: both readings are the constant 0, so every run is reported as too short to measure.\<close>

lemma dhrystone_time:
  assumes "dhrystone_deinit s = Some t" "Begin_Time s = time"
  shows "last (console t) = Too_Small"
  using assms
  by (auto simp: dhrystone_deinit_def Let_def bind_Some_iff time_def Too_Small_Time_def chk32_eq_Some)

text \<open>The program passes its check whatever the benchmark computed.\<close>

lemma dhrystone_check_passes: "mlonmcu_check (dhrystone_program n m1 m2) s = Some (Returned 0, s)"
  by (simp add: dhrystone_program_def)

end
