(* ===== verification/GvsocEvents.thy ===== *)
theory GvsocEvents
  imports Prelude
begin

text \<open>
  What the drivers of the GVSOC target share, under \<open>src/cmake/targets/gvsoc/drivers\<close>: tasks with their
  notification (\<open>pmsis_task.c\<close>, \<open>os.h\<close>), the table of event handlers (\<open>fc_event.c\<close>), the masks of the
  event unit (\<open>soc_eu.h\<close>) and the clock gates of the micro-DMA (\<open>udma_ctrl.h\<close>). The semaphores are those of
  the operating system: the address a creation returns is an argument, and giving one is a counter.
\<close>

section \<open>State\<close>

text \<open>\<open>task_data\<close> is the array \<open>data[8]\<close>, which is only indexed by constants.\<close>

record pi_task =
  task_arg :: "nat \<Rightarrow> u32"
  task_id :: s32
  task_data :: "nat \<Rightarrow> u32"
  sem_object :: u32
  task_next :: u32
  task_done :: bool
  core_id :: s8
  destroy :: bool

definition PI_TASK_CALLBACK_ID :: s32 where "PI_TASK_CALLBACK_ID = 0"
definition PI_TASK_NONE_ID :: s32 where "PI_TASK_NONE_ID = 1"

text \<open>The functions the drivers enter into the table, and what an entry can be.\<close>

datatype driver_handler = PI_UART_HANDLER | SPIM_EOT_HANDLER | SPIM_TX_HANDLER | SPIM_RX_HANDLER
datatype fc_handler = Null_pointer | Null_event | Handler driver_handler

text \<open>\<open>sem_gives\<close> counts the gives of each semaphore, \<open>fc_mask\<close> are the mask registers of the event unit
  by number, \<open>clock_gate\<close> is \<open>UDMA_GC->CG\<close>, \<open>irq_on\<close> the interrupt enable bit.\<close>

record soc =
  tasks :: "u32 \<Rightarrow> pi_task option"
  sem_gives :: "u32 \<Rightarrow> nat"
  fc_event_handlers :: "fc_handler list"
  fc_mask :: "nat \<Rightarrow> u32"
  clock_gate :: u32
  irq_on :: bool
  irq_lines :: "nat set"

section \<open>Interrupts\<close>

definition disable_fc_irq :: "'a soc_scheme \<Rightarrow> bool \<times> 'a soc_scheme" where
  "disable_fc_irq s = (irq_on s, s\<lparr>irq_on := False\<rparr>)"

definition restore_fc_irq :: "bool \<Rightarrow> 'a soc_scheme \<Rightarrow> 'a soc_scheme" where
  "restore_fc_irq irq s = s\<lparr>irq_on := irq\<rparr>"

section \<open>Tasks\<close>

definition task_at :: "u32 \<Rightarrow> 'a soc_scheme \<Rightarrow> pi_task option" where
  "task_at p s = (if p = 0 then None else tasks s p)"

definition set_task :: "u32 \<Rightarrow> (pi_task \<Rightarrow> pi_task) \<Rightarrow> 'a soc_scheme \<Rightarrow> 'a soc_scheme option" where
  "set_task p f s = do { t \<leftarrow> task_at p s; Some (s\<lparr>tasks := (tasks s)(p := Some (f t))\<rparr>) }"

text \<open>\<open>sem\<close> is what \<open>xSemaphoreCreateCounting\<close> returns; 0 when there is no memory for it.\<close>

definition pi_task_block :: "u32 \<Rightarrow> u32 \<Rightarrow> 'a soc_scheme \<Rightarrow> 'a soc_scheme option" where
  "pi_task_block sem p s =
     set_task p (\<lambda>t. t\<lparr>task_id := PI_TASK_NONE_ID, task_done := False, sem_object := sem, destroy := True, core_id := - 1\<rparr>) s"

definition pi_task_block_no_mutex :: "u32 \<Rightarrow> 'a soc_scheme \<Rightarrow> 'a soc_scheme option" where
  "pi_task_block_no_mutex p s =
     set_task p (\<lambda>t. t\<lparr>task_id := PI_TASK_NONE_ID, task_done := False, sem_object := 0, destroy := False, core_id := - 1\<rparr>) s"

definition pi_task_callback :: "u32 \<Rightarrow> u32 \<Rightarrow> u32 \<Rightarrow> 'a soc_scheme \<Rightarrow> 'a soc_scheme option" where
  "pi_task_callback p func arg s =
     set_task p (\<lambda>t. t\<lparr>task_id := PI_TASK_CALLBACK_ID, task_arg := (task_arg t)(0 := func, 1 := arg), task_done := False,
                       sem_object := 0, destroy := False, core_id := - 1\<rparr>) s"

definition pi_task_destroy :: "u32 \<Rightarrow> 'a soc_scheme \<Rightarrow> 'a soc_scheme option" where
  "pi_task_destroy p s =
     do { t \<leftarrow> task_at p s;
          if destroy t
          then set_task p (\<lambda>t. t\<lparr>destroy := False, sem_object := 0\<rparr>) s
          else Some s }"

definition pi_task_release :: "u32 \<Rightarrow> 'a soc_scheme \<Rightarrow> 'a soc_scheme option" where
  "pi_task_release p s =
     do { t \<leftarrow> task_at p s;
          let s = (if sem_object t \<noteq> 0 then s\<lparr>sem_gives := (sem_gives s)(sem_object t := sem_gives s (sem_object t) + 1)\<rparr> else s);
          set_task p (\<lambda>t. t\<lparr>task_done := True\<rparr>) s }"

text \<open>\<open>pi_task_push\<close> waits no time, masks the interrupts and restores them: running the callback is not implemented.\<close>

definition pi_task_push :: "u32 \<Rightarrow> 'a soc_scheme \<Rightarrow> 'a soc_scheme" where
  "pi_task_push p s = (let (irq, s) = disable_fc_irq s in restore_fc_irq irq s)"

text \<open>\<open>while (!task->done);\<close> with the interrupts that arrive meanwhile: \<open>es\<close> are the events and
  \<open>handle\<close> what the interrupt does. Waiting for an event that never comes is \<open>None\<close>.\<close>

fun pi_task_wait_on ::
  "('e \<Rightarrow> 'a soc_scheme \<Rightarrow> 'a soc_scheme option) \<Rightarrow> 'e list \<Rightarrow> u32 \<Rightarrow> 'a soc_scheme \<Rightarrow> ('e list \<times> 'a soc_scheme) option" where
  "pi_task_wait_on handle [] p s =
     do { t \<leftarrow> task_at p s;
          if task_done t then do { s \<leftarrow> pi_task_destroy p s; Some ([], s) } else None }"
| "pi_task_wait_on handle (e # es) p s =
     do { t \<leftarrow> task_at p s;
          if task_done t then do { s \<leftarrow> pi_task_destroy p s; Some (e # es, s) }
          else do { s \<leftarrow> handle e s; pi_task_wait_on handle es p s } }"

section \<open>The event table\<close>

definition NB_SOC_EVENTS :: nat where "NB_SOC_EVENTS = 168"

definition pi_fc_event_handler_set :: "u32 \<Rightarrow> driver_handler \<Rightarrow> 'a soc_scheme \<Rightarrow> 'a soc_scheme option" where
  "pi_fc_event_handler_set event_id h s =
     do { hs \<leftarrow> wr (fc_event_handlers s) (unat event_id) (Handler h); Some (s\<lparr>fc_event_handlers := hs\<rparr>) }"

definition pi_fc_event_handler_clear :: "u32 \<Rightarrow> 'a soc_scheme \<Rightarrow> 'a soc_scheme option" where
  "pi_fc_event_handler_clear event_id s =
     do { hs \<leftarrow> wr (fc_event_handlers s) (unat event_id) Null_event; Some (s\<lparr>fc_event_handlers := hs\<rparr>) }"

definition pi_fc_event_handler_init :: "u32 \<Rightarrow> 'a soc_scheme \<Rightarrow> 'a soc_scheme option" where
  "pi_fc_event_handler_init fc_event_irq s =
     do { s \<leftarrow> for_range 0 NB_SOC_EVENTS (\<lambda>i. pi_fc_event_handler_clear (of_nat i)) s;
          Some (s\<lparr>irq_lines := insert (unat fc_event_irq) (irq_lines s)\<rparr>) }"

text \<open>\<open>fc_soc_event_handler\<close>: \<open>fifo\<close> is the word read from the event register; the result is the handler to
  run with its argument, if there is one.\<close>

definition fc_soc_event_handler :: "u32 \<Rightarrow> 'a soc_scheme \<Rightarrow> (driver_handler \<times> u32) option option" where
  "fc_soc_event_handler fifo s =
     do { let event = fifo AND 0xff;
          h \<leftarrow> rd (fc_event_handlers s) (unat event);
          Some (case h of Handler d \<Rightarrow> Some (d, event) | _ \<Rightarrow> None) }"

section \<open>Event masks and clock gates\<close>

definition hal_soc_eu_set_fc_mask :: "int \<Rightarrow> 'a soc_scheme \<Rightarrow> 'a soc_scheme" where
  "hal_soc_eu_set_fc_mask evt s =
     (if evt \<ge> 256 \<or> evt < 0 then s
      else let shift = nat (evt mod 32); reg = nat (evt div 32)
           in s\<lparr>fc_mask := (fc_mask s)(reg := fc_mask s reg AND NOT (push_bit shift 1))\<rparr>)"

definition hal_soc_eu_clear_fc_mask :: "int \<Rightarrow> 'a soc_scheme \<Rightarrow> 'a soc_scheme" where
  "hal_soc_eu_clear_fc_mask evt s =
     (if evt \<ge> 256 \<or> evt < 0 then s
      else let shift = nat (evt mod 32); reg = nat (evt div 32)
           in s\<lparr>fc_mask := (fc_mask s)(reg := fc_mask s reg OR push_bit shift 1)\<rparr>)"

definition udma_ctrl_cg_disable :: "nat \<Rightarrow> 'a soc_scheme \<Rightarrow> 'a soc_scheme" where
  "udma_ctrl_cg_disable udma_device_id s = s\<lparr>clock_gate := clock_gate s OR push_bit udma_device_id 1\<rparr>"

definition udma_ctrl_cg_enable :: "nat \<Rightarrow> 'a soc_scheme \<Rightarrow> 'a soc_scheme" where
  "udma_ctrl_cg_enable udma_device_id s = s\<lparr>clock_gate := clock_gate s AND NOT (push_bit udma_device_id 1)\<rparr>"

text \<open>An event is let through when its mask bit is 0.\<close>

definition event_open :: "nat \<Rightarrow> 'a soc_scheme \<Rightarrow> bool" where
  "event_open evt s \<longleftrightarrow> \<not> bit (fc_mask s (evt div 32)) (evt mod 32)"

lemma set_fc_mask_opens:
  assumes "e < 256"
  shows "event_open e' (hal_soc_eu_set_fc_mask (int e) s) \<longleftrightarrow> e' = e \<or> event_open e' s"
proof -
  have i: "nat (int e mod 32) = e mod 32" "nat (int e div 32) = e div 32"
    by (metis nat_int of_nat_mod of_nat_numeral, metis nat_int of_nat_div of_nat_numeral)
  have "e' = e \<longleftrightarrow> e' div 32 = e div 32 \<and> e' mod 32 = e mod 32" by (metis div_mult_mod_eq)
  moreover have "e mod 32 < 32" "e' mod 32 < 32" by simp_all
  ultimately show ?thesis
    using assms
    by (auto simp: event_open_def hal_soc_eu_set_fc_mask_def Let_def i bit_and_iff bit_not_iff bit_exp_iff)
qed

lemma clear_fc_mask_closes:
  assumes "e < 256"
  shows "event_open e' (hal_soc_eu_clear_fc_mask (int e) s) \<longleftrightarrow> e' \<noteq> e \<and> event_open e' s"
proof -
  have i: "nat (int e mod 32) = e mod 32" "nat (int e div 32) = e div 32"
    by (metis nat_int of_nat_mod of_nat_numeral, metis nat_int of_nat_div of_nat_numeral)
  have "e' = e \<longleftrightarrow> e' div 32 = e div 32 \<and> e' mod 32 = e mod 32" by (metis div_mult_mod_eq)
  moreover have "e mod 32 < 32" "e' mod 32 < 32" by simp_all
  ultimately show ?thesis
    using assms
    by (auto simp: event_open_def hal_soc_eu_clear_fc_mask_def Let_def i bit_or_iff bit_exp_iff)
qed

section \<open>Queues of tasks\<close>

text \<open>The drivers link the tasks they queue by \<open>next\<close>. \<open>nx\<close> is the link of each task; a null pointer ends the list.\<close>

fun chain :: "(u32 \<Rightarrow> u32 option) \<Rightarrow> u32 \<Rightarrow> u32 list \<Rightarrow> bool" where
  "chain nx x [] \<longleftrightarrow> x = 0"
| "chain nx x (p # ps) \<longleftrightarrow> x = p \<and> p \<noteq> 0 \<and> (case nx p of None \<Rightarrow> False | Some y \<Rightarrow> chain nx y ps)"

definition first_task :: "u32 list \<Rightarrow> u32" where
  "first_task ps = (case ps of [] \<Rightarrow> 0 | p # _ \<Rightarrow> p)"

definition last_task :: "u32 list \<Rightarrow> u32" where
  "last_task ps = (if ps = [] then 0 else last ps)"

definition links :: "'a soc_scheme \<Rightarrow> u32 \<Rightarrow> u32 option" where
  "links s p = map_option task_next (tasks s p)"

lemma chain_first: "chain nx x ps \<Longrightarrow> x = first_task ps"
  by (cases ps) (simp_all add: first_task_def)

lemma chain_nonnull: "chain nx x ps \<Longrightarrow> p \<in> set ps \<Longrightarrow> p \<noteq> 0 \<and> nx p \<noteq> None"
  by (induction ps arbitrary: x) (auto split: option.splits)

lemma chain_cong: "(\<And>p. p \<in> set ps \<Longrightarrow> nx' p = nx p) \<Longrightarrow> chain nx' x ps = chain nx x ps"
  by (induction ps arbitrary: x) (auto split: option.splits)

lemma chain_frame: "p \<notin> set ps \<Longrightarrow> chain (nx(p := v)) x ps = chain nx x ps"
  by (rule chain_cong) auto

lemma chain_snoc:
  assumes "chain nx x ps" "ps \<noteq> []" "distinct ps" "p \<notin> set ps" "p \<noteq> 0" "nx p = Some 0"
  shows "chain (nx(last ps := Some p)) x (ps @ [p])"
  using assms
proof (induction ps arbitrary: x)
  case (Cons q ps)
  show ?case
  proof (cases "ps = []")
    case False
    then have "last ps \<noteq> q" using Cons.prems(3) by (metis last_in_set distinct.simps(2))
    then show ?thesis using Cons False by (auto split: option.splits)
  qed (use Cons.prems in \<open>auto split: option.splits\<close>)
qed simp

lemma first_task_eq_0: "chain nx x ps \<Longrightarrow> x = 0 \<longleftrightarrow> ps = []"
  by (cases ps) auto

text \<open>What every queue of tasks promises, and that popping it until it is empty returns the tasks in the order
  they came.\<close>

locale task_fifo =
  fixes queued :: "u32 list \<Rightarrow> 's \<Rightarrow> bool"
    and fresh :: "u32 \<Rightarrow> 's \<Rightarrow> bool"
    and enq :: "u32 \<Rightarrow> 's \<Rightarrow> (u32 \<times> 's) option"
    and pop :: "'s \<Rightarrow> (u32 \<times> 's) option"
  assumes enq_law: "queued ps s \<Longrightarrow> fresh p s \<Longrightarrow>
      \<exists>s'. enq p s = Some (if ps = [] then 0 else 1, s') \<and> queued (ps @ [p]) s' \<and> (\<forall>q. fresh q s \<and> q \<noteq> p \<longrightarrow> fresh q s')"
    and pop_law: "queued (p # ps) s \<Longrightarrow> \<exists>s'. pop s = Some (p, s') \<and> queued ps s'"
    and pop_empty: "queued [] s \<Longrightarrow> pop s = Some (0, s)"
    and nonnull: "queued ps s \<Longrightarrow> 0 \<notin> set ps"
begin

fun enq_all :: "u32 list \<Rightarrow> 's \<Rightarrow> 's option" where
  "enq_all [] s = Some s"
| "enq_all (p # ps) s = do { (_, s) \<leftarrow> enq p s; enq_all ps s }"

fun pop_all :: "nat \<Rightarrow> 's \<Rightarrow> (u32 list \<times> 's) option" where
  "pop_all 0 s = Some ([], s)"
| "pop_all (Suc n) s = do { (p, s) \<leftarrow> pop s; (ps, s) \<leftarrow> pop_all n s; Some (p # ps, s) }"

lemma enq_all_queued:
  "queued ps s \<Longrightarrow> distinct qs \<Longrightarrow> \<forall>q\<in>set qs. fresh q s \<Longrightarrow> \<exists>s'. enq_all qs s = Some s' \<and> queued (ps @ qs) s'"
proof (induction qs arbitrary: ps s)
  case (Cons q qs)
  from enq_law[OF Cons.prems(1), of q] Cons.prems(3)
  obtain s1 where s1: "enq q s = Some (if ps = [] then 0 else 1, s1)" "queued (ps @ [q]) s1"
    "\<forall>q'. fresh q' s \<and> q' \<noteq> q \<longrightarrow> fresh q' s1" by auto
  then have "\<forall>q'\<in>set qs. fresh q' s1" using Cons.prems by auto
  then show ?case using Cons.IH[OF s1(2)] Cons.prems(2) s1(1) by simp
qed simp

lemma pop_all_in_order:
  "queued (ps @ qs) s \<Longrightarrow> \<exists>s'. pop_all (length ps) s = Some (ps, s') \<and> queued qs s'"
proof (induction ps arbitrary: s)
  case (Cons p ps)
  from pop_law[of p "ps @ qs"] Cons.prems obtain s1 where "pop s = Some (p, s1)" "queued (ps @ qs) s1" by auto
  then show ?case using Cons.IH by fastforce
qed simp

lemma first_in_first_out:
  assumes "queued ps s" "distinct qs" "\<forall>q\<in>set qs. fresh q s"
  shows "\<exists>s1 s2. enq_all qs s = Some s1 \<and> pop_all (length ps + length qs) s1 = Some (ps @ qs, s2) \<and> pop s2 = Some (0, s2)"
proof -
  from enq_all_queued[OF assms] obtain s1 where s1: "enq_all qs s = Some s1" "queued (ps @ qs) s1" by blast
  then obtain s2 where "pop_all (length ps + length qs) s1 = Some (ps @ qs, s2)" "queued [] s2"
    using pop_all_in_order[of "ps @ qs" "[]" s1] by auto
  then show ?thesis using s1(1) pop_empty by blast
qed

end

section \<open>Departures\<close>

text \<open>Events are masked to 8 bits, but the table has 168 entries: a higher event number, which the mask
  functions accept, reads behind the table.\<close>

lemma fc_event_outside_table:
  assumes "length (fc_event_handlers s) = NB_SOC_EVENTS" "168 \<le> unat e" "unat e < 256"
  shows "fc_soc_event_handler e s = None"
proof -
  have "e AND 0xff = e"
  proof -
    have m: "(0xff :: u32) = mask 8" by (simp add: mask_eq_exp_minus_1)
    have "unat (take_bit 8 e) = unat e" using assms(3) by (simp only: unat_take_bit) simp
    then have "take_bit 8 e = e" by (metis of_nat_unat ucast_id)
    then show ?thesis unfolding m by (simp add: take_bit_eq_mask)
  qed
  then show ?thesis using assms by (simp add: fc_soc_event_handler_def NB_SOC_EVENTS_def Let_def)
qed

text \<open>A task with a callback is never marked as done, nor is its callback run.\<close>

lemma push_does_nothing: "pi_task_push p s = s"
  by (simp add: pi_task_push_def disable_fc_irq_def restore_fc_irq_def)

end
