(* ===== verification/Uart.thy ===== *)
theory Uart
  imports GvsocEvents
begin

text \<open>
  The UART driver of the GVSOC target, \<open>drivers/uart.c\<close> with the register functions of \<open>udma_uart.h\<close> and
  \<open>udma_core.h\<close>: reads and writes are queued per direction as tasks linked by \<open>next\<close>; the head of a queue is
  being transferred by the micro-DMA, and the interrupt at its end releases it and starts the next. A
  transfer longer than the micro-DMA can do is cut into pieces. Every call of the driver and every interrupt is a
  step of \<open>uart_step\<close>, whose invariant describes the queues and the transfers in flight.
\<close>

section \<open>State\<close>

datatype channel = RX_CHANNEL | TX_CHANNEL

definition channel_number :: "channel \<Rightarrow> u32" where
  "channel_number c = (case c of RX_CHANNEL \<Rightarrow> 0 | TX_CHANNEL \<Rightarrow> 1)"

text \<open>The registers of a channel and of the interface; \<open>started\<close> records the transfers programmed.\<close>

record udma_channel =
  saddr :: u32
  ch_size :: u32
  cfg :: u32

record uart_regs =
  setup_reg :: u32
  chan :: "channel \<Rightarrow> udma_channel"
  started :: "(channel \<times> u32 \<times> u32) list"

record uart_itf =
  fifo_head :: "channel \<Rightarrow> u32"
  fifo_tail :: "channel \<Rightarrow> u32"
  nb_open :: u32
  device_id :: u32

text \<open>\<open>itfs\<close> is the table \<open>g_uart_itf_data\<close>; a pointer to its data is the index.\<close>

record uart_sys = soc +
  itfs :: "uart_itf option list"
  uarts :: "u32 \<Rightarrow> uart_regs"

record pi_uart_conf =
  baudrate_bps :: u32
  stop_bit_count :: u8
  parity_mode :: u8
  word_size :: u8
  enable_rx :: u8
  enable_tx :: u8
  uart_id :: u8

definition UDMA_MAX_SIZE :: u32 where "UDMA_MAX_SIZE = push_bit 17 1"
definition UDMA_NB_UART :: nat where "UDMA_NB_UART = 1"

definition UDMA_UART_ID :: "u32 \<Rightarrow> u32" where "UDMA_UART_ID i = 0 + i"
definition SOC_EVENT_UDMA_UART_RX :: "u32 \<Rightarrow> u32" where "SOC_EVENT_UDMA_UART_RX i = push_bit 2 (UDMA_UART_ID i) + 0"
definition SOC_EVENT_UDMA_UART_TX :: "u32 \<Rightarrow> u32" where "SOC_EVENT_UDMA_UART_TX i = push_bit 2 (UDMA_UART_ID i) + 1"

section \<open>Registers\<close>

definition REG_SET :: "nat \<Rightarrow> u32 \<Rightarrow> u32 \<Rightarrow> u32" where
  "REG_SET shift msk v = push_bit shift v AND msk"

definition uart_setup_set :: "u32 \<Rightarrow> u32 \<Rightarrow> uart_sys \<Rightarrow> uart_sys" where
  "uart_setup_set i v s = s\<lparr>uarts := (uarts s)(i := (uarts s i)\<lparr>setup_reg := v\<rparr>)\<rparr>"

definition uart_setup_get :: "u32 \<Rightarrow> uart_sys \<Rightarrow> u32" where
  "uart_setup_get i s = setup_reg (uarts s i)"

definition hal_uart_tx_enable :: "u32 \<Rightarrow> uart_sys \<Rightarrow> uart_sys" where
  "hal_uart_tx_enable i s = uart_setup_set i (uart_setup_get i s OR REG_SET 8 0x100 1) s"

definition hal_uart_tx_disable :: "u32 \<Rightarrow> uart_sys \<Rightarrow> uart_sys" where
  "hal_uart_tx_disable i s = uart_setup_set i (uart_setup_get i s AND NOT (REG_SET 8 0x100 1)) s"

definition hal_uart_rx_enable :: "u32 \<Rightarrow> uart_sys \<Rightarrow> uart_sys" where
  "hal_uart_rx_enable i s = uart_setup_set i (uart_setup_get i s OR REG_SET 9 0x200 1) s"

definition hal_uart_rx_disable :: "u32 \<Rightarrow> uart_sys \<Rightarrow> uart_sys" where
  "hal_uart_rx_disable i s = uart_setup_set i (uart_setup_get i s AND NOT (REG_SET 9 0x200 1)) s"

definition hal_uart_setup_set :: "u32 \<Rightarrow> u16 \<Rightarrow> u8 \<Rightarrow> u8 \<Rightarrow> u8 \<Rightarrow> u8 \<Rightarrow> u8 \<Rightarrow> uart_sys \<Rightarrow> uart_sys" where
  "hal_uart_setup_set i clk_div rx_ena tx_ena stop_bits bit_length parity_ena s =
     uart_setup_set i
       (REG_SET 16 0xffff0000 (ucast clk_div) OR REG_SET 9 0x200 (ucast rx_ena) OR REG_SET 8 0x100 (ucast tx_ena) OR
        REG_SET 3 0x8 (ucast stop_bits) OR REG_SET 1 0x6 (ucast bit_length) OR REG_SET 0 0x1 (ucast parity_ena)) s"

definition udma_enqueue_channel :: "u32 \<Rightarrow> channel \<Rightarrow> u32 \<Rightarrow> u32 \<Rightarrow> u32 \<Rightarrow> uart_sys \<Rightarrow> uart_sys" where
  "udma_enqueue_channel i c addr sz config s =
     s\<lparr>uarts := (uarts s)(i := (uarts s i)
         \<lparr>chan := (chan (uarts s i))(c := \<lparr>saddr = addr, ch_size = sz, cfg = config\<rparr>),
          started := started (uarts s i) @ [(c, addr, sz)]\<rparr>)\<rparr>"

definition udma_channel_clear :: "u32 \<Rightarrow> channel \<Rightarrow> uart_sys \<Rightarrow> uart_sys" where
  "udma_channel_clear i c s =
     s\<lparr>uarts := (uarts s)(i := (uarts s i)
         \<lparr>chan := (chan (uarts s i))(c := (chan (uarts s i) c)\<lparr>cfg := REG_SET 6 0x40 1\<rparr>)\<rparr>)\<rparr>"

definition hal_uart_enqueue :: "u32 \<Rightarrow> u32 \<Rightarrow> u32 \<Rightarrow> u32 \<Rightarrow> channel \<Rightarrow> uart_sys \<Rightarrow> uart_sys" where
  "hal_uart_enqueue i l2_buf sz config c s = udma_enqueue_channel i c l2_buf sz (config OR REG_SET 4 0x10 1) s"

section \<open>The driver\<close>

definition itf_at :: "nat \<Rightarrow> uart_sys \<Rightarrow> uart_itf option" where
  "itf_at d s = do { x \<leftarrow> rd (itfs s) d; x }"

definition set_itf :: "nat \<Rightarrow> (uart_itf \<Rightarrow> uart_itf) \<Rightarrow> uart_sys \<Rightarrow> uart_sys option" where
  "set_itf d f s = do { x \<leftarrow> itf_at d s; Some (s\<lparr>itfs := (itfs s)[d := Some (f x)]\<rparr>) }"

text \<open>\<open>freq\<close> is the frequency of the peripheral clock; a baud rate of 0 is a division by 0.\<close>

definition uart_conf_set :: "u32 \<Rightarrow> nat \<Rightarrow> pi_uart_conf \<Rightarrow> uart_sys \<Rightarrow> uart_sys option" where
  "uart_conf_set freq d conf s =
     do { x \<leftarrow> itf_at d s;
          if baudrate_bps conf = 0 then None
          else let clk_div = ucast (freq div baudrate_bps conf) :: u16
               in Some (hal_uart_setup_set (device_id x) clk_div (enable_rx conf) (enable_tx conf) (stop_bit_count conf)
                          (word_size conf) (parity_mode conf) s) }"

definition pi_uart_conf_init :: "pi_uart_conf \<Rightarrow> pi_uart_conf" where
  "pi_uart_conf_init conf = conf\<lparr>baudrate_bps := 115200, parity_mode := 0, stop_bit_count := 0, word_size := 3,
     enable_rx := 0, enable_tx := 0, uart_id := 0\<rparr>"

definition uart_fifo_enqueue :: "nat \<Rightarrow> u32 \<Rightarrow> channel \<Rightarrow> uart_sys \<Rightarrow> (u32 \<times> uart_sys) option" where
  "uart_fifo_enqueue d task c s =
     do { let (irq, s) = disable_fc_irq s;
          x \<leftarrow> itf_at d s;
          (head, s) \<leftarrow>
            (if fifo_head x c = 0
             then do { s \<leftarrow> set_itf d (\<lambda>x. x\<lparr>fifo_head := (fifo_head x)(c := task), fifo_tail := (fifo_tail x)(c := task)\<rparr>) s;
                       Some (0, s) }
             else do { s \<leftarrow> set_task (fifo_tail x c) (\<lambda>t. t\<lparr>task_next := task\<rparr>) s;
                       t \<leftarrow> task_at (fifo_tail x c) s;
                       s \<leftarrow> set_itf d (\<lambda>x. x\<lparr>fifo_tail := (fifo_tail x)(c := task_next t)\<rparr>) s;
                       Some (1, s) });
          Some (head, restore_fc_irq irq s) }"

definition uart_fifo_pop :: "nat \<Rightarrow> channel \<Rightarrow> uart_sys \<Rightarrow> (u32 \<times> uart_sys) option" where
  "uart_fifo_pop d c s =
     do { let (irq, s) = disable_fc_irq s;
          x \<leftarrow> itf_at d s;
          (task_to_return, s) \<leftarrow>
            (if fifo_head x c \<noteq> 0
             then do { t \<leftarrow> task_at (fifo_head x c) s;
                       s \<leftarrow> set_itf d (\<lambda>x. x\<lparr>fifo_head := (fifo_head x)(c := task_next t)\<rparr>) s;
                       s \<leftarrow> (if task_next t = 0 then set_itf d (\<lambda>x. x\<lparr>fifo_tail := (fifo_tail x)(c := 0)\<rparr>) s else Some s);
                       Some (fifo_head x c, s) }
             else Some (0, s));
          Some (task_to_return, restore_fc_irq irq s) }"

definition channel_of :: "u32 \<Rightarrow> channel option" where
  "channel_of v = (if v = 0 then Some RX_CHANNEL else if v = 1 then Some TX_CHANNEL else None)"

text \<open>Any other channel value falls through the \<open>switch\<close> of \<open>uart_udma_channel_set\<close>.\<close>

definition uart_copy_exec :: "nat \<Rightarrow> u32 \<Rightarrow> uart_sys \<Rightarrow> uart_sys option" where
  "uart_copy_exec d task s =
     do { x \<leftarrow> itf_at d s;
          t \<leftarrow> task_at task s;
          let l2_buf = task_data t 0;
          let max_size = UDMA_MAX_SIZE - 4;
          (sz, s) \<leftarrow>
            (if task_data t 1 > max_size
             then do { s \<leftarrow> set_task task (\<lambda>t. t\<lparr>task_data := (task_data t)(3 := task_data t 1 - max_size)\<rparr>) s; Some (max_size, s) }
             else Some (task_data t 1, s));
          Some (case channel_of (task_data t 2) of
                  None \<Rightarrow> s
                | Some c \<Rightarrow> hal_uart_enqueue (device_id x) l2_buf sz 0 c s) }"

definition uart_end_of_task :: "u32 \<Rightarrow> uart_sys \<Rightarrow> uart_sys option" where
  "uart_end_of_task task s =
     do { t \<leftarrow> task_at task s;
          if task_id t = PI_TASK_NONE_ID then pi_task_release task s
          else if task_id t = PI_TASK_CALLBACK_ID then Some (pi_task_push task s)
          else Some s }"

definition uart_handler :: "u32 \<Rightarrow> uart_sys \<Rightarrow> uart_sys option" where
  "uart_handler event s =
     do { c \<leftarrow> channel_of (event AND 0x1);
          let periph_id = drop_bit 2 event - UDMA_UART_ID 0;
          let d = unat periph_id;
          x \<leftarrow> itf_at d s;
          t \<leftarrow> task_at (fifo_head x c) s;
          if task_data t 3 \<noteq> 0
          then do { let max_size = UDMA_MAX_SIZE - 4;
                    s \<leftarrow> set_task (fifo_head x c)
                           (\<lambda>t. t\<lparr>task_data := (task_data t)(0 := task_data t 0 + max_size, 1 := task_data t 1 - max_size)\<rparr>) s;
                    uart_copy_exec d (fifo_head x c) s }
          else do { (task, s) \<leftarrow> uart_fifo_pop d c s;
                    s \<leftarrow> uart_end_of_task task s;
                    x \<leftarrow> itf_at d s;
                    if fifo_head x c \<noteq> 0 then uart_copy_exec d (fifo_head x c) s else Some s } }"

definition uart_copy :: "nat \<Rightarrow> u32 \<Rightarrow> u32 \<Rightarrow> channel \<Rightarrow> u32 \<Rightarrow> uart_sys \<Rightarrow> (int \<times> uart_sys) option" where
  "uart_copy d l2_buf sz c task s =
     do { let (irq, s) = disable_fc_irq s;
          if l2_buf AND 0xFFF00000 \<noteq> 0x1C000000 then Some (- 11, restore_fc_irq irq s)
          else do { s \<leftarrow> set_task task (\<lambda>t. t\<lparr>task_data := (task_data t)(0 := l2_buf, 1 := sz, 2 := channel_number c, 3 := 0),
                                              task_next := 0\<rparr>) s;
                    (head, s) \<leftarrow> uart_fifo_enqueue d task c s;
                    s \<leftarrow> (if head = 0 then uart_copy_exec d task s else Some s);
                    Some (0, restore_fc_irq irq s) } }"

definition uart_abort :: "nat \<Rightarrow> channel \<Rightarrow> uart_sys \<Rightarrow> uart_sys option" where
  "uart_abort d c s =
     do { x \<leftarrow> itf_at d s;
          let s = (case c of RX_CHANNEL \<Rightarrow> hal_uart_rx_disable (device_id x) s | TX_CHANNEL \<Rightarrow> hal_uart_tx_disable (device_id x) s);
          let s = udma_channel_clear (device_id x) c s;
          set_itf d (\<lambda>x. x\<lparr>fifo_head := (fifo_head x)(c := 0), fifo_tail := (fifo_tail x)(c := 0)\<rparr>) s }"

definition uart_channel_enable :: "nat \<Rightarrow> channel \<Rightarrow> uart_sys \<Rightarrow> uart_sys option" where
  "uart_channel_enable d c s =
     do { x \<leftarrow> itf_at d s;
          Some (case c of RX_CHANNEL \<Rightarrow> hal_uart_rx_enable (device_id x) s | TX_CHANNEL \<Rightarrow> hal_uart_tx_enable (device_id x) s) }"

datatype uart_ioctl = CONF_SETUP pi_uart_conf | ABORT_RX | ABORT_TX | ENABLE_RX | ENABLE_TX | OTHER_COMMAND

definition pi_uart_ioctl :: "u32 \<Rightarrow> nat \<Rightarrow> uart_ioctl \<Rightarrow> uart_sys \<Rightarrow> (int \<times> uart_sys) option" where
  "pi_uart_ioctl freq d cmd s =
     do { let (irq, s) = disable_fc_irq s;
          (r, s) \<leftarrow>
            (case cmd of
               CONF_SETUP conf \<Rightarrow> map_option (Pair 0) (uart_conf_set freq d conf s)
             | ABORT_RX \<Rightarrow> map_option (Pair 0) (uart_abort d RX_CHANNEL s)
             | ABORT_TX \<Rightarrow> map_option (Pair 0) (uart_abort d TX_CHANNEL s)
             | ENABLE_RX \<Rightarrow> map_option (Pair 0) (uart_channel_enable d RX_CHANNEL s)
             | ENABLE_TX \<Rightarrow> map_option (Pair 0) (uart_channel_enable d TX_CHANNEL s)
             | OTHER_COMMAND \<Rightarrow> Some (- 1, s));
          Some (r, restore_fc_irq irq s) }"

text \<open>\<open>chunk\<close> is what \<open>pi_l2_malloc\<close> returns. The result is the status and, on success, the index of the data,
  which the code enters into the table last.\<close>

definition pi_uart_open :: "u32 \<Rightarrow> u32 \<Rightarrow> pi_uart_conf \<Rightarrow> uart_sys \<Rightarrow> ((int + nat) \<times> uart_sys) option" where
  "pi_uart_open freq chunk conf s =
     do { let d = unat (uart_id conf);
          x \<leftarrow> rd (itfs s) d;
          case x of
            None \<Rightarrow>
              if chunk = 0 then Some (Inl (- 11), s)
              else do { let i = ucast (uart_id conf);
                        let s = s\<lparr>itfs := (itfs s)[d := Some \<lparr>fifo_head = \<lambda>_. 0, fifo_tail = \<lambda>_. 0, nb_open = 1, device_id = i\<rparr>]\<rparr>;
                        s \<leftarrow> pi_fc_event_handler_set (SOC_EVENT_UDMA_UART_RX i) PI_UART_HANDLER s;
                        s \<leftarrow> pi_fc_event_handler_set (SOC_EVENT_UDMA_UART_TX i) PI_UART_HANDLER s;
                        let s = hal_soc_eu_set_fc_mask (sint (SOC_EVENT_UDMA_UART_RX i)) s;
                        let s = hal_soc_eu_set_fc_mask (sint (SOC_EVENT_UDMA_UART_TX i)) s;
                        let s = udma_ctrl_cg_disable (unat (UDMA_UART_ID i)) s;
                        s \<leftarrow> uart_conf_set freq d conf s;
                        Some (Inr d, s) }
          | Some x \<Rightarrow> Some (Inr d, s\<lparr>itfs := (itfs s)[d := Some (x\<lparr>nb_open := nb_open x + 1\<rparr>)]\<rparr>) }"

text \<open>The wait for the transmitter reads the status register until its busy bit is 0; \<open>status\<close> are the values read.\<close>

fun wait_tx_idle :: "u32 list \<Rightarrow> u32 list option" where
  "wait_tx_idle [] = None"
| "wait_tx_idle (v # vs) = (if v AND 0x1 \<noteq> 0 then wait_tx_idle vs else Some vs)"

text \<open>\<open>device\<close> is \<open>device->data\<close>.\<close>

definition pi_uart_close :: "u32 list \<Rightarrow> nat option \<Rightarrow> uart_sys \<Rightarrow> uart_sys option" where
  "pi_uart_close status device s =
     (case device of
        None \<Rightarrow> Some s
      | Some d \<Rightarrow>
          do { s \<leftarrow> set_itf d (\<lambda>x. x\<lparr>nb_open := nb_open x - 1\<rparr>) s;
               x \<leftarrow> itf_at d s;
               if nb_open x = 0
               then do { _ \<leftarrow> wait_tx_idle status;
                         s \<leftarrow> uart_abort d RX_CHANNEL s;
                         s \<leftarrow> uart_abort d TX_CHANNEL s;
                         s \<leftarrow> pi_fc_event_handler_clear (SOC_EVENT_UDMA_UART_RX (device_id x)) s;
                         s \<leftarrow> pi_fc_event_handler_clear (SOC_EVENT_UDMA_UART_TX (device_id x)) s;
                         let s = hal_soc_eu_clear_fc_mask (sint (SOC_EVENT_UDMA_UART_RX (device_id x))) s;
                         let s = hal_soc_eu_clear_fc_mask (sint (SOC_EVENT_UDMA_UART_TX (device_id x))) s;
                         l \<leftarrow> wr (itfs s) (unat (device_id x)) None;
                         Some (s\<lparr>itfs := l\<rparr>) }
               else Some s })"

definition pi_uart_write_async :: "nat \<Rightarrow> u32 \<Rightarrow> u32 \<Rightarrow> u32 \<Rightarrow> uart_sys \<Rightarrow> (int \<times> uart_sys) option" where
  "pi_uart_write_async d buffer sz callback s = uart_copy d buffer sz TX_CHANNEL callback s"

definition pi_uart_read_async :: "nat \<Rightarrow> u32 \<Rightarrow> u32 \<Rightarrow> u32 \<Rightarrow> uart_sys \<Rightarrow> (int \<times> uart_sys) option" where
  "pi_uart_read_async d buffer sz callback s = uart_copy d buffer sz RX_CHANNEL callback s"

definition pi_uart_write_byte_async :: "nat \<Rightarrow> u32 \<Rightarrow> u32 \<Rightarrow> uart_sys \<Rightarrow> (int \<times> uart_sys) option" where
  "pi_uart_write_byte_async d byte callback s = pi_uart_write_async d byte 1 callback s"

text \<open>The blocking calls. \<open>p\<close> is the address of the task on the stack, \<open>sem\<close> its semaphore, \<open>es\<close> the events
  that arrive while the call waits; the rest of them is part of the result.\<close>

definition uart_blocking ::
  "(u32 \<Rightarrow> uart_sys \<Rightarrow> (int \<times> uart_sys) option) \<Rightarrow> u32 \<Rightarrow> u32 \<Rightarrow> u32 list \<Rightarrow> uart_sys \<Rightarrow> (int \<times> u32 list \<times> uart_sys) option" where
  "uart_blocking async p sem es s =
     do { s \<leftarrow> pi_task_block sem p s;
          (status, s) \<leftarrow> async p s;
          (es, s) \<leftarrow> pi_task_wait_on uart_handler es p s;
          s \<leftarrow> pi_task_destroy p s;
          Some (status, es, s) }"

definition pi_uart_write :: "nat \<Rightarrow> u32 \<Rightarrow> u32 \<Rightarrow> u32 \<Rightarrow> u32 \<Rightarrow> u32 list \<Rightarrow> uart_sys \<Rightarrow> (int \<times> u32 list \<times> uart_sys) option" where
  "pi_uart_write d buffer sz p sem es s = uart_blocking (pi_uart_write_async d buffer sz) p sem es s"

definition pi_uart_write_byte :: "nat \<Rightarrow> u32 \<Rightarrow> u32 \<Rightarrow> u32 \<Rightarrow> u32 list \<Rightarrow> uart_sys \<Rightarrow> (int \<times> u32 list \<times> uart_sys) option" where
  "pi_uart_write_byte d byte p sem es s = uart_blocking (pi_uart_write_async d byte 1) p sem es s"

definition pi_uart_read :: "nat \<Rightarrow> u32 \<Rightarrow> u32 \<Rightarrow> u32 \<Rightarrow> u32 \<Rightarrow> u32 list \<Rightarrow> uart_sys \<Rightarrow> (int \<times> u32 list \<times> uart_sys) option" where
  "pi_uart_read d buffer sz p sem es s = uart_blocking (pi_uart_read_async d buffer sz) p sem es s"

definition pi_uart_read_byte :: "nat \<Rightarrow> u32 \<Rightarrow> u32 \<Rightarrow> u32 \<Rightarrow> u32 list \<Rightarrow> uart_sys \<Rightarrow> (int \<times> u32 list \<times> uart_sys) option" where
  "pi_uart_read_byte d byte p sem es s = uart_blocking (pi_uart_read_async d byte 1) p sem es s"

section \<open>The queues\<close>

definition chan_queue :: "uart_sys \<Rightarrow> uart_itf \<Rightarrow> channel \<Rightarrow> u32 list \<Rightarrow> bool" where
  "chan_queue s x c ps \<longleftrightarrow>
     chain (links s) (fifo_head x c) ps \<and> fifo_tail x c = last_task ps \<and> distinct ps \<and>
     (\<forall>p\<in>set ps. case tasks s p of None \<Rightarrow> False | Some t \<Rightarrow> task_data t 2 = channel_number c)"

text \<open>\<open>Q\<close> gives the queue of each channel: the specification's view of the driver's state.\<close>

definition uart_queues :: "nat \<Rightarrow> (channel \<Rightarrow> u32 list) \<Rightarrow> uart_sys \<Rightarrow> bool" where
  "uart_queues d Q s \<longleftrightarrow>
     d < UDMA_NB_UART \<and>
     (case itf_at d s of None \<Rightarrow> False
      | Some x \<Rightarrow> device_id x = of_nat d \<and> chan_queue s x RX_CHANNEL (Q RX_CHANNEL) \<and> chan_queue s x TX_CHANNEL (Q TX_CHANNEL)) \<and>
     set (Q RX_CHANNEL) \<inter> set (Q TX_CHANNEL) = {}"

definition queued_tasks :: "(channel \<Rightarrow> u32 list) \<Rightarrow> u32 set" where
  "queued_tasks Q = set (Q RX_CHANNEL) \<union> set (Q TX_CHANNEL)"

lemma all_channels: "(\<forall>c. P c) \<longleftrightarrow> P RX_CHANNEL \<and> P TX_CHANNEL"
  by (metis channel.exhaust)

lemma uart_queues_iff:
  "uart_queues d Q s \<longleftrightarrow>
     d < UDMA_NB_UART \<and> (\<exists>x. itf_at d s = Some x \<and> device_id x = of_nat d \<and> (\<forall>c. chan_queue s x c (Q c))) \<and>
     (\<forall>c c'. c \<noteq> c' \<longrightarrow> set (Q c) \<inter> set (Q c') = {})"
  by (auto simp: uart_queues_def all_channels split: option.splits)

lemma queued_tasks_channel: "set (Q c) \<subseteq> queued_tasks Q"
  by (cases c) (auto simp: queued_tasks_def)

text \<open>Only the links and the channel of the queued tasks matter, and the table of devices.\<close>

definition link_of :: "uart_sys \<Rightarrow> u32 \<Rightarrow> (u32 \<times> u32) option" where
  "link_of s p = map_option (\<lambda>t. (task_next t, task_data t 2)) (tasks s p)"

lemma chan_queue_cong:
  assumes "\<And>p. p \<in> set ps \<Longrightarrow> link_of s' p = link_of s p" "fifo_head x' c = fifo_head x c" "fifo_tail x' c = fifo_tail x c"
  shows "chan_queue s' x' c ps = chan_queue s x c ps"
proof -
  have l: "links s' p = links s p" if "p \<in> set ps" for p
    using assms(1)[OF that] by (cases "tasks s p"; cases "tasks s' p") (auto simp: link_of_def links_def)
  have t: "(case tasks s' p of None \<Rightarrow> False | Some t \<Rightarrow> task_data t 2 = channel_number c) =
      (case tasks s p of None \<Rightarrow> False | Some t \<Rightarrow> task_data t 2 = channel_number c)" if "p \<in> set ps" for p
    using assms(1)[OF that] by (cases "tasks s p"; cases "tasks s' p") (auto simp: link_of_def)
  show ?thesis unfolding chan_queue_def using chain_cong[of ps "links s'" "links s"] l t assms(2-) by simp
qed

lemma uart_queues_cong:
  assumes "\<And>p. p \<in> queued_tasks Q \<Longrightarrow> link_of s' p = link_of s p" "itfs s' = itfs s"
  shows "uart_queues d Q s' = uart_queues d Q s"
proof -
  have "chan_queue s' x c (Q c) = chan_queue s x c (Q c)" for x c
    by (rule chan_queue_cong) (use assms(1) queued_tasks_channel in blast)+
  then show ?thesis using assms(2) by (simp add: uart_queues_iff itf_at_def)
qed

lemma uart_itf: "uart_queues d Q s \<Longrightarrow> \<exists>x. itf_at d s = Some x \<and> device_id x = of_nat d"
  by (auto simp: uart_queues_iff)

lemma uart_head: "uart_queues d Q s \<Longrightarrow> itf_at d s = Some x \<Longrightarrow> fifo_head x c = first_task (Q c)"
  by (auto simp: uart_queues_iff chan_queue_def dest: chain_first)

lemma queued_task_at:
  assumes "uart_queues d Q s" "p \<in> set (Q c)"
  shows "\<exists>t. task_at p s = Some t \<and> tasks s p = Some t \<and> p \<noteq> 0 \<and> task_data t 2 = channel_number c"
  using assms chain_nonnull
  by (fastforce simp: uart_queues_iff chan_queue_def task_at_def split: option.splits)

lemma itf_at_length: "itf_at d s = Some x \<Longrightarrow> d < length (itfs s) \<and> itfs s ! d = Some x"
  by (auto simp: itf_at_def rd_def split: if_splits)

lemma set_itf_at: "itf_at d s = Some x \<Longrightarrow> set_itf d f s = Some (s\<lparr>itfs := (itfs s)[d := Some (f x)]\<rparr>)"
  by (simp add: set_itf_def)

lemma itf_at_updated [simp]: "d < length l \<Longrightarrow> itf_at d (s\<lparr>itfs := l[d := y]\<rparr>) = y"
  by (simp add: itf_at_def rd_def)

lemma itf_at_frame [simp]:
  "itf_at d (s\<lparr>irq_on := b\<rparr>) = itf_at d s" "itf_at d (s\<lparr>tasks := ts\<rparr>) = itf_at d s"
  "itf_at d (s\<lparr>uarts := u\<rparr>) = itf_at d s" "itf_at d (s\<lparr>sem_gives := g\<rparr>) = itf_at d s"
  by (simp_all add: itf_at_def)

lemma links_frame [simp]:
  "links (s\<lparr>irq_on := b\<rparr>) = links s" "links (s\<lparr>itfs := l\<rparr>) = links s"
  "links (s\<lparr>uarts := u\<rparr>) = links s" "links (s\<lparr>sem_gives := g\<rparr>) = links s"
  by (simp_all add: links_def fun_eq_iff)

text \<open>A task without its link.\<close>

definition body_of :: "uart_sys \<Rightarrow> u32 \<Rightarrow> pi_task option" where
  "body_of s p = map_option (task_next_update (\<lambda>_. 0)) (tasks s p)"

lemma links_set_next:
  "tasks s p = Some t \<Longrightarrow> links (s\<lparr>tasks := (tasks s)(p := Some (t\<lparr>task_next := q\<rparr>))\<rparr>) = (links s)(p := Some q)"
  by (auto simp: links_def fun_eq_iff)

lemma fifo_enqueue_queues:
  assumes q: "uart_queues d Q s" and p: "p \<noteq> 0" "p \<notin> queued_tasks Q" "tasks s p = Some t" "task_next t = 0"
    "task_data t 2 = channel_number c"
  shows "\<exists>s'. uart_fifo_enqueue d p c s = Some (if Q c = [] then 0 else 1, s') \<and> uart_queues d (Q(c := Q c @ [p])) s' \<and>
    uarts s' = uarts s \<and> body_of s' = body_of s \<and> (\<forall>r. r \<notin> queued_tasks Q \<longrightarrow> tasks s' r = tasks s r)"
proof -
  obtain x where x: "itf_at d s = Some x" "device_id x = of_nat d" "\<And>c. chan_queue s x c (Q c)" "d < UDMA_NB_UART"
    and dis: "\<And>c c'. c \<noteq> c' \<Longrightarrow> set (Q c) \<inter> set (Q c') = {}"
    using q by (auto simp: uart_queues_iff)
  have pq: "p \<notin> set (Q c')" for c' using p(2) queued_tasks_channel by blast
  have ln: "d < length (itfs s)" using itf_at_length[OF x(1)] by simp
  show ?thesis
  proof (cases "Q c = []")
    case True
    let ?s = "s\<lparr>irq_on := False, itfs := (itfs s)[d := Some (x\<lparr>fifo_head := (fifo_head x)(c := p), fifo_tail := (fifo_tail x)(c := p)\<rparr>)],
                irq_on := irq_on s\<rparr>"
    have h: "fifo_head x c = 0" using uart_head[OF q x(1)] True by (simp add: first_task_def)
    have "uart_fifo_enqueue d p c s = Some (0, ?s)"
      using x(1) h by (simp add: uart_fifo_enqueue_def disable_fc_irq_def restore_fc_irq_def set_itf_def Let_def)
    moreover have "chan_queue ?s (x\<lparr>fifo_head := (fifo_head x)(c := p), fifo_tail := (fifo_tail x)(c := p)\<rparr>) c' ((Q(c := [p])) c')" for c'
      using x(3)[of c'] p by (auto simp: chan_queue_def links_def last_task_def)
    then have "uart_queues d (Q(c := Q c @ [p])) ?s"
      unfolding uart_queues_iff using itf_at_length[OF x(1)] x(2,4) dis pq True by auto
    ultimately show ?thesis using True by (intro exI[of _ ?s]) (simp add: body_of_def fun_eq_iff)
  next
    case False
    let ?l = "last (Q c)"
    obtain tl where tl: "tasks s ?l = Some tl" "?l \<noteq> 0" using queued_task_at[OF q, of ?l c] False by auto
    let ?x = "x\<lparr>fifo_tail := (fifo_tail x)(c := p)\<rparr>"
    let ?s = "s\<lparr>irq_on := irq_on s, tasks := (tasks s)(?l := Some (tl\<lparr>task_next := p\<rparr>)), itfs := (itfs s)[d := Some ?x]\<rparr>"
    have h: "fifo_head x c \<noteq> 0" using x(3)[of c] False first_task_eq_0 by (auto simp: chan_queue_def)
    have ft: "fifo_tail x c = ?l" using x(3)[of c] False by (simp add: chan_queue_def last_task_def)
    have "uart_fifo_enqueue d p c s = Some (1, ?s)"
      using x(1) h ft tl
      by (simp add: uart_fifo_enqueue_def disable_fc_irq_def restore_fc_irq_def set_itf_def set_task_def task_at_def Let_def)
    moreover have lk: "links ?s = (links s)(?l := Some p)" using links_set_next[OF tl(1), of p] by (simp add: links_def fun_eq_iff)
    have "chan_queue ?s ?x c' ((Q(c := Q c @ [p])) c')" for c'
    proof (cases "c' = c")
      case True
      have "chain (links ?s) (fifo_head x c) (Q c @ [p])"
        unfolding lk using chain_snoc[of "links s" "fifo_head x c" "Q c" p] x(3)[of c] False pq p by (simp add: chan_queue_def links_def)
      then show ?thesis using x(3)[of c] p pq True tl by (auto simp: chan_queue_def last_task_def split: option.splits)
    next
      case F: False
      then have "?l \<notin> set (Q c')" using dis[of c' c] False by auto
      then show ?thesis using x(3)[of c'] F unfolding chan_queue_def lk by (auto simp: chain_frame split: option.splits if_splits)
    qed
    then have "uart_queues d (Q(c := Q c @ [p])) ?s"
      unfolding uart_queues_iff using itf_at_length[OF x(1)] x(2,4) dis pq by auto
    moreover have "?l \<in> queued_tasks Q" using False queued_tasks_channel[of Q c] by auto
    ultimately show ?thesis using False tl(1) by (intro exI[of _ ?s]) (auto simp: body_of_def fun_eq_iff)
  qed
qed

lemma fifo_pop_queues:
  assumes q: "uart_queues d Q s" and c: "Q c = p # ps"
  shows "\<exists>s'. uart_fifo_pop d c s = Some (p, s') \<and> uart_queues d (Q(c := ps)) s' \<and> uarts s' = uarts s \<and> tasks s' = tasks s"
proof -
  obtain x where x: "itf_at d s = Some x" "device_id x = of_nat d" "\<And>c. chan_queue s x c (Q c)" "d < UDMA_NB_UART"
    and dis: "\<And>c c'. c \<noteq> c' \<Longrightarrow> set (Q c) \<inter> set (Q c') = {}"
    using q by (auto simp: uart_queues_iff)
  obtain t where t: "tasks s p = Some t" "p \<noteq> 0" using queued_task_at[OF q, of p c] c by auto
  have h: "fifo_head x c = p" using uart_head[OF q x(1)] c by (simp add: first_task_def)
  have ch: "chain (links s) (task_next t) ps" using x(3)[of c] c t by (simp add: chan_queue_def links_def)
  let ?x = "x\<lparr>fifo_head := (fifo_head x)(c := task_next t), fifo_tail := (fifo_tail x)(c := last_task ps)\<rparr>"
  let ?s = "s\<lparr>irq_on := irq_on s, itfs := (itfs s)[d := Some ?x]\<rparr>"
  have "ps \<noteq> [] \<Longrightarrow> (fifo_tail x)(c := last_task ps) = fifo_tail x"
    using x(3)[of c] c by (auto simp: chan_queue_def last_task_def)
  then have "uart_fifo_pop d c s = Some (p, ?s)"
    using x(1) h t first_task_eq_0[OF ch] itf_at_length[OF x(1)]
    by (simp add: uart_fifo_pop_def disable_fc_irq_def restore_fc_irq_def set_itf_def task_at_def Let_def last_task_def)
  note popped = this
  have "chan_queue ?s ?x c' ((Q(c := ps)) c')" for c'
    using x(3)[of c'] ch c by (cases "c' = c") (auto simp: chan_queue_def)
  moreover have "set ((Q(c := ps)) c1) \<inter> set ((Q(c := ps)) c2) = {}" if "c1 \<noteq> c2" for c1 c2
    using dis[OF that] c by (cases "c1 = c"; cases "c2 = c") auto
  ultimately have "uart_queues d (Q(c := ps)) ?s"
    unfolding uart_queues_iff using itf_at_length[OF x(1)] x(2,4)
    by (simp del: fun_upd_apply)
  then show ?thesis using popped by (intro exI[of _ ?s]) simp
qed

section \<open>Transfers\<close>

definition uart_event :: "nat \<Rightarrow> channel \<Rightarrow> u32" where
  "uart_event d c = (case c of RX_CHANNEL \<Rightarrow> SOC_EVENT_UDMA_UART_RX (of_nat d) | TX_CHANNEL \<Rightarrow> SOC_EVENT_UDMA_UART_TX (of_nat d))"

text \<open>The transfers programmed, and how many of them on a channel.\<close>

definition started_of :: "nat \<Rightarrow> uart_sys \<Rightarrow> (channel \<times> u32 \<times> u32) list" where
  "started_of d s = started (uarts s (of_nat d))"

definition transfers :: "nat \<Rightarrow> channel \<Rightarrow> uart_sys \<Rightarrow> nat" where
  "transfers d c s = length [x \<leftarrow> started_of d s. fst x = c]"

definition done_of :: "uart_sys \<Rightarrow> u32 \<Rightarrow> bool option" where
  "done_of s p = map_option task_done (tasks s p)"

lemma channel_of_number [simp]: "channel_of (channel_number c) = Some c"
  by (cases c) (simp_all add: channel_of_def channel_number_def)

lemma uart_event_decoded:
  assumes "d < UDMA_NB_UART"
  shows "channel_of (uart_event d c AND 1) = Some c" "unat (drop_bit 2 (uart_event d c) - UDMA_UART_ID 0) = d"
  using assms by (cases c; simp add: uart_event_def UDMA_NB_UART_def SOC_EVENT_UDMA_UART_RX_def SOC_EVENT_UDMA_UART_TX_def
      UDMA_UART_ID_def channel_of_def)+

lemma hal_uart_enqueue_effect [simp]:
  "tasks (hal_uart_enqueue i a n v c s) = tasks s" "itfs (hal_uart_enqueue i a n v c s) = itfs s"
  "sem_gives (hal_uart_enqueue i a n v c s) = sem_gives s"
  by (simp_all add: hal_uart_enqueue_def udma_enqueue_channel_def)

lemma hal_uart_enqueue_started [simp]:
  "started_of d (hal_uart_enqueue (of_nat d) a n v c s) = started_of d s @ [(c, a, n)]"
  by (simp add: hal_uart_enqueue_def udma_enqueue_channel_def started_of_def)

lemma started_of_frame [simp]: "started_of d (s\<lparr>tasks := ts\<rparr>) = started_of d s" "started_of d (s\<lparr>itfs := l\<rparr>) = started_of d s"
  by (simp_all add: started_of_def)

lemma copy_exec_small:
  assumes "itf_at d s = Some x" "device_id x = of_nat d" "task_at p s = Some t" "task_data t 2 = channel_number c"
    "task_data t 1 \<le> UDMA_MAX_SIZE - 4"
  shows "uart_copy_exec d p s = Some (hal_uart_enqueue (of_nat d) (task_data t 0) (task_data t 1) 0 c s)"
proof -
  have "\<not> UDMA_MAX_SIZE - 4 < task_data t 1" using assms(5) by (simp only: not_less)
  then show ?thesis using assms(1-4) by (simp add: uart_copy_exec_def Let_def)
qed

lemma copy_exec_safe:
  assumes "itf_at d s = Some x" "device_id x = of_nat d" "task_at p s = Some t" "task_data t 2 = channel_number c"
  shows "\<exists>s' n. uart_copy_exec d p s = Some s' \<and> itfs s' = itfs s \<and> link_of s' = link_of s \<and> done_of s' = done_of s \<and>
    started_of d s' = started_of d s @ [(c, task_data t 0, n)]"
proof (cases "task_data t 1 \<le> UDMA_MAX_SIZE - 4")
  case True
  show ?thesis unfolding copy_exec_small[OF assms True] by (auto simp: link_of_def done_of_def fun_eq_iff)
next
  case False
  let ?t = "t\<lparr>task_data := (task_data t)(3 := task_data t 1 - (UDMA_MAX_SIZE - 4))\<rparr>"
  have "tasks s p = Some t" using assms(3) by (auto simp: task_at_def split: if_splits)
  moreover have "uart_copy_exec d p s = Some (hal_uart_enqueue (of_nat d) (task_data t 0) (UDMA_MAX_SIZE - 4) 0 c
      (s\<lparr>tasks := (tasks s)(p := Some ?t)\<rparr>))"
    using assms False by (simp add: uart_copy_exec_def set_task_def Let_def not_le)
  ultimately show ?thesis by (auto simp: link_of_def done_of_def fun_eq_iff)
qed

lemma end_of_task_effect:
  assumes "task_at p s = Some t"
  shows "\<exists>s'. uart_end_of_task p s = Some s' \<and> itfs s' = itfs s \<and> uarts s' = uarts s \<and>
    tasks s' = (if task_id t = PI_TASK_NONE_ID then (tasks s)(p := Some (t\<lparr>task_done := True\<rparr>)) else tasks s)"
  using assms
  by (auto simp: uart_end_of_task_def pi_task_release_def push_does_nothing set_task_def task_at_def Let_def split: if_splits)

text \<open>What the interrupt does when the transfer was the last of its task: the task is released and the next one of
  the queue starts.\<close>

lemma handler_pop:
  assumes q: "uart_queues d Q s" and c: "Q c = p # ps" and t: "tasks s p = Some t" "task_data t 3 = 0"
  shows "\<exists>s1. uart_handler (uart_event d c) s = (if ps = [] then Some s1 else uart_copy_exec d (hd ps) s1) \<and>
    uart_queues d (Q(c := ps)) s1 \<and> uarts s1 = uarts s \<and>
    tasks s1 = (if task_id t = PI_TASK_NONE_ID then (tasks s)(p := Some (t\<lparr>task_done := True\<rparr>)) else tasks s)"
proof -
  have d: "d < UDMA_NB_UART" using q by (simp add: uart_queues_iff)
  obtain x where x: "itf_at d s = Some x" using uart_itf[OF q] by blast
  have h: "fifo_head x c = p" using uart_head[OF q x] c by (simp add: first_task_def)
  have p: "task_at p s = Some t" "p \<noteq> 0" using queued_task_at[OF q, of p c] c t by auto
  obtain s1 where s1: "uart_fifo_pop d c s = Some (p, s1)" "uart_queues d (Q(c := ps)) s1" "uarts s1 = uarts s" "tasks s1 = tasks s"
    using fifo_pop_queues[OF q c] by blast
  have p1: "task_at p s1 = Some t" using s1(4) p by (simp add: task_at_def)
  obtain s2 where s2: "uart_end_of_task p s1 = Some s2" "itfs s2 = itfs s1" "uarts s2 = uarts s1"
    "tasks s2 = (if task_id t = PI_TASK_NONE_ID then (tasks s1)(p := Some (t\<lparr>task_done := True\<rparr>)) else tasks s1)"
    using end_of_task_effect[OF p1] by blast
  have "link_of s2 = link_of s1" using s2(4) t(1) s1(4) by (auto simp: link_of_def fun_eq_iff)
  then have q2: "uart_queues d (Q(c := ps)) s2" using uart_queues_cong[of "Q(c := ps)" s2 s1] s2(2) s1(2) by simp
  then obtain x2 where x2: "itf_at d s2 = Some x2" using uart_itf by blast
  have h2: "fifo_head x2 c = first_task ps" using uart_head[OF q2 x2, of c] by simp
  have "first_task ps \<noteq> 0 \<longleftrightarrow> ps \<noteq> []"
    using queued_task_at[OF q2, of "hd ps" c] by (cases ps) (auto simp: first_task_def)
  moreover have "ps \<noteq> [] \<Longrightarrow> first_task ps = hd ps" by (cases ps) (simp_all add: first_task_def)
  ultimately have "uart_handler (uart_event d c) s = (if ps = [] then Some s2 else uart_copy_exec d (hd ps) s2)"
    unfolding uart_handler_def Let_def uart_event_decoded[OF d] using x h p t s1(1) s2(1) x2 h2 by simp
  then show ?thesis using q2 s2 s1 by auto
qed

text \<open>Otherwise the same task goes on.\<close>

lemma handler_again:
  assumes q: "uart_queues d Q s" and c: "Q c = p # ps" and t: "tasks s p = Some t" "task_data t 3 \<noteq> 0"
  shows "\<exists>s' a n. uart_handler (uart_event d c) s = Some s' \<and> uart_queues d Q s' \<and> done_of s' = done_of s \<and>
    started_of d s' = started_of d s @ [(c, a, n)]"
proof -
  have d: "d < UDMA_NB_UART" using q by (simp add: uart_queues_iff)
  obtain x where x: "itf_at d s = Some x" "device_id x = of_nat d" using uart_itf[OF q] by blast
  have h: "fifo_head x c = p" using uart_head[OF q x(1)] c by (simp add: first_task_def)
  have p: "task_at p s = Some t" "p \<noteq> 0" "task_data t 2 = channel_number c" using queued_task_at[OF q, of p c] c t by auto
  let ?t = "t\<lparr>task_data := (task_data t)(0 := task_data t 0 + (UDMA_MAX_SIZE - 4), 1 := task_data t 1 - (UDMA_MAX_SIZE - 4))\<rparr>"
  let ?s = "s\<lparr>tasks := (tasks s)(p := Some ?t)\<rparr>"
  have x1: "itf_at d ?s = Some x" using x(1) by simp
  have t1: "task_at p ?s = Some ?t" "task_data ?t 2 = channel_number c" using p by (simp_all add: task_at_def)
  obtain s' n where s': "uart_copy_exec d p ?s = Some s'" "itfs s' = itfs ?s" "link_of s' = link_of ?s" "done_of s' = done_of ?s"
    "started_of d s' = started_of d ?s @ [(c, task_data ?t 0, n)]"
    using copy_exec_safe[OF x1 x(2) t1] by blast
  have "uart_handler (uart_event d c) s = Some s'"
    unfolding uart_handler_def Let_def uart_event_decoded[OF d] using x(1) h p t s'(1) by (simp add: set_task_def)
  moreover have "link_of s' = link_of s" "done_of s' = done_of s" using s'(3,4) t by (auto simp: link_of_def done_of_def fun_eq_iff)
  moreover from this have "uart_queues d Q s'" using uart_queues_cong[of Q s' s] s'(2) q by simp
  ultimately show ?thesis using s'(5) by auto
qed

lemma handler_safe:
  assumes q: "uart_queues d Q s" and c: "Q c = p # ps"
  shows "\<exists>s' ps'. uart_handler (uart_event d c) s = Some s' \<and> uart_queues d (Q(c := ps')) s' \<and> set ps' \<subseteq> set (Q c) \<and>
    (\<forall>r. r \<noteq> p \<longrightarrow> done_of s' r = done_of s r) \<and> (p \<in> set ps' \<longrightarrow> done_of s' p = done_of s p) \<and>
    (if ps' = [] then started_of d s' = started_of d s else \<exists>a n. started_of d s' = started_of d s @ [(c, a, n)])"
proof -
  obtain t where t: "tasks s p = Some t" using queued_task_at[OF q, of p c] c by auto
  show ?thesis
  proof (cases "task_data t 3 = 0")
    case False
    have "Q(c := p # ps) = Q" using c by auto
    then show ?thesis using handler_again[OF q c t False] c by (intro ex_forward[OF handler_again[OF q c t False]] exI[of _ "p # ps"]) auto
  next
    case True
    from handler_pop[OF q c t True] obtain s1 where
      s1: "uart_handler (uart_event d c) s = (if ps = [] then Some s1 else uart_copy_exec d (hd ps) s1)"
      "uart_queues d (Q(c := ps)) s1" "uarts s1 = uarts s"
      "tasks s1 = (if task_id t = PI_TASK_NONE_ID then (tasks s)(p := Some (t\<lparr>task_done := True\<rparr>)) else tasks s)"
      by blast
    have dn: "\<forall>r. r \<noteq> p \<longrightarrow> done_of s1 r = done_of s r" using s1(4) by (simp add: done_of_def)
    have st: "started_of d s1 = started_of d s" using s1(3) by (simp add: started_of_def)
    have np: "p \<notin> set ps" using q c by (auto simp: uart_queues_iff chan_queue_def) (metis distinct.simps(2))
    show ?thesis
    proof (cases "ps = []")
      case True
      then show ?thesis using s1 dn st by (intro exI[of _ s1] exI[of _ ps]) simp
    next
      case False
      obtain x where x: "itf_at d s1 = Some x" "device_id x = of_nat d" using uart_itf[OF s1(2)] by blast
      obtain t1 where t1: "task_at (hd ps) s1 = Some t1" "task_data t1 2 = channel_number c"
        using queued_task_at[OF s1(2), of "hd ps" c] False by auto
      from copy_exec_safe[OF x t1] obtain s' n where s': "uart_copy_exec d (hd ps) s1 = Some s'" "itfs s' = itfs s1"
        "link_of s' = link_of s1" "done_of s' = done_of s1" "started_of d s' = started_of d s1 @ [(c, task_data t1 0, n)]"
        by blast
      then have "uart_queues d (Q(c := ps)) s'" using uart_queues_cong[of "Q(c := ps)" s' s1] s1(2) by simp
      then show ?thesis using s1(1) s' dn st np False c by (intro exI[of _ s'] exI[of _ ps]) auto
    qed
  qed
qed

text \<open>Handing a task to the driver. \<open>t\<close> is the task as the caller prepared it.\<close>

lemma uart_copy_refused:
  "buf AND 0xFFF00000 \<noteq> 0x1C000000 \<Longrightarrow> uart_copy d buf sz c p s = Some (- 11, s)"
  by (simp add: uart_copy_def disable_fc_irq_def restore_fc_irq_def)

lemma uart_copy_accepted:
  assumes q: "uart_queues d Q s" and p: "p \<noteq> 0" "p \<notin> queued_tasks Q" "tasks s p = Some t"
    and buf: "buf AND 0xFFF00000 = 0x1C000000"
  shows "\<exists>s1 s'. uart_copy d buf sz c p s = Some (0, s') \<and>
    (if Q c = [] then \<exists>s2. uart_copy_exec d p s1 = Some s2 \<and> s' = s2\<lparr>irq_on := irq_on s\<rparr> else s' = s1\<lparr>irq_on := irq_on s\<rparr>) \<and>
    uart_queues d (Q(c := Q c @ [p])) s1 \<and> uarts s1 = uarts s \<and>
    body_of s1 = (body_of s)(p := Some (t\<lparr>task_data := (task_data t)(0 := buf, 1 := sz, 2 := channel_number c, 3 := 0), task_next := 0\<rparr>)) \<and>
    (\<forall>r. r \<notin> queued_tasks (Q(c := Q c @ [p])) \<longrightarrow> tasks s1 r = tasks s r)"
proof -
  let ?t = "t\<lparr>task_data := (task_data t)(0 := buf, 1 := sz, 2 := channel_number c, 3 := 0), task_next := 0\<rparr>"
  let ?s = "s\<lparr>irq_on := False, tasks := (tasks s)(p := Some ?t)\<rparr>"
  have "link_of ?s r = link_of s r" if "r \<in> queued_tasks Q" for r using that p(2) by (auto simp: link_of_def)
  then have "uart_queues d Q ?s" using uart_queues_cong[of Q ?s s d] q by simp
  from fifo_enqueue_queues[OF this p(1,2), of ?t c] obtain s1 where
    s1: "uart_fifo_enqueue d p c ?s = Some (if Q c = [] then 0 else 1, s1)" "uart_queues d (Q(c := Q c @ [p])) s1"
    "uarts s1 = uarts ?s" "body_of s1 = body_of ?s" "\<forall>r. r \<notin> queued_tasks Q \<longrightarrow> tasks s1 r = tasks ?s r"
    by auto
  obtain x where x: "itf_at d s1 = Some x" "device_id x = of_nat d" using uart_itf[OF s1(2)] by blast
  obtain t1 where t1: "task_at p s1 = Some t1" "task_data t1 2 = channel_number c"
    using queued_task_at[OF s1(2), of p c] by auto
  from copy_exec_safe[OF x t1] obtain s2 where s2: "uart_copy_exec d p s1 = Some s2" by blast
  have pin: "p \<in> queued_tasks (Q(c := Q c @ [p]))" using queued_tasks_channel[of "Q(c := Q c @ [p])" c] by auto
  have sub: "queued_tasks Q \<subseteq> queued_tasks (Q(c := Q c @ [p]))" by (cases c) (auto simp: queued_tasks_def)
  let ?r = "(if Q c = [] then s2 else s1)\<lparr>irq_on := irq_on s\<rparr>"
  have "uart_copy d buf sz c p s = Some (0, ?r)"
    using buf p s1(1) s2 by (simp add: uart_copy_def disable_fc_irq_def restore_fc_irq_def set_task_def task_at_def Let_def)
  moreover have "body_of s1 = (body_of s)(p := Some ?t)" using s1(4) by (auto simp: body_of_def fun_eq_iff)
  moreover have "\<forall>r. r \<notin> queued_tasks (Q(c := Q c @ [p])) \<longrightarrow> tasks s1 r = tasks s r" using s1(5) pin sub by auto
  ultimately show ?thesis using s1(2,3) s2 by (intro exI[of _ s1] exI[of _ ?r]) simp
qed

section \<open>The driver and the micro-DMA\<close>

text \<open>How a caller prepares a task.\<close>

datatype task_kind = Blocking u32 | Callback u32 u32

definition prepare_task :: "task_kind \<Rightarrow> u32 \<Rightarrow> uart_sys \<Rightarrow> uart_sys option" where
  "prepare_task k p s = (case k of Blocking sem \<Rightarrow> pi_task_block sem p s | Callback func a \<Rightarrow> pi_task_callback p func a s)"

text \<open>A configuration is the state, the ends of transfers the micro-DMA has reported on each channel, and the tasks
  handed over so far. A caller uses a task again only after it was released. The micro-DMA reports an end only
  for a transfer that was programmed and not cleared: an abort clears the channel, so that the transfer in flight counts
  as ended without an interrupt (\<open>abort_releases_nothing\<close> says what an interrupt still on its way would do). Every
  call of the driver is a step; the last close ends the run, and the next open starts a new one.\<close>

definition abort_command :: "channel \<Rightarrow> uart_ioctl" where
  "abort_command c = (case c of RX_CHANNEL \<Rightarrow> ABORT_RX | TX_CHANNEL \<Rightarrow> ABORT_TX)"

type_synonym uart_config = "uart_sys \<times> (channel \<Rightarrow> nat) \<times> u32 set"

inductive uart_step :: "nat \<Rightarrow> uart_config \<Rightarrow> uart_config \<Rightarrow> bool" for d where
  submit: "uart_step d (s, taken, used) (s2, taken, insert p used)"
    if "tasks s p = Some t" "p \<noteq> 0" "p \<notin> used \<or> task_done t" "prepare_task k p s = Some s1"
      "uart_copy d buf sz c p s1 = Some (r, s2)"
| transfer_end: "uart_step d (s, taken, used) (s', taken(c := taken c + 1), used)"
    if "taken c < transfers d c s" "uart_handler (uart_event d c) s = Some s'"
| command: "uart_step d (s, taken, used) (s', taken, used)"
    if "cmd \<noteq> ABORT_RX" "cmd \<noteq> ABORT_TX" "pi_uart_ioctl freq d cmd s = Some (r, s')"
| abort: "uart_step d (s, taken, used) (s', taken(c := transfers d c s), used)"
    if "pi_uart_ioctl freq d (abort_command c) s = Some (r, s')"
| close_one: "uart_step d (s, taken, used) (s', taken, used)"
    if "itf_at d s = Some x" "nb_open x \<noteq> 1" "pi_uart_close status (Some d) s = Some s'"
| open_again: "uart_step d (s, taken, used) (s', taken, used)"
    if "itf_at d s = Some x" "unat (uart_id conf) = d" "pi_uart_open freq chunk conf s = Some (r, s')"

inductive uart_reachable :: "nat \<Rightarrow> uart_config \<Rightarrow> bool" for d where
  opened: "uart_reachable d (s, \<lambda>c. transfers d c s0, {})"
    if "length (itfs s0) = UDMA_NB_UART" "itfs s0 ! d = None" "pi_uart_open freq chunk conf s0 = Some (Inr d, s)"
| next_step: "uart_reachable d y" if "uart_reachable d x" "uart_step d x y"

text \<open>The invariant: the queues are well formed, no queued task has been released, and each channel has one
  transfer in flight when its queue is not empty and none otherwise.\<close>

definition uart_inv :: "nat \<Rightarrow> uart_config \<Rightarrow> bool" where
  "uart_inv d = (\<lambda>(s, taken, used). \<exists>Q. uart_queues d Q s \<and> queued_tasks Q \<subseteq> used \<and>
     (\<forall>p\<in>queued_tasks Q. done_of s p = Some False) \<and>
     (\<forall>c. transfers d c s = taken c + (if Q c = [] then 0 else 1)))"

lemma uart_setup_set_effect [simp]:
  "tasks (uart_setup_set i v s) = tasks s" "itfs (uart_setup_set i v s) = itfs s"
  "started_of d (uart_setup_set i v s) = started_of d s"
  by (simp_all add: uart_setup_set_def started_of_def)

lemmas hal_uart_defs = hal_uart_tx_enable_def hal_uart_tx_disable_def hal_uart_rx_enable_def hal_uart_rx_disable_def
  hal_uart_setup_set_def

lemma started_of_irq [simp]: "started_of d (s\<lparr>irq_on := b\<rparr>) = started_of d s"
  by (simp add: started_of_def)

lemma uart_queues_frame [simp]:
  "uart_queues d Q (s\<lparr>irq_on := b\<rparr>) = uart_queues d Q s" "done_of (s\<lparr>irq_on := b\<rparr>) = done_of s"
  by (rule uart_queues_cong) (simp_all add: link_of_def done_of_def fun_eq_iff)

lemma ioctl_frame:
  assumes "pi_uart_ioctl freq d cmd s = Some (r, s')" "cmd \<noteq> ABORT_RX" "cmd \<noteq> ABORT_TX"
  shows "tasks s' = tasks s" "itfs s' = itfs s" "started_of d s' = started_of d s"
  using assms
  by (auto simp: pi_uart_ioctl_def disable_fc_irq_def restore_fc_irq_def uart_conf_set_def uart_channel_enable_def hal_uart_defs
      bind_eq_Some_conv Let_def split: uart_ioctl.splits if_splits)

lemma uart_inv_frame:
  assumes "uart_inv d (s, taken, used)" "tasks s' = tasks s" "itfs s' = itfs s" "started_of d s' = started_of d s"
  shows "uart_inv d (s', taken, used)"
proof -
  have "link_of s' = link_of s" "done_of s' = done_of s" using assms(2) by (simp_all add: link_of_def done_of_def fun_eq_iff)
  then show ?thesis using assms(1,3,4) uart_queues_cong[of _ s' s d] by (simp add: uart_inv_def transfers_def)
qed

lemma prepare_task_effect:
  assumes "prepare_task k p s = Some s1" "tasks s p = Some t" "p \<noteq> 0"
  shows "\<exists>t1. s1 = s\<lparr>tasks := (tasks s)(p := Some t1)\<rparr> \<and> \<not> task_done t1"
  using assms
  by (auto simp: prepare_task_def pi_task_block_def pi_task_callback_def set_task_def task_at_def split: task_kind.splits)

lemma transfers_append:
  "started_of d s' = started_of d s @ [(c, a, n)] \<Longrightarrow> transfers d c' s' = transfers d c' s + (if c' = c then 1 else 0)"
  by (simp add: transfers_def)

lemma body_done: "body_of s' p = body_of s p \<Longrightarrow> done_of s' p = done_of s p"
  by (cases "tasks s p"; cases "tasks s' p") (auto simp: body_of_def done_of_def dest: arg_cong[of _ _ task_done])

lemma submit_inv:
  assumes inv: "uart_inv d (s, taken, used)" and t: "tasks s p = Some t" "p \<noteq> 0" "p \<notin> used \<or> task_done t"
    and prep: "prepare_task k p s = Some s1"
  shows "\<exists>r s2. uart_copy d buf sz c p s1 = Some (r, s2) \<and> uart_inv d (s2, taken, insert p used)"
proof -
  obtain Q where Q: "uart_queues d Q s" "queued_tasks Q \<subseteq> used" "\<And>p. p \<in> queued_tasks Q \<Longrightarrow> done_of s p = Some False"
    "\<And>c. transfers d c s = taken c + (if Q c = [] then 0 else 1)"
    using inv by (auto simp: uart_inv_def)
  obtain t1 where t1: "s1 = s\<lparr>tasks := (tasks s)(p := Some t1)\<rparr>" "\<not> task_done t1" using prepare_task_effect[OF prep t(1,2)] by blast
  have pQ: "p \<notin> queued_tasks Q" using Q(2) Q(3)[of p] t by (auto simp: done_of_def)
  have "link_of s1 r = link_of s r" if "r \<in> queued_tasks Q" for r using that pQ t1(1) by (auto simp: link_of_def)
  then have Q1: "uart_queues d Q s1" using uart_queues_cong[of Q s1 s d] Q(1) t1(1) by simp
  have d1: "done_of s1 r = (if r = p then Some False else done_of s r)" for r using t1 by (simp add: done_of_def)
  have st: "transfers d c s1 = transfers d c s" for c using t1(1) by (simp add: transfers_def)
  show ?thesis
  proof (cases "buf AND 0xFFF00000 = 0x1C000000")
    case False
    have "uart_inv d (s1, taken, insert p used)"
      unfolding uart_inv_def using Q1 Q(2-4) d1 st pQ by (auto intro!: exI[of _ Q])
    then show ?thesis using uart_copy_refused[OF False] by blast
  next
    case True
    let ?Q = "Q(c := Q c @ [p])"
    from uart_copy_accepted[OF Q1 t(2) pQ _ True, of t1 sz c] t1(1) obtain s3 s' where
      s3: "uart_copy d buf sz c p s1 = Some (0, s')"
      "if Q c = [] then \<exists>s2. uart_copy_exec d p s3 = Some s2 \<and> s' = s2\<lparr>irq_on := irq_on s1\<rparr> else s' = s3\<lparr>irq_on := irq_on s1\<rparr>"
      "uart_queues d ?Q s3" "uarts s3 = uarts s1"
      "body_of s3 = (body_of s1)(p := Some (t1\<lparr>task_data := (task_data t1)(0 := buf, 1 := sz, 2 := channel_number c, 3 := 0), task_next := 0\<rparr>))"
      by auto
    have qt: "queued_tasks ?Q = insert p (queued_tasks Q)" by (cases c) (auto simp: queued_tasks_def)
    have d3: "done_of s3 r = Some False" if "r \<in> queued_tasks ?Q" for r
    proof (cases "r = p")
      case True
      then show ?thesis using fun_cong[OF s3(5), of p] t1(2) by (cases "tasks s3 p") (auto simp: body_of_def done_of_def dest: arg_cong[of _ _ task_done])
    next
      case False
      then show ?thesis using body_done[of s3 r s1] fun_cong[OF s3(5), of r] d1 Q(3) that qt by simp
    qed
    have st3: "transfers d c' s3 = transfers d c' s" for c' using st[of c'] s3(4) by (simp add: transfers_def started_of_def)
    have "uart_queues d ?Q s' \<and> done_of s' = done_of s3 \<and> (\<forall>c'. transfers d c' s' = taken c' + (if ?Q c' = [] then 0 else 1))"
    proof (cases "Q c = []")
      case False
      then show ?thesis using s3(2,3) st3 Q(4) by (simp add: transfers_def)
    next
      case E: True
      then obtain s2 where s2: "uart_copy_exec d p s3 = Some s2" "s' = s2\<lparr>irq_on := irq_on s1\<rparr>" using s3(2) by auto
      obtain x where x: "itf_at d s3 = Some x" "device_id x = of_nat d" using uart_itf[OF s3(3)] by blast
      obtain t3 where t3: "task_at p s3 = Some t3" "task_data t3 2 = channel_number c" using queued_task_at[OF s3(3), of p c] by auto
      from copy_exec_safe[OF x t3] s2(1) obtain n where n: "itfs s2 = itfs s3" "link_of s2 = link_of s3" "done_of s2 = done_of s3"
        "started_of d s2 = started_of d s3 @ [(c, task_data t3 0, n)]" by auto
      have "transfers d c' s' = transfers d c' s + (if c' = c then 1 else 0)" for c'
        using transfers_append[OF n(4), of c'] st3 s2(2) by (simp add: transfers_def)
      moreover have "uart_queues d ?Q s2" using uart_queues_cong[of ?Q s2 s3 d] n(1,2) s3(3) by simp
      ultimately show ?thesis using n(3) s2(2) Q(4) E by simp
    qed
    then have "uart_inv d (s', taken, insert p used)"
      unfolding uart_inv_def using d3 qt Q(2) by (auto intro!: exI[of _ ?Q])
    then show ?thesis using s3(1) by blast
  qed
qed

lemma transfer_end_inv:
  assumes inv: "uart_inv d (s, taken, used)" and e: "taken c < transfers d c s"
  shows "\<exists>s'. uart_handler (uart_event d c) s = Some s' \<and> uart_inv d (s', taken(c := taken c + 1), used)"
proof -
  obtain Q where Q: "uart_queues d Q s" "queued_tasks Q \<subseteq> used" "\<And>p. p \<in> queued_tasks Q \<Longrightarrow> done_of s p = Some False"
    "\<And>c. transfers d c s = taken c + (if Q c = [] then 0 else 1)"
    using inv by (auto simp: uart_inv_def)
  have "Q c \<noteq> []" using e Q(4)[of c] by auto
  then obtain p ps where c: "Q c = p # ps" by (cases "Q c") auto
  from handler_safe[OF Q(1) c] obtain s' ps' where
    s': "uart_handler (uart_event d c) s = Some s'" "uart_queues d (Q(c := ps')) s'" "set ps' \<subseteq> set (Q c)"
    "\<forall>r. r \<noteq> p \<longrightarrow> done_of s' r = done_of s r" "p \<in> set ps' \<longrightarrow> done_of s' p = done_of s p"
    "if ps' = [] then started_of d s' = started_of d s else \<exists>a n. started_of d s' = started_of d s @ [(c, a, n)]"
    by blast
  have sub: "queued_tasks (Q(c := ps')) \<subseteq> queued_tasks Q" using s'(3) by (cases c) (auto simp: queued_tasks_def)
  have "p \<in> queued_tasks (Q(c := ps')) \<Longrightarrow> p \<in> set ps'"
    using Q(1) c by (cases c) (auto simp: queued_tasks_def uart_queues_def)
  then have "done_of s' r = Some False" if "r \<in> queued_tasks (Q(c := ps'))" for r
    using that s'(4,5) Q(3) sub by (cases "r = p") auto
  moreover have "transfers d c' s' = (taken(c := taken c + 1)) c' + (if (Q(c := ps')) c' = [] then 0 else 1)" for c'
  proof (cases "ps' = []")
    case True
    then have "transfers d c' s' = transfers d c' s" using s'(6) by (simp add: transfers_def)
    then show ?thesis using Q(4)[of c'] c True by auto
  next
    case False
    then have "transfers d c' s' = transfers d c' s + (if c' = c then 1 else 0)" using s'(6) transfers_append by auto
    then show ?thesis using Q(4)[of c'] c False by auto
  qed
  ultimately have "uart_inv d (s', taken(c := taken c + 1), used)"
    unfolding uart_inv_def using s'(2) sub Q(2) by (auto intro!: exI[of _ "Q(c := ps')"])
  then show ?thesis using s'(1) by blast
qed

lemma uart_queues_itf:
  assumes "uart_queues d Q s" "itf_at d s = Some x" "tasks s' = tasks s" "itf_at d s' = Some x'" "fifo_head x' = fifo_head x"
    "fifo_tail x' = fifo_tail x" "device_id x' = device_id x"
  shows "uart_queues d Q s'"
proof -
  have "chan_queue s' x' c ps = chan_queue s x c ps" for c ps
    by (rule chan_queue_cong) (use assms in \<open>simp_all add: link_of_def\<close>)
  then show ?thesis using assms by (simp add: uart_queues_iff)
qed

lemma open_again_frame:
  assumes "itf_at d s = Some x" "unat (uart_id conf) = d" "pi_uart_open freq chunk conf s = Some (r, s')"
  shows "s' = s\<lparr>itfs := (itfs s)[d := Some (x\<lparr>nb_open := nb_open x + 1\<rparr>)]\<rparr> \<and> r = Inr d"
  using assms itf_at_length[OF assms(1)] by (simp add: pi_uart_open_def)

lemma open_again_inv:
  assumes inv: "uart_inv d (s, taken, used)" and o: "itf_at d s = Some x" "unat (uart_id conf) = d" "pi_uart_open freq chunk conf s = Some (r, s')"
  shows "uart_inv d (s', taken, used)"
proof -
  let ?x = "x\<lparr>nb_open := nb_open x + 1\<rparr>"
  have s': "s' = s\<lparr>itfs := (itfs s)[d := Some ?x]\<rparr>" using open_again_frame[OF o] by simp
  then have "itf_at d s' = Some ?x" using itf_at_length[OF o(1)] by simp
  then have "uart_queues d Q s \<Longrightarrow> uart_queues d Q s'" for Q
    using uart_queues_itf[of d Q s x s' ?x] o(1) s' by simp
  moreover have "done_of s' = done_of s" using s' by (simp add: done_of_def fun_eq_iff)
  moreover have "transfers d c s' = transfers d c s" for c using s' by (simp add: transfers_def)
  ultimately show ?thesis using inv unfolding uart_inv_def prod.case by metis
qed

text \<open>Closing a handle that is not the last one.\<close>

lemma close_one_inv:
  assumes inv: "uart_inv d (s, taken, used)" and o: "itf_at d s = Some x" "nb_open x \<noteq> 1" "pi_uart_close status (Some d) s = Some s'"
  shows "uart_inv d (s', taken, used)"
proof -
  let ?x = "x\<lparr>nb_open := nb_open x - 1\<rparr>"
  have "nb_open x - 1 \<noteq> 0" using o(2) by simp
  then have s': "s' = s\<lparr>itfs := (itfs s)[d := Some ?x]\<rparr>"
    using o(1,3) itf_at_length[OF o(1)] by (simp add: pi_uart_close_def set_itf_at)
  then have "itf_at d s' = Some ?x" using itf_at_length[OF o(1)] by simp
  then have "uart_queues d Q s \<Longrightarrow> uart_queues d Q s'" for Q
    using uart_queues_itf[of d Q s x s' ?x] o(1) s' by simp
  moreover have "done_of s' = done_of s" using s' by (simp add: done_of_def fun_eq_iff)
  moreover have "transfers d c s' = transfers d c s" for c using s' by (simp add: transfers_def)
  ultimately show ?thesis using inv unfolding uart_inv_def prod.case by metis
qed

text \<open>An abort empties the queue of its channel and leaves everything else alone.\<close>

lemma udma_channel_clear_effect [simp]:
  "tasks (udma_channel_clear i c s) = tasks s" "itfs (udma_channel_clear i c s) = itfs s"
  "started_of d (udma_channel_clear i c s) = started_of d s"
  by (simp_all add: udma_channel_clear_def started_of_def)

lemma abort_effect:
  assumes "itf_at d s = Some x"
  shows "\<exists>s1. uart_abort d c s = Some (s1\<lparr>itfs := (itfs s)[d := Some (x\<lparr>fifo_head := (fifo_head x)(c := 0), fifo_tail := (fifo_tail x)(c := 0)\<rparr>)]\<rparr>) \<and>
    tasks s1 = tasks s \<and> itfs s1 = itfs s \<and> started_of d s1 = started_of d s"
proof -
  define s1 where "s1 = udma_channel_clear (device_id x) c
      (case c of RX_CHANNEL \<Rightarrow> hal_uart_rx_disable (device_id x) s | TX_CHANNEL \<Rightarrow> hal_uart_tx_disable (device_id x) s)"
  have s1: "tasks s1 = tasks s" "itfs s1 = itfs s" "started_of d s1 = started_of d s"
    by (simp_all add: s1_def hal_uart_defs split: channel.split)
  then have "itf_at d s1 = Some x" using assms by (simp add: itf_at_def)
  from set_itf_at[OF this] show ?thesis
    using s1 assms by (intro exI[of _ s1]) (simp add: uart_abort_def Let_def flip: s1_def)
qed

lemma abort_queues:
  assumes "uart_queues d Q s" "uart_abort d c s = Some s'"
  shows "uart_queues d (Q(c := [])) s'" "tasks s' = tasks s" "started_of d s' = started_of d s"
proof -
  obtain x where x: "itf_at d s = Some x" using uart_itf[OF assms(1)] by blast
  let ?x = "x\<lparr>fifo_head := (fifo_head x)(c := 0), fifo_tail := (fifo_tail x)(c := 0)\<rparr>"
  obtain s1 where s1: "s' = s1\<lparr>itfs := (itfs s)[d := Some ?x]\<rparr>" "tasks s1 = tasks s" "itfs s1 = itfs s" "started_of d s1 = started_of d s"
    using abort_effect[OF x, of c] assms(2) by auto
  then show "tasks s' = tasks s" "started_of d s' = started_of d s" by simp_all
  have it: "itf_at d s' = Some ?x" using s1 itf_at_length[OF x] by simp
  have "chan_queue s' ?x c' ((Q(c := [])) c')" for c'
  proof (cases "c' = c")
    case False
    then have "chan_queue s' ?x c' (Q c') = chan_queue s x c' (Q c')"
      using s1 by (intro chan_queue_cong) (simp_all add: link_of_def)
    then show ?thesis using assms(1) x False by (simp add: uart_queues_iff)
  qed (simp add: chan_queue_def last_task_def)
  then show "uart_queues d (Q(c := [])) s'" using assms(1) x it unfolding uart_queues_iff by auto
qed

lemma abort_command_exec:
  "pi_uart_ioctl freq d (abort_command c) s = do { s1 \<leftarrow> uart_abort d c (s\<lparr>irq_on := False\<rparr>); Some (0, s1\<lparr>irq_on := irq_on s\<rparr>) }"
  by (cases c; cases "uart_abort d c (s\<lparr>irq_on := False\<rparr>)")
    (simp_all add: pi_uart_ioctl_def abort_command_def disable_fc_irq_def restore_fc_irq_def)

lemma ioctl_safe:
  assumes "uart_queues d Q s" "\<forall>conf. cmd = CONF_SETUP conf \<longrightarrow> baudrate_bps conf \<noteq> 0"
  shows "pi_uart_ioctl freq d cmd s \<noteq> None"
proof -
  obtain x where x: "itf_at d (s\<lparr>irq_on := False\<rparr>) = Some x" using uart_itf[OF assms(1)] by auto
  then have "\<exists>t. uart_abort d c (s\<lparr>irq_on := False\<rparr>) = Some t" "\<exists>t. uart_channel_enable d c (s\<lparr>irq_on := False\<rparr>) = Some t" for c
    using abort_effect[OF x, of c] by (auto simp: uart_channel_enable_def)
  then obtain f g where "\<And>c. uart_abort d c (s\<lparr>irq_on := False\<rparr>) = Some (f c)" "\<And>c. uart_channel_enable d c (s\<lparr>irq_on := False\<rparr>) = Some (g c)"
    by metis
  then show ?thesis
    using x assms(2)
    by (cases cmd) (auto simp: pi_uart_ioctl_def disable_fc_irq_def uart_conf_set_def Let_def)
qed

lemma abort_inv:
  assumes inv: "uart_inv d (s, taken, used)" and a: "pi_uart_ioctl freq d (abort_command c) s = Some (r, s')"
  shows "uart_inv d (s', taken(c := transfers d c s), used)"
proof -
  obtain Q where Q: "uart_queues d Q s" "queued_tasks Q \<subseteq> used" "\<And>p. p \<in> queued_tasks Q \<Longrightarrow> done_of s p = Some False"
    "\<And>c. transfers d c s = taken c + (if Q c = [] then 0 else 1)"
    using inv by (auto simp: uart_inv_def)
  obtain s1 where s1: "uart_abort d c (s\<lparr>irq_on := False\<rparr>) = Some s1" "s' = s1\<lparr>irq_on := irq_on s\<rparr>"
    using a by (auto simp: abort_command_exec bind_eq_Some_conv)
  have "uart_queues d Q (s\<lparr>irq_on := False\<rparr>)" using Q(1) by simp
  note q = abort_queues[OF this s1(1)]
  have t: "tasks s' = tasks s" "started_of d s' = started_of d s" using q(2,3) s1(2) by simp_all
  then have "done_of s' = done_of s" "transfers d c' s' = transfers d c' s" for c'
    by (simp_all add: done_of_def transfers_def fun_eq_iff)
  moreover have "queued_tasks (Q(c := [])) \<subseteq> queued_tasks Q" by (cases c) (auto simp: queued_tasks_def)
  moreover have "uart_queues d (Q(c := [])) s'" using q(1) s1(2) by simp
  ultimately show ?thesis
    unfolding uart_inv_def prod.case using Q(2-4) by (intro exI[of _ "Q(c := [])"]) auto
qed

text \<open>The first open.\<close>

lemma hal_soc_eu_fc_mask_frame [simp]:
  "tasks (hal_soc_eu_set_fc_mask e s) = tasks s" "itfs (hal_soc_eu_set_fc_mask e s) = itfs s" "uarts (hal_soc_eu_set_fc_mask e s) = uarts s"
  by (simp_all add: hal_soc_eu_set_fc_mask_def Let_def)

lemma udma_ctrl_cg_frame [simp]:
  "tasks (udma_ctrl_cg_disable e s) = tasks s" "itfs (udma_ctrl_cg_disable e s) = itfs s" "uarts (udma_ctrl_cg_disable e s) = uarts s"
  by (simp_all add: udma_ctrl_cg_disable_def)

lemma event_handler_set_frame:
  assumes "pi_fc_event_handler_set e h s = Some s'"
  shows "tasks s' = tasks s" "itfs s' = itfs s" "uarts s' = uarts s"
  using assms by (auto simp: pi_fc_event_handler_set_def bind_eq_Some_conv)

lemma uart_conf_set_frame:
  assumes "uart_conf_set freq d conf s = Some s'"
  shows "tasks s' = tasks s" "itfs s' = itfs s" "started_of d' s' = started_of d' s"
  using assms by (auto simp: uart_conf_set_def hal_uart_setup_set_def Let_def bind_eq_Some_conv split: if_splits)

lemma opened_queues:
  assumes l: "length (itfs s0) = UDMA_NB_UART" "itfs s0 ! d = None" and o: "pi_uart_open freq chunk conf s0 = Some (Inr d, s)"
  shows "uart_queues d (\<lambda>_. []) s" "started_of d s = started_of d s0"
proof -
  let ?x = "\<lparr>fifo_head = \<lambda>_. 0, fifo_tail = \<lambda>_. 0, nb_open = 1, device_id = ucast (uart_id conf)\<rparr>"
  have d: "unat (uart_id conf) = d" "d < UDMA_NB_UART"
    using o l by (auto simp: pi_uart_open_def Let_def bind_eq_Some_conv rd_def split: if_splits option.splits)
  obtain s1 s2 where s1: "pi_fc_event_handler_set (SOC_EVENT_UDMA_UART_RX (ucast (uart_id conf))) PI_UART_HANDLER
      (s0\<lparr>itfs := (itfs s0)[d := Some ?x]\<rparr>) = Some s1"
    "pi_fc_event_handler_set (SOC_EVENT_UDMA_UART_TX (ucast (uart_id conf))) PI_UART_HANDLER s1 = Some s2"
    "uart_conf_set freq d conf (udma_ctrl_cg_disable (unat (UDMA_UART_ID (ucast (uart_id conf))))
       (hal_soc_eu_set_fc_mask (sint (SOC_EVENT_UDMA_UART_TX (ucast (uart_id conf))))
         (hal_soc_eu_set_fc_mask (sint (SOC_EVENT_UDMA_UART_RX (ucast (uart_id conf)))) s2))) = Some s"
    using o l d by (auto simp: pi_uart_open_def Let_def bind_eq_Some_conv split: if_splits)
  note f = event_handler_set_frame[OF s1(1)] event_handler_set_frame[OF s1(2)]
  have "itfs s = (itfs s0)[d := Some ?x]" using uart_conf_set_frame(2)[OF s1(3)] f by simp
  then have it: "itf_at d s = Some ?x" using l d by (simp add: itf_at_def)
  have "(ucast (uart_id conf) :: u32) = of_nat d" using d(1) of_nat_unat[of "uart_id conf"] by metis
  then show "uart_queues d (\<lambda>_. []) s" using it d(2) by (simp add: uart_queues_iff chan_queue_def last_task_def)
  show "started_of d s = started_of d s0" using uart_conf_set_frame(3)[OF s1(3)] f by (simp add: started_of_def)
qed

lemma uart_reachable_inv: "uart_reachable d y \<Longrightarrow> uart_inv d y"
proof (induction rule: uart_reachable.induct)
  case (opened s0 freq chunk conf s)
  then show ?case using opened_queues[of s0 d freq chunk conf s]
    by (auto simp: uart_inv_def transfers_def queued_tasks_def intro!: exI[of _ "\<lambda>_. []"])
next
  case (next_step x y)
  from next_step(2) show ?case
  proof (cases rule: uart_step.cases)
    case (submit s p t used k s1 buf sz c r s2 taken)
    then show ?thesis using submit_inv[of d s taken used p t k s1 buf sz c] next_step(3) by auto
  next
    case (transfer_end taken c s s' used)
    then show ?thesis using transfer_end_inv[of d s taken used c] next_step(3) by auto
  next
    case (command cmd freq s r s' taken used)
    then show ?thesis using uart_inv_frame[of d s taken used s'] ioctl_frame[OF command(5) command(3,4)] next_step(3) by auto
  next
    case (abort freq c s r s' taken used)
    then show ?thesis using abort_inv next_step(3) by blast
  next
    case (close_one s x status s' taken used)
    then show ?thesis using close_one_inv next_step(3) by blast
  next
    case (open_again s x conf freq chunk r s' taken used)
    then show ?thesis using open_again_inv next_step(3) by blast
  qed
qed

section \<open>Emptying a queue\<close>

text \<open>A task waited for whose transfer fits into one of the micro-DMA, and that transfer.\<close>

definition one_piece :: "uart_sys \<Rightarrow> u32 \<Rightarrow> bool" where
  "one_piece s p = (case tasks s p of None \<Rightarrow> False
     | Some t \<Rightarrow> task_id t = PI_TASK_NONE_ID \<and> task_data t 3 = 0 \<and> task_data t 1 \<le> UDMA_MAX_SIZE - 4)"

definition transfer_of :: "uart_sys \<Rightarrow> channel \<Rightarrow> u32 \<Rightarrow> channel \<times> u32 \<times> u32" where
  "transfer_of s c p = (case tasks s p of None \<Rightarrow> (c, 0, 0) | Some t \<Rightarrow> (c, task_data t 0, task_data t 1))"

definition release_all :: "u32 set \<Rightarrow> uart_sys \<Rightarrow> u32 \<Rightarrow> pi_task option" where
  "release_all ps s p = (if p \<in> ps then map_option (task_done_update (\<lambda>_. True)) (tasks s p) else tasks s p)"

lemma handler_one_piece:
  assumes q: "uart_queues d Q s" and c: "Q c = p # ps" and o: "\<forall>r\<in>set (Q c). one_piece s r"
  shows "\<exists>s'. uart_handler (uart_event d c) s = Some s' \<and> uart_queues d (Q(c := ps)) s' \<and>
    started_of d s' = started_of d s @ map (transfer_of s c) (take 1 ps) \<and> tasks s' = release_all {p} s"
proof -
  obtain t where t: "tasks s p = Some t" "task_data t 3 = 0" "task_id t = PI_TASK_NONE_ID"
    using o c by (auto simp: one_piece_def split: option.splits)
  from handler_pop[OF q c t(1,2)] obtain s1 where
    s1: "uart_handler (uart_event d c) s = (if ps = [] then Some s1 else uart_copy_exec d (hd ps) s1)"
    "uart_queues d (Q(c := ps)) s1" "uarts s1 = uarts s" "tasks s1 = (tasks s)(p := Some (t\<lparr>task_done := True\<rparr>))"
    using t(3) by auto
  have rel: "tasks s1 = release_all {p} s" using s1(4) t(1) by (auto simp: release_all_def fun_eq_iff)
  have np: "p \<notin> set ps" using q c by (auto simp: uart_queues_iff chan_queue_def) (metis distinct.simps(2))
  show ?thesis
  proof (cases ps)
    case Nil
    then show ?thesis using s1 rel by (auto simp: started_of_def)
  next
    case (Cons r rs)
    obtain x where x: "itf_at d s1 = Some x" "device_id x = of_nat d" using uart_itf[OF s1(2)] by blast
    obtain t1 where t1: "task_at r s1 = Some t1" "tasks s1 r = Some t1" "task_data t1 2 = channel_number c"
      using queued_task_at[OF s1(2), of r c] Cons by auto
    have "tasks s r = Some t1" using t1(2) s1(4) np Cons by auto
    moreover from this have "task_data t1 1 \<le> UDMA_MAX_SIZE - 4" using o c Cons by (auto simp: one_piece_def)
    note copy_exec_small[OF x t1(1,3) this]
    moreover let ?s = "hal_uart_enqueue (of_nat d) (task_data t1 0) (task_data t1 1) 0 c s1"
    have "uart_queues d (Q(c := ps)) ?s"
      using uart_queues_cong[of "Q(c := ps)" ?s s1 d] s1(2) by (simp add: link_of_def)
    moreover have "started_of d s1 = started_of d s" using s1(3) by (simp add: started_of_def)
    ultimately show ?thesis using s1(1) Cons rel by (intro exI[of _ ?s]) (simp add: transfer_of_def)
  qed
qed

fun uart_events :: "u32 list \<Rightarrow> uart_sys \<Rightarrow> uart_sys option" where
  "uart_events [] s = Some s"
| "uart_events (e # es) s = do { s \<leftarrow> uart_handler e s; uart_events es s }"

lemma one_piece_released:
  "tasks s' = release_all {p} s \<Longrightarrow> r \<noteq> p \<Longrightarrow> one_piece s' r = one_piece s r \<and> transfer_of s' c r = transfer_of s c r"
  by (simp add: one_piece_def transfer_of_def release_all_def)

lemma release_all_insert: "tasks s' = release_all {p} s \<Longrightarrow> release_all ps s' = release_all (insert p ps) s"
  by (auto simp: release_all_def fun_eq_iff option.map_comp comp_def)

lemma distinct_queue: "uart_queues d Q s \<Longrightarrow> distinct (Q c)"
  by (auto simp: uart_queues_iff chan_queue_def)

lemma take_tl_subset: "set (take n (tl xs)) \<subseteq> set xs"
  by (cases xs) (auto dest: in_set_takeD)

lemma events_drain:
  assumes "uart_queues d Q s" "Q c = ps @ qs" "\<forall>r\<in>set (Q c). one_piece s r"
  shows "\<exists>s'. uart_events (replicate (length ps) (uart_event d c)) s = Some s' \<and> uart_queues d (Q(c := qs)) s' \<and>
    started_of d s' = started_of d s @ map (transfer_of s c) (take (length ps) (tl (Q c))) \<and> tasks s' = release_all (set ps) s"
  using assms
proof (induction ps arbitrary: s Q)
  case Nil
  then have "Q(c := qs) = Q" by auto
  then show ?case using Nil by (simp add: release_all_def fun_eq_iff)
next
  case (Cons p ps)
  from handler_one_piece[OF Cons.prems(1), of c p "ps @ qs"] Cons.prems(2,3) obtain s1 where
    s1: "uart_handler (uart_event d c) s = Some s1" "uart_queues d (Q(c := ps @ qs)) s1"
    "started_of d s1 = started_of d s @ map (transfer_of s c) (take 1 (ps @ qs))" "tasks s1 = release_all {p} s" by auto
  have np: "p \<notin> set (ps @ qs)" using distinct_queue[OF Cons.prems(1), of c] Cons.prems(2) by simp
  then have same: "\<forall>r\<in>set (ps @ qs). one_piece s1 r \<and> transfer_of s1 c r = transfer_of s c r"
    using one_piece_released[OF s1(4)] Cons.prems(2,3) by (metis append_Cons list.set_intros(2))
  then have "\<forall>r\<in>set ((Q(c := ps @ qs)) c). one_piece s1 r" by simp
  from Cons.IH[OF s1(2) _ this] obtain s2 where
    s2: "uart_events (replicate (length ps) (uart_event d c)) s1 = Some s2" "uart_queues d (Q(c := qs)) s2"
    "started_of d s2 = started_of d s1 @ map (transfer_of s1 c) (take (length ps) (tl (ps @ qs)))" "tasks s2 = release_all (set ps) s1"
    unfolding fun_upd_upd fun_upd_same by blast
  have m1: "map (transfer_of s1 c) (take (length ps) (tl (ps @ qs))) = map (transfer_of s c) (take (length ps) (tl (ps @ qs)))"
    using same take_tl_subset[of "length ps" "ps @ qs"] by auto
  have "take 1 (ps @ qs) @ take (length ps) (tl (ps @ qs)) = take (Suc (length ps)) (ps @ qs)"
    by (cases "ps @ qs") simp_all
  then have m2: "map (transfer_of s c) (take 1 (ps @ qs)) @ map (transfer_of s c) (take (length ps) (tl (ps @ qs))) =
      map (transfer_of s c) (take (Suc (length ps)) (ps @ qs))" by (metis map_append)
  have st: "started_of d s2 = started_of d s @ map (transfer_of s c) (take (length (p # ps)) (tl (Q c)))"
    unfolding s2(3) s1(3) Cons.prems(2) append_assoc m1 m2 by simp
  have ev: "uart_events (replicate (length (p # ps)) (uart_event d c)) s = Some s2" using s1(1) s2(1) by simp
  have "tasks s2 = release_all (set (p # ps)) s" using s2(4) release_all_insert[OF s1(4), of "set ps"] by simp
  with ev s2(2) st show ?case by blast
qed

section \<open>The blocking calls\<close>

lemma wait_on_last:
  assumes "uart_queues d Q s" "Q c = ps @ [p]" "\<forall>r\<in>set (Q c). one_piece s r" "done_of s p = Some False"
  shows "pi_task_wait_on uart_handler (replicate (Suc (length ps)) (uart_event d c) @ es) p s =
    do { s1 \<leftarrow> uart_events (replicate (Suc (length ps)) (uart_event d c)) s; s2 \<leftarrow> pi_task_destroy p s1; Some (es, s2) }"
  using assms
proof (induction ps arbitrary: s Q)
  case Nil
  from handler_one_piece[OF Nil(1), of c p "[]"] Nil(2,3) obtain s1 where
    s1: "uart_handler (uart_event d c) s = Some s1" "tasks s1 = release_all {p} s" by auto
  obtain t where t: "task_at p s = Some t" "tasks s p = Some t" "p \<noteq> 0" using queued_task_at[OF Nil(1), of p c] Nil(2) by auto
  then have "\<not> task_done t" using Nil(4) by (simp add: done_of_def)
  moreover have "task_at p s1 = Some (t\<lparr>task_done := True\<rparr>)" using s1(2) t by (simp add: task_at_def release_all_def)
  ultimately show ?case using s1(1) t by (cases es) simp_all
next
  case (Cons r ps)
  from handler_one_piece[OF Cons.prems(1), of c r "ps @ [p]"] Cons.prems(2,3) obtain s1 where
    s1: "uart_handler (uart_event d c) s = Some s1" "uart_queues d (Q(c := ps @ [p])) s1" "tasks s1 = release_all {r} s" by auto
  have np: "r \<notin> set (ps @ [p])" using distinct_queue[OF Cons.prems(1), of c] Cons.prems(2) by simp
  have "\<forall>q\<in>set (ps @ [p]). one_piece s1 q"
    using one_piece_released[OF s1(3)] Cons.prems(2,3) np by (metis append_Cons list.set_intros(2))
  then have o: "\<forall>q\<in>set ((Q(c := ps @ [p])) c). one_piece s1 q" by simp
  have "p \<noteq> r" using np by auto
  then have "done_of s1 p = Some False" using s1(3) Cons.prems(4) by (simp add: done_of_def release_all_def)
  note ih = Cons.IH[OF s1(2) _ o this]
  obtain t where t: "task_at p s = Some t" "tasks s p = Some t" using queued_task_at[OF Cons.prems(1), of p c] Cons.prems(2) by auto
  then have "\<not> task_done t" using Cons.prems(4) by (simp add: done_of_def)
  then show ?case using t s1(1) ih by (simp add: bind_assoc)
qed

lemma body_same:
  "body_of s' r = body_of s r \<Longrightarrow> one_piece s' r = one_piece s r \<and> transfer_of s' c r = transfer_of s c r"
  by (cases "tasks s r"; cases "tasks s' r")
    (auto simp: body_of_def one_piece_def transfer_of_def dest: arg_cong[of _ _ task_id] arg_cong[of _ _ task_data])

lemma destroy_effect:
  assumes "tasks s p = Some t" "p \<noteq> 0"
  shows "\<exists>s'. pi_task_destroy p s = Some s' \<and> pi_task_destroy p s' = Some s' \<and> itfs s' = itfs s \<and> link_of s' = link_of s \<and>
    done_of s' = done_of s \<and> started_of d s' = started_of d s"
  using assms by (auto simp: pi_task_destroy_def set_task_def task_at_def link_of_def done_of_def fun_eq_iff)

lemma done_release: "tasks s' = release_all ps s \<Longrightarrow> p \<in> ps \<Longrightarrow> tasks s p \<noteq> None \<Longrightarrow> done_of s' p = Some True"
  by (auto simp: done_of_def release_all_def)

text \<open>The state after the task of a blocking call has been handed over.\<close>

lemma blocking_submit:
  assumes q: "uart_queues d Q s" and p: "p \<noteq> 0" "p \<notin> queued_tasks Q" "tasks s p = Some t"
    and o: "\<forall>r\<in>set (Q c). one_piece s r" and buf: "buf AND 0xFFF00000 = 0x1C000000" and sz: "sz \<le> UDMA_MAX_SIZE - 4"
  shows "\<exists>s1 s2. pi_task_block sem p s = Some s1 \<and> uart_copy d buf sz c p s1 = Some (0, s2) \<and>
    uart_queues d (Q(c := Q c @ [p])) s2 \<and> (\<forall>r\<in>set (Q c @ [p]). one_piece s2 r) \<and> done_of s2 p = Some False \<and>
    (\<forall>r\<in>set (Q c). transfer_of s2 c r = transfer_of s c r) \<and> transfer_of s2 c p = (c, buf, sz) \<and>
    started_of d s2 = started_of d s @ (if Q c = [] then [(c, buf, sz)] else [])"
proof -
  let ?t = "t\<lparr>task_id := PI_TASK_NONE_ID, task_done := False, sem_object := sem, destroy := True, core_id := - 1\<rparr>"
  let ?s1 = "s\<lparr>tasks := (tasks s)(p := Some ?t)\<rparr>"
  let ?u = "?t\<lparr>task_data := (task_data t)(0 := buf, 1 := sz, 2 := channel_number c, 3 := 0), task_next := 0\<rparr>"
  let ?Q = "Q(c := Q c @ [p])"
  have blk: "pi_task_block sem p s = Some ?s1" using p by (simp add: pi_task_block_def set_task_def task_at_def)
  have "link_of ?s1 r = link_of s r" if "r \<in> queued_tasks Q" for r using that p(2) by (auto simp: link_of_def)
  then have q1: "uart_queues d Q ?s1" using uart_queues_cong[of Q ?s1 s d] q by simp
  from uart_copy_accepted[OF q1 p(1,2), of ?t buf sz c] buf obtain s3 s2 where
    s3: "uart_copy d buf sz c p ?s1 = Some (0, s2)"
    "if Q c = [] then \<exists>s4. uart_copy_exec d p s3 = Some s4 \<and> s2 = s4\<lparr>irq_on := irq_on ?s1\<rparr> else s2 = s3\<lparr>irq_on := irq_on ?s1\<rparr>"
    "uart_queues d ?Q s3" "uarts s3 = uarts ?s1" "body_of s3 = (body_of ?s1)(p := Some ?u)"
    by (auto simp: fun_eq_iff)
  have bp: "body_of s3 p = Some ?u" using s3(5) by simp
  then obtain u where u: "tasks s3 p = Some u" "u\<lparr>task_next := 0\<rparr> = ?u" by (auto simp: body_of_def)
  have ud: "task_id u = PI_TASK_NONE_ID" "task_data u = (task_data t)(0 := buf, 1 := sz, 2 := channel_number c, 3 := 0)" "\<not> task_done u"
    using arg_cong[OF u(2), of task_id] arg_cong[OF u(2), of task_data] arg_cong[OF u(2), of task_done] by simp_all
  have br: "body_of s3 r = body_of s r" if "r \<in> set (Q c)" for r
    using fun_cong[OF s3(5), of r] that p(2) queued_tasks_channel[of Q c] by (auto simp: body_of_def)
  obtain x where x: "itf_at d s3 = Some x" "device_id x = of_nat d" using uart_itf[OF s3(3)] by blast
  have up: "task_at p s3 = Some u" "task_data u 2 = channel_number c" "task_data u 1 \<le> UDMA_MAX_SIZE - 4"
    using u(1) p(1) ud(2) sz by (simp_all add: task_at_def)
  have st3: "started_of d s3 = started_of d s" using s3(4) by (simp add: started_of_def)
  have "tasks s2 = tasks s3 \<and> uart_queues d ?Q s2 \<and> started_of d s2 = started_of d s @ (if Q c = [] then [(c, buf, sz)] else [])"
  proof (cases "Q c = []")
    case True
    let ?s4 = "hal_uart_enqueue (of_nat d) buf sz 0 c s3"
    have "s2 = ?s4\<lparr>irq_on := irq_on s\<rparr>" using s3(2) True copy_exec_small[OF x up] ud(2) by simp
    moreover have "uart_queues d ?Q ?s4" using uart_queues_cong[of ?Q ?s4 s3 d] s3(3) by (simp add: link_of_def)
    ultimately show ?thesis using st3 True by simp
  qed (use s3(2,3) st3 in simp)
  moreover from this have "body_of s2 = body_of s3" "done_of s2 = done_of s3" by (simp_all add: body_of_def done_of_def fun_eq_iff)
  moreover have "one_piece s3 p" "transfer_of s3 c p = (c, buf, sz)" "done_of s3 p = Some False"
    using u(1) ud sz by (simp_all add: one_piece_def transfer_of_def done_of_def)
  ultimately have "one_piece s2 p" "transfer_of s2 c p = (c, buf, sz)" "done_of s2 p = Some False"
    "\<forall>r\<in>set (Q c). one_piece s2 r \<and> transfer_of s2 c r = transfer_of s c r"
    using body_same[of s2 _ s3] body_same[of s2 _ s] br o by auto
  with \<open>tasks s2 = tasks s3 \<and> _\<close> blk s3(1) show ?thesis by auto
qed

lemma blocking_returns:
  assumes q: "uart_queues d Q s" and p: "p \<noteq> 0" "p \<notin> queued_tasks Q" "tasks s p = Some t"
    and o: "\<forall>r\<in>set (Q c). one_piece s r" and buf: "buf AND 0xFFF00000 = 0x1C000000" and sz: "sz \<le> UDMA_MAX_SIZE - 4"
  shows "\<exists>s'. uart_blocking (uart_copy d buf sz c) p sem (replicate (Suc (length (Q c))) (uart_event d c) @ es) s = Some (0, es, s') \<and>
    uart_queues d (Q(c := [])) s' \<and> (\<forall>r\<in>set (Q c @ [p]). done_of s' r = Some True) \<and>
    started_of d s' = started_of d s @ map (transfer_of s c) (tl (Q c)) @ [(c, buf, sz)]"
proof -
  let ?Q = "Q(c := Q c @ [p])" and ?n = "Suc (length (Q c))"
  from blocking_submit[OF assms, of sem] obtain s1 s2 where s2: "pi_task_block sem p s = Some s1" "uart_copy d buf sz c p s1 = Some (0, s2)"
    "uart_queues d ?Q s2" "\<forall>r\<in>set (Q c @ [p]). one_piece s2 r" "done_of s2 p = Some False"
    "\<forall>r\<in>set (Q c). transfer_of s2 c r = transfer_of s c r" "transfer_of s2 c p = (c, buf, sz)"
    "started_of d s2 = started_of d s @ (if Q c = [] then [(c, buf, sz)] else [])" by blast
  have o2: "\<forall>r\<in>set (?Q c). one_piece s2 r" using s2(4) by simp
  have "?Q c = (Q c @ [p]) @ []" by simp
  from events_drain[OF s2(3) this o2] obtain s3 where
    s3: "uart_events (replicate ?n (uart_event d c)) s2 = Some s3" "uart_queues d (Q(c := [])) s3"
    "started_of d s3 = started_of d s2 @ map (transfer_of s2 c) (take ?n (tl (Q c @ [p])))"
    "tasks s3 = release_all (set (Q c @ [p])) s2"
    unfolding fun_upd_upd fun_upd_same length_append_singleton by blast
  have dn: "\<forall>r\<in>set (Q c @ [p]). done_of s3 r = Some True"
    using done_release[OF s3(4)] s2(4) by (auto simp: one_piece_def split: option.splits)
  have "tasks s3 p \<noteq> None" using dn by (auto simp: done_of_def)
  then obtain t3 where t3: "tasks s3 p = Some t3" by auto
  from destroy_effect[OF t3 p(1), of d] obtain s4 where s4: "pi_task_destroy p s3 = Some s4" "pi_task_destroy p s4 = Some s4"
    "itfs s4 = itfs s3" "link_of s4 = link_of s3" "done_of s4 = done_of s3" "started_of d s4 = started_of d s3" by blast
  have "pi_task_wait_on uart_handler (replicate ?n (uart_event d c) @ es) p s2 = Some (es, s4)"
    unfolding wait_on_last[OF s2(3) fun_upd_same o2 s2(5)] s3(1) Option.bind.simps s4(1) ..
  then have "uart_blocking (uart_copy d buf sz c) p sem (replicate ?n (uart_event d c) @ es) s = Some (0, es, s4)"
    unfolding uart_blocking_def s2(1,2) Option.bind.simps prod.case s4(2) by (simp only: Option.bind.simps prod.case s4(2))
  moreover have "uart_queues d (Q(c := [])) s4" using uart_queues_cong[of "Q(c := [])" s4 s3 d] s4(3,4) s3(2) by simp
  moreover have "map (transfer_of s2 c) (tl (Q c)) = map (transfer_of s c) (tl (Q c))"
    using s2(6) by (cases "Q c") auto
  then have "started_of d s4 = started_of d s @ map (transfer_of s c) (tl (Q c)) @ [(c, buf, sz)]"
    using s4(6) s3(3) s2(7,8) by (cases "Q c") simp_all
  ultimately show ?thesis using dn s4(5) by auto
qed

section \<open>The queue as a first-in first-out queue\<close>

lemma chain_unique: "chain nx x ps \<Longrightarrow> chain nx x qs \<Longrightarrow> ps = qs"
  by (induction ps arbitrary: x qs) (auto elim: chain.elims split: option.splits)

lemma uart_queues_unique: "uart_queues d Q s \<Longrightarrow> uart_queues d Q' s \<Longrightarrow> Q = Q'"
proof
  fix c
  assume Q: "uart_queues d Q s" "uart_queues d Q' s"
  obtain x where x: "itf_at d s = Some x" using uart_itf[OF Q(1)] by blast
  then have "chain (links s) (fifo_head x c) (Q c)" using Q(1) by (simp add: uart_queues_iff chan_queue_def)
  moreover have "chain (links s) (fifo_head x c) (Q' c)" using Q(2) x by (simp add: uart_queues_iff chan_queue_def)
  ultimately show "Q c = Q' c" by (rule chain_unique)
qed

definition queue_is :: "nat \<Rightarrow> channel \<Rightarrow> u32 list \<Rightarrow> uart_sys \<Rightarrow> bool" where
  "queue_is d c ps s \<longleftrightarrow> (\<exists>Q. uart_queues d Q s \<and> Q c = ps)"

definition ready_task :: "nat \<Rightarrow> channel \<Rightarrow> u32 \<Rightarrow> uart_sys \<Rightarrow> bool" where
  "ready_task d c p s \<longleftrightarrow> p \<noteq> 0 \<and> (\<exists>t. tasks s p = Some t \<and> task_next t = 0 \<and> task_data t 2 = channel_number c) \<and>
     (\<forall>Q. uart_queues d Q s \<longrightarrow> p \<notin> queued_tasks Q)"

interpretation uart_fifo: task_fifo "queue_is d c" "ready_task d c" "\<lambda>p. uart_fifo_enqueue d p c" "uart_fifo_pop d c" for d c
proof
  fix ps s p assume "queue_is d c ps s" and p: "ready_task d c p s"
  then obtain Q where Q: "uart_queues d Q s" "Q c = ps" by (auto simp: queue_is_def)
  from p Q(1) obtain t where t: "p \<noteq> 0" "p \<notin> queued_tasks Q" "tasks s p = Some t" "task_next t = 0" "task_data t 2 = channel_number c"
    by (auto simp: ready_task_def)
  from fifo_enqueue_queues[OF Q(1) t] obtain s' where
    s': "uart_fifo_enqueue d p c s = Some (if Q c = [] then 0 else 1, s')" "uart_queues d (Q(c := Q c @ [p])) s'"
    "\<forall>r. r \<notin> queued_tasks Q \<longrightarrow> tasks s' r = tasks s r" by blast
  have qt: "queued_tasks (Q(c := Q c @ [p])) = insert p (queued_tasks Q)" by (cases c) (auto simp: queued_tasks_def)
  have "ready_task d c q s'" if q: "ready_task d c q s" "q \<noteq> p" for q
  proof -
    have "q \<notin> queued_tasks Q" using q(1) Q(1) by (simp add: ready_task_def)
    moreover from this have "tasks s' q = tasks s q" using s'(3) by simp
    ultimately show ?thesis
      using q uart_queues_unique[OF s'(2)] qt by (auto simp: ready_task_def)
  qed
  then show "\<exists>s'. uart_fifo_enqueue d p c s = Some (if ps = [] then 0 else 1, s') \<and> queue_is d c (ps @ [p]) s' \<and>
      (\<forall>q. ready_task d c q s \<and> q \<noteq> p \<longrightarrow> ready_task d c q s')"
    using s'(1,2) Q(2) by (auto simp: queue_is_def)
next
  fix p ps s assume "queue_is d c (p # ps) s"
  then obtain Q where Q: "uart_queues d Q s" "Q c = p # ps" by (auto simp: queue_is_def)
  from fifo_pop_queues[OF this] obtain s' where "uart_fifo_pop d c s = Some (p, s')" "uart_queues d (Q(c := ps)) s'" by blast
  then show "\<exists>s'. uart_fifo_pop d c s = Some (p, s') \<and> queue_is d c ps s'"
    unfolding queue_is_def by (metis fun_upd_same)
next
  fix s assume "queue_is d c [] s"
  then obtain Q where Q: "uart_queues d Q s" "Q c = []" by (auto simp: queue_is_def)
  then obtain x where "itf_at d s = Some x" "fifo_head x c = 0"
    using uart_itf[OF Q(1)] uart_head[OF Q(1)] by (auto simp: first_task_def)
  then show "uart_fifo_pop d c s = Some (0, s)" by (simp add: uart_fifo_pop_def disable_fc_irq_def restore_fc_irq_def Let_def)
next
  fix ps s assume "queue_is d c ps s"
  then show "0 \<notin> set ps" using queued_task_at[of d _ s 0 c] by (auto simp: queue_is_def)
qed

section \<open>Properties\<close>

text \<open>A device with two writes in its queue and a third task, for the examples.\<close>

definition example_task :: "u32 \<Rightarrow> u32 \<Rightarrow> u32 \<Rightarrow> pi_task" where
  "example_task buf sz nxt = \<lparr>task_arg = \<lambda>_. 0, task_id = PI_TASK_NONE_ID, task_data = (\<lambda>_. 0)(0 := buf, 1 := sz, 2 := 1),
     sem_object = 0, task_next = nxt, task_done = False, core_id = - 1, destroy = True\<rparr>"

definition example_sys :: "uart_itf option \<Rightarrow> uart_sys" where
  "example_sys x = \<lparr>tasks = [0x100 \<mapsto> example_task 0x1C000000 8 0x200, 0x200 \<mapsto> example_task 0x1C000100 4 0, 0x300 \<mapsto> example_task 0 0 0],
     sem_gives = \<lambda>_. 0, fc_event_handlers = replicate NB_SOC_EVENTS Null_event, fc_mask = \<lambda>_. - 1, clock_gate = 0, irq_on = True,
     irq_lines = {}, itfs = [x], uarts = \<lambda>_. \<lparr>setup_reg = 0, chan = \<lambda>_. \<lparr>saddr = 0, ch_size = 0, cfg = 0\<rparr>, started = []\<rparr>\<rparr>"

definition example_busy :: uart_sys where
  "example_busy = example_sys (Some \<lparr>fifo_head = (\<lambda>_. 0)(TX_CHANNEL := 0x100), fifo_tail = (\<lambda>_. 0)(TX_CHANNEL := 0x200),
     nb_open = 1, device_id = 0\<rparr>)"

definition example_conf :: pi_uart_conf where
  "example_conf = \<lparr>baudrate_bps = 115200, stop_bit_count = 0, parity_mode = 0, word_size = 3, enable_rx = 1, enable_tx = 1, uart_id = 0\<rparr>"

lemma example_busy_queues: "uart_queues 0 ((\<lambda>_. [])(TX_CHANNEL := [0x100, 0x200])) example_busy"
  by (simp add: uart_queues_def example_busy_def example_sys_def itf_at_def rd_def UDMA_NB_UART_def chan_queue_def links_def
      example_task_def last_task_def channel_number_def)

lemma example_event: "uart_event 0 TX_CHANNEL = 1"
  by (simp add: uart_event_def SOC_EVENT_UDMA_UART_TX_def UDMA_UART_ID_def)

lemma example_transfer:
  "started_of 0 example_busy @ map (transfer_of example_busy TX_CHANNEL) [0x200] = [(TX_CHANNEL, 0x1C000100, 4)]"
  "started_of 0 example_busy @ map (transfer_of example_busy TX_CHANNEL) [0x200] @ ys = (TX_CHANNEL, 0x1C000100, 4) # ys"
  by (simp_all add: transfer_of_def started_of_def example_busy_def example_sys_def example_task_def)

lemma example_one_piece: "\<forall>r\<in>{0x100, 0x200}. one_piece example_busy r"
  by (simp add: one_piece_def example_busy_def example_sys_def example_task_def UDMA_MAX_SIZE_def)

text \<open>C29: As long as a UART is open, whatever reads, writes, control commands, aborts, further opens and closes and
  interrupts came (\<open>uart_step\<close>: a task is handed over again only after its release, and an abort also cancels the
  interrupt of the transfer it clears), each channel has a well formed queue of tasks that are not released, and
  the micro-DMA has exactly one unfinished transfer on a channel with a queue and none on a channel without.\<close>

theorem uart_queues_invariant:
  assumes "uart_reachable d (s, taken, used)"
  shows "\<exists>Q. uart_queues d Q s \<and> (\<forall>p\<in>queued_tasks Q. done_of s p = Some False) \<and>
    (\<forall>c. transfers d c s = taken c + (if Q c = [] then 0 else 1))"
  using uart_reachable_inv[OF assms] by (auto simp: uart_inv_def)

text \<open>The first open and a write on it.\<close>

definition example_run :: "uart_sys option" where
  "example_run = do { (r, s) \<leftarrow> pi_uart_open 50000000 0x400 example_conf (example_sys None);
     s \<leftarrow> prepare_task (Blocking 7) 0x300 s; (r, s) \<leftarrow> uart_copy 0 0x1C000200 5 TX_CHANNEL 0x300 s; Some s }"

lemma example_run_reachable:
  assumes "example_run = Some s"
  shows "uart_reachable 0 (s, \<lambda>_. 0, {0x300})"
proof -
  obtain r s1 s2 r' where o: "pi_uart_open 50000000 0x400 example_conf (example_sys None) = Some (r, s1)"
    "prepare_task (Blocking 7) 0x300 s1 = Some s2" "uart_copy 0 0x1C000200 5 TX_CHANNEL 0x300 s2 = Some (r', s)"
    using assms by (auto simp: example_run_def bind_eq_Some_conv)
  have r: "r = Inr 0" using o(1)
    by (auto simp: pi_uart_open_def example_conf_def example_sys_def rd_def Let_def bind_eq_Some_conv)
  have tr: "(\<lambda>c. transfers 0 c (example_sys None)) = (\<lambda>_. 0)"
    by (simp add: transfers_def started_of_def example_sys_def fun_eq_iff)
  have "uart_reachable 0 (s1, \<lambda>_. 0, {})"
    using uart_reachable.opened[of "example_sys None" 0 50000000 1024 example_conf s1] o(1) r
    unfolding tr by (simp add: example_sys_def UDMA_NB_UART_def)
  moreover obtain t where "tasks s1 0x300 = Some t"
    using o(2) by (auto simp: prepare_task_def pi_task_block_def set_task_def task_at_def bind_eq_Some_conv split: if_splits)
  then have "uart_step 0 (s1, \<lambda>_. 0, {}) (s, \<lambda>_. 0, {0x300})"
    using uart_step.submit[OF _ _ _ o(2,3)] by simp
  ultimately show ?thesis by (rule uart_reachable.next_step)
qed

lemma example_run_value:
  "case example_run of None \<Rightarrow> False | Some s \<Rightarrow> transfers 0 TX_CHANNEL s = 1 \<and> tasks s 0x100 \<noteq> None"
  by code_simp

theorem uart_queues_invariant_witness:
  "\<exists>s Q. example_run = Some s \<and> uart_queues 0 Q s \<and> Q TX_CHANNEL \<noteq> []"
proof -
  obtain s where s: "example_run = Some s" "transfers 0 TX_CHANNEL s = 1"
    using example_run_value by (auto split: option.splits)
  from uart_queues_invariant[OF example_run_reachable[OF s(1)]] obtain Q where
    "uart_queues 0 Q s" "\<forall>c. transfers 0 c s = 0 + (if Q c = [] then 0 else 1)" by (elim exE conjE)
  moreover from this(2) s(2) have "Q TX_CHANNEL \<noteq> []" by (auto dest: spec[of _ TX_CHANNEL])
  ultimately show ?thesis using s(1) by blast
qed

text \<open>C30: In such a state neither the interrupt at the end of a transfer that is still in flight, nor a read or write
  with a task that is not in use, nor a control command or abort (a new setup with a baud rate other than 0)
  dereferences a null or dangling pointer.\<close>

theorem uart_no_fault:
  assumes "uart_reachable d (s, taken, used)"
  shows "(taken c < transfers d c s \<longrightarrow> uart_handler (uart_event d c) s \<noteq> None) \<and>
    (\<forall>cmd. (\<forall>conf. cmd = CONF_SETUP conf \<longrightarrow> baudrate_bps conf \<noteq> 0) \<longrightarrow> pi_uart_ioctl freq d cmd s \<noteq> None) \<and>
    (\<forall>p t k s1. tasks s p = Some t \<and> p \<noteq> 0 \<and> (p \<notin> used \<or> task_done t) \<and> prepare_task k p s = Some s1 \<longrightarrow>
      uart_copy d buf sz c p s1 \<noteq> None)"
proof (intro conjI allI impI)
  note inv = uart_reachable_inv[OF assms]
  show "uart_handler (uart_event d c) s \<noteq> None" if "taken c < transfers d c s"
    using transfer_end_inv[OF inv that] by auto
  show "pi_uart_ioctl freq d cmd s \<noteq> None" if "\<forall>conf. cmd = CONF_SETUP conf \<longrightarrow> baudrate_bps conf \<noteq> 0" for cmd
    using ioctl_safe inv that by (auto simp: uart_inv_def)
  fix p t k s1
  assume "tasks s p = Some t \<and> p \<noteq> 0 \<and> (p \<notin> used \<or> task_done t) \<and> prepare_task k p s = Some s1"
  then show "uart_copy d buf sz c p s1 \<noteq> None"
    using submit_inv[OF inv, of p t k s1 buf sz c] by auto
qed

theorem uart_no_fault_witness:
  "\<exists>s. example_run = Some s \<and> uart_handler (uart_event 0 TX_CHANNEL) s \<noteq> None"
proof -
  obtain s where s: "example_run = Some s" "transfers 0 TX_CHANNEL s = 1"
    using example_run_value by (auto split: option.splits)
  then show ?thesis using uart_no_fault[OF example_run_reachable[OF s(1)], of TX_CHANNEL 0 0 0] by auto
qed

text \<open>C31: When every task of a queue is of the kind a caller waits for and no transfer is longer than the micro-DMA can
  do at once (\<open>one_piece\<close>: at most \<open>UDMA_MAX_SIZE\<close> - 4 bytes; \<open>long_transfer_never_ends\<close> is what happens beyond),
  as many ends of transfers as there are tasks release all of them, after the transfers were started one by one in the
  order of the calls.\<close>

theorem uart_queue_drains:
  assumes "uart_queues d Q s" "\<forall>p\<in>set (Q c). one_piece s p"
  shows "\<exists>s'. uart_events (replicate (length (Q c)) (uart_event d c)) s = Some s' \<and> uart_queues d (Q(c := [])) s' \<and>
    started_of d s' = started_of d s @ map (transfer_of s c) (tl (Q c)) \<and> (\<forall>p\<in>set (Q c). done_of s' p = Some True)"
proof -
  have "Q c = Q c @ []" by simp
  from events_drain[OF assms(1) this assms(2)] obtain s' where
    s': "uart_events (replicate (length (Q c)) (uart_event d c)) s = Some s'" "uart_queues d (Q(c := [])) s'"
    "started_of d s' = started_of d s @ map (transfer_of s c) (tl (Q c))" "tasks s' = release_all (set (Q c)) s" by auto
  have "done_of s' p = Some True" if "p \<in> set (Q c)" for p
    using done_release[OF s'(4) that] assms(2) that by (auto simp: one_piece_def split: option.splits)
  then show ?thesis using s' by blast
qed

theorem uart_queue_drains_witness:
  "\<exists>s'. uart_events [1, 1] example_busy = Some s' \<and> started_of 0 s' = [(TX_CHANNEL, 0x1C000100, 4)]"
proof -
  let ?Q = "(\<lambda>_. [])(TX_CHANNEL := [0x100, 0x200])"
  from uart_queue_drains[OF example_busy_queues, of TX_CHANNEL] example_one_piece obtain s' where
    "uart_events [uart_event 0 TX_CHANNEL, uart_event 0 TX_CHANNEL] example_busy = Some s'"
    "started_of 0 s' = started_of 0 example_busy @ map (transfer_of example_busy TX_CHANNEL) [0x200]"
    by auto
  then show ?thesis unfolding example_event example_transfer by auto
qed

text \<open>C32: A blocking write of at most \<open>UDMA_MAX_SIZE\<close> - 4 bytes from a buffer in L2 memory, behind a queue of tasks
  that are waited for and no longer than that, returns 0 after the ends of the transfers queued before it and its own,
  and its transfer is the last one started.\<close>

theorem pi_uart_write_returns:
  assumes "uart_queues d Q s" "p \<noteq> 0" "p \<notin> queued_tasks Q" "tasks s p = Some t" "\<forall>r\<in>set (Q TX_CHANNEL). one_piece s r"
    and "buffer AND 0xFFF00000 = 0x1C000000" "sz \<le> UDMA_MAX_SIZE - 4"
  shows "\<exists>s'. pi_uart_write d buffer sz p sem (replicate (Suc (length (Q TX_CHANNEL))) (uart_event d TX_CHANNEL) @ es) s = Some (0, es, s') \<and>
    uart_queues d (Q(TX_CHANNEL := [])) s' \<and>
    started_of d s' = started_of d s @ map (transfer_of s TX_CHANNEL) (tl (Q TX_CHANNEL)) @ [(TX_CHANNEL, buffer, sz)]"
proof -
  have "pi_uart_write_async d buffer sz = uart_copy d buffer sz TX_CHANNEL"
    by (simp add: pi_uart_write_async_def fun_eq_iff)
  then show ?thesis using blocking_returns[OF assms, of sem es] unfolding pi_uart_write_def by auto
qed

theorem pi_uart_write_returns_witness:
  "\<exists>s'. pi_uart_write 0 0x1C000200 16 0x300 7 [1, 1, 1] example_busy = Some (0, [], s') \<and>
    started_of 0 s' = [(TX_CHANNEL, 0x1C000100, 4), (TX_CHANNEL, 0x1C000200, 16)]"
proof -
  let ?Q = "(\<lambda>_. [])(TX_CHANNEL := [0x100, 0x200])"
  have "(0x300 :: u32) \<notin> queued_tasks ?Q" by (simp add: queued_tasks_def)
  moreover have "tasks example_busy 0x300 = Some (example_task 0 0 0)" by (simp add: example_busy_def example_sys_def)
  ultimately obtain s' where
    "pi_uart_write 0 0x1C000200 16 0x300 7 [uart_event 0 TX_CHANNEL, uart_event 0 TX_CHANNEL, uart_event 0 TX_CHANNEL] example_busy = Some (0, [], s')"
    "started_of 0 s' = started_of 0 example_busy @ map (transfer_of example_busy TX_CHANNEL) [0x200] @ [(TX_CHANNEL, 0x1C000200, 16)]"
    using pi_uart_write_returns[OF example_busy_queues, of 768 "example_task 0 0 0" 469762560 16 7 "[]"] example_one_piece
    by (auto simp: UDMA_MAX_SIZE_def)
  then show ?thesis unfolding example_event example_transfer by auto
qed

section \<open>Departures\<close>

text \<open>The size left of a long transfer is never set back to 0, so the task goes on with every interrupt: it is never
  released, and the transfers run past its buffer.\<close>

lemma long_transfer_goes_on:
  assumes "uart_queues d Q s" "Q c = p # ps" "tasks s p = Some t" "task_data t 3 \<noteq> 0"
  shows "\<exists>s' t'. uart_handler (uart_event d c) s = Some s' \<and> uart_queues d Q s' \<and> tasks s' p = Some t' \<and> task_data t' 3 \<noteq> 0"
proof -
  have d: "d < UDMA_NB_UART" using assms(1) by (simp add: uart_queues_iff)
  obtain s' where s': "uart_handler (uart_event d c) s = Some s'" "uart_queues d Q s'" using handler_again[OF assms] by blast
  obtain x where x: "itf_at d s = Some x" using uart_itf[OF assms(1)] by blast
  have h: "fifo_head x c = p" using uart_head[OF assms(1) x] assms(2) by (simp add: first_task_def)
  have p: "task_at p s = Some t" "p \<noteq> 0" "task_data t 2 = channel_number c"
    using queued_task_at[OF assms(1), of p c] assms(2,3) by auto
  define m where "m = UDMA_MAX_SIZE - 4"
  have twice: "a = 2 * m \<Longrightarrow> \<not> m < a - m" for a :: u32 by simp
  have "\<exists>t'. tasks s' p = Some t' \<and> task_data t' 3 \<noteq> 0"
    using s'(1) unfolding uart_handler_def Let_def uart_event_decoded[OF d] uart_copy_exec_def m_def[symmetric]
    using x h p assms(3,4) twice by (auto simp: set_task_def task_at_def split: if_splits)
  then show ?thesis using s' by blast
qed

lemma long_transfer_never_ends:
  assumes "uart_queues d Q s" "Q c = p # ps" "\<exists>t. tasks s p = Some t \<and> task_data t 3 \<noteq> 0"
  shows "\<exists>s'. uart_events (replicate n (uart_event d c)) s = Some s' \<and> uart_queues d Q s'"
  using assms
proof (induction n arbitrary: s)
  case (Suc n)
  then obtain t where "tasks s p = Some t" "task_data t 3 \<noteq> 0" by blast
  from long_transfer_goes_on[OF Suc.prems(1,2) this] obtain s1 t1 where
    s1: "uart_handler (uart_event d c) s = Some s1" "uart_queues d Q s1" "tasks s1 p = Some t1" "task_data t1 3 \<noteq> 0" by blast
  then show ?case using Suc.IH[OF s1(2) Suc.prems(2)] by auto
qed auto

text \<open>A write of 131072 bytes: the third transfer starts behind the buffer.\<close>

lemma long_write_overruns:
  "(do { (r, s) \<leftarrow> uart_copy 0 0x1C000000 0x20000 TX_CHANNEL 0x300 (example_sys (Some \<lparr>fifo_head = \<lambda>_. 0, fifo_tail = \<lambda>_. 0, nb_open = 1, device_id = 0\<rparr>));
         s \<leftarrow> uart_events [1, 1] s; Some (started_of 0 s) }) =
   Some [(TX_CHANNEL, 0x1C000000, 0x1FFFC), (TX_CHANNEL, 0x1C01FFFC, 4), (TX_CHANNEL, 0x1C03FFF8, 0x1FFFC)]"
  by code_simp

text \<open>A blocking write whose buffer is not in L2 memory queues nothing and then waits for its task: it never
  returns, whatever interrupts come.\<close>

lemma no_event_when_idle:
  assumes "uart_queues d (\<lambda>_. []) s" "length (itfs s) = UDMA_NB_UART"
  shows "uart_handler e s = None"
proof -
  obtain x where x: "itf_at d s = Some x" using uart_itf[OF assms(1)] by blast
  have d: "d = 0" using assms(1) by (simp add: uart_queues_iff UDMA_NB_UART_def)
  have "fifo_head x c = 0" for c using uart_head[OF assms(1) x, of c] by (simp add: first_task_def)
  moreover have "itf_at d' s = (if d' = 0 then Some x else None)" for d'
    using x d assms(2) by (auto simp: itf_at_def UDMA_NB_UART_def)
  ultimately show ?thesis
    by (cases "channel_of (e AND 1)") (auto simp: uart_handler_def Let_def task_at_def)
qed

lemma refused_write_hangs:
  assumes "uart_queues d (\<lambda>_. []) s" "length (itfs s) = UDMA_NB_UART" "buffer AND 0xFFF00000 \<noteq> 0x1C000000"
    "tasks s p = Some t" "p \<noteq> 0"
  shows "pi_uart_write d buffer sz p sem es s = None"
proof -
  obtain s1 where s1: "pi_task_block sem p s = Some s1" using assms(4,5) by (simp add: pi_task_block_def set_task_def task_at_def)
  then obtain t1 where t1: "s1 = s\<lparr>tasks := (tasks s)(p := Some t1)\<rparr>" "\<not> task_done t1"
    using prepare_task_effect[of "Blocking sem" p s s1 t] assms(4,5) by (auto simp: prepare_task_def)
  then have "uart_queues d (\<lambda>_. []) s1" using uart_queues_cong[of "\<lambda>_. []" s1 s d] assms(1) by (simp add: queued_tasks_def)
  then have h: "uart_handler e s1 = None" for e using no_event_when_idle[of d s1 e] t1(1) assms(2) by simp
  have "task_at p s1 = Some t1" using t1(1) assms(5) by (simp add: task_at_def)
  then have "pi_task_wait_on uart_handler es p s1 = None" using t1(2) h by (cases es) simp_all
  moreover have "pi_uart_write_async d buffer sz p s1 = Some (- 11, s1)"
    by (simp add: pi_uart_write_async_def uart_copy_refused[OF assms(3)])
  ultimately show ?thesis using s1 by (simp add: pi_uart_write_def uart_blocking_def)
qed

text \<open>Aborting forgets the queued tasks without releasing them, so who waits for one of them waits forever; and the
  interrupt of a transfer that ended meanwhile dereferences a null pointer.\<close>

lemma abort_releases_nothing:
  assumes "uart_queues d Q s" "uart_abort d c s = Some s'"
  shows "tasks s' = tasks s" "uart_handler (uart_event d c) s' = None"
proof -
  note q = abort_queues[OF assms]
  show "tasks s' = tasks s" by (rule q(2))
  obtain x where x: "itf_at d s' = Some x" using uart_itf[OF q(1)] by blast
  have d: "d < UDMA_NB_UART" using assms(1) by (simp add: uart_queues_iff)
  have "fifo_head x c = 0" using uart_head[OF q(1) x, of c] by (simp add: first_task_def)
  then show "uart_handler (uart_event d c) s' = None"
    using x unfolding uart_handler_def Let_def uart_event_decoded[OF d] by (simp add: task_at_def)
qed

end
