(* ===== verification/OpenAsipSha.thy ===== *)
theory OpenAsipSha
  imports Harness
begin

text \<open>
  The SHA-256 benchmark, \<open>src/lib/openasip/sha256/nettle-sha256.c\<close>: the compression function with
  its unrolled rounds, the incremental hash (initialise, update, digest) and the benchmark around it.
  A buffer argument with its length is a list of that many bytes. \<open>None\<close> is an access outside a
  buffer; \<open>assert_beebs\<close> ends the program with status 1, which is \<open>Inl 1\<close>.
\<close>

section \<open>Bytes and words\<close>

text \<open>\<open>memcpy\<close> of \<open>n\<close> bytes to offset \<open>off\<close>.\<close>

definition copy_at :: "u8 list \<Rightarrow> nat \<Rightarrow> u8 list \<Rightarrow> nat \<Rightarrow> u8 list option" where
  "copy_at dst off src n =
     (if n \<le> length src \<and> off + n \<le> length dst
      then Some (take off dst @ take n src @ drop (off + n) dst) else None)"

definition WRITE_UINT64 :: "u64 \<Rightarrow> u8 list" where
  "WRITE_UINT64 i =
     [ucast (drop_bit 56 i AND 0xff), ucast (drop_bit 48 i AND 0xff), ucast (drop_bit 40 i AND 0xff),
      ucast (drop_bit 32 i AND 0xff), ucast (drop_bit 24 i AND 0xff), ucast (drop_bit 16 i AND 0xff),
      ucast (drop_bit 8 i AND 0xff), ucast (i AND 0xff)]"

definition WRITE_UINT32 :: "u32 \<Rightarrow> u8 list" where
  "WRITE_UINT32 i =
     [ucast (drop_bit 24 i AND 0xff), ucast (drop_bit 16 i AND 0xff), ucast (drop_bit 8 i AND 0xff),
      ucast (i AND 0xff)]"

definition READ_UINT32 :: "u8 list \<Rightarrow> nat \<Rightarrow> u32" where
  "READ_UINT32 p i =
     push_bit 24 (ucast (p ! i)) OR push_bit 16 (ucast (p ! (i + 1))) OR push_bit 8 (ucast (p ! (i + 2))) OR
     ucast (p ! (i + 3))"

definition ROTL32 :: "nat \<Rightarrow> u32 \<Rightarrow> u32" where
  "ROTL32 n x = push_bit n x OR drop_bit ((32 - n) mod 32) x"

text \<open>The bytes of the first \<open>n\<close> bytes of the words \<open>src\<close>, most significant first.\<close>

definition nettle_write_be32 :: "nat \<Rightarrow> u8 list \<Rightarrow> u32 list \<Rightarrow> u8 list option" where
  "nettle_write_be32 n dst src =
     (let words = n div 4; leftover = n mod 4 in
      if words \<le> length src \<and> n \<le> length dst then do {
        let out = concat (map WRITE_UINT32 (take words src));
        (if leftover \<noteq> 0 then do {
           word \<leftarrow> rd src words;
           Some (out @ take leftover
                   [ucast (drop_bit 24 word AND 0xff), ucast (drop_bit 16 word AND 0xff), ucast (drop_bit 8 word AND 0xff)]
                 @ drop n dst) }
         else Some (out @ drop n dst)) }
      else None)"

section \<open>Compression\<close>

definition Choice :: "u32 \<Rightarrow> u32 \<Rightarrow> u32 \<Rightarrow> u32" where
  "Choice x y z = z XOR (x AND (y XOR z))"

definition Majority :: "u32 \<Rightarrow> u32 \<Rightarrow> u32 \<Rightarrow> u32" where
  "Majority x y z = (x AND y) XOR (z AND (x XOR y))"

definition S0 :: "u32 \<Rightarrow> u32" where "S0 x = ROTL32 30 x XOR ROTL32 19 x XOR ROTL32 10 x"
definition S1 :: "u32 \<Rightarrow> u32" where "S1 x = ROTL32 26 x XOR ROTL32 21 x XOR ROTL32 7 x"
definition s0 :: "u32 \<Rightarrow> u32" where "s0 x = ROTL32 25 x XOR ROTL32 14 x XOR drop_bit 3 x"
definition s1 :: "u32 \<Rightarrow> u32" where "s1 x = ROTL32 15 x XOR ROTL32 13 x XOR drop_bit 10 x"

text \<open>\<open>EXPAND\<close> for \<open>i < 16\<close>; the indices are taken modulo 16.\<close>

definition EXPAND :: "u32 list \<Rightarrow> nat \<Rightarrow> u32 list" where
  "EXPAND W i =
     W[i := W ! i + (s1 (W ! ((i + 14) mod 16)) + W ! ((i + 9) mod 16) + s0 (W ! ((i + 1) mod 16)))]"

text \<open>\<open>ROUND\<close> on the list of the variables \<open>A\<close> to \<open>H\<close>; \<open>ix\<close> lists the positions of its eight arguments.\<close>

definition ROUND :: "nat list \<Rightarrow> u32 \<Rightarrow> u32 \<Rightarrow> u32 list \<Rightarrow> u32 list" where
  "ROUND ix k data r =
     (case ix of
        [a, b, c, d, e, f, g, h] \<Rightarrow>
          (let r = r[h := r ! h + (S1 (r ! e) + Choice (r ! e) (r ! f) (r ! g) + k + data)];
               r = r[d := r ! d + r ! h]
           in r[h := r ! h + (S0 (r ! a) + Majority (r ! a) (r ! b) (r ! c))])
      | _ \<Rightarrow> r)"

text \<open>The arguments of eight successive rounds.\<close>

definition round_args :: "nat list list" where
  "round_args =
     [[0, 1, 2, 3, 4, 5, 6, 7],
      [7, 0, 1, 2, 3, 4, 5, 6],
      [6, 7, 0, 1, 2, 3, 4, 5],
      [5, 6, 7, 0, 1, 2, 3, 4],
      [4, 5, 6, 7, 0, 1, 2, 3],
      [3, 4, 5, 6, 7, 0, 1, 2],
      [2, 3, 4, 5, 6, 7, 0, 1],
      [1, 2, 3, 4, 5, 6, 7, 0]]"

definition data_rounds :: "u32 list \<Rightarrow> u32 list \<Rightarrow> u32 list \<Rightarrow> u32 list" where
  "data_rounds k data r = fold (\<lambda>i. ROUND (round_args ! (i mod 8)) (k ! i) (data ! i)) [0..<16] r"

definition expand_rounds :: "u32 list \<Rightarrow> u32 list \<times> u32 list \<Rightarrow> u32 list \<times> u32 list" where
  "expand_rounds k =
     fold (\<lambda>i (data, r). let data = EXPAND data (i mod 16)
                          in (data, ROUND (round_args ! (i mod 8)) (k ! i) (data ! (i mod 16)) r)) [16..<64]"

definition nettle_sha256_compress :: "u32 list \<Rightarrow> u8 list \<Rightarrow> u32 list \<Rightarrow> u32 list option" where
  "nettle_sha256_compress st input k =
     (if 64 \<le> length input \<and> 8 \<le> length st \<and> 64 \<le> length k then
        (let data = map (\<lambda>i. READ_UINT32 input (4 * i)) [0..<16];
             r = snd (expand_rounds k (data, data_rounds k data (take 8 st)))
         in Some (map (\<lambda>i. if i < 8 then st ! i + r ! i else st ! i) [0..<length st]))
      else None)"

section \<open>The hash\<close>

definition K :: "u32 list" where
  "K =
     concat [
       [0x428a2f98, 0x71374491, 0xb5c0fbcf, 0xe9b5dba5],
       [0x3956c25b, 0x59f111f1, 0x923f82a4, 0xab1c5ed5],
       [0xd807aa98, 0x12835b01, 0x243185be, 0x550c7dc3],
       [0x72be5d74, 0x80deb1fe, 0x9bdc06a7, 0xc19bf174],
       [0xe49b69c1, 0xefbe4786, 0x0fc19dc6, 0x240ca1cc],
       [0x2de92c6f, 0x4a7484aa, 0x5cb0a9dc, 0x76f988da],
       [0x983e5152, 0xa831c66d, 0xb00327c8, 0xbf597fc7],
       [0xc6e00bf3, 0xd5a79147, 0x06ca6351, 0x14292967],
       [0x27b70a85, 0x2e1b2138, 0x4d2c6dfc, 0x53380d13],
       [0x650a7354, 0x766a0abb, 0x81c2c92e, 0x92722c85],
       [0xa2bfe8a1, 0xa81a664b, 0xc24b8b70, 0xc76c51a3],
       [0xd192e819, 0xd6990624, 0xf40e3585, 0x106aa070],
       [0x19a4c116, 0x1e376c08, 0x2748774c, 0x34b0bcb5],
       [0x391c0cb3, 0x4ed8aa4a, 0x5b9cca4f, 0x682e6ff3],
       [0x748f82ee, 0x78a5636f, 0x84c87814, 0x8cc70208],
       [0x90befffa, 0xa4506ceb, 0xbef9a3f7, 0xc67178f2]]"

definition H0 :: "u32 list" where
  "H0 = [0x6a09e667, 0xbb67ae85, 0x3c6ef372, 0xa54ff53a, 0x510e527f, 0x9b05688c, 0x1f83d9ab, 0x5be0cd19]"

record sha256_ctx =
  hash_state :: "u32 list"
  block_count :: u64
  hash_block :: "u8 list"
  block_index :: nat

definition COMPRESS :: "sha256_ctx \<Rightarrow> u8 list \<Rightarrow> sha256_ctx option" where
  "COMPRESS ctx data = map_option (\<lambda>st. ctx\<lparr>hash_state := st\<rparr>) (nettle_sha256_compress (hash_state ctx) data K)"

definition sha256_init :: "sha256_ctx \<Rightarrow> sha256_ctx" where
  "sha256_init ctx = ctx\<lparr>hash_state := H0, block_count := 0, block_index := 0\<rparr>"

text \<open>\<open>MD_UPDATE\<close>: the loop over the full blocks of the data, what follows it, and the whole.\<close>

function full_blocks :: "sha256_ctx \<Rightarrow> u8 list \<Rightarrow> (sha256_ctx \<times> u8 list) option" where
  "full_blocks ctx data =
     (if 64 \<le> length data then do {
        ctx \<leftarrow> COMPRESS ctx data;
        full_blocks (ctx\<lparr>block_count := block_count ctx + 1\<rparr>) (drop 64 data) }
      else Some (ctx, data))"
  by pat_completeness auto
termination by (relation "measure (\<lambda>(ctx, data). length data)") auto

declare full_blocks.simps [simp del]

definition update_rest :: "sha256_ctx \<Rightarrow> u8 list \<Rightarrow> sha256_ctx option" where
  "update_rest ctx data =
     do { (ctx, data) \<leftarrow> full_blocks ctx data;
          b \<leftarrow> copy_at (hash_block ctx) 0 data (length data);
          Some (ctx\<lparr>hash_block := b, block_index := length data\<rparr>) }"

definition sha256_update :: "sha256_ctx \<Rightarrow> u8 list \<Rightarrow> sha256_ctx option" where
  "sha256_update ctx data =
     (if block_index ctx \<noteq> 0 then
        (let left = 64 - block_index ctx in
         if length data < left then do {
           b \<leftarrow> copy_at (hash_block ctx) (block_index ctx) data (length data);
           Some (ctx\<lparr>hash_block := b, block_index := block_index ctx + length data\<rparr>) }
         else do {
           b \<leftarrow> copy_at (hash_block ctx) (block_index ctx) data left;
           ctx \<leftarrow> COMPRESS (ctx\<lparr>hash_block := b\<rparr>) b;
           update_rest (ctx\<lparr>block_count := block_count ctx + 1\<rparr>) (drop left data) })
      else update_rest ctx data)"

text \<open>\<open>MD_PAD\<close> with 8 bytes for the length.\<close>

definition MD_PAD :: "sha256_ctx \<Rightarrow> (s32 + sha256_ctx) option" where
  "MD_PAD ctx =
     (let i = block_index ctx in
      if \<not> i < 64 then Some (Inl 1)
      else do {
        b \<leftarrow> wr (hash_block ctx) i 0x80;
        let i = i + 1;
        (ctx, i) \<leftarrow> (if 64 - 8 < i then do {
                     let b = take i b @ replicate (64 - i) 0;
                     ctx \<leftarrow> COMPRESS (ctx\<lparr>hash_block := b\<rparr>) b;
                     Some (ctx, 0) }
                   else Some (ctx\<lparr>hash_block := b\<rparr>, i));
        Some (Inr (ctx\<lparr>hash_block := take i (hash_block ctx) @ replicate (64 - 8 - i) 0 @ drop (64 - 8) (hash_block ctx)\<rparr>)) })"

definition sha256_write_digest :: "sha256_ctx \<Rightarrow> nat \<Rightarrow> u8 list \<Rightarrow> (s32 + sha256_ctx \<times> u8 list) option" where
  "sha256_write_digest ctx n digest =
     (if \<not> n \<le> 32 then Some (Inl 1)
      else do {
        padded \<leftarrow> MD_PAD ctx;
        (case padded of
           Inl e \<Rightarrow> Some (Inl e)
         | Inr ctx \<Rightarrow> do {
             let bit_count = push_bit 9 (block_count ctx) OR word_of_nat (8 * block_index ctx);
             b \<leftarrow> copy_at (hash_block ctx) (64 - 8) (WRITE_UINT64 bit_count) 8;
             ctx \<leftarrow> COMPRESS (ctx\<lparr>hash_block := b\<rparr>) b;
             digest \<leftarrow> nettle_write_be32 n digest (hash_state ctx);
             Some (Inr (ctx, digest)) }) })"

definition sha256_digest :: "sha256_ctx \<Rightarrow> nat \<Rightarrow> u8 list \<Rightarrow> (s32 + sha256_ctx \<times> u8 list) option" where
  "sha256_digest ctx n digest =
     map_option (\<lambda>res. case res of Inl e \<Rightarrow> Inl e | Inr (ctx, digest) \<Rightarrow> Inr (sha256_init ctx, digest))
       (sha256_write_digest ctx n digest)"

section \<open>The benchmark\<close>

definition msg :: "u8 list" where
  "msg = map of_char ''abcdbcdecdefdefgefghfghighijhijkijkljklmklmnlmnomnopnopq''"

definition hash :: "u8 list" where
  "hash =
     [0x24, 0x8d, 0x6a, 0x61, 0xd2, 0x06, 0x38, 0xb8, 0xe5, 0xc0, 0x26, 0x93,
      0x0c, 0x3e, 0x60, 0x39, 0xa3, 0x3c, 0xe4, 0x59, 0x64, 0xff, 0x21, 0x67,
      0xf6, 0xec, 0xed, 0xd4, 0x19, 0xdb, 0x06, 0xc1]"

text \<open>The loop compares as many bytes as the state has words.\<close>

definition verify_benchmark :: "u8 list \<Rightarrow> bool option" where
  "verify_benchmark buffer =
     for_range 0 8 (\<lambda>i correct. do { h \<leftarrow> rd hash i; b \<leftarrow> rd buffer i; Some (if h \<noteq> b then False else correct) }) True"

text \<open>\<open>ctx0\<close> is what the stack holds where \<open>ctx\<close> is declared.\<close>

primrec benchmark_body :: "nat \<Rightarrow> sha256_ctx \<Rightarrow> u8 list \<Rightarrow> (s32 + u8 list) option" where
  "benchmark_body 0 ctx0 buffer = Some (Inr buffer)"
| "benchmark_body (Suc rpt) ctx0 buffer =
     do { let buffer = replicate (length buffer) 0;
          ctx \<leftarrow> sha256_update (sha256_init ctx0) msg;
          res \<leftarrow> sha256_digest ctx 32 buffer;
          (case res of Inl e \<Rightarrow> Some (Inl e) | Inr (ctx, buffer) \<Rightarrow> benchmark_body rpt ctx0 buffer) }"

text \<open>The program in \<open>main.c\<close>; \<open>sha_run\<close> is a call of \<open>warm_caches\<close> or \<open>benchmark\<close>. The board functions do nothing, \<open>WARMUP_HEAT\<close> is 0 and \<open>CPU_MHZ\<close> is 1.\<close>

definition LOCAL_SCALE_FACTOR :: nat where "LOCAL_SCALE_FACTOR = 475"

definition benchmark :: "sha256_ctx \<Rightarrow> u8 list \<Rightarrow> (s32 + u8 list) option" where
  "benchmark ctx0 buffer = benchmark_body (LOCAL_SCALE_FACTOR * 1) ctx0 buffer"

definition sha_run :: "(u8 list \<Rightarrow> (s32 + u8 list) option) \<Rightarrow> u8 list \<Rightarrow> (outcome \<times> u8 list) option" where
  "sha_run body buffer =
     map_option (\<lambda>res. case res of Inl e \<Rightarrow> (Exited e, buffer) | Inr buffer \<Rightarrow> (Returned 0, buffer)) (body buffer)"

definition sha_check :: "u8 list \<Rightarrow> (outcome \<times> u8 list) option" where
  "sha_check buffer =
     do { correct \<leftarrow> verify_benchmark buffer; Some (if \<not> correct then Returned 0x12 else Returned 0, buffer) }"

definition sha_program :: "sha256_ctx \<Rightarrow> u8 list benchmark" where
  "sha_program ctx0 =
     \<lparr>mlonmcu_init = sha_run (benchmark_body 0 ctx0), mlonmcu_run = sha_run (benchmark ctx0),
      mlonmcu_check = sha_check, mlonmcu_deinit = (\<lambda>buffer. Some (Returned 0, buffer))\<rparr>"

end
