(* ===== verification/Sha256.thy ===== *)
theory Sha256
  imports OpenAsipSha
begin

text \<open>
  The SHA-256 code computes the function of the standard FIPS 180-4: the compression with its rotating
  variables and its window of 16 words is the one with the eight assignments of a round and the full
  message schedule, and updates followed by a digest give the hash of everything that was fed in.
\<close>

section \<open>The standard\<close>

definition fips_Ch :: "u32 \<Rightarrow> u32 \<Rightarrow> u32 \<Rightarrow> u32" where "fips_Ch x y z = (x AND y) XOR (NOT x AND z)"
definition fips_Maj :: "u32 \<Rightarrow> u32 \<Rightarrow> u32 \<Rightarrow> u32" where "fips_Maj x y z = (x AND y) XOR (x AND z) XOR (y AND z)"
definition fips_Sigma0 :: "u32 \<Rightarrow> u32" where "fips_Sigma0 x = word_rotr 2 x XOR word_rotr 13 x XOR word_rotr 22 x"
definition fips_Sigma1 :: "u32 \<Rightarrow> u32" where "fips_Sigma1 x = word_rotr 6 x XOR word_rotr 11 x XOR word_rotr 25 x"
definition fips_sigma0 :: "u32 \<Rightarrow> u32" where "fips_sigma0 x = word_rotr 7 x XOR word_rotr 18 x XOR drop_bit 3 x"
definition fips_sigma1 :: "u32 \<Rightarrow> u32" where "fips_sigma1 x = word_rotr 17 x XOR word_rotr 19 x XOR drop_bit 10 x"

text \<open>The message schedule of a block of 16 words.\<close>

fun fips_W :: "u32 list \<Rightarrow> nat \<Rightarrow> u32" where
  "fips_W M t =
     (if t < 16 then M ! t
      else fips_sigma1 (fips_W M (t - 2)) + fips_W M (t - 7) + fips_sigma0 (fips_W M (t - 15)) + fips_W M (t - 16))"

declare fips_W.simps [simp del]

text \<open>One round on the working variables \<open>a\<close> to \<open>h\<close>.\<close>

definition fips_round :: "u32 \<Rightarrow> u32 \<Rightarrow> u32 list \<Rightarrow> u32 list" where
  "fips_round k w v =
     (let T1 = v ! 7 + fips_Sigma1 (v ! 4) + fips_Ch (v ! 4) (v ! 5) (v ! 6) + k + w;
          T2 = fips_Sigma0 (v ! 0) + fips_Maj (v ! 0) (v ! 1) (v ! 2)
      in [T1 + T2, v ! 0, v ! 1, v ! 2, v ! 3 + T1, v ! 4, v ! 5, v ! 6])"

primrec fips_rounds :: "u32 list \<Rightarrow> nat \<Rightarrow> u32 list \<Rightarrow> u32 list" where
  "fips_rounds M 0 v = v"
| "fips_rounds M (Suc t) v = fips_round (K ! t) (fips_W M t) (fips_rounds M t v)"

definition block_words :: "u8 list \<Rightarrow> u32 list" where
  "block_words b = map (\<lambda>i. READ_UINT32 b (4 * i)) [0..<16]"

definition fips_compress :: "u32 list \<Rightarrow> u8 list \<Rightarrow> u32 list" where
  "fips_compress H b = map2 (+) H (fips_rounds (block_words b) 64 H)"

section \<open>The functions\<close>

lemma ROTL32_rotr: "0 < n \<Longrightarrow> n < 32 \<Longrightarrow> ROTL32 n x = word_rotr (32 - n) x"
proof (rule bit_word_eqI)
  fix j assume n: "0 < n" "n < 32" and "j < LENGTH(32)"
  then have "(j + (32 - n)) mod 32 = (if n \<le> j then j - n else 32 - n + j)" by (auto simp: mod_if)
  moreover have "\<not> bit x (32 - n + j)" if "n \<le> j" using that n by (intro impossible_bit) simp
  ultimately show "bit (ROTL32 n x) j = bit (word_rotr (32 - n) x) j"
    using n \<open>j < LENGTH(32)\<close> by (simp add: ROTL32_def bit_simps bit_word_rotr_iff)
qed

lemma sha_functions:
  "Choice x y z = fips_Ch x y z" "Majority x y z = fips_Maj x y z"
  "S0 x = fips_Sigma0 x" "S1 x = fips_Sigma1 x" "s0 x = fips_sigma0 x" "s1 x = fips_sigma1 x"
proof -
  show "Choice x y z = fips_Ch x y z" "Majority x y z = fips_Maj x y z"
    by (rule bit_word_eqI, auto simp: Choice_def fips_Ch_def Majority_def fips_Maj_def bit_simps)+
  show "S0 x = fips_Sigma0 x" "S1 x = fips_Sigma1 x" "s0 x = fips_sigma0 x" "s1 x = fips_sigma1 x"
    by (simp_all add: S0_def S1_def s0_def s1_def fips_Sigma0_def fips_Sigma1_def fips_sigma0_def fips_sigma1_def ROTL32_rotr)
qed

section \<open>The rounds\<close>

text \<open>The working variables before round \<open>t\<close>, read off the rotating variables.\<close>

definition working :: "nat \<Rightarrow> u32 list \<Rightarrow> u32 list" where
  "working t r = map (\<lambda>i. r ! i) (round_args ! (t mod 8))"

lemma round_args_ok:
  obtains a b c d e f g h where "round_args ! (t mod 8) = [a, b, c, d, e, f, g, h]"
    "round_args ! (Suc t mod 8) = [h, a, b, c, d, e, f, g]"
    "distinct [a, b, c, d, e, f, g, h]" "\<forall>i\<in>{a, b, c, d, e, f, g, h}. i < 8"
proof -
  have "t mod 8 < 8" by simp
  then consider "t mod 8 = 0" | "t mod 8 = 1" | "t mod 8 = 2" | "t mod 8 = 3" | "t mod 8 = 4" | "t mod 8 = 5"
    | "t mod 8 = 6" | "t mod 8 = 7" by linarith
  then show ?thesis by cases (rule that, simp add: round_args_def, simp add: round_args_def mod_Suc, simp, simp)+
qed

lemma ROUND_working:
  assumes "length r = 8"
  shows "working (Suc t) (ROUND (round_args ! (t mod 8)) k w r) = fips_round k w (working t r)"
proof -
  obtain a b c d e f g h where ix: "round_args ! (t mod 8) = [a, b, c, d, e, f, g, h]"
    "round_args ! (Suc t mod 8) = [h, a, b, c, d, e, f, g]"
    "distinct [a, b, c, d, e, f, g, h]" "\<forall>i\<in>{a, b, c, d, e, f, g, h}. i < 8"
    by (rule round_args_ok)
  have "distinct [h, g, f, e, d, c, b, a]" using ix(3) by auto
  note ne = ix(3) [simplified] this [simplified] ix(4) [simplified] assms
  define T1 where "T1 = r ! h + fips_Sigma1 (r ! e) + fips_Ch (r ! e) (r ! f) (r ! g) + k + w"
  have "ROUND [a, b, c, d, e, f, g, h] k w r =
      r[h := T1, d := r ! d + T1, h := T1 + (fips_Sigma0 (r ! a) + fips_Maj (r ! a) (r ! b) (r ! c))]"
    by (simp add: ne ROUND_def Let_def sha_functions T1_def add.assoc)
  then show ?thesis
    by (simp add: ne working_def ix(1,2) fips_round_def Let_def T1_def [symmetric])
qed

lemma length_ROUND [simp]: "length (ROUND ix k w r) = length r"
  by (simp add: ROUND_def Let_def split: list.split)

lemma working_0:
  assumes "length r = 8"
  shows "working 0 r = r" "working 64 r = r"
proof -
  have "[0..<8] = [0, 1, 2, 3, 4, 5, 6, 7]" by code_simp
  then have "map (\<lambda>i. r ! i) [0, 1, 2, 3, 4, 5, 6, 7] = r" using map_nth [of r] assms by simp
  then show "working 0 r = r" "working 64 r = r" by (simp_all add: working_def round_args_def)
qed

lemma data_rounds_prefix:
  assumes "length r = 8" "n \<le> 16"
  shows "length (fold (\<lambda>i. ROUND (round_args ! (i mod 8)) (K ! i) (M ! i)) [0..<n] r) = 8 \<and>
    working n (fold (\<lambda>i. ROUND (round_args ! (i mod 8)) (K ! i) (M ! i)) [0..<n] r) = fips_rounds M n r"
  using assms(2)
proof (induction n)
  case 0
  then show ?case using assms(1) by (simp add: working_0)
next
  case (Suc n)
  then show ?case by (simp add: ROUND_working fips_W.simps)
qed

text \<open>The window holds the last 16 words of the schedule.\<close>

definition window :: "u32 list \<Rightarrow> nat \<Rightarrow> u32 list \<Rightarrow> bool" where
  "window M t W \<longleftrightarrow> length W = 16 \<and> (\<forall>s<t. t \<le> s + 16 \<longrightarrow> W ! (s mod 16) = fips_W M s)"

lemma window_start: "length M = 16 \<Longrightarrow> window M 16 M"
  by (simp add: window_def fips_W.simps)

lemma window_EXPAND:
  assumes "window M t W" "16 \<le> t"
  shows "window M (Suc t) (EXPAND W (t mod 16))" and "EXPAND W (t mod 16) ! (t mod 16) = fips_W M t"
proof -
  note w = assms(1) [unfolded window_def]
  obtain u where u: "t = u + 16" using assms(2) by (metis add.commute le_iff_add)
  have ix: "(t mod 16 + 14) mod 16 = (t - 2) mod 16" "(t mod 16 + 9) mod 16 = (t - 7) mod 16"
    "(t mod 16 + 1) mod 16 = (t - 15) mod 16" "t mod 16 = (t - 16) mod 16"
    unfolding u by (simp_all add: mod_add_left_eq mod_Suc_eq) (simp_all add: add.commute)
  have "W ! (t mod 16) = fips_W M (t - 16)" using w assms(2) unfolding ix(4) by auto
  moreover have "W ! ((t mod 16 + 14) mod 16) = fips_W M (t - 2)"
    "W ! ((t mod 16 + 9) mod 16) = fips_W M (t - 7)" "W ! ((t mod 16 + 1) mod 16) = fips_W M (t - 15)"
    using w assms(2) unfolding ix(1-3) by auto
  moreover have "fips_W M t = fips_sigma1 (fips_W M (t - 2)) + fips_W M (t - 7) + fips_sigma0 (fips_W M (t - 15)) + fips_W M (t - 16)"
    using assms(2) by (subst fips_W.simps) simp
  ultimately show e: "EXPAND W (t mod 16) ! (t mod 16) = fips_W M t"
    using w by (simp add: EXPAND_def sha_functions add_ac)
  have "EXPAND W (t mod 16) ! (s mod 16) = fips_W M s" if s: "s < Suc t" "Suc t \<le> s + 16" for s
  proof (cases "s = t")
    case False
    then have "\<not> 16 dvd t - s" using s by (intro nat_dvd_not_less) simp_all
    then have "s mod 16 \<noteq> t mod 16" using mod_eq_dvd_iff_nat [of s t 16] s by (auto simp del: even_Suc)
    then show ?thesis using w s False by (simp add: EXPAND_def)
  qed (simp add: e)
  then show "window M (Suc t) (EXPAND W (t mod 16))" using w by (simp add: window_def EXPAND_def)
qed

lemma expand_rounds_prefix:
  assumes "length M = 16" "length r = 8" "working 16 r = fips_rounds M 16 v" "16 \<le> n" "n \<le> 64"
  shows "case fold (\<lambda>i (data, r). let data = EXPAND data (i mod 16)
                          in (data, ROUND (round_args ! (i mod 8)) (K ! i) (data ! (i mod 16)) r)) [16..<n] (M, r) of
    (W, r') \<Rightarrow> window M n W \<and> length r' = 8 \<and> working n r' = fips_rounds M n v"
  using assms(4,5)
proof (induction n rule: dec_induct)
  case base
  then show ?case using assms(1-3) by (simp add: window_start)
next
  case (step n)
  then show ?case using window_EXPAND [of M n] by (auto simp: ROUND_working Let_def split: prod.splits)
qed

lemma length_fips_rounds [simp]: "length v = 8 \<Longrightarrow> length (fips_rounds M n v) = 8"
  by (cases n) (simp_all add: fips_round_def Let_def)

lemma compress_fips:
  assumes "length st = 8" "64 \<le> length input"
  shows "nettle_sha256_compress st input K = Some (fips_compress st input)"
proof -
  let ?M = "block_words input"
  have M: "length ?M = 16" by (simp add: block_words_def)
  have r: "length (data_rounds K ?M st) = 8" "working 16 (data_rounds K ?M st) = fips_rounds ?M 16 st"
    using data_rounds_prefix [OF assms(1), of 16 ?M] by (simp_all add: data_rounds_def)
  have "snd (expand_rounds K (?M, data_rounds K ?M st)) = fips_rounds ?M 64 st"
    using expand_rounds_prefix [OF M r, of 64] by (auto simp: expand_rounds_def working_0 split: prod.splits)
  then show ?thesis using assms
    by (simp add: nettle_sha256_compress_def fips_compress_def block_words_def [symmetric] K_def Let_def)
      (auto intro!: nth_equalityI)
qed

section \<open>Messages\<close>

text \<open>The state after the full blocks of a message.\<close>

function hash_blocks :: "u32 list \<Rightarrow> u8 list \<Rightarrow> u32 list" where
  "hash_blocks H m = (if 64 \<le> length m then hash_blocks (fips_compress H m) (drop 64 m) else H)"
  by pat_completeness auto
termination by (relation "measure (\<lambda>(H, m). length m)") auto

declare hash_blocks.simps [simp del]

lemma block_words_append: "64 \<le> length a \<Longrightarrow> block_words (a @ b) = block_words a"
  by (simp add: block_words_def READ_UINT32_def nth_append)

lemma fips_compress_append: "64 \<le> length a \<Longrightarrow> fips_compress H (a @ b) = fips_compress H a"
  by (simp add: fips_compress_def block_words_append)

lemma hash_blocks_short [simp]: "length m < 64 \<Longrightarrow> hash_blocks H m = H"
  by (simp add: hash_blocks.simps)

lemma hash_blocks_append:
  "64 dvd length a \<Longrightarrow> hash_blocks H (a @ b) = hash_blocks (hash_blocks H a) b"
proof (induction H a rule: hash_blocks.induct)
  case (1 H a)
  show ?case
  proof (cases "64 \<le> length a")
    case True
    then have "64 dvd length (drop 64 a)" using 1(2) by (simp add: dvd_diff_nat)
    then have "hash_blocks (fips_compress H a) (drop 64 a @ b) = hash_blocks (hash_blocks (fips_compress H a) (drop 64 a)) b"
      using 1(1) [OF True] by simp
    moreover have "hash_blocks H (a @ b) = hash_blocks (fips_compress H a) (drop 64 a @ b)"
      using True by (subst hash_blocks.simps) (simp add: fips_compress_append)
    moreover have "hash_blocks H a = hash_blocks (fips_compress H a) (drop 64 a)"
      using True by (subst hash_blocks.simps) simp
    ultimately show ?thesis by simp
  next
    case False
    then have "a = []" using 1(2) by (auto dest: dvd_imp_le)
    then show ?thesis by simp
  qed
qed

lemma hash_blocks_block: "length b = 64 \<Longrightarrow> hash_blocks H b = fips_compress H b"
  by (subst hash_blocks.simps) simp

lemma length_hash_blocks [simp]: "length H = 8 \<Longrightarrow> length (hash_blocks H m) = 8"
proof (induction H m rule: hash_blocks.induct)
  case (1 H m)
  then show ?case by (subst hash_blocks.simps) (simp add: fips_compress_def)
qed

lemma length_H0 [simp]: "length H0 = 8"
  by (simp add: H0_def)

text \<open>Padding: a bit 1, zeros and the length in bits, to a multiple of 64 bytes.\<close>

definition fips_pad :: "u8 list \<Rightarrow> u8 list" where
  "fips_pad m =
     m @ 0x80 # replicate ((119 - length m mod 64) mod 64) 0 @ WRITE_UINT64 (word_of_nat (8 * length m))"

definition fips_sha256 :: "u8 list \<Rightarrow> u8 list" where
  "fips_sha256 m = concat (map WRITE_UINT32 (hash_blocks H0 (fips_pad m)))"

section \<open>Updates\<close>

text \<open>What the context holds after the message \<open>m\<close>.\<close>

definition ctx_rep :: "sha256_ctx \<Rightarrow> u8 list \<Rightarrow> bool" where
  "ctx_rep ctx m \<longleftrightarrow>
     hash_state ctx = hash_blocks H0 m \<and> block_count ctx = word_of_nat (length m div 64) \<and>
     block_index ctx = length m mod 64 \<and> length (hash_block ctx) = 64 \<and>
     take (length m mod 64) (hash_block ctx) = drop (64 * (length m div 64)) m"

lemma COMPRESS_fips:
  assumes "hash_state ctx = hash_blocks H0 a" "64 dvd length a" "length b = 64"
  shows "COMPRESS ctx (b @ c) = Some (ctx\<lparr>hash_state := hash_blocks H0 (a @ b)\<rparr>)"
  using assms
  by (simp add: COMPRESS_def compress_fips hash_blocks_append hash_blocks_block fips_compress_append)

lemma full_blocks_ok:
  assumes "hash_state ctx = hash_blocks H0 a" "64 dvd length a" "block_count ctx = word_of_nat (length a div 64)"
  shows "full_blocks ctx data = Some
    (ctx\<lparr>hash_state := hash_blocks H0 (a @ data), block_count := word_of_nat (length (a @ data) div 64)\<rparr>,
     drop (64 * (length data div 64)) data)"
  using assms
proof (induction "length data div 64" arbitrary: data a ctx)
  case 0
  then have "length data < 64" by (simp add: div_eq_0_iff)
  then show ?case using 0 by (subst full_blocks.simps) (auto simp: hash_blocks_append div_add elim!: dvdE)
next
  case (Suc n)
  then have long: "64 \<le> length data" by (metis Suc_neq_Zero div_less not_le)
  define b rest where "b = take 64 data" and "rest = drop 64 data"
  have data: "data = b @ rest" "length b = 64" using long by (simp_all add: b_def rest_def)
  have n: "length rest div 64 = n" using Suc(2) data by simp
  let ?ctx = "ctx\<lparr>hash_state := hash_blocks H0 (a @ b), block_count := block_count ctx + 1\<rparr>"
  have "full_blocks ctx data = full_blocks ?ctx rest"
    using long COMPRESS_fips [OF Suc.prems(1,2) data(2), of rest] data by (subst full_blocks.simps) simp
  also have "\<dots> = Some (?ctx\<lparr>hash_state := hash_blocks H0 ((a @ b) @ rest), block_count := word_of_nat (length ((a @ b) @ rest) div 64)\<rparr>,
     drop (64 * (length rest div 64)) rest)"
    using Suc.prems data(2) n by (intro Suc.hyps(1)) (auto elim!: dvdE)
  finally have "full_blocks ctx data = Some
    (?ctx\<lparr>hash_state := hash_blocks H0 ((a @ b) @ rest), block_count := word_of_nat (length ((a @ b) @ rest) div 64)\<rparr>,
     drop (64 * (length rest div 64)) rest)" .
  moreover have "(64 + length rest) div 64 = Suc (length rest div 64)" by simp
  ultimately show ?case using data by simp
qed

lemma update_rest_ok:
  assumes "hash_state ctx = hash_blocks H0 a" "64 dvd length a" "block_count ctx = word_of_nat (length a div 64)"
    and "length (hash_block ctx) = 64"
  shows "\<exists>ctx'. update_rest ctx data = Some ctx' \<and> ctx_rep ctx' (a @ data)"
proof -
  let ?r = "drop (64 * (length data div 64)) data"
  have r: "length ?r = length data mod 64" by (simp add: minus_mult_div_eq_mod)
  obtain q where q: "length a = 64 * q" using assms(2) by (auto elim: dvdE)
  have "length (a @ data) mod 64 = length data mod 64" "drop (64 * (length (a @ data) div 64)) (a @ data) = ?r"
    by (simp_all add: q)
  then show ?thesis using full_blocks_ok [OF assms(1-3), of data] assms(4) r
    by (simp add: update_rest_def copy_at_def ctx_rep_def)
qed

lemma sha256_update_ok:
  assumes "ctx_rep ctx m"
  shows "\<exists>ctx'. sha256_update ctx data = Some ctx' \<and> ctx_rep ctx' (m @ data)"
proof -
  note rep = assms [unfolded ctx_rep_def]
  define q p where "q = length m div 64" and "p = drop (64 * q) m"
  have m: "m = take (64 * q) m @ p" "length (take (64 * q) m) = 64 * q" "length p = length m mod 64"
    by (simp_all add: p_def q_def minus_mult_div_eq_mod)
  define a where "a = take (64 * q) m"
  have a: "m = a @ p" "length a = 64 * q" using m(1,2) unfolding a_def by simp_all
  have p: "length p < 64" "take (length p) (hash_block ctx) = p" "block_index ctx = length p"
    using rep m(3) by (simp_all add: p_def q_def)
  have hb: "hash_blocks H0 m = hash_blocks H0 a" using p(1) a(2) by (simp add: a(1) hash_blocks_append)
  have st: "hash_state ctx = hash_blocks H0 a" using rep hb by simp
  have cnt: "block_count ctx = word_of_nat q" and len: "length (hash_block ctx) = 64" using rep by (simp_all add: q_def)
  show ?thesis
  proof (cases "p = []")
    case True
    have "\<exists>ctx'. update_rest ctx data = Some ctx' \<and> ctx_rep ctx' (a @ data)"
      using st cnt len by (intro update_rest_ok) (simp_all add: a(2))
    then show ?thesis using True a p(3) by (simp add: sha256_update_def)
  next
    case False
    define left where "left = 64 - length p"
    have l: "length p + left = 64" using p(1) by (simp add: left_def)
    show ?thesis
    proof (cases "length data < left")
      case True
      let ?b = "take (length p) (hash_block ctx) @ data @ drop (length p + length data) (hash_block ctx)"
      have upd: "sha256_update ctx data = Some (ctx\<lparr>hash_block := ?b, block_index := length p + length data\<rparr>)"
        using False True p(1,3) l len by (simp add: sha256_update_def copy_at_def left_def)
      have s: "length p + length data < 64" using True l by simp
      have "length (m @ data) mod 64 = length p + length data" "length (m @ data) div 64 = q"
        using s a(2) by (simp_all add: a(1))
      moreover have "hash_blocks H0 (m @ data) = hash_state ctx" using s a(2) by (simp add: st a(1) hash_blocks_append)
      moreover have "drop (64 * q) (m @ data) = p @ data" using a(2) by (simp add: a(1))
      ultimately show ?thesis using upd p(1,2) s cnt len by (simp add: ctx_rep_def)
    next
      case long: False
      define d1 d2 where "d1 = take left data" and "d2 = drop left data"
      have d: "data = d1 @ d2" "length d1 = left" using long by (simp_all add: d1_def d2_def)
      let ?ctx = "ctx\<lparr>hash_block := p @ d1, hash_state := hash_blocks H0 (a @ p @ d1), block_count := block_count ctx + 1\<rparr>"
      have "copy_at (hash_block ctx) (length p) data left = Some (p @ d1)"
        using d p(1,2) l len by (simp add: copy_at_def)
      moreover have "COMPRESS (ctx\<lparr>hash_block := p @ d1\<rparr>) (p @ d1) = Some (ctx\<lparr>hash_block := p @ d1, hash_state := hash_blocks H0 (a @ p @ d1)\<rparr>)"
        using COMPRESS_fips [of "ctx\<lparr>hash_block := p @ d1\<rparr>" a "p @ d1" "[]"] st a(2) d(2) l by simp
      ultimately have "sha256_update ctx data = update_rest ?ctx d2"
        using False long p(3) by (simp add: sha256_update_def left_def [symmetric] d2_def)
      moreover have "length (a @ p @ d1) = 64 * (q + 1)" using a(2) d(2) l by simp
      then have "\<exists>ctx'. update_rest ?ctx d2 = Some ctx' \<and> ctx_rep ctx' ((a @ p @ d1) @ d2)"
        using cnt d(2) l by (intro update_rest_ok) simp_all
      ultimately show ?thesis by (simp add: a(1) d(1))
    qed
  qed
qed

section \<open>Digests\<close>

lemma length_WRITE [simp]: "length (WRITE_UINT32 w) = 4" "length (WRITE_UINT64 v) = 8"
  by (simp_all add: WRITE_UINT32_def WRITE_UINT64_def)

lemma take_words:
  "n \<le> 4 * length ws \<Longrightarrow> take n (concat (map WRITE_UINT32 ws)) =
     concat (map WRITE_UINT32 (take (n div 4) ws)) @
     (if n mod 4 = 0 then [] else take (n mod 4) (WRITE_UINT32 (ws ! (n div 4))))"
proof (induction ws arbitrary: n)
  case (Cons w ws)
  show ?case
  proof (cases "n < 4")
    case False
    then obtain k where k: "n = k + 4" by (metis add.commute le_iff_add not_less)
    then have d: "n div 4 = Suc (k div 4)" "n mod 4 = k mod 4" by simp_all
    have "k \<le> 4 * length ws" using Cons.prems k by simp
    moreover have "n - 4 = k" "4 \<le> n" using k by simp_all
    ultimately show ?thesis using Cons.IH [of k] by (simp add: d)
  qed simp
qed simp

lemma nettle_write_be32_ok:
  assumes "n \<le> 4 * length ws" "n \<le> length dst"
  shows "nettle_write_be32 n dst ws = Some (take n (concat (map WRITE_UINT32 ws)) @ drop n dst)"
proof -
  have "n div 4 < length ws" if "n mod 4 \<noteq> 0" using assms(1) that by presburger
  moreover have "take (n mod 4) (WRITE_UINT32 w) =
      take (n mod 4) [ucast (drop_bit 24 w AND 0xff), ucast (drop_bit 16 w AND 0xff), ucast (drop_bit 8 w AND 0xff)]" for w
  proof -
    have "n mod 4 < 4" by simp
    then have "n mod 4 = 0 \<or> n mod 4 = 1 \<or> n mod 4 = 2 \<or> n mod 4 = 3" by linarith
    then show ?thesis by (auto simp: WRITE_UINT32_def)
  qed
  moreover have "n div 4 \<le> length ws" using assms(1) by presburger
  ultimately show ?thesis using assms by (simp add: nettle_write_be32_def Let_def take_words)
qed

lemma bit_count:
  assumes "p < 64"
  shows "push_bit 9 (word_of_nat q :: u64) OR word_of_nat (8 * p) = word_of_nat (8 * (64 * q + p))"
proof -
  have "\<not> bit (word_of_nat (8 * p) :: u64) n" if "9 \<le> n" for n
  proof -
    have "(2 :: nat) ^ 9 \<le> 2 ^ n" using that by (intro power_increasing) simp_all
    then have "8 * p < 2 ^ n" using assms by simp
    moreover have "unat (word_of_nat (8 * p) :: u64) = 8 * p" using assms by (simp add: unat_of_nat del: of_nat_mult)
    ultimately have "\<not> bit (unat (word_of_nat (8 * p) :: u64)) n" by (simp add: bit_iff_odd del: unat_of_nat)
    then show ?thesis by (simp add: bit_unsigned_iff del: unat_of_nat)
  qed
  then have "push_bit 9 (word_of_nat q :: u64) AND word_of_nat (8 * p) = 0"
    by (auto intro!: bit_word_eqI simp: bit_simps not_le)
  then have "push_bit 9 (word_of_nat q :: u64) OR word_of_nat (8 * p) = push_bit 9 (word_of_nat q) + word_of_nat (8 * p)"
    by (simp add: disjunctive_add_eq_or)
  also have "\<dots> = word_of_nat (8 * (64 * q + p))"
    by (simp add: push_bit_eq_mult algebra_simps)
  finally show ?thesis .
qed

lemma copy_tail: "length c = 56 \<Longrightarrow> length d = 8 \<Longrightarrow> length L = 8 \<Longrightarrow> copy_at (c @ d) 56 L 8 = Some (c @ L)"
  by (simp add: copy_at_def)

lemma sha256_write_digest_ok:
  assumes "ctx_rep ctx m" "n \<le> 32" "n \<le> length dst"
  shows "\<exists>ctx'. sha256_write_digest ctx n dst = Some (Inr (ctx', take n (fips_sha256 m) @ drop n dst)) \<and>
    length (hash_block ctx') = 64"
proof -
  note rep = assms(1) [unfolded ctx_rep_def]
  define q where "q = length m div 64"
  define a p where "a = take (64 * q) m" and "p = drop (64 * q) m"
  have a: "m = a @ p" "length a = 64 * q" by (simp_all add: a_def p_def q_def)
  have lp: "length p = length m mod 64" by (simp add: p_def q_def minus_mult_div_eq_mod)
  then have p: "length p < 64" "block_index ctx = length p" "take (length p) (hash_block ctx) = p"
    using rep by (simp_all add: p_def q_def)
  have hb: "hash_blocks H0 m = hash_blocks H0 a" using p(1) a(2) by (simp add: a(1) hash_blocks_append)
  have st: "hash_state ctx = hash_blocks H0 a" using rep hb by simp
  have cnt: "block_count ctx = word_of_nat q" and len: "length (hash_block ctx) = 64" using rep by (simp_all add: q_def)
  have lm: "length m = 64 * q + length p" using a by simp
  let ?L = "WRITE_UINT64 (word_of_nat (8 * length m))"
  have bits: "push_bit 9 (block_count ctx) OR word_of_nat (8 * block_index ctx) = word_of_nat (8 * length m)"
    unfolding cnt p(2) lm by (rule bit_count [OF p(1)])
  let ?b = "(hash_block ctx)[length p := 0x80]"
  have b: "length ?b = 64" "take (Suc (length p)) ?b = p @ [0x80]"
    using p(1,3) len by (simp_all add: take_Suc_conv_app_nth)
  show ?thesis
  proof (cases "length p < 56")
    case True
    let ?c = "p @ 0x80 # replicate (55 - length p) 0"
    have pad: "MD_PAD ctx = Some (Inr (ctx\<lparr>hash_block := ?c @ drop 56 ?b\<rparr>))"
      using True p(2) len b by (simp add: MD_PAD_def)
    have lc: "length ?c = 56" using True by simp
    have "copy_at (?c @ drop 56 ?b) 56 ?L 8 = Some (?c @ ?L)"
      using lc b(1) by (intro copy_tail) simp_all
    moreover have "(119 - length p) mod 64 = 55 - length p"
      using True mod_add_self2 [of "55 - length p" 64] by (simp del: mod_add_self2)
    then have fp: "fips_pad m = a @ ?c @ ?L" unfolding fips_pad_def lp [symmetric] by (simp add: a(1))
    moreover have "COMPRESS (ctx\<lparr>hash_block := ?c @ ?L\<rparr>) (?c @ ?L) = Some (ctx\<lparr>hash_block := ?c @ ?L, hash_state := hash_blocks H0 (a @ ?c @ ?L)\<rparr>)"
      using COMPRESS_fips [of "ctx\<lparr>hash_block := ?c @ ?L\<rparr>" a "?c @ ?L" "[]"] st a(2) lc by simp
    ultimately show ?thesis using assms(2,3) pad bits lc
      by (simp add: sha256_write_digest_def Let_def nettle_write_be32_ok fips_sha256_def)
  next
    case False
    let ?c = "p @ 0x80 # replicate (63 - length p) 0" and ?z = "replicate 56 (0 :: u8)"
    have lc: "length ?c = 64" using p(1) by simp
    have t: "take (Suc (length p)) ?b @ replicate (64 - Suc (length p)) 0 = ?c" unfolding b(2) by simp
    have c1: "COMPRESS (ctx\<lparr>hash_block := ?c\<rparr>) ?c = Some (ctx\<lparr>hash_block := ?c, hash_state := hash_blocks H0 (a @ ?c)\<rparr>)"
      using COMPRESS_fips [of "ctx\<lparr>hash_block := ?c\<rparr>" a ?c "[]"] st a(2) lc by simp
    let ?ctx = "ctx\<lparr>hash_state := hash_blocks H0 (a @ ?c), hash_block := ?z @ drop 56 ?c\<rparr>"
    have pad: "MD_PAD ctx = Some (Inr ?ctx)"
      using False p(1,2) len c1 t by (simp add: MD_PAD_def Let_def)
    have "copy_at (?z @ drop 56 ?c) 56 ?L 8 = Some (?z @ ?L)"
      using lc by (intro copy_tail) simp_all
    moreover have "(119 - length p) mod 64 = 119 - length p" using False p(1) by simp
    then have fp: "fips_pad m = a @ ?c @ ?z @ ?L" unfolding fips_pad_def lp [symmetric]
      using False p(1) by (simp add: a(1) replicate_add [symmetric])
    moreover have "COMPRESS (?ctx\<lparr>hash_block := ?z @ ?L\<rparr>) (?z @ ?L) =
        Some (?ctx\<lparr>hash_block := ?z @ ?L, hash_state := hash_blocks H0 ((a @ ?c) @ ?z @ ?L)\<rparr>)"
      using COMPRESS_fips [of "?ctx\<lparr>hash_block := ?z @ ?L\<rparr>" "a @ ?c" "?z @ ?L" "[]"] a(2) lc by simp
    ultimately show ?thesis using assms(2,3) pad bits lc
      by (simp add: sha256_write_digest_def Let_def nettle_write_be32_ok fips_sha256_def)
  qed
qed

section \<open>Properties\<close>

text \<open>A client that feeds the message in pieces.\<close>

primrec sha256_updates :: "sha256_ctx \<Rightarrow> u8 list list \<Rightarrow> sha256_ctx option" where
  "sha256_updates ctx [] = Some ctx"
| "sha256_updates ctx (d # ds) = do { ctx \<leftarrow> sha256_update ctx d; sha256_updates ctx ds }"

lemma sha256_updates_ok:
  "ctx_rep ctx m \<Longrightarrow> \<exists>ctx'. sha256_updates ctx ds = Some ctx' \<and> ctx_rep ctx' (m @ concat ds)"
proof (induction ds arbitrary: ctx m)
  case (Cons d ds)
  obtain ctx1 where "sha256_update ctx d = Some ctx1" "ctx_rep ctx1 (m @ d)"
    using sha256_update_ok [OF Cons.prems] by blast
  then show ?case using Cons.IH [of ctx1 "m @ d"] by simp
qed simp

lemma ctx_rep_init: "length (hash_block ctx) = 64 \<Longrightarrow> ctx_rep (sha256_init ctx) []"
  by (simp add: ctx_rep_def sha256_init_def)

lemma sha256_digest_ok:
  assumes "ctx_rep ctx m" "n \<le> 32" "n \<le> length dst"
  shows "\<exists>ctx'. sha256_digest ctx n dst = Some (Inr (ctx', take n (fips_sha256 m) @ drop n dst)) \<and> ctx_rep ctx' []"
  using sha256_write_digest_ok [OF assms] by (auto simp: sha256_digest_def ctx_rep_init)

lemma length_concat_words: "length (concat (map WRITE_UINT32 ws)) = 4 * length ws"
  by (induction ws) simp_all

lemma length_fips_sha256 [simp]: "length (fips_sha256 m) = 32"
  by (simp add: fips_sha256_def length_concat_words)

text \<open>The benchmark leaves the hash of its message in the buffer, whatever the stack holds.\<close>

lemma benchmark_body_ok:
  assumes "length (hash_block ctx0) = 64"
  shows "length buffer = 32 \<Longrightarrow> benchmark_body rpt ctx0 buffer = Some (Inr (if rpt = 0 then buffer else fips_sha256 msg))"
proof (induction rpt arbitrary: buffer)
  case (Suc rpt)
  obtain ctx where ctx: "sha256_update (sha256_init ctx0) msg = Some ctx" "ctx_rep ctx msg"
    using sha256_update_ok [OF ctx_rep_init [OF assms], of msg] by auto
  obtain ctx' where "sha256_digest ctx 32 (replicate 32 0) = Some (Inr (ctx', fips_sha256 msg))"
    using sha256_digest_ok [OF ctx(2), of 32 "replicate 32 0"] by auto
  then show ?case using ctx(1) Suc by (simp add: Let_def)
qed simp

text \<open>So the program succeeds if the hash of its message starts with the 8 bytes it compares.\<close>

lemma verify_prefix:
  assumes "length buffer = 32" "take 8 buffer = take 8 hash"
  shows "verify_benchmark buffer = Some True"
proof -
  have "hash ! i = buffer ! i" if "i < 8" for i
    using arg_cong [OF assms(2), of "\<lambda>xs. xs ! i"] that by simp
  then show ?thesis using assms(1)
    by (simp add: verify_benchmark_def for_range_eqI [where g = "\<lambda>_. True"] hash_def)
qed

lemma sha_program_steps:
  assumes "length (hash_block ctx0) = 64" "length buffer = 32" "take 8 (fips_sha256 msg) = take 8 hash"
  shows "steps (the_steps False (sha_program ctx0)) buffer = Some (Returned 0, fips_sha256 msg)"
proof -
  have "benchmark ctx0 buffer = Some (Inr (fips_sha256 msg))"
    using benchmark_body_ok [OF assms(1,2)] by (simp add: benchmark_def LOCAL_SCALE_FACTOR_def)
  then show ?thesis using verify_prefix [OF _ assms(3)]
    by (simp add: the_steps_def sha_program_def sha_run_def sha_check_def)
qed

text \<open>The compression function is that of the standard, for every state and every block: eight variables
  that change roles in unrolled rounds compute the eight assignments of a round, and a window of 16
  words the message schedule of 64.\<close>

theorem compress_is_fips:
  assumes "length st = 8" "64 \<le> length input"
  shows "nettle_sha256_compress st input K = Some (fips_compress st input)"
  using assms by (rule compress_fips)

text \<open>C24: The incremental hash is SHA-256 of the standard: initialisation, updates with the message in any
  pieces, and a digest of up to 32 bytes stay inside their buffers, pass the assertions, and write
  the first bytes of the hash of the whole message; the context is ready for the next message.\<close>

theorem sha256_correct:
  assumes "length (hash_block ctx) = 64" "n \<le> 32" "n \<le> length dst"
  shows "\<exists>ctx1 ctx2. sha256_updates (sha256_init ctx) ds = Some ctx1 \<and>
    sha256_digest ctx1 n dst = Some (Inr (ctx2, take n (fips_sha256 (concat ds)) @ drop n dst)) \<and> ctx_rep ctx2 []"
proof -
  obtain ctx1 where ctx1: "sha256_updates (sha256_init ctx) ds = Some ctx1" "ctx_rep ctx1 (concat ds)"
    using sha256_updates_ok [OF ctx_rep_init [OF assms(1)]] by auto
  then show ?thesis using sha256_digest_ok [OF ctx1(2) assms(2,3)] by auto
qed

definition sample_ctx :: sha256_ctx where
  "sample_ctx = \<lparr>hash_state = [], block_count = 7, hash_block = replicate 64 0xaa, block_index = 9\<rparr>"

theorem compress_is_fips_witness: "nettle_sha256_compress H0 (replicate 64 0) K = Some (fips_compress H0 (replicate 64 0))"
  by (rule compress_is_fips) simp_all

theorem sha256_correct_witness:
  "\<exists>ctx1 ctx2. sha256_updates (sha256_init sample_ctx) [msg, replicate 100 0x61] = Some ctx1 \<and>
    sha256_digest ctx1 20 (replicate 32 0) =
      Some (Inr (ctx2, take 20 (fips_sha256 (msg @ replicate 100 0x61)) @ replicate 12 0))"
  using sha256_correct [of sample_ctx 20 "replicate 32 0" "[msg, replicate 100 0x61]"]
  by (auto simp: sample_ctx_def)

section \<open>Departures\<close>

text \<open>The check of the benchmark reads only 8 of the 32 bytes: it accepts every buffer that starts with
  them.\<close>

lemma verify_first_8:
  assumes "length rest = 24"
  shows "verify_benchmark (take 8 hash @ rest) = Some True"
  using assms by (simp add: verify_benchmark_def for_range_step hash_def eval_nat_numeral)

end
