(* ===== verification/BeebsLib.thy ===== *)
theory BeebsLib
  imports Prelude
begin

text \<open>
  The library the SHA-256 benchmark is linked with, \<open>src/lib/openasip/sha256/beebsc.c\<close>, on a target with
  32-bit \<open>long\<close> and pointers: the random numbers and the heap that only grows. A failing \<open>assert\<close>, and a
  signed overflow, are \<open>None\<close>.
\<close>

record beebs =
  seed :: s32
  heap_ptr :: u32
  heap_end :: u32
  heap_requested :: u32
  heap_bytes :: "u32 \<Rightarrow> u8"

definition rand_beebs :: "beebs \<Rightarrow> (s32 \<times> beebs) option" where
  "rand_beebs s =
     do { x \<leftarrow> chk32 (sint (seed s) * 1103515245); x \<leftarrow> chk32 (x + 12345);
          let v = word_of_int x AND (push_bit 31 1 - 1);
          Some (signed_drop_bit 16 v, s\<lparr>seed := v\<rparr>) }"

definition srand_beebs :: "u32 \<Rightarrow> beebs \<Rightarrow> beebs" where
  "srand_beebs new_seed s = s\<lparr>seed := new_seed\<rparr>"

definition init_heap_beebs :: "u32 \<Rightarrow> u32 \<Rightarrow> beebs \<Rightarrow> beebs option" where
  "init_heap_beebs heap heap_size s =
     (if heap_size mod 4 = 0 then Some (s\<lparr>heap_ptr := heap, heap_end := heap + heap_size, heap_requested := 0\<rparr>) else None)"

definition check_heap_beebs :: "u32 \<Rightarrow> beebs \<Rightarrow> bool" where
  "check_heap_beebs heap s \<longleftrightarrow> heap + heap_requested s \<le> heap_end s"

definition malloc_beebs :: "u32 \<Rightarrow> beebs \<Rightarrow> u32 \<times> beebs" where
  "malloc_beebs sz s =
     (if sz = 0 then (0, s)
      else
        (let next_heap_ptr = heap_ptr s + sz;
             s = s\<lparr>heap_requested := heap_requested s + sz\<rparr>;
             (next_heap_ptr, s) =
               (if next_heap_ptr mod 4 \<noteq> 0
                then (let padding = 4 - next_heap_ptr mod 4
                      in (next_heap_ptr + padding, s\<lparr>heap_requested := heap_requested s + padding\<rparr>))
                else (next_heap_ptr, s))
         in if heap_end s < next_heap_ptr then (0, s)
            else (heap_ptr s, s\<lparr>heap_ptr := next_heap_ptr\<rparr>)))"

text \<open>Storing a list of bytes from an address on.\<close>

primrec put_bytes :: "(u32 \<Rightarrow> u8) \<Rightarrow> u32 \<Rightarrow> u8 list \<Rightarrow> u32 \<Rightarrow> u8" where
  "put_bytes m p [] = m"
| "put_bytes m p (b # bs) = put_bytes (m(p := b)) (p + 1) bs"

definition calloc_beebs :: "u32 \<Rightarrow> u32 \<Rightarrow> beebs \<Rightarrow> u32 \<times> beebs" where
  "calloc_beebs nmemb sz s =
     (case malloc_beebs (nmemb * sz) s of (new_ptr, s) \<Rightarrow>
        (new_ptr,
         if new_ptr \<noteq> 0 then s\<lparr>heap_bytes := put_bytes (heap_bytes s) new_ptr (replicate (unat (nmemb * sz)) 0)\<rparr> else s))"

text \<open>Byte by byte: source and destination may overlap.\<close>

primrec copy_bytes :: "nat \<Rightarrow> u32 \<Rightarrow> u32 \<Rightarrow> (u32 \<Rightarrow> u8) \<Rightarrow> u32 \<Rightarrow> u8" where
  "copy_bytes 0 dst src m = m"
| "copy_bytes (Suc n) dst src m = copy_bytes n (dst + 1) (src + 1) (m(dst := m src))"

definition realloc_beebs :: "u32 \<Rightarrow> u32 \<Rightarrow> beebs \<Rightarrow> u32 \<times> beebs" where
  "realloc_beebs ptr sz s =
     (if ptr = 0 then (0, s)
      else case malloc_beebs sz s of (new_ptr, s) \<Rightarrow>
        (new_ptr, if new_ptr \<noteq> 0 then s\<lparr>heap_bytes := copy_bytes (unat sz) new_ptr ptr (heap_bytes s)\<rparr> else s))"

definition free_beebs :: "u32 \<Rightarrow> beebs \<Rightarrow> beebs" where
  "free_beebs ptr s = s"

section \<open>The heap grows by aligned blocks\<close>

lemma malloc_beebs_block:
  assumes "4 dvd unat (heap_ptr s)" "sz \<noteq> 0" "unat (heap_ptr s) + unat sz + 4 < 2 ^ 32"
    and "malloc_beebs sz s = (p, s')" "p \<noteq> 0"
  shows "p = heap_ptr s \<and> unat p + unat sz \<le> unat (heap_ptr s') \<and> unat (heap_ptr s') < unat p + unat sz + 4 \<and>
    4 dvd unat (heap_ptr s') \<and> heap_ptr s' \<le> heap_end s \<and> heap_end s' = heap_end s"
proof -
  let ?n = "heap_ptr s + sz"
  have n: "unat ?n = unat (heap_ptr s) + unat sz" using assms(3) by (simp add: unat_word_ariths)
  have m: "unat (?n mod 4) = unat ?n mod 4" by (simp add: unat_mod)
  then have "unat (?n mod 4) < 4" by simp
  then have "unat (4 - ?n mod 4) = 4 - unat ?n mod 4" using m by (simp add: unat_sub word_le_nat_alt)
  then have pad: "unat (?n + (4 - ?n mod 4)) = unat ?n + (4 - unat ?n mod 4)"
    using assms(3) n by (simp add: unat_word_ariths)
  show ?thesis
  proof (cases "?n mod 4 = 0")
    case True
    then have "4 dvd unat ?n" using m by (simp add: dvd_eq_mod_eq_0)
    moreover have "p = heap_ptr s" "heap_ptr s' = ?n" "?n \<le> heap_end s" "heap_end s' = heap_end s"
      using True assms(2,4,5) by (auto simp: malloc_beebs_def Let_def split: if_splits)
    ultimately show ?thesis using n by simp
  next
    case False
    let ?q = "?n + (4 - ?n mod 4)"
    have "4 dvd x + (4 - x mod 4)" for x :: nat
    proof -
      have *: "4 * d + r + (4 - r) = 4 * (d + 1)" if "r < 4" for d r :: nat using that by simp
      have "4 * (x div 4) + x mod 4 + (4 - x mod 4) = 4 * (x div 4 + 1)" by (rule *) simp
      then show ?thesis by (metis dvd_triv_left mult_div_mod_eq)
    qed
    then have "4 dvd unat ?q" unfolding pad .
    moreover have q: "p = heap_ptr s" "heap_ptr s' = ?q" "?q \<le> heap_end s" "heap_end s' = heap_end s"
      using False assms(2,4,5) by (auto simp: malloc_beebs_def Let_def split: if_splits)
    moreover have "unat ?n mod 4 \<noteq> 0" using False m by (metis unat_eq_zero)
    then have "unat ?n \<le> unat ?q" "unat ?q < unat ?n + 4" unfolding pad by simp_all
    ultimately show ?thesis using n unfolding q by simp
  qed
qed

section \<open>Departures\<close>

text \<open>With a 32-bit \<open>long\<close> the second random number after \<open>srand_beebs (0)\<close> overflows.\<close>

lemma rand_beebs_overflow:
  "\<exists>s'. rand_beebs (srand_beebs 0 s) = Some (0, s') \<and> rand_beebs s' = None"
  by (simp add: rand_beebs_def srand_beebs_def chk32_def Let_def)

end
