(* ===== verification/MlInterface.thy ===== *)
theory MlInterface
  imports Harness
begin

text \<open>
  The interface between the benchmark program and a machine-learning runtime:
  \<open>src/lib/ml_interface/v1\<close> and \<open>v2\<close>. The runtime's wrapper (\<open>TVMWrap_*\<close>, \<open>IREE_*\<close>,
  \<open>model_*\<close>) is generated per model: its initialisation and its inference are parameters that act
  on the model's state, whose input and output buffers are lists of bytes.
\<close>

section \<open>State\<close>

type_synonym bytes = "u8 list"

record 'm model =
  model_in :: "bytes list"
  model_out :: "bytes list"
  inner :: 'm

text \<open>The data compiled into the program. \<open>memcpy\<close> reads \<open>data_size_in ! i\<close> bytes from buffer \<open>i\<close>.\<close>

record data_set =
  num_data_buffers_in :: int
  num_data_buffers_out :: int
  data_buffers_in :: "bytes list"
  data_buffers_out :: "bytes list"
  data_size_in :: "nat list"
  data_size_out :: "nat list"

text \<open>Without data for a model the build links \<open>default_data.c\<close>.\<close>

definition default_data :: data_set where
  "default_data =
     \<lparr>num_data_buffers_in = 0, num_data_buffers_out = 0, data_buffers_in = [], data_buffers_out = [],
      data_size_in = [], data_size_out = []\<rparr>"

text \<open>With the static counters \<open>num_done\<close> of \<open>mlif_request_input\<close> and \<open>mlif_handle_result\<close>.\<close>

record 'm mlif =
  model :: "'m model"
  in_done :: int
  out_done :: int

definition memcpy :: "bytes \<Rightarrow> bytes \<Rightarrow> nat \<Rightarrow> bytes option" where
  "memcpy dst src n = (if n \<le> length src \<and> n \<le> length dst then Some (take n src @ drop n dst) else None)"

text \<open>\<open>memcmp\<close> as far as the code uses it: whether the first \<open>n\<close> bytes agree.\<close>

definition memcmp_eq :: "bytes \<Rightarrow> bytes \<Rightarrow> nat \<Rightarrow> bool option" where
  "memcmp_eq a b n = (if n \<le> length a \<and> n \<le> length b then Some (take n a = take n b) else None)"

section \<open>Input and output of the first version\<close>

definition mlif_process_input :: "bytes \<Rightarrow> nat \<Rightarrow> bytes \<Rightarrow> (s32 \<times> bytes) option" where
  "mlif_process_input in_data in_size buf =
     (if in_size \<noteq> 0 \<and> in_size \<noteq> length buf then Some (EXIT_MLIF_INVALID_SIZE, buf)
      else do { buf \<leftarrow> memcpy buf in_data in_size; Some (0, buf) })"

definition mlif_process_output :: "bytes \<Rightarrow> bytes \<Rightarrow> nat \<Rightarrow> outcome option" where
  "mlif_process_output buf expected expected_size =
     do { same \<leftarrow> (if length buf = expected_size then memcmp_eq buf expected (length buf) else Some False);
          Some (if same then Returned 0 else Exited EXIT_MLIF_MISSMATCH) }"

text \<open>The result is the status, the flag \<open>new_\<close> and the state.\<close>

definition mlif_request_input :: "data_set \<Rightarrow> nat \<Rightarrow> 'm mlif \<Rightarrow> (s32 \<times> bool \<times> 'm mlif) option" where
  "mlif_request_input D i s =
     (if in_done s = num_data_buffers_in D then Some (0, False, s)
      else do {
        buf \<leftarrow> rd (model_in (model s)) i;
        data \<leftarrow> rd (data_buffers_in D) (nat (in_done s));
        sz \<leftarrow> rd (data_size_in D) (nat (in_done s));
        (ret, buf) \<leftarrow> mlif_process_input data sz buf;
        n \<leftarrow> chk32 (in_done s + 1);
        Some (ret, True, s\<lparr>model := (model s)\<lparr>model_in := (model_in (model s))[i := buf]\<rparr>, in_done := n\<rparr>) })"

definition mlif_handle_result :: "data_set \<Rightarrow> nat \<Rightarrow> 'm mlif \<Rightarrow> (outcome \<times> 'm mlif) option" where
  "mlif_handle_result D i s =
     (if num_data_buffers_out D = 0 then Some (Returned 0, s)
      else do {
        out \<leftarrow> (if out_done s < num_data_buffers_out D then do {
                  buf \<leftarrow> rd (model_out (model s)) i;
                  expected \<leftarrow> rd (data_buffers_out D) (nat (out_done s));
                  sz \<leftarrow> rd (data_size_out D) (nat (out_done s));
                  mlif_process_output buf expected sz }
                else Some (Returned 0));
        (case out of
           Exited c \<Rightarrow> Some (Exited c, s)
         | Returned r \<Rightarrow> do { n \<leftarrow> chk32 (out_done s + 1); Some (Returned r, s\<lparr>out_done := n\<rparr>) }) })"

section \<open>The programs of the first version\<close>

text \<open>The loop over the outputs, from output \<open>i\<close> on with \<open>n\<close> to go; it ends early with a status
  that is not 0.\<close>

primrec handle_results :: "data_set \<Rightarrow> nat \<Rightarrow> nat \<Rightarrow> 'm mlif \<Rightarrow> (outcome \<times> 'm mlif) option" where
  "handle_results D 0 i s = Some (Returned 0, s)"
| "handle_results D (Suc n) i s =
     do { (out, s) \<leftarrow> mlif_handle_result D i s;
          if out = Returned 0 then handle_results D n (Suc i) s else Some (out, s) }"

text \<open>The loop of \<open>mlonmcu_check\<close> with \<open>i\<close> inputs of the current inference filled in. The number of
  inputs is the number of input buffers; asking for a buffer the model does not have is a fault,
  so the comparison with \<open>GetNumInputs() - 1\<close> is never made when this is 0.\<close>

partial_function (option) check_loop ::
  "('m model \<Rightarrow> s32 \<times> 'm model) \<Rightarrow> data_set \<Rightarrow> nat \<Rightarrow> 'm mlif \<Rightarrow> (outcome \<times> 'm mlif) option" where
  "check_loop run D i s =
     (if length (model_in (model s)) \<le> i then None
      else do {
        (ret, new, s) \<leftarrow> mlif_request_input D i s;
        if ret \<noteq> 0 then Some (Returned ret, s)
        else if \<not> new then Some (Returned ret, s)
        else if i = length (model_in (model s)) - 1 then
          (case run (model s) of (ret, m) \<Rightarrow>
             if ret \<noteq> 0 then Some (Returned ret, s\<lparr>model := m\<rparr>)
             else do {
               (out, s) \<leftarrow> handle_results D (length (model_out m)) 0 (s\<lparr>model := m\<rparr>);
               if out = Returned 0 then check_loop run D 0 s else Some (out, s) })
        else check_loop run D (i + 1) s })"

text \<open>\<open>mlonmcu_run\<close>: \<open>NUM_RUNS\<close> inferences, up to the first that fails.\<close>

primrec run_loop :: "('m model \<Rightarrow> s32 \<times> 'm model) \<Rightarrow> nat \<Rightarrow> 'm model \<Rightarrow> s32 \<times> 'm model" where
  "run_loop run 0 m = (0, m)"
| "run_loop run (Suc n) m = (case run m of (ret, m) \<Rightarrow> if ret \<noteq> 0 then (ret, m) else run_loop run n m)"

definition on_model :: "('m model \<Rightarrow> s32 \<times> 'm model) \<Rightarrow> 'm mlif \<Rightarrow> (outcome \<times> 'm mlif) option" where
  "on_model f s = (case f (model s) of (ret, m) \<Rightarrow> Some (Returned ret, s\<lparr>model := m\<rparr>))"

definition tvm_program ::
  "('m model \<Rightarrow> s32 \<times> 'm model) \<Rightarrow> ('m model \<Rightarrow> s32 \<times> 'm model) \<Rightarrow> nat \<Rightarrow> data_set \<Rightarrow> 'm mlif benchmark" where
  "tvm_program TVMWrap_Init TVMWrap_Run NUM_RUNS D =
     \<lparr>mlonmcu_init = on_model TVMWrap_Init, mlonmcu_run = on_model (run_loop TVMWrap_Run NUM_RUNS),
      mlonmcu_check = check_loop TVMWrap_Run D 0, mlonmcu_deinit = (\<lambda>s. Some (Returned 0, s))\<rparr>"

definition iree_program ::
  "('m model \<Rightarrow> s32 \<times> 'm model) \<Rightarrow> ('m model \<Rightarrow> s32 \<times> 'm model) \<Rightarrow> ('m model \<Rightarrow> s32 \<times> 'm model) \<Rightarrow> nat \<Rightarrow>
     data_set \<Rightarrow> 'm mlif benchmark" where
  "iree_program IREE_Init IREE_Run IREE_Deinit NUM_RUNS D =
     \<lparr>mlonmcu_init = on_model IREE_Init, mlonmcu_run = on_model (run_loop IREE_Run NUM_RUNS),
      mlonmcu_check = check_loop IREE_Run D 0, mlonmcu_deinit = on_model IREE_Deinit\<rparr>"

text \<open>The program for emx calls \<open>model_invoke\<close> twice in every run and never looks at its status.\<close>

primrec emx_run_loop :: "('m model \<Rightarrow> s32 \<times> 'm model) \<Rightarrow> nat \<Rightarrow> 'm model \<Rightarrow> s32 \<times> 'm model" where
  "emx_run_loop model_invoke 0 m = (0, m)"
| "emx_run_loop model_invoke (Suc n) m =
     emx_run_loop model_invoke n (snd (model_invoke (snd (model_invoke m))))"

definition emx_program ::
  "('m model \<Rightarrow> s32 \<times> 'm model) \<Rightarrow> ('m model \<Rightarrow> s32 \<times> 'm model) \<Rightarrow> nat \<Rightarrow> data_set \<Rightarrow> 'm mlif benchmark" where
  "emx_program model_init model_invoke NUM_RUNS D =
     \<lparr>mlonmcu_init = on_model model_init, mlonmcu_run = on_model (emx_run_loop model_invoke NUM_RUNS),
      mlonmcu_check = check_loop (\<lambda>m. (0, snd (model_invoke m))) D 0, mlonmcu_deinit = (\<lambda>s. Some (Returned 0, s))\<rparr>"

section \<open>The second version\<close>

text \<open>Every input buffer is cleared; the flag is set once there is one.\<close>

definition mlif_process_inputs :: "nat \<Rightarrow> bool \<Rightarrow> 'm model \<Rightarrow> s32 \<times> bool \<times> 'm model" where
  "mlif_process_inputs batch_idx new m =
     (0, new \<or> model_in m \<noteq> [], m\<lparr>model_in := map (\<lambda>buf. replicate (length buf) 0) (model_in m)\<rparr>)"

definition mlif_process_outputs :: "nat \<Rightarrow> 'm model \<Rightarrow> s32 \<times> 'm model" where
  "mlif_process_outputs batch_idx m = (0, m)"

text \<open>The loop of \<open>mlonmcu_check\<close> from batch \<open>i\<close> on with \<open>n\<close> batches to go. \<open>process_in\<close> and
  \<open>process_out\<close> are the callbacks a user can override.\<close>

primrec batch_loop ::
  "(nat \<Rightarrow> bool \<Rightarrow> 'm model \<Rightarrow> s32 \<times> bool \<times> 'm model) \<Rightarrow> ('m model \<Rightarrow> s32 \<times> 'm model) \<Rightarrow>
     (nat \<Rightarrow> 'm model \<Rightarrow> s32 \<times> 'm model) \<Rightarrow> nat \<Rightarrow> nat \<Rightarrow> bool \<Rightarrow> 'm model \<Rightarrow> s32 \<times> 'm model" where
  "batch_loop process_in invoke process_out 0 i new m = (0, m)"
| "batch_loop process_in invoke process_out (Suc n) i new m =
     (case process_in i new m of (ret, new, m) \<Rightarrow>
        if ret \<noteq> 0 then (ret, m)
        else if \<not> new then (ret, m)
        else (case invoke m of (ret, m) \<Rightarrow>
          if ret \<noteq> 0 then (ret, m)
          else (case process_out i m of (ret, m) \<Rightarrow>
            if ret \<noteq> 0 then (ret, m) else batch_loop process_in invoke process_out n (i + 1) new m)))"

definition v2_program ::
  "('m model \<Rightarrow> s32 \<times> 'm model) \<Rightarrow> ('m model \<Rightarrow> s32 \<times> 'm model) \<Rightarrow> nat \<Rightarrow> nat \<Rightarrow> 'm mlif benchmark" where
  "v2_program mlif_init mlif_invoke NUM_RUNS BATCH_SIZE =
     \<lparr>mlonmcu_init = on_model mlif_init, mlonmcu_run = on_model (run_loop mlif_invoke NUM_RUNS),
      mlonmcu_check =
        on_model (batch_loop mlif_process_inputs mlif_invoke mlif_process_outputs BATCH_SIZE 0 False),
      mlonmcu_deinit = (\<lambda>s. Some (Returned 0, s))\<rparr>"

section \<open>Well-formed data\<close>

text \<open>The data that is compiled in describes buffers that exist.\<close>

definition data_ok :: "data_set \<Rightarrow> bool" where
  "data_ok D \<longleftrightarrow>
     num_data_buffers_in D = int (length (data_buffers_in D)) \<and> length (data_buffers_in D) < 2 ^ 31 \<and>
     num_data_buffers_out D = int (length (data_buffers_out D)) \<and> length (data_buffers_out D) < 2 ^ 31 \<and>
     list_all2 (\<lambda>b n. n \<le> length b) (data_buffers_in D) (data_size_in D) \<and>
     list_all2 (\<lambda>b n. n \<le> length b) (data_buffers_out D) (data_size_out D)"

text \<open>An inference does not change the number and the sizes of the buffers.\<close>

definition keeps_buffers :: "('m model \<Rightarrow> s32 \<times> 'm model) \<Rightarrow> bool" where
  "keeps_buffers run \<longleftrightarrow> (\<forall>m r m'. run m = (r, m') \<longrightarrow>
     map length (model_in m') = map length (model_in m) \<and> map length (model_out m') = map length (model_out m))"

lemma keeps_buffersD:
  "keeps_buffers run \<Longrightarrow> run m = (r, m') \<Longrightarrow>
     map length (model_in m') = map length (model_in m) \<and> length (model_out m') = length (model_out m)"
  by (metis keeps_buffers_def length_map)

lemma data_okD:
  assumes "data_ok D"
  shows "num_data_buffers_in D = int (length (data_buffers_in D))" "length (data_buffers_in D) < 2 ^ 31"
    "num_data_buffers_out D = int (length (data_buffers_out D))" "length (data_buffers_out D) < 2 ^ 31"
    "length (data_size_in D) = length (data_buffers_in D)" "length (data_size_out D) = length (data_buffers_out D)"
    "k < length (data_buffers_in D) \<Longrightarrow> data_size_in D ! k \<le> length (data_buffers_in D ! k)"
    "k < length (data_buffers_out D) \<Longrightarrow> data_size_out D ! k \<le> length (data_buffers_out D ! k)"
  using assms by (auto simp: data_ok_def list_all2_conv_all_nth)

lemma mlif_process_input_total:
  assumes "n \<le> length data"
  shows "\<exists>r buf'. mlif_process_input data n buf = Some (r, buf') \<and> length buf' = length buf"
  using assms by (auto simp: mlif_process_input_def memcpy_def)

lemma mlif_process_output_total: "n \<le> length data \<Longrightarrow> \<exists>out. mlif_process_output buf data n = Some out"
  by (auto simp: mlif_process_output_def memcmp_eq_def)

text \<open>A request either finds no more data, or fills in a buffer and counts it.\<close>

lemma request_input_total:
  assumes "data_ok D" "i < length (model_in (model s))" "0 \<le> in_done s" "in_done s < num_data_buffers_in D"
  shows "\<exists>r ms. mlif_request_input D i s =
      Some (r, True, s\<lparr>model := (model s)\<lparr>model_in := ms\<rparr>, in_done := in_done s + 1\<rparr>) \<and>
    map length ms = map length (model_in (model s))"
proof -
  note D = data_okD [OF assms(1)]
  have k: "nat (in_done s) < length (data_buffers_in D)" using assms(3,4) D(1) by simp
  obtain r buf where "mlif_process_input (data_buffers_in D ! nat (in_done s)) (data_size_in D ! nat (in_done s))
      (model_in (model s) ! i) = Some (r, buf)" "length buf = length (model_in (model s) ! i)"
    using mlif_process_input_total [OF D(7) [OF k]] by blast
  then show ?thesis using assms(2-) k D(1,2,5)
    by (auto simp: mlif_request_input_def map_update list_update_same_conv intro!: exI [of _ "(model_in (model s))[i := buf]"])
qed

lemma handle_result_total:
  assumes "data_ok D" "i < length (model_out (model s))" "0 \<le> out_done s" "out_done s + 1 < 2 ^ 31"
  shows "\<exists>out k. mlif_handle_result D i s = Some (out, s\<lparr>out_done := k\<rparr>) \<and> out_done s \<le> k \<and> k \<le> out_done s + 1"
proof (cases "num_data_buffers_out D = 0")
  case True
  then show ?thesis by (auto simp: mlif_handle_result_def intro!: exI [of _ "out_done s"])
next
  case False
  note D = data_okD [OF assms(1)]
  show ?thesis
  proof (cases "out_done s < num_data_buffers_out D")
    case True
    then have k: "nat (out_done s) < length (data_buffers_out D)" using assms(3) D(3) by simp
    obtain out where "mlif_process_output (model_out (model s) ! i) (data_buffers_out D ! nat (out_done s))
        (data_size_out D ! nat (out_done s)) = Some out"
      using mlif_process_output_total [OF D(8) [OF k]] by blast
    then show ?thesis using False True assms(2-) k D(6)
      by (cases out)
        (auto simp: mlif_handle_result_def intro!: exI [of _ "case out of Returned r \<Rightarrow> out_done s + 1 | Exited c \<Rightarrow> out_done s"])
  next
    case no: False
    then show ?thesis using False assms(3,4)
      by (auto simp: mlif_handle_result_def intro!: exI [of _ "out_done s + 1"])
  qed
qed

lemma handle_results_total:
  assumes "data_ok D" "i + n \<le> length (model_out (model s))" "0 \<le> out_done s" "out_done s + int n < 2 ^ 31"
  shows "\<exists>out k. handle_results D n i s = Some (out, s\<lparr>out_done := k\<rparr>) \<and> out_done s \<le> k \<and> k \<le> out_done s + int n"
  using assms(2-)
proof (induction n arbitrary: i s)
  case 0
  then show ?case by (auto intro!: exI [of _ "out_done s"])
next
  case (Suc n)
  obtain out k where k: "mlif_handle_result D i s = Some (out, s\<lparr>out_done := k\<rparr>)" "out_done s \<le> k" "k \<le> out_done s + 1"
    using handle_result_total [OF assms(1), of i s] Suc.prems by auto
  obtain out' k' where "handle_results D n (Suc i) (s\<lparr>out_done := k\<rparr>) = Some (out', s\<lparr>out_done := k'\<rparr>)"
      "k \<le> k'" "k' \<le> k + int n"
    using Suc.IH [of "Suc i" "s\<lparr>out_done := k\<rparr>"] Suc.prems k(2,3) by auto
  then show ?case using k by (cases "out = Returned 0") fastforce+
qed

section \<open>The check ends\<close>

lemma check_loop_ends:
  assumes "data_ok D" "keeps_buffers run" "i < length (model_in (model s))"
    and "0 \<le> in_done s" "in_done s \<le> num_data_buffers_in D" "0 \<le> out_done s"
    and "out_done s + (num_data_buffers_in D - in_done s) * int (length (model_out (model s))) < 2 ^ 31"
  shows "\<exists>out s'. check_loop run D i s = Some (out, s')"
  using assms(3-)
proof (induction "nat (num_data_buffers_in D - in_done s)" arbitrary: i s)
  case 0
  then show ?case by (subst check_loop.simps) (simp add: mlif_request_input_def)
next
  case (Suc n)
  let ?left = "num_data_buffers_in D - (in_done s + 1)" and ?o = "int (length (model_out (model s)))"
  from Suc have less: "in_done s < num_data_buffers_in D" by simp
  obtain r bs where req: "mlif_request_input D i s =
        Some (r, True, s\<lparr>model := (model s)\<lparr>model_in := bs\<rparr>, in_done := in_done s + 1\<rparr>)"
      and bs: "map length bs = map length (model_in (model s))"
    using request_input_total [OF assms(1) Suc.prems(1,2) less] by blast
  let ?s = "s\<lparr>model := (model s)\<lparr>model_in := bs\<rparr>, in_done := in_done s + 1\<rparr>"
  have bs': "length bs = length (model_in (model s))" using bs by (metis length_map)
  have left: "(num_data_buffers_in D - in_done s) * ?o = ?left * ?o + ?o" by (simp add: algebra_simps)
  have "0 \<le> ?left * ?o" using less by simp
  show ?case
  proof (cases "r = 0 \<and> i = length (model_in (model s)) - 1")
    case False
    have "\<exists>out s'. check_loop run D (i + 1) ?s = Some (out, s')" if "i \<noteq> length (model_in (model s)) - 1"
      using Suc.prems less Suc(2) that left by (intro Suc.hyps(1)) (auto simp: bs')
    with False show ?thesis using Suc.prems(1) by (subst check_loop.simps) (auto simp: req bs')
  next
    case last: True
    obtain ret m where m: "run ((model s)\<lparr>model_in := bs\<rparr>) = (ret, m)" by fastforce
    then have len: "length (model_in m) = length (model_in (model s))" "length (model_out m) = length (model_out (model s))"
      using keeps_buffersD [OF assms(2) m] bs' by (simp_all, metis length_map)
    obtain out k where k: "handle_results D (length (model_out m)) 0 (?s\<lparr>model := m\<rparr>) = Some (out, ?s\<lparr>model := m, out_done := k\<rparr>)"
        "out_done s \<le> k" "k \<le> out_done s + ?o"
      using handle_results_total [OF assms(1), of 0 "length (model_out m)" "?s\<lparr>model := m\<rparr>"]
        Suc.prems left \<open>0 \<le> ?left * ?o\<close> by (auto simp: len)
    have "\<exists>out s'. check_loop run D 0 (?s\<lparr>model := m, out_done := k\<rparr>) = Some (out, s')"
      using Suc.prems Suc(2) less k left by (intro Suc.hyps(1)) (auto simp: len)
    moreover have "length (model_in (model s)) = Suc i" "r = 0" using last Suc.prems(1) by auto
    ultimately show ?thesis using m k(1)
      by (subst check_loop.simps) (auto simp: req bs')
  qed
qed

section \<open>What the check reports\<close>

text \<open>The data set of a list of input buffers and a list of expected outputs.\<close>

definition data_of :: "bytes list \<Rightarrow> bytes list \<Rightarrow> data_set" where
  "data_of ins outs =
     \<lparr>num_data_buffers_in = int (length ins), num_data_buffers_out = int (length outs),
      data_buffers_in = ins, data_buffers_out = outs,
      data_size_in = map length ins, data_size_out = map length outs\<rparr>"

text \<open>The inferences on \<open>gs\<close>, the input buffers of each, against the outputs expected: each inference
  sees its inputs, and its outputs are compared with the next of those expected, as far as there
  are any.\<close>

fun verdict :: "('m model \<Rightarrow> s32 \<times> 'm model) \<Rightarrow> bytes list list \<Rightarrow> bytes list \<Rightarrow> 'm model \<Rightarrow> outcome" where
  "verdict run [] outs m = Returned 0"
| "verdict run (g # gs) outs m =
     (case run (m\<lparr>model_in := g\<rparr>) of (r, m') \<Rightarrow>
        if r \<noteq> 0 then Returned r
        else if take (length outs) (model_out m') = take (length (model_out m')) outs
        then verdict run gs (drop (length (model_out m')) outs) m'
        else Exited EXIT_MLIF_MISSMATCH)"

lemma request_input_data_of:
  assumes "k < length ins" "length ins < 2 ^ 31" "i < length (model_in m)" "length (ins ! k) = length (model_in m ! i)"
  shows "mlif_request_input (data_of ins outs) i \<lparr>model = m, in_done = int k, out_done = c\<rparr> =
    Some (0, True, \<lparr>model = m\<lparr>model_in := (model_in m)[i := ins ! k]\<rparr>, in_done = int (Suc k), out_done = c\<rparr>)"
  using assms by (simp add: mlif_request_input_def data_of_def mlif_process_input_def memcpy_def add.commute)

lemma handle_result_data_of:
  assumes "i < length (model_out m)" "0 \<le> c" "c + 1 < 2 ^ 31"
  shows "\<exists>c'. mlif_handle_result (data_of ins outs) i \<lparr>model = m, in_done = k, out_done = c\<rparr> =
      Some (if drop (nat c) outs = [] \<or> drop (nat c) outs ! 0 = model_out m ! i then Returned 0 else Exited EXIT_MLIF_MISSMATCH,
            \<lparr>model = m, in_done = k, out_done = c'\<rparr>) \<and>
    c \<le> c' \<and> c' \<le> c + 1 \<and>
    (drop (nat c) outs = [] \<or> drop (nat c) outs ! 0 = model_out m ! i \<longrightarrow> drop (nat c') outs = drop 1 (drop (nat c) outs))"
proof -
  have "nat (c + 1) = Suc (nat c)" using assms(2) by simp
  then show ?thesis using assms
    by (auto simp: mlif_handle_result_def data_of_def mlif_process_output_def memcmp_eq_def nat_less_iff
        intro!: exI [of _ "if outs = [] \<or> nat c < length outs \<and> outs ! nat c \<noteq> model_out m ! i then c else c + 1"])
qed

lemma handle_results_data_of:
  assumes "i + n = length (model_out m)" "0 \<le> c" "c + int n < 2 ^ 31"
  shows "\<exists>c'. handle_results (data_of ins outs) n i \<lparr>model = m, in_done = k, out_done = c\<rparr> =
      Some (if take (length (drop (nat c) outs)) (drop i (model_out m)) = take n (drop (nat c) outs)
              then Returned 0 else Exited EXIT_MLIF_MISSMATCH,
            \<lparr>model = m, in_done = k, out_done = c'\<rparr>) \<and>
    c \<le> c' \<and> c' \<le> c + int n \<and>
    (take (length (drop (nat c) outs)) (drop i (model_out m)) = take n (drop (nat c) outs) \<longrightarrow>
       drop (nat c') outs = drop n (drop (nat c) outs))"
  using assms
proof (induction n arbitrary: i c)
  case 0
  then show ?case by (auto intro!: exI [of _ c])
next
  case (Suc n)
  let ?R = "drop (nat c) outs" and ?o = "model_out m"
  have i: "i < length ?o" and o: "drop i ?o = ?o ! i # drop (Suc i) ?o"
    using Suc.prems(1) by (simp_all add: Cons_nth_drop_Suc)
  obtain c1 where c1: "mlif_handle_result (data_of ins outs) i \<lparr>model = m, in_done = k, out_done = c\<rparr> =
      Some (if ?R = [] \<or> ?R ! 0 = ?o ! i then Returned 0 else Exited EXIT_MLIF_MISSMATCH,
            \<lparr>model = m, in_done = k, out_done = c1\<rparr>)" "c \<le> c1" "c1 \<le> c + 1"
    "?R = [] \<or> ?R ! 0 = ?o ! i \<Longrightarrow> drop (nat c1) outs = drop 1 ?R"
    using handle_result_data_of [OF i, of c ins outs k] Suc.prems by auto
  show ?case
  proof (cases "?R = [] \<or> ?R ! 0 = ?o ! i")
    case False
    then obtain r R where "?R = r # R" "r \<noteq> ?o ! i" by (cases ?R) auto
    then show ?thesis using c1(1-3) by (auto simp: o)
  next
    case True
    have R: "drop (nat c1) outs = drop 1 ?R" by (rule c1(4) [OF True])
    obtain c2 where c2: "handle_results (data_of ins outs) n (Suc i) \<lparr>model = m, in_done = k, out_done = c1\<rparr> =
        Some (if take (length (drop 1 ?R)) (drop (Suc i) ?o) = take n (drop 1 ?R)
              then Returned 0 else Exited EXIT_MLIF_MISSMATCH, \<lparr>model = m, in_done = k, out_done = c2\<rparr>)"
        "c1 \<le> c2" "c2 \<le> c1 + int n"
        "take (length (drop 1 ?R)) (drop (Suc i) ?o) = take n (drop 1 ?R) \<Longrightarrow> drop (nat c2) outs = drop n (drop 1 ?R)"
      using Suc.IH [of "Suc i" c1] Suc.prems c1(2,3) unfolding R by auto
    have same: "(take (length ?R) (drop i ?o) = take (Suc n) ?R) =
        (take (length (drop 1 ?R)) (drop (Suc i) ?o) = take n (drop 1 ?R))"
      using True by (cases ?R) (auto simp: o)
    have "drop n (drop 1 ?R) = drop (Suc n) ?R" by simp
    then show ?thesis using c1(1-3) c2 True unfolding same by (auto intro!: exI [of _ c2])
  qed
qed

text \<open>The step for the last input of an inference, and for the others.\<close>

lemma check_loop_last:
  assumes "i < length (model_in (model s))" "mlif_request_input D i s = Some (0, True, s')"
    "length (model_in (model s')) = Suc i"
  shows "check_loop run D i s =
    (case run (model s') of (ret, m) \<Rightarrow>
       if ret \<noteq> 0 then Some (Returned ret, s'\<lparr>model := m\<rparr>)
       else do {
         (out, s) \<leftarrow> handle_results D (length (model_out m)) 0 (s'\<lparr>model := m\<rparr>);
         if out = Returned 0 then check_loop run D 0 s else Some (out, s) })"
  using assms by (subst check_loop.simps) simp

lemma check_loop_next:
  assumes "i < length (model_in (model s))" "mlif_request_input D i s = Some (0, True, s')"
    "Suc i < length (model_in (model s'))"
  shows "check_loop run D i s = check_loop run D (Suc i) s'"
proof -
  have "i \<noteq> length (model_in (model s')) - 1" using assms(3) by simp
  then show ?thesis using assms(1,2) by (subst check_loop.simps) simp
qed

text \<open>Filling in the inputs of one inference and running it.\<close>

lemma check_loop_fill:
  assumes "ins = pre @ g @ post" "length ins < 2 ^ 31" "map length g = map length (model_in m)"
    and "i < length g" "k = length pre + i"
  shows "check_loop run (data_of ins outs) i
      \<lparr>model = m\<lparr>model_in := take i g @ drop i (model_in m)\<rparr>, in_done = int k, out_done = c\<rparr> =
    (case run (m\<lparr>model_in := g\<rparr>) of (ret, m') \<Rightarrow>
       if ret \<noteq> 0 then Some (Returned ret, \<lparr>model = m', in_done = int (length pre + length g), out_done = c\<rparr>)
       else do {
         (out, s) \<leftarrow> handle_results (data_of ins outs) (length (model_out m')) 0
                       \<lparr>model = m', in_done = int (length pre + length g), out_done = c\<rparr>;
         if out = Returned 0 then check_loop run (data_of ins outs) 0 s else Some (out, s) })"
  using assms(4,5)
proof (induction "length g - Suc i" arbitrary: i k)
  case (0 i k)
  note len = arg_cong [OF assms(3), of length, simplified]
  have k: "ins ! k = g ! i" "k < length ins" using assms(1) 0 by (auto simp: nth_append)
  have "length (g ! i) = length (model_in m ! i)" using 0 assms(3) len by (metis nth_map)
  then have upd: "(take i g @ drop i (model_in m))[i := g ! i] = g" and last: "Suc i = length g"
    using 0 len by (auto intro!: nth_equalityI simp: nth_list_update nth_append)
  have req: "mlif_request_input (data_of ins outs) i
      \<lparr>model = m\<lparr>model_in := take i g @ drop i (model_in m)\<rparr>, in_done = int k, out_done = c\<rparr> =
    Some (0, True, \<lparr>model = m\<lparr>model_in := g\<rparr>, in_done = int (Suc k), out_done = c\<rparr>)"
    using request_input_data_of [OF k(2) assms(2), of i "m\<lparr>model_in := take i g @ drop i (model_in m)\<rparr>" outs c]
      \<open>length (g ! i) = length (model_in m ! i)\<close> last len k(1) upd by (simp add: nth_append)
  have e: "length pre + length g = Suc k" and g: "length g = Suc i" and l: "length (model_in m) = Suc i"
    using 0 last len by simp_all
  show ?case unfolding e
    by (subst check_loop_last [OF _ req]) (simp_all add: l g del: of_nat_Suc split: prod.split)
next
  case (Suc n i k)
  note len = arg_cong [OF assms(3), of length, simplified]
  have k: "ins ! k = g ! i" "k < length ins" using assms(1) Suc.prems by (auto simp: nth_append)
  have l: "length (g ! i) = length (model_in m ! i)" using Suc.prems assms(3) len by (metis nth_map)
  have upd: "(take i g @ drop i (model_in m))[i := g ! i] = take (Suc i) g @ drop (Suc i) (model_in m)"
    using Suc.prems len by (auto intro!: nth_equalityI simp: nth_list_update nth_append)
  have req: "mlif_request_input (data_of ins outs) i
      \<lparr>model = m\<lparr>model_in := take i g @ drop i (model_in m)\<rparr>, in_done = int k, out_done = c\<rparr> =
    Some (0, True, \<lparr>model = m\<lparr>model_in := take (Suc i) g @ drop (Suc i) (model_in m)\<rparr>, in_done = int (Suc k), out_done = c\<rparr>)"
    using request_input_data_of [OF k(2) assms(2), of i "m\<lparr>model_in := take i g @ drop i (model_in m)\<rparr>" outs c]
      l len k(1) upd Suc.prems Suc.hyps(2) by (simp add: nth_append)
  have "Suc i < length g" using Suc.hyps(2) by simp
  moreover have "n = length g - Suc (Suc i)" "Suc k = length pre + Suc i" using Suc.hyps(2) Suc.prems by simp_all
  moreover note IH = Suc.hyps(1)
  ultimately show ?case
    by (subst check_loop_next [OF _ req]) (simp_all only: len IH, simp_all add: len)
qed

lemma check_loop_verdict:
  assumes "keeps_buffers run" "length ins < 2 ^ 31" "ins = pre @ concat gs @ rest"
    and "\<forall>g\<in>set gs. map length g = map length (model_in m)" "model_in m \<noteq> []"
    and "0 \<le> c" "c + int (length gs * length (model_out m)) < 2 ^ 31"
    and "map length rest = take (length rest) (map length (model_in m))" "length rest < length (model_in m)"
  shows "\<exists>s. check_loop run (data_of ins outs) 0 \<lparr>model = m, in_done = int (length pre), out_done = c\<rparr> =
    Some (verdict run gs (drop (nat c) outs) m, s)"
  using assms(3-)
proof (induction gs arbitrary: pre m c)
  case Nil
  have "\<exists>s. check_loop run (data_of ins outs) i \<lparr>model = m', in_done = int k, out_done = c\<rparr> = Some (Returned 0, s)"
    if "i + j = length rest" "k = length pre + i" "map length (model_in m') = map length (model_in m)" for i j k m'
    using that
  proof (induction j arbitrary: i k m')
    case 0
    have "i < length (model_in m')" using 0 Nil.prems(7) by (metis add_0_right length_map)
    moreover have "int k = num_data_buffers_in (data_of ins outs)" using 0 Nil.prems(1) by (simp add: data_of_def)
    ultimately show ?case by (subst check_loop.simps) (simp add: mlif_request_input_def)
  next
    case (Suc j)
    have len: "length (model_in m') = length (model_in m)" using Suc.prems(3) by (metis length_map)
    have i: "i < length rest" "Suc i < length (model_in m')" using Suc.prems(1) Nil.prems(7) len by simp_all
    have k: "k < length ins" "ins ! k = rest ! i" using Suc.prems i Nil.prems(1) by (simp_all add: nth_append)
    have "map length rest ! i = map length (model_in m') ! i"
      using i(1) unfolding Nil.prems(6) Suc.prems(3) by simp
    then have l: "length (rest ! i) = length (model_in m' ! i)" using i by simp
    have "map length ((model_in m')[i := rest ! i]) = map length (model_in m)"
      using i l unfolding Suc.prems(3) [symmetric] by (simp add: map_update list_update_same_conv)
    then have "\<exists>s. check_loop run (data_of ins outs) (Suc i)
        \<lparr>model = m'\<lparr>model_in := (model_in m')[i := rest ! i]\<rparr>, in_done = int (Suc k), out_done = c\<rparr> = Some (Returned 0, s)"
      using Suc.prems(1,2) by (intro Suc.IH) auto
    then show ?case
      using check_loop_next [OF _ request_input_data_of [OF k(1) assms(2), of i m' outs c]] i l k(2) by simp
  qed
  from this [of 0 "length rest" "length pre" m] show ?case by simp
next
  case (Cons g gs)
  note g = Cons.prems(2) [THEN bspec, of g, simplified]
  have "0 < length g" using Cons.prems(3) g by (metis length_0_conv length_greater_0_conv length_map)
  obtain r m' where run: "run (m\<lparr>model_in := g\<rparr>) = (r, m')" by fastforce
  then have m': "map length (model_in m') = map length (model_in m)" "length (model_out m') = length (model_out m)"
    using keeps_buffersD [OF assms(1) run] g by simp_all
  let ?n = "length (model_out m')" and ?R = "drop (nat c) outs"
  have "int (length (g # gs) * ?n) = int ?n + int (length gs * ?n)" "0 \<le> int (length gs * ?n)"
    by (simp only: list.size of_nat_add [symmetric]) simp_all
  then have bound: "c + int ?n < 2 ^ 31" "c + int ?n + int (length gs * ?n) < 2 ^ 31"
    using Cons.prems(5) unfolding m'(2) by linarith+
  obtain c' where c': "handle_results (data_of ins outs) ?n 0 \<lparr>model = m', in_done = int (length pre + length g), out_done = c\<rparr> =
      Some (if take (length ?R) (model_out m') = take ?n ?R then Returned 0 else Exited EXIT_MLIF_MISSMATCH,
            \<lparr>model = m', in_done = int (length pre + length g), out_done = c'\<rparr>)"
      "c \<le> c'" "c' \<le> c + int ?n"
      "take (length ?R) (model_out m') = take ?n ?R \<Longrightarrow> drop (nat c') outs = drop ?n ?R"
    using handle_results_data_of [of 0 ?n m' c ins outs "int (length pre + length g)", OF _ Cons.prems(4) bound(1)]
    by auto
  have fill: "check_loop run (data_of ins outs) 0 \<lparr>model = m, in_done = int (length pre), out_done = c\<rparr> =
    (if r \<noteq> 0 then Some (Returned r, \<lparr>model = m', in_done = int (length pre + length g), out_done = c\<rparr>)
     else if take (length ?R) (model_out m') = take ?n ?R
       then check_loop run (data_of ins outs) 0 \<lparr>model = m', in_done = int (length pre + length g), out_done = c'\<rparr>
     else Some (Exited EXIT_MLIF_MISSMATCH, \<lparr>model = m', in_done = int (length pre + length g), out_done = c'\<rparr>))"
    using check_loop_fill [OF _ assms(2) g \<open>0 < length g\<close>, where pre = pre and post = "concat gs @ rest" and c = c]
      Cons.prems(1) run c'(1) by simp
  have "model_in m' \<noteq> []" "length rest < length (model_in m')"
    using m'(1) Cons.prems(3,7) by (auto dest: map_eq_imp_length_eq)
  then have "\<exists>s. check_loop run (data_of ins outs) 0 \<lparr>model = m', in_done = int (length (pre @ g)), out_done = c'\<rparr> =
      Some (verdict run gs (drop (nat c') outs) m', s)"
    using Cons.prems c'(2,3) m' bound(2) by (intro Cons.IH) auto
  then show ?case using c'(4) run by (auto simp: fill)
qed

text \<open>The program up to the check.\<close>

lemma run_loop_rounds:
  "run_loop run n m = (r, m') \<Longrightarrow> keeps_buffers run \<Longrightarrow>
     map length (model_in m') = map length (model_in m) \<and> length (model_out m') = length (model_out m)"
proof (induction n arbitrary: m)
  case (Suc n)
  obtain r1 m1 where m1: "run m = (r1, m1)" by fastforce
  show ?case
    using Suc.IH [of m1] Suc.prems keeps_buffersD [OF Suc.prems(2) m1] by (auto simp: m1 split: if_splits)
qed simp

text \<open>What a program of the first version reports when initialisation and the timed runs succeed.\<close>

lemma tvm_steps:
  assumes "init m0 = (0, m1)" "run_loop run n m1 = (0, m)" "keeps_buffers run" "length ins < 2 ^ 31"
    and "ins = concat gs @ rest" "\<forall>g\<in>set gs. map length g = map length (model_in m1)" "model_in m1 \<noteq> []"
    and "int (length gs * length (model_out m1)) < 2 ^ 31"
    and "map length rest = take (length rest) (map length (model_in m1))" "length rest < length (model_in m1)"
  shows "\<exists>s. steps (the_steps False (tvm_program init run n (data_of ins outs)))
      \<lparr>model = m0, in_done = 0, out_done = 0\<rparr> = Some (verdict run gs outs m, s)"
proof -
  have m: "map length (model_in m) = map length (model_in m1)" "length (model_out m) = length (model_out m1)"
    using run_loop_rounds [OF assms(2,3)] by simp_all
  then have "model_in m \<noteq> []" "length (model_in m) = length (model_in m1)"
    using assms(7) by (auto dest: map_eq_imp_length_eq)
  then obtain s where "check_loop run (data_of ins outs) 0 \<lparr>model = m, in_done = 0, out_done = 0\<rparr> =
      Some (verdict run gs outs m, s)"
    using check_loop_verdict [OF assms(3,4), of "[]" gs rest m 0 outs] assms(5-) m by auto
  then show ?thesis using assms(1,2)
    by (simp add: the_steps_def tvm_program_def on_model_def)
qed

section \<open>Properties\<close>

text \<open>C19: \<open>mlonmcu_check\<close> ends for every data set whose buffers are as long as it says, whatever their
  sizes are: it asks for one more input in every round, and stops at the first that does not fit,
  at an inference that fails, at a wrong output, or behind the last input. The counter of the
  outputs must fit \<open>int\<close>.\<close>

theorem check_terminates:
  assumes "data_ok D" "keeps_buffers run" "model_in (model s) \<noteq> []"
    and "in_done s = 0" "out_done s = 0"
    and "num_data_buffers_in D * int (length (model_out (model s))) < 2 ^ 31"
  shows "\<exists>out s'. check_loop run D 0 s = Some (out, s')"
  using assms by (intro check_loop_ends) (auto simp: data_okD)

text \<open>C20: The program for TVM reports the truth about the model: when initialisation and the timed runs
  succeed, \<open>main\<close> ends with status 0 if every complete inference on the inputs compiled in produces
  exactly the outputs expected, with the status of the first inference that fails, and with
  \<open>EXIT_MLIF_MISSMATCH\<close> at the first wrong output; inputs that are left over start no inference.\<close>

theorem tvm_main_verdict:
  assumes "bench_ok ms b"
    and "init m0 = (0, m1)" "run_loop run n m1 = (0, m)" "keeps_buffers run" "length ins < 2 ^ 31"
    and "ins = concat gs @ rest" "\<forall>g\<in>set gs. map length g = map length (model_in m1)" "model_in m1 \<noteq> []"
    and "int (length gs * length (model_out m1)) < 2 ^ 31"
    and "map length rest = take (length rest) (map length (model_in m1))" "length rest < length (model_in m1)"
  shows "\<exists>s b'. main_program False tgt clk ms (tvm_program init run n (data_of ins outs))
      \<lparr>model = m0, in_done = 0, out_done = 0\<rparr> b = Some (final_ending tgt (verdict run gs outs m), s, b')"
proof -
  obtain s where "steps (the_steps False (tvm_program init run n (data_of ins outs)))
      \<lparr>model = m0, in_done = 0, out_done = 0\<rparr> = Some (verdict run gs outs m, s)"
    using tvm_steps [of init m0 m1 run n m ins gs rest outs, OF assms(2-)] by blast
  from main_by_steps [OF assms(1) this, of tgt clk] show ?thesis by blast
qed

text \<open>A model with one input and one output of a byte that adds one, two inferences on it, the second
  with a wrong expected output; and an input of the wrong size.\<close>

definition sample_run :: "unit model \<Rightarrow> s32 \<times> unit model" where
  "sample_run m = (0, m\<lparr>model_out := map (map (\<lambda>x. hd (concat (model_in m)) + 1)) (model_out m)\<rparr>)"

definition sample_model :: "unit model" where
  "sample_model = \<lparr>model_in = [[0]], model_out = [[0]], inner = ()\<rparr>"

lemma keeps_buffers_sample: "keeps_buffers sample_run"
  by (auto simp: keeps_buffers_def sample_run_def)

theorem check_terminates_witness:
  "\<exists>out s'. check_loop sample_run (data_of [[1], [2, 3], [4]] [[2]]) 0 \<lparr>model = sample_model, in_done = 0, out_done = 0\<rparr> =
    Some (out, s')"
  by (rule check_terminates)
    (auto simp: data_of_def data_ok_def keeps_buffers_sample sample_model_def)

theorem tvm_main_verdict_witness:
  "\<exists>s b'. main_program False OTHER_TARGET (\<lambda>k n. 0) [0]
      (tvm_program (\<lambda>m. (0, m)) sample_run 1 (data_of [[1], [2]] [[2], [4]]))
      \<lparr>model = sample_model, in_done = 0, out_done = 0\<rparr> \<lparr>temp = [[0, 0, 0, 0]], reads = 0, printed = []\<rparr> =
    Some (EXIT EXIT_MLIF_MISSMATCH, s, b')"
proof -
  let ?m = "\<lparr>model_in = [[0]], model_out = [[1]], inner = ()\<rparr> :: unit model"
  have run: "run_loop sample_run 1 sample_model = (0, ?m)"
    by (simp add: sample_run_def sample_model_def)
  have "verdict sample_run [[[1]], [[2]]] [[2], [4]] ?m = Exited EXIT_MLIF_MISSMATCH"
    by (simp add: sample_run_def)
  moreover have "\<exists>s b'. main_program False OTHER_TARGET (\<lambda>k n. 0) [0]
      (tvm_program (\<lambda>m. (0, m)) sample_run 1 (data_of [[1], [2]] [[2], [4]]))
      \<lparr>model = sample_model, in_done = 0, out_done = 0\<rparr> \<lparr>temp = [[0, 0, 0, 0]], reads = 0, printed = []\<rparr> =
    Some (final_ending OTHER_TARGET (verdict sample_run [[[1]], [[2]]] [[2], [4]] ?m), s, b')"
    using keeps_buffers_sample run
    by (intro tvm_main_verdict [where rest = "[]" and ?m1.0 = sample_model]) (simp_all add: bench_ok_def sample_model_def)
  ultimately show ?thesis by (simp add: final_ending_def)
qed

section \<open>Departures\<close>

text \<open>The program for emx reports success although every inference fails, and runs twice as often.\<close>

lemma emx_run_ignores_failure: "fst (emx_run_loop model_invoke n m) = 0"
  by (induction n arbitrary: m) simp_all

lemma emx_runs_twice: "snd (emx_run_loop model_invoke n m) = ((snd \<circ> model_invoke) ^^ (2 * n)) m"
  by (induction n arbitrary: m) (simp_all add: funpow_swap1)

text \<open>With the default \<open>BATCH_SIZE\<close> the check of the second version does nothing.\<close>

lemma v2_default_check: "mlonmcu_check (v2_program mlif_init mlif_invoke n 0) s = Some (Returned 0, s)"
  by (simp add: v2_program_def on_model_def)

end
