(* ===== verification/FreeList.thy ===== *)
theory FreeList
  imports Prelude
begin

text \<open>
  The abstract free list of the allocators in \<open>src/cmake/targets/gvsoc/libc/malloc\<close>: a list of
  free chunks \<open>(address, size)\<close> in address order, none touching the next. First-fit allocation
  from the end of a chunk and freeing with coalescing are given here on the list; the theories of
  the two allocators show that the code implements them on its linked list. The lemmas say what the
  two operations do to the set of free bytes and that a free list is determined by this set.
\<close>

section \<open>Chunks\<close>

type_synonym chunk = "u32 \<times> u32"

definition cstart :: "chunk \<Rightarrow> nat" where "cstart c = unat (fst c)"
definition csize :: "chunk \<Rightarrow> nat" where "csize c = unat (snd c)"
definition cend :: "chunk \<Rightarrow> nat" where "cend c = cstart c + csize c"

definition chunk_bytes :: "chunk \<Rightarrow> nat set" where
  "chunk_bytes c = {cstart c..<cend c}"

definition free_bytes :: "chunk list \<Rightarrow> nat set" where
  "free_bytes cs = (\<Union>c \<in> set cs. chunk_bytes c)"

text \<open>A chunk that may stand in the list: aligned, not empty, and inside the address space, with a
  size that is a positive \<open>int32_t\<close>.\<close>

definition chunk_ok :: "chunk \<Rightarrow> bool" where
  "chunk_ok c \<longleftrightarrow> 0 < cstart c \<and> 0 < csize c \<and> 8 dvd cstart c \<and> 8 dvd csize c \<and>
     csize c < 2 ^ 31 \<and> cend c < 2 ^ 32"

fun gaps :: "chunk list \<Rightarrow> bool" where
  "gaps (c # d # cs) \<longleftrightarrow> cend c < cstart d \<and> gaps (d # cs)"
| "gaps _ \<longleftrightarrow> True"

definition free_ok :: "chunk list \<Rightarrow> bool" where
  "free_ok cs \<longleftrightarrow> (\<forall>c \<in> set cs. chunk_ok c) \<and> gaps cs"

lemma free_ok_Nil [simp]: "free_ok []"
  by (simp add: free_ok_def)

lemma free_bytes_simps [simp]:
  "free_bytes [] = {}" "free_bytes (c # cs) = chunk_bytes c \<union> free_bytes cs"
  "free_bytes (bs @ cs) = free_bytes bs \<union> free_bytes cs"
  by (auto simp: free_bytes_def)

lemma gaps_Cons_less:
  "gaps (c # cs) \<Longrightarrow> \<forall>d \<in> set (c # cs). chunk_ok d \<Longrightarrow> \<forall>d \<in> set cs. cend c < cstart d"
proof (induction cs arbitrary: c)
  case (Cons d cs)
  then have "\<forall>e \<in> set cs. cend d < cstart e" "cend c < cstart d" "chunk_ok d" by auto
  then show ?case by (auto simp: chunk_ok_def cend_def)
qed simp

lemma free_ok_Cons:
  "free_ok (c # cs) \<longleftrightarrow> chunk_ok c \<and> free_ok cs \<and> (\<forall>d \<in> set cs. cend c < cstart d)"
proof
  assume "free_ok (c # cs)"
  then show "chunk_ok c \<and> free_ok cs \<and> (\<forall>d \<in> set cs. cend c < cstart d)"
    using gaps_Cons_less [of c cs] by (cases cs) (auto simp: free_ok_def)
next
  assume "chunk_ok c \<and> free_ok cs \<and> (\<forall>d \<in> set cs. cend c < cstart d)"
  then show "free_ok (c # cs)" by (cases cs) (auto simp: free_ok_def)
qed

lemma free_ok_append:
  "free_ok (bs @ cs) \<longleftrightarrow> free_ok bs \<and> free_ok cs \<and> (\<forall>b \<in> set bs. \<forall>c \<in> set cs. cend b < cstart c)"
  by (induction bs) (auto simp: free_ok_Cons)

lemma chunk_bytes_nonempty: "chunk_ok c \<Longrightarrow> cstart c \<in> chunk_bytes c"
  by (simp add: chunk_bytes_def chunk_ok_def cend_def)

lemma free_ok_disjoint:
  "free_ok (c # cs) \<Longrightarrow> chunk_bytes c \<inter> free_bytes cs = {}"
  by (fastforce simp: free_ok_Cons chunk_bytes_def free_bytes_def)

text \<open>Within an aligned chunk, an address of the list and its second word never meet another.\<close>

lemma aligned_ne_4: "8 dvd unat (a :: u32) \<Longrightarrow> 8 dvd unat b \<Longrightarrow> a \<noteq> b + 4"
proof
  assume d: "8 dvd unat a" "8 dvd unat b" and eq: "a = b + 4"
  from d(2) obtain k where k: "unat b = 8 * k" by (auto elim: dvdE)
  moreover have "unat b < 2 ^ 32" using unsigned_less [of b] by simp
  ultimately have "unat (b + 4) = 8 * k + 4" by (simp add: unat_word_ariths)
  with d(1) eq have "8 dvd 8 * k + 4" by simp
  then have "(8 :: nat) dvd 4" by (simp add: dvd_add_right_iff)
  then show False by simp
qed

section \<open>A free list is determined by its bytes\<close>

lemma free_bytes_bound: "free_ok cs \<Longrightarrow> x \<in> free_bytes cs \<Longrightarrow> 0 < x \<and> x < 2 ^ 32"
  by (fastforce simp: free_ok_def free_bytes_def chunk_bytes_def chunk_ok_def)

lemma free_bytes_eq_Nil: "free_ok cs \<Longrightarrow> free_bytes cs = {} \<longleftrightarrow> cs = []"
  using chunk_bytes_nonempty by (cases cs) (auto simp: free_ok_Cons)

lemma first_chunk:
  assumes "free_ok (c # cs)"
  shows "Least (\<lambda>x. x \<in> free_bytes (c # cs)) = cstart c"
    and "Least (\<lambda>x. cstart c \<le> x \<and> x \<notin> free_bytes (c # cs)) = cend c"
proof -
  have ok: "chunk_ok c" "\<forall>d \<in> set cs. cend c < cstart d" using assms by (auto simp: free_ok_Cons)
  then have rest: "x \<in> free_bytes cs \<Longrightarrow> cend c < x" for x
    by (fastforce simp: free_bytes_def chunk_bytes_def)
  show "Least (\<lambda>x. x \<in> free_bytes (c # cs)) = cstart c"
    using ok(1) rest by (intro Least_equality) (auto simp: chunk_bytes_def chunk_ok_def cend_def dest: rest)
  show "Least (\<lambda>x. cstart c \<le> x \<and> x \<notin> free_bytes (c # cs)) = cend c"
    using ok(1) rest [of "cend c"]
    by (intro Least_equality) (auto simp: chunk_bytes_def cend_def not_less)
qed

lemma chunk_eqI: "cstart c = cstart d \<Longrightarrow> cend c = cend d \<Longrightarrow> c = d"
  by (cases c; cases d) (simp add: cstart_def cend_def csize_def word_unat_eq_iff)

lemma free_list_unique:
  "free_ok cs \<Longrightarrow> free_ok ds \<Longrightarrow> free_bytes cs = free_bytes ds \<Longrightarrow> cs = ds"
proof (induction cs arbitrary: ds)
  case Nil
  then show ?case using free_bytes_eq_Nil by fastforce
next
  case (Cons c cs)
  then obtain d ds' where ds: "ds = d # ds'"
    using free_bytes_eq_Nil [of ds] free_bytes_eq_Nil [of "c # cs"] by (cases ds) auto
  have "cstart c = cstart d" "cend c = cend d"
    using first_chunk [OF Cons.prems(1)] first_chunk [OF Cons.prems(2) [unfolded ds]]
      Cons.prems(3) [unfolded ds] by (metis, metis)
  then have "c = d" by (rule chunk_eqI)
  have "free_bytes cs = free_bytes ds'"
    using Cons.prems(3) free_ok_disjoint [OF Cons.prems(1)] free_ok_disjoint [OF Cons.prems(2) [unfolded ds]]
    unfolding ds \<open>c = d\<close> by auto
  moreover have "free_ok cs" "free_ok ds'" using Cons.prems(1,2) ds by (auto simp: free_ok_Cons)
  ultimately have "cs = ds'" by (intro Cons.IH)
  with ds \<open>c = d\<close> show ?case by simp
qed

section \<open>First fit from the end of a chunk\<close>

definition alloc :: "u32 \<Rightarrow> chunk list \<Rightarrow> u32 \<times> chunk list" where
  "alloc sz cs =
     (let bs = takeWhile (\<lambda>c. csize c < unat sz) cs in
      case dropWhile (\<lambda>c. csize c < unat sz) cs of
        [] \<Rightarrow> (0, cs)
      | d # ds \<Rightarrow> if snd d = sz then (fst d, bs @ ds)
                 else (fst d + snd d - sz, bs @ (fst d, snd d - sz) # ds))"

text \<open>The block an allocation returns: it is cut from one chunk, and the rest is again a free list.\<close>

lemma split_fit:
  assumes "dropWhile P cs = d # ds"
  shows "cs = takeWhile P cs @ d # ds" and "\<not> P d"
  using assms takeWhile_dropWhile_id [of P cs] hd_dropWhile [of P cs] by auto

lemma unat_cut:
  assumes "chunk_ok d" "unat sz \<le> csize d"
  shows "unat (fst d + snd d - sz) = cend d - unat sz" and "unat (snd d - sz) = csize d - unat sz"
proof -
  have "unat (fst d + snd d) = cend d"
    using assms(1) by (simp add: chunk_ok_def cend_def cstart_def csize_def unat_word_ariths)
  moreover from this have "sz \<le> fst d + snd d" using assms(2) by (simp add: word_le_nat_alt cend_def)
  ultimately show "unat (fst d + snd d - sz) = cend d - unat sz" by (simp add: unat_sub)
  show "unat (snd d - sz) = csize d - unat sz"
    using assms(2) by (simp add: csize_def unat_sub word_le_nat_alt)
qed

lemma alloc_cases:
  assumes "free_ok cs" "alloc sz cs = (a, cs')" "a \<noteq> 0"
  obtains bs d ds where "cs = bs @ d # ds" "snd d = sz" "a = fst d" "cs' = bs @ ds"
  | bs d ds where "cs = bs @ d # ds" "unat sz < csize d" "a = fst d + snd d - sz"
      "cs' = bs @ (fst d, snd d - sz) # ds"
proof (cases "dropWhile (\<lambda>c. csize c < unat sz) cs")
  case Nil
  with assms show ?thesis by (simp add: alloc_def)
next
  case (Cons d ds)
  note s = split_fit [OF Cons]
  show ?thesis
  proof (cases "snd d = sz")
    case True
    with assms(2) Cons s(1) that(1) show ?thesis by (auto simp: alloc_def Let_def)
  next
    case False
    then have "unat sz < csize d" using s(2) by (simp add: csize_def word_unat_eq_iff)
    with False assms(2) Cons s(1) that(2) show ?thesis by (auto simp: alloc_def Let_def)
  qed
qed

lemma alloc_success:
  assumes ok: "free_ok cs" and sz: "0 < unat sz" "8 dvd unat sz"
    and al: "alloc sz cs = (a, cs')" "a \<noteq> 0"
  shows "chunk_ok (a, sz)" and "free_ok cs'" and "chunk_bytes (a, sz) \<subseteq> free_bytes cs"
    and "free_bytes cs' = free_bytes cs - chunk_bytes (a, sz)"
proof -
  have "chunk_ok (a, sz) \<and> free_ok cs' \<and> chunk_bytes (a, sz) \<subseteq> free_bytes cs
    \<and> free_bytes cs' = free_bytes cs - chunk_bytes (a, sz)"
    using ok al
  proof (cases rule: alloc_cases)
    case (1 bs d ds)
    then have d: "(a, sz) = d" by auto
    have "chunk_bytes d \<inter> free_bytes (bs @ ds) = {}"
      using ok 1(1) by (fastforce simp: free_ok_append free_ok_Cons free_bytes_def chunk_bytes_def)
    with 1 d ok show ?thesis by (auto simp: free_ok_append free_ok_Cons)
  next
    case (2 bs d ds)
    have okd: "chunk_ok d" using ok 2(1) by (auto simp: free_ok_append free_ok_Cons)
    note u = unat_cut [OF okd less_imp_le [OF 2(2)]]
    have ca: "cstart (a, sz) = cend d - unat sz" "csize (a, sz) = unat sz" "cend (a, sz) = cend d"
      using u 2(2) unfolding 2(3) by (simp_all add: cstart_def csize_def cend_def)
    define r where "r = (fst d, snd d - sz)"
    have cr: "cstart r = cstart d" "csize r = csize d - unat sz" "cend r = cend d - unat sz"
      using u 2(2) by (simp_all add: r_def cstart_def csize_def cend_def)
    have oka: "chunk_ok (a, sz)"
      using okd 2(2) sz unfolding chunk_ok_def ca cend_def by (auto intro!: dvd_diff_nat)
    have okr: "chunk_ok r"
      using okd 2(2) sz unfolding chunk_ok_def cr cend_def by (auto intro!: dvd_diff_nat)
    have split: "chunk_bytes d = chunk_bytes r \<union> chunk_bytes (a, sz)" "chunk_bytes r \<inter> chunk_bytes (a, sz) = {}"
      using 2(2) unfolding chunk_bytes_def ca cr cend_def by auto
    have "chunk_bytes d \<inter> free_bytes (bs @ ds) = {}"
      using ok 2(1) by (fastforce simp: free_ok_append free_ok_Cons free_bytes_def chunk_bytes_def)
    moreover have "free_ok cs'"
      using ok okr 2(2) cr unfolding 2(1,4) r_def [symmetric] free_ok_append free_ok_Cons by auto
    ultimately show ?thesis
      using oka split unfolding 2(1,4) r_def [symmetric] by auto
  qed
  then show "chunk_ok (a, sz)" "free_ok cs'" "chunk_bytes (a, sz) \<subseteq> free_bytes cs"
    "free_bytes cs' = free_bytes cs - chunk_bytes (a, sz)" by auto
qed

text \<open>An allocation fails only when no chunk is large enough.\<close>

lemma alloc_fail_iff:
  assumes "free_ok cs" "0 < unat sz"
  shows "fst (alloc sz cs) = 0 \<longleftrightarrow> (\<forall>c \<in> set cs. csize c < unat sz)"
proof
  assume z: "fst (alloc sz cs) = 0"
  show "\<forall>c \<in> set cs. csize c < unat sz"
  proof (cases "dropWhile (\<lambda>c. csize c < unat sz) cs")
    case Nil
    then show ?thesis by (simp add: dropWhile_eq_Nil_conv)
  next
    case (Cons d ds)
    note s = split_fit [OF Cons]
    have d: "chunk_ok d" using s(1) assms(1) free_ok_append free_ok_Cons by metis
    then have "0 < cstart d" by (simp add: chunk_ok_def)
    moreover have "0 < unat (fst d + snd d - sz)"
      using unat_cut(1) [OF d, of sz] d s(2) by (simp add: chunk_ok_def cend_def)
    ultimately show ?thesis
      using z Cons by (auto simp: alloc_def Let_def cstart_def unat_gt_0 split: if_splits)
  qed
next
  assume "\<forall>c \<in> set cs. csize c < unat sz"
  then have "dropWhile (\<lambda>c. csize c < unat sz) cs = []" by (simp add: dropWhile_eq_Nil_conv)
  then show "fst (alloc sz cs) = 0" by (simp only: alloc_def Let_def list.case fst_conv)
qed

lemma alloc_null: "free_ok cs \<Longrightarrow> 0 < unat sz \<Longrightarrow> alloc sz cs = (0, cs') \<Longrightarrow> cs' = cs"
proof -
  assume *: "free_ok cs" "0 < unat sz" "alloc sz cs = (0, cs')"
  then have "\<forall>c \<in> set cs. csize c < unat sz" using alloc_fail_iff by (metis fst_conv)
  then have "dropWhile (\<lambda>c. csize c < unat sz) cs = []" by (simp add: dropWhile_eq_Nil_conv)
  then have "alloc sz cs = (0, cs)" by (simp only: alloc_def Let_def list.case)
  with *(3) show ?thesis by simp
qed

section \<open>Freeing with coalescing\<close>

definition join :: "chunk \<Rightarrow> chunk list \<Rightarrow> chunk list" where
  "join c ds =
     (case ds of [] \<Rightarrow> [c]
      | d # ds' \<Rightarrow> if fst c + snd c = fst d then (fst c, snd c + snd d) # ds' else c # ds)"

definition dealloc :: "chunk \<Rightarrow> chunk list \<Rightarrow> chunk list" where
  "dealloc c cs =
     (let bs = takeWhile (\<lambda>d. fst d < fst c) cs; ds = dropWhile (\<lambda>d. fst d < fst c) cs in
      if bs = [] then join c ds else butlast bs @ join (last bs) (join c ds))"

lemma unat_end: "chunk_ok c \<Longrightarrow> unat (fst c + snd c) = cend c"
  by (simp add: chunk_ok_def cend_def cstart_def csize_def unat_word_ariths)

lemma end_eq_iff: "chunk_ok c \<Longrightarrow> fst c + snd c = fst d \<longleftrightarrow> cend c = cstart d"
  by (simp add: word_unat_eq_iff unat_end cstart_def)

lemma touching_size:
  assumes "chunk_ok c" "chunk_ok d" "cend c = cstart d"
    and "chunk_bytes c \<union> chunk_bytes d \<subseteq> {lo..<hi}" "hi < lo + 2 ^ 31"
  shows "csize c + csize d < 2 ^ 31"
proof -
  have "cstart c \<in> {lo..<hi}" using assms(4) chunk_bytes_nonempty [OF assms(1)] by auto
  moreover have "cend d - 1 \<in> chunk_bytes d"
    using assms(2) by (auto simp: chunk_bytes_def chunk_ok_def cend_def)
  then have "cend d - 1 \<in> {lo..<hi}" using assms(4) by auto
  ultimately have "cend d - cstart c < 2 ^ 31" using assms(5) by auto
  then show ?thesis using assms(3) by (simp add: cend_def)
qed

lemma join_props:
  assumes "chunk_ok c" "free_ok ds" "\<forall>d \<in> set ds. cend c \<le> cstart d"
    and "chunk_bytes c \<union> free_bytes ds \<subseteq> {lo..<hi}" "hi < lo + 2 ^ 31"
  shows "free_ok (join c ds)" and "free_bytes (join c ds) = chunk_bytes c \<union> free_bytes ds"
proof -
  have "free_ok (join c ds) \<and> free_bytes (join c ds) = chunk_bytes c \<union> free_bytes ds"
  proof (cases ds)
    case Nil
    with assms(1) show ?thesis by (simp add: join_def free_ok_Cons)
  next
    case (Cons d ds')
    have okd: "chunk_ok d" "free_ok ds'" "\<forall>e \<in> set ds'. cend d < cstart e"
      using assms(2) unfolding Cons by (auto simp: free_ok_Cons)
    show ?thesis
    proof (cases "cend c = cstart d")
      case False
      then have "cend c < cstart d" using assms(3) Cons by auto
      moreover have "cstart d < cend d" using okd(1) by (simp add: chunk_ok_def cend_def)
      ultimately have "free_ok (c # d # ds')"
        using assms(1) okd by (auto simp: free_ok_Cons)
      with False Cons assms(1) show ?thesis by (simp add: join_def end_eq_iff)
    next
      case True
      define r where "r = (fst c, snd c + snd d)"
      have len: "csize c + csize d < 2 ^ 31"
        using touching_size [OF assms(1) okd(1) True _ assms(5)] assms(4) Cons by auto
      have "unat (snd c + snd d) = csize c + csize d"
        using len by (simp add: unat_word_ariths csize_def)
      then have cr: "cstart r = cstart c" "csize r = csize c + csize d" "cend r = cend d"
        using True by (simp_all add: r_def cstart_def csize_def cend_def)
      have "chunk_ok r"
        using assms(1) okd(1) len unfolding chunk_ok_def cr by (metis add_pos_pos dvd_add)
      moreover have "chunk_bytes r = chunk_bytes c \<union> chunk_bytes d"
        using True unfolding chunk_bytes_def cr cend_def by auto
      moreover have "join c ds = r # ds'"
        using True assms(1) Cons by (simp add: join_def end_eq_iff r_def)
      ultimately show ?thesis using okd cr Cons by (auto simp: free_ok_Cons)
    qed
  qed
  then show "free_ok (join c ds)" "free_bytes (join c ds) = chunk_bytes c \<union> free_bytes ds" by auto
qed

lemma join_starts: "d \<in> set (join c ds) \<Longrightarrow> cstart d = cstart c \<or> (\<exists>e \<in> set ds. cstart d = cstart e)"
  by (auto simp: join_def cstart_def split: list.splits if_splits)

lemma disjoint_order:
  assumes "chunk_ok c" "chunk_ok d" "chunk_bytes c \<inter> chunk_bytes d = {}"
  shows "cstart c < cstart d \<longleftrightarrow> cend c \<le> cstart d"
  using assms chunk_bytes_nonempty [OF assms(1)] chunk_bytes_nonempty [OF assms(2)]
  by (auto simp: chunk_bytes_def chunk_ok_def cend_def)

lemma dealloc_split:
  assumes "free_ok cs" "chunk_ok c" "chunk_bytes c \<inter> free_bytes cs = {}"
  obtains bs ds where "cs = bs @ ds"
    "takeWhile (\<lambda>d. fst d < fst c) cs = bs" "dropWhile (\<lambda>d. fst d < fst c) cs = ds"
    "\<forall>b \<in> set bs. cend b \<le> cstart c" "\<forall>d \<in> set ds. cend c \<le> cstart d"
proof -
  define bs ds where "bs = takeWhile (\<lambda>d. fst d < fst c) cs" and "ds = dropWhile (\<lambda>d. fst d < fst c) cs"
  have cs: "cs = bs @ ds" by (simp add: bs_def ds_def)
  have ok: "chunk_ok d \<and> chunk_bytes c \<inter> chunk_bytes d = {}" if "d \<in> set cs" for d
    using that assms(1,3) by (auto simp: free_ok_def free_bytes_def)
  have bef: "cend b \<le> cstart c" if "b \<in> set bs" for b
    using that disjoint_order [of b c] ok [of b] assms(2) set_takeWhileD [of b _ cs]
    by (auto simp: bs_def word_less_nat_alt cstart_def Int_commute)
  have aft: "cend c \<le> cstart d" if d: "d \<in> set ds" for d
  proof -
    obtain e ds' where e: "ds = e # ds'" using d by (cases ds) auto
    then have "\<not> fst e < fst c" unfolding ds_def by (rule split_fit(2))
    then have "cstart c \<le> cstart e" by (simp add: word_less_nat_alt cstart_def)
    moreover have "cstart e \<le> cstart d"
    proof (cases "d = e")
      case False
      then have "cend e < cstart d"
        using assms(1) d e by (auto simp: cs free_ok_append free_ok_Cons)
      then show ?thesis by (simp add: cend_def)
    qed simp
    moreover have "cstart c \<noteq> cstart d"
      using ok [of d] d chunk_bytes_nonempty [of d] chunk_bytes_nonempty [OF assms(2)] by (auto simp: cs)
    ultimately have "cstart c < cstart d" by simp
    then show ?thesis using disjoint_order [of c d] ok [of d] assms(2) d by (auto simp: cs)
  qed
  show ?thesis using that [OF cs bs_def [symmetric] ds_def [symmetric]] bef aft by blast
qed

lemma dealloc_props:
  assumes "chunk_ok c" "free_ok cs" "chunk_bytes c \<inter> free_bytes cs = {}"
    and "chunk_bytes c \<union> free_bytes cs \<subseteq> {lo..<hi}" "hi < lo + 2 ^ 31"
  shows "free_ok (dealloc c cs)" and "free_bytes (dealloc c cs) = chunk_bytes c \<union> free_bytes cs"
proof -
  obtain bs ds where s: "cs = bs @ ds"
    "takeWhile (\<lambda>d. fst d < fst c) cs = bs" "dropWhile (\<lambda>d. fst d < fst c) cs = ds"
    "\<forall>b \<in> set bs. cend b \<le> cstart c" "\<forall>d \<in> set ds. cend c \<le> cstart d"
    using dealloc_split assms(1-3) by blast
  have okds: "free_ok ds" using assms(2) s(1) by (simp add: free_ok_append)
  note j = join_props [OF assms(1) okds s(5), of lo hi]
  have j1: "free_ok (join c ds)" "free_bytes (join c ds) = chunk_bytes c \<union> free_bytes ds"
    using j assms(4,5) s(1) by auto
  have "free_ok (dealloc c cs) \<and> free_bytes (dealloc c cs) = chunk_bytes c \<union> free_bytes cs"
  proof (cases bs rule: rev_cases)
    case Nil
    then show ?thesis using j1 s by (simp add: dealloc_def)
  next
    case (snoc bs' b)
    have b: "chunk_ok b" "free_ok bs'" "\<forall>a \<in> set bs'. cend a < cstart b"
      using assms(2) s(1) snoc by (auto simp: free_ok_append free_ok_Cons)
    have bd: "\<forall>d \<in> set ds. cend b \<le> cstart d"
      using assms(2) s(1) snoc by (auto simp: free_ok_append free_ok_Cons)
    have "\<forall>d \<in> set (join c ds). cend b \<le> cstart d"
      using bd s(4) snoc join_starts by fastforce
    note j2 = join_props [OF b(1) j1(1) this, of lo hi]
    have j3: "free_ok (join b (join c ds))"
      "free_bytes (join b (join c ds)) = chunk_bytes b \<union> chunk_bytes c \<union> free_bytes ds"
      using j2 j1(2) assms(4,5) s(1) snoc by auto
    have "\<forall>a \<in> set bs'. \<forall>d \<in> set (join b (join c ds)). cend a < cstart d"
    proof (intro ballI)
      fix a d assume a: "a \<in> set bs'" and "d \<in> set (join b (join c ds))"
      then have "cstart b \<le> cstart d"
        using join_starts [of d b] \<open>\<forall>d \<in> set (join c ds). cend b \<le> cstart d\<close>
        by (fastforce simp: cend_def)
      then show "cend a < cstart d" using a b(3) by fastforce
    qed
    then have "free_ok (bs' @ join b (join c ds))" using b(2) j3(1) by (simp add: free_ok_append)
    moreover have "dealloc c cs = bs' @ join b (join c ds)"
      unfolding dealloc_def Let_def s(2,3) snoc by simp
    ultimately show ?thesis using j3(2) s(1) snoc by auto
  qed
  then show "free_ok (dealloc c cs)" "free_bytes (dealloc c cs) = chunk_bytes c \<union> free_bytes cs" by auto
qed

lemma dealloc_alloc:
  assumes "free_ok cs" "0 < unat sz" "8 dvd unat sz" "alloc sz cs = (a, cs')" "a \<noteq> 0"
    and "free_bytes cs \<subseteq> {lo..<hi}" "hi < lo + 2 ^ 31"
  shows "dealloc (a, sz) cs' = cs"
proof (rule free_list_unique)
  note al = alloc_success [OF assms(1-5)]
  have un: "chunk_bytes (a, sz) \<union> free_bytes cs' = free_bytes cs" using al(3,4) by auto
  have "chunk_bytes (a, sz) \<inter> free_bytes cs' = {}" using al(4) by auto
  note d = dealloc_props [OF al(1,2) this, of lo hi] 
  show "free_ok (dealloc (a, sz) cs')" using d(1) un assms(6,7) by simp
  show "free_bytes (dealloc (a, sz) cs') = free_bytes cs" using d(2) un assms(6,7) by simp
qed (rule assms)

end
