(* ===== verification/Allocator.thy ===== *)
theory Allocator
  imports Prelude
begin

text \<open>
  The contract of a memory allocator whose caller gives back the size of a block when it frees it,
  as the allocators under \<open>src/cmake/targets/gvsoc/libc/malloc\<close> do, and what a client may
  conclude from it: after any sequence of requests the live blocks are pairwise disjoint, disjoint
  from the free memory and together with it they are the whole region; freeing them all gives the
  region back.
\<close>

section \<open>A client\<close>

type_synonym block = "u32 \<times> u32"

datatype request = Alloc u32 | Free nat

text \<open>The client keeps the blocks it was given, with the sizes it asked for, and frees one of
  them by its position; a failed allocation gives it nothing.\<close>

fun serve ::
  "('s \<Rightarrow> u32 \<Rightarrow> ('s \<times> u32) option) \<Rightarrow> ('s \<Rightarrow> u32 \<Rightarrow> u32 \<Rightarrow> 's option) \<Rightarrow> request \<Rightarrow>
     's \<times> block list \<Rightarrow> ('s \<times> block list) option" where
  "serve al de (Alloc n) (s, live) =
     do { (s, p) \<leftarrow> al s n; Some (s, if p = 0 then live else (p, n) # live) }"
| "serve al de (Free i) (s, live) =
     (if i < length live
      then do { s \<leftarrow> de s (fst (live ! i)) (snd (live ! i)); Some (s, take i live @ drop (Suc i) live) }
      else Some (s, live))"

fun serve_all ::
  "('s \<Rightarrow> u32 \<Rightarrow> ('s \<times> u32) option) \<Rightarrow> ('s \<Rightarrow> u32 \<Rightarrow> u32 \<Rightarrow> 's option) \<Rightarrow> request list \<Rightarrow>
     's \<times> block list \<Rightarrow> ('s \<times> block list) option" where
  "serve_all al de [] x = Some x"
| "serve_all al de (r # rs) x = do { x \<leftarrow> serve al de r x; serve_all al de rs x }"

definition owned :: "(block \<Rightarrow> nat set) \<Rightarrow> block list \<Rightarrow> nat set" where
  "owned blk live = (\<Union>b \<in> set live. blk b)"

fun separate :: "(block \<Rightarrow> nat set) \<Rightarrow> block list \<Rightarrow> bool" where
  "separate blk [] \<longleftrightarrow> True"
| "separate blk (b # bs) \<longleftrightarrow> blk b \<inter> owned blk bs = {} \<and> separate blk bs"

lemma owned_simps [simp]:
  "owned blk [] = {}" "owned blk (b # bs) = blk b \<union> owned blk bs"
  "owned blk (as @ bs) = owned blk as \<union> owned blk bs"
  by (auto simp: owned_def)

lemma separate_append:
  "separate blk (as @ bs) \<longleftrightarrow> separate blk as \<and> separate blk bs \<and> owned blk as \<inter> owned blk bs = {}"
  by (induction as) auto

text \<open>\<open>separate\<close> is pairwise disjointness.\<close>

lemma separate_nth:
  "separate blk bs \<Longrightarrow> i < length bs \<Longrightarrow> j < length bs \<Longrightarrow> i \<noteq> j \<Longrightarrow> blk (bs ! i) \<inter> blk (bs ! j) = {}"
proof (induction bs arbitrary: i j)
  case (Cons b bs)
  have "k < length bs \<Longrightarrow> blk b \<inter> blk (bs ! k) = {}" for k
    using Cons.prems(1) nth_mem [of k bs] unfolding owned_def separate.simps by blast
  then show ?case
    using Cons by (cases i; cases j) (auto simp: Int_commute)
qed simp

section \<open>The contract\<close>

locale allocator =
  fixes al :: "'s \<Rightarrow> u32 \<Rightarrow> ('s \<times> u32) option"
    and de :: "'s \<Rightarrow> u32 \<Rightarrow> u32 \<Rightarrow> 's option"
    and rep :: "'s \<Rightarrow> nat set \<Rightarrow> bool"
    and blk :: "block \<Rightarrow> nat set"
    and ok_size :: "u32 \<Rightarrow> bool"
    and ok_block :: "block \<Rightarrow> bool"
    and region :: "nat set"
  assumes al_law: "rep s F \<Longrightarrow> ok_size n \<Longrightarrow>
      \<exists>s' p. al s n = Some (s', p) \<and>
        (p = 0 \<and> rep s' F \<or>
         p \<noteq> 0 \<and> ok_block (p, n) \<and> blk (p, n) \<subseteq> F \<and> rep s' (F - blk (p, n)))"
    and de_law: "rep s F \<Longrightarrow> ok_block (p, n) \<Longrightarrow> blk (p, n) \<inter> F = {} \<Longrightarrow> blk (p, n) \<subseteq> region \<Longrightarrow>
      \<exists>s'. de s p n = Some s' \<and> rep s' (F \<union> blk (p, n))"
    and rep_region: "rep s F \<Longrightarrow> F \<subseteq> region"
begin

text \<open>What holds of allocator and client between two requests, \<open>R\<close> being all the memory
  they share.\<close>

definition consistent :: "nat set \<Rightarrow> 's \<times> block list \<Rightarrow> bool" where
  "consistent R x \<longleftrightarrow>
     (\<exists>F. rep (fst x) F \<and> F \<union> owned blk (snd x) = R \<and> F \<inter> owned blk (snd x) = {}) \<and>
     separate blk (snd x) \<and> (\<forall>b \<in> set (snd x). ok_block b) \<and> R \<subseteq> region"

lemma serve_consistent:
  assumes "consistent R (s, live)" and "\<And>n. r = Alloc n \<Longrightarrow> ok_size n"
  shows "\<exists>y. serve al de r (s, live) = Some y \<and> consistent R y"
proof -
  obtain F where F: "rep s F" "F \<union> owned blk live = R" "F \<inter> owned blk live = {}"
    and sep: "separate blk live" "\<forall>b \<in> set live. ok_block b" "R \<subseteq> region"
    using assms(1) by (auto simp: consistent_def)
  show ?thesis
  proof (cases r)
    case (Alloc n)
    obtain s' p where sp: "al s n = Some (s', p)"
      "p = 0 \<and> rep s' F \<or> p \<noteq> 0 \<and> ok_block (p, n) \<and> blk (p, n) \<subseteq> F \<and> rep s' (F - blk (p, n))"
      using al_law [OF F(1) assms(2) [OF Alloc]] by blast
    from sp(2) show ?thesis
    proof (elim disjE conjE)
      assume "p = 0" "rep s' F"
      with sp(1) F sep Alloc show ?thesis by (auto simp: consistent_def)
    next
      assume p: "p \<noteq> 0" "ok_block (p, n)" "blk (p, n) \<subseteq> F" "rep s' (F - blk (p, n))"
      have "consistent R (s', (p, n) # live)"
        unfolding consistent_def fst_conv snd_conv
      proof (intro conjI exI [of _ "F - blk (p, n)"])
        show "rep s' (F - blk (p, n))" by fact
        show "F - blk (p, n) \<union> owned blk ((p, n) # live) = R" using p(3) F(2) by auto
        show "(F - blk (p, n)) \<inter> owned blk ((p, n) # live) = {}" using F(3) by auto
        show "separate blk ((p, n) # live)" using p(3) F(3) sep(1) by auto
      qed (use p(2) sep in auto)
      with sp(1) p(1) Alloc show ?thesis by simp
    qed
  next
    case (Free i)
    show ?thesis
    proof (cases "i < length live")
      case False
      with assms(1) Free show ?thesis by simp
    next
      case True
      define b as bs where "b = live ! i" and "as = take i live" and "bs = drop (Suc i) live"
      have l: "live = as @ b # bs" using True by (simp add: b_def as_def bs_def id_take_nth_drop [symmetric])
      have "blk b \<inter> F = {}" "ok_block b" "blk b \<subseteq> region" using F(2,3) sep l by auto
      then obtain s' where s': "de s (fst b) (snd b) = Some s'" "rep s' (F \<union> blk b)"
        using de_law [OF F(1), of "fst b" "snd b"] by auto
      have "consistent R (s', as @ bs)"
        unfolding consistent_def fst_conv snd_conv
      proof (intro conjI exI [of _ "F \<union> blk b"])
        show "rep s' (F \<union> blk b)" by fact
        show "F \<union> blk b \<union> owned blk (as @ bs) = R" using F(2) l by auto
        show "(F \<union> blk b) \<inter> owned blk (as @ bs) = {}"
          using F(3) sep(1) l by (auto simp: separate_append)
        show "separate blk (as @ bs)" using sep(1) l by (auto simp: separate_append)
      qed (use sep l in auto)
      with s'(1) Free True show ?thesis by (simp add: b_def as_def bs_def)
    qed
  qed
qed

lemma serve_all_consistent:
  assumes "consistent R x" and "\<And>n. Alloc n \<in> set rs \<Longrightarrow> ok_size n"
  shows "\<exists>y. serve_all al de rs x = Some y \<and> consistent R y"
  using assms
proof (induction rs arbitrary: x)
  case (Cons r rs)
  then obtain y where "serve al de r x = Some y" "consistent R y"
    using serve_consistent [of R "fst x" "snd x" r] by auto
  with Cons.IH [of y] Cons.prems(2) show ?case by auto
qed simp

text \<open>Freeing the first live block again and again gives back everything.\<close>

lemma free_all:
  assumes "consistent R (s, live)"
  shows "\<exists>s'. serve_all al de (replicate (length live) (Free 0)) (s, live) = Some (s', []) \<and> rep s' R"
  using assms
proof (induction live arbitrary: s)
  case Nil
  then show ?case by (auto simp: consistent_def)
next
  case (Cons b live)
  obtain y where y: "serve al de (Free 0) (s, b # live) = Some y" "consistent R y"
    using serve_consistent [OF Cons.prems, of "Free 0"] by auto
  then obtain s' where "y = (s', live)" by (auto simp: bind_Some_iff)
  with y Cons.IH [of s'] show ?case by simp
qed

lemma no_leak:
  assumes "rep s R" and "\<And>n. Alloc n \<in> set rs \<Longrightarrow> ok_size n"
    and "serve_all al de rs (s, []) = Some (s', live)"
  shows "\<exists>s''. serve_all al de (replicate (length live) (Free 0)) (s', live) = Some (s'', []) \<and> rep s'' R"
proof -
  have "consistent R (s, [])" using assms(1) rep_region by (auto simp: consistent_def)
  then have "\<exists>y. serve_all al de rs (s, []) = Some y \<and> consistent R y"
    using assms(2) by (rule serve_all_consistent)
  with assms(3) have "consistent R (s', live)" by simp
  then show ?thesis by (rule free_all)
qed

end

end
