(* ===== verification/MallocInternal.thy ===== *)
theory MallocInternal
  imports FreeList Allocator
begin

text \<open>
  The internal memory allocator of the GVSOC target,
  \<open>src/cmake/targets/gvsoc/libc/malloc/malloc_internal.c\<close>. The memory is a map from word
  addresses to 32-bit words; a free chunk keeps its size in its first word and the pointer to the
  next free chunk in its second, as \<open>malloc_chunk_t\<close> does. An access through a null or
  misaligned pointer and an overflowing \<open>int32_t\<close> computation are \<open>None\<close>, and so is
  a list walk that never ends.

  The main lemmas: on a well-formed list the code computes \<open>alloc\<close> and \<open>dealloc\<close> of
  theory \<open>FreeList\<close> and changes no word outside the free bytes.
\<close>

section \<open>The memory\<close>

type_synonym memory = "u32 \<Rightarrow> u32"

definition ld :: "memory \<Rightarrow> u32 \<Rightarrow> u32 option" where
  "ld m p = (if p \<noteq> 0 \<and> unat p mod 4 = 0 then Some (m p) else None)"

definition st :: "memory \<Rightarrow> u32 \<Rightarrow> u32 \<Rightarrow> memory option" where
  "st m p v = (if p \<noteq> 0 \<and> unat p mod 4 = 0 then Some (m(p := v)) else None)"

text \<open>\<open>malloc_t\<close> (its \<open>type\<close> field is never read) together with the memory it manages.\<close>

record heap =
  first_free :: u32
  mem :: memory

definition align_up :: "u32 \<Rightarrow> u32 option" where
  "align_up x = do { y \<leftarrow> chk32 (sint x + 8); z \<leftarrow> chk32 (y - 1); Some (word_of_int z AND NOT 7) }"

definition align_down :: "u32 \<Rightarrow> u32" where
  "align_down x = x AND NOT 7"

definition sub32 :: "u32 \<Rightarrow> u32 \<Rightarrow> u32 option" where
  "sub32 x y = do { d \<leftarrow> chk32 (sint x - sint y); Some (word_of_int d) }"

section \<open>The operations\<close>

text \<open>The list walk shared by allocation and deallocation: go on while \<open>pt && keep pt\<close>;
  the result is the chunk where it stops (or null) and its predecessor (or \<open>prev\<close>).\<close>

partial_function (option) walk ::
  "memory \<Rightarrow> (u32 \<Rightarrow> bool option) \<Rightarrow> u32 \<Rightarrow> u32 \<Rightarrow> (u32 \<times> u32) option" where
  [code]: "walk m keep pt prev =
     (if pt = 0 then Some (pt, prev)
      else do { k \<leftarrow> keep pt;
                if k then do { n \<leftarrow> ld m (pt + 4); walk m keep n pt } else Some (pt, prev) })"

definition int_malloc_init :: "heap \<Rightarrow> u32 \<Rightarrow> u32 \<Rightarrow> heap option" where
  "int_malloc_init a chunk0 size0 =
     do { chunk \<leftarrow> align_up chunk0;
          off \<leftarrow> sub32 chunk chunk0;
          size \<leftarrow> sub32 size0 off;
          if 0 < sint size
          then do { m \<leftarrow> st (mem a) chunk (align_down size);
                    m \<leftarrow> st m (chunk + 4) 0;
                    Some (a\<lparr>first_free := chunk, mem := m\<rparr>) }
          else Some (a\<lparr>first_free := chunk\<rparr>) }"

definition int_malloc :: "heap \<Rightarrow> u32 \<Rightarrow> (heap \<times> u32) option" where
  "int_malloc a size0 =
     do { size \<leftarrow> align_up size0;
          (pt, prev) \<leftarrow> walk (mem a) (\<lambda>pt. do { s \<leftarrow> ld (mem a) pt; Some (sint s < sint size) })
                              (first_free a) 0;
          if pt \<noteq> 0 then
            do { s \<leftarrow> ld (mem a) pt;
                 if s = size then
                   do { n \<leftarrow> ld (mem a) (pt + 4);
                        if prev \<noteq> 0
                        then do { m \<leftarrow> st (mem a) (prev + 4) n; Some (a\<lparr>mem := m\<rparr>, pt) }
                        else Some (a\<lparr>first_free := n\<rparr>, pt) }
                 else
                   do { r \<leftarrow> sub32 s size;
                        m \<leftarrow> st (mem a) pt r;
                        Some (a\<lparr>mem := m\<rparr>, pt + s - size) } }
          else Some (a, 0) }"

text \<open>Deallocation: first the freed chunk gets its header, merged with the next chunk when they
  touch; then the previous chunk (or \<open>first_free\<close>) is linked to it or merged with it.\<close>

definition free_next :: "memory \<Rightarrow> u32 \<Rightarrow> u32 \<Rightarrow> u32 \<Rightarrow> memory option" where
  "free_next m chunk sz nxt =
     (if chunk + sz = nxt
      then do { ns \<leftarrow> ld m nxt; s \<leftarrow> add32 sz ns;
                m \<leftarrow> st m chunk s;
                nn \<leftarrow> ld m (nxt + 4);
                st m (chunk + 4) nn }
      else do { m \<leftarrow> st m chunk sz; st m (chunk + 4) nxt })"

definition free_prev :: "memory \<Rightarrow> u32 \<Rightarrow> u32 \<Rightarrow> memory option" where
  "free_prev m chunk prev =
     do { ps \<leftarrow> ld m prev;
          if prev + ps = chunk
          then do { cs \<leftarrow> ld m chunk; s \<leftarrow> add32 ps cs;
                    m \<leftarrow> st m prev s;
                    cn \<leftarrow> ld m (chunk + 4);
                    st m (prev + 4) cn }
          else st m (prev + 4) chunk }"

definition int_malloc_free :: "heap \<Rightarrow> u32 \<Rightarrow> u32 \<Rightarrow> heap option" where
  "int_malloc_free a chunk size0 =
     do { sz \<leftarrow> align_up size0;
          (nxt, prev) \<leftarrow> walk (mem a) (\<lambda>pt. Some (pt < chunk)) (first_free a) 0;
          m \<leftarrow> free_next (mem a) chunk sz nxt;
          if prev \<noteq> 0
          then do { m \<leftarrow> free_prev m chunk prev; Some (a\<lparr>mem := m\<rparr>) }
          else Some (a\<lparr>first_free := chunk, mem := m\<rparr>) }"

text \<open>\<open>__malloc_align\<close>; \<open>sizeof(malloc_chunk_t)\<close> is 12. The sum with \<open>sizeof\<close> is
  unsigned, \<open>- align\<close> is a signed negation.\<close>

definition int_malloc_align :: "heap \<Rightarrow> u32 \<Rightarrow> u32 \<Rightarrow> (heap \<times> u32) option" where
  "int_malloc_align a sz align =
     (if sint align < 12 then int_malloc a sz
      else
        do { sa \<leftarrow> add32 sz align;
             let size_align = sa + 24;
             (a, result) \<leftarrow> int_malloc a size_align;
             if result = 0 then Some (a, 0)
             else
               do { let result_align = (result + align - 1) AND (- align);
                    let headersize = result_align - result;
                    (a, result_align) \<leftarrow>
                      (if headersize \<noteq> 0
                       then do { let ra = (if result_align - result < 12 then result_align + align
                                           else result_align);
                                 a \<leftarrow> int_malloc_free a result headersize;
                                 Some (a, ra) }
                       else Some (a, result_align));
                    a \<leftarrow> int_malloc_free a (result_align + sz) (size_align - headersize - sz);
                    Some (a, result_align) } })"

text \<open>\<open>__malloc_info\<close>: total size and number of free chunks; \<open>__malloc_dump\<close>: one line
  per chunk with a mark on a chunk that points to itself, where it stops.\<close>

partial_function (option) info_loop :: "memory \<Rightarrow> u32 \<Rightarrow> u32 \<Rightarrow> u32 \<Rightarrow> (u32 \<times> u32) option" where
  [code]: "info_loop m pt tot nb =
     (if pt = 0 then Some (tot, nb)
      else do { s \<leftarrow> ld m pt; tot \<leftarrow> add32 tot s; nb \<leftarrow> add32 nb 1;
                n \<leftarrow> ld m (pt + 4); info_loop m n tot nb })"

definition int_malloc_info :: "heap \<Rightarrow> (u32 \<times> u32 \<times> u32) option" where
  "int_malloc_info a =
     do { (size, nb) \<leftarrow> info_loop (mem a) (first_free a) 0 0; Some (size, first_free a, nb) }"

partial_function (option) int_malloc_dump_loop ::
  "memory \<Rightarrow> u32 \<Rightarrow> ((u32 \<times> u32 \<times> u32) \<times> bool) list option" where
  [code]: "int_malloc_dump_loop m pt =
     (if pt = 0 then Some []
      else do { s \<leftarrow> ld m pt; n \<leftarrow> ld m (pt + 4);
                if pt = n then Some [((pt, s, n), True)]
                else do { ls \<leftarrow> int_malloc_dump_loop m n; Some (((pt, s, n), False) # ls) } })"

definition int_malloc_dump :: "heap \<Rightarrow> ((u32 \<times> u32 \<times> u32) \<times> bool) list option" where
  "int_malloc_dump a = int_malloc_dump_loop (mem a) (first_free a)"

section \<open>The linked list\<close>

fun fseg :: "memory \<Rightarrow> u32 \<Rightarrow> chunk list \<Rightarrow> u32 \<Rightarrow> bool" where
  "fseg m p [] q \<longleftrightarrow> p = q"
| "fseg m p (c # cs) q \<longleftrightarrow> p = fst c \<and> m p = snd c \<and> fseg m (m (p + 4)) cs q"

abbreviation flist :: "heap \<Rightarrow> chunk list \<Rightarrow> bool" where
  "flist a cs \<equiv> fseg (mem a) (first_free a) cs 0"

lemma fseg_append:
  "fseg m p (bs @ cs) q \<longleftrightarrow> (\<exists>r. fseg m p bs r \<and> fseg m r cs q)"
  by (induction bs arbitrary: p) auto

lemma fseg_cong:
  assumes "\<And>c. c \<in> set cs \<Longrightarrow> m (fst c) = m' (fst c) \<and> m (fst c + 4) = m' (fst c + 4)"
  shows "fseg m p cs q \<longleftrightarrow> fseg m' p cs q"
  using assms by (induction cs arbitrary: p) (auto, metis+)

lemma chunk_ok_addr:
  assumes "chunk_ok c"
  shows "fst c \<noteq> 0" "unat (fst c) mod 4 = 0" "fst c + 4 \<noteq> 0" "unat (fst c + 4) mod 4 = 0"
    and "unat (fst c + 4) = cstart c + 4" "cstart c mod 4 = 0" "cstart c + 4 < cend c"
proof -
  have c: "0 < unat (fst c)" "8 dvd unat (fst c)" "8 dvd unat (snd c)" "0 < unat (snd c)"
    "unat (fst c) + unat (snd c) < 2 ^ 32"
    using assms by (auto simp: chunk_ok_def cstart_def csize_def cend_def)
  then have "8 \<le> unat (snd c)" by (auto dest: dvd_imp_le)
  then have u: "unat (fst c + 4) = unat (fst c) + 4" using c(5) by (simp add: unat_word_ariths)
  then show "unat (fst c + 4) = cstart c + 4" by (simp add: cstart_def)
  obtain k where k: "unat (fst c) = 8 * k" using c(2) by (auto elim: dvdE)
  show "fst c \<noteq> 0" using c(1) by auto
  have m: "8 * k mod 4 = 0" "(8 * k + 4) mod 4 = 0" by presburger+
  then show "unat (fst c) mod 4 = 0" "unat (fst c + 4) mod 4 = 0" "cstart c mod 4 = 0"
    by (simp_all add: u k cstart_def)
  show "cstart c + 4 < cend c" using \<open>8 \<le> unat (snd c)\<close> by (simp add: cend_def csize_def)
  show "fst c + 4 \<noteq> 0" using u by (metis add_is_0 unat_0 zero_neq_numeral)
qed

lemma ld_chunk [memsafe]:
  "chunk_ok c \<Longrightarrow> ld m (fst c) = Some (m (fst c))"
  "chunk_ok c \<Longrightarrow> ld m (fst c + 4) = Some (m (fst c + 4))"
  by (simp_all only: ld_def chunk_ok_addr(1-4)) simp_all

lemma st_chunk [memsafe]:
  "chunk_ok c \<Longrightarrow> st m (fst c) v = Some (m(fst c := v))"
  "chunk_ok c \<Longrightarrow> st m (fst c + 4) v = Some (m(fst c + 4 := v))"
  by (simp_all only: st_def chunk_ok_addr(1-4)) simp_all

text \<open>Where the walk stops on a well-formed list.\<close>

lemma walk_fseg:
  assumes "fseg m p cs 0" "\<forall>c \<in> set cs. chunk_ok c"
    and "\<And>c. c \<in> set cs \<Longrightarrow> keep (fst c) = Some (P c)"
  shows "walk m keep p prev =
    Some (case dropWhile P cs of [] \<Rightarrow> 0 | d # _ \<Rightarrow> fst d,
          if takeWhile P cs = [] then prev else fst (last (takeWhile P cs)))"
  using assms
proof (induction cs arbitrary: p prev)
  case Nil
  then show ?case by (simp add: walk.simps)
next
  case (Cons c cs)
  then have c: "p = fst c" "fst c \<noteq> 0" "ld m (p + 4) = Some (m (p + 4))" "keep p = Some (P c)"
    by (auto simp: chunk_ok_addr memsafe)
  have "walk m keep (m (p + 4)) p =
    Some (case dropWhile P cs of [] \<Rightarrow> 0 | d # _ \<Rightarrow> fst d,
          if takeWhile P cs = [] then p else fst (last (takeWhile P cs)))"
    using Cons.prems by (intro Cons.IH) auto
  with c show ?case by (subst walk.simps) auto
qed

text \<open>Headers of different chunks never overlap, so writing one leaves the rest of the list alone.\<close>

definition apart :: "chunk \<Rightarrow> chunk list \<Rightarrow> bool" where
  "apart b cs \<longleftrightarrow> chunk_ok b \<and> (\<forall>c \<in> set cs. chunk_ok c \<and> fst c \<noteq> fst b)"

lemma hdr_distinct:
  assumes "chunk_ok b" "chunk_ok c" "fst c \<noteq> fst b"
  shows "fst c \<noteq> fst b + 4" "fst c + 4 \<noteq> fst b" "fst c + 4 \<noteq> fst b + 4"
proof -
  have d: "8 dvd unat (fst b)" "8 dvd unat (fst c)" using assms(1,2) by (auto simp: chunk_ok_def cstart_def)
  show "fst c \<noteq> fst b + 4" using d aligned_ne_4 by blast
  show "fst c + 4 \<noteq> fst b" using d aligned_ne_4 by metis
  show "fst c + 4 \<noteq> fst b + 4" using assms(3) by simp
qed

lemma fseg_apart [simp]:
  "apart b cs \<Longrightarrow> fseg (m(fst b := v)) p cs q = fseg m p cs q"
  "apart b cs \<Longrightarrow> fseg (m(fst b + 4 := v)) p cs q = fseg m p cs q"
  using hdr_distinct [of b] by (auto simp: apart_def intro!: fseg_cong)

lemma free_ok_apart:
  assumes "free_ok (bs @ b # cs)"
  shows "apart b bs" "apart b cs"
proof -
  have "c = b" if "c \<in> set (bs @ cs)" "fst c = fst b" for c
    using that assms by (auto simp: free_ok_append free_ok_Cons cend_def cstart_def)
  moreover have "b \<notin> set (bs @ cs)"
    using assms by (fastforce simp: free_ok_append free_ok_Cons cend_def)
  ultimately show "apart b bs" "apart b cs"
    using assms by (auto simp: apart_def free_ok_append free_ok_Cons free_ok_def)
qed

section \<open>Rounding the size\<close>

lemma chk32_nat: "n < 2 ^ 31 \<Longrightarrow> chk32 (int n) = Some (int n)"
  by (simp add: chk32_def)

lemma chk32_diff: "m \<le> n \<Longrightarrow> n < 2 ^ 31 \<Longrightarrow> chk32 (int n - int m) = Some (int n - int m)"
  by (simp add: chk32_def)

text \<open>The size the allocator works with, for a request of positive size that does not overflow.\<close>

definition size8 :: "u32 \<Rightarrow> u32" where
  "size8 x = (x + 7) AND NOT 7"

lemma align_up_size8 [memsafe]:
  assumes "unat x + 8 < 2 ^ 31"
  shows "align_up x = Some (size8 x)"
proof -
  have "unat x < 2 ^ 31" using assms by simp
  then have x: "sint x = int (unat x)" by (rule sint_unat)
  have "int (unat x) + 8 - 1 = int (unat x + 7)" by simp
  then have "(word_of_int (int (unat x) + 8 - 1) :: u32) = of_nat (unat x + 7)"
    by (simp only: of_int_of_nat_eq)
  then have w: "(word_of_int (int (unat x) + 8 - 1) :: u32) = x + 7"
    by (simp only: of_nat_add of_nat_unat ucast_id of_nat_numeral)
  have "chk32 (int (unat x) + 8) = Some (int (unat x) + 8)"
    "chk32 (int (unat x) + 8 - 1) = Some (int (unat x) + 8 - 1)"
    using chk32_nat [of "unat x + 8"] chk32_diff [of 1 "unat x + 8"] assms
    by (simp_all only: of_nat_add of_nat_numeral of_nat_1 le_add2 trans_le_add2 one_le_numeral)
  then show ?thesis
    by (simp only: align_up_def size8_def x w Option.bind.bind_lunit)
qed

lemma unat_size8:
  assumes "unat x + 8 < 2 ^ 31"
  shows "unat (size8 x) = (unat x + 7) div 8 * 8"
proof -
  have m: "(7 :: u32) = mask 3" by (simp add: mask_eq_exp_minus_1)
  have "unat (x + 7) = unat x + 7" using assms by (simp add: unat_word_ariths)
  then show ?thesis
    unfolding size8_def m unat_and_not_mask by (simp add: m [symmetric] minus_mod_eq_div_mult)
qed

lemma size8_ok:
  assumes "0 < unat x" "unat x + 8 < 2 ^ 31"
  shows "0 < unat (size8 x)" "8 dvd unat (size8 x)" "unat (size8 x) < 2 ^ 31" "unat x \<le> unat (size8 x)"
  using assms unfolding unat_size8 [OF assms(2)] by (presburger | simp | linarith)+

lemma sub32_nat [memsafe]:
  assumes "unat y \<le> unat x" "unat x < 2 ^ 31"
  shows "sub32 x y = Some (x - y)"
proof -
  have "unat y < 2 ^ 31" using assms by simp
  then have "sint x = int (unat x)" "sint y = int (unat y)" using assms sint_unat by blast+
  moreover have "chk32 (int (unat x) - int (unat y)) = Some (int (unat x) - int (unat y))"
    using assms by (rule chk32_diff)
  moreover have "(word_of_int (int (unat x) - int (unat y)) :: u32) = x - y"
    by (simp only: of_int_diff of_int_of_nat_eq of_nat_unat ucast_id word_of_int_uint)
  ultimately show ?thesis by (simp only: sub32_def Option.bind.bind_lunit)
qed

lemma add32_nat [memsafe]:
  assumes "unat x + unat y < 2 ^ 31"
  shows "add32 x y = Some (x + y)"
proof -
  have "unat x < 2 ^ 31" "unat y < 2 ^ 31" using assms by simp_all
  then have "sint x = int (unat x)" "sint y = int (unat y)" using sint_unat by blast+
  moreover have "chk32 (int (unat x) + int (unat y)) = Some (int (unat x) + int (unat y))"
    using chk32_nat [OF assms] by (simp only: of_nat_add)
  moreover have "(word_of_int (int (unat x) + int (unat y)) :: u32) = x + y"
    by (simp only: of_int_add of_int_of_nat_eq of_nat_unat ucast_id word_of_int_uint)
  ultimately show ?thesis by (simp only: add32_def Option.bind.bind_lunit)
qed

section \<open>The code implements the abstract list operations\<close>

lemma walk_fit:
  fixes sz :: u32
  assumes "fseg m p cs 0" "free_ok cs" "unat sz < 2 ^ 31"
  shows "walk m (\<lambda>pt. do { s \<leftarrow> ld m pt; Some (sint s < sint sz) }) p prev =
    Some (case dropWhile (\<lambda>c. csize c < unat sz) cs of [] \<Rightarrow> 0 | d # _ \<Rightarrow> fst d,
          if takeWhile (\<lambda>c. csize c < unat sz) cs = [] then prev
          else fst (last (takeWhile (\<lambda>c. csize c < unat sz) cs)))"
proof (rule walk_fseg [OF assms(1)])
  show ok: "\<forall>c \<in> set cs. chunk_ok c" using assms(2) by (simp add: free_ok_def)
  have val: "\<forall>c \<in> set cs. m (fst c) = snd c" using assms(1) by (induction cs arbitrary: p) auto
  fix c assume c: "c \<in> set cs"
  then have "unat (snd c) < 2 ^ 31" using ok by (auto simp: chunk_ok_def csize_def)
  then have "sint (snd c) = int (unat (snd c))" "sint sz = int (unat sz)"
    using sint_unat assms(3) by blast+
  then have "sint (snd c) < sint sz \<longleftrightarrow> csize c < unat sz" by (simp only: of_nat_less_iff csize_def)
  then show "do { s \<leftarrow> ld m (fst c); Some (sint s < sint sz) } = Some (csize c < unat sz)"
    using c ok val by (simp add: memsafe)
qed

lemma hdr_in_bytes:
  assumes "chunk_ok c"
  shows "unat (fst c) \<in> chunk_bytes c" "unat (fst c + 4) \<in> chunk_bytes c"
  using chunk_ok_addr [OF assms] chunk_bytes_nonempty [OF assms] by (auto simp: chunk_bytes_def cstart_def)

lemma int_malloc_refines:
  assumes fl: "flist a cs" and ok: "free_ok cs" and sz: "0 < unat sz" "unat sz + 8 < 2 ^ 31"
  shows "\<exists>a'. int_malloc a sz = Some (a', fst (alloc (size8 sz) cs)) \<and> flist a' (snd (alloc (size8 sz) cs))
    \<and> (\<forall>q. unat q \<notin> free_bytes cs \<longrightarrow> mem a' q = mem a q)"
proof -
  define z where "z = size8 sz"
  have z: "align_up sz = Some z" "0 < unat z" "unat z < 2 ^ 31"
    using sz size8_ok align_up_size8 by (simp_all add: z_def)
  note w = walk_fit [OF fl ok z(3), of 0]
  show ?thesis
  proof (cases "dropWhile (\<lambda>c. csize c < unat z) cs")
    case Nil
    then show ?thesis using fl w z(1)
      by (simp add: int_malloc_def alloc_def z_def [symmetric] del: dropWhile_eq_Nil_conv)
  next
    case (Cons d ds)
    define bs where "bs = takeWhile (\<lambda>c. csize c < unat z) cs"
    note s = split_fit [OF Cons, folded bs_def]
    have w': "walk (mem a) (\<lambda>pt. do { s \<leftarrow> ld (mem a) pt; Some (sint s < sint z) }) (first_free a) 0
        = Some (fst d, if bs = [] then 0 else fst (last bs))"
      using w unfolding Cons bs_def [symmetric] by simp
    have al: "alloc z cs = (if snd d = z then (fst d, bs @ ds)
        else (fst d + snd d - z, bs @ (fst d, snd d - z) # ds))"
      by (simp only: alloc_def Cons Let_def bs_def list.case)
    have okd: "chunk_ok d" using ok unfolding s(1) by (auto simp: free_ok_append free_ok_Cons)
    note nz = chunk_ok_addr(1) [OF okd]
    note ap = free_ok_apart [OF ok [unfolded s(1)]]
    have f: "fseg (mem a) (first_free a) bs (fst d)" "mem a (fst d) = snd d"
      "fseg (mem a) (mem a (fst d + 4)) ds 0"
      using fl unfolding s(1) fseg_append by auto
    show ?thesis
    proof (cases "snd d = z")
      case False
      then have "unat z < csize d" using s(2) by (simp add: csize_def word_unat_eq_iff)
      moreover have "csize d < 2 ^ 31" using okd by (simp add: chunk_ok_def)
      ultimately have "sub32 (snd d) z = Some (snd d - z)" by (intro sub32_nat) (auto simp: csize_def)
      then have "int_malloc a sz = Some (a\<lparr>mem := (mem a)(fst d := snd d - z)\<rparr>, fst d + snd d - z)"
        using False w' z(1) f(2) nz okd by (simp add: int_malloc_def memsafe)
      moreover have "flist (a\<lparr>mem := (mem a)(fst d := snd d - z)\<rparr>) (bs @ (fst d, snd d - z) # ds)"
        using f ap by (simp add: fseg_append)
      moreover have "unat (fst d) \<in> free_bytes cs" using hdr_in_bytes [OF okd] by (simp add: s(1))
      ultimately show ?thesis using False al by (auto simp: z_def [symmetric])
    next
      case True
      show ?thesis
      proof (cases bs rule: rev_cases)
        case Nil
        then have "int_malloc a sz = Some (a\<lparr>first_free := mem a (fst d + 4)\<rparr>, fst d)"
          using True w' z(1) f(2) nz okd by (simp add: int_malloc_def memsafe)
        with f al True Nil show ?thesis by (auto simp: z_def [symmetric])
      next
        case (snoc bs' b)
        have okb: "chunk_ok b" using ok unfolding s(1) snoc by (auto simp: free_ok_append free_ok_Cons)
        have ok': "free_ok (bs' @ b # ds)" using ok unfolding s(1) snoc by (auto simp: free_ok_append free_ok_Cons)
        note apb = free_ok_apart [OF ok']
        let ?a = "a\<lparr>mem := (mem a)(fst b + 4 := mem a (fst d + 4))\<rparr>"
        have fb: "fseg (mem a) (first_free a) bs' (fst b)" "mem a (fst b) = snd b"
          using f(1) unfolding snoc fseg_append by auto
        have "int_malloc a sz = Some (?a, fst d)"
          using True w' z(1) f(2) nz okd okb snoc chunk_ok_addr(1) [OF okb]
          by (simp add: int_malloc_def memsafe)
        moreover have "flist ?a (bs @ ds)" using fb f apb by (simp add: fseg_append snoc)
        moreover have "unat (fst b + 4) \<in> free_bytes cs"
          using hdr_in_bytes [OF okb] by (simp add: s(1) snoc)
        ultimately show ?thesis using True al by (auto simp: z_def [symmetric])
      qed
    qed
  qed
qed

text \<open>The two halves of deallocation implement \<open>join\<close>.\<close>

definition frame :: "memory \<Rightarrow> memory \<Rightarrow> nat set \<Rightarrow> bool" where
  "frame m m' A \<longleftrightarrow> (\<forall>q. unat q \<notin> A \<longrightarrow> m' q = m q)"

lemma frame_trans: "frame m m' A \<Longrightarrow> frame m' m'' B \<Longrightarrow> frame m m'' (A \<union> B)"
  by (simp add: frame_def)

lemma frame_mono: "frame m m' A \<Longrightarrow> A \<subseteq> B \<Longrightarrow> frame m m' B"
  by (auto simp: frame_def)

lemma frame_hdr:
  assumes "chunk_ok c"
  shows "frame m (m(fst c := v, fst c + 4 := w)) (chunk_bytes c)"
    and "frame m (m(fst c + 4 := w)) (chunk_bytes c)"
  using hdr_in_bytes [OF assms] by (auto simp: frame_def)

lemma fseg_frame:
  assumes "fseg m p cs q" "frame m m' A" "\<forall>c \<in> set cs. chunk_ok c" "free_bytes cs \<inter> A = {}"
  shows "fseg m' p cs q"
proof -
  have "m' (fst c) = m (fst c) \<and> m' (fst c + 4) = m (fst c + 4)" if "c \<in> set cs" for c
    using assms(2-4) hdr_in_bytes [of c] that by (auto simp: frame_def free_bytes_def)
  then show ?thesis using assms(1) fseg_cong [of cs m' m] by blast
qed

lemma add32_touching:
  assumes "chunk_ok c" "chunk_ok d" "cend c = cstart d"
    and "chunk_bytes c \<union> chunk_bytes d \<subseteq> {lo..<hi}" "hi < lo + 2 ^ 31"
  shows "add32 (snd c) (snd d) = Some (snd c + snd d)"
  using touching_size [OF assms] by (intro add32_nat) (simp add: csize_def)

lemma disjoint_ne: "chunk_ok c \<Longrightarrow> chunk_ok d \<Longrightarrow> cend c \<le> cstart d \<Longrightarrow> fst c \<noteq> fst d"
  by (auto simp: chunk_ok_def cend_def cstart_def)

lemma fseg_Cons_Some: "fseg m p (d # ds) q \<Longrightarrow> p = fst d \<and> m p = snd d \<and> fseg m (m (fst d + 4)) ds q"
  by auto

text \<open>\<open>free_next\<close>: the block gets a header and swallows a touching next chunk.\<close>

lemma free_next_join:
  assumes "chunk_ok c" "fseg m nxt ds 0" "free_ok ds" "\<forall>d \<in> set ds. cend c \<le> cstart d"
    and "chunk_bytes c \<union> free_bytes ds \<subseteq> {lo..<hi}" "hi < lo + 2 ^ 31"
  shows "\<exists>m'. free_next m (fst c) (snd c) nxt = Some m' \<and> fseg m' (fst c) (join c ds) 0
    \<and> frame m m' (chunk_bytes c)"
proof -
  have ap: "apart c ds"
    using assms(1,3,4) disjoint_ne unfolding apart_def free_ok_def by metis
  show ?thesis
  proof (cases ds)
    case Nil
    have "fst c + snd c \<noteq> 0"
      using unat_end [OF assms(1)] assms(1) by (auto simp: chunk_ok_def cend_def)
    then show ?thesis
      using assms(1,2) Nil frame_hdr [OF assms(1)] by (simp add: free_next_def memsafe join_def)
  next
    case (Cons d ds')
    have d: "nxt = fst d" "m nxt = snd d" "fseg m (m (fst d + 4)) ds' 0" "chunk_ok d"
      using assms(2,3) by (auto simp: Cons free_ok_Cons)
    have apd: "apart c ds'" "fst d \<noteq> fst c" using ap by (auto simp: apart_def Cons)
    note hd = hdr_distinct [OF assms(1) d(4) apd(2)]
    show ?thesis
    proof (cases "fst c + snd c = fst d")
      case False
      then show ?thesis
        using assms(1) d apd hd frame_hdr [OF assms(1)] Cons
        by (simp add: free_next_def memsafe join_def)
    next
      case True
      then have "cend c = cstart d" using end_eq_iff [OF assms(1)] by simp
      then have "add32 (snd c) (snd d) = Some (snd c + snd d)"
        using add32_touching [OF assms(1) d(4) _ _ assms(6)] assms(5) Cons by auto
      with True show ?thesis
        using assms(1) d apd hd frame_hdr [OF assms(1)] Cons
        by (simp add: free_next_def memsafe join_def)
    qed
  qed
qed

text \<open>\<open>free_prev\<close>: the previous chunk swallows the head of the list, or points to it.\<close>

lemma free_prev_join:
  assumes "chunk_ok b" "m (fst b) = snd b" "fseg m p es 0" "es \<noteq> []" "free_ok es"
    and "\<forall>d \<in> set es. cend b \<le> cstart d"
    and "chunk_bytes b \<union> free_bytes es \<subseteq> {lo..<hi}" "hi < lo + 2 ^ 31"
  shows "\<exists>m'. free_prev m p (fst b) = Some m' \<and> fseg m' (fst b) (join b es) 0
    \<and> frame m m' (chunk_bytes b)"
proof -
  have ap: "apart b es"
    using assms(1,5,6) disjoint_ne unfolding apart_def free_ok_def by metis
  obtain e es' where Cons: "es = e # es'" using assms(4) by (cases es) auto
  have e: "p = fst e" "m p = snd e" "fseg m (m (fst e + 4)) es' 0" "chunk_ok e"
    using assms(3,5) by (auto simp: Cons free_ok_Cons)
  have apd: "apart b es'" "fst e \<noteq> fst b" using ap by (auto simp: apart_def Cons)
  note hd = hdr_distinct [OF assms(1) e(4) apd(2)]
  show ?thesis
  proof (cases "fst b + snd b = fst e")
    case False
    then show ?thesis
      using assms(1,2) e apd hd frame_hdr [OF assms(1)] Cons
      by (simp add: free_prev_def memsafe join_def)
  next
    case True
    then have "cend b = cstart e" using end_eq_iff [OF assms(1)] by simp
    then have "add32 (snd b) (snd e) = Some (snd b + snd e)"
      using add32_touching [OF assms(1) e(4) _ _ assms(8)] assms(7) Cons by auto
    with True show ?thesis
      using assms(1,2) e apd hd frame_hdr [OF assms(1)] Cons
      by (simp add: free_prev_def memsafe join_def)
  qed
qed

lemma join_ne [simp]: "join c ds \<noteq> []"
  by (auto simp: join_def split: list.splits)

lemma int_malloc_free_refines:
  assumes fl: "flist a cs" and ok: "free_ok cs" and sz: "unat sz + 8 < 2 ^ 31"
    and c: "c = (p, size8 sz)" "chunk_ok c" and dis: "chunk_bytes c \<inter> free_bytes cs = {}"
    and reg: "chunk_bytes c \<union> free_bytes cs \<subseteq> {lo..<hi}" "hi < lo + 2 ^ 31"
  shows "\<exists>a'. int_malloc_free a p sz = Some a' \<and> flist a' (dealloc c cs)
    \<and> frame (mem a) (mem a') (chunk_bytes c \<union> free_bytes cs)"
proof -
  obtain bs ds where s: "cs = bs @ ds"
    "takeWhile (\<lambda>d. fst d < fst c) cs = bs" "dropWhile (\<lambda>d. fst d < fst c) cs = ds"
    "\<forall>b \<in> set bs. cend b \<le> cstart c" "\<forall>d \<in> set ds. cend c \<le> cstart d"
    using dealloc_split [OF ok c(2) dis] by blast
  have p: "p = fst c" "size8 sz = snd c" by (simp_all add: c(1))
  define nxt where "nxt = (case ds of [] \<Rightarrow> 0 | d # _ \<Rightarrow> fst d)"
  have w: "walk (mem a) (\<lambda>pt. Some (pt < fst c)) (first_free a) 0
      = Some (nxt, if bs = [] then 0 else fst (last bs))"
    using walk_fseg [OF fl, of "\<lambda>pt. Some (pt < fst c)" "\<lambda>d. fst d < fst c" 0] ok
    unfolding s(2,3) free_ok_def nxt_def by blast
  obtain r where r: "fseg (mem a) (first_free a) bs r" "fseg (mem a) r ds 0"
    using fl s(1) fseg_append by auto
  then have rn: "r = nxt" by (cases ds) (auto simp: nxt_def)
  have okds: "free_ok ds" "free_ok bs" using ok s(1) by (simp_all add: free_ok_append)
  have regd: "chunk_bytes c \<union> free_bytes ds \<subseteq> {lo..<hi}" using reg(1) s(1) by auto
  obtain m1 where m1: "free_next (mem a) (fst c) (snd c) nxt = Some m1"
    "fseg m1 (fst c) (join c ds) 0" "frame (mem a) m1 (chunk_bytes c)"
    using free_next_join [OF c(2) r(2) okds(1) s(5) regd reg(2)] rn by auto
  note j = join_props [OF c(2) okds(1) s(5) regd reg(2)]
  show ?thesis
  proof (cases bs rule: rev_cases)
    case Nil
    then show ?thesis
      using w m1 s(2,3) frame_mono [OF m1(3)] align_up_size8 [OF sz] unfolding p
      by (simp add: int_malloc_free_def dealloc_def Let_def)
  next
    case (snoc bs' b)
    have b: "chunk_ok b" "free_ok bs'" "\<forall>x \<in> set bs'. cend x < cstart b" "cend b \<le> cstart c"
      using okds(2) s(4) snoc by (auto simp: free_ok_append free_ok_Cons)
    have disb: "free_bytes bs \<inter> chunk_bytes c = {}" using dis s(1) by auto
    have fb: "fseg m1 (first_free a) bs r"
      using fseg_frame [OF r(1) m1(3) _ disb] okds(2) by (simp add: free_ok_def)
    then have fb': "fseg m1 (first_free a) bs' (fst b)" "m1 (fst b) = snd b"
      unfolding snoc fseg_append by auto
    have "\<forall>d \<in> set ds. cend b \<le> cstart d"
      using ok s(1) snoc by (auto simp: free_ok_append free_ok_Cons)
    then have bj: "\<forall>d \<in> set (join c ds). cend b \<le> cstart d"
      using b(4) join_starts by fastforce
    have regj: "chunk_bytes b \<union> free_bytes (join c ds) \<subseteq> {lo..<hi}"
      using reg(1) j(2) s(1) snoc by auto
    obtain m2 where m2: "free_prev m1 (fst c) (fst b) = Some m2"
      "fseg m2 (fst b) (join b (join c ds)) 0" "frame m1 m2 (chunk_bytes b)"
      using free_prev_join [OF b(1) fb'(2) m1(2) join_ne j(1) bj regj reg(2)] by auto
    have "free_bytes bs' \<inter> chunk_bytes b = {}"
      using b(3) by (fastforce simp: free_bytes_def chunk_bytes_def)
    then have "fseg m2 (first_free a) bs' (fst b)"
      using fseg_frame [OF fb'(1) m2(3)] b(2) by (simp add: free_ok_def)
    then have "flist (a\<lparr>mem := m2\<rparr>) (dealloc c cs)"
      using m2(2) s(2,3) snoc by (auto simp: fseg_append dealloc_def Let_def)
    moreover have "int_malloc_free a p sz = Some (a\<lparr>mem := m2\<rparr>)"
      using w m1 m2 align_up_size8 [OF sz] snoc chunk_ok_addr(1) [OF b(1)] unfolding p
      by (simp add: int_malloc_free_def)
    moreover have "frame (mem a) m2 (chunk_bytes c \<union> free_bytes cs)"
      by (rule frame_mono [OF frame_trans [OF m1(3) m2(3)]]) (auto simp: s(1) snoc)
    ultimately show ?thesis by simp
  qed
qed

section \<open>The heap as an allocator\<close>

text \<open>\<open>heap_rep lo hi a F\<close>: the list of \<open>a\<close> is well formed, its free bytes are
  \<open>F\<close>, all inside a region of less than 2 GiB.\<close>

definition heap_rep :: "nat \<Rightarrow> nat \<Rightarrow> heap \<Rightarrow> nat set \<Rightarrow> bool" where
  "heap_rep lo hi a F \<longleftrightarrow>
     (\<exists>cs. flist a cs \<and> free_ok cs \<and> free_bytes cs = F) \<and> F \<subseteq> {lo..<hi} \<and> hi < lo + 2 ^ 31"

definition ok_request :: "u32 \<Rightarrow> bool" where
  "ok_request n \<longleftrightarrow> 0 < unat n \<and> unat n + 8 < 2 ^ 31"

definition block_bytes :: "block \<Rightarrow> nat set" where
  "block_bytes b = chunk_bytes (fst b, size8 (snd b))"

definition ok_live :: "block \<Rightarrow> bool" where
  "ok_live b \<longleftrightarrow> ok_request (snd b) \<and> chunk_ok (fst b, size8 (snd b))"

interpretation ih: allocator int_malloc int_malloc_free "heap_rep lo hi" block_bytes ok_request ok_live "{lo..<hi}"
  for lo hi
proof unfold_locales
  fix a F n assume r: "heap_rep lo hi a F" and n: "ok_request n"
  then obtain cs where cs: "flist a cs" "free_ok cs" "free_bytes cs = F"
    and reg: "F \<subseteq> {lo..<hi}" "hi < lo + 2 ^ 31" by (auto simp: heap_rep_def)
  obtain p cs' where al: "alloc (size8 n) cs = (p, cs')" by (cases "alloc (size8 n) cs")
  have sz: "0 < unat n" "unat n + 8 < 2 ^ 31" using n by (auto simp: ok_request_def)
  obtain a' where a': "int_malloc a n = Some (a', p)" "flist a' cs'"
    using int_malloc_refines [OF cs(1,2) sz] al by auto
  show "\<exists>s' p. int_malloc a n = Some (s', p) \<and>
      (p = 0 \<and> heap_rep lo hi s' F \<or>
       p \<noteq> 0 \<and> ok_live (p, n) \<and> block_bytes (p, n) \<subseteq> F \<and> heap_rep lo hi s' (F - block_bytes (p, n)))"
  proof (cases "p = 0")
    case True
    then have "cs' = cs"
      using alloc_null [OF cs(2) size8_ok(1) [OF sz]] al by simp
    with a' cs reg True show ?thesis by (auto simp: heap_rep_def)
  next
    case False
    note s = alloc_success [OF cs(2) size8_ok(1,2) [OF sz] al False]
    have "heap_rep lo hi a' (F - block_bytes (p, n))"
      unfolding heap_rep_def using a'(2) s(2,4) cs(3) reg by (auto simp: block_bytes_def)
    with a'(1) False s(1,3) n cs(3) show ?thesis
      by (auto simp: ok_live_def block_bytes_def)
  qed
next
  fix a F p n
  assume r: "heap_rep lo hi a F" and b: "ok_live (p, n)" "block_bytes (p, n) \<inter> F = {}"
    and inr: "block_bytes (p, n) \<subseteq> {lo..<hi}"
  then obtain cs where cs: "flist a cs" "free_ok cs" "free_bytes cs = F"
    and reg: "F \<subseteq> {lo..<hi}" "hi < lo + 2 ^ 31" by (auto simp: heap_rep_def)
  define c where "c = (p, size8 n)"
  have c: "chunk_ok c" "chunk_bytes c \<inter> free_bytes cs = {}" "chunk_bytes c \<union> free_bytes cs \<subseteq> {lo..<hi}"
    "unat n + 8 < 2 ^ 31"
    using b inr cs reg by (auto simp: ok_live_def block_bytes_def c_def ok_request_def)
  obtain a' where "int_malloc_free a p n = Some a'" "flist a' (dealloc c cs)"
    using int_malloc_free_refines [OF cs(1,2) c(4) c_def c(1-3) reg(2)] by auto
  moreover note dealloc_props [OF c(1) cs(2) c(2,3) reg(2)]
  ultimately show "\<exists>s'. int_malloc_free a p n = Some s' \<and> heap_rep lo hi s' (F \<union> block_bytes (p, n))"
    using c(3) reg cs(3) unfolding heap_rep_def c_def block_bytes_def by auto
qed (simp add: heap_rep_def)

text \<open>Initialisation gives one chunk: the aligned part of the memory handed over.\<close>

lemma unat_align_down: "unat (align_down x) = unat x - unat x mod 8"
proof -
  have "(7 :: u32) = mask 3" by (simp add: mask_eq_exp_minus_1)
  then show ?thesis by (simp only: align_down_def unat_and_not_mask) simp
qed

lemma int_malloc_init_total:
  assumes "0 < unat p" "16 \<le> unat n" "unat p + unat n + 8 < 2 ^ 31"
  shows "\<exists>a' c. int_malloc_init a p n = Some a' \<and> flist a' [c] \<and> free_ok [c]
    \<and> chunk_bytes c \<subseteq> {unat p..<unat p + unat n} \<and> unat n < csize c + 15"
proof -
  define q where "q = size8 p"
  have p8: "unat p + 8 < 2 ^ 31" using assms by simp
  note q = size8_ok [OF assms(1) p8, folded q_def] unat_size8 [OF p8, folded q_def]
  define off where "off = unat q - unat p"
  have off: "unat q = unat p + off" "off < 8" using q(4,5) unfolding off_def by presburger+
  have s1: "sub32 q p = Some (q - p)" using q(3,4) by (intro sub32_nat) simp_all
  have uo: "unat (q - p) = off" using q(4) by (simp add: unat_sub word_le_nat_alt off_def)
  have s2: "sub32 n (q - p) = Some (n - (q - p))" using assms off(2) uo by (intro sub32_nat) simp_all
  define z where "z = n - (q - p)"
  have uz: "unat z = unat n - off"
    using assms(2) off(2) uo by (simp add: z_def unat_sub word_le_nat_alt)
  have "unat z < 2 ^ 31" using uz assms(3) by simp
  then have sz: "sint z = int (unat z)" by (rule sint_unat)
  have pos: "0 < sint z" unfolding sz uz using assms(2) off(2) by linarith
  define c where "c = (q, align_down z)"
  have c: "cstart c = unat q" "csize c = unat z - unat z mod 8"
    by (simp_all add: c_def cstart_def csize_def unat_align_down)
  have okc: "chunk_ok c"
    unfolding chunk_ok_def cend_def c using q off uz assms by (auto simp: minus_mod_eq_mult_div)
  let ?m = "(mem a)(q := align_down z, q + 4 := 0)"
  have "int_malloc_init a p n = Some (a\<lparr>first_free := q, mem := ?m\<rparr>)"
    using align_up_size8 [OF p8] s1 s2 pos st_chunk [OF okc]
    by (simp add: int_malloc_init_def q_def [symmetric] z_def [symmetric]) (simp add: c_def)
  moreover have "flist (a\<lparr>first_free := q, mem := ?m\<rparr>) [c]" by (simp add: c_def)
  moreover have "chunk_bytes c \<subseteq> {unat p..<unat p + unat n}"
    using off uz c assms(2) by (auto simp: chunk_bytes_def cend_def)
  moreover have "unat n < csize c + 15"
    using uz off(2) assms(2) mod_less_divisor [of 8 "unat z"] mod_less_eq_dividend [of "unat z" 8]
    unfolding c(2) by linarith
  ultimately show ?thesis using okc by (auto simp: free_ok_Cons)
qed

section \<open>Aligned allocation\<close>

lemma size8_self:
  assumes "8 dvd unat x" "unat x + 8 < 2 ^ 31"
  shows "size8 x = x"
proof -
  obtain k where "unat x = 8 * k" using assms(1) by (auto elim: dvdE)
  then have "unat (size8 x) = unat x" using unat_size8 [OF assms(2)] by simp
  then show ?thesis by (simp add: word_unat_eq_iff)
qed

text \<open>A part of a block that is aligned and a multiple of 8 long can be freed on its own.\<close>

lemma free_part:
  assumes "heap_rep lo hi a F" "8 dvd unat p" "8 dvd unat n" "0 < unat p" "0 < unat n"
    and "unat n + 8 < 2 ^ 31" "unat p + unat n < 2 ^ 32"
    and "{unat p..<unat p + unat n} \<inter> F = {}" "{unat p..<unat p + unat n} \<subseteq> {lo..<hi}"
  shows "\<exists>a'. int_malloc_free a p n = Some a' \<and> heap_rep lo hi a' (F \<union> {unat p..<unat p + unat n})"
proof -
  have z: "size8 n = n" using assms(3,6) by (rule size8_self)
  have "block_bytes (p, n) = {unat p..<unat p + unat n}"
    by (simp add: block_bytes_def z chunk_bytes_def cstart_def csize_def cend_def)
  moreover have "ok_live (p, n)"
    using assms(2-7) by (simp add: ok_live_def ok_request_def z chunk_ok_def cstart_def csize_def cend_def)
  ultimately show ?thesis using ih.de_law [OF assms(1), of p n] assms(8,9) by simp
qed

definition round_up :: "nat \<Rightarrow> nat \<Rightarrow> nat" where
  "round_up x n = (x + n - 1) - (x + n - 1) mod n"

lemma round_up_props:
  assumes "0 < n"
  shows "n dvd round_up x n" "x \<le> round_up x n" "round_up x n < x + n"
proof -
  have *: "(x + n - 1) mod n < n" using assms by simp
  show "n dvd round_up x n" by (simp add: round_up_def minus_mod_eq_mult_div)
  show "x \<le> round_up x n" using * assms unfolding round_up_def by linarith
  show "round_up x n < x + n" using assms unfolding round_up_def by linarith
qed

lemma unat_power32: "k < 32 \<Longrightarrow> unat (2 ^ k :: u32) = 2 ^ k"
proof -
  assume k: "k < 32"
  have "(2 ^ k :: u32) = of_nat (2 ^ k)" by simp
  then have "unat (2 ^ k :: u32) = 2 ^ k mod 2 ^ 32" by (simp only: unat_of_nat len_num1 len_bit0 len_of_numeral_defs mult_2) simp
  moreover have "(2 :: nat) ^ k < 2 ^ 32" using k by (intro power_strict_increasing) simp_all
  ultimately show ?thesis by simp
qed

lemma round_up_code:
  fixes r :: u32
  assumes "align = 2 ^ k" "k < 32" "unat r + 2 ^ k < 2 ^ 32"
  shows "unat ((r + align - 1) AND (- align)) = round_up (unat r) (2 ^ k)"
proof -
  have ua: "unat align = 2 ^ k" using unat_power32 assms(1,2) by simp
  have neg: "- align = NOT (mask k)" by (simp add: assms(1) mask_eq_exp_minus_1 not_eq_complement)
  have "unat (r + align) = unat r + 2 ^ k" using assms(3) ua by (simp add: unat_word_ariths)
  moreover from this have "r + align \<noteq> 0" using ua by (metis add_is_0 power_not_zero unat_0 zero_neq_numeral)
  ultimately have "unat (r + align - 1) = unat r + 2 ^ k - 1" by (simp add: unat_minus_one)
  then show ?thesis by (simp add: neg unat_and_not_mask round_up_def)
qed

lemma int_malloc_align_total:
  assumes rep: "heap_rep lo hi a F" and al: "align = 2 ^ k" "4 \<le> k" "k < 31"
    and n: "8 dvd unat n" "0 < unat n" "unat n + 2 ^ k + 40 < 2 ^ 31" and lo: "0 < lo"
    and first: "int_malloc a (n + align + 24) = Some (a1, r)" "r \<noteq> 0" "unat r + 2 ^ k < 2 ^ 32"
    and gap: "round_up (unat r) (2 ^ k) - unat r \<noteq> 8"
  shows "\<exists>a' p. int_malloc_align a n align = Some (a', p) \<and> 2 ^ k dvd unat p
    \<and> block_bytes (p, n) \<subseteq> F \<and> heap_rep lo hi a' (F - block_bytes (p, n))"
proof -
  have ua: "unat align = 2 ^ k" using unat_power32 al(1,3) by simp
  have d16: "(16 :: nat) dvd 2 ^ k" using al(2) le_imp_power_dvd [of 4 k "2 :: nat"] by simp
  then have d8: "(8 :: nat) dvd 2 ^ k" by (rule dvd_trans [rotated]) simp
  have a16: "16 \<le> (2 :: nat) ^ k" using d16 by (auto dest: dvd_imp_le)
  define sa where "sa = n + align + 24"
  have usa: "unat sa = unat n + 2 ^ k + 24"
    using n(3) ua by (simp add: sa_def unat_word_ariths)
  have dsa: "8 dvd unat sa" unfolding usa using n(1) d8 by simp
  have zsa: "size8 sa = sa" using dsa usa n(3) by (intro size8_self) simp_all
  have "\<exists>s' p. int_malloc a sa = Some (s', p) \<and> (p = 0 \<and> heap_rep lo hi s' F \<or> p \<noteq> 0 \<and> ok_live (p, sa)
      \<and> block_bytes (p, sa) \<subseteq> F \<and> heap_rep lo hi s' (F - block_bytes (p, sa)))"
    using usa n(3) by (intro ih.al_law [OF rep]) (simp add: ok_request_def)
  then have r: "ok_live (r, sa)" "block_bytes (r, sa) \<subseteq> F" "heap_rep lo hi a1 (F - block_bytes (r, sa))"
    using first(1,2) by (auto simp: sa_def)
  have bb: "block_bytes (r, sa) = {unat r..<unat r + unat sa}"
    by (simp add: block_bytes_def zsa chunk_bytes_def cstart_def csize_def cend_def)
  have rok: "8 dvd unat r" "unat r + unat sa < 2 ^ 32" "0 < unat r"
    using r(1) by (auto simp: ok_live_def zsa chunk_ok_def cstart_def csize_def cend_def)
  have Freg: "F \<subseteq> {lo..<hi}" using ih.rep_region [OF rep] .
  have "{unat r..<unat r + unat sa} \<subseteq> {lo..<hi}" using r(2) Freg bb by blast
  then have inr: "lo \<le> unat r" "unat r + unat sa \<le> hi" using usa by (simp_all add: ivl_subset)
  define p where "p = (r + align - 1) AND (- align)"
  have up: "unat p = round_up (unat r) (2 ^ k)"
    using round_up_code [OF al(1) _ first(3)] al(3) by (simp add: p_def)
  note ru = round_up_props [of "2 ^ k" "unat r", folded up]
  have p: "2 ^ k dvd unat p" "unat r \<le> unat p" "unat p < unat r + 2 ^ k" using ru by simp_all
  have dp: "8 dvd unat p" using d8 p(1) by (rule dvd_trans)
  define h where "h = p - r"
  have uh: "unat h = unat p - unat r" using p(2) by (simp add: h_def unat_sub word_le_nat_alt)
  have dh: "8 dvd unat h" unfolding uh using dp rok(1) by (rule dvd_diff_nat)
  have h16: "unat h = 0 \<or> 12 \<le> unat h"
  proof -
    obtain j where j: "unat h = 8 * j" using dh by (auto elim: dvdE)
    moreover have "unat h \<noteq> 8" using gap up uh by simp
    ultimately show ?thesis by presburger
  qed
  define t where "t = sa - h - n"
  have ut: "unat t = unat sa - unat h - unat n"
  proof -
    have "unat h \<le> unat sa" using uh p usa by simp
    then have "unat (sa - h) = unat sa - unat h" by (simp add: unat_sub word_le_nat_alt)
    moreover have "unat n \<le> unat sa - unat h" using uh p usa by simp
    ultimately show ?thesis by (simp add: t_def unat_sub word_le_nat_alt)
  qed
  have upn: "unat (p + n) = unat p + unat n"
    using p rok(2) usa by (simp add: unat_word_ariths)
  text \<open>After the header is freed.\<close>
  let ?F1 = "F - {unat r..<unat r + unat sa} \<union> {unat r..<unat p}"
  have hdr: "\<exists>a2. (if h \<noteq> 0 then int_malloc_free a1 r h else Some a1) = Some a2 \<and> heap_rep lo hi a2 ?F1"
  proof (cases "h = 0")
    case True
    then have "unat p = unat r" using uh p(2) by simp
    with True r(3) bb show ?thesis by simp
  next
    case False
    then have h0: "0 < unat h" by (simp add: unat_gt_0)
    have e: "unat r + unat h = unat p" using uh p(2) by simp
    have "\<exists>a2. int_malloc_free a1 r h = Some a2
        \<and> heap_rep lo hi a2 (F - block_bytes (r, sa) \<union> {unat r..<unat r + unat h})"
      using rok dh h0 p usa n(3) e inr
      by (intro free_part [OF r(3)]) (auto simp: bb)
    with False show ?thesis unfolding e bb by simp
  qed
  then obtain a2 where a2: "(if h \<noteq> 0 then int_malloc_free a1 r h else Some a1) = Some a2"
    "heap_rep lo hi a2 ?F1" by blast
  text \<open>After the tail is freed.\<close>
  have e2: "unat (p + n) + unat t = unat r + unat sa"
    using upn ut uh p usa by simp
  have "\<exists>a3. int_malloc_free a2 (p + n) t = Some a3
      \<and> heap_rep lo hi a3 (?F1 \<union> {unat (p + n)..<unat (p + n) + unat t})"
  proof (rule free_part [OF a2(2)])
    show "8 dvd unat (p + n)" unfolding upn using dp n(1) by simp
    show "8 dvd unat t" unfolding ut using dsa dh n(1) by (intro dvd_diff_nat)
    show "0 < unat (p + n)" using upn n(2) by simp
    show "0 < unat t" using ut uh p usa by simp
    show "unat t + 8 < 2 ^ 31" using ut usa n(3) by simp
    show "unat (p + n) + unat t < 2 ^ 32" using e2 rok(2) by simp
    show "{unat (p + n)..<unat (p + n) + unat t} \<inter> ?F1 = {}" unfolding e2 using upn p by auto
    show "{unat (p + n)..<unat (p + n) + unat t} \<subseteq> {lo..<hi}"
      unfolding e2 using upn p inr by auto
  qed
  then obtain a3 where a3: "int_malloc_free a2 (p + n) t = Some a3"
    "heap_rep lo hi a3 (?F1 \<union> {unat (p + n)..<unat r + unat sa})" unfolding e2 by blast
  have zn: "size8 n = n" using n by (intro size8_self) simp_all
  have bp: "block_bytes (p, n) = {unat p..<unat p + unat n}"
    by (simp add: block_bytes_def zn chunk_bytes_def cstart_def csize_def cend_def)
  have set: "?F1 \<union> {unat (p + n)..<unat r + unat sa} = F - block_bytes (p, n)"
    unfolding upn bp using p usa r(2)[unfolded bb] by auto
  have "add32 n align = Some (n + align)" using n(3) ua by (intro add32_nat) simp
  moreover have "\<not> sint align < 12"
  proof -
    have "unat align < 2 ^ 31" using ua n(3) by simp
    then have "sint align = int (2 ^ k)" unfolding ua [symmetric] by (rule sint_unat)
    moreover have "int 16 \<le> int (2 ^ k)" using a16 by (simp only: of_nat_le_iff)
    ultimately show ?thesis by linarith
  qed
  moreover have "\<not> (h \<noteq> 0 \<and> h < 12)" using h16 by (auto simp: word_less_nat_alt unat_eq_0)
  moreover have hp: "h = 0 \<longleftrightarrow> p = r" by (simp add: h_def)
  ultimately have "int_malloc_align a n align = Some (a3, p)"
    using first(1,2) a2(1) a3(1)
    by (auto simp: int_malloc_align_def Let_def sa_def [symmetric] p_def [symmetric] h_def [symmetric]
        t_def [symmetric] hp split: if_splits)
  moreover have "block_bytes (p, n) \<subseteq> F" unfolding bp using p usa r(2) [unfolded bb] by auto
  ultimately show ?thesis using p(1) a3(2) set by auto
qed

section \<open>Properties\<close>

text \<open>C4: \<open>__malloc\<close> implements first fit on the free list: for a size that is positive and
  does not overflow it returns, serves the request from the end of the first chunk that is large
  enough, or returns null and leaves the list alone when there is none; the block is 8-aligned and
  cut out of the free bytes, and no word outside the free bytes is written.\<close>

theorem int_malloc_first_fit:
  assumes "flist a cs" "free_ok cs" "0 < unat n" "unat n + 8 < 2 ^ 31"
  shows "\<exists>a' p cs'. alloc (size8 n) cs = (p, cs') \<and> int_malloc a n = Some (a', p) \<and> flist a' cs' \<and> free_ok cs'
    \<and> frame (mem a) (mem a') (free_bytes cs)
    \<and> (if p = 0 then cs' = cs \<and> (\<forall>c \<in> set cs. csize c < unat (size8 n))
       else 8 dvd unat p \<and> chunk_bytes (p, size8 n) \<subseteq> free_bytes cs
         \<and> free_bytes cs' = free_bytes cs - chunk_bytes (p, size8 n))"
proof -
  obtain p cs' where al: "alloc (size8 n) cs = (p, cs')" by (cases "alloc (size8 n) cs")
  then obtain a' where "int_malloc a n = Some (a', p)" "flist a' cs'"
    "frame (mem a) (mem a') (free_bytes cs)"
    using int_malloc_refines [OF assms] by (auto simp: frame_def)
  moreover note size8_ok [OF assms(3,4)]
  ultimately show ?thesis
    using al assms(2) alloc_success [OF assms(2) _ _ al] alloc_null [OF assms(2), of "size8 n" cs']
      alloc_fail_iff [OF assms(2), of "size8 n"]
    by (cases "p = 0") (auto simp: chunk_ok_def cstart_def)
qed

text \<open>C5: \<open>__malloc_free\<close> implements coalescing deallocation: the bytes of the block are added
  to the free bytes, the list stays sorted with no two touching chunks, and only words of the block
  and of free chunks are written.\<close>

theorem int_malloc_free_coalesces:
  assumes "flist a cs" "free_ok cs" "unat n + 8 < 2 ^ 31" "chunk_ok (p, size8 n)"
    and "chunk_bytes (p, size8 n) \<inter> free_bytes cs = {}"
    and "chunk_bytes (p, size8 n) \<union> free_bytes cs \<subseteq> {lo..<hi}" "hi < lo + 2 ^ 31"
  shows "\<exists>a' cs'. cs' = dealloc (p, size8 n) cs \<and> int_malloc_free a p n = Some a' \<and> flist a' cs' \<and> free_ok cs'
    \<and> free_bytes cs' = free_bytes cs \<union> chunk_bytes (p, size8 n)
    \<and> frame (mem a) (mem a') (chunk_bytes (p, size8 n) \<union> free_bytes cs)"
  using int_malloc_free_refines [OF assms(1-3) refl assms(4-7)] dealloc_props [OF assms(4,2,5-7)] by auto

text \<open>Freeing a block right after it was allocated restores the free list exactly: no
  fragmentation is left behind.\<close>

theorem malloc_free_restores:
  assumes "flist a cs" "free_ok cs" "0 < unat n" "unat n + 8 < 2 ^ 31"
    and "free_bytes cs \<subseteq> {lo..<hi}" "hi < lo + 2 ^ 31"
    and "int_malloc a n = Some (a', p)" "p \<noteq> 0"
  shows "\<exists>a''. int_malloc_free a' p n = Some a'' \<and> flist a'' cs"
proof -
  obtain cs' where al: "alloc (size8 n) cs = (p, cs')" "flist a' cs'"
    using int_malloc_refines [OF assms(1-4)] assms(7) by (cases "alloc (size8 n) cs") auto
  note z = size8_ok(1,2) [OF assms(3,4)]
  note s = alloc_success [OF assms(2) z al(1) assms(8)]
  have "chunk_bytes (p, size8 n) \<inter> free_bytes cs' = {}"
    "chunk_bytes (p, size8 n) \<union> free_bytes cs' \<subseteq> {lo..<hi}" using s(3,4) assms(5) by auto
  then show ?thesis
    using int_malloc_free_refines [OF al(2) s(2) assms(4) refl s(1) _ _ assms(6)]
      dealloc_alloc [OF assms(2) z al(1) assms(8,5,6)] by auto
qed

text \<open>C2: Any sequence of allocations and deallocations on a well-formed heap runs without fault,
  and the blocks that are live afterwards are pairwise disjoint and disjoint from the free memory;
  free and live bytes together are always the memory the heap started with.\<close>

theorem heap_clients_separate:
  assumes "flist a cs" "free_ok cs" "free_bytes cs \<subseteq> {lo..<hi}" "hi < lo + 2 ^ 31"
    and "\<forall>n. Alloc n \<in> set rs \<longrightarrow> 0 < unat n \<and> unat n + 8 < 2 ^ 31"
  shows "\<exists>a' live cs'. serve_all int_malloc int_malloc_free rs (a, []) = Some (a', live)
    \<and> flist a' cs' \<and> free_ok cs' \<and> separate block_bytes live
    \<and> free_bytes cs' \<inter> owned block_bytes live = {}
    \<and> free_bytes cs' \<union> owned block_bytes live = free_bytes cs"
proof -
  have "ih.consistent lo hi (free_bytes cs) (a, [])"
    using assms(1-4) by (auto simp: ih.consistent_def heap_rep_def)
  then have "\<exists>y. serve_all int_malloc int_malloc_free rs (a, []) = Some y \<and> ih.consistent lo hi (free_bytes cs) y"
    using assms(5) by (intro ih.serve_all_consistent) (auto simp: ok_request_def)
  then show ?thesis by (fastforce simp: ih.consistent_def heap_rep_def)
qed

text \<open>No leak and no lasting fragmentation: after any sequence of requests, once the client has
  freed its live blocks, the free list is the one it started with.\<close>

theorem heap_no_leak:
  assumes "flist a cs" "free_ok cs" "free_bytes cs \<subseteq> {lo..<hi}" "hi < lo + 2 ^ 31"
    and "\<forall>n. Alloc n \<in> set rs \<longrightarrow> 0 < unat n \<and> unat n + 8 < 2 ^ 31"
    and "serve_all int_malloc int_malloc_free rs (a, []) = Some (a', live)"
  shows "\<exists>a''. serve_all int_malloc int_malloc_free (replicate (length live) (Free 0)) (a', live) = Some (a'', [])
    \<and> flist a'' cs"
proof -
  have "heap_rep lo hi a (free_bytes cs)" using assms(1-4) by (auto simp: heap_rep_def)
  then obtain a'' where
    f: "serve_all int_malloc int_malloc_free (replicate (length live) (Free 0)) (a', live) = Some (a'', [])"
    and "heap_rep lo hi a'' (free_bytes cs)"
    using ih.no_leak [of lo hi a "free_bytes cs" rs a' live] assms(5,6) by (auto simp: ok_request_def)
  then obtain ds where "flist a'' ds" "free_ok ds" "free_bytes ds = free_bytes cs"
    by (auto simp: heap_rep_def)
  with free_list_unique [OF _ assms(2)] f show ?thesis by auto
qed

text \<open>Initialising the allocator on a memory block of at least 16 bytes gives a well-formed heap
  of one 8-aligned chunk inside the block that wastes fewer than 15 bytes.\<close>

theorem int_malloc_init_ok:
  assumes "0 < unat p" "16 \<le> unat n" "unat p + unat n + 8 < 2 ^ 31"
  shows "\<exists>a' c. int_malloc_init a p n = Some a' \<and> flist a' [c] \<and> free_ok [c]
    \<and> chunk_bytes c \<subseteq> {unat p..<unat p + unat n} \<and> unat n < csize c + 15"
  using assms by (rule int_malloc_init_total)

text \<open>\<open>__malloc_align\<close> is correct when the gap in front of the aligned block is not 8 bytes:
  for a power of two of at least 16 and a size that is a multiple of 8, the block returned is
  aligned, is taken from the free bytes, and everything else allocated on the way is free again.\<close>

theorem int_malloc_align_ok:
  assumes "heap_rep lo hi a F" and "align = 2 ^ k" "4 \<le> k" "k < 31"
    and "8 dvd unat n" "0 < unat n" "unat n + 2 ^ k + 40 < 2 ^ 31" and "0 < lo"
    and "int_malloc a (n + align + 24) = Some (a1, r)" "r \<noteq> 0" "unat r + 2 ^ k < 2 ^ 32"
    and "round_up (unat r) (2 ^ k) - unat r \<noteq> 8"
  shows "\<exists>a' p. int_malloc_align a n align = Some (a', p) \<and> 2 ^ k dvd unat p
    \<and> block_bytes (p, n) \<subseteq> F \<and> heap_rep lo hi a' (F - block_bytes (p, n))"
  using assms by (rule int_malloc_align_total)

section \<open>A concrete heap\<close>

definition example_heap :: heap where
  "example_heap = \<lparr>first_free = 0x1000, mem = (\<lambda>_. 0)(0x1000 := 0x40)\<rparr>"

abbreviation example_chunks :: "chunk list" where
  "example_chunks \<equiv> [(0x1000, 0x40)]"

lemma example_ok:
  "flist example_heap example_chunks" "free_ok example_chunks"
  "free_bytes example_chunks \<subseteq> {0x1000..<0x1040}"
  by (simp_all add: example_heap_def free_ok_Cons chunk_ok_def cstart_def csize_def cend_def chunk_bytes_def)

lemma example_size: "unat (size8 10) = 16"
  using unat_size8 [of 10] by simp

lemma example_alloc: "alloc (size8 10) example_chunks = (0x1030, [(0x1000, 0x30)])"
proof -
  have "size8 10 = 16" using example_size by (simp add: word_unat_eq_iff)
  then show ?thesis by (simp add: alloc_def csize_def)
qed

lemma int_malloc_first_fit_witness:
  "\<exists>a' cs'. int_malloc example_heap 10 = Some (a', 0x1030) \<and> flist a' cs'
    \<and> free_bytes cs' = free_bytes example_chunks - chunk_bytes (0x1030, size8 10)"
proof -
  obtain a' p cs' where "alloc (size8 10) example_chunks = (p, cs')" "int_malloc example_heap 10 = Some (a', p)"
    "flist a' cs'" "if p = 0 then cs' = example_chunks \<and> (\<forall>c \<in> set example_chunks. csize c < unat (size8 10))
       else 8 dvd unat p \<and> chunk_bytes (p, size8 10) \<subseteq> free_bytes example_chunks
         \<and> free_bytes cs' = free_bytes example_chunks - chunk_bytes (p, size8 10)"
    using int_malloc_first_fit [where n = 10, OF example_ok(1,2)]
    by (auto simp del: fseg.simps free_bytes_simps)
  moreover from this(1) have "p = 0x1030" using example_alloc by simp
  ultimately show ?thesis by (auto simp del: fseg.simps free_bytes_simps)
qed

lemma int_malloc_free_coalesces_witness:
  "\<exists>a'. int_malloc_free example_heap 0x1040 10 = Some a'
    \<and> flist a' (dealloc (0x1040, size8 10) example_chunks)"
proof -
  have ok: "chunk_ok (0x1040, size8 10)"
    by (simp add: chunk_ok_def cstart_def csize_def cend_def example_size)
  have b: "chunk_bytes (0x1040, size8 10) = {0x1040..<0x1050}"
    by (simp add: chunk_bytes_def cstart_def csize_def cend_def example_size)
  have f: "free_bytes example_chunks = {0x1000..<0x1040}"
    by (simp add: chunk_bytes_def cstart_def csize_def cend_def)
  show ?thesis
    using int_malloc_free_coalesces [where lo = 4096 and hi = 4176, OF example_ok(1,2) _ ok]
    unfolding b f by auto
qed

lemma malloc_free_restores_witness:
  "\<exists>a' p a''. int_malloc example_heap 10 = Some (a', p) \<and> p \<noteq> 0 \<and> int_malloc_free a' p 10 = Some a''
    \<and> flist a'' example_chunks"
proof -
  obtain a' where "int_malloc example_heap 10 = Some (a', 0x1030)"
    using int_malloc_refines [where sz = 10, OF example_ok(1,2)] example_alloc by auto
  with malloc_free_restores [OF example_ok(1,2) _ _ example_ok(3) _ this] show ?thesis by auto
qed

lemma heap_clients_separate_witness:
  "\<exists>a' live cs'. serve_all int_malloc int_malloc_free [Alloc 10, Alloc 20, Free 1] (example_heap, []) = Some (a', live)
    \<and> flist a' cs' \<and> separate block_bytes live \<and> free_bytes cs' \<inter> owned block_bytes live = {}"
  using heap_clients_separate [where rs = "[Alloc 10, Alloc 20, Free 1]", OF example_ok]
  by (auto simp del: fseg.simps free_bytes_simps)

lemma heap_no_leak_witness:
  "\<exists>a' live a''. serve_all int_malloc int_malloc_free [Alloc 10, Alloc 20, Free 1] (example_heap, []) = Some (a', live)
    \<and> serve_all int_malloc int_malloc_free (replicate (length live) (Free 0)) (a', live) = Some (a'', [])
    \<and> flist a'' example_chunks"
proof -
  have "ih.consistent 0x1000 0x1040 (free_bytes example_chunks) (example_heap, [])"
    unfolding ih.consistent_def heap_rep_def using example_ok
    by (intro conjI exI [of _ "free_bytes example_chunks"] exI [of _ example_chunks])
      (auto simp del: fseg.simps free_bytes_simps)
  then have "\<exists>y. serve_all int_malloc int_malloc_free [Alloc 10, Alloc 20, Free 1] (example_heap, []) = Some y \<and>
      ih.consistent 0x1000 0x1040 (free_bytes example_chunks) y"
    by (rule ih.serve_all_consistent) (auto simp: ok_request_def)
  then obtain a' live where
    "serve_all int_malloc int_malloc_free [Alloc 10, Alloc 20, Free 1] (example_heap, []) = Some (a', live)"
    by fastforce
  with heap_no_leak [OF example_ok _ _ this] show ?thesis by auto
qed

lemma int_malloc_init_ok_witness:
  "\<exists>a' c. int_malloc_init example_heap 0x1004 100 = Some a' \<and> flist a' [c] \<and> 85 < csize c"
  using int_malloc_init_ok [of 4100 100 example_heap] by auto

lemma example_rep: "heap_rep 0x1000 0x1040 example_heap {0x1000..<0x1040}"
proof -
  have "free_bytes example_chunks = {0x1000..<0x1040}"
    by (simp add: chunk_bytes_def cstart_def csize_def cend_def)
  with example_ok show ?thesis unfolding heap_rep_def by (auto simp del: fseg.simps free_bytes_simps)
qed

lemma int_malloc_align_ok_witness:
  "\<exists>a' p. int_malloc_align example_heap 8 16 = Some (a', p) \<and> 16 dvd unat p
    \<and> block_bytes (p, 8) \<subseteq> {0x1000..<0x1040}"
proof -
  have "size8 (8 + 16 + 24) = 48" by (rule trans [OF size8_self]) simp_all
  then have "alloc (size8 (8 + 16 + 24)) example_chunks = (0x1010, [(0x1000, 0x10)])"
    by (simp add: alloc_def csize_def)
  then obtain a1 where "int_malloc example_heap (8 + 16 + 24) = Some (a1, 0x1010)"
    using int_malloc_refines [where sz = "8 + 16 + 24", OF example_ok(1,2)] by auto
  then show ?thesis
    using int_malloc_align_ok [OF example_rep, of 16 4 8 a1 4112] by (auto simp: round_up_def)
qed

text \<open>With a gap of 8 bytes the code moves to the next aligned address but still computes the sizes
  from the first one. Here the heap is one chunk of 64 bytes from \<open>0x1008\<close>; a block of 8 bytes
  aligned to 16 is asked for. The code returns \<open>0x1030\<close> and frees 32 bytes from
  \<open>0x1038\<close>, up to \<open>0x1058\<close>, which is 16 bytes past the end of the chunk, and the bytes
  from \<open>0x1020\<close> to \<open>0x1030\<close> are lost.\<close>

definition gap_heap :: heap where
  "gap_heap = \<lparr>first_free = 0x1008, mem = (\<lambda>_. 0)(0x1008 := 0x40)\<rparr>"

lemma int_malloc_align_gap8:
  "\<exists>a'. int_malloc_align gap_heap 8 16 = Some (a', 0x1030) \<and> flist a' [(0x1008, 0x18), (0x1038, 0x20)]"
proof -
  have sz: "size8 48 = 48" "size8 8 = 8" "size8 32 = 32" by (rule size8_self; simp)+
  note cs = chunk_ok_def cstart_def csize_def cend_def chunk_bytes_def
  have g: "flist gap_heap [(0x1008, 0x40)]" "free_ok [(0x1008, 0x40)]"
    by (simp_all add: gap_heap_def free_ok_Cons cs)
  have "alloc (size8 48) [(0x1008, 0x40)] = (0x1018, [(0x1008, 0x10)])"
    by (simp add: sz alloc_def csize_def)
  then obtain a1 where a1: "int_malloc gap_heap 48 = Some (a1, 0x1018)" "flist a1 [(0x1008, 0x10)]"
    using int_malloc_refines [OF g, of 48] by (auto simp del: fseg.simps)
  have "dealloc (0x1018, 8) [(0x1008, 0x10)] = [(0x1008, 0x18)]"
    by (simp add: dealloc_def join_def)
  then obtain a2 where a2: "int_malloc_free a1 0x1018 8 = Some a2" "flist a2 [(0x1008, 0x18)]"
    using int_malloc_free_refines [where c = "(0x1018, 8)" and sz = 8 and p = "0x1018" and lo = 4096 and hi = 5000, OF a1(2)]
    by (auto simp: free_ok_Cons cs sz simp del: fseg.simps)
  have "dealloc (0x1038, 32) [(0x1008, 0x18)] = [(0x1008, 0x18), (0x1038, 0x20)]"
    by (simp add: dealloc_def join_def)
  then obtain a3 where a3: "int_malloc_free a2 0x1038 32 = Some a3" "flist a3 [(0x1008, 0x18), (0x1038, 0x20)]"
    using int_malloc_free_refines [where c = "(0x1038, 32)" and sz = 32 and p = "0x1038" and lo = 4096 and hi = 5000, OF a2(2)]
    by (auto simp: free_ok_Cons cs sz simp del: fseg.simps)
  have "add32 8 16 = Some 24" using add32_nat [of 8 16] by simp
  with a1(1) a2(1) a3(1) have "int_malloc_align gap_heap 8 16 = Some (a3, 0x1030)"
    by (simp add: int_malloc_align_def Let_def)
  with a3(2) show ?thesis by blast
qed

end
