(* ===== verification/MallocFronts.thy ===== *)
theory MallocFronts
  imports MallocInternal
begin

text \<open>
  The three heaps of the GVSOC target on top of the internal allocator, and the allocator with a
  size header that the other code calls: \<open>l2_malloc.c\<close>, \<open>fc_l1_malloc.c\<close>, \<open>cl_l1_malloc.c\<close> and
  \<open>pi_malloc.c\<close> in \<open>src/cmake/targets/gvsoc/libc/malloc\<close>, with the locking they use from
  \<open>drivers/include/os.h\<close> and \<open>target/arch/riscv.h\<close>. The heaps are three \<open>malloc_t\<close> in one memory.
\<close>

section \<open>State\<close>

text \<open>\<open>failures\<close> counts the messages \<open>Malloc failed\<close>.\<close>

record mcu =
  ram :: memory
  mstatus :: u32
  fc_l1_malloc :: u32
  fc_l1_malloc_spinlock :: u32
  l2_malloc :: u32
  l2_malloc_spinlock :: u32
  cl_l1_malloc :: u32
  failures :: nat

section \<open>Interrupts and spinlocks\<close>

definition disable_irq :: "mcu \<Rightarrow> u32 \<times> mcu" where
  "disable_irq s = (mstatus s, s\<lparr>mstatus := mstatus s AND NOT 8\<rparr>)"

definition restore_irq :: "u32 \<Rightarrow> mcu \<Rightarrow> mcu" where
  "restore_irq irq s = s\<lparr>mstatus := irq\<rparr>"

text \<open>A spinlock is named by the update of its field.\<close>

type_synonym spinlock = "(u32 \<Rightarrow> u32) \<Rightarrow> mcu \<Rightarrow> mcu"

definition pmsis_spinlock_init :: "spinlock \<Rightarrow> mcu \<Rightarrow> mcu" where
  "pmsis_spinlock_init lock s = lock (\<lambda>_. 0) s"

definition pmsis_spinlock_take :: "spinlock \<Rightarrow> mcu \<Rightarrow> mcu" where
  "pmsis_spinlock_take lock s = (case disable_irq s of (irq, s) \<Rightarrow> restore_irq irq (lock (\<lambda>_. 1) s))"

definition pmsis_spinlock_release :: "spinlock \<Rightarrow> mcu \<Rightarrow> mcu" where
  "pmsis_spinlock_release lock s = (case disable_irq s of (irq, s) \<Rightarrow> restore_irq irq (lock (\<lambda>_. 0) s))"

section \<open>The heap in the L2 memory\<close>

definition l2_heap :: "mcu \<Rightarrow> heap" where
  "l2_heap s = \<lparr>first_free = l2_malloc s, mem = ram s\<rparr>"

definition set_l2_heap :: "heap \<Rightarrow> mcu \<Rightarrow> mcu" where
  "set_l2_heap h s = s\<lparr>l2_malloc := first_free h, ram := mem h\<rparr>"

definition pi_l2_malloc :: "u32 \<Rightarrow> mcu \<Rightarrow> (u32 \<times> mcu) option" where
  "pi_l2_malloc sz s =
     do { let s = pmsis_spinlock_take l2_malloc_spinlock_update s;
          (h, ret_ptr) \<leftarrow> int_malloc (l2_heap s) sz;
          let s = pmsis_spinlock_release l2_malloc_spinlock_update (set_l2_heap h s);
          Some (ret_ptr, if ret_ptr = 0 then s\<lparr>failures := failures s + 1\<rparr> else s) }"

definition pi_l2_free :: "u32 \<Rightarrow> u32 \<Rightarrow> mcu \<Rightarrow> mcu option" where
  "pi_l2_free chunk sz s =
     do { let s = pmsis_spinlock_take l2_malloc_spinlock_update s;
          h \<leftarrow> int_malloc_free (l2_heap s) chunk sz;
          Some (pmsis_spinlock_release l2_malloc_spinlock_update (set_l2_heap h s)) }"

definition pi_l2_malloc_align :: "u32 \<Rightarrow> u32 \<Rightarrow> mcu \<Rightarrow> (u32 \<times> mcu) option" where
  "pi_l2_malloc_align sz align s =
     do { let s = pmsis_spinlock_take l2_malloc_spinlock_update s;
          (h, ret_ptr) \<leftarrow> int_malloc_align (l2_heap s) sz align;
          Some (ret_ptr, pmsis_spinlock_release l2_malloc_spinlock_update (set_l2_heap h s)) }"

definition pi_l2_malloc_init :: "u32 \<Rightarrow> u32 \<Rightarrow> mcu \<Rightarrow> mcu option" where
  "pi_l2_malloc_init heapstart heap_size s =
     do { h \<leftarrow> int_malloc_init (l2_heap s) heapstart heap_size;
          Some (pmsis_spinlock_init l2_malloc_spinlock_update (set_l2_heap h s)) }"

definition pi_l2_malloc_struct_set :: "u32 \<Rightarrow> mcu \<Rightarrow> mcu" where
  "pi_l2_malloc_struct_set malloc_struct s =
     (let s = pmsis_spinlock_take l2_malloc_spinlock_update s; s = s\<lparr>l2_malloc := malloc_struct\<rparr>
      in pmsis_spinlock_release l2_malloc_spinlock_update s)"

definition pi_l2_malloc_struct_get :: "mcu \<Rightarrow> u32 \<times> mcu" where
  "pi_l2_malloc_struct_get s =
     (let s = pmsis_spinlock_take l2_malloc_spinlock_update s; malloc_struct = l2_malloc s
      in (malloc_struct, pmsis_spinlock_release l2_malloc_spinlock_update s))"

section \<open>The heap in the L1 memory of the fabric controller\<close>

definition fc_l1_heap :: "mcu \<Rightarrow> heap" where
  "fc_l1_heap s = \<lparr>first_free = fc_l1_malloc s, mem = ram s\<rparr>"

definition set_fc_l1_heap :: "heap \<Rightarrow> mcu \<Rightarrow> mcu" where
  "set_fc_l1_heap h s = s\<lparr>fc_l1_malloc := first_free h, ram := mem h\<rparr>"

definition pi_fc_l1_malloc :: "u32 \<Rightarrow> mcu \<Rightarrow> (u32 \<times> mcu) option" where
  "pi_fc_l1_malloc sz s =
     do { let (irq, s) = disable_irq s;
          (h, ret_ptr) \<leftarrow> int_malloc (fc_l1_heap s) sz;
          Some (ret_ptr, restore_irq irq (set_fc_l1_heap h s)) }"

definition pi_fc_l1_free :: "u32 \<Rightarrow> u32 \<Rightarrow> mcu \<Rightarrow> mcu option" where
  "pi_fc_l1_free chunk sz s =
     do { let (irq, s) = disable_irq s;
          h \<leftarrow> int_malloc_free (fc_l1_heap s) chunk sz;
          Some (restore_irq irq (set_fc_l1_heap h s)) }"

definition pi_fc_l1_malloc_align :: "u32 \<Rightarrow> u32 \<Rightarrow> mcu \<Rightarrow> (u32 \<times> mcu) option" where
  "pi_fc_l1_malloc_align sz align s =
     do { let s = pmsis_spinlock_take fc_l1_malloc_spinlock_update s;
          (h, ret_ptr) \<leftarrow> int_malloc_align (fc_l1_heap s) sz align;
          Some (ret_ptr, pmsis_spinlock_release fc_l1_malloc_spinlock_update (set_fc_l1_heap h s)) }"

definition pi_fc_l1_malloc_init :: "u32 \<Rightarrow> u32 \<Rightarrow> mcu \<Rightarrow> mcu option" where
  "pi_fc_l1_malloc_init heapstart heap_size s =
     do { h \<leftarrow> int_malloc_init (fc_l1_heap s) heapstart heap_size;
          Some (pmsis_spinlock_init fc_l1_malloc_spinlock_update (set_fc_l1_heap h s)) }"

definition pi_fc_l1_malloc_struct_set :: "u32 \<Rightarrow> mcu \<Rightarrow> mcu" where
  "pi_fc_l1_malloc_struct_set malloc_struct s =
     (let s = pmsis_spinlock_take fc_l1_malloc_spinlock_update s; s = s\<lparr>fc_l1_malloc := malloc_struct\<rparr>
      in pmsis_spinlock_release fc_l1_malloc_spinlock_update s)"

definition pi_fc_l1_malloc_struct_get :: "mcu \<Rightarrow> u32 \<times> mcu" where
  "pi_fc_l1_malloc_struct_get s =
     (let s = pmsis_spinlock_take fc_l1_malloc_spinlock_update s; malloc_struct = fc_l1_malloc s
      in (malloc_struct, pmsis_spinlock_release fc_l1_malloc_spinlock_update s))"

section \<open>The heap in the L1 memory of the cluster\<close>

definition cl_l1_heap :: "mcu \<Rightarrow> heap" where
  "cl_l1_heap s = \<lparr>first_free = cl_l1_malloc s, mem = ram s\<rparr>"

definition set_cl_l1_heap :: "heap \<Rightarrow> mcu \<Rightarrow> mcu" where
  "set_cl_l1_heap h s = s\<lparr>cl_l1_malloc := first_free h, ram := mem h\<rparr>"

text \<open>The device argument is not used.\<close>

definition pi_cl_l1_malloc :: "u32 \<Rightarrow> mcu \<Rightarrow> (u32 \<times> mcu) option" where
  "pi_cl_l1_malloc sz s =
     do { let (irq, s) = disable_irq s;
          (h, ret_ptr) \<leftarrow> int_malloc (cl_l1_heap s) sz;
          Some (ret_ptr, restore_irq irq (set_cl_l1_heap h s)) }"

definition pi_cl_l1_free :: "u32 \<Rightarrow> u32 \<Rightarrow> mcu \<Rightarrow> mcu option" where
  "pi_cl_l1_free chunk sz s =
     do { let (irq, s) = disable_irq s;
          h \<leftarrow> int_malloc_free (cl_l1_heap s) chunk sz;
          Some (restore_irq irq (set_cl_l1_heap h s)) }"

definition pi_cl_l1_malloc_align :: "u32 \<Rightarrow> u32 \<Rightarrow> mcu \<Rightarrow> (u32 \<times> mcu) option" where
  "pi_cl_l1_malloc_align sz align s =
     do { (h, ret_ptr) \<leftarrow> int_malloc_align (cl_l1_heap s) sz align; Some (ret_ptr, set_cl_l1_heap h s) }"

definition pi_cl_l1_malloc_init :: "u32 \<Rightarrow> u32 \<Rightarrow> mcu \<Rightarrow> mcu option" where
  "pi_cl_l1_malloc_init heapstart heap_size s =
     do { h \<leftarrow> int_malloc_init (cl_l1_heap s) heapstart heap_size; Some (set_cl_l1_heap h s) }"

definition pi_cl_l1_malloc_struct_set :: "u32 \<Rightarrow> mcu \<Rightarrow> mcu" where
  "pi_cl_l1_malloc_struct_set malloc_struct s = s\<lparr>cl_l1_malloc := malloc_struct\<rparr>"

definition pi_cl_l1_malloc_struct_get :: "mcu \<Rightarrow> u32" where
  "pi_cl_l1_malloc_struct_get s = cl_l1_malloc s"

section \<open>The allocator with a size header\<close>

definition pi_malloc_init :: "u32 \<Rightarrow> u32 \<Rightarrow> u32 \<Rightarrow> u32 \<Rightarrow> mcu \<Rightarrow> mcu option" where
  "pi_malloc_init fc_heap_start fc_heap_size l2_heap_start l2_heap_size s =
     do { s \<leftarrow> pi_fc_l1_malloc_init fc_heap_start fc_heap_size s;
          pi_l2_malloc_init l2_heap_start l2_heap_size s }"

text \<open>The size is written in front of the block, through a null pointer when both heaps are full.\<close>

definition pi_malloc :: "u32 \<Rightarrow> mcu \<Rightarrow> (u32 \<times> mcu) option" where
  "pi_malloc sz s =
     do { let allocate_size = sz + 4;
          (ptr, s) \<leftarrow> pi_fc_l1_malloc allocate_size s;
          (ptr, s) \<leftarrow> (if ptr = 0 then pi_l2_malloc allocate_size s else Some (ptr, s));
          m \<leftarrow> st (ram s) ptr allocate_size;
          Some (ptr + 4, s\<lparr>ram := m\<rparr>) }"

definition pi_malloc_align :: "u32 \<Rightarrow> u32 \<Rightarrow> mcu \<Rightarrow> u32 \<times> mcu" where
  "pi_malloc_align sz align s = (0, s)"

text \<open>The macros that select the branch of \<open>pi_free\<close>; a target that defines none of them has none.\<close>

datatype soc = GAP8 | GAP9 | VEGA | OTHER_SOC

definition L2_SHARED_ADDR :: u32 where "L2_SHARED_ADDR = 0x1C000000"

definition pi_free :: "soc \<Rightarrow> u32 \<Rightarrow> mcu \<Rightarrow> mcu option" where
  "pi_free soc chunk s =
     do { let real_chunk = chunk - 4;
          sz \<leftarrow> ld (ram s) real_chunk;
          (case soc of
             GAP8 \<Rightarrow>
               (let area = (ucast (drop_bit 24 real_chunk) :: u8) in
                if area = 0x00 \<or> area = 0x1B then pi_fc_l1_free real_chunk sz s
                else if area = 0x1C then pi_l2_free real_chunk sz s
                else Some s)
           | OTHER_SOC \<Rightarrow> Some s
           | _ \<Rightarrow> if real_chunk < L2_SHARED_ADDR then pi_fc_l1_free real_chunk sz s
                  else pi_l2_free real_chunk sz s) }"

text \<open>The dumps: a line that names the heap, then its list.\<close>

definition pi_l2_malloc_dump :: "mcu \<Rightarrow> (string \<times> ((u32 \<times> u32 \<times> u32) \<times> bool) list) option" where
  "pi_l2_malloc_dump s = map_option (Pair ''L2 malloc dump:'') (int_malloc_dump (l2_heap s))"

definition pi_fc_l1_malloc_dump :: "mcu \<Rightarrow> (string \<times> ((u32 \<times> u32 \<times> u32) \<times> bool) list) option" where
  "pi_fc_l1_malloc_dump s = map_option (Pair ''FC L1 malloc dump:'') (int_malloc_dump (fc_l1_heap s))"

definition pi_cl_l1_malloc_dump :: "mcu \<Rightarrow> (string \<times> ((u32 \<times> u32 \<times> u32) \<times> bool) list) option" where
  "pi_cl_l1_malloc_dump s = map_option (Pair ''CL L1 malloc dump:'') (int_malloc_dump (cl_l1_heap s))"

definition pi_malloc_dump :: "mcu \<Rightarrow> (string \<times> ((u32 \<times> u32 \<times> u32) \<times> bool) list) list option" where
  "pi_malloc_dump s = do { fc \<leftarrow> pi_fc_l1_malloc_dump s; l2 \<leftarrow> pi_l2_malloc_dump s; Some [fc, l2] }"

section \<open>Every front is the internal allocator\<close>

lemmas irq_defs = disable_irq_def restore_irq_def pmsis_spinlock_init_def pmsis_spinlock_take_def pmsis_spinlock_release_def

lemma heap_locked [simp]:
  "l2_heap (s\<lparr>mstatus := v\<rparr>) = l2_heap s" "l2_heap (s\<lparr>l2_malloc_spinlock := w\<rparr>) = l2_heap s"
  "fc_l1_heap (s\<lparr>mstatus := v\<rparr>) = fc_l1_heap s" "cl_l1_heap (s\<lparr>mstatus := v\<rparr>) = cl_l1_heap s"
  by (simp_all add: l2_heap_def fc_l1_heap_def cl_l1_heap_def)

lemma pi_l2_malloc_eq:
  "pi_l2_malloc sz s = map_option (\<lambda>(h, p).
     (p, (set_l2_heap h s)\<lparr>l2_malloc_spinlock := 0, failures := failures s + (if p = 0 then 1 else 0)\<rparr>)) (int_malloc (l2_heap s) sz)"
  by (auto simp: pi_l2_malloc_def irq_defs Let_def set_l2_heap_def map_option_case split: option.splits)

lemma pi_l2_free_eq:
  "pi_l2_free p sz s = map_option (\<lambda>h. (set_l2_heap h s)\<lparr>l2_malloc_spinlock := 0\<rparr>) (int_malloc_free (l2_heap s) p sz)"
  by (auto simp: pi_l2_free_def irq_defs Let_def set_l2_heap_def map_option_case split: option.splits)

lemma pi_fc_l1_malloc_eq:
  "pi_fc_l1_malloc sz s = map_option (\<lambda>(h, p). (p, set_fc_l1_heap h s)) (int_malloc (fc_l1_heap s) sz)"
  by (auto simp: pi_fc_l1_malloc_def irq_defs Let_def set_fc_l1_heap_def map_option_case split: option.splits)

lemma pi_fc_l1_free_eq:
  "pi_fc_l1_free p sz s = map_option (\<lambda>h. set_fc_l1_heap h s) (int_malloc_free (fc_l1_heap s) p sz)"
  by (auto simp: pi_fc_l1_free_def irq_defs Let_def set_fc_l1_heap_def map_option_case split: option.splits)

section \<open>A block with a header\<close>

text \<open>One heap: allocate, write the first word of the block, free it again.\<close>

lemma headered_roundtrip:
  assumes "flist a cs" "free_ok cs" "0 < unat n" "unat n + 8 < 2 ^ 31"
    and reg: "free_bytes cs \<subseteq> {lo..<hi}" "hi < lo + 2 ^ 31"
    and "fst (alloc (size8 n) cs) \<noteq> 0"
  obtains a' p a'' where "int_malloc a n = Some (a', p)" "p \<noteq> 0" "chunk_ok (p, size8 n)"
    "chunk_bytes (p, size8 n) \<subseteq> free_bytes cs" "st (mem a') p v = Some ((mem a')(p := v))"
    "frame (mem a) ((mem a')(p := v)) (free_bytes cs)"
    "int_malloc_free (a'\<lparr>mem := (mem a')(p := v)\<rparr>) p n = Some a''" "flist a'' cs"
    "frame ((mem a')(p := v)) (mem a'') (free_bytes cs)"
proof -
  obtain p cs' where al: "alloc (size8 n) cs = (p, cs')" by fastforce
  then have p: "p \<noteq> 0" using assms(7) by simp
  obtain a' where a': "int_malloc a n = Some (a', p)" "flist a' cs'" "frame (mem a) (mem a') (free_bytes cs)"
    using int_malloc_refines [OF assms(1-4)] al by (auto simp: frame_def)
  note z = size8_ok(1,2) [OF assms(3,4)]
  note s = alloc_success [OF assms(2) z al p]
  let ?c = "(p, size8 n)" and ?a = "a'\<lparr>mem := (mem a')(p := v)\<rparr>"
  have hdr: "frame (mem a') ((mem a')(p := v)) (chunk_bytes ?c)"
    using hdr_in_bytes [OF s(1)] by (auto simp: frame_def)
  have "flist ?a cs'"
    using fseg_frame [OF a'(2) hdr] s(2,4) by (auto simp: free_ok_def)
  moreover have dis: "chunk_bytes ?c \<inter> free_bytes cs' = {}" "chunk_bytes ?c \<union> free_bytes cs' \<subseteq> {lo..<hi}"
    "chunk_bytes ?c \<union> free_bytes cs' = free_bytes cs" using s(3,4) reg(1) by auto
  ultimately obtain a'' where "int_malloc_free ?a p n = Some a''" "flist a'' (dealloc ?c cs')"
      "frame ((mem a')(p := v)) (mem a'') (free_bytes cs)"
    using int_malloc_free_refines [of ?a cs' n ?c p, OF _ s(2) assms(4) refl s(1) dis(1,2) reg(2)] by auto
  moreover have "dealloc ?c cs' = cs" by (rule dealloc_alloc [OF assms(2) z al p reg])
  moreover have "frame (mem a) ((mem a')(p := v)) (free_bytes cs)"
    using frame_mono [OF frame_trans [OF a'(3) hdr]] s(3) by auto
  ultimately show ?thesis using that a'(1) p s(1,3) chunk_ok_addr(1,2) [OF s(1)] by (simp add: st_def)
qed

text \<open>The two heaps where the memory map of the GAP processors has them.\<close>

definition fronts_rep :: "mcu \<Rightarrow> chunk list \<Rightarrow> chunk list \<Rightarrow> bool" where
  "fronts_rep s cs1 cs2 \<longleftrightarrow>
     flist (fc_l1_heap s) cs1 \<and> free_ok cs1 \<and> free_bytes cs1 \<subseteq> {0x1B000000..<0x1C000000} \<and>
     flist (l2_heap s) cs2 \<and> free_ok cs2 \<and> free_bytes cs2 \<subseteq> {0x1C000000..<0x1D000000}"

lemma area_of:
  fixes p :: u32
  assumes "a * 2 ^ 24 \<le> unat p" "unat p < (a + 1) * 2 ^ 24" "a < 256"
  shows "(ucast (drop_bit 24 p) :: u8) = word_of_nat a"
proof -
  have "unat p div 2 ^ 24 = a" using assms(1,2) by (simp add: div_nat_eqI)
  then have "unat (drop_bit 24 p) = a" by (simp add: drop_bit_eq_div unat_div)
  then show ?thesis by (metis of_nat_unat)
qed

text \<open>Where \<open>pi_free\<close> sends a block of either heap.\<close>

lemma pi_free_area:
  assumes "ld (ram s) p = Some sz" "soc \<noteq> OTHER_SOC"
  shows "0x1B000000 \<le> unat p \<Longrightarrow> unat p < 0x1C000000 \<Longrightarrow> pi_free soc (p + 4) s = pi_fc_l1_free p sz s"
    and "0x1C000000 \<le> unat p \<Longrightarrow> unat p < 0x1D000000 \<Longrightarrow> pi_free soc (p + 4) s = pi_l2_free p sz s"
proof -
  show "pi_free soc (p + 4) s = pi_fc_l1_free p sz s" if "0x1B000000 \<le> unat p" "unat p < 0x1C000000"
    using area_of [of 27 p] that assms
    by (cases soc) (simp_all add: pi_free_def L2_SHARED_ADDR_def word_less_nat_alt)
  show "pi_free soc (p + 4) s = pi_l2_free p sz s" if "0x1C000000 \<le> unat p" "unat p < 0x1D000000"
    using area_of [of 28 p] that assms
    by (cases soc) (simp_all add: pi_free_def L2_SHARED_ADDR_def word_less_nat_alt)
qed

lemma block_user_bytes:
  assumes "chunk_ok (p, size8 (sz + 4))" "unat sz + 12 < 2 ^ 31"
  shows "{unat (p + 4)..<unat (p + 4) + unat sz} \<subseteq> chunk_bytes (p, size8 (sz + 4))"
proof -
  have n: "unat (sz + 4) = unat sz + 4" using assms(2) by (simp add: unat_word_ariths)
  then have "unat sz + 4 \<le> unat (size8 (sz + 4))" using size8_ok(4) [of "sz + 4"] assms(2) by simp
  moreover have "unat (p + 4) = unat p + 4" using chunk_ok_addr(5) [OF assms(1)] by (simp add: cstart_def)
  ultimately show ?thesis by (auto simp: chunk_bytes_def cstart_def cend_def csize_def)
qed

text \<open>The heap that serves a request.\<close>

definition fits :: "u32 \<Rightarrow> chunk list \<Rightarrow> bool" where
  "fits sz cs \<longleftrightarrow> (\<exists>c\<in>set cs. unat (size8 (sz + 4)) \<le> csize c)"

lemma alloc_fits:
  assumes "free_ok cs" "unat sz + 12 < 2 ^ 31"
  shows "fst (alloc (size8 (sz + 4)) cs) \<noteq> 0 \<longleftrightarrow> fits sz cs"
proof -
  have "unat (sz + 4) = unat sz + 4" using assms(2) by (simp add: unat_word_ariths)
  then have "0 < unat (size8 (sz + 4))" using size8_ok(1) [of "sz + 4"] assms(2) by simp
  then show ?thesis using alloc_fail_iff [OF assms(1)] by (simp add: fits_def not_less)
qed

lemma flist_frame:
  assumes "fseg m p cs 0" "free_ok cs" "frame m m' A" "free_bytes cs \<inter> A = {}"
  shows "fseg m' p cs 0"
  using fseg_frame [OF assms(1,3) _ assms(4)] assms(2) by (simp add: free_ok_def)

lemma pi_malloc_fc:
  assumes rep: "fronts_rep s cs1 cs2" and sz: "unat sz + 12 < 2 ^ 31" and "fits sz cs1" "soc \<noteq> OTHER_SOC"
  shows "\<exists>p s' s''. pi_malloc sz s = Some (p, s') \<and>
    {unat p..<unat p + unat sz} \<subseteq> free_bytes cs1 \<and> frame (ram s) (ram s') (free_bytes cs1 \<union> free_bytes cs2) \<and>
    mstatus s' = mstatus s \<and> failures s' = failures s \<and>
    pi_free soc p s' = Some s'' \<and> fronts_rep s'' cs1 cs2 \<and> mstatus s'' = mstatus s"
proof -
  have n: "unat (sz + 4) = unat sz + 4" "0 < unat (sz + 4)" "unat (sz + 4) + 8 < 2 ^ 31"
    using sz by (simp_all add: unat_word_ariths)
  note r = rep [unfolded fronts_rep_def]
  let ?h = "fc_l1_heap s"
  obtain h' p h'' where h: "int_malloc ?h (sz + 4) = Some (h', p)" "p \<noteq> 0" "chunk_ok (p, size8 (sz + 4))"
    "chunk_bytes (p, size8 (sz + 4)) \<subseteq> free_bytes cs1" "st (mem h') p (sz + 4) = Some ((mem h')(p := sz + 4))"
    "frame (mem ?h) ((mem h')(p := sz + 4)) (free_bytes cs1)"
    "int_malloc_free (h'\<lparr>mem := (mem h')(p := sz + 4)\<rparr>) p (sz + 4) = Some h''" "flist h'' cs1"
    "frame ((mem h')(p := sz + 4)) (mem h'') (free_bytes cs1)"
    using headered_roundtrip [of ?h cs1 "sz + 4" 452984832 469762048 "sz + 4"] r n alloc_fits [OF _ sz] assms(3)
    by auto
  let ?m = "(mem h')(p := sz + 4)" and ?s = "(set_fc_l1_heap h' s)\<lparr>ram := (mem h')(p := sz + 4)\<rparr>"
  have "ld ?m p = Some (sz + 4)" using chunk_ok_addr(1,2) [OF h(3)] by (simp add: ld_def)
  moreover have "unat p \<in> free_bytes cs1" using chunk_bytes_nonempty [OF h(3)] h(4) by (auto simp: cstart_def)
  then have "0x1B000000 \<le> unat p" "unat p < 0x1C000000" using r by auto
  ultimately have "pi_free soc (p + 4) ?s = pi_fc_l1_free p (sz + 4) ?s"
    using assms(4) by (intro pi_free_area) simp_all
  moreover have "fc_l1_heap ?s = h'\<lparr>mem := ?m\<rparr>" by (simp add: fc_l1_heap_def set_fc_l1_heap_def)
  ultimately have free: "pi_free soc (p + 4) ?s = Some (set_fc_l1_heap h'' ?s)"
    using h(7) by (simp add: pi_fc_l1_free_eq)
  have fr: "frame (ram s) (mem h'') (free_bytes cs1)"
    using frame_trans [OF h(6) h(9)] by (simp add: fc_l1_heap_def)
  have "fseg (ram s) (l2_malloc s) cs2 0" "free_bytes cs2 \<inter> free_bytes cs1 = {}"
    using r by (simp add: l2_heap_def, fastforce)
  then have "fseg (mem h'') (l2_malloc s) cs2 0"
    using r flist_frame [OF _ _ fr] by blast
  then have "fronts_rep (set_fc_l1_heap h'' ?s) cs1 cs2"
    using r h(8) by (simp add: fronts_rep_def set_fc_l1_heap_def fc_l1_heap_def l2_heap_def)
  moreover have "pi_malloc sz s = Some (p + 4, ?s)"
    using h(1,2,5) by (simp add: pi_malloc_def pi_fc_l1_malloc_eq set_fc_l1_heap_def Let_def)
  moreover have "{unat (p + 4)..<unat (p + 4) + unat sz} \<subseteq> free_bytes cs1"
    using block_user_bytes [OF h(3) sz] h(4) by blast
  moreover have "frame (ram s) ?m (free_bytes cs1 \<union> free_bytes cs2)"
    using frame_mono [OF h(6)] by (simp add: fc_l1_heap_def)
  ultimately show ?thesis using free by (auto simp: set_fc_l1_heap_def)
qed

text \<open>A heap that cannot serve a request is left as it was.\<close>

lemma int_malloc_none:
  assumes "flist a cs" "free_ok cs" "unat sz + 12 < 2 ^ 31" "\<not> fits sz cs"
  obtains a' where "int_malloc a (sz + 4) = Some (a', 0)" "flist a' cs" "frame (mem a) (mem a') (free_bytes cs)"
proof -
  have n: "0 < unat (sz + 4)" "unat (sz + 4) + 8 < 2 ^ 31" using assms(3) by (simp_all add: unat_word_ariths)
  have "fst (alloc (size8 (sz + 4)) cs) = 0" using alloc_fits [OF assms(2,3)] assms(4) by blast
  then have "alloc (size8 (sz + 4)) cs = (0, cs)"
    using alloc_null [OF assms(2) size8_ok(1) [OF n]] by (metis prod.collapse)
  then show ?thesis using int_malloc_refines [OF assms(1,2) n] that by (auto simp: frame_def)
qed

lemma fronts_disjoint:
  "fronts_rep s cs1 cs2 \<Longrightarrow> free_bytes cs1 \<inter> free_bytes cs2 = {}"
  by (fastforce simp: fronts_rep_def)

lemma pi_malloc_l2:
  assumes rep: "fronts_rep s cs1 cs2" and sz: "unat sz + 12 < 2 ^ 31" and "\<not> fits sz cs1" "fits sz cs2" "soc \<noteq> OTHER_SOC"
  shows "\<exists>p s' s''. pi_malloc sz s = Some (p, s') \<and>
    {unat p..<unat p + unat sz} \<subseteq> free_bytes cs2 \<and> frame (ram s) (ram s') (free_bytes cs1 \<union> free_bytes cs2) \<and>
    mstatus s' = mstatus s \<and> failures s' = failures s \<and>
    pi_free soc p s' = Some s'' \<and> fronts_rep s'' cs1 cs2 \<and> mstatus s'' = mstatus s"
proof -
  have n: "unat (sz + 4) = unat sz + 4" "0 < unat (sz + 4)" "unat (sz + 4) + 8 < 2 ^ 31"
    using sz by (simp_all add: unat_word_ariths)
  note r = rep [unfolded fronts_rep_def] and dis = fronts_disjoint [OF rep]
  obtain a where a: "int_malloc (fc_l1_heap s) (sz + 4) = Some (a, 0)" "flist a cs1"
    "frame (mem (fc_l1_heap s)) (mem a) (free_bytes cs1)"
    using int_malloc_none [OF _ _ sz assms(3)] r by blast
  let ?s0 = "set_fc_l1_heap a s"
  have "fseg (ram s) (l2_malloc s) cs2 0" using r by (simp add: l2_heap_def)
  then have "flist (l2_heap ?s0) cs2"
    using flist_frame [OF _ _ a(3), of "l2_malloc s" cs2] r dis
    by (simp add: l2_heap_def fc_l1_heap_def set_fc_l1_heap_def Int_commute)
  then obtain h' p h'' where h: "int_malloc (l2_heap ?s0) (sz + 4) = Some (h', p)" "p \<noteq> 0" "chunk_ok (p, size8 (sz + 4))"
    "chunk_bytes (p, size8 (sz + 4)) \<subseteq> free_bytes cs2" "st (mem h') p (sz + 4) = Some ((mem h')(p := sz + 4))"
    "frame (mem (l2_heap ?s0)) ((mem h')(p := sz + 4)) (free_bytes cs2)"
    "int_malloc_free (h'\<lparr>mem := (mem h')(p := sz + 4)\<rparr>) p (sz + 4) = Some h''" "flist h'' cs2"
    "frame ((mem h')(p := sz + 4)) (mem h'') (free_bytes cs2)"
    using headered_roundtrip [of "l2_heap ?s0" cs2 "sz + 4" 469762048 486539264 "sz + 4"] r n alloc_fits [OF _ sz] assms(4)
    by auto
  let ?m = "(mem h')(p := sz + 4)"
  let ?s = "(set_l2_heap h' ?s0)\<lparr>l2_malloc_spinlock := 0, failures := failures s + 0, ram := ?m\<rparr>"
  have "ld ?m p = Some (sz + 4)" using chunk_ok_addr(1,2) [OF h(3)] by (simp add: ld_def)
  moreover have "unat p \<in> free_bytes cs2" using chunk_bytes_nonempty [OF h(3)] h(4) by (auto simp: cstart_def)
  then have "0x1C000000 \<le> unat p" "unat p < 0x1D000000" using r by auto
  ultimately have "pi_free soc (p + 4) ?s = pi_l2_free p (sz + 4) ?s"
    using assms(5) by (intro pi_free_area) simp_all
  moreover have "l2_heap ?s = h'\<lparr>mem := ?m\<rparr>" by (simp add: l2_heap_def set_l2_heap_def)
  ultimately have free: "pi_free soc (p + 4) ?s = Some ((set_l2_heap h'' ?s)\<lparr>l2_malloc_spinlock := 0\<rparr>)"
    using h(7) by (simp add: pi_l2_free_eq)
  have fr: "frame (mem a) (mem h'') (free_bytes cs2)"
    using frame_trans [OF h(6) h(9)] by (simp add: l2_heap_def set_fc_l1_heap_def)
  have "fseg (mem h'') (first_free a) cs1 0" using a(2) r dis flist_frame [OF _ _ fr] by blast
  then have "fronts_rep ((set_l2_heap h'' ?s)\<lparr>l2_malloc_spinlock := 0\<rparr>) cs1 cs2"
    using r h(8) by (simp add: fronts_rep_def set_l2_heap_def set_fc_l1_heap_def fc_l1_heap_def l2_heap_def)
  moreover have "pi_malloc sz s = Some (p + 4, ?s)"
    using a(1) h(1,2,5)
    by (simp add: pi_malloc_def pi_fc_l1_malloc_eq pi_l2_malloc_eq set_fc_l1_heap_def set_l2_heap_def Let_def)
  moreover have "{unat (p + 4)..<unat (p + 4) + unat sz} \<subseteq> free_bytes cs2"
    using block_user_bytes [OF h(3) sz] h(4) by blast
  moreover have "frame (ram s) ?m (free_bytes cs1 \<union> free_bytes cs2)"
    using frame_trans [OF a(3) h(6) [simplified l2_heap_def set_fc_l1_heap_def, simplified]] by (simp add: fc_l1_heap_def)
  ultimately show ?thesis using free by (auto simp: set_l2_heap_def set_fc_l1_heap_def)
qed

section \<open>Properties\<close>

text \<open>When neither heap can serve the request, the header is written through a null pointer.\<close>

lemma pi_malloc_exhausted:
  assumes "fronts_rep s cs1 cs2" "unat sz + 12 < 2 ^ 31" "\<not> fits sz cs1" "\<not> fits sz cs2"
  shows "pi_malloc sz s = None"
proof -
  note r = assms(1) [unfolded fronts_rep_def]
  obtain a where a: "int_malloc (fc_l1_heap s) (sz + 4) = Some (a, 0)" "flist a cs1"
    "frame (mem (fc_l1_heap s)) (mem a) (free_bytes cs1)"
    using int_malloc_none [OF _ _ assms(2,3)] r by blast
  have "fseg (ram s) (l2_malloc s) cs2 0" using r by (simp add: l2_heap_def)
  then have "flist (l2_heap (set_fc_l1_heap a s)) cs2"
    using flist_frame [OF _ _ a(3), of "l2_malloc s" cs2] r fronts_disjoint [OF assms(1)]
    by (simp add: l2_heap_def fc_l1_heap_def set_fc_l1_heap_def Int_commute)
  then obtain b where "int_malloc (l2_heap (set_fc_l1_heap a s)) (sz + 4) = Some (b, 0)"
    using int_malloc_none [OF _ _ assms(2,4)] r by blast
  with a(1) show ?thesis by (simp add: pi_malloc_def pi_fc_l1_malloc_eq pi_l2_malloc_eq st_def)
qed

lemma pi_free_reads: "pi_free soc p s = Some s' \<Longrightarrow> pi_free OTHER_SOC p s = Some s"
  by (auto simp: pi_free_def Let_def bind_Some_iff)

text \<open>C21: A request that one of the two heaps can serve returns a block of at least that many bytes inside the free
  memory of the L1 heap, or of the L2 heap when L1 has no room; nothing but free memory is written and interrupts are
  as before. On the processors that have a case in \<open>pi_free\<close> (GAP8, GAP9, VEGA) it finds size and heap again and
  restores both free lists exactly; on every other target, those of this repository among them, it changes nothing.
  A request that neither heap can serve is a write through a null pointer.\<close>

theorem pi_malloc_free_restores:
  assumes "fronts_rep s cs1 cs2" "unat sz + 12 < 2 ^ 31"
  shows "if fits sz cs1 \<or> fits sz cs2
    then \<exists>p s' s''. pi_malloc sz s = Some (p, s') \<and>
      {unat p..<unat p + unat sz} \<subseteq> (if fits sz cs1 then free_bytes cs1 else free_bytes cs2) \<and>
      frame (ram s) (ram s') (free_bytes cs1 \<union> free_bytes cs2) \<and>
      mstatus s' = mstatus s \<and> failures s' = failures s \<and>
      pi_free soc p s' = Some s'' \<and>
      (if soc = OTHER_SOC then s'' = s' else fronts_rep s'' cs1 cs2 \<and> mstatus s'' = mstatus s)
    else pi_malloc sz s = None"
proof (cases "fits sz cs1 \<or> fits sz cs2")
  case True
  define soc' where "soc' = (if soc = OTHER_SOC then GAP8 else soc)"
  then have o: "soc' \<noteq> OTHER_SOC" by simp
  have "\<exists>p s' s''. pi_malloc sz s = Some (p, s') \<and>
      {unat p..<unat p + unat sz} \<subseteq> (if fits sz cs1 then free_bytes cs1 else free_bytes cs2) \<and>
      frame (ram s) (ram s') (free_bytes cs1 \<union> free_bytes cs2) \<and>
      mstatus s' = mstatus s \<and> failures s' = failures s \<and>
      pi_free soc' p s' = Some s'' \<and> fronts_rep s'' cs1 cs2 \<and> mstatus s'' = mstatus s"
  proof (cases "fits sz cs1")
    case True
    then show ?thesis using pi_malloc_fc [OF assms(1,2) True o] by simp
  next
    case False
    with pi_malloc_l2 [OF assms(1,2) _ _ o] True show ?thesis by simp
  qed
  then obtain p s' s'' where r: "pi_malloc sz s = Some (p, s')"
    "{unat p..<unat p + unat sz} \<subseteq> (if fits sz cs1 then free_bytes cs1 else free_bytes cs2)"
    "frame (ram s) (ram s') (free_bytes cs1 \<union> free_bytes cs2)" "mstatus s' = mstatus s" "failures s' = failures s"
    "pi_free soc' p s' = Some s''" "fronts_rep s'' cs1 cs2" "mstatus s'' = mstatus s" by blast
  show ?thesis
  proof (cases "soc = OTHER_SOC")
    case other: True
    then show ?thesis using r(1-5) pi_free_reads [OF r(6)] True by auto
  next
    case False
    then show ?thesis using r True unfolding soc'_def by auto
  qed
qed (use pi_malloc_exhausted [OF assms] in simp)

definition sample_mcu :: mcu where
  "sample_mcu = \<lparr>ram = (\<lambda>_. 0)(0x1B000100 := 0x10, 0x1C000200 := 0x40), mstatus = 8,
     fc_l1_malloc = 0x1B000100, fc_l1_malloc_spinlock = 0, l2_malloc = 0x1C000200, l2_malloc_spinlock = 0,
     cl_l1_malloc = 0, failures = 0\<rparr>"

lemma sample_fronts: "fronts_rep sample_mcu [(0x1B000100, 0x10)] [(0x1C000200, 0x40)]"
  by (auto simp: fronts_rep_def sample_mcu_def fc_l1_heap_def l2_heap_def free_ok_Cons chunk_ok_def
      cstart_def csize_def cend_def chunk_bytes_def)

theorem pi_malloc_free_restores_witness:
  "\<exists>p s' s''. pi_malloc 20 sample_mcu = Some (p, s') \<and> pi_free GAP8 p s' = Some s'' \<and>
     fronts_rep s'' [(0x1B000100, 0x10)] [(0x1C000200, 0x40)]"
proof -
  have "fits 20 [(0x1C000200, 0x40)]" by (simp add: fits_def size8_def csize_def)
  then show ?thesis
    using pi_malloc_free_restores [OF sample_fronts, of 20 GAP8] by (auto split: if_splits)
qed

section \<open>Departures\<close>

text \<open>On every other target \<open>pi_free\<close> frees nothing.\<close>

lemma pi_free_other: "pi_free OTHER_SOC p s = Some s' \<Longrightarrow> s' = s"
  by (auto simp: pi_free_def Let_def bind_Some_iff)

end
