(* ===== verification/MallocExternal.thy ===== *)
theory MallocExternal
  imports MallocFronts
begin

text \<open>
  The allocator for memory the core cannot address, \<open>malloc_external.c\<close> of the GVSOC target: its
  free list consists of descriptors of 12 bytes (size, next, address of the chunk) that live in the
  L2 heap of theory \<open>MallocFronts\<close>. On a well-formed list it computes \<open>alloc\<close> and \<open>dealloc\<close> of
  theory \<open>FreeList\<close>, as the internal allocator does.
\<close>

section \<open>The operations\<close>

text \<open>\<open>ff\<close> is \<open>a->first_free\<close>. Results are the value returned, the new \<open>ff\<close> and the state.\<close>

definition malloc_extern_init :: "u32 \<Rightarrow> u32 \<Rightarrow> u32 \<Rightarrow> mcu \<Rightarrow> (u32 \<times> u32 \<times> mcu) option" where
  "malloc_extern_init ff chunk0 size0 s =
     (if size0 \<noteq> 0 then
        do { start_addr \<leftarrow> align_up chunk0;
             (chunk, s) \<leftarrow> pi_l2_malloc 12 s;
             if chunk = 0 then Some (1, ff, s)
             else do {
               let sz = size0 - (start_addr - chunk0);
               if 0 < sint sz then do {
                 m \<leftarrow> st (ram s) chunk (align_down sz);
                 m \<leftarrow> st m (chunk + 4) 0;
                 m \<leftarrow> st m (chunk + 8) start_addr;
                 Some (0, chunk, s\<lparr>ram := m\<rparr>) }
               else Some (0, ff, s) } }
      else Some (1, 0, s))"

definition malloc_extern_deinit :: "u32 \<Rightarrow> mcu \<Rightarrow> mcu option" where
  "malloc_extern_deinit ff s = pi_l2_free ff 12 s"

definition malloc_extern :: "u32 \<Rightarrow> u32 \<Rightarrow> mcu \<Rightarrow> (u32 \<times> u32 \<times> mcu) option" where
  "malloc_extern ff size0 s =
     do { sz \<leftarrow> align_up size0;
          (pt, prev) \<leftarrow> walk (ram s) (\<lambda>pt. do { z \<leftarrow> ld (ram s) pt; Some (sint z < sint sz) }) ff 0;
          if pt \<noteq> 0 then do {
            z \<leftarrow> ld (ram s) pt;
            if z = sz then do {
              n \<leftarrow> ld (ram s) (pt + 4);
              (ff, m) \<leftarrow> (if prev \<noteq> 0 then do { m \<leftarrow> st (ram s) (prev + 4) n; Some (ff, m) }
                         else Some (n, ram s));
              addr \<leftarrow> ld m (pt + 8);
              s \<leftarrow> pi_l2_free pt 12 (s\<lparr>ram := m\<rparr>);
              Some (addr, ff, s) }
            else do {
              addr \<leftarrow> ld (ram s) (pt + 8);
              d \<leftarrow> sub32 z sz;
              m \<leftarrow> st (ram s) pt d;
              Some (addr + z - sz, ff, s\<lparr>ram := m\<rparr>) } }
          else Some (0, ff, s) }"

text \<open>Deallocation in two steps: a descriptor for the block, that of a touching next chunk or a new
  one (null if there is no memory for it); then the link from or the merge with the previous one.\<close>

definition extern_descriptor :: "u32 \<Rightarrow> u32 \<Rightarrow> u32 \<Rightarrow> mcu \<Rightarrow> (u32 \<times> mcu) option" where
  "extern_descriptor nxt chunk sz s =
     do { touching \<leftarrow> (if nxt \<noteq> 0 then do { a \<leftarrow> ld (ram s) (nxt + 8); Some (chunk + sz = a) } else Some False);
          if touching then do {
            z \<leftarrow> ld (ram s) nxt; z \<leftarrow> add32 sz z;
            m \<leftarrow> st (ram s) nxt z;
            m \<leftarrow> st m (nxt + 8) chunk;
            Some (nxt, s\<lparr>ram := m\<rparr>) }
          else do {
            (d, s) \<leftarrow> pi_l2_malloc 12 s;
            if d = 0 then Some (0, s)
            else do {
              m \<leftarrow> st (ram s) d sz;
              m \<leftarrow> st m (d + 4) nxt;
              m \<leftarrow> st m (d + 8) chunk;
              Some (d, s\<lparr>ram := m\<rparr>) } } }"

definition extern_link :: "u32 \<Rightarrow> u32 \<Rightarrow> u32 \<Rightarrow> u32 \<Rightarrow> mcu \<Rightarrow> (u32 \<times> mcu) option" where
  "extern_link ff prev d chunk s =
     (if prev \<noteq> 0 then
        do { pa \<leftarrow> ld (ram s) (prev + 8); ps \<leftarrow> ld (ram s) prev;
             if pa + ps = chunk then do {
               z \<leftarrow> ld (ram s) d; z \<leftarrow> add32 ps z;
               m \<leftarrow> st (ram s) prev z;
               n \<leftarrow> ld m (d + 4);
               m \<leftarrow> st m (prev + 4) n;
               s \<leftarrow> pi_l2_free d 12 (s\<lparr>ram := m\<rparr>);
               Some (ff, s) }
             else do { m \<leftarrow> st (ram s) (prev + 4) d; Some (ff, s\<lparr>ram := m\<rparr>) } }
      else Some (d, s))"

definition malloc_extern_free :: "u32 \<Rightarrow> u32 \<Rightarrow> u32 \<Rightarrow> mcu \<Rightarrow> (u32 \<times> u32 \<times> mcu) option" where
  "malloc_extern_free ff chunk size0 s =
     do { sz \<leftarrow> align_up size0;
          (nxt, prev) \<leftarrow> walk (ram s) (\<lambda>pt. do { a \<leftarrow> ld (ram s) (pt + 8); Some (a < chunk) }) ff 0;
          (d, s) \<leftarrow> extern_descriptor nxt chunk sz s;
          if d = 0 then Some (1, ff, s)
          else do { (ff, s) \<leftarrow> extern_link ff prev d chunk s; Some (0, ff, s) } }"

section \<open>Descriptors\<close>

type_synonym entry = "u32 \<times> chunk"

definition desc_ok :: "u32 \<Rightarrow> bool" where "desc_ok d \<longleftrightarrow> chunk_ok (d, 16)"

definition desc_bytes :: "u32 \<Rightarrow> nat set" where "desc_bytes d = chunk_bytes (d, 16)"

definition all_desc_bytes :: "entry list \<Rightarrow> nat set" where
  "all_desc_bytes es = (\<Union>e\<in>set es. desc_bytes (fst e))"

lemma all_desc_bytes_simps [simp]:
  "all_desc_bytes [] = {}" "all_desc_bytes (e # es) = desc_bytes (fst e) \<union> all_desc_bytes es"
  "all_desc_bytes (es @ fs) = all_desc_bytes es \<union> all_desc_bytes fs"
  by (auto simp: all_desc_bytes_def)

fun descs_ok :: "entry list \<Rightarrow> bool" where
  "descs_ok [] \<longleftrightarrow> True"
| "descs_ok (e # es) \<longleftrightarrow> desc_ok (fst e) \<and> desc_bytes (fst e) \<inter> all_desc_bytes es = {} \<and> descs_ok es"

lemma descs_ok_append:
  "descs_ok (es @ fs) \<longleftrightarrow> descs_ok es \<and> descs_ok fs \<and> all_desc_bytes es \<inter> all_desc_bytes fs = {}"
  by (induction es) auto

lemma descs_okD: "descs_ok es \<Longrightarrow> e \<in> set es \<Longrightarrow> desc_ok (fst e) \<and> desc_bytes (fst e) \<subseteq> all_desc_bytes es"
  by (induction es) auto

lemma desc_fields:
  assumes "desc_ok d"
  shows "unat d \<in> desc_bytes d" "unat (d + 4) \<in> desc_bytes d" "unat (d + 8) \<in> desc_bytes d"
    "unat (d + 8) mod 4 = 0" "d + 8 \<noteq> 0"
proof -
  have d: "0 < unat d" "8 dvd unat d" "unat d + 16 < 2 ^ 32"
    using assms by (auto simp: desc_ok_def chunk_ok_def cstart_def cend_def csize_def)
  then have u: "unat (d + 4) = unat d + 4" "unat (d + 8) = unat d + 8" by (simp_all add: unat_word_ariths)
  show "unat d \<in> desc_bytes d" "unat (d + 4) \<in> desc_bytes d" "unat (d + 8) \<in> desc_bytes d"
    by (simp_all add: u desc_bytes_def chunk_bytes_def cstart_def cend_def csize_def)
  show "unat (d + 8) mod 4 = 0" using d(2) unfolding u by presburger
  show "d + 8 \<noteq> 0" using u(2) by (metis add_is_0 unat_0 zero_neq_numeral)
qed

lemma desc_access [memsafe]:
  assumes "desc_ok d"
  shows "d \<noteq> 0" "ld m d = Some (m d)" "ld m (d + 4) = Some (m (d + 4))" "ld m (d + 8) = Some (m (d + 8))"
    "st m d v = Some (m(d := v))" "st m (d + 4) v = Some (m(d + 4 := v))" "st m (d + 8) v = Some (m(d + 8 := v))"
  using assms ld_chunk [of "(d, 16)" m] st_chunk [of "(d, 16)" m v] desc_fields(4,5) [OF assms] chunk_ok_addr(1) [of "(d, 16)"]
  by (simp_all add: desc_ok_def ld_def st_def)

section \<open>The list of descriptors\<close>

fun eseg :: "memory \<Rightarrow> u32 \<Rightarrow> entry list \<Rightarrow> u32 \<Rightarrow> bool" where
  "eseg m p [] q \<longleftrightarrow> p = q"
| "eseg m p (e # es) q \<longleftrightarrow>
     p = fst e \<and> m p = snd (snd e) \<and> m (p + 8) = fst (snd e) \<and> eseg m (m (p + 4)) es q"

lemma eseg_append: "eseg m p (es @ fs) q \<longleftrightarrow> (\<exists>r. eseg m p es r \<and> eseg m r fs q)"
  by (induction es arbitrary: p) auto

lemma eseg_frame:
  assumes "eseg m p es q" "frame m m' A" "descs_ok es" "all_desc_bytes es \<inter> A = {}"
  shows "eseg m' p es q"
  using assms
proof (induction es arbitrary: p)
  case (Cons e es)
  then have "m' (fst e) = m (fst e)" "m' (fst e + 4) = m (fst e + 4)" "m' (fst e + 8) = m (fst e + 8)"
    using desc_fields [of "fst e"] unfolding frame_def by auto
  with Cons show ?case by auto
qed simp

lemma frame_desc:
  assumes "desc_ok d"
  shows "frame m (m(d := v)) (desc_bytes d)" "frame m (m(d + 4 := v)) (desc_bytes d)" "frame m (m(d + 8 := v)) (desc_bytes d)"
  using desc_fields [OF assms] by (auto simp: frame_def)

lemma walk_eseg:
  assumes "eseg m p es 0" "descs_ok es"
    and "\<And>e. e \<in> set es \<Longrightarrow> keep (fst e) = Some (P (snd e))"
  shows "walk m keep p prev =
    Some (case dropWhile (P \<circ> snd) es of [] \<Rightarrow> 0 | e # _ \<Rightarrow> fst e,
          if takeWhile (P \<circ> snd) es = [] then prev else fst (last (takeWhile (P \<circ> snd) es)))"
  using assms
proof (induction es arbitrary: p prev)
  case Nil
  then show ?case by (simp add: walk.simps)
next
  case (Cons e es)
  then have e: "p = fst e" "p \<noteq> 0" "ld m (p + 4) = Some (m (p + 4))" "keep p = Some (P (snd e))"
    by (auto simp: memsafe)
  have "walk m keep (m (p + 4)) p =
    Some (case dropWhile (P \<circ> snd) es of [] \<Rightarrow> 0 | e # _ \<Rightarrow> fst e,
          if takeWhile (P \<circ> snd) es = [] then p else fst (last (takeWhile (P \<circ> snd) es)))"
    using Cons.prems by (intro Cons.IH) auto
  with e show ?case by (subst walk.simps) auto
qed

section \<open>The L2 heap as the provider of descriptors\<close>

lemma size8_12: "size8 12 = 16"
  by (simp add: size8_def)

lemma heap_eta: "\<lparr>first_free = first_free h, mem = mem h\<rparr> = (h :: heap)"
  by (cases h) simp

lemma l2_take:
  assumes "heap_rep lo hi (l2_heap s) F"
  shows "\<exists>p s'. pi_l2_malloc 12 s = Some (p, s') \<and> frame (ram s) (ram s') F \<and>
    (if p = 0 then heap_rep lo hi (l2_heap s') F
     else desc_ok p \<and> desc_bytes p \<subseteq> F \<and> heap_rep lo hi (l2_heap s') (F - desc_bytes p))"
proof -
  obtain cs where cs: "flist (l2_heap s) cs" "free_ok cs" "free_bytes cs = F"
    using assms by (auto simp: heap_rep_def)
  have n: "0 < unat (12 :: u32)" "unat (12 :: u32) + 8 < 2 ^ 31" by simp_all
  obtain h where h: "int_malloc (l2_heap s) 12 = Some (h, fst (alloc (size8 12) cs))" "frame (ram s) (mem h) F"
    using int_malloc_refines [OF cs(1,2) n] cs(3) by (auto simp: frame_def l2_heap_def)
  obtain p where "int_malloc (l2_heap s) 12 = Some (h, p)"
    "p = 0 \<and> heap_rep lo hi h F \<or>
     p \<noteq> 0 \<and> ok_live (p, 12) \<and> block_bytes (p, 12) \<subseteq> F \<and> heap_rep lo hi h (F - block_bytes (p, 12))"
    using ih.al_law [OF assms, of 12] h(1) by (auto simp: ok_request_def)
  then show ?thesis using h(2)
    by (auto simp: pi_l2_malloc_eq ok_live_def block_bytes_def desc_ok_def desc_bytes_def size8_12 set_l2_heap_def l2_heap_def heap_eta)
qed

lemma l2_give:
  assumes "heap_rep lo hi (l2_heap s) F" "desc_ok d" "desc_bytes d \<inter> F = {}" "desc_bytes d \<subseteq> {lo..<hi}"
  shows "\<exists>s'. pi_l2_free d 12 s = Some s' \<and> frame (ram s) (ram s') (F \<union> desc_bytes d) \<and>
    heap_rep lo hi (l2_heap s') (F \<union> desc_bytes d)"
proof -
  obtain cs where cs: "flist (l2_heap s) cs" "free_ok cs" "free_bytes cs = F" "F \<subseteq> {lo..<hi}" "hi < lo + 2 ^ 31"
    using assms(1) by (auto simp: heap_rep_def)
  have b: "ok_live (d, 12)" "block_bytes (d, 12) = desc_bytes d"
    using assms(2) by (simp_all add: ok_live_def ok_request_def desc_ok_def block_bytes_def desc_bytes_def size8_12)
  obtain h where h: "int_malloc_free (l2_heap s) d 12 = Some h" "heap_rep lo hi h (F \<union> desc_bytes d)"
    using ih.de_law [OF assms(1) b(1)] assms(3,4) by (auto simp: b(2))
  have "frame (ram s) (mem h) (desc_bytes d \<union> F)"
    using int_malloc_free_refines [OF cs(1,2) _ refl, of 12 d lo hi] assms(2-4) cs(3-5) h(1)
    by (auto simp: size8_12 desc_ok_def desc_bytes_def l2_heap_def)
  then show ?thesis using h by (auto simp: pi_l2_free_eq set_l2_heap_def l2_heap_def heap_eta Un_commute)
qed

lemma heap_rep_frame:
  assumes "heap_rep lo hi (l2_heap s) F" "frame (ram s) m A" "A \<inter> F = {}"
  shows "heap_rep lo hi (l2_heap (s\<lparr>ram := m\<rparr>)) F"
proof -
  obtain cs where cs: "flist (l2_heap s) cs" "free_ok cs" "free_bytes cs = F" "F \<subseteq> {lo..<hi}" "hi < lo + 2 ^ 31"
    using assms(1) by (auto simp: heap_rep_def)
  then have "fseg m (l2_malloc s) cs 0"
    using flist_frame [of "ram s" "l2_malloc s" cs m A] assms(2,3) by (auto simp: l2_heap_def)
  then show ?thesis using cs by (auto simp: heap_rep_def l2_heap_def)
qed

section \<open>The invariant\<close>

text \<open>\<open>extern_rep lo hi R s ff cs\<close>: the descriptors from \<open>ff\<close> describe the free list \<open>cs\<close>; they are disjoint
  blocks of the L2 heap, which is well formed, and the free L2 bytes and the descriptors together
  are \<open>R\<close>.\<close>

definition extern_state :: "nat \<Rightarrow> nat \<Rightarrow> mcu \<Rightarrow> u32 \<Rightarrow> entry list \<Rightarrow> nat set \<Rightarrow> bool" where
  "extern_state lo hi s ff es F \<longleftrightarrow>
     eseg (ram s) ff es 0 \<and> descs_ok es \<and> heap_rep lo hi (l2_heap s) F \<and> F \<inter> all_desc_bytes es = {} \<and>
     all_desc_bytes es \<subseteq> {lo..<hi}"

definition extern_rep :: "nat \<Rightarrow> nat \<Rightarrow> nat set \<Rightarrow> mcu \<Rightarrow> u32 \<Rightarrow> chunk list \<Rightarrow> bool" where
  "extern_rep lo hi R s ff cs \<longleftrightarrow>
     (\<exists>es F. extern_state lo hi s ff es F \<and> map snd es = cs \<and> free_ok cs \<and> F \<union> all_desc_bytes es = R)"

lemma extern_sizes:
  fixes sz :: u32
  assumes "eseg m p es q" "descs_ok es" "\<forall>e\<in>set es. chunk_ok (snd e)" "e \<in> set es" "unat sz < 2 ^ 31"
  shows "do { z \<leftarrow> ld m (fst e); Some (sint z < sint sz) } = Some (csize (snd e) < unat sz)"
proof -
  have "m (fst e) = snd (snd e)" using assms(1,4) by (induction es arbitrary: p) auto
  moreover have "unat (snd (snd e)) < 2 ^ 31" using assms(3,4) by (auto simp: chunk_ok_def csize_def)
  then have "sint (snd (snd e)) = int (unat (snd (snd e)))" "sint sz = int (unat sz)" using sint_unat assms(5) by blast+
  then have "sint (snd (snd e)) < sint sz \<longleftrightarrow> csize (snd e) < unat sz" by (simp only: of_nat_less_iff csize_def)
  ultimately show ?thesis using descs_okD [OF assms(2,4)] by (simp add: memsafe)
qed

lemma extern_addrs:
  assumes "eseg m p es q" "descs_ok es" "e \<in> set es"
  shows "do { a \<leftarrow> ld m (fst e + 8); Some (a < chunk) } = Some (fst (snd e) < chunk)"
proof -
  have "m (fst e + 8) = fst (snd e)" using assms(1,3) by (induction es arbitrary: p) auto
  then show ?thesis using descs_okD [OF assms(2,3)] by (simp add: memsafe)
qed

text \<open>Allocation: a larger chunk gives its end.\<close>

lemma malloc_extern_cut:
  assumes st: "extern_state lo hi s ff es F" and ok: "free_ok (map snd es)"
    and es: "es = bs @ (d, c) # ds" and d: "desc_ok d" and lt: "unat z < csize c"
  shows "sub32 (snd c) z = Some (snd c - z)" "ram s d = snd c" "ram s (d + 8) = fst c"
    "extern_state lo hi (s\<lparr>ram := (ram s)(d := snd c - z)\<rparr>) ff (bs @ (d, fst c, snd c - z) # ds) F"
proof -
  note st' = st [unfolded extern_state_def es]
  have c: "chunk_ok c" using ok unfolding es by (auto simp: free_ok_append free_ok_Cons)
  then show "sub32 (snd c) z = Some (snd c - z)"
    using lt by (intro sub32_nat) (auto simp: chunk_ok_def csize_def)
  have f: "eseg (ram s) ff bs d" "ram s d = snd c" "ram s (d + 8) = fst c" "eseg (ram s) (ram s (d + 4)) ds 0"
    using st' by (auto simp: eseg_append)
  then show "ram s d = snd c" "ram s (d + 8) = fst c" by simp_all
  have dj: "all_desc_bytes bs \<inter> desc_bytes d = {}" "all_desc_bytes ds \<inter> desc_bytes d = {}"
    "descs_ok bs" "descs_ok ds" "desc_bytes d \<inter> F = {}"
    using st' by (auto simp: descs_ok_append)
  let ?m = "(ram s)(d := snd c - z)"
  note fr = frame_desc(1) [OF d, of "ram s" "snd c - z"]
  have "eseg ?m ff bs d" "eseg ?m (?m (d + 4)) ds 0"
    using eseg_frame [OF f(1) fr dj(3,1)] eseg_frame [OF f(4) fr dj(4,2)] by simp_all
  moreover have "heap_rep lo hi (l2_heap (s\<lparr>ram := ?m\<rparr>)) F"
    using heap_rep_frame [OF _ fr dj(5)] st' by blast
  ultimately show "extern_state lo hi (s\<lparr>ram := ?m\<rparr>) ff (bs @ (d, fst c, snd c - z) # ds) F"
    using st' f(3) by (auto simp: extern_state_def eseg_append descs_ok_append)
qed

text \<open>A chunk of exactly the right size disappears, and its descriptor goes back to the L2 heap.\<close>

lemma malloc_extern_drop:
  assumes st: "extern_state lo hi s ff es F" and es: "es = bs @ (d, c) # ds"
  shows "\<exists>ff' m s'. (if (if bs = [] then 0 else fst (last bs)) \<noteq> 0
      then do { m \<leftarrow> st (ram s) ((if bs = [] then 0 else fst (last bs)) + 4) (ram s (d + 4)); Some (ff, m) }
      else Some (ram s (d + 4), ram s)) = Some (ff', m) \<and>
    m (d + 8) = fst c \<and> pi_l2_free d 12 (s\<lparr>ram := m\<rparr>) = Some s' \<and>
    extern_state lo hi s' ff' (bs @ ds) (F \<union> desc_bytes d)"
proof -
  note st' = st [unfolded extern_state_def es]
  have f: "eseg (ram s) ff bs d" "ram s (d + 8) = fst c" "eseg (ram s) (ram s (d + 4)) ds 0"
    using st' by (auto simp: eseg_append)
  have dj: "all_desc_bytes bs \<inter> desc_bytes d = {}" "all_desc_bytes ds \<inter> desc_bytes d = {}"
    "all_desc_bytes bs \<inter> all_desc_bytes ds = {}" "descs_ok bs" "descs_ok ds" "desc_ok d" "desc_bytes d \<inter> F = {}"
    "F \<inter> all_desc_bytes (bs @ ds) = {}" "desc_bytes d \<subseteq> {lo..<hi}"
    using st' by (auto simp: descs_ok_append)
  have "\<exists>ff' m. (if (if bs = [] then 0 else fst (last bs)) \<noteq> 0
      then do { m \<leftarrow> st (ram s) ((if bs = [] then 0 else fst (last bs)) + 4) (ram s (d + 4)); Some (ff, m) }
      else Some (ram s (d + 4), ram s)) = Some (ff', m) \<and> frame (ram s) m (all_desc_bytes bs) \<and> eseg m ff' (bs @ ds) 0"
  proof (cases bs rule: rev_cases)
    case Nil
    then show ?thesis using f(3) by (auto simp: frame_def)
  next
    case (snoc bs' b)
    have b: "desc_ok (fst b)" "all_desc_bytes bs' \<inter> desc_bytes (fst b) = {}" "descs_ok bs'"
      "all_desc_bytes ds \<inter> desc_bytes (fst b) = {}"
      using dj(3,4) by (auto simp: snoc descs_ok_append)
    let ?m = "(ram s)(fst b + 4 := ram s (d + 4))"
    note fr = frame_desc(2) [OF b(1), of "ram s" "ram s (d + 4)"]
    have "eseg ?m ff bs' (fst b)"
      using f(1) eseg_frame [OF _ fr b(3,2)] by (auto simp: snoc eseg_append)
    moreover have "eseg ?m (ram s (d + 4)) ds 0" by (rule eseg_frame [OF f(3) fr dj(5) b(4)])
    ultimately have "eseg ?m ff (bs @ ds) 0"
      using f(1) by (auto simp: snoc eseg_append)
    moreover have "frame (ram s) ?m (all_desc_bytes bs)" using frame_mono [OF fr] by (simp add: snoc)
    ultimately show ?thesis using b(1) by (auto simp: snoc memsafe)
  qed
  then obtain ff' m where m: "(if (if bs = [] then 0 else fst (last bs)) \<noteq> 0
      then do { m \<leftarrow> st (ram s) ((if bs = [] then 0 else fst (last bs)) + 4) (ram s (d + 4)); Some (ff, m) }
      else Some (ram s (d + 4), ram s)) = Some (ff', m)"
    "frame (ram s) m (all_desc_bytes bs)" "eseg m ff' (bs @ ds) 0" by blast
  have "heap_rep lo hi (l2_heap (s\<lparr>ram := m\<rparr>)) F"
    using heap_rep_frame [OF _ m(2)] st' dj(8) by auto
  then obtain s' where s': "pi_l2_free d 12 (s\<lparr>ram := m\<rparr>) = Some s'" "frame m (ram s') (F \<union> desc_bytes d)"
    "heap_rep lo hi (l2_heap s') (F \<union> desc_bytes d)"
    using l2_give [OF _ dj(6,7,9)] by fastforce
  have "m (d + 8) = fst c" using m(2) f(2) desc_fields(3) [OF dj(6)] dj(1) by (auto simp: frame_def)
  moreover have "eseg (ram s') ff' (bs @ ds) 0"
    using dj by (intro eseg_frame [OF m(3) s'(2)]) (auto simp: descs_ok_append)
  then have "extern_state lo hi s' ff' (bs @ ds) (F \<union> desc_bytes d)"
    using s'(3) st' dj by (auto simp: extern_state_def descs_ok_append)
  ultimately show ?thesis using m(1) s'(1) by blast
qed

lemma malloc_extern_refines:
  assumes rep: "extern_rep lo hi R s ff cs" and n: "0 < unat n" "unat n + 8 < 2 ^ 31"
  shows "\<exists>ff' s'. malloc_extern ff n s = Some (fst (alloc (size8 n) cs), ff', s') \<and>
    extern_rep lo hi R s' ff' (snd (alloc (size8 n) cs))"
proof -
  define z where "z = size8 n"
  have z: "align_up n = Some z" "0 < unat z" "8 dvd unat z" "unat z < 2 ^ 31"
    using n size8_ok align_up_size8 by (simp_all add: z_def)
  obtain es F where st: "extern_state lo hi s ff es F" "map snd es = cs" "free_ok cs" "F \<union> all_desc_bytes es = R"
    using rep by (auto simp: extern_rep_def)
  note st' = st(1) [unfolded extern_state_def]
  let ?P = "\<lambda>c. csize c < unat z"
  have oks: "\<forall>e\<in>set es. chunk_ok (snd e)" using st(3) unfolding st(2) [symmetric] free_ok_def by simp
  have w: "walk (ram s) (\<lambda>pt. do { y \<leftarrow> ld (ram s) pt; Some (sint y < sint z) }) ff 0 =
    Some (case dropWhile (?P \<circ> snd) es of [] \<Rightarrow> 0 | e # _ \<Rightarrow> fst e,
          if takeWhile (?P \<circ> snd) es = [] then 0 else fst (last (takeWhile (?P \<circ> snd) es)))"
    using st' extern_sizes [OF _ _ oks _ z(4)] by (intro walk_eseg) auto
  have tw: "takeWhile ?P cs = map snd (takeWhile (?P \<circ> snd) es)" "dropWhile ?P cs = map snd (dropWhile (?P \<circ> snd) es)"
    using st(2) by (auto simp: takeWhile_map dropWhile_map)
  show ?thesis
  proof (cases "dropWhile (?P \<circ> snd) es")
    case Nil
    then have "dropWhile ?P cs = []" using tw(2) by simp
    then have "alloc z cs = (0, cs)" by (simp only: alloc_def Let_def list.case)
    moreover have "malloc_extern ff n s = Some (0, ff, s)" using w z(1) unfolding Nil by (simp add: malloc_extern_def)
    ultimately show ?thesis using rep by (simp add: z_def)
  next
    case (Cons e ds)
    obtain d c where e: "e = (d, c)" by (rule prod.exhaust)
    define bs where "bs = takeWhile (?P \<circ> snd) es"
    note s = split_fit [OF Cons, folded bs_def, unfolded e]
    have w': "walk (ram s) (\<lambda>pt. do { y \<leftarrow> ld (ram s) pt; Some (sint y < sint z) }) ff 0 =
      Some (d, if bs = [] then 0 else fst (last bs))"
      using w unfolding Cons bs_def [symmetric] by (simp add: e)
    have al: "alloc z cs = (if snd c = z then (fst c, map snd (bs @ ds))
        else (fst c + snd c - z, map snd (bs @ (d, fst c, snd c - z) # ds)))"
      unfolding alloc_def tw Cons Let_def bs_def [symmetric] by (simp add: e)
    have d: "desc_ok d" using st' unfolding s(1) by (auto simp: descs_ok_append)
    have ok: "free_ok (map snd es)" using st(2,3) by simp
    have R: "F \<union> (all_desc_bytes bs \<union> (desc_bytes d \<union> all_desc_bytes ds)) = R" using st(4) s(1) by simp
    have hd: "ram s d = snd c" "ram s (d + 8) = fst c" using st' unfolding s(1) by (auto simp: eseg_append)
    show ?thesis
    proof (cases "snd c = z")
      case True
      obtain ff' m s' where x: "(if (if bs = [] then 0 else fst (last bs)) \<noteq> 0
          then do { m \<leftarrow> st (ram s) ((if bs = [] then 0 else fst (last bs)) + 4) (ram s (d + 4)); Some (ff, m) }
          else Some (ram s (d + 4), ram s)) = Some (ff', m)"
        "m (d + 8) = fst c" "pi_l2_free d 12 (s\<lparr>ram := m\<rparr>) = Some s'"
        "extern_state lo hi s' ff' (bs @ ds) (F \<union> desc_bytes d)"
        using malloc_extern_drop [OF st(1) s(1)] by blast
      have "malloc_extern ff n s = Some (fst c, ff', s')"
        using w' z(1) d True x(1-3) by (simp add: malloc_extern_def memsafe hd)
      moreover have "free_ok (map snd (bs @ ds))" using ok unfolding s(1) by (auto simp: free_ok_append free_ok_Cons)
      ultimately show ?thesis using x(4) True R al unfolding z_def [symmetric]
        by (auto simp: extern_rep_def intro!: exI [of _ "bs @ ds"] exI [of _ "F \<union> desc_bytes d"])
    next
      case False
      then have lt: "unat z < csize c" using s(2) by (simp add: csize_def word_unat_eq_iff)
      note cut = malloc_extern_cut [OF st(1) ok s(1) d lt]
      have "malloc_extern ff n s = Some (fst c + snd c - z, ff, s\<lparr>ram := (ram s)(d := snd c - z)\<rparr>)"
        using w' z(1) d False cut(1) by (simp add: malloc_extern_def memsafe hd)
      moreover have "free_ok (snd (alloc z cs))"
        using alloc_success(2) [OF st(3) z(2,3)] alloc_null [OF st(3) z(2)] st(3) by (metis prod.collapse)
      ultimately show ?thesis using cut(4) False R al unfolding z_def [symmetric]
        by (auto simp: extern_rep_def intro!: exI [of _ "bs @ (d, fst c, snd c - z) # ds"] exI [of _ F])
    qed
  qed
qed

text \<open>The two steps of deallocation. In between the descriptors \<open>bs\<close> still lead to \<open>nxt\<close>, and the
  block's descriptor \<open>d\<close> starts the rest of the new list.\<close>

definition extern_mid :: "nat \<Rightarrow> nat \<Rightarrow> nat set \<Rightarrow> mcu \<Rightarrow> u32 \<Rightarrow> entry list \<Rightarrow> u32 \<Rightarrow> u32 \<Rightarrow> entry list \<Rightarrow> nat set \<Rightarrow> bool" where
  "extern_mid lo hi R s ff bs nxt d es F \<longleftrightarrow>
     eseg (ram s) ff bs nxt \<and> eseg (ram s) d es 0 \<and> es \<noteq> [] \<and> descs_ok (bs @ es) \<and> heap_rep lo hi (l2_heap s) F \<and>
     F \<inter> all_desc_bytes (bs @ es) = {} \<and> F \<union> all_desc_bytes (bs @ es) = R \<and> R \<subseteq> {lo..<hi}"

lemma extern_descriptor_join:
  assumes st: "extern_state lo hi s ff (bs @ (nxt, c) # ds) F" and touch: "p + z = fst c"
    and add: "add32 z (snd c) = Some (z + snd c)"
  shows "\<exists>s'. extern_descriptor nxt p z s = Some (nxt, s') \<and>
    extern_mid lo hi (F \<union> all_desc_bytes (bs @ (nxt, c) # ds)) s' ff bs nxt nxt ((nxt, p, z + snd c) # ds) F"
proof -
  note st' = st [unfolded extern_state_def]
  have f: "eseg (ram s) ff bs nxt" "ram s nxt = snd c" "ram s (nxt + 8) = fst c" "eseg (ram s) (ram s (nxt + 4)) ds 0"
    using st' by (auto simp: eseg_append)
  have dj: "all_desc_bytes bs \<inter> desc_bytes nxt = {}" "all_desc_bytes ds \<inter> desc_bytes nxt = {}"
    "descs_ok bs" "descs_ok ds" "desc_ok nxt" "desc_bytes nxt \<inter> F = {}"
    using st' by (auto simp: descs_ok_append)
  let ?m = "(ram s)(nxt := z + snd c, nxt + 8 := p)"
  have fr: "frame (ram s) ?m (desc_bytes nxt)"
    using desc_fields [OF dj(5)] by (auto simp: frame_def)
  have "extern_descriptor nxt p z s = Some (nxt, s\<lparr>ram := ?m\<rparr>)"
    using dj(5) f(2,3) touch add by (simp add: extern_descriptor_def memsafe)
  moreover have "eseg ?m ff bs nxt" "eseg ?m (?m (nxt + 4)) ds 0"
    using eseg_frame [OF f(1) fr dj(3,1)] eseg_frame [OF f(4) fr dj(4,2)] by simp_all
  moreover have "heap_rep lo hi (l2_heap (s\<lparr>ram := ?m\<rparr>)) F" using heap_rep_frame [OF _ fr dj(6)] st' by blast
  moreover have "F \<subseteq> {lo..<hi}" using st' by (simp add: heap_rep_def)
  ultimately show ?thesis using st' by (auto simp: extern_mid_def descs_ok_append)
qed

lemma extern_descriptor_new:
  assumes st: "extern_state lo hi s ff (bs @ ds) F" and ok: "\<forall>e\<in>set ds. p + z \<noteq> fst (snd e)"
    and nxt: "nxt = (case ds of [] \<Rightarrow> 0 | e # _ \<Rightarrow> fst e)"
  shows "\<exists>d s'. extern_descriptor nxt p z s = Some (d, s') \<and> (\<exists>s1. pi_l2_malloc 12 s = Some (d, s1)) \<and>
    (if d = 0 then extern_state lo hi s' ff (bs @ ds) F
     else \<exists>F'. extern_mid lo hi (F \<union> all_desc_bytes (bs @ ds)) s' ff bs nxt d ((d, p, z) # ds) F')"
proof -
  note st' = st [unfolded extern_state_def]
  obtain r where "eseg (ram s) ff bs r" "eseg (ram s) r ds 0" using st' by (auto simp: eseg_append)
  moreover from this have "r = nxt" by (cases ds) (auto simp: nxt)
  ultimately have f: "eseg (ram s) ff bs nxt" "eseg (ram s) nxt ds 0" by simp_all
  have dj: "descs_ok bs" "descs_ok ds" "all_desc_bytes bs \<inter> all_desc_bytes ds = {}"
    "all_desc_bytes bs \<inter> F = {}" "all_desc_bytes ds \<inter> F = {}" "F \<subseteq> {lo..<hi}"
    using st' by (auto simp: descs_ok_append heap_rep_def)
  have touching: "(if nxt \<noteq> 0 then do { a \<leftarrow> ld (ram s) (nxt + 8); Some (p + z = a) } else Some False) = Some False"
    using f(2) dj(2) ok by (cases ds) (auto simp: nxt memsafe)
  obtain d s' where s': "pi_l2_malloc 12 s = Some (d, s')" "frame (ram s) (ram s') F"
    "if d = 0 then heap_rep lo hi (l2_heap s') F
     else desc_ok d \<and> desc_bytes d \<subseteq> F \<and> heap_rep lo hi (l2_heap s') (F - desc_bytes d)"
    using l2_take [of lo hi s F] st' by blast
  note g = eseg_frame [OF f(1) s'(2) dj(1,4)] eseg_frame [OF f(2) s'(2) dj(2,5)]
  show ?thesis
  proof (cases "d = 0")
    case True
    then have "extern_descriptor nxt p z s = Some (0, s')" using s'(1) touching by (simp add: extern_descriptor_def)
    moreover have "extern_state lo hi s' ff (bs @ ds) F"
      using g s'(3) st' True by (auto simp: extern_state_def eseg_append)
    ultimately show ?thesis using True s'(1) by auto
  next
    case False
    then have d: "desc_ok d" "desc_bytes d \<subseteq> F" "heap_rep lo hi (l2_heap s') (F - desc_bytes d)" using s'(3) by auto
    let ?m = "(ram s')(d := z, d + 4 := nxt, d + 8 := p)"
    have fr: "frame (ram s') ?m (desc_bytes d)" using desc_fields [OF d(1)] by (auto simp: frame_def)
    have "extern_descriptor nxt p z s = Some (d, s'\<lparr>ram := ?m\<rparr>)"
      using s'(1) touching d(1) False by (simp add: extern_descriptor_def memsafe)
    moreover have e: "all_desc_bytes bs \<inter> desc_bytes d = {}" "all_desc_bytes ds \<inter> desc_bytes d = {}"
      using dj(4,5) d(2) by auto
    have "eseg ?m ff bs nxt" "eseg ?m nxt ds 0"
      using eseg_frame [OF g(1) fr dj(1) e(1)] eseg_frame [OF g(2) fr dj(2) e(2)] by simp_all
    moreover have "heap_rep lo hi (l2_heap (s'\<lparr>ram := ?m\<rparr>)) (F - desc_bytes d)"
      using heap_rep_frame [OF d(3) fr] by blast
    moreover have "(F - desc_bytes d) \<union> all_desc_bytes (bs @ (d, p, z) # ds) = F \<union> all_desc_bytes (bs @ ds)"
      using d(2) by auto
    ultimately show ?thesis using st' dj e d(1) False s'(1)
      by (auto simp: extern_mid_def descs_ok_append intro!: exI [of _ "F - desc_bytes d"])
  qed
qed

lemma extern_link_ok:
  assumes mid: "extern_mid lo hi R s ff bs nxt d ((d, c) # es) F"
    and prev: "prev = (if bs = [] then 0 else fst (last bs))" and c: "fst c = p"
    and add: "\<And>b. b \<in> set bs \<Longrightarrow> fst (snd b) + snd (snd b) = fst c \<Longrightarrow> add32 (snd (snd b)) (snd c) = Some (snd (snd b) + snd c)"
  shows "\<exists>ff' s' es' F'. extern_link ff prev d p s = Some (ff', s') \<and> extern_state lo hi s' ff' es' F' \<and>
    map snd es' = (if bs = [] then c # map snd es else butlast (map snd bs) @ join (last (map snd bs)) (c # map snd es)) \<and>
    F' \<union> all_desc_bytes es' = R"
proof (cases bs rule: rev_cases)
  case Nil
  then show ?thesis using mid prev
    by (auto simp: extern_link_def extern_mid_def extern_state_def
        intro!: exI [of _ "(d, c) # es"] exI [of _ F])
next
  case (snoc bs' b)
  note m = mid [unfolded extern_mid_def snoc]
  obtain q cb where b: "b = (q, cb)" by (rule prod.exhaust)
  have f: "eseg (ram s) ff bs' q" "ram s q = snd cb" "ram s (q + 8) = fst cb"
    "ram s d = snd c" "ram s (d + 8) = fst c" "eseg (ram s) (ram s (d + 4)) es 0"
    using m by (auto simp: eseg_append b)
  have dj: "descs_ok bs'" "descs_ok es" "desc_ok q" "desc_ok d"
    "all_desc_bytes bs' \<inter> desc_bytes q = {}" "all_desc_bytes es \<inter> desc_bytes q = {}" "desc_bytes d \<inter> desc_bytes q = {}"
    "all_desc_bytes bs' \<inter> desc_bytes d = {}" "all_desc_bytes es \<inter> desc_bytes d = {}" "desc_bytes q \<inter> F = {}"
    "desc_bytes d \<inter> F = {}" "desc_bytes d \<subseteq> {lo..<hi}" "all_desc_bytes bs' \<inter> F = {}" "all_desc_bytes es \<inter> F = {}"
    "all_desc_bytes bs' \<inter> all_desc_bytes es = {}"
    using m by (auto simp: descs_ok_append b)
  have ne: "d \<noteq> q" "d + 4 \<noteq> q" "d \<noteq> q + 4"
    using desc_fields [OF dj(3)] desc_fields [OF dj(4)] dj(7) by auto
  have prev: "prev = q" using prev snoc b by simp
  show ?thesis
  proof (cases "fst cb + snd cb = p")
    case False
    let ?m = "(ram s)(q + 4 := d)"
    note fr = frame_desc(2) [OF dj(3), of "ram s" d]
    have "extern_link ff prev d p s = Some (ff, s\<lparr>ram := ?m\<rparr>)"
      using False f(2,3) dj(3) unfolding prev by (simp add: extern_link_def memsafe)
    have "eseg (ram s) d ((d, c) # es) 0" "descs_ok ((d, c) # es)" "all_desc_bytes ((d, c) # es) \<inter> desc_bytes q = {}"
      using m dj(2,4,6,7,9) by auto
    then have e: "eseg ?m ff bs' q" "eseg ?m d ((d, c) # es) 0"
      using eseg_frame [OF f(1) fr dj(1,5)] eseg_frame [OF _ fr] by blast+
    have "eseg ?m d X 0 \<Longrightarrow> eseg ?m q (b # X) 0" for X using f(2,3) by (simp add: b)
    then have "eseg ?m ff (bs' @ b # (d, c) # es) 0" using e by (subst eseg_append) blast
    moreover have "heap_rep lo hi (l2_heap (s\<lparr>ram := ?m\<rparr>)) F" using heap_rep_frame [OF _ fr dj(10)] m by blast
    moreover have "all_desc_bytes (bs @ (d, c) # es) \<subseteq> {lo..<hi}" using m unfolding snoc by blast
    ultimately have "extern_state lo hi (s\<lparr>ram := ?m\<rparr>) ff (bs @ (d, c) # es) F"
      using m unfolding extern_state_def snoc by simp
    moreover have "join cb (c # map snd es) = cb # c # map snd es" using False c by (simp add: join_def)
    ultimately show ?thesis using \<open>extern_link ff prev d p s = _\<close> m
      by (auto simp: snoc b butlast_append intro!: exI [of _ "bs @ (d, c) # es"] exI [of _ F])
  next
    case True
    let ?m = "(ram s)(q := snd cb + snd c, q + 4 := ram s (d + 4))"
    have fr: "frame (ram s) ?m (desc_bytes q)" using desc_fields [OF dj(3)] by (auto simp: frame_def)
    have "heap_rep lo hi (l2_heap (s\<lparr>ram := ?m\<rparr>)) F" using heap_rep_frame [OF _ fr dj(10)] m by blast
    then obtain s' where s': "pi_l2_free d 12 (s\<lparr>ram := ?m\<rparr>) = Some s'" "frame ?m (ram s') (F \<union> desc_bytes d)"
      "heap_rep lo hi (l2_heap s') (F \<union> desc_bytes d)"
      using l2_give [OF _ dj(4,11,12)] by fastforce
    have add': "add32 (snd cb) (snd c) = Some (snd cb + snd c)" using add [of b] True c by (simp add: snoc b)
    have "extern_link ff prev d p s = Some (ff, s')"
      using True f(2-4) dj(3,4) add' ne s'(1) unfolding prev by (simp add: extern_link_def memsafe)
    moreover have "eseg ?m ff (bs' @ (q, fst cb, snd cb + snd c) # es) 0"
    proof -
      have "?m (q + 8) = fst cb" using f(3) by simp
      then show ?thesis
        using eseg_frame [OF f(1) fr dj(1,5)] eseg_frame [OF f(6) fr dj(2,6)] by (auto simp: eseg_append)
    qed
    then have "eseg (ram s') ff (bs' @ (q, fst cb, snd cb + snd c) # es) 0"
      using dj by (intro eseg_frame [OF _ s'(2)]) (auto simp: descs_ok_append)
    moreover have "join cb (c # map snd es) = (fst cb, snd cb + snd c) # map snd es" using True c by (simp add: join_def)
    moreover have "descs_ok (bs' @ (q, fst cb, snd cb + snd c) # es)" using dj by (auto simp: descs_ok_append)
    moreover have "F \<union> desc_bytes d \<union> all_desc_bytes (bs' @ (q, fst cb, snd cb + snd c) # es) = R" "R \<subseteq> {lo..<hi}"
      using m by (auto simp: b)
    moreover have "(F \<union> desc_bytes d) \<inter> all_desc_bytes (bs' @ (q, fst cb, snd cb + snd c) # es) = {}"
      using dj by auto
    ultimately show ?thesis using s'(3)
      by (auto simp: extern_state_def snoc b butlast_append
          intro!: exI [of _ "bs' @ (q, fst cb, snd cb + snd c) # es"] exI [of _ "F \<union> desc_bytes d"])
  qed
qed

text \<open>When the deallocation finds a descriptor: the block touches the next chunk, or the L2 heap serves one.\<close>

definition descriptor_free :: "u32 \<Rightarrow> u32 \<Rightarrow> chunk list \<Rightarrow> mcu \<Rightarrow> bool" where
  "descriptor_free p n cs s \<longleftrightarrow>
     (\<exists>c\<in>set cs. cstart c = cend (p, size8 n)) \<or> (\<exists>d s1. pi_l2_malloc 12 s = Some (d, s1) \<and> d \<noteq> 0)"

lemma malloc_extern_free_refines:
  assumes rep: "extern_rep lo hi R s ff cs" and n: "unat n + 8 < 2 ^ 31"
    and c: "chunk_ok (p, size8 n)" "chunk_bytes (p, size8 n) \<inter> free_bytes cs = {}"
    and reg: "chunk_bytes (p, size8 n) \<union> free_bytes cs \<subseteq> {elo..<ehi}" "ehi < elo + 2 ^ 31"
  shows "\<exists>r ff' s'. malloc_extern_free ff p n s = Some (r, ff', s') \<and>
    (if descriptor_free p n cs s then r = 0 \<and> extern_rep lo hi R s' ff' (dealloc (p, size8 n) cs)
     else r = 1 \<and> ff' = ff \<and> extern_rep lo hi R s' ff' cs)"
proof -
  let ?z = "size8 n" and ?c = "(p, size8 n)"
  obtain es F where st: "extern_state lo hi s ff es F" "map snd es = cs" "free_ok cs" "F \<union> all_desc_bytes es = R"
    using rep by (auto simp: extern_rep_def)
  note st' = st(1) [unfolded extern_state_def]
  define bs ds where "bs = takeWhile ((\<lambda>d. fst d < p) \<circ> snd) es" and "ds = dropWhile ((\<lambda>d. fst d < p) \<circ> snd) es"
  have es: "es = bs @ ds" by (simp add: bs_def ds_def)
  have tw: "takeWhile (\<lambda>d. fst d < fst ?c) cs = map snd bs" "dropWhile (\<lambda>d. fst d < fst ?c) cs = map snd ds"
    using st(2) by (auto simp: takeWhile_map dropWhile_map bs_def ds_def)
  obtain "\<forall>b \<in> set (map snd bs). cend b \<le> cstart ?c" "\<forall>d \<in> set (map snd ds). cend ?c \<le> cstart d"
    using dealloc_split [OF st(3) c(1,2)] tw by metis
  note ord = this
  have oks: "free_ok (map snd bs)" "free_ok (map snd ds)" using st(3) unfolding st(2) [symmetric] es by (simp_all add: free_ok_append)
  have regs: "chunk_bytes ?c \<union> free_bytes (map snd ds) \<subseteq> {elo..<ehi}" "free_bytes (map snd bs) \<subseteq> {elo..<ehi}"
    using reg(1) unfolding st(2) [symmetric] es by auto
  note j = join_props [OF c(1) oks(2) ord(2) regs(1) reg(2)]
  define prev nxt where "prev = (if bs = [] then 0 else fst (last bs))" and "nxt = (case ds of [] \<Rightarrow> 0 | e # _ \<Rightarrow> fst e)"
  have w: "walk (ram s) (\<lambda>pt. do { a \<leftarrow> ld (ram s) (pt + 8); Some (a < p) }) ff 0 = Some (nxt, prev)"
    unfolding prev_def nxt_def bs_def ds_def using st' extern_addrs by (intro walk_eseg) auto
  have dd: "\<exists>d s'. extern_descriptor nxt p ?z s = Some (d, s') \<and> (d \<noteq> 0 \<longleftrightarrow> descriptor_free p n cs s) \<and>
    (if d = 0 then extern_state lo hi s' ff es F
     else \<exists>c1 es1 F'. extern_mid lo hi R s' ff bs nxt d ((d, c1) # es1) F' \<and> fst c1 = p \<and> c1 # map snd es1 = join ?c (map snd ds))"
  proof (cases "\<exists>d cd ds'. ds = (d, cd) # ds' \<and> p + ?z = fst cd")
    case True
    then obtain d cd ds' where ds: "ds = (d, cd) # ds'" "p + ?z = fst cd" by blast
    have "chunk_ok cd" using oks(2) unfolding ds by (simp add: free_ok_Cons)
    moreover have "cend ?c = cstart cd" using ds(2) end_eq_iff [OF c(1), of cd] by simp
    ultimately have "add32 ?z (snd cd) = Some (?z + snd cd)"
      using add32_touching [OF c(1) _ _ _ reg(2), of cd] regs(1) unfolding ds by auto
    then obtain s' where s': "extern_descriptor d p ?z s = Some (d, s')"
      "extern_mid lo hi (F \<union> all_desc_bytes (bs @ (d, cd) # ds')) s' ff bs d d ((d, p, ?z + snd cd) # ds') F"
      using extern_descriptor_join [OF st(1) [unfolded es ds(1)] ds(2)] by blast
    have "d \<noteq> 0" using st' unfolding es ds by (auto simp: descs_ok_append memsafe)
    moreover have "descriptor_free p n cs s"
      using st(2) end_eq_iff [OF c(1), of cd] ds(2) unfolding es ds(1) by (auto simp: descriptor_free_def)
    ultimately show ?thesis using s' st(4) unfolding es ds by (auto simp: nxt_def ds join_def)
  next
    case False
    have "p + ?z \<noteq> fst (snd e)" if e: "e \<in> set ds" for e
    proof
      assume "p + ?z = fst (snd e)"
      then have "cend ?c = cstart (snd e)" using end_eq_iff [OF c(1), of "snd e"] by simp
      moreover obtain e' ds' where ds: "ds = e' # ds'" using e by (cases ds) auto
      have "e \<noteq> e'" using False \<open>p + ?z = fst (snd e)\<close> ds by (cases e') auto
      then have "cend (snd e') < cstart (snd e)" "chunk_ok (snd e')"
        using oks(2) e unfolding ds by (auto simp: free_ok_Cons)
      moreover have "cend ?c \<le> cstart (snd e')" using ord(2) ds by auto
      ultimately show False by (auto simp: chunk_ok_def cend_def)
    qed
    note no = this
    obtain d s' where s': "extern_descriptor nxt p ?z s = Some (d, s')" "\<exists>s1. pi_l2_malloc 12 s = Some (d, s1)"
      "if d = 0 then extern_state lo hi s' ff (bs @ ds) F
       else \<exists>F'. extern_mid lo hi (F \<union> all_desc_bytes (bs @ ds)) s' ff bs nxt d ((d, p, ?z) # ds) F'"
      using extern_descriptor_new [OF st(1) [unfolded es] _ nxt_def, of p ?z] no by blast
    have "cstart e \<noteq> cend ?c" if "e \<in> set cs" for e
    proof
      assume e: "cstart e = cend ?c"
      consider "e \<in> set (map snd bs)" | "e \<in> set (map snd ds)" using \<open>e \<in> set cs\<close> unfolding st(2) [symmetric] es by auto
      then show False
      proof cases
        case 1
        then have "cend e \<le> cstart ?c" using ord(1) by blast
        then show False using e by (auto simp: cend_def)
          (metis add_leD1 c(1) chunk_ok_def csize_def le_add1 le_antisym not_add_less1 nat_neq_iff)
      next
        case 2
        then show False using no end_eq_iff [OF c(1), of e] e by auto
      qed
    qed
    then have df: "descriptor_free p n cs s \<longleftrightarrow> d \<noteq> 0" using s'(2) by (auto simp: descriptor_free_def)
    moreover have "join ?c (map snd ds) = ?c # map snd ds"
      using False by (auto simp: join_def split: list.split)
    ultimately show ?thesis using s'(1,3) df st(4) es by (auto split: if_splits)
  qed
  obtain d s1 where d: "extern_descriptor nxt p ?z s = Some (d, s1)"
    "if d = 0 then extern_state lo hi s1 ff es F
     else \<exists>c1 es1 F'. extern_mid lo hi R s1 ff bs nxt d ((d, c1) # es1) F' \<and> fst c1 = p \<and> c1 # map snd es1 = join ?c (map snd ds)"
    and df: "d \<noteq> 0 \<longleftrightarrow> descriptor_free p n cs s"
    using dd by blast
  show ?thesis
  proof (cases "d = 0")
    case True
    then have "malloc_extern_free ff p n s = Some (1, ff, s1)"
      using w d(1) align_up_size8 [OF n] by (simp add: malloc_extern_free_def)
    then show ?thesis using d(2) True st df by (auto simp: extern_rep_def)
  next
    case False
    then obtain c1 es1 F' where mid: "extern_mid lo hi R s1 ff bs nxt d ((d, c1) # es1) F'" "fst c1 = p"
      "c1 # map snd es1 = join ?c (map snd ds)"
      using d(2) by auto
    have c1: "chunk_ok c1" "chunk_bytes c1 \<subseteq> {elo..<ehi}" "cstart c1 = cstart ?c"
      using j regs(1) mid(2) unfolding mid(3) [symmetric] by (auto simp: free_ok_Cons cstart_def)
    have add: "add32 (snd (snd b)) (snd c1) = Some (snd (snd b) + snd c1)"
      if b: "b \<in> set bs" "fst (snd b) + snd (snd b) = fst c1" for b
    proof (rule add32_touching [OF _ c1(1) _ _ reg(2)])
      show b': "chunk_ok (snd b)" using oks(1) b(1) by (simp add: free_ok_def)
      show "cend (snd b) = cstart c1" using b(2) end_eq_iff [OF b', of c1] by simp
      show "chunk_bytes (snd b) \<union> chunk_bytes c1 \<subseteq> {elo..<ehi}" using regs(2) c1(2) b(1) by (auto simp: free_bytes_def)
    qed
    obtain ff' s' es' F'' where x: "extern_link ff prev d p s1 = Some (ff', s')" "extern_state lo hi s' ff' es' F''"
      "map snd es' = (if bs = [] then c1 # map snd es1 else butlast (map snd bs) @ join (last (map snd bs)) (c1 # map snd es1))"
      "F'' \<union> all_desc_bytes es' = R"
      using extern_link_ok [OF mid(1) prev_def mid(2) add] by blast
    have "map snd es' = dealloc ?c cs"
      using x(3) unfolding mid(3) dealloc_def tw by (simp add: Let_def)
    moreover have "free_ok (dealloc ?c cs)" by (rule dealloc_props(1) [OF c(1) st(3) c(2) reg])
    ultimately have "extern_rep lo hi R s' ff' (dealloc ?c cs)" using x(2,4) by (auto simp: extern_rep_def)
    moreover have "malloc_extern_free ff p n s = Some (0, ff', s')"
      using w d(1) False x(1) align_up_size8 [OF n] by (simp add: malloc_extern_free_def)
    ultimately show ?thesis using df False by simp
  qed
qed

text \<open>Initialisation with aligned memory: one descriptor for all of it, or the status 1 when the L2 heap
  has no room for a descriptor.\<close>

lemma malloc_extern_init_ok:
  assumes "heap_rep lo hi (l2_heap s) R" and p: "0 < unat p" "8 dvd unat p" and n: "8 \<le> unat n" "unat p + unat n + 8 < 2 ^ 31"
  shows "\<exists>r ff' s'. malloc_extern_init ff p n s = Some (r, ff', s') \<and>
    (r = 0 \<and> extern_rep lo hi R s' ff' [(p, align_down n)] \<or> r = 1 \<and> ff' = ff \<and> extern_rep lo hi R s' 0 [])"
proof -
  have "size8 p = p" using size8_self p(2) n by simp
  then have al: "align_up p = Some p" using align_up_size8 [of p] n by simp
  have R: "R \<subseteq> {lo..<hi}" using assms(1) by (simp add: heap_rep_def)
  have "unat n < 2 ^ 31" using n by simp
  then have sn: "sint n = int (unat n)" by (rule sint_unat)
  have pos: "0 < sint n" unfolding sn using n(1) by linarith
  have "n \<noteq> 0" using n(1) by auto
  have c: "chunk_ok (p, align_down n)"
    using p n unfolding chunk_ok_def cstart_def csize_def cend_def
    by (auto simp: unat_align_down minus_mod_eq_mult_div)
  obtain d s1 where d: "pi_l2_malloc 12 s = Some (d, s1)"
    "if d = 0 then heap_rep lo hi (l2_heap s1) R
     else desc_ok d \<and> desc_bytes d \<subseteq> R \<and> heap_rep lo hi (l2_heap s1) (R - desc_bytes d)"
    using l2_take [OF assms(1)] by blast
  show ?thesis
  proof (cases "d = 0")
    case True
    then have "malloc_extern_init ff p n s = Some (1, ff, s1)"
      using d(1) al \<open>n \<noteq> 0\<close> by (simp add: malloc_extern_init_def)
    moreover have "extern_rep lo hi R s1 0 []"
      using d(2) True unfolding extern_rep_def extern_state_def
      by (intro exI [of _ "[] :: entry list"] exI [of _ R]) auto
    ultimately show ?thesis by blast
  next
    case False
    then have d': "desc_ok d" "desc_bytes d \<subseteq> R" "heap_rep lo hi (l2_heap s1) (R - desc_bytes d)" using d(2) by auto
    let ?m = "(ram s1)(d := align_down n, d + 4 := 0, d + 8 := p)"
    have fr: "frame (ram s1) ?m (desc_bytes d)" using desc_fields [OF d'(1)] by (auto simp: frame_def)
    have "malloc_extern_init ff p n s = Some (0, d, s1\<lparr>ram := ?m\<rparr>)"
      using d(1) d'(1) al pos \<open>n \<noteq> 0\<close> False by (simp add: malloc_extern_init_def memsafe Let_def)
    moreover have "heap_rep lo hi (l2_heap (s1\<lparr>ram := ?m\<rparr>)) (R - desc_bytes d)"
      using heap_rep_frame [OF d'(3) fr] by blast
    then have "extern_rep lo hi R (s1\<lparr>ram := ?m\<rparr>) d [(p, align_down n)]"
      using d'(1,2) R c
      by (auto simp: extern_rep_def extern_state_def free_ok_Cons intro!: exI [of _ "R - desc_bytes d"] exI [of _ "[(d, p, align_down n)]"])
    ultimately show ?thesis by blast
  qed
qed

section \<open>Properties\<close>

text \<open>C22: \<open>__malloc_extern\<close> implements first fit on the free list the descriptors describe: it serves the
  request from the end of the first chunk that is large enough, or returns null and leaves the list
  alone when there is none. The descriptor of a chunk that disappears goes back to the L2 heap, so
  descriptors and free L2 memory together stay the same bytes.\<close>

theorem malloc_extern_first_fit:
  assumes "extern_rep lo hi R s ff cs" "0 < unat n" "unat n + 8 < 2 ^ 31"
  shows "\<exists>q ff' s' cs'. alloc (size8 n) cs = (q, cs') \<and> malloc_extern ff n s = Some (q, ff', s') \<and>
    extern_rep lo hi R s' ff' cs' \<and>
    (if q = 0 then cs' = cs \<and> (\<forall>c\<in>set cs. csize c < unat (size8 n))
     else chunk_bytes (q, size8 n) \<subseteq> free_bytes cs \<and> free_bytes cs' = free_bytes cs - chunk_bytes (q, size8 n))"
proof -
  obtain q cs' where al: "alloc (size8 n) cs = (q, cs')" by fastforce
  then obtain ff' s' where "malloc_extern ff n s = Some (q, ff', s')" "extern_rep lo hi R s' ff' cs'"
    using malloc_extern_refines [OF assms] by auto
  moreover have ok: "free_ok cs" using assms(1) by (auto simp: extern_rep_def)
  note size8_ok [OF assms(2,3)]
  ultimately show ?thesis
    using al alloc_success [OF ok _ _ al] alloc_null [OF ok, of "size8 n" cs'] alloc_fail_iff [OF ok, of "size8 n"]
    by (cases "q = 0") auto
qed

text \<open>C23: \<open>__malloc_extern_free\<close> implements coalescing deallocation whenever the block touches the free chunk behind
  it or the L2 heap serves a descriptor, and returns 0. Otherwise, and only then, it returns 1 and leaves the list as it was.
  In both cases no descriptor is lost.\<close>

theorem malloc_extern_free_coalesces:
  assumes "extern_rep lo hi R s ff cs" "unat n + 8 < 2 ^ 31" "chunk_ok (p, size8 n)"
    and "chunk_bytes (p, size8 n) \<inter> free_bytes cs = {}"
    and "chunk_bytes (p, size8 n) \<union> free_bytes cs \<subseteq> {elo..<ehi}" "ehi < elo + 2 ^ 31"
  shows "\<exists>r ff' s'. malloc_extern_free ff p n s = Some (r, ff', s') \<and>
    (if (\<exists>c\<in>set cs. cstart c = cend (p, size8 n)) \<or> (\<exists>d s1. pi_l2_malloc 12 s = Some (d, s1) \<and> d \<noteq> 0)
     then r = 0 \<and> extern_rep lo hi R s' ff' (dealloc (p, size8 n) cs) \<and>
       free_bytes (dealloc (p, size8 n) cs) = free_bytes cs \<union> chunk_bytes (p, size8 n)
     else r = 1 \<and> ff' = ff \<and> extern_rep lo hi R s' ff' cs)"
proof -
  have "free_ok cs" using assms(1) by (auto simp: extern_rep_def)
  note dealloc_props(2) [OF assms(3) this assms(4-6)]
  moreover obtain r ff' s' where "malloc_extern_free ff p n s = Some (r, ff', s')"
    "if descriptor_free p n cs s then r = 0 \<and> extern_rep lo hi R s' ff' (dealloc (p, size8 n) cs)
     else r = 1 \<and> ff' = ff \<and> extern_rep lo hi R s' ff' cs"
    using malloc_extern_free_refines [OF assms] by blast
  ultimately have "malloc_extern_free ff p n s = Some (r, ff', s') \<and>
    (if descriptor_free p n cs s
     then r = 0 \<and> extern_rep lo hi R s' ff' (dealloc (p, size8 n) cs) \<and>
       free_bytes (dealloc (p, size8 n) cs) = free_bytes cs \<union> chunk_bytes (p, size8 n)
     else r = 1 \<and> ff' = ff \<and> extern_rep lo hi R s' ff' cs)" by (cases "descriptor_free p n cs s") auto
  then show ?thesis unfolding descriptor_free_def by blast
qed

text \<open>A descriptor at \<open>0x2000\<close> for 64 bytes at \<open>0x80000\<close>, and an L2 heap with room for one more.\<close>

definition sample_extern :: mcu where
  "sample_extern = \<lparr>ram = (\<lambda>_. 0)(0x1000 := 0x10, 0x2000 := 0x40, 0x2008 := 0x80000), mstatus = 8,
     fc_l1_malloc = 0, fc_l1_malloc_spinlock = 0, l2_malloc = 0x1000, l2_malloc_spinlock = 0,
     cl_l1_malloc = 0, failures = 0\<rparr>"

definition sample_bytes :: "nat set" where
  "sample_bytes = {0x1000..<0x1010} \<union> {0x2000..<0x2010}"

lemma sample_extern_rep: "extern_rep 0x1000 0x2010 sample_bytes sample_extern 0x2000 [(0x80000, 0x40)]"
proof -
  have "heap_rep 0x1000 0x2010 (l2_heap sample_extern) {0x1000..<0x1010}"
    unfolding heap_rep_def
    by (auto simp: sample_extern_def l2_heap_def free_ok_Cons chunk_ok_def cstart_def csize_def cend_def chunk_bytes_def
        intro!: exI [of _ "[(0x1000, 0x10)]"])
  then show ?thesis unfolding extern_rep_def extern_state_def
    by (intro exI [of _ "[(0x2000, 0x80000, 0x40)]"] exI [of _ "{0x1000..<0x1010}"])
      (auto simp: sample_extern_def sample_bytes_def free_ok_Cons desc_ok_def desc_bytes_def
        chunk_ok_def cstart_def csize_def cend_def chunk_bytes_def)
qed

theorem malloc_extern_first_fit_witness:
  "\<exists>ff' s' cs'. malloc_extern 0x2000 16 sample_extern = Some (0x80030, ff', s') \<and>
     extern_rep 0x1000 0x2010 sample_bytes s' ff' cs'"
proof -
  have "alloc (size8 16) [(0x80000, 0x40)] = (0x80030, [(0x80000, 0x30)])"
    by (simp add: alloc_def size8_def csize_def)
  then show ?thesis using malloc_extern_first_fit [OF sample_extern_rep, of 16] by auto
qed

theorem malloc_extern_free_coalesces_witness:
  "\<exists>ff' s'. malloc_extern_free 0x2000 0x7fff0 16 sample_extern = Some (0, ff', s') \<and>
     extern_rep 0x1000 0x2010 sample_bytes s' ff' (dealloc (0x7fff0, 16) [(0x80000, 0x40)])"
proof -
  have b: "size8 16 = 16" "chunk_ok (0x7fff0, 16)" "chunk_bytes (0x7fff0, 16) = {0x7fff0..<0x80000}"
    "free_bytes [(0x80000, 0x40)] = {0x80000..<0x80040}" "cstart (0x80000, 0x40) = cend (0x7fff0, 16)"
    by (simp_all add: size8_def chunk_ok_def cstart_def csize_def cend_def chunk_bytes_def)
  show ?thesis
    using malloc_extern_free_coalesces [where n = 16 and p = "0x7fff0" and elo = "0x7fff0" and ehi = "0x80040", OF sample_extern_rep]
    unfolding b by (auto simp: b)
qed

section \<open>Departures\<close>

text \<open>When alignment eats up the memory handed over, initialisation reports success but takes a
  descriptor that nothing points to, and leaves \<open>first_free\<close> as it was.\<close>

lemma extern_init_leak:
  "align_up p = Some q \<Longrightarrow> n \<noteq> 0 \<Longrightarrow> sint (n - (q - p)) \<le> 0 \<Longrightarrow> pi_l2_malloc 12 s = Some (d, s') \<Longrightarrow> d \<noteq> 0 \<Longrightarrow>
     malloc_extern_init ff p n s = Some (0, ff, s')"
  by (simp add: malloc_extern_init_def Let_def)

end
