(* ===== verification/MlifIO.thy ===== *)
theory MlifIO
  imports CLib
begin

text \<open>
  \<open>src/lib/ml_interface/v2/mlifio/mlifio.c\<close>: reading and writing two-dimensional data as
  \<open>.npy\<close> or raw files and over the standard streams. \<open>size_t\<close> has 32 bits. A null
  stream, a read past an object, a division by zero and a loop that waits for a byte which never
  comes are \<open>None\<close>.
\<close>

section \<open>Data\<close>

datatype io_status = MLIF_IO_SUCCESS | MLIF_IO_ERROR

datatype mlif_datatype = MLIF_DTYPE_INT8 | MLIF_DTYPE_INT16 | MLIF_DTYPE_INT32 | MLIF_DTYPE_UINT8
  | MLIF_DTYPE_UINT16 | MLIF_DTYPE_UINT32 | MLIF_DTYPE_FLOAT | MLIF_DTYPE_RAW

datatype data_order = MLIF_C_ORDER | MLIF_FORTRAN_ORDER

text \<open>The modes are C enumerations; a value outside the enumeration is the last constructor.\<close>

datatype stdio_mode = MLIF_STDIO_BIN | MLIF_STDIO_PLAIN | STDIO_MODE_OTHER

datatype file_mode = MLIF_FILE_NPY | MLIF_FILE_BIN | FILE_MODE_OTHER

record data_config =
  nbatch :: u32
  nsample :: u32
  ndim :: u32
  shape :: "u32 list"
  row :: u32
  col :: u32
  dtype :: mlif_datatype
  order :: data_order

section \<open>Sizes\<close>

definition dtype_size :: "mlif_datatype \<Rightarrow> u32" where
  "dtype_size t =
     (case t of MLIF_DTYPE_INT8 \<Rightarrow> 1 | MLIF_DTYPE_INT16 \<Rightarrow> 2 | MLIF_DTYPE_INT32 \<Rightarrow> 4
      | MLIF_DTYPE_UINT8 \<Rightarrow> 1 | MLIF_DTYPE_UINT16 \<Rightarrow> 2 | MLIF_DTYPE_UINT32 \<Rightarrow> 4
      | MLIF_DTYPE_FLOAT \<Rightarrow> 4 | MLIF_DTYPE_RAW \<Rightarrow> 1)"

definition dtype_char :: "mlif_datatype \<Rightarrow> u8" where
  "dtype_char t =
     (case t of MLIF_DTYPE_INT8 \<Rightarrow> 0x69 | MLIF_DTYPE_INT16 \<Rightarrow> 0x69 | MLIF_DTYPE_INT32 \<Rightarrow> 0x69
      | MLIF_DTYPE_UINT8 \<Rightarrow> 0x75 | MLIF_DTYPE_UINT16 \<Rightarrow> 0x75 | MLIF_DTYPE_UINT32 \<Rightarrow> 0x75
      | MLIF_DTYPE_FLOAT \<Rightarrow> 0x66 | MLIF_DTYPE_RAW \<Rightarrow> 0x56)"

text \<open>\<open>size *= config->shape[i]\<close> over the dimensions; the multiplication wraps.\<close>

definition shape_size :: "data_config \<Rightarrow> u32 \<Rightarrow> u32 option" where
  "shape_size cfg sz =
     for_range 0 (unat (ndim cfg)) (\<lambda>i sz. do { d \<leftarrow> rd (shape cfg) i; Some (sz * d) }) sz"

definition udiv :: "u32 \<Rightarrow> u32 \<Rightarrow> u32 option" where
  "udiv a b = (if b = 0 then None else Some (a div b))"

section \<open>Writing a file\<close>

definition npy_magic :: "u8 list" where
  "npy_magic = [0x93, 0x4e, 0x55, 0x4d, 0x50, 0x59, 0x01, 0x00]"

definition npy_dict :: "data_config \<Rightarrow> u32 \<Rightarrow> u8 list" where
  "npy_dict cfg inputs =
     str ''{'descr': '<'' @ [dtype_char (dtype cfg)] @ dec_str (unat (dtype_size (dtype cfg))) @
     str ''', 'fortran_order': '' @ (if order cfg = MLIF_FORTRAN_ORDER then str ''True'' else str ''False'') @
     str '', 'shape': ('' @ dec_str (unat (nbatch cfg)) @ str '', '' @ dec_str (unat inputs) @ str '', ''"

text \<open>The header: magic bytes, length, dictionary, the shape with its last separator overwritten,
  and the padding that puts the newline at byte 127.\<close>

definition write_header :: "data_config \<Rightarrow> u8 list \<times> nat \<Rightarrow> (u8 list \<times> nat) option" where
  "write_header cfg fp =
     do { let fp = fput npy_magic fp;
          let fp = fput [118, 0] fp;
          inputs \<leftarrow> udiv (nsample cfg) (nbatch cfg);
          let fp = fput (npy_dict cfg inputs) fp;
          fp \<leftarrow> for_range 0 (unat (ndim cfg))
                 (\<lambda>i fp. do { d \<leftarrow> rd (shape cfg) i; Some (fput (dec_str (unat d) @ str '', '') fp) }) fp;
          let fp = (fst fp, snd fp - 2);
          let fp = fput (str ''), }'') fp;
          let w = 127 - int (snd fp);
          Some (fput (replicate (nat (max 1 \<bar>w\<bar>)) 0x20 @ [0x0a]) fp) }"

text \<open>\<open>fwrite\<close> of the first bytes of the data.\<close>

definition data_bytes :: "u8 list \<Rightarrow> u32 \<Rightarrow> u8 list option" where
  "data_bytes data n = (if unat n \<le> length data then Some (take (unat n) data) else None)"

definition open_stream :: "fstate \<Rightarrow> fstate" where
  "open_stream s = s\<lparr>handles := handles s + 1\<rparr>"

definition close_stream :: "u8 list option \<Rightarrow> fstate \<Rightarrow> fstate" where
  "close_stream f s = s\<lparr>content := f, handles := handles s - 1\<rparr>"

text \<open>\<open>creat\<close> says whether a file can be created; the code uses the stream without a test.\<close>

definition mlifio_to_file ::
  "bool \<Rightarrow> file_mode \<Rightarrow> fstate \<Rightarrow> data_config option \<Rightarrow> u8 list option \<Rightarrow> (io_status \<times> fstate) option" where
  "mlifio_to_file creat fmode s config data =
     (case (config, data) of
        (Some cfg, Some data) \<Rightarrow>
          do { sz \<leftarrow> shape_size cfg (dtype_size (dtype cfg));
               if fmode = MLIF_FILE_NPY then
                 (case content s of
                    None \<Rightarrow>
                      if creat then
                        do { let s = open_stream s;
                             fp \<leftarrow> write_header cfg ([], 0);
                             inputs \<leftarrow> udiv (nsample cfg) (nbatch cfg);
                             bs \<leftarrow> data_bytes data (sz * inputs);
                             Some (MLIF_IO_SUCCESS, close_stream (Some (fst (fput bs fp))) s) }
                      else None
                  | Some f \<Rightarrow>
                      do { let s = open_stream s;
                           inputs \<leftarrow> udiv (nsample cfg) (nbatch cfg);
                           bs \<leftarrow> data_bytes data (sz * inputs);
                           Some (MLIF_IO_SUCCESS, close_stream (Some (fst (fput bs (f, length f)))) s) })
               else if fmode = MLIF_FILE_BIN then
                 (if content s = None \<and> \<not> creat then None
                  else do { let f = (case content s of None \<Rightarrow> [] | Some f \<Rightarrow> f);
                            let s = open_stream s;
                            inputs \<leftarrow> udiv (nsample cfg) (nbatch cfg);
                            bs \<leftarrow> data_bytes data (sz * inputs);
                            Some (MLIF_IO_SUCCESS, close_stream (Some (fst (fput bs (f, length f)))) s) })
               else Some (MLIF_IO_ERROR, s) }
      | _ \<Rightarrow> Some (MLIF_IO_ERROR, s))"

section \<open>Writing to the standard output\<close>

definition hex_char :: "nat \<Rightarrow> u8" where
  "hex_char d = (if d < 10 then 0x30 + of_nat d else 0x57 + of_nat d)"

text \<open>\<open>" 0x%02x"\<close>.\<close>

definition hex_byte :: "u8 \<Rightarrow> u8 list" where
  "hex_byte b = str '' 0x'' @ [hex_char (unat b div 16), hex_char (unat b mod 16)]"

definition mlifio_to_stdout ::
  "stdio_mode \<Rightarrow> data_config option \<Rightarrow> u8 list option \<Rightarrow> u32 \<Rightarrow> u8 list \<Rightarrow> (io_status \<times> u8 list) option" where
  "mlifio_to_stdout iomode config data ibatch out =
     (case (config, data) of
        (Some cfg, Some data) \<Rightarrow>
          do { sz \<leftarrow> shape_size cfg (dtype_size (dtype cfg));
               if iomode = MLIF_STDIO_PLAIN then
                 do { inputs \<leftarrow> udiv (nsample cfg) (nbatch cfg);
                      out \<leftarrow> for_range 0 (unat inputs)
                        (\<lambda>i out.
                          do { let out = out @ str ''Output['' @ dec_str (unat (inputs * ibatch + of_nat i)) @ str '']:'';
                               out \<leftarrow> for_range 0 (unat sz)
                                 (\<lambda>j out. do { b \<leftarrow> rd data (unat (of_nat i * sz + of_nat j)); Some (out @ hex_byte b) }) out;
                               Some (out @ [0x0a]) })
                        (out @ str ''Batch['' @ dec_str (unat ibatch) @ str '']:'' @ [0x0a]);
                      Some (MLIF_IO_SUCCESS, out) }
               else if iomode = MLIF_STDIO_BIN then
                 do { inputs \<leftarrow> udiv (nsample cfg) (nbatch cfg);
                      out \<leftarrow> for_range 0 (unat inputs)
                        (\<lambda>i out. do { bs \<leftarrow> data_bytes (drop (unat (of_nat i * sz)) data) sz;
                                       Some (out @ str ''-?-'' @ bs @ str ''-!-'') }) out;
                      Some (MLIF_IO_SUCCESS, out) }
               else Some (MLIF_IO_ERROR, out) }
      | _ \<Rightarrow> Some (MLIF_IO_ERROR, out))"

section \<open>Reading a file\<close>

text \<open>\<open>strcmp\<close> of the three bytes of \<open>dtype\<close> with a two-letter name: it looks at the third byte only if the first two
  agree with the name, and never further. No statement writes that byte; it is what the stack holds.\<close>

definition dtype_is :: "u8 list \<Rightarrow> string \<Rightarrow> bool" where
  "dtype_is d name \<longleftrightarrow> d = str name @ [0]"

definition parse_dtype :: "u8 list \<Rightarrow> mlif_datatype" where
  "parse_dtype d =
     (if dtype_is d ''i1'' then MLIF_DTYPE_INT8
      else if dtype_is d ''i2'' then MLIF_DTYPE_INT16
      else if dtype_is d ''i4'' then MLIF_DTYPE_INT32
      else if dtype_is d ''u1'' then MLIF_DTYPE_UINT8
      else if dtype_is d ''u2'' then MLIF_DTYPE_UINT16
      else if dtype_is d ''u4'' then MLIF_DTYPE_UINT32
      else if dtype_is d ''f4'' then MLIF_DTYPE_FLOAT
      else MLIF_DTYPE_RAW)"

text \<open>The loop that collects digits up to the next comma from the rest of the file; the buffer has
  ten bytes, and the terminator \<open>atoi\<close> needs must be one of them.\<close>

fun read_digits :: "u8 list \<Rightarrow> u8 list \<Rightarrow> (u8 list \<times> nat) option" where
  "read_digits [] buf = None"
| "read_digits (c # f) buf =
     (if c = 0x2c then Some (buf, 1)
      else if is_dec c
      then (if length buf < 10
            then do { (b, n) \<leftarrow> read_digits f (buf @ [c]); Some (b, n + 1) } else None)
      else do { (b, n) \<leftarrow> read_digits f buf; Some (b, n + 1) })"

definition read_number :: "u8 list \<Rightarrow> nat \<Rightarrow> (u32 \<times> nat) option" where
  "read_number f p =
     do { (buf, n) \<leftarrow> read_digits (drop p f) [];
          if length buf < 10
          then do { v \<leftarrow> atoi buf; Some (word_of_int v, p + n + 1) } else None }"

text \<open>\<open>junk\<close> holds the three bytes of the uninitialised array \<open>dtype\<close>, which C leaves unspecified: they are an argument, over
  which the properties quantify. \<open>char\<close> is unsigned, as in
  the RISC-V calling convention, and \<open>offset\<close> is a \<open>short\<close>.\<close>

definition read_npy :: "u8 list \<Rightarrow> u8 list \<Rightarrow> data_config \<Rightarrow> u8 list \<Rightarrow> u32 \<Rightarrow> (data_config \<times> u8 list) option" where
  "read_npy junk f cfg data ix =
     do { (hl, p) \<leftarrow> fread f 8 2 [0, 0];
          let offset = (ucast (hl ! 0) + 256 * ucast (hl ! 1) :: 16 word);
          let p = p + 12;
          (dt, p) \<leftarrow> fread f p 2 junk;
          let cfg = cfg\<lparr>dtype := parse_dtype dt\<rparr>;
          sz \<leftarrow> shape_size cfg (dtype_size (dtype cfg));
          let p = p + 20;
          let cfg = cfg\<lparr>order := (if rd f p = Some 0x46 then MLIF_C_ORDER else MLIF_FORTRAN_ORDER)\<rparr>;
          let p = min (p + 1) (max p (length f)) + 16;
          (nb, p) \<leftarrow> read_number f p;
          let cfg = cfg\<lparr>nbatch := nb\<rparr>;
          (ns, p) \<leftarrow> read_number f p;
          let cfg = cfg\<lparr>nsample := ns * nbatch cfg\<rparr>;
          let p = fseek_set p (scast offset + 10 + ix * sz);
          inputs \<leftarrow> udiv (nsample cfg) (nbatch cfg);
          (data, p) \<leftarrow> fread f p (unat (sz * inputs)) data;
          Some (cfg, data) }"

definition mlifio_from_file ::
  "u8 list \<Rightarrow> file_mode \<Rightarrow> fstate \<Rightarrow> data_config \<Rightarrow> u8 list \<Rightarrow> u32 \<Rightarrow>
     (io_status \<times> fstate \<times> data_config \<times> u8 list) option" where
  "mlifio_from_file junk fmode s cfg data ix =
     (if fmode = MLIF_FILE_NPY then
        (case content s of
           None \<Rightarrow> Some (MLIF_IO_ERROR, s, cfg, data)
         | Some f \<Rightarrow>
             do { let s = open_stream s;
                  (cfg, data) \<leftarrow> read_npy junk f cfg data ix;
                  Some (MLIF_IO_SUCCESS, close_stream (Some f) s, cfg, data) })
      else if fmode = MLIF_FILE_BIN then
        do { sz \<leftarrow> shape_size cfg (dtype_size (dtype cfg));
             (case content s of
                None \<Rightarrow> Some (MLIF_IO_ERROR, s, cfg, data)
              | Some f \<Rightarrow>
                  do { let s = open_stream s;
                       n \<leftarrow> udiv (of_nat (length f)) sz;
                       let cfg = cfg\<lparr>nsample := n\<rparr>;
                       (data, p) \<leftarrow> fread f (fseek_set (length f) (ix * sz)) (unat sz) data;
                       Some (MLIF_IO_SUCCESS, s, cfg, data) }) }
      else Some (MLIF_IO_ERROR, s, cfg, data))"

section \<open>Reading from the standard input\<close>

text \<open>The inner loop: one token per byte of the row; the index wraps as \<open>size_t\<close> does.\<close>

fun store_tokens :: "u8 list list \<Rightarrow> u32 \<Rightarrow> u8 list \<Rightarrow> u8 list option" where
  "store_tokens [] k data = Some data"
| "store_tokens (t # ts) k data =
     do { v \<leftarrow> atoi t;
          data \<leftarrow> wr data (unat k) (word_of_int v);
          store_tokens ts (k + 1) data }"

text \<open>The outer loop. The result is the data, the number of rows and the input left.\<close>

function read_rows :: "u32 \<Rightarrow> u8 list \<Rightarrow> nat \<Rightarrow> u8 list \<Rightarrow> (u8 list \<times> nat \<times> u8 list) option" where
  "read_rows cl inp cnt data =
     (case fgets 2048 inp of
        None \<Rightarrow> Some (data, cnt, inp)
      | Some (line, inp') \<Rightarrow>
          (let buf = takeWhile (\<lambda>c. c \<noteq> 0) line in
           if buf = [0x0a] then Some (data, cnt, inp')
           else do { data \<leftarrow> store_tokens (tokens 0x2c buf) (of_nat cnt * cl) data;
                     read_rows cl inp' (cnt + 1) data }))"
  by pat_completeness auto
termination
  by (relation "measure (\<lambda>(c, inp, n, d). length inp)") (auto simp: fgets_def Let_def split: if_splits)

declare read_rows.simps [simp del]

text \<open>\<open>fflush(stdin)\<close> is taken to leave the input alone.\<close>

definition mlifio_from_stdin ::
  "stdio_mode \<Rightarrow> data_config \<Rightarrow> u8 list \<Rightarrow> u8 list \<Rightarrow> (io_status \<times> data_config \<times> u8 list \<times> u8 list) option" where
  "mlifio_from_stdin iomode cfg data inp =
     (if iomode = MLIF_STDIO_PLAIN then
        do { (data, cnt, inp) \<leftarrow> read_rows (col cfg) inp 0 data;
             Some (MLIF_IO_SUCCESS, cfg\<lparr>nsample := (if 0 < cnt then of_nat cnt else 1)\<rparr>, data, inp) }
      else if iomode = MLIF_STDIO_BIN then
        do { let n = unat (col cfg);
             (buf, k) \<leftarrow> fread inp 0 n (replicate 2048 0);
             if k \<le> length data
             then Some (MLIF_IO_SUCCESS, cfg, take k buf @ drop k data, drop k inp) else None }
      else Some (MLIF_IO_ERROR, cfg, data, inp))"

section \<open>The numbers of a header\<close>

lemma length_dec_str: "n < 10 ^ k \<Longrightarrow> 0 < k \<Longrightarrow> length (dec_str n) \<le> k"
proof (induction n arbitrary: k rule: dec_str.induct)
  case (1 n)
  show ?case
  proof (cases "n < 10")
    case True
    with 1(3) show ?thesis by (subst dec_str.simps) simp
  next
    case False
    have "k \<noteq> 1" using 1(2) False by auto
    then obtain j where k: "k = Suc j" "0 < j" using 1(3) by (cases k) auto
    have "n div 10 < 10 ^ j" using 1(2) k by (simp add: less_mult_imp_div_less mult.commute)
    then show ?thesis using 1(1) [OF False _ k(2)] False k by (subst dec_str.simps) simp
  qed
qed

lemma read_digits_dec:
  "(\<And>c. c \<in> set ds \<Longrightarrow> is_dec c) \<Longrightarrow> length buf + length ds \<le> 10 \<Longrightarrow>
     read_digits (ds @ t) buf = do { (b, n) \<leftarrow> read_digits t (buf @ ds); Some (b, n + length ds) }"
proof (induction ds arbitrary: buf)
  case Nil
  show ?case by (cases "read_digits t buf") auto
next
  case (Cons c ds)
  have "is_dec c" "c \<noteq> 0x2c" using Cons(2) [of c] by (auto simp: is_dec_def word_le_nat_alt)
  with Cons show ?case by (cases "read_digits t ((buf @ [c]) @ ds)") auto
qed

lemma read_number_dec:
  assumes "drop p f = dec_str v @ s @ [0x2c] @ t" "v < 10 ^ 9"
    and "\<And>c. c \<in> set s \<Longrightarrow> c \<noteq> 0x2c \<and> \<not> is_dec c"
  shows "read_number f p = Some (of_nat v, p + length (dec_str v) + length s + 2)"
proof -
  have l: "length (dec_str v) \<le> 9" using assms(2) length_dec_str by simp
  have skip: "read_digits (s @ [0x2c] @ t) buf = Some (buf, length s + 1)" for buf
    using assms(3) by (induction s) auto
  have "atoi (dec_str v) = Some (int v)" using atoi_dec_str [of v "[]"] assms(2) by simp
  then show ?thesis
    using l unfolding read_number_def assms(1)
    by (subst read_digits_dec) (auto dest: dec_str_digits simp: skip [simplified])
qed

section \<open>What a file holds\<close>

definition npy_text :: "data_config \<Rightarrow> u8 list" where
  "npy_text cfg = npy_dict cfg (nsample cfg div nbatch cfg) @
     concat (map (\<lambda>d. dec_str (unat d) @ str '', '') (take (unat (ndim cfg)) (shape cfg)))"

definition npy_header :: "data_config \<Rightarrow> u8 list" where
  "npy_header cfg = npy_magic @ [118, 0] @ take (length (npy_text cfg) - 2) (npy_text cfg) @ str ''), }'' @
     replicate (115 - length (npy_text cfg)) 0x20 @ [0x0a]"

text \<open>The text of the header fits: the padding ends in front of byte 127.\<close>

definition header_fits :: "data_config \<Rightarrow> bool" where
  "header_fits cfg \<longleftrightarrow> unat (ndim cfg) \<le> length (shape cfg) \<and> length (npy_text cfg) \<le> 114"

lemma length_npy_text: "2 \<le> length (npy_text cfg)"
  by (simp add: npy_text_def npy_dict_def)

lemma length_npy_header: "header_fits cfg \<Longrightarrow> length (npy_header cfg) = 128"
  using length_npy_text [of cfg] by (simp add: npy_header_def header_fits_def npy_magic_def)

lemma put_shape:
  assumes "n \<le> length sh"
  shows "for_range 0 n (\<lambda>i fp. do { d \<leftarrow> rd sh i; Some (fput (dec_str (unat d) @ str '', '') fp) }) (f, length f)
     = Some (f @ concat (map (\<lambda>d. dec_str (unat d) @ str '', '') (take n sh)),
             length (f @ concat (map (\<lambda>d. dec_str (unat d) @ str '', '') (take n sh))))"
  by (rule for_range_eqI [where g = "\<lambda>i. (f @ concat (map (\<lambda>d. dec_str (unat d) @ str '', '') (take i sh)),
             length (f @ concat (map (\<lambda>d. dec_str (unat d) @ str '', '') (take i sh))))"])
    (use assms in \<open>auto simp: fput_def take_Suc_conv_app_nth\<close>)

lemma fput_back:
  "2 \<le> length t \<Longrightarrow> 2 \<le> length bs \<Longrightarrow>
     fput bs (f @ t, length (f @ t) - 2) = (f @ take (length t - 2) t @ bs, length (f @ take (length t - 2) t @ bs))"
  by (simp add: fput_def)

lemma write_header_ok:
  assumes "header_fits cfg" "nbatch cfg \<noteq> 0"
  shows "write_header cfg ([], 0) = Some (npy_header cfg, length (npy_header cfg))"
proof -
  define inputs where "inputs = nsample cfg div nbatch cfg"
  define sh where "sh = concat (map (\<lambda>d. dec_str (unat d) @ str '', '') (take (unat (ndim cfg)) (shape cfg)))"
  let ?m = "npy_magic @ [118, 0]"
  have t: "npy_text cfg = npy_dict cfg inputs @ sh" by (simp add: npy_text_def inputs_def sh_def)
  have fp: "fput npy_magic ([], 0) = (npy_magic, length npy_magic)" by (simp add: fput_def)
  let ?g = "?m @ take (length (npy_text cfg) - 2) (npy_text cfg) @ str ''), }''"
  have l: "length ?g = length (npy_text cfg) + 12" using length_npy_text [of cfg] by (simp add: npy_magic_def)
  have fits: "unat (ndim cfg) \<le> length (shape cfg)" "length (npy_text cfg) \<le> 114"
    using assms(1) by (auto simp: header_fits_def)
  have w: "nat (max 1 \<bar>127 - int (length ?g)\<bar>) = 115 - length (npy_text cfg)" using fits(2) l by simp
  have u: "udiv (nsample cfg) (nbatch cfg) = Some inputs" using assms(2) by (simp add: udiv_def inputs_def)
  have 1: "fput (npy_dict cfg inputs) (?m, length ?m) = (?m @ npy_dict cfg inputs, length (?m @ npy_dict cfg inputs))"
    by (rule fput_end)
  have 2: "for_range 0 (unat (ndim cfg)) (\<lambda>i fp. do { d \<leftarrow> rd (shape cfg) i; Some (fput (dec_str (unat d) @ str '', '') fp) })
       (?m @ npy_dict cfg inputs, length (?m @ npy_dict cfg inputs))
     = Some (?m @ npy_text cfg, length (?m @ npy_text cfg))"
    using put_shape [OF fits(1), of "?m @ npy_dict cfg inputs"] by (simp only: t sh_def append_assoc)
  have 3: "fput (str ''), }'') (?m @ npy_text cfg, length (?m @ npy_text cfg) - 2) = (?g, length ?g)"
    using fput_back [OF length_npy_text [of cfg], of "str ''), }''" ?m] by simp
  have h: "?g @ replicate (115 - length (npy_text cfg)) 0x20 @ [0x0a] = npy_header cfg"
    by (simp add: npy_header_def)
  show ?thesis
    unfolding write_header_def Let_def fp fput_end u Option.bind.simps 1 2 fst_conv snd_conv 3 w h by simp
qed


section \<open>Reading a file that was written\<close>

text \<open>The type is recognised if the byte behind the two that were read happens to be 0.\<close>

definition read_dtype :: "u8 \<Rightarrow> mlif_datatype \<Rightarrow> mlif_datatype" where
  "read_dtype z t = (if z = 0 then t else MLIF_DTYPE_RAW)"

lemma parse_dtype_written: "parse_dtype ([dtype_char t] @ dec_str (unat (dtype_size t)) @ [z]) = read_dtype z t"
  by (cases t; subst dec_str.simps; simp add: parse_dtype_def dtype_is_def dtype_char_def dtype_size_def read_dtype_def)

lemma length_dtype_size: "length (dec_str (unat (dtype_size t))) = 1"
  by (cases t; subst dec_str.simps; simp add: dtype_size_def)

text \<open>The header of a file in C order, up to the two numbers.\<close>

lemma npy_header_split:
  assumes "order cfg = MLIF_C_ORDER"
  obtains a b c s r where
    "npy_header cfg = a @ [118, 0] @ b @ [dtype_char (dtype cfg)] @ dec_str (unat (dtype_size (dtype cfg))) @
       c @ [0x46] @ s @ dec_str (unat (nbatch cfg)) @ [0x2c, 0x20] @
       dec_str (unat (nsample cfg div nbatch cfg)) @ r"
    and "length a = 8" "length b = 12" "length c = 20" "length s = 16"
    and "\<exists>p q. r = p @ [0x2c] @ q \<and> (\<forall>c\<in>set p. c \<noteq> 0x2c \<and> \<not> is_dec c)"
proof -
  let ?inputs = "nsample cfg div nbatch cfg"
  define sh where "sh = concat (map (\<lambda>d. dec_str (unat d) @ str '', '') (take (unat (ndim cfg)) (shape cfg)))"
  define pre where "pre = str ''{'descr': '<'' @ [dtype_char (dtype cfg)] @ dec_str (unat (dtype_size (dtype cfg))) @
     str ''', 'fortran_order': '' @ str ''False'' @ str '', 'shape': ('' @ dec_str (unat (nbatch cfg)) @ str '', '' @
     dec_str (unat ?inputs)"
  have hdr: "npy_text cfg = pre @ [0x2c, 0x20] @ sh"
    using assms by (simp add: npy_text_def npy_dict_def pre_def sh_def)
  have sh: "sh = [] \<or> 2 \<le> length sh"
    by (cases "take (unat (ndim cfg)) (shape cfg)") (simp_all add: sh_def)
  let ?t = "str ''), }'' @ replicate (115 - length (npy_text cfg)) 0x20 @ [0x0a :: u8]"
  define r where "r = (if sh = [] then ?t else [0x2c, 0x20] @ take (length sh - 2) sh @ ?t)"
  have "npy_header cfg = npy_magic @ [118, 0] @ pre @ r"
    using sh by (auto simp: npy_header_def hdr r_def take_Cons' numeral_2_eq_2)
  moreover have "\<exists>p q. r = p @ [0x2c] @ q \<and> (\<forall>c\<in>set p. c \<noteq> 0x2c \<and> \<not> is_dec c)"
  proof (cases "sh = []")
    case True
    then have "r = [0x29] @ [0x2c] @ tl (tl ?t)" by (simp add: r_def)
    then show ?thesis by (intro exI [of _ "[0x29]"] exI [of _ "tl (tl ?t)"]) (simp add: is_dec_def)
  next
    case False
    then have "r = [] @ [0x2c] @ tl r" by (simp add: r_def)
    then show ?thesis by (intro exI [of _ "[]"] exI [of _ "tl r"]) simp
  qed
  ultimately show ?thesis
    by (intro that [of npy_magic "str ''{'descr': '<''" "str ''', 'fortran_order': ''"
      "str ''alse, 'shape': (''" r]) (simp_all add: pre_def npy_magic_def)
qed

lemma drop_at: "n = length a \<Longrightarrow> drop n (a @ b) = b"
  by simp

lemma rd_at: "n = length a \<Longrightarrow> rd (a @ x # b) n = Some x"
  by (simp add: rd_def)

lemma fread_at:
  "n = length a \<Longrightarrow> k = length x \<Longrightarrow> k \<le> length buf \<Longrightarrow>
     fread (a @ x @ y) n k buf = Some (x @ drop k buf, n + k)"
  by (simp add: fread_def)

lemma read_npy_header:
  assumes "header_fits cfg" "order cfg = MLIF_C_ORDER" "nbatch cfg \<noteq> 0"
    and "unat (nbatch cfg) < 10 ^ 9" "unat (nsample cfg div nbatch cfg) < 10 ^ 9"
    and "shape_size (cfg'\<lparr>dtype := read_dtype z (dtype cfg)\<rparr>) (dtype_size (read_dtype z (dtype cfg))) = Some sz"
    and "0 \<le> sint (128 + ix * sz)"
  shows "read_npy [x, y, z] (npy_header cfg @ d) cfg' data ix =
    do { (data, p) \<leftarrow> fread (npy_header cfg @ d) (unat (128 + ix * sz))
           (unat (sz * ((nsample cfg div nbatch cfg) * nbatch cfg div nbatch cfg))) data;
         Some (cfg'\<lparr>dtype := read_dtype z (dtype cfg), order := MLIF_C_ORDER, nbatch := nbatch cfg,
           nsample := (nsample cfg div nbatch cfg) * nbatch cfg\<rparr>, data) }"
proof -
  let ?nb = "dec_str (unat (nbatch cfg))" and ?ns = "dec_str (unat (nsample cfg div nbatch cfg))"
  let ?dt = "[dtype_char (dtype cfg)] @ dec_str (unat (dtype_size (dtype cfg)))"
  obtain a b c s r where h: "npy_header cfg = a @ [118, 0] @ b @ [dtype_char (dtype cfg)] @
       dec_str (unat (dtype_size (dtype cfg))) @ c @ [0x46] @ s @ ?nb @ [0x2c, 0x20] @ ?ns @ r"
    and len: "length a = 8" "length b = 12" "length c = 20" "length s = 16"
    and r: "\<exists>p q. r = p @ [0x2c] @ q \<and> (\<forall>c\<in>set p. c \<noteq> 0x2c \<and> \<not> is_dec c)"
    using npy_header_split [OF assms(2)] by metis
  from r obtain p q where r: "r = p @ [0x2c] @ q" "\<And>c. c \<in> set p \<Longrightarrow> c \<noteq> 0x2c \<and> \<not> is_dec c" by blast
  let ?f = "npy_header cfg @ d"
  have f1: "fread ?f 8 2 [0, 0] = Some ([118, 0], 10)"
    unfolding h using len fread_at [of 8 a 2 "[118, 0]" "[0, 0]"] by simp
  have f2: "fread ?f 22 2 [x, y, z] = Some (?dt @ [z], 24)"
    using fread_at [of 22 "a @ [118, 0] @ b" 2 ?dt "[x, y, z]" "c @ [0x46] @ s @ ?nb @ [0x2c, 0x20] @ ?ns @ r @ d"]
      len length_dtype_size by (simp add: h)
  have f3: "rd ?f 44 = Some 0x46"
    using rd_at [of 44 "a @ [118, 0] @ b @ ?dt @ c" "0x46" "s @ ?nb @ [0x2c, 0x20] @ ?ns @ r @ d"]
      len length_dtype_size by (simp add: h)
  then have l: "44 < length ?f" by (auto simp: rd_def split: if_splits)
  have d1: "drop 61 ?f = ?nb @ [] @ [0x2c] @ [0x20] @ ?ns @ r @ d"
    using drop_at [of 61 "a @ [118, 0] @ b @ ?dt @ c @ [0x46] @ s"] len length_dtype_size by (simp add: h)
  have d2: "drop (61 + length ?nb + 2) ?f = ?ns @ p @ [0x2c] @ q @ d"
    using drop_at [of "61 + length ?nb + 2" "a @ [118, 0] @ b @ ?dt @ c @ [0x46] @ s @ ?nb @ [0x2c, 0x20]"]
      len length_dtype_size by (simp add: h r)
  have n1: "read_number ?f 61 = Some (nbatch cfg, 61 + length ?nb + 2)"
    using read_number_dec [OF d1 assms(4)] by simp
  have n2: "read_number ?f (61 + length ?nb + 2) =
      Some (nsample cfg div nbatch cfg, 61 + length ?nb + 2 + length ?ns + length p + 2)"
    using read_number_dec [OF d2 assms(5) r(2)] by simp
  have off: "scast (ucast ([118, 0 :: u8] ! 0) + 256 * ucast ([118, 0 :: u8] ! 1) :: 16 word) + 10 + ix * sz = 128 + ix * (sz :: u32)"
    by simp
  have dt: "parse_dtype (?dt @ [z]) = read_dtype z (dtype cfg)" by (simp only: parse_dtype_written append_assoc)
  have sk: "fseek_set z (128 + ix * sz) = unat (128 + ix * sz)" for z using assms(7) by (simp add: fseek_set_def)
  show ?thesis
    using l n2 by (simp add: read_npy_def f1 f2 f3 dt [simplified] assms(3,6) n1 off [simplified] udiv_def sk Let_def del: append_assoc)
qed


lemma udiv_mult_div: "b \<noteq> 0 \<Longrightarrow> (a div b) * b div b = (a div b :: u32)"
proof -
  assume "b \<noteq> 0"
  then have b: "0 < unat b" by (simp add: unat_gt_0)
  have "unat a div unat b * unat b \<le> unat a" by simp
  moreover have "unat a < 2 ^ LENGTH(32)" by (rule unsigned_less)
  ultimately have "unat a div unat b * unat b < 2 ^ LENGTH(32)" by (rule le_less_trans)
  then have "unat ((a div b) * b) = unat (a div b) * unat b"
    using unat_mult_lem [of "a div b" b] by (simp add: unat_div_distrib)
  then show ?thesis using b by (intro word_unat_eq_iff [THEN iffD2]) (simp add: unat_div_distrib)
qed

text \<open>Every batch goes behind the ones before it.\<close>

fun write_batches :: "fstate \<Rightarrow> data_config \<Rightarrow> u8 list list \<Rightarrow> fstate option" where
  "write_batches s cfg [] = Some s"
| "write_batches s cfg (b # bs) =
     do { (r, s) \<leftarrow> mlifio_to_file True MLIF_FILE_NPY s (Some cfg) (Some b);
          if r = MLIF_IO_SUCCESS then write_batches s cfg bs else None }"

lemma write_more:
  assumes "shape_size cfg (dtype_size (dtype cfg)) = Some sz" "nbatch cfg \<noteq> 0"
    and "\<And>b. b \<in> set bs \<Longrightarrow> length b = unat (sz * (nsample cfg div nbatch cfg))"
  shows "write_batches \<lparr>content = Some f, handles = h\<rparr> cfg bs = Some \<lparr>content = Some (f @ concat bs), handles = h\<rparr>"
  using assms(3)
proof (induction bs arbitrary: f)
  case (Cons b bs)
  have "mlifio_to_file True MLIF_FILE_NPY \<lparr>content = Some f, handles = h\<rparr> (Some cfg) (Some b) =
      Some (MLIF_IO_SUCCESS, \<lparr>content = Some (f @ b), handles = h\<rparr>)"
    using assms(1,2) Cons(2) [of b]
    by (simp add: mlifio_to_file_def udiv_def data_bytes_def open_stream_def close_stream_def fput_end Let_def)
  with Cons show ?case by simp
qed simp

lemma write_first:
  assumes "shape_size cfg (dtype_size (dtype cfg)) = Some sz" "nbatch cfg \<noteq> 0" "header_fits cfg"
    and "length b = unat (sz * (nsample cfg div nbatch cfg))"
  shows "mlifio_to_file True MLIF_FILE_NPY \<lparr>content = None, handles = h\<rparr> (Some cfg) (Some b) =
      Some (MLIF_IO_SUCCESS, \<lparr>content = Some (npy_header cfg @ b), handles = h\<rparr>)"
  using assms(1,2,4) write_header_ok [OF assms(3,2)]
  by (simp add: mlifio_to_file_def udiv_def data_bytes_def open_stream_def close_stream_def fput_end Let_def)

lemma write_batches_file:
  assumes "shape_size cfg (dtype_size (dtype cfg)) = Some sz" "nbatch cfg \<noteq> 0" "header_fits cfg" "bs \<noteq> []"
    and "\<And>b. b \<in> set bs \<Longrightarrow> length b = unat (sz * (nsample cfg div nbatch cfg))"
  shows "write_batches \<lparr>content = None, handles = h\<rparr> cfg bs = Some \<lparr>content = Some (npy_header cfg @ concat bs), handles = h\<rparr>"
proof -
  obtain b r where bs: "bs = b # r" using assms(4) by (cases bs) auto
  have 1: "length b = unat (sz * (nsample cfg div nbatch cfg))"
    and 2: "\<And>b. b \<in> set r \<Longrightarrow> length b = unat (sz * (nsample cfg div nbatch cfg))" using assms(5) bs by auto
  show ?thesis by (simp add: bs write_first [OF assms(1-3) 1] write_more [OF assms(1,2) 2])
qed

lemma drop_concat: "k < length bs \<Longrightarrow> \<forall>b\<in>set bs. length b = n \<Longrightarrow> take n (drop (k * n) (concat bs)) = bs ! k"
proof (induction bs arbitrary: k)
  case (Cons b bs)
  then show ?case by (cases k) auto
qed simp

section \<open>Rows of decimal numbers\<close>

fun csv :: "u8 list \<Rightarrow> u8 list" where
  "csv [] = []"
| "csv [v] = dec_str (unat v)"
| "csv (v # w # vs) = dec_str (unat v) @ 0x2c # csv (w # vs)"

lemma csv_bytes: "c \<in> set (csv r) \<Longrightarrow> is_dec c \<or> c = 0x2c"
  by (induction r rule: csv.induct) (auto dest: dec_str_digits)

lemma tokens_sep: "tokens d (d # s) = tokens d s"
  by (subst (1 2) tokens.simps) (simp add: Let_def)

lemma tokens_run:
  "\<lbrakk>t \<noteq> []; d \<notin> set t; s = [] \<or> cch s = d \<and> s \<noteq> []\<rbrakk> \<Longrightarrow> tokens d (t @ s) = t # tokens d s"
proof -
  assume t: "t \<noteq> []" "d \<notin> set t" and s: "s = [] \<or> cch s = d \<and> s \<noteq> []"
  obtain c r where c: "t = c # r" using t(1) by (cases t) auto
  have "takeWhile (\<lambda>c. c \<noteq> d) (t @ s) = t \<and> dropWhile (\<lambda>c. c \<noteq> d) (t @ s) = s"
    using s t(2) by (cases s) (auto simp: takeWhile_append dropWhile_append)
  moreover have "dropWhile (\<lambda>c. c = d) (t @ s) = t @ s" using t(2) c by auto
  ultimately show ?thesis using t(1) by (subst tokens.simps) (simp add: Let_def)
qed

lemma no_comma: "c \<in> set (dec_str n) \<Longrightarrow> c \<noteq> 0x2c"
  using dec_str_digits [of c n] by (auto simp: is_dec_def word_le_nat_alt)

lemma unat_byte: "unat (v :: u8) < 256"
  using unsigned_less [of v, where ?'a = nat] by simp

lemma atoi_byte: "\<not> is_dec (cch t) \<Longrightarrow> atoi (dec_str (unat (v :: u8)) @ t) = Some (int (unat v))"
  by (intro atoi_dec_str less_trans [OF unat_byte]) auto

lemma store_csv:
  assumes "r \<noteq> []" "unat k + length r \<le> length data" "length data < 2 ^ 32"
  shows "store_tokens (tokens 0x2c (csv r @ [0x0a])) k data =
    Some (take (unat k) data @ r @ drop (unat k + length r) data)"
  using assms
proof (induction r arbitrary: k data rule: csv.induct)
  case (2 v)
  have "tokens 0x2c (dec_str (unat v) @ [0x0a]) = [dec_str (unat v) @ [0x0a]]"
    using tokens_run [of "dec_str (unat v) @ [0x0a]" "0x2c" "[]"] no_comma by (auto simp: tokens.simps [of _ "[]"])
  moreover have "atoi (dec_str (unat v) @ [0x0a]) = Some (int (unat v))" by (intro atoi_byte) (simp add: is_dec_def)
  ultimately show ?case using 2(2) by (simp add: upd_conv_take_nth_drop)
next
  case (3 v w vs)
  have "tokens 0x2c (csv (v # w # vs) @ [0x0a]) = dec_str (unat v) # tokens 0x2c (csv (w # vs) @ [0x0a])"
    using tokens_run [of "dec_str (unat v)" "0x2c" "0x2c # csv (w # vs) @ [0x0a]"] no_comma by (auto simp: tokens_sep)
  moreover have "atoi (dec_str (unat v)) = Some (int (unat v))" using atoi_byte [of "[]" v] by simp
  moreover have "unat (k + 1) = unat k + 1"
    using 3(3,4) by (intro unat_add_lem [THEN iffD1, THEN trans]) simp_all
  ultimately show ?case using 3(3,4) 3(1) [of "k + 1" "data[unat k := v]"]
    by (simp add: upd_conv_take_nth_drop take_Suc_conv_app_nth add.commute del: csv.simps)
qed simp

lemma fgets_line: "0x0a \<notin> set l \<Longrightarrow> length l + 2 \<le> n \<Longrightarrow> fgets n (l @ 0x0a # r) = Some (l @ [0x0a], r)"
proof -
  assume l: "0x0a \<notin> set l" "length l + 2 \<le> n"
  then have "takeWhile (\<lambda>c. c \<noteq> 0x0a) (l @ 0x0a # r) = l" by (subst takeWhile_append2) auto
  then have "min (n - 1) (length (takeWhile (\<lambda>c. c \<noteq> 0x0a) (l @ 0x0a # r)) + 1) = length l + 1" using l by simp
  then show ?thesis by (simp add: fgets_def)
qed

lemma read_rows_csv:
  assumes "e = [] \<and> rest = [] \<or> e = 0x0a # rest"
    and "\<forall>r\<in>set rs. length r = unat cl \<and> length (csv r) < 2047" "0 < unat cl"
    and "length pre = cnt * unat cl" "length pre + length (concat rs) \<le> length (pre @ data)"
    and "length (pre @ data) < 2 ^ 32"
  shows "read_rows cl (concat (map (\<lambda>r. csv r @ [0x0a]) rs) @ e) cnt (pre @ data) =
    Some (pre @ concat rs @ drop (length (concat rs)) data, cnt + length rs, rest)"
  using assms(2-)
proof (induction rs arbitrary: cnt pre data)
  case Nil
  then show ?case using assms(1) fgets_line [of "[]" 2048 rest]
    by (auto simp: read_rows.simps [of _ "[]"] read_rows.simps [of _ "10 # rest"] fgets_def)
next
  case (Cons r rs)
  have r: "length r = unat cl" "length (csv r) < 2047" "r \<noteq> []" using Cons(2,3) by auto
  let ?l = "csv r @ [0x0a]" and ?rest = "concat (map (\<lambda>r. csv r @ [0x0a]) rs) @ e"
  have n0: "\<forall>c\<in>set ?l. c \<noteq> 0" and nl: "0x0a \<notin> set (csv r)"
    using csv_bytes [of 0 r] csv_bytes [of "0x0a" r] by (auto simp: is_dec_def)
  have g: "fgets 2048 (?l @ ?rest) = Some (?l, ?rest)"
    using fgets_line [OF nl, of 2048 ?rest] r(2) by simp
  have tw: "takeWhile (\<lambda>c. c \<noteq> 0) ?l = ?l" using n0 by (simp only: takeWhile_eq_all_conv)
  have ne: "?l \<noteq> [0x0a]" using r(3) by (cases r rule: csv.cases) auto
  have u: "unat (of_nat cnt * cl) = length pre"
  proof -
    have "of_nat cnt * cl = (of_nat (length pre) :: u32)" using Cons(4) by simp
    then show ?thesis using Cons(6) by (simp only: unat_of_nat) simp
  qed
  have st: "store_tokens (tokens 0x2c ?l) (of_nat cnt * cl) (pre @ data) = Some ((pre @ r) @ drop (length r) data)"
    using store_csv [OF r(3), of "of_nat cnt * cl" "pre @ data"] Cons(5,6) u by simp
  have "read_rows cl ?rest (cnt + 1) ((pre @ r) @ drop (length r) data) =
      Some ((pre @ r) @ concat rs @ drop (length (concat rs)) (drop (length r) data), cnt + 1 + length rs, rest)"
    using Cons(2-6) r(1) by (intro Cons(1)) auto
  then show ?case
    using g tw ne st by (subst read_rows.simps) (simp add: Let_def add.commute)
qed

section \<open>Properties\<close>

text \<open>C13: Batches that are written one after the other with \<open>mlifio_to_file\<close> as an \<open>.npy\<close> file in C
  order are read back by \<open>mlifio_from_file\<close>: for the index of the first input of batch \<open>k\<close> it
  delivers exactly that batch, the number of batches, and the number of samples rounded down to a multiple of it.
  This holds if the uninitialised byte \<open>z\<close> the reader takes for the end of the type name is 0, and then the type is
  that of the writer; for elements of one byte it holds whatever \<open>z\<close> is, but the type is lost if \<open>z\<close> is not 0. The file
  is the 128-byte header with the batches behind it, and no stream stays open.\<close>

theorem npy_roundtrip:
  assumes "header_fits cfg" "order cfg = MLIF_C_ORDER" "nbatch cfg \<noteq> 0"
    and "nbatch cfg < 10 ^ 9" "nsample cfg div nbatch cfg < 10 ^ 9"
    and "shape_size cfg (dtype_size (dtype cfg)) = Some sz"
    and "\<forall>b\<in>set bs. length b = unat (sz * (nsample cfg div nbatch cfg))"
    and "128 + length bs * (unat (nsample cfg div nbatch cfg) * unat sz) < 2 ^ 31" "k < length bs"
    and "ndim cfg' = ndim cfg" "shape cfg' = shape cfg"
    and "unat (sz * (nsample cfg div nbatch cfg)) \<le> length data"
    and z: "z = 0 \<or> dtype_size (dtype cfg) = 1"
  shows "do { s \<leftarrow> write_batches \<lparr>content = None, handles = h\<rparr> cfg bs;
              mlifio_from_file [x, y, z] MLIF_FILE_NPY s cfg' data (of_nat k * (nsample cfg div nbatch cfg)) } =
    Some (MLIF_IO_SUCCESS, \<lparr>content = Some (npy_header cfg @ concat bs), handles = h\<rparr>,
      cfg'\<lparr>dtype := (if z = 0 then dtype cfg else MLIF_DTYPE_RAW), order := MLIF_C_ORDER, nbatch := nbatch cfg,
        nsample := (nsample cfg div nbatch cfg) * nbatch cfg\<rparr>,
      bs ! k @ drop (unat (sz * (nsample cfg div nbatch cfg))) data)"
proof -
  define inputs where "inputs = nsample cfg div nbatch cfg"
  define n where "n = unat (sz * inputs)"
  have le: "Suc k * (unat inputs * unat sz) \<le> length bs * (unat inputs * unat sz)"
    using assms(9) by (intro mult_right_mono) auto
  have n: "n = unat inputs * unat sz"
  proof -
    have "unat inputs * unat sz < 2 ^ 32" using le assms(8) by (simp add: inputs_def)
    then show ?thesis using unat_mult_lem [of sz inputs] by (simp add: n_def mult.commute)
  qed
  have sz': "shape_size (cfg'\<lparr>dtype := read_dtype z (dtype cfg)\<rparr>) (dtype_size (read_dtype z (dtype cfg))) = Some sz"
    using assms(6,10,11) z by (auto simp: shape_size_def read_dtype_def dtype_size_def [of MLIF_DTYPE_RAW])
  have kn: "128 + k * n + n < 2 ^ 31"
    using le assms(8) by (simp add: n inputs_def)
  have "128 + of_nat k * inputs * sz = (of_nat (128 + k * n) :: u32)" by (simp add: n)
  then have pos: "unat (128 + of_nat k * inputs * sz) = 128 + k * n" using kn
    by (simp only: unat_of_nat) simp
  then have nonneg: "0 \<le> sint (128 + of_nat k * inputs * sz)" using kn
    by (simp add: sint_unat)
  have inv: "inputs * nbatch cfg div nbatch cfg = inputs" using udiv_mult_div [OF assms(3)] by (simp add: inputs_def)
  have lb: "length (bs ! k) = n" using assms(7,9) by (simp add: n_def inputs_def)
  have "fread (npy_header cfg @ concat bs) (128 + k * n) n data = Some (bs ! k @ drop n data, 128 + k * n + n)"
    using drop_concat [OF assms(9,7)] lb assms(12) length_npy_header [OF assms(1)]
    by (simp add: fread_def Let_def n_def [symmetric] inputs_def [symmetric])
  then have "read_npy [x, y, z] (npy_header cfg @ concat bs) cfg' data (of_nat k * inputs) =
     Some (cfg'\<lparr>dtype := read_dtype z (dtype cfg), order := MLIF_C_ORDER, nbatch := nbatch cfg, nsample := inputs * nbatch cfg\<rparr>,
       bs ! k @ drop n data)"
    using read_npy_header [OF assms(1-3) _ _ sz', of "of_nat k * inputs"] assms(4,5) nonneg pos
    by (simp add: inv inputs_def [symmetric] n_def [symmetric] word_less_nat_alt)
  moreover have "write_batches \<lparr>content = None, handles = h\<rparr> cfg bs = Some \<lparr>content = Some (npy_header cfg @ concat bs), handles = h\<rparr>"
    using assms(1,3,6,7,9) by (intro write_batches_file [where sz = sz]) auto
  ultimately show ?thesis
    by (simp add: mlifio_from_file_def open_stream_def close_stream_def inputs_def n_def Let_def read_dtype_def)
qed

lemma npy_roundtrip_witness:
  "map_option (\<lambda>(r, s, c, d). (dtype c, d))
     (do { s \<leftarrow> write_batches \<lparr>content = None, handles = 0\<rparr> \<lparr>nbatch = 2, nsample = 4, ndim = 1, shape = [3], row = 0,
            col = 0, dtype = MLIF_DTYPE_INT8, order = MLIF_C_ORDER\<rparr> [[1, 2, 3, 4, 5, 6], [7, 8, 9, 10, 11, 12]];
          mlifio_from_file [5, 5, 3] MLIF_FILE_NPY s \<lparr>nbatch = 0, nsample = 0, ndim = 1, shape = [3], row = 0,
            col = 0, dtype = MLIF_DTYPE_RAW, order = MLIF_C_ORDER\<rparr> [0, 0, 0, 0, 0, 0, 99] (of_nat 1 * (4 div 2)) })
     = Some (MLIF_DTYPE_RAW, [7, 8, 9, 10, 11, 12, 99])"
proof -
  let ?cfg = "\<lparr>nbatch = 2, nsample = 4, ndim = 1, shape = [3], row = 0, col = 0, dtype = MLIF_DTYPE_INT8, order = MLIF_C_ORDER\<rparr>"
  have 1: "header_fits ?cfg" by code_simp
  have 2: "shape_size ?cfg (dtype_size MLIF_DTYPE_INT8) = Some 3" by code_simp
  have 3: "(4 :: u32) div 2 = 2" by simp
  show ?thesis
    using npy_roundtrip [OF 1, where k = 1 and sz = 3 and h = 0 and x = 5 and y = 5 and z = 3
        and bs = "[[1, 2, 3, 4, 5, 6], [7, 8, 9, 10, 11, 12]]" and data = "[0, 0, 0, 0, 0, 0, 99]"
        and cfg' = "\<lparr>nbatch = 0, nsample = 0, ndim = 1, shape = [3], row = 0, col = 0, dtype = MLIF_DTYPE_RAW,
          order = MLIF_C_ORDER\<rparr>"] 2 by (simp add: 3 dtype_size_def [of MLIF_DTYPE_INT8] del: write_batches.simps)
qed

text \<open>\<open>mlifio_from_stdin\<close> in plain mode reads back rows of decimal bytes separated by commas, one
  row to a line, up to a blank line or the end of the input: the data is the rows one behind the
  other, and the number of samples is the number of rows.\<close>

theorem from_stdin_csv:
  assumes "\<forall>r\<in>set rs. length r = unat (col cfg) \<and> length (csv r) < 2047" "0 < unat (col cfg)"
    and "length (concat rs) \<le> length data" "length data < 2 ^ 32"
    and "e = [] \<and> rest = [] \<or> e = 0x0a # rest"
  shows "mlifio_from_stdin MLIF_STDIO_PLAIN cfg data (concat (map (\<lambda>r. csv r @ [0x0a]) rs) @ e) =
    Some (MLIF_IO_SUCCESS, cfg\<lparr>nsample := of_nat (max 1 (length rs))\<rparr>,
      concat rs @ drop (length (concat rs)) data, rest)"
  using read_rows_csv [OF assms(5,1,2), of "[]" 0 data] assms(3,4)
  by (cases rs) (auto simp: mlifio_from_stdin_def)

lemma from_stdin_csv_witness:
  "mlifio_from_stdin MLIF_STDIO_PLAIN \<lparr>nbatch = 1, nsample = 0, ndim = 1, shape = [3], row = 0,
     col = 3, dtype = MLIF_DTYPE_INT8, order = MLIF_C_ORDER\<rparr> [0, 0, 0, 0, 0, 0, 99]
     (concat (map (\<lambda>r. csv r @ [0x0a]) [[10, 20, 255], [0, 7, 128]]) @ [0x0a, 0x41]) \<noteq> None"
  by (subst from_stdin_csv [where e = "[10, 65]" and rest = "[65]"]) (simp_all, (subst dec_str.simps, simp)+)

section \<open>Behaviour the comments do not tell\<close>

text \<open>A file in Fortran order cannot be read back: \<open>True\<close> is one byte shorter than \<open>False\<close>, so
  the reader skips the first digit of the number of batches. A single digit leaves 0, and the code
  divides by it.\<close>

lemma npy_fortran_misread:
  "do { s \<leftarrow> write_batches \<lparr>content = None, handles = 0\<rparr> \<lparr>nbatch = 2, nsample = 4, ndim = 1, shape = [3], row = 0,
            col = 0, dtype = MLIF_DTYPE_INT8, order = MLIF_FORTRAN_ORDER\<rparr> [[1, 2, 3, 4, 5, 6]];
          mlifio_from_file [5, 5, 0] MLIF_FILE_NPY s \<lparr>nbatch = 0, nsample = 0, ndim = 1, shape = [3], row = 0,
            col = 0, dtype = MLIF_DTYPE_RAW, order = MLIF_C_ORDER\<rparr> [0, 0, 0, 0, 0, 0, 99] 0 } = None"
  by code_simp

text \<open>The type is lost when the stack byte behind the two that are read is not 0.\<close>

lemma parse_dtype_junk: "length d = 3 \<Longrightarrow> d ! 2 \<noteq> 0 \<Longrightarrow> parse_dtype d = MLIF_DTYPE_RAW"
  by (auto simp: parse_dtype_def dtype_is_def)

text \<open>Reading a raw file leaves its stream open.\<close>

lemma from_file_bin_leak:
  "mlifio_from_file junk MLIF_FILE_BIN s cfg data ix = Some (MLIF_IO_SUCCESS, s', cfg', data') \<Longrightarrow>
     handles s' = handles s + 1"
  by (auto simp: mlifio_from_file_def open_stream_def Let_def bind_Some_iff split: option.splits)

end
