(* ===== verification/OpenAsipAes.thy ===== *)
theory OpenAsipAes
  imports Prelude
begin

text \<open>
  \<open>src/lib/openasip/aes\<close>: the Rijndael benchmark with its nine combinations of key and block
  length. \<open>statemt\<close> and \<open>key\<close> are arrays of 32 \<open>int\<close>, \<open>word\<close> is the global array of the round
  keys. An index outside its array and a switch that leaves a local variable uninitialised are
  \<open>None\<close>; a left shift wraps.
\<close>

section \<open>Two-dimensional arrays\<close>

definition rd2 :: "'a list list \<Rightarrow> nat \<Rightarrow> nat \<Rightarrow> 'a option" where
  "rd2 w i j = do { r \<leftarrow> rd w i; rd r j }"

definition wr2 :: "'a list list \<Rightarrow> nat \<Rightarrow> nat \<Rightarrow> 'a \<Rightarrow> 'a list list option" where
  "wr2 w i j v = do { r \<leftarrow> rd w i; r \<leftarrow> wr r j v; wr w i r }"

section \<open>The substitution tables\<close>

definition Sbox :: "s32 list list" where
  "Sbox =
    [
     [0x63, 0x7c, 0x77, 0x7b, 0xf2, 0x6b, 0x6f, 0xc5, 0x30, 0x01, 0x67, 0x2b, 0xfe, 0xd7, 0xab, 0x76],
     [0xca, 0x82, 0xc9, 0x7d, 0xfa, 0x59, 0x47, 0xf0, 0xad, 0xd4, 0xa2, 0xaf, 0x9c, 0xa4, 0x72, 0xc0],
     [0xb7, 0xfd, 0x93, 0x26, 0x36, 0x3f, 0xf7, 0xcc, 0x34, 0xa5, 0xe5, 0xf1, 0x71, 0xd8, 0x31, 0x15],
     [0x04, 0xc7, 0x23, 0xc3, 0x18, 0x96, 0x05, 0x9a, 0x07, 0x12, 0x80, 0xe2, 0xeb, 0x27, 0xb2, 0x75],
     [0x09, 0x83, 0x2c, 0x1a, 0x1b, 0x6e, 0x5a, 0xa0, 0x52, 0x3b, 0xd6, 0xb3, 0x29, 0xe3, 0x2f, 0x84],
     [0x53, 0xd1, 0x00, 0xed, 0x20, 0xfc, 0xb1, 0x5b, 0x6a, 0xcb, 0xbe, 0x39, 0x4a, 0x4c, 0x58, 0xcf],
     [0xd0, 0xef, 0xaa, 0xfb, 0x43, 0x4d, 0x33, 0x85, 0x45, 0xf9, 0x02, 0x7f, 0x50, 0x3c, 0x9f, 0xa8],
     [0x51, 0xa3, 0x40, 0x8f, 0x92, 0x9d, 0x38, 0xf5, 0xbc, 0xb6, 0xda, 0x21, 0x10, 0xff, 0xf3, 0xd2],
     [0xcd, 0x0c, 0x13, 0xec, 0x5f, 0x97, 0x44, 0x17, 0xc4, 0xa7, 0x7e, 0x3d, 0x64, 0x5d, 0x19, 0x73],
     [0x60, 0x81, 0x4f, 0xdc, 0x22, 0x2a, 0x90, 0x88, 0x46, 0xee, 0xb8, 0x14, 0xde, 0x5e, 0x0b, 0xdb],
     [0xe0, 0x32, 0x3a, 0x0a, 0x49, 0x06, 0x24, 0x5c, 0xc2, 0xd3, 0xac, 0x62, 0x91, 0x95, 0xe4, 0x79],
     [0xe7, 0xc8, 0x37, 0x6d, 0x8d, 0xd5, 0x4e, 0xa9, 0x6c, 0x56, 0xf4, 0xea, 0x65, 0x7a, 0xae, 0x08],
     [0xba, 0x78, 0x25, 0x2e, 0x1c, 0xa6, 0xb4, 0xc6, 0xe8, 0xdd, 0x74, 0x1f, 0x4b, 0xbd, 0x8b, 0x8a],
     [0x70, 0x3e, 0xb5, 0x66, 0x48, 0x03, 0xf6, 0x0e, 0x61, 0x35, 0x57, 0xb9, 0x86, 0xc1, 0x1d, 0x9e],
     [0xe1, 0xf8, 0x98, 0x11, 0x69, 0xd9, 0x8e, 0x94, 0x9b, 0x1e, 0x87, 0xe9, 0xce, 0x55, 0x28, 0xdf],
     [0x8c, 0xa1, 0x89, 0x0d, 0xbf, 0xe6, 0x42, 0x68, 0x41, 0x99, 0x2d, 0x0f, 0xb0, 0x54, 0xbb, 0x16]
    ]"

definition invSbox :: "s32 list list" where
  "invSbox =
    [
     [0x52, 0x09, 0x6a, 0xd5, 0x30, 0x36, 0xa5, 0x38, 0xbf, 0x40, 0xa3, 0x9e, 0x81, 0xf3, 0xd7, 0xfb],
     [0x7c, 0xe3, 0x39, 0x82, 0x9b, 0x2f, 0xff, 0x87, 0x34, 0x8e, 0x43, 0x44, 0xc4, 0xde, 0xe9, 0xcb],
     [0x54, 0x7b, 0x94, 0x32, 0xa6, 0xc2, 0x23, 0x3d, 0xee, 0x4c, 0x95, 0x0b, 0x42, 0xfa, 0xc3, 0x4e],
     [0x08, 0x2e, 0xa1, 0x66, 0x28, 0xd9, 0x24, 0xb2, 0x76, 0x5b, 0xa2, 0x49, 0x6d, 0x8b, 0xd1, 0x25],
     [0x72, 0xf8, 0xf6, 0x64, 0x86, 0x68, 0x98, 0x16, 0xd4, 0xa4, 0x5c, 0xcc, 0x5d, 0x65, 0xb6, 0x92],
     [0x6c, 0x70, 0x48, 0x50, 0xfd, 0xed, 0xb9, 0xda, 0x5e, 0x15, 0x46, 0x57, 0xa7, 0x8d, 0x9d, 0x84],
     [0x90, 0xd8, 0xab, 0x00, 0x8c, 0xbc, 0xd3, 0x0a, 0xf7, 0xe4, 0x58, 0x05, 0xb8, 0xb3, 0x45, 0x06],
     [0xd0, 0x2c, 0x1e, 0x8f, 0xca, 0x3f, 0x0f, 0x02, 0xc1, 0xaf, 0xbd, 0x03, 0x01, 0x13, 0x8a, 0x6b],
     [0x3a, 0x91, 0x11, 0x41, 0x4f, 0x67, 0xdc, 0xea, 0x97, 0xf2, 0xcf, 0xce, 0xf0, 0xb4, 0xe6, 0x73],
     [0x96, 0xac, 0x74, 0x22, 0xe7, 0xad, 0x35, 0x85, 0xe2, 0xf9, 0x37, 0xe8, 0x1c, 0x75, 0xdf, 0x6e],
     [0x47, 0xf1, 0x1a, 0x71, 0x1d, 0x29, 0xc5, 0x89, 0x6f, 0xb7, 0x62, 0x0e, 0xaa, 0x18, 0xbe, 0x1b],
     [0xfc, 0x56, 0x3e, 0x4b, 0xc6, 0xd2, 0x79, 0x20, 0x9a, 0xdb, 0xc0, 0xfe, 0x78, 0xcd, 0x5a, 0xf4],
     [0x1f, 0xdd, 0xa8, 0x33, 0x88, 0x07, 0xc7, 0x31, 0xb1, 0x12, 0x10, 0x59, 0x27, 0x80, 0xec, 0x5f],
     [0x60, 0x51, 0x7f, 0xa9, 0x19, 0xb5, 0x4a, 0x0d, 0x2d, 0xe5, 0x7a, 0x9f, 0x93, 0xc9, 0x9c, 0xef],
     [0xa0, 0xe0, 0x3b, 0x4d, 0xae, 0x2a, 0xf5, 0xb0, 0xc8, 0xeb, 0xbb, 0x3c, 0x83, 0x53, 0x99, 0x61],
     [0x17, 0x2b, 0x04, 0x7e, 0xba, 0x77, 0xd6, 0x26, 0xe1, 0x69, 0x14, 0x63, 0x55, 0x21, 0x0c, 0x7d]
    ]"

text \<open>\<open>Sbox[x >> 4][x & 0xf]\<close>.\<close>

definition sbox_at :: "s32 list list \<Rightarrow> s32 \<Rightarrow> s32 option" where
  "sbox_at tbl x =
     (let r = sint (signed_drop_bit 4 x) in
      if 0 \<le> r then rd2 tbl (nat r) (unat (x AND 0xf)) else None)"

definition SubByte :: "s32 \<Rightarrow> s32 option" where
  "SubByte x = (if 0 \<le> sint x then rd2 Sbox (unat x div 16) (unat x mod 16) else None)"

section \<open>Substitution and row shift\<close>

text \<open>The code moves the elements of a cycle one place and substitutes each: the first is kept in
  \<open>temp\<close>, every other goes to the place before it, \<open>temp\<close> to the last place.\<close>

fun sub_moves :: "s32 list list \<Rightarrow> nat \<Rightarrow> nat list \<Rightarrow> s32 \<Rightarrow> s32 list \<Rightarrow> s32 list option" where
  "sub_moves tbl dst [] temp s = wr s dst temp"
| "sub_moves tbl dst (j # js) temp s =
     do { x \<leftarrow> rd s j; v \<leftarrow> sbox_at tbl x; s \<leftarrow> wr s dst v; sub_moves tbl j js temp s }"

fun sub_cycle :: "s32 list list \<Rightarrow> nat list \<Rightarrow> s32 list \<Rightarrow> s32 list option" where
  "sub_cycle tbl [] s = Some s"
| "sub_cycle tbl (i # js) s =
     do { x \<leftarrow> rd s i; temp \<leftarrow> sbox_at tbl x; sub_moves tbl i js temp s }"

fun sub_cycles :: "s32 list list \<Rightarrow> nat list list \<Rightarrow> s32 list \<Rightarrow> s32 list option" where
  "sub_cycles tbl [] s = Some s"
| "sub_cycles tbl (c # cs) s = do { s \<leftarrow> sub_cycle tbl c s; sub_cycles tbl cs s }"

definition ByteSub_ShiftRow :: "s32 list \<Rightarrow> nat \<Rightarrow> s32 list option" where
  "ByteSub_ShiftRow statemt nb =
     (if nb = 4 then
        sub_cycles Sbox
          [[1, 5, 9, 13],
           [2, 10], [6, 14],
           [3, 15, 11, 7],
           [0], [4], [8], [12]] statemt
      else if nb = 6 then
        sub_cycles Sbox
          [[1, 5, 9, 13, 17, 21],
           [2, 10, 18], [6, 14, 22],
           [3, 15], [7, 19], [11, 23],
           [0], [4], [8], [12], [16], [20]] statemt
      else if nb = 8 then
        sub_cycles Sbox
          [[1, 5, 9, 13, 17, 21, 25, 29],
           [2, 14, 26, 6, 18, 30, 10, 22],
           [3, 19], [7, 23], [11, 27], [15, 31],
           [0], [4], [8], [12], [16], [20], [24], [28]] statemt
      else Some statemt)"

definition InversShiftRow_ByteSub :: "s32 list \<Rightarrow> nat \<Rightarrow> s32 list option" where
  "InversShiftRow_ByteSub statemt nb =
     (if nb = 4 then
        sub_cycles invSbox
          [[13, 9, 5, 1],
           [14, 6], [2, 10],
           [15, 3, 7, 11],
           [0], [4], [8], [12]] statemt
      else if nb = 6 then
        sub_cycles invSbox
          [[21, 17, 13, 9, 5, 1],
           [22, 14, 6], [18, 10, 2],
           [15, 3], [19, 7], [23, 11],
           [0], [4], [8], [12], [16], [20]] statemt
      else if nb = 8 then
        sub_cycles invSbox
          [[29, 25, 21, 17, 13, 9, 5, 1],
           [30, 18, 6, 26, 14, 2, 22, 10],
           [31, 15], [27, 11], [23, 7], [19, 3],
           [0], [4], [8], [12], [16], [20], [24], [28]] statemt
      else Some statemt)"

section \<open>Column mixing and round keys\<close>

text \<open>\<open>if ((x >> 8) == 1) x ^= 283\<close>.\<close>

definition reduce :: "s32 \<Rightarrow> s32" where
  "reduce x = (if signed_drop_bit 8 x = 1 then x XOR 283 else x)"

text \<open>One element of a mixed column, from the four elements in the order it takes them.\<close>

definition mix_elem :: "s32 \<Rightarrow> s32 \<Rightarrow> s32 \<Rightarrow> s32 \<Rightarrow> s32 \<Rightarrow> s32" where
  "mix_elem a b c d w =
     (let r = reduce (push_bit 1 a);
          x = b XOR push_bit 1 b;
          r = (if signed_drop_bit 8 x = 1 then r XOR (x XOR 283) else r XOR x)
      in r XOR (c XOR d XOR w))"

definition mix_column :: "s32 list list \<Rightarrow> s32 list \<Rightarrow> nat \<Rightarrow> nat \<Rightarrow> nat \<Rightarrow> s32 list \<Rightarrow> s32 list option" where
  "mix_column w s nb n j ret =
     do { s0 \<leftarrow> rd s (j * 4); s1 \<leftarrow> rd s (1 + j * 4); s2 \<leftarrow> rd s (2 + j * 4); s3 \<leftarrow> rd s (3 + j * 4);
          w0 \<leftarrow> rd2 w 0 (j + nb * n); w1 \<leftarrow> rd2 w 1 (j + nb * n);
          w2 \<leftarrow> rd2 w 2 (j + nb * n); w3 \<leftarrow> rd2 w 3 (j + nb * n);
          ret \<leftarrow> wr ret (j * 4) (mix_elem s0 s1 s2 s3 w0);
          ret \<leftarrow> wr ret (1 + j * 4) (mix_elem s1 s2 s3 s0 w1);
          ret \<leftarrow> wr ret (2 + j * 4) (mix_elem s2 s3 s0 s1 w2);
          wr ret (3 + j * 4) (mix_elem s3 s0 s1 s2 w3) }"

text \<open>The loop that copies the columns back.\<close>

definition copy_column :: "s32 list \<Rightarrow> nat \<Rightarrow> s32 list \<Rightarrow> s32 list option" where
  "copy_column ret j s =
     do { r0 \<leftarrow> rd ret (j * 4); s \<leftarrow> wr s (j * 4) r0;
          r1 \<leftarrow> rd ret (1 + j * 4); s \<leftarrow> wr s (1 + j * 4) r1;
          r2 \<leftarrow> rd ret (2 + j * 4); s \<leftarrow> wr s (2 + j * 4) r2;
          r3 \<leftarrow> rd ret (3 + j * 4); wr s (3 + j * 4) r3 }"

text \<open>\<open>ret\<close> is not initialised; it starts as \<open>junk\<close>, of 32 elements.\<close>

definition MixColumn_AddRoundKey :: "s32 list \<Rightarrow> s32 list list \<Rightarrow> s32 list \<Rightarrow> nat \<Rightarrow> nat \<Rightarrow> s32 list option" where
  "MixColumn_AddRoundKey junk w statemt nb n =
     do { ret \<leftarrow> for_range 0 nb (mix_column w statemt nb n) junk;
          for_range 0 nb (copy_column ret) statemt }"

definition key_column :: "s32 list list \<Rightarrow> nat \<Rightarrow> nat \<Rightarrow> nat \<Rightarrow> s32 list \<Rightarrow> s32 list option" where
  "key_column w nb n j s =
     do { s0 \<leftarrow> rd s (j * 4); w0 \<leftarrow> rd2 w 0 (j + nb * n); s \<leftarrow> wr s (j * 4) (s0 XOR w0);
          s1 \<leftarrow> rd s (1 + j * 4); w1 \<leftarrow> rd2 w 1 (j + nb * n); s \<leftarrow> wr s (1 + j * 4) (s1 XOR w1);
          s2 \<leftarrow> rd s (2 + j * 4); w2 \<leftarrow> rd2 w 2 (j + nb * n); s \<leftarrow> wr s (2 + j * 4) (s2 XOR w2);
          s3 \<leftarrow> rd s (3 + j * 4); w3 \<leftarrow> rd2 w 3 (j + nb * n); wr s (3 + j * 4) (s3 XOR w3) }"

definition inv_mix_elem :: "s32 \<Rightarrow> s32 \<Rightarrow> s32 \<Rightarrow> s32 \<Rightarrow> s32" where
  "inv_mix_elem a b c d =
     (let x = reduce (push_bit 1 a);
          x = x XOR a;
          x = reduce (push_bit 1 x);
          x = x XOR a;
          x = reduce (push_bit 1 x);
          r = x;
          x = reduce (push_bit 1 b);
          x = reduce (push_bit 1 x);
          x = x XOR b;
          x = reduce (push_bit 1 x);
          x = x XOR b;
          r = r XOR x;
          x = reduce (push_bit 1 c);
          x = x XOR c;
          x = reduce (push_bit 1 x);
          x = reduce (push_bit 1 x);
          x = x XOR c;
          r = r XOR x;
          x = reduce (push_bit 1 d);
          x = reduce (push_bit 1 x);
          x = reduce (push_bit 1 x);
          x = x XOR d
      in r XOR x)"

definition inv_mix_column :: "s32 list \<Rightarrow> nat \<Rightarrow> s32 list \<Rightarrow> s32 list option" where
  "inv_mix_column s j ret =
     for_range 0 4 (\<lambda>i ret.
       do { a \<leftarrow> rd s (i + j * 4); b \<leftarrow> rd s ((i + 1) mod 4 + j * 4);
            c \<leftarrow> rd s ((i + 2) mod 4 + j * 4); d \<leftarrow> rd s ((i + 3) mod 4 + j * 4);
            wr ret (i + j * 4) (inv_mix_elem a b c d) }) ret"

definition AddRoundKey_InversMixColumn ::
  "s32 list \<Rightarrow> s32 list list \<Rightarrow> s32 list \<Rightarrow> nat \<Rightarrow> nat \<Rightarrow> s32 list option" where
  "AddRoundKey_InversMixColumn junk w statemt nb n =
     do { statemt \<leftarrow> for_range 0 nb (key_column w nb n) statemt;
          ret \<leftarrow> for_range 0 nb (inv_mix_column statemt) junk;
          for_range 0 nb (copy_column ret) statemt }"

text \<open>For another type the local \<open>nb\<close> is used uninitialised.\<close>

definition AddRoundKey :: "s32 list list \<Rightarrow> s32 list \<Rightarrow> nat \<Rightarrow> nat \<Rightarrow> s32 list option" where
  "AddRoundKey w statemt type n =
     do { nb \<leftarrow> (if type = 128128 \<or> type = 192128 \<or> type = 256128 then Some 4
                 else if type = 128192 \<or> type = 192192 \<or> type = 256192 then Some 6
                 else if type = 128256 \<or> type = 192256 \<or> type = 256256 then Some 8
                 else None);
          for_range 0 nb (key_column w nb n) statemt }"

section \<open>Key schedule\<close>

definition Rcon0 :: "s32 list" where
  "Rcon0 =
    [0x01, 0x02, 0x04, 0x08,
     0x10, 0x20, 0x40, 0x80,
     0x1b, 0x36, 0x6c, 0xd8,
     0xab, 0x4d, 0x9a, 0x2f,
     0x5e, 0xbc, 0x63, 0xc6,
     0x97, 0x35, 0x6a, 0xd4,
     0xb3, 0x7d, 0xfa, 0xef,
     0xc5, 0x91]"

text \<open>The parameters \<open>nk\<close>, \<open>nb\<close> and \<open>round_val\<close>.\<close>

definition key_params :: "nat \<Rightarrow> (nat \<times> nat \<times> nat) option" where
  "key_params type =
     (if type = 128128 then Some (4, 4, 10)
      else if type = 128192 then Some (4, 6, 12)
      else if type = 128256 then Some (4, 8, 14)
      else if type = 192128 then Some (6, 4, 12)
      else if type = 192192 then Some (6, 6, 12)
      else if type = 192256 then Some (6, 8, 14)
      else if type = 256128 then Some (8, 4, 14)
      else if type = 256192 then Some (8, 6, 14)
      else if type = 256256 then Some (8, 8, 14)
      else None)"

definition expand_column :: "nat \<Rightarrow> nat \<Rightarrow> s32 list list \<Rightarrow> s32 list list option" where
  "expand_column nk j w =
     do { p0 \<leftarrow> rd2 w 0 (j - 1); p1 \<leftarrow> rd2 w 1 (j - 1); p2 \<leftarrow> rd2 w 2 (j - 1); p3 \<leftarrow> rd2 w 3 (j - 1);
          temp \<leftarrow> (if j mod nk = 0
                   then do { t0 \<leftarrow> SubByte p1; r \<leftarrow> rd Rcon0 (j div nk - 1);
                             t1 \<leftarrow> SubByte p2; t2 \<leftarrow> SubByte p3; t3 \<leftarrow> SubByte p0;
                             Some [t0 XOR r, t1, t2, t3] }
                   else Some [p0, p1, p2, p3]);
          temp \<leftarrow> (if 6 < nk \<and> j mod nk = 4
                   then for_range 0 4 (\<lambda>i temp. do { t \<leftarrow> rd temp i; t \<leftarrow> SubByte t; wr temp i t }) temp
                   else Some temp);
          for_range 0 4 (\<lambda>i w. do { q \<leftarrow> rd2 w i (j - nk); t \<leftarrow> rd temp i; wr2 w i j (q XOR t) }) w }"

definition KeySchedule :: "nat \<Rightarrow> s32 list \<Rightarrow> s32 list list \<Rightarrow> (s32 \<times> s32 list list) option" where
  "KeySchedule type key w =
     (case key_params type of
        None \<Rightarrow> Some (- 1, w)
      | Some (nk, nb, rounds) \<Rightarrow>
          do { w \<leftarrow> for_range 0 nk (\<lambda>j. for_range 0 4 (\<lambda>i w. do { k \<leftarrow> rd key (i + j * 4); wr2 w i j k })) w;
               w \<leftarrow> for_range nk (nb * (rounds + 1)) (expand_column nk) w;
               Some (0, w) })"

section \<open>Encryption and decryption\<close>

text \<open>The global variables \<open>nb\<close>, \<open>round_val\<close>, \<open>word\<close> and \<open>main_result\<close>.\<close>

record aes =
  aes_nb :: nat
  aes_round_val :: nat
  aes_word :: "s32 list list"
  main_result :: nat

definition out_enc_statemt :: "s32 list" where
  "out_enc_statemt =
    [0x39, 0x25, 0x84, 0x1d, 0x2, 0xdc, 0x9, 0xfb, 0xdc, 0x11, 0x85, 0x97,
     0x19, 0x6a, 0xb, 0x32]"

definition out_dec_statemt :: "s32 list" where
  "out_dec_statemt =
    [0x32, 0x43, 0xf6, 0xa8, 0x88, 0x5a, 0x30, 0x8d, 0x31, 0x31, 0x98, 0xa2,
     0xe0, 0x37, 0x7, 0x34]"

text \<open>\<open>main_result += (statemt[i] != out[i])\<close> over 16 elements.\<close>

definition count_errors :: "s32 list \<Rightarrow> s32 list \<Rightarrow> nat \<Rightarrow> nat option" where
  "count_errors out s r =
     for_range 0 16 (\<lambda>i r. do { x \<leftarrow> rd s i; y \<leftarrow> rd out i; Some (r + (if x \<noteq> y then 1 else 0)) }) r"

definition enc_params :: "nat \<Rightarrow> aes \<Rightarrow> aes" where
  "enc_params type g =
     (if type = 128128 then g\<lparr>aes_round_val := 0, aes_nb := 4\<rparr>
      else if type = 192128 then g\<lparr>aes_round_val := 2, aes_nb := 4\<rparr>
      else if type = 256128 then g\<lparr>aes_round_val := 4, aes_nb := 4\<rparr>
      else if type = 128192 \<or> type = 192192 then g\<lparr>aes_round_val := 2, aes_nb := 6\<rparr>
      else if type = 256192 then g\<lparr>aes_round_val := 4, aes_nb := 6\<rparr>
      else if type = 128256 \<or> type = 192256 \<or> type = 256256 then g\<lparr>aes_round_val := 4, aes_nb := 8\<rparr>
      else g)"

text \<open>\<open>junk\<close> is what the automatic arrays hold at first.\<close>

definition encrypt :: "s32 list \<Rightarrow> aes \<Rightarrow> s32 list \<Rightarrow> s32 list \<Rightarrow> nat \<Rightarrow> (aes \<times> s32 list) option" where
  "encrypt junk g statemt key type =
     do { (r, w) \<leftarrow> KeySchedule type key (aes_word g);
          let g = enc_params type (g\<lparr>aes_word := w\<rparr>);
          statemt \<leftarrow> AddRoundKey w statemt type 0;
          statemt \<leftarrow> for_range 1 (aes_round_val g + 10)
            (\<lambda>i s. do { s \<leftarrow> ByteSub_ShiftRow s (aes_nb g); MixColumn_AddRoundKey junk w s (aes_nb g) i }) statemt;
          statemt \<leftarrow> ByteSub_ShiftRow statemt (aes_nb g);
          statemt \<leftarrow> AddRoundKey w statemt type (aes_round_val g + 10);
          e \<leftarrow> count_errors out_enc_statemt statemt (main_result g);
          Some (g\<lparr>main_result := e\<rparr>, statemt) }"

definition dec_params :: "nat \<Rightarrow> aes \<Rightarrow> aes" where
  "dec_params type g =
     (if type = 128128 then g\<lparr>aes_round_val := 10, aes_nb := 4\<rparr>
      else if type = 128192 \<or> type = 192192 then g\<lparr>aes_round_val := 12, aes_nb := 6\<rparr>
      else if type = 192128 then g\<lparr>aes_round_val := 12, aes_nb := 4\<rparr>
      else if type = 128256 \<or> type = 192256 then g\<lparr>aes_round_val := 14, aes_nb := 8\<rparr>
      else if type = 256128 then g\<lparr>aes_round_val := 14, aes_nb := 4\<rparr>
      else if type = 256192 then g\<lparr>aes_round_val := 14, aes_nb := 6\<rparr>
      else if type = 256256 then g\<lparr>aes_round_val := 14, aes_nb := 8\<rparr>
      else g)"

text \<open>The descending loop from \<open>round_val - 1\<close> to 1.\<close>

definition decrypt :: "s32 list \<Rightarrow> aes \<Rightarrow> s32 list \<Rightarrow> s32 list \<Rightarrow> nat \<Rightarrow> (aes \<times> s32 list) option" where
  "decrypt junk g statemt key type =
     do { (r, w) \<leftarrow> KeySchedule type key (aes_word g);
          let g = dec_params type (g\<lparr>aes_word := w\<rparr>);
          statemt \<leftarrow> AddRoundKey w statemt type (aes_round_val g);
          statemt \<leftarrow> InversShiftRow_ByteSub statemt (aes_nb g);
          statemt \<leftarrow> for_range 1 (aes_round_val g)
            (\<lambda>k s. do { s \<leftarrow> AddRoundKey_InversMixColumn junk w s (aes_nb g) (aes_round_val g - k);
                         InversShiftRow_ByteSub s (aes_nb g) }) statemt;
          statemt \<leftarrow> AddRoundKey w statemt type 0;
          e \<leftarrow> count_errors out_dec_statemt statemt (main_result g);
          Some (g\<lparr>main_result := e\<rparr>, statemt) }"

section \<open>The benchmark\<close>

definition test_statemt :: "s32 list" where
  "test_statemt = [50, 67, 246, 168, 136, 90, 48, 141, 49, 49, 152, 162, 224, 55, 7, 52]"

definition test_key :: "s32 list" where
  "test_key = [43, 126, 21, 22, 40, 174, 210, 166, 171, 247, 21, 136, 9, 207, 79, 60]"

text \<open>The first 16 elements of the two global arrays are set, the others keep their values.\<close>

definition aes_main :: "s32 list \<Rightarrow> aes \<Rightarrow> s32 list \<Rightarrow> s32 list \<Rightarrow> (aes \<times> s32 list) option" where
  "aes_main junk g statemt key =
     do { let g = g\<lparr>main_result := 0\<rparr>;
          let statemt = test_statemt @ drop 16 statemt;
          let key = test_key @ drop 16 key;
          (g, statemt) \<leftarrow> encrypt junk g statemt key 128128;
          (g, statemt) \<leftarrow> decrypt junk g statemt key 128128;
          Some (g, statemt) }"

end
