(* ===== verification/AesBytes.thy ===== *)
theory AesBytes
  imports OpenAsipAes
begin

text \<open>
  The bytes of the AES state. The C code keeps each byte in an \<open>int\<close>; here its operations are read on
  bytes: the doubling in the field of 256 elements, the mixing of a column and its inverse, the
  substitution tables, and the loops of \<open>src/lib/openasip/aes\<close> over the columns of a block.
\<close>

abbreviation up :: "u8 \<Rightarrow> s32" where
  "up \<equiv> ucast"

lemma bit_up: "bit (up b) n \<longleftrightarrow> bit b n"
  by (auto simp: bit_ucast_iff dest: bit_imp_le_length)

lemma up_eq_iff [simp]: "up a = up b \<longleftrightarrow> a = b"
proof
  assume "up a = up b"
  then have "bit a n \<longleftrightarrow> bit b n" for n by (metis bit_up)
  then show "a = b" by (intro bit_word_eqI) auto
qed simp

lemma ucast_up [simp]: "ucast (up b) = b"
  by (intro bit_word_eqI) (auto simp: bit_ucast_iff)

lemma up_xor: "up (a XOR b) = up a XOR up b"
  by (intro bit_word_eqI) (auto simp: bit_up bit_xor_iff)

definition xtime :: "u8 \<Rightarrow> u8" where
  "xtime b = push_bit 1 b XOR (if bit b 7 then 0x1b else 0)"

lemma sdrop_low: "\<not> bit (x :: s32) 31 \<Longrightarrow> signed_drop_bit n x = drop_bit n x"
  by (intro bit_word_eqI) (auto simp: bit_signed_drop_bit_iff bit_drop_bit_eq dest: bit_imp_le_length)

lemmas bit_simps_up = bit_up bit_ucast_iff bit_push_bit_iff bit_drop_bit_eq bit_xor_iff bit_1_iff

lemma high_bit: "8 \<le> n \<Longrightarrow> \<not> bit (b :: u8) n"
  by (auto dest: bit_imp_le_length)

lemma bit_256: "bit (256 :: s32) n \<longleftrightarrow> n = 8"
proof -
  have "bit (push_bit 8 (1 :: s32)) n \<longleftrightarrow> n = 8" by (subst bit_push_bit_iff) (auto simp: bit_1_iff)
  then show ?thesis by simp
qed

lemma xor_mid: "(x XOR c) XOR (c XOR d) = x XOR (d :: s32)"
  by (metis xor.assoc xor_self_eq xor.left_neutral)

lemma shift_up: "push_bit 1 (up b) = up (push_bit 1 b) XOR (if bit b 7 then 256 else 0)"
proof (intro bit_word_eqI, goal_cases)
  case (1 n)
  have l: "bit (push_bit 1 (up b)) n \<longleftrightarrow> 1 \<le> n \<and> bit b (n - 1)"
    using 1 by (simp only: bit_push_bit_iff bit_up) auto
  have r: "bit (up (push_bit 1 b)) n \<longleftrightarrow> n < 8 \<and> 1 \<le> n \<and> bit b (n - 1)"
    by (simp only: bit_push_bit_iff bit_up) auto
  have c: "bit (if bit b 7 then 256 else 0 :: s32) n \<longleftrightarrow> bit b 7 \<and> n = 8"
    by (simp add: bit_256 del: bit_numeral_word_iff)
  have "1 \<le> n \<and> bit b (n - 1) \<longleftrightarrow> n < 8 \<and> 1 \<le> n \<and> bit b (n - 1) \<or> n = 8 \<and> bit b 7"
    using high_bit [of "n - 1" b] by (cases "n < 8"; cases "n = 8") auto
  then show ?case by (simp only: l r c bit_xor_iff) auto
qed

lemma no_top: "\<not> bit (push_bit 1 (up b)) 31"
  using high_bit [of 30 b] by (simp add: bit_simps_up del: push_bit_Suc)

lemma carry: "drop_bit 8 (push_bit 1 (up b)) = (if bit b 7 then 1 else 0)"
proof (intro bit_word_eqI, goal_cases)
  case (1 n)
  then show ?case
    using high_bit [of "7 + n" b] by (cases "n = 0") (auto simp: bit_simps_up simp del: push_bit_Suc)
qed

lemma reduce_up: "reduce (push_bit 1 (up b)) = up (xtime b)"
proof (cases "bit b 7")
  case True
  have "(283 :: s32) = 256 XOR up 27" by simp
  with True have "reduce (push_bit 1 (up b)) = (up (push_bit 1 b) XOR 256) XOR (256 XOR up 27)"
    by (simp only: reduce_def sdrop_low [OF no_top] carry if_True refl) (simp only: shift_up if_True refl)
  with True show ?thesis by (simp only: xor_mid xtime_def up_xor if_True)
next
  case False
  then show ?thesis
    by (simp only: reduce_def sdrop_low [OF no_top] carry if_False zero_neq_one)
      (simp only: shift_up xtime_def if_False xor.right_neutral)
qed

lemma xtime_xor: "xtime (a XOR b) = xtime a XOR xtime b"
  by (auto simp: xtime_def push_bit_xor bit_xor_iff ac_simps)

text \<open>The second term of a mixed element: three times a byte.\<close>

lemma triple_up:
  "(let x = up b XOR push_bit 1 (up b) in if signed_drop_bit 8 x = 1 then r XOR (x XOR 283) else r XOR x)
     = r XOR up (xtime b XOR b)"
proof -
  let ?x = "up b XOR push_bit 1 (up b)"
  have "\<not> bit ?x 31" using no_top [of b] high_bit [of 31 b] by (simp add: bit_xor_iff bit_up)
  then have "signed_drop_bit 8 ?x = drop_bit 8 (up b) XOR drop_bit 8 (push_bit 1 (up b))"
    by (simp add: sdrop_low drop_bit_xor)
  also have "drop_bit 8 (up b) = 0"
    using high_bit by (intro bit_word_eqI) (simp add: bit_drop_bit_eq bit_up)
  finally have d: "signed_drop_bit 8 ?x = drop_bit 8 (push_bit 1 (up b))" by simp
  have "(if signed_drop_bit 8 ?x = 1 then r XOR (?x XOR 283) else r XOR ?x) = r XOR (up b XOR reduce (push_bit 1 (up b)))"
    unfolding d reduce_def sdrop_low [OF no_top] by (cases "drop_bit 8 (push_bit 1 (up b)) = 1") (simp_all only: ac_simps if_True if_False refl)
  then show ?thesis by (simp only: Let_def reduce_up up_xor ac_simps)
qed

definition mixb :: "u8 \<Rightarrow> u8 \<Rightarrow> u8 \<Rightarrow> u8 \<Rightarrow> u8" where
  "mixb a b c d = xtime a XOR (xtime b XOR b) XOR c XOR d"

definition imixb :: "u8 \<Rightarrow> u8 \<Rightarrow> u8 \<Rightarrow> u8 \<Rightarrow> u8" where
  "imixb a b c d =
     xtime (xtime (xtime a XOR a) XOR a) XOR
     (xtime (xtime (xtime b) XOR b) XOR b) XOR
     (xtime (xtime (xtime c XOR c)) XOR c) XOR
     (xtime (xtime (xtime d)) XOR d)"

lemma mix_elem_up: "mix_elem (up a) (up b) (up c) (up d) (up w) = up (mixb a b c d XOR w)"
  using triple_up [of b "up (xtime a)"]
  by (simp only: mix_elem_def reduce_up Let_def) (simp only: mixb_def up_xor ac_simps)

lemma inv_mix_elem_up: "inv_mix_elem (up a) (up b) (up c) (up d) = up (imixb a b c d)"
  by (simp only: inv_mix_elem_def Let_def reduce_up up_xor [symmetric] imixb_def) (simp only: ac_simps)

lemma xor_cancel: "x XOR (x XOR y) = (y :: u8)"
  by (simp flip: xor.assoc)

lemma imixb_mixb:
  "imixb (mixb a b c d) (mixb b c d a) (mixb c d a b) (mixb d a b c) = a"
  by (simp add: imixb_def mixb_def xtime_xor ac_simps xor_cancel)

section \<open>Substitution\<close>

definition sub :: "s32 list list \<Rightarrow> u8 \<Rightarrow> u8" where
  "sub tbl b = ucast (tbl ! (unat b div 16) ! (unat b mod 16))"

definition byte_table :: "s32 list list \<Rightarrow> bool" where
  "byte_table tbl \<longleftrightarrow> length tbl = 16 \<and> (\<forall>r\<in>set tbl. length r = 16 \<and> (\<forall>x\<in>set r. x < 256))"

lemma byte_tables [simp]: "byte_table Sbox" "byte_table invSbox"
  by (simp_all add: byte_table_def Sbox_def invSbox_def)

lemma up_ucast: "x < 256 \<Longrightarrow> up (ucast (x :: s32)) = x"
proof -
  assume "x < 256"
  then have "unat x < 256" by (simp add: word_less_nat_alt)
  then have "take_bit 8 (unat x) = unat x" by (simp add: take_bit_nat_eq_self)
  then have "unat (up (ucast x)) = unat x" by (simp add: unsigned_ucast_eq unsigned_take_bit_eq)
  then show ?thesis by (rule word_unat_eq_iff [THEN iffD2])
qed

lemma unat_byte_up: "unat (b :: u8) < 256"
  using unsigned_less [of b, where ?'a = nat] by simp

lemma rd2_table:
  "byte_table tbl \<Longrightarrow> rd2 tbl (unat (b :: u8) div 16) (unat b mod 16) = Some (up (sub tbl b))"
proof -
  assume t: "byte_table tbl"
  have i: "unat b div 16 < length tbl" using t unat_byte_up [of b] by (simp add: byte_table_def)
  then have "tbl ! (unat b div 16) \<in> set tbl" by (rule nth_mem)
  then have r: "length (tbl ! (unat b div 16)) = 16" "\<forall>x\<in>set (tbl ! (unat b div 16)). x < 256"
    using t by (auto simp: byte_table_def)
  then have "tbl ! (unat b div 16) ! (unat b mod 16) < 256" by simp
  then show ?thesis using i r(1) by (simp add: rd2_def sub_def up_ucast)
qed

lemma unat_up: "unat (up b) = unat b"
  by (simp add: unsigned_ucast_eq take_bit_nat_eq_self unat_byte_up less_trans [OF unat_byte_up])

lemma sbox_at_up: "byte_table tbl \<Longrightarrow> sbox_at tbl (up b) = Some (up (sub tbl b))"
proof -
  assume t: "byte_table tbl"
  have "\<not> bit (up b) 31" using high_bit [of 31 b] by (simp add: bit_up)
  then have "signed_drop_bit 4 (up b) = drop_bit 4 (up b)" by (rule sdrop_low)
  moreover have u: "unat (drop_bit 4 (up b)) = unat b div 16"
    by (simp only: drop_bit_eq_div unat_div_distrib unat_up) simp
  moreover have "sint (drop_bit 4 (up b)) = int (unat b div 16)"
    using u unat_byte_up [of b] by (subst sint_unat) simp_all
  moreover have "unat (up b AND 15) = unat b mod 16"
  proof -
    have "up b AND 15 = take_bit 4 (up b)" by (simp add: take_bit_eq_mask mask_numeral del: take_bit_eq_mod)
    then have "unat (up b AND 15) = take_bit 4 (unat b)" by (simp only: unsigned_take_bit_eq unat_up)
    then show ?thesis by (simp add: take_bit_eq_mod)
  qed
  ultimately show ?thesis using rd2_table [OF t, of b] by (simp add: sbox_at_def Let_def)
qed

lemma SubByte_up: "SubByte (up b) = Some (up (sub Sbox b))"
proof -
  have "sint (up b) = int (unat b)"
    using unat_byte_up [of b] by (subst sint_unat) (simp_all add: unat_up)
  then show ?thesis using rd2_table [of Sbox b] by (simp add: SubByte_def unat_up)
qed

text \<open>The inverse table inverts, by evaluation.\<close>

lemma sub_inverse_all:
  "map (map (\<lambda>v. invSbox ! (unat v div 16) ! (unat v mod 16))) Sbox
     = map (\<lambda>i. map (\<lambda>j. of_nat (16 * i + j)) [0..<16]) [0..<16]"
  by (simp add: Sbox_def invSbox_def upt_rec)

lemma sub_inverse: "sub invSbox (sub Sbox b) = b"
proof -
  let ?i = "unat b div 16" and ?j = "unat b mod 16"
  have i: "?i < 16" using unat_byte_up [of b] by simp
  have len: "length Sbox = 16" and all: "\<forall>r\<in>set Sbox. length r = 16 \<and> (\<forall>x\<in>set r. x < 256)"
    using byte_tables(1) unfolding byte_table_def by blast+
  have "Sbox ! ?i \<in> set Sbox" using i len by simp
  with all have l: "length (Sbox ! ?i) = 16" and "\<forall>x\<in>set (Sbox ! ?i). x < 256" by auto
  moreover from l have "Sbox ! ?i ! ?j \<in> set (Sbox ! ?i)" by simp
  ultimately have r: "Sbox ! ?i ! ?j < 256" "length (Sbox ! ?i) = 16" "length Sbox = 16" using len by auto
  have "map (map (\<lambda>v. invSbox ! (unat v div 16) ! (unat v mod 16))) Sbox ! ?i ! ?j = of_nat (16 * ?i + ?j)"
    using i by (subst sub_inverse_all) (simp del: of_nat_add of_nat_mult)
  also have "16 * ?i + ?j = unat b" by simp
  finally have "map (map (\<lambda>v. invSbox ! (unat v div 16) ! (unat v mod 16))) Sbox ! ?i ! ?j = of_nat (unat b)" .
  then have "invSbox ! (unat (Sbox ! ?i ! ?j) div 16) ! (unat (Sbox ! ?i ! ?j) mod 16) = of_nat (unat b)"
    using i r by simp
  moreover have "unat (sub Sbox b) = unat (Sbox ! ?i ! ?j)"
    using up_ucast [OF r(1)] unat_up [of "sub Sbox b"] by (simp add: sub_def)
  ultimately have "sub invSbox (sub Sbox b) = ucast (of_nat (unat b) :: s32)"
    by (simp only: sub_def)
  then show ?thesis by simp
qed

section \<open>Blocks\<close>

text \<open>A block of \<open>nb\<close> columns in an array of 32 bytes; a step gives every byte of the block its new
  value and leaves the others.\<close>

definition block :: "nat \<Rightarrow> (nat \<Rightarrow> u8) \<Rightarrow> u8 list \<Rightarrow> u8 list" where
  "block nb f bs = map (\<lambda>k. if k < 4 * nb then f k else bs ! k) [0..<32]"

lemma length_block [simp]: "length (block nb f bs) = 32"
  by (simp add: block_def)

lemma nth_block: "k < 32 \<Longrightarrow> block nb f bs ! k = (if k < 4 * nb then f k else bs ! k)"
  by (simp add: block_def)

lemma block_eqI:
  "length bs = 32 \<Longrightarrow> (\<And>k. k < 4 * nb \<Longrightarrow> k < 32 \<Longrightarrow> f k = bs ! k) \<Longrightarrow> block nb f bs = bs"
  by (intro nth_equalityI) (auto simp: nth_block)

text \<open>The columns a row is shifted by.\<close>

definition shift_off :: "nat \<Rightarrow> nat \<Rightarrow> nat" where
  "shift_off nb i = (if nb = 8 \<and> 2 \<le> i then i + 1 else i)"

definition shift_src :: "nat \<Rightarrow> nat \<Rightarrow> nat" where
  "shift_src nb k = k mod 4 + 4 * ((k div 4 + shift_off nb (k mod 4)) mod nb)"

definition inv_src :: "nat \<Rightarrow> nat \<Rightarrow> nat" where
  "inv_src nb k = k mod 4 + 4 * ((k div 4 + nb - shift_off nb (k mod 4)) mod nb)"

definition sub_shift :: "nat \<Rightarrow> u8 list \<Rightarrow> u8 list" where
  "sub_shift nb bs = block nb (\<lambda>k. sub Sbox (bs ! shift_src nb k)) bs"

definition inv_shift_sub :: "nat \<Rightarrow> u8 list \<Rightarrow> u8 list" where
  "inv_shift_sub nb bs = block nb (\<lambda>k. sub invSbox (bs ! inv_src nb k)) bs"

lemma upt32: "[0..<32] =
    [0, 1, 2, 3, 4, 5, 6, 7, 8, 9, 10, 11, 12, 13, 14, 15,
     16, 17, 18, 19, 20, 21, 22, 23, 24, 25, 26, 27, 28, 29, 30, 31]"
  by code_simp

lemma list32: "length (bs :: 'a list) = 32 \<Longrightarrow> \<exists>f. bs = map f [0..<32]"
  by (metis map_nth)

lemma ByteSub_ShiftRow_ok:
  assumes "length bs = 32" "nb \<in> {4, 6, 8}"
  shows "ByteSub_ShiftRow (map up bs) nb = Some (map up (sub_shift nb bs))"
proof -
  obtain f where bs: "bs = map f [0..<32]" using list32 [OF assms(1)] by blast
  show ?thesis
    using assms(2) unfolding ByteSub_ShiftRow_def sub_shift_def block_def bs upt32
    by (elim insertE emptyE) (simp_all add: sbox_at_up shift_src_def shift_off_def)
qed

lemma InversShiftRow_ByteSub_ok:
  assumes "length bs = 32" "nb \<in> {4, 6, 8}"
  shows "InversShiftRow_ByteSub (map up bs) nb = Some (map up (inv_shift_sub nb bs))"
proof -
  obtain f where bs: "bs = map f [0..<32]" using list32 [OF assms(1)] by blast
  show ?thesis
    using assms(2) unfolding InversShiftRow_ByteSub_def inv_shift_sub_def block_def bs upt32
    by (elim insertE emptyE) (simp_all add: sbox_at_up inv_src_def shift_off_def)
qed

lemma src_inverse:
  "nb \<in> {4, 6, 8} \<Longrightarrow> k < 4 * nb \<Longrightarrow> inv_src nb k < 4 * nb \<and> shift_src nb (inv_src nb k) = k"
proof -
  have "\<forall>nb\<in>set [4, 6, 8]. \<forall>k\<in>set [0..<32]. k < 4 * nb \<longrightarrow>
      inv_src nb k < 4 * nb \<and> shift_src nb (inv_src nb k) = k"
    by code_simp
  then show "nb \<in> {4, 6, 8} \<Longrightarrow> k < 4 * nb \<Longrightarrow> inv_src nb k < 4 * nb \<and> shift_src nb (inv_src nb k) = k"
    by auto
qed

lemma inv_shift_sub_shift:
  assumes "nb \<in> {4, 6, 8}" "length bs = 32"
  shows "inv_shift_sub nb (sub_shift nb bs) = bs"
proof (intro nth_equalityI)
  fix k assume "k < length (inv_shift_sub nb (sub_shift nb bs))"
  then have k: "k < 32" by (simp add: inv_shift_sub_def)
  have nb: "4 * nb \<le> 32" using assms(1) by auto
  show "inv_shift_sub nb (sub_shift nb bs) ! k = bs ! k"
    using k nb src_inverse [OF assms(1), of k]
    by (auto simp: inv_shift_sub_def sub_shift_def nth_block sub_inverse)
qed (simp add: assms inv_shift_sub_def)

section \<open>A loop over the columns\<close>

text \<open>A body that stores four new values in column \<open>j\<close> of an array which is as at the start from
  there on.\<close>

definition put_column :: "(nat \<Rightarrow> 'a) \<Rightarrow> nat \<Rightarrow> 'a list \<Rightarrow> 'a list" where
  "put_column g j s = s[j * 4 := g (j * 4), 1 + j * 4 := g (1 + j * 4), 2 + j * 4 := g (2 + j * 4), 3 + j * 4 := g (3 + j * 4)]"

lemma column_index [simp]:
  "j * 4 div 4 = (j :: nat)" "Suc (j * 4) div 4 = j" "Suc (Suc (j * 4)) div 4 = j" "(3 + j * 4) div 4 = j"
  "j * 4 mod 4 = (0 :: nat)" "Suc (j * 4) mod 4 = 1" "Suc (Suc (j * 4)) mod 4 = 2" "(3 + j * 4) mod 4 = (3 :: nat)"
  by presburger+

lemma column_loop:
  assumes "length s = 32" "nb \<le> 8"
    and "\<And>j t. j < nb \<Longrightarrow> length t = 32 \<Longrightarrow> (\<And>k. 4 * j \<le> k \<Longrightarrow> k < 32 \<Longrightarrow> t ! k = s ! k) \<Longrightarrow>
      body j t = Some (put_column g j t)"
  shows "for_range 0 nb body s = Some (map (\<lambda>k. if k < 4 * nb then g k else s ! k) [0..<32])"
proof -
  have "\<exists>t. for_range 0 nb body s = Some t \<and>
      (length t = 32 \<and> (\<forall>k<32. t ! k = (if k < 4 * nb then g k else s ! k)))"
  proof (rule for_range_rule)
    fix j t
    assume j: "j < nb" and I: "length t = 32 \<and> (\<forall>k<32. t ! k = (if k < 4 * j then g k else s ! k))"
    then have b: "body j t = Some (put_column g j t)" by (intro assms(3)) auto
    have "put_column g j t ! k = (if k < 4 * Suc j then g k else s ! k)" if "k < 32" for k
    proof -
      have "k < 4 * j \<or> k = j * 4 \<or> k = 1 + j * 4 \<or> k = 2 + j * 4 \<or> k = 3 + j * 4 \<or> 4 * Suc j \<le> k" by arith
      then show ?thesis using I that by (elim disjE) (auto simp: put_column_def nth_list_update)
    qed
    then show "\<exists>t'. body j t = Some t' \<and> length t' = 32 \<and> (\<forall>k<32. t' ! k = (if k < 4 * Suc j then g k else s ! k))"
      using b I by (auto simp: put_column_def)
  qed (use assms(1) in auto)
  then obtain t where "for_range 0 nb body s = Some t" "length t = 32" "\<forall>k<32. t ! k = (if k < 4 * nb then g k else s ! k)"
    by auto
  moreover from this have "t = map (\<lambda>k. if k < 4 * nb then g k else s ! k) [0..<32]"
    by (intro nth_equalityI) auto
  ultimately show ?thesis by simp
qed

lemma copy_loop:
  assumes "length s = 32" "length ret = 32" "nb \<le> 8"
  shows "for_range 0 nb (copy_column ret) s = Some (map (\<lambda>k. if k < 4 * nb then ret ! k else s ! k) [0..<32])"
  using assms by (intro column_loop) (auto simp: copy_column_def put_column_def)

section \<open>Round keys\<close>

text \<open>The array of round keys holds the first \<open>m\<close> columns of \<open>c\<close>.\<close>

definition keyed :: "s32 list list \<Rightarrow> (nat \<Rightarrow> u8 list) \<Rightarrow> nat \<Rightarrow> bool" where
  "keyed w c m \<longleftrightarrow> length w = 4 \<and> (\<forall>r\<in>set w. length r = 120) \<and> m \<le> 120 \<and>
     (\<forall>i<4. \<forall>j<m. w ! i ! j = up (c j ! i))"

lemma rd2_keyed: "keyed w c m \<Longrightarrow> i < 4 \<Longrightarrow> j < m \<Longrightarrow> rd2 w i j = Some (up (c j ! i))"
  by (auto simp: keyed_def rd2_def)

definition add_key :: "(nat \<Rightarrow> u8 list) \<Rightarrow> nat \<Rightarrow> nat \<Rightarrow> u8 list \<Rightarrow> u8 list" where
  "add_key c nb n bs = block nb (\<lambda>k. bs ! k XOR c (k div 4 + nb * n) ! (k mod 4)) bs"

definition mix :: "nat \<Rightarrow> u8 list \<Rightarrow> u8 list" where
  "mix nb bs = block nb (\<lambda>k. mixb (bs ! k) (bs ! ((k + 1) mod 4 + k div 4 * 4))
     (bs ! ((k + 2) mod 4 + k div 4 * 4)) (bs ! ((k + 3) mod 4 + k div 4 * 4))) bs"

definition inv_mix :: "nat \<Rightarrow> u8 list \<Rightarrow> u8 list" where
  "inv_mix nb bs = block nb (\<lambda>k. imixb (bs ! k) (bs ! ((k + 1) mod 4 + k div 4 * 4))
     (bs ! ((k + 2) mod 4 + k div 4 * 4)) (bs ! ((k + 3) mod 4 + k div 4 * 4))) bs"

lemma key_loop:
  assumes "length bs = 32" "nb \<le> 8" "keyed w c m" "nb * (n + 1) \<le> m"
  shows "for_range 0 nb (key_column w nb n) (map up bs) = Some (map up (add_key c nb n bs))"
proof -
  have w: "rd2 w i (j + nb * n) = Some (up (c (j + nb * n) ! i))" if "i < 4" "j < nb" for i j
    using that assms(4) by (intro rd2_keyed [OF assms(3)]) auto
  have "for_range 0 nb (key_column w nb n) (map up bs) = 
      Some (map (\<lambda>k. if k < 4 * nb then up (bs ! k XOR c (k div 4 + nb * n) ! (k mod 4)) else map up bs ! k) [0..<32])"
  proof (intro column_loop)
    fix j and t :: "s32 list"
    assume j: "j < nb" and t: "length t = 32" "\<And>k. 4 * j \<le> k \<Longrightarrow> k < 32 \<Longrightarrow> t ! k = map up bs ! k"
    have l: "3 + j * 4 < 32" using j assms(2) by simp
    have "t ! (j * 4) = up (bs ! (j * 4))" "t ! (1 + j * 4) = up (bs ! (1 + j * 4))"
      "t ! (2 + j * 4) = up (bs ! (2 + j * 4))" "t ! (3 + j * 4) = up (bs ! (3 + j * 4))"
      using t(2) [of "j * 4"] t(2) [of "1 + j * 4"] t(2) [of "2 + j * 4"] t(2) [of "3 + j * 4"] l assms(1) by auto
    then show "key_column w nb n j t = Some (put_column (\<lambda>k. up (bs ! k XOR c (k div 4 + nb * n) ! (k mod 4))) j t)"
      using l t(1) j by (simp add: key_column_def put_column_def w up_xor)
  qed (use assms in auto)
  then show ?thesis using assms(1) by (auto simp: add_key_def block_def)
qed

lemma mix_loop:
  assumes "length bs = 32" "nb \<le> 8" "keyed w c m" "nb * (n + 1) \<le> m" "length junk = 32"
  shows "MixColumn_AddRoundKey junk w (map up bs) nb n = Some (map up (add_key c nb n (mix nb bs)))"
proof -
  have w: "rd2 w i (j + nb * n) = Some (up (c (j + nb * n) ! i))" if "i < 4" "j < nb" for i j
    using that assms(4) by (intro rd2_keyed [OF assms(3)]) auto
  let ?g = "\<lambda>k. up (mixb (bs ! k) (bs ! ((k + 1) mod 4 + k div 4 * 4)) (bs ! ((k + 2) mod 4 + k div 4 * 4))
     (bs ! ((k + 3) mod 4 + k div 4 * 4)) XOR c (k div 4 + nb * n) ! (k mod 4))"
  have "for_range 0 nb (mix_column w (map up bs) nb n) junk =
      Some (map (\<lambda>k. if k < 4 * nb then ?g k else junk ! k) [0..<32])"
  proof (intro column_loop)
    fix j and t :: "s32 list"
    assume j: "j < nb" and t: "length t = 32"
    have l: "3 + j * 4 < 32" using j assms(2) by simp
    show "mix_column w (map up bs) nb n j t = Some (put_column ?g j t)"
      using l t j assms(1) by (simp add: mix_column_def put_column_def w mix_elem_up)
  qed (use assms in auto)
  then show ?thesis
    using assms by (auto simp: MixColumn_AddRoundKey_def copy_loop add_key_def mix_def block_def intro!: nth_equalityI)
qed

lemma for_range4: "for_range 0 4 f s = do { s \<leftarrow> f 0 s; s \<leftarrow> f 1 s; s \<leftarrow> f 2 s; f 3 s }"
  by (simp add: for_range_def numeral_eq_Suc)

lemma inv_mix_loop:
  assumes "length bs = 32" "nb \<le> 8" "keyed w c m" "nb * (n + 1) \<le> m" "length junk = 32"
  shows "AddRoundKey_InversMixColumn junk w (map up bs) nb n = Some (map up (inv_mix nb (add_key c nb n bs)))"
proof -
  define bs' where "bs' = add_key c nb n bs"
  have l': "length bs' = 32" by (simp add: bs'_def add_key_def)
  let ?g = "\<lambda>k. up (imixb (bs' ! k) (bs' ! ((k + 1) mod 4 + k div 4 * 4)) (bs' ! ((k + 2) mod 4 + k div 4 * 4))
     (bs' ! ((k + 3) mod 4 + k div 4 * 4)))"
  have "for_range 0 nb (inv_mix_column (map up bs')) junk =
      Some (map (\<lambda>k. if k < 4 * nb then ?g k else junk ! k) [0..<32])"
  proof (intro column_loop)
    fix j and t :: "s32 list"
    assume j: "j < nb" and t: "length t = 32"
    have l: "3 + j * 4 < 32" using j assms(2) by simp
    show "inv_mix_column (map up bs') j t = Some (put_column ?g j t)"
      using l t j l' by (simp add: inv_mix_column_def for_range4 put_column_def inv_mix_elem_up)
  qed (use assms in auto)
  then show ?thesis
    using assms l' by (auto simp: AddRoundKey_InversMixColumn_def key_loop [OF assms(1-4)] bs'_def [symmetric] copy_loop
        inv_mix_def block_def intro!: nth_equalityI)
qed

end
