(* ===== verification/AesCipher.thy ===== *)
theory AesCipher
  imports AesBytes
begin

text \<open>
  Key expansion and the composition of the rounds: \<open>KeySchedule\<close> computes the key expansion of the
  standard, \<open>encrypt\<close> and \<open>decrypt\<close> are inverse to each other for every type and key.
\<close>

section \<open>Inverse steps\<close>

lemma mix_column_nth:
  assumes "j < nb" "nb \<le> 8"
  shows "mix nb bs ! (j * 4) = mixb (bs ! (j * 4)) (bs ! Suc (j * 4)) (bs ! Suc (Suc (j * 4))) (bs ! (3 + j * 4))"
    "mix nb bs ! Suc (j * 4) = mixb (bs ! Suc (j * 4)) (bs ! Suc (Suc (j * 4))) (bs ! (3 + j * 4)) (bs ! (j * 4))"
    "mix nb bs ! Suc (Suc (j * 4)) = mixb (bs ! Suc (Suc (j * 4))) (bs ! (3 + j * 4)) (bs ! (j * 4)) (bs ! Suc (j * 4))"
    "mix nb bs ! (3 + j * 4) = mixb (bs ! (3 + j * 4)) (bs ! (j * 4)) (bs ! Suc (j * 4)) (bs ! Suc (Suc (j * 4)))"
  using assms by (simp_all add: mix_def nth_block)

lemma inv_mix_mix:
  assumes "nb \<le> 8" "length bs = 32"
  shows "inv_mix nb (mix nb bs) = bs"
proof (intro nth_equalityI)
  fix k assume "k < length (inv_mix nb (mix nb bs))"
  then have k: "k < 32" by (simp add: inv_mix_def)
  show "inv_mix nb (mix nb bs) ! k = bs ! k"
  proof (cases "k < 4 * nb")
    case True
    define j where "j = k div 4"
    have j: "j < nb" using True by (simp add: j_def less_mult_imp_div_less mult.commute)
    have k4: "k = j * 4 \<or> k = Suc (j * 4) \<or> k = Suc (Suc (j * 4)) \<or> k = 3 + j * 4" unfolding j_def by arith
    have "inv_mix nb (mix nb bs) ! k = imixb (mix nb bs ! k) (mix nb bs ! ((k + 1) mod 4 + k div 4 * 4))
       (mix nb bs ! ((k + 2) mod 4 + k div 4 * 4)) (mix nb bs ! ((k + 3) mod 4 + k div 4 * 4))"
      using k True by (simp add: inv_mix_def nth_block)
    also have "\<dots> = bs ! k"
      using k4 by (elim disjE) (simp_all add: mix_column_nth [OF j assms(1)] imixb_mixb)
    finally show ?thesis .
  qed (use k in \<open>simp add: inv_mix_def mix_def nth_block\<close>)
qed (use assms in \<open>simp add: inv_mix_def\<close>)

lemma add_key_twice:
  "length bs = 32 \<Longrightarrow> add_key c nb n (add_key c nb n bs) = bs"
  by (intro nth_equalityI) (auto simp: add_key_def nth_block xor.assoc)

lemma length_steps [simp]:
  "length (add_key c nb n bs) = 32" "length (mix nb bs) = 32" "length (inv_mix nb bs) = 32"
  "length (sub_shift nb bs) = 32" "length (inv_shift_sub nb bs) = 32"
  by (simp_all add: add_key_def mix_def inv_mix_def sub_shift_def inv_shift_sub_def)

section \<open>The cipher on bytes\<close>

definition enc_round :: "(nat \<Rightarrow> u8 list) \<Rightarrow> nat \<Rightarrow> nat \<Rightarrow> u8 list \<Rightarrow> u8 list" where
  "enc_round c nb n bs = add_key c nb n (mix nb (sub_shift nb bs))"

definition dec_round :: "(nat \<Rightarrow> u8 list) \<Rightarrow> nat \<Rightarrow> nat \<Rightarrow> u8 list \<Rightarrow> u8 list" where
  "dec_round c nb n bs = inv_shift_sub nb (inv_mix nb (add_key c nb n bs))"

definition enc_block :: "(nat \<Rightarrow> u8 list) \<Rightarrow> nat \<Rightarrow> nat \<Rightarrow> u8 list \<Rightarrow> u8 list" where
  "enc_block c nb rounds bs =
     add_key c nb rounds (sub_shift nb (fold (enc_round c nb) [1..<rounds] (add_key c nb 0 bs)))"

definition dec_block :: "(nat \<Rightarrow> u8 list) \<Rightarrow> nat \<Rightarrow> nat \<Rightarrow> u8 list \<Rightarrow> u8 list" where
  "dec_block c nb rounds bs =
     add_key c nb 0 (fold (\<lambda>k. dec_round c nb (rounds - k)) [1..<rounds]
       (inv_shift_sub nb (add_key c nb rounds bs)))"

lemma length_rounds [simp]:
  "length (enc_round c nb n bs) = 32" "length (dec_round c nb n bs) = 32"
  "length (enc_block c nb n bs) = 32" "length (dec_block c nb n bs) = 32"
  by (simp_all add: enc_round_def dec_round_def enc_block_def dec_block_def)

lemma length_enc_rounds: "length bs = 32 \<Longrightarrow> length (fold (enc_round c nb) ns bs) = 32"
  by (induction ns arbitrary: bs) simp_all

lemma dec_enc_round:
  "nb \<in> {4, 6, 8} \<Longrightarrow> length bs = 32 \<Longrightarrow> dec_round c nb n (enc_round c nb n bs) = bs"
  by (auto simp: dec_round_def enc_round_def add_key_twice inv_mix_mix inv_shift_sub_shift)

lemma dec_enc_rounds:
  assumes "nb \<in> {4, 6, 8}" "length bs = 32"
  shows "fold (\<lambda>k. dec_round c nb (Suc r - k)) [1..<Suc r] (fold (enc_round c nb) [1..<Suc r] bs) = bs"
proof (induction r)
  case (Suc r)
  let ?x = "fold (enc_round c nb) [1..<Suc r] bs"
  have l: "length ?x = 32" using assms(2) by (rule length_enc_rounds)
  have u: "[1..<Suc (Suc r)] = 1 # map Suc [1..<Suc r]"
    by (simp add: map_Suc_upt upt_conv_Cons del: upt_Suc)
  have "fold (\<lambda>k. dec_round c nb (Suc (Suc r) - k)) [1..<Suc (Suc r)] y
      = fold (\<lambda>k. dec_round c nb (Suc r - k)) [1..<Suc r] (dec_round c nb (Suc r) y)" for y
    by (simp only: u fold_simps o_apply fold_map diff_Suc_Suc diff_Suc_1') (simp add: fold_map comp_def)
  moreover have "fold (enc_round c nb) [1..<Suc (Suc r)] bs = enc_round c nb (Suc r) ?x" by simp
  ultimately show ?case
    by (simp only: dec_enc_round [OF assms(1) l] Suc)
qed simp

lemma dec_enc_block:
  assumes "nb \<in> {4, 6, 8}" "length bs = 32" "0 < rounds"
  shows "dec_block c nb rounds (enc_block c nb rounds bs) = bs"
proof -
  obtain r where r: "rounds = Suc r" using assms(3) by (cases rounds) auto
  let ?x = "fold (enc_round c nb) [1..<rounds] (add_key c nb 0 bs)"
  have "length ?x = 32" by (simp add: length_enc_rounds)
  then have "inv_shift_sub nb (add_key c nb rounds (enc_block c nb rounds bs)) = ?x"
    using assms(1) by (simp add: enc_block_def add_key_twice inv_shift_sub_shift)
  then show ?thesis
    using dec_enc_rounds [OF assms(1), of "add_key c nb 0 bs" c r] assms(2)
    by (simp add: dec_block_def r add_key_twice del: upt_Suc)
qed

section \<open>Key expansion\<close>

definition rcon :: "nat \<Rightarrow> u8" where
  "rcon i = ucast (Rcon0 ! i)"

text \<open>The words of the expanded key, as the standard defines them.\<close>

function key_col :: "nat \<Rightarrow> u8 list \<Rightarrow> nat \<Rightarrow> u8 list" where
  "key_col nk key j =
     (if j < nk \<or> nk = 0 then [key ! (j * 4), key ! (1 + j * 4), key ! (2 + j * 4), key ! (3 + j * 4)]
      else let p = key_col nk key (j - 1);
               t = (if j mod nk = 0
                    then [sub Sbox (p ! 1) XOR rcon (j div nk - 1), sub Sbox (p ! 2), sub Sbox (p ! 3), sub Sbox (p ! 0)]
                    else p);
               t = (if 6 < nk \<and> j mod nk = 4 then map (sub Sbox) t else t)
           in map2 (XOR) (key_col nk key (j - nk)) t)"
  by pat_completeness auto
termination
  by (relation "measure (\<lambda>(nk, key, j). j)") auto

declare key_col.simps [simp del]

lemma length_key_col [simp]: "length (key_col nk key j) = 4"
  by (induction nk key j rule: key_col.induct) (subst key_col.simps, simp add: Let_def)

lemma list4: "length xs = 4 \<Longrightarrow> xs = [xs ! 0, xs ! 1, xs ! 2, xs ! 3]"
  by (auto simp: list_eq_iff_nth_eq less_Suc_eq numeral_eq_Suc)

lemma map4: "length xs = 4 \<Longrightarrow> [f (xs ! 0), f (xs ! 1), f (xs ! 2), f (xs ! 3)] = map f xs"
  by (auto simp: length_Suc_conv numeral_eq_Suc)

lemma rcon_up: "i < 30 \<Longrightarrow> Rcon0 ! i = up (rcon i)"
proof -
  have "\<forall>x\<in>set Rcon0. x < 256" "length Rcon0 = 30" by (simp_all add: Rcon0_def)
  then show "i < 30 \<Longrightarrow> Rcon0 ! i = up (rcon i)" by (simp add: rcon_def up_ucast)
qed

text \<open>The four rows of the array.\<close>

lemma keyed_rows:
  "keyed [r0, r1, r2, r3] c m \<longleftrightarrow>
     length r0 = 120 \<and> length r1 = 120 \<and> length r2 = 120 \<and> length r3 = 120 \<and> m \<le> 120 \<and>
     (\<forall>j<m. r0 ! j = up (c j ! 0) \<and> r1 ! j = up (c j ! 1) \<and> r2 ! j = up (c j ! 2) \<and> r3 ! j = up (c j ! 3))"
proof -
  have "(\<forall>i<4. P i) \<longleftrightarrow> P 0 \<and> P 1 \<and> P 2 \<and> P 3" for P :: "nat \<Rightarrow> bool"
    by (auto simp: less_Suc_eq numeral_eq_Suc)
  then show ?thesis by (auto simp: keyed_def)
qed

lemma keyed_Suc:
  assumes "keyed [r0, r1, r2, r3] c m" "m < 120"
  shows "keyed [r0[m := up (c m ! 0)], r1[m := up (c m ! 1)], r2[m := up (c m ! 2)], r3[m := up (c m ! 3)]] c (Suc m)"
  using assms by (auto simp: keyed_rows nth_list_update less_Suc_eq)

lemma xor_col:
  assumes "nk \<le> j" "0 < nk" "i < 4"
    and "t = (let p = key_col nk key (j - 1);
               t = (if j mod nk = 0
                    then [sub Sbox (p ! 1) XOR rcon (j div nk - 1), sub Sbox (p ! 2), sub Sbox (p ! 3), sub Sbox (p ! 0)]
                    else p)
           in if 6 < nk \<and> j mod nk = 4 then map (sub Sbox) t else t)"
  shows "key_col nk key j ! i = key_col nk key (j - nk) ! i XOR t ! i"
proof -
  have "length t = 4" by (simp add: assms(4) Let_def)
  moreover have "key_col nk key j = map2 (XOR) (key_col nk key (j - nk)) t"
    using assms(1,2) by (subst key_col.simps) (simp add: assms(4) Let_def)
  ultimately show ?thesis using assms(3) by simp
qed

lemma expand_column_ok:
  assumes "keyed w (key_col nk key) j" "nk \<le> j" "4 \<le> nk" "j < 120"
  shows "\<exists>w'. expand_column nk j w = Some w' \<and> keyed w' (key_col nk key) (Suc j)"
proof -
  let ?c = "key_col nk key"
  define p where "p = ?c (j - 1)"
  define t0 where "t0 = (if j mod nk = 0
     then [sub Sbox (p ! 1) XOR rcon (j div nk - 1), sub Sbox (p ! 2), sub Sbox (p ! 3), sub Sbox (p ! 0)] else p)"
  define t where "t = (if 6 < nk \<and> j mod nk = 4 then map (sub Sbox) t0 else t0)"
  have lt: "length t0 = 4" "length t = 4" by (simp_all add: t_def t0_def p_def)
  obtain r0 r1 r2 r3 where w: "w = [r0, r1, r2, r3]" using list4 [of w] assms(1) by (auto simp: keyed_def)
  have "j - 1 < j" "j - nk < j" using assms(2,3) by auto
  with assms(1) have len: "length r0 = 120" "length r1 = 120" "length r2 = 120" "length r3 = 120"
    and rp: "r0 ! (j - 1) = up (p ! 0)" "r1 ! (j - 1) = up (p ! 1)" "r2 ! (j - 1) = up (p ! 2)" "r3 ! (j - 1) = up (p ! 3)"
    and rq: "r0 ! (j - nk) = up (?c (j - nk) ! 0)" "r1 ! (j - nk) = up (?c (j - nk) ! 1)"
      "r2 ! (j - nk) = up (?c (j - nk) ! 2)" "r3 ! (j - nk) = up (?c (j - nk) ! 3)"
    by (auto simp: w keyed_rows p_def)
  have "j div nk \<le> j div 4" using assms(3) by (simp add: div_le_mono2)
  moreover have "j div 4 \<le> 119 div 4" using assms(4) by (intro div_le_mono) simp
  ultimately have "j div nk - 1 < 30" by simp
  then have rc: "rd Rcon0 (j div nk - 1) = Some (up (rcon (j div nk - 1)))"
    by (simp add: rd_def rcon_up) (simp add: Rcon0_def)
  have p4: "[up (p ! 0), up (p ! 1), up (p ! 2), up (p ! 3)] = map up p"
    by (rule map4) (simp add: p_def)
  have temp: "(if j mod nk = 0
                   then do { t0 \<leftarrow> SubByte (up (p ! 1)); r \<leftarrow> rd Rcon0 (j div nk - 1);
                             t1 \<leftarrow> SubByte (up (p ! 2)); t2 \<leftarrow> SubByte (up (p ! 3)); t3 \<leftarrow> SubByte (up (p ! 0));
                             Some [t0 XOR r, t1, t2, t3] }
                   else Some [up (p ! 0), up (p ! 1), up (p ! 2), up (p ! 3)]) = Some (map up t0)"
    by (simp add: SubByte_up rc [simplified] t0_def p4 [simplified] up_xor)
  obtain x0 x1 x2 x3 where x: "t0 = [x0, x1, x2, x3]" using list4 [OF lt(1)] by blast
  have temp2: "(if 6 < nk \<and> j mod nk = 4
                   then for_range 0 4 (\<lambda>i temp. do { t \<leftarrow> rd temp i; t \<leftarrow> SubByte t; wr temp i t }) (map up t0)
                   else Some (map up t0)) = Some (map up t)"
    by (simp add: for_range4 x SubByte_up t_def)
  have col: "?c j ! i = ?c (j - nk) ! i XOR t ! i" if "i < 4" for i
    using that assms(2,3) by (intro xor_col) (auto simp: t_def t0_def p_def Let_def)
  obtain y0 y1 y2 y3 where y: "t = [y0, y1, y2, y3]" using list4 [OF lt(2)] by blast
  let ?w = "[r0[j := up (?c j ! 0)], r1[j := up (?c j ! 1)], r2[j := up (?c j ! 2)], r3[j := up (?c j ! 3)]]"
  have "rd2 w 0 (j - 1) = Some (up (p ! 0))" "rd2 w 1 (j - 1) = Some (up (p ! 1))"
    "rd2 w 2 (j - 1) = Some (up (p ! 2))" "rd2 w 3 (j - 1) = Some (up (p ! 3))"
    using assms(4) len by (simp_all add: rd2_def w rp [simplified])
  moreover have "for_range 0 4 (\<lambda>i w. do { q \<leftarrow> rd2 w i (j - nk); t \<leftarrow> rd (map up t) i; wr2 w i j (q XOR t) }) w = Some ?w"
    using assms(4) len rq col [of 0] col [of 1] col [of 2] col [of 3]
    by (simp add: for_range4 rd2_def wr2_def w y up_xor)
  ultimately have "expand_column nk j w = Some ?w"
    by (simp only: expand_column_def Option.bind.simps temp temp2)
  moreover have "keyed ?w ?c (Suc j)" using assms(1,4) unfolding w by (rule keyed_Suc)
  ultimately show ?thesis by blast
qed

lemma KeySchedule_total:
  assumes "key_params type = Some (nk, nb, rounds)" "length key = 32"
    and "length w = 4" "\<forall>r\<in>set w. length r = 120"
  shows "\<exists>w'. KeySchedule type (map up key) w = Some (0, w') \<and> keyed w' (key_col nk key) (nb * (rounds + 1))"
proof -
  let ?c = "key_col nk key"
  have p: "4 \<le> nk" "nk \<le> 8" "nb * (rounds + 1) \<le> 120" "nk \<le> nb * (rounds + 1)"
    using assms(1) by (auto simp: key_params_def split: if_splits)
  have "\<exists>w'. for_range 0 nk (\<lambda>j. for_range 0 4 (\<lambda>i w. do { k \<leftarrow> rd (map up key) (i + j * 4); wr2 w i j k })) w = Some w' \<and> keyed w' ?c nk"
  proof (rule for_range_rule [where I = "\<lambda>j u. keyed u (key_col nk key) j"])
    fix j u assume j: "j < nk" and I: "keyed u ?c j"
    obtain r0 r1 r2 r3 where u: "u = [r0, r1, r2, r3]" using list4 [of u] I by (auto simp: keyed_def)
    have len: "length r0 = 120" "length r1 = 120" "length r2 = 120" "length r3 = 120" using I by (auto simp: u keyed_rows)
    have c: "?c j = [key ! (j * 4), key ! (1 + j * 4), key ! (2 + j * 4), key ! (3 + j * 4)]"
      using j by (subst key_col.simps) simp
    have "3 + j * 4 < 32" "j < 120" using j p(2) by simp_all
    then have "for_range 0 4 (\<lambda>i w. do { k \<leftarrow> rd (map up key) (i + j * 4); wr2 w i j k }) u
      = Some [r0[j := up (?c j ! 0)], r1[j := up (?c j ! 1)], r2[j := up (?c j ! 2)], r3[j := up (?c j ! 3)]]"
      using assms(2) len by (simp add: for_range4 wr2_def u c)
    moreover have "keyed [r0[j := up (?c j ! 0)], r1[j := up (?c j ! 1)], r2[j := up (?c j ! 2)], r3[j := up (?c j ! 3)]] ?c (Suc j)"
      using I \<open>j < 120\<close> unfolding u by (rule keyed_Suc)
    ultimately show "\<exists>u'. for_range 0 4 (\<lambda>i w. do { k \<leftarrow> rd (map up key) (i + j * 4); wr2 w i j k }) u = Some u' \<and> keyed u' ?c (Suc j)"
      by blast
  qed (use assms(3,4) in \<open>auto simp: keyed_def\<close>)
  then obtain w1 where w1: "for_range 0 nk (\<lambda>j. for_range 0 4 (\<lambda>i w. do { k \<leftarrow> rd (map up key) (i + j * 4); wr2 w i j k })) w = Some w1"
    "keyed w1 ?c nk" by blast
  have "\<exists>w'. for_range nk (nb * (rounds + 1)) (expand_column nk) w1 = Some w' \<and> keyed w' ?c (nb * (rounds + 1))"
    using p by (intro for_range_rule [where I = "\<lambda>j u. keyed u (key_col nk key) j"] w1(2) expand_column_ok) auto
  then show ?thesis using assms(1) w1(1) by (auto simp: KeySchedule_def)
qed

section \<open>Encryption and decryption\<close>

lemma for_range_fold:
  assumes "lo \<le> hi" "P s"
    and "\<And>i x. lo \<le> i \<Longrightarrow> i < hi \<Longrightarrow> P x \<Longrightarrow> f i (e x) = Some (e (g i x)) \<and> P (g i x)"
  shows "for_range lo hi f (e s) = Some (e (fold g [lo..<hi] s))"
proof -
  have "\<exists>t. for_range lo hi f (e s) = Some t \<and> (\<lambda>i t. t = e (fold g [lo..<i] s) \<and> P (fold g [lo..<i] s)) hi t"
    using assms by (intro for_range_rule) auto
  then show ?thesis by auto
qed

lemma AddRoundKey_ok:
  assumes "key_params type = Some (nk, nb, rounds)" "keyed w c (nb * (rounds + 1))" "n \<le> rounds" "length bs = 32"
  shows "AddRoundKey w (map up bs) type n = Some (map up (add_key c nb n bs))"
proof -
  have "nb * (n + 1) \<le> nb * (rounds + 1)" using assms(3) by (intro mult_le_mono2) simp
  moreover have "nb \<le> 8" using assms(1) by (auto simp: key_params_def split: if_splits)
  ultimately have "for_range 0 nb (key_column w nb n) (map up bs) = Some (map up (add_key c nb n bs))"
    using assms by (intro key_loop) auto
  then show ?thesis
    using assms(1) by (auto simp: AddRoundKey_def key_params_def split: if_splits)
qed

lemma params_nb: "key_params type = Some (nk, nb, rounds) \<Longrightarrow> nb \<in> {4, 6, 8} \<and> nb \<le> 8 \<and> 2 \<le> rounds"
  by (auto simp: key_params_def split: if_splits)

lemma enc_params_eq:
  "key_params type = Some (nk, nb, rounds) \<Longrightarrow> enc_params type g = g\<lparr>aes_round_val := rounds - 10, aes_nb := nb\<rparr> \<and> 10 \<le> rounds"
  by (auto simp: key_params_def enc_params_def split: if_splits)

lemma dec_params_eq:
  "key_params type = Some (nk, nb, rounds) \<Longrightarrow> dec_params type g = g\<lparr>aes_round_val := rounds, aes_nb := nb\<rparr>"
  by (auto simp: key_params_def dec_params_def split: if_splits)

lemma count_errors_total:
  "16 \<le> length s \<Longrightarrow> 16 \<le> length out \<Longrightarrow>
     count_errors out s r = Some (r + card {i. i < 16 \<and> s ! i \<noteq> out ! i})"
proof -
  assume l: "16 \<le> length s" "16 \<le> length out"
  have c: "card {i. i < Suc k \<and> P i} = card {i. i < k \<and> P i} + (if P k then 1 else 0)" for k :: nat and P
  proof -
    have "{i. i < Suc k \<and> P i} = (if P k then insert k {i. i < k \<and> P i} else {i. i < k \<and> P i})"
      by (auto simp: less_Suc_eq)
    then show ?thesis by (simp split: if_splits)
  qed
  show ?thesis
    unfolding count_errors_def
    by (rule for_range_eqI [where g = "\<lambda>k. r + card {i. i < k \<and> s ! i \<noteq> out ! i}"])
      (use l in \<open>auto simp: c\<close>)
qed

text \<open>The state of the global variables: the array of round keys has its shape.\<close>

definition aes_ok :: "aes \<Rightarrow> bool" where
  "aes_ok g \<longleftrightarrow> length (aes_word g) = 4 \<and> (\<forall>r\<in>set (aes_word g). length r = 120)"

lemma keyed_ok: "keyed (aes_word g) c m \<Longrightarrow> aes_ok g"
  by (simp add: keyed_def aes_ok_def)

lemma encrypt_total:
  assumes "key_params type = Some (nk, nb, rounds)" "length key = 32" "length bs = 32" "length junk = 32" "aes_ok g"
  shows "\<exists>g'. encrypt junk g (map up bs) (map up key) type =
      Some (g', map up (enc_block (key_col nk key) nb rounds bs)) \<and> aes_ok g' \<and>
      main_result g' = main_result g +
        card {i. i < 16 \<and> map up (enc_block (key_col nk key) nb rounds bs) ! i \<noteq> out_enc_statemt ! i}"
proof -
  let ?c = "key_col nk key" and ?m = "nb * (rounds + 1)"
  obtain w where w: "KeySchedule type (map up key) (aes_word g) = Some (0, w)" "keyed w ?c ?m"
    using KeySchedule_total [OF assms(1,2)] assms(5) by (auto simp: aes_ok_def)
  have nb: "nb \<in> {4, 6, 8}" "nb \<le> 8" "2 \<le> rounds" using params_nb [OF assms(1)] by auto
  let ?g = "g\<lparr>aes_word := w, aes_round_val := rounds - 10, aes_nb := nb\<rparr>"
  have p: "enc_params type (g\<lparr>aes_word := w\<rparr>) = ?g" "10 \<le> rounds" using enc_params_eq [OF assms(1)] by auto
  have ark: "AddRoundKey w (map up x) type n = Some (map up (add_key ?c nb n x))" if "n \<le> rounds" "length x = 32" for n x
    using that by (intro AddRoundKey_ok [OF assms(1) w(2)])
  have r: "do { s \<leftarrow> ByteSub_ShiftRow (map up x) nb; MixColumn_AddRoundKey junk w s nb i } = Some (map up (enc_round ?c nb i x))"
    if "i < rounds" "length x = 32" for i x
  proof -
    have "nb * (i + 1) \<le> ?m" using that(1) by (intro mult_le_mono2) simp
    then show ?thesis
      using that nb(1,2) assms(4)
      by (simp only: ByteSub_ShiftRow_ok Option.bind.simps mix_loop [OF _ _ w(2)] length_steps enc_round_def)
  qed
  have loop: "for_range 1 rounds (\<lambda>i s. do { s \<leftarrow> ByteSub_ShiftRow s nb; MixColumn_AddRoundKey junk w s nb i }) (map up x)
      = Some (map up (fold (enc_round ?c nb) [1..<rounds] x))" if "length x = 32" for x
    using that nb(3) r by (intro for_range_fold [where P = "\<lambda>x. length x = 32"]) auto
  let ?y = "fold (enc_round ?c nb) [1..<rounds] (add_key ?c nb 0 bs)"
  have ly: "length ?y = 32" by (simp add: length_enc_rounds)
  have ce: "count_errors out_enc_statemt (map up (enc_block ?c nb rounds bs)) r =
      Some (r + card {i. i < 16 \<and> map up (enc_block ?c nb rounds bs) ! i \<noteq> out_enc_statemt ! i})" for r
    by (rule count_errors_total) (simp_all add: out_enc_statemt_def)
  have "encrypt junk g (map up bs) (map up key) type =
     Some (?g\<lparr>main_result := main_result g + card {i. i < 16 \<and> map up (enc_block ?c nb rounds bs) ! i \<noteq> out_enc_statemt ! i}\<rparr>,
       map up (enc_block ?c nb rounds bs))"
    using w(1) p ark [OF _ assms(3), of 0] loop [of "add_key ?c nb 0 bs"] ly ark [of rounds "sub_shift nb ?y"]
      ByteSub_ShiftRow_ok [OF ly nb(1)] ce
    by (simp add: encrypt_def Let_def enc_block_def)
  then show ?thesis using keyed_ok [of ?g] w(2) by (auto simp: aes_ok_def)
qed

lemma decrypt_total:
  assumes "key_params type = Some (nk, nb, rounds)" "length key = 32" "length bs = 32" "length junk = 32" "aes_ok g"
  shows "\<exists>g'. decrypt junk g (map up bs) (map up key) type =
      Some (g', map up (dec_block (key_col nk key) nb rounds bs)) \<and> aes_ok g' \<and>
      main_result g' = main_result g +
        card {i. i < 16 \<and> map up (dec_block (key_col nk key) nb rounds bs) ! i \<noteq> out_dec_statemt ! i}"
proof -
  let ?c = "key_col nk key" and ?m = "nb * (rounds + 1)"
  obtain w where w: "KeySchedule type (map up key) (aes_word g) = Some (0, w)" "keyed w ?c ?m"
    using KeySchedule_total [OF assms(1,2)] assms(5) by (auto simp: aes_ok_def)
  have nb: "nb \<in> {4, 6, 8}" "nb \<le> 8" "2 \<le> rounds" using params_nb [OF assms(1)] by auto
  let ?g = "g\<lparr>aes_word := w, aes_round_val := rounds, aes_nb := nb\<rparr>"
  have p: "dec_params type (g\<lparr>aes_word := w\<rparr>) = ?g" using dec_params_eq [OF assms(1)] by auto
  have ark: "AddRoundKey w (map up x) type n = Some (map up (add_key ?c nb n x))" if "n \<le> rounds" "length x = 32" for n x
    using that by (intro AddRoundKey_ok [OF assms(1) w(2)])
  have r: "do { s \<leftarrow> AddRoundKey_InversMixColumn junk w (map up x) nb (rounds - i); InversShiftRow_ByteSub s nb }
      = Some (map up (dec_round ?c nb (rounds - i) x))" if "1 \<le> i" "length x = 32" for i x
  proof -
    have "nb * (rounds - i + 1) \<le> ?m" by (intro mult_le_mono2) simp
    then show ?thesis
      using that nb(1,2) assms(4)
      by (simp only: inv_mix_loop [OF _ _ w(2)] Option.bind.simps InversShiftRow_ByteSub_ok length_steps dec_round_def)
  qed
  have loop: "for_range 1 rounds (\<lambda>k s. do { s \<leftarrow> AddRoundKey_InversMixColumn junk w s nb (rounds - k); InversShiftRow_ByteSub s nb }) (map up x)
      = Some (map up (fold (\<lambda>k. dec_round ?c nb (rounds - k)) [1..<rounds] x))" if "length x = 32" for x
    using that nb(3) r by (intro for_range_fold [where P = "\<lambda>x. length x = 32"]) auto
  let ?z = "inv_shift_sub nb (add_key ?c nb rounds bs)"
  let ?y = "fold (\<lambda>k. dec_round ?c nb (rounds - k)) [1..<rounds] ?z"
  have ly: "length ?y = 32"
    by (rule fold_invariant [where P = "\<lambda>x. length x = 32" and Q = "\<lambda>_. True"]) auto
  have ce: "count_errors out_dec_statemt (map up (dec_block ?c nb rounds bs)) r =
      Some (r + card {i. i < 16 \<and> map up (dec_block ?c nb rounds bs) ! i \<noteq> out_dec_statemt ! i})" for r
    by (rule count_errors_total) (simp_all add: out_dec_statemt_def)
  have "decrypt junk g (map up bs) (map up key) type =
     Some (?g\<lparr>main_result := main_result g + card {i. i < 16 \<and> map up (dec_block ?c nb rounds bs) ! i \<noteq> out_dec_statemt ! i}\<rparr>,
       map up (dec_block ?c nb rounds bs))"
    using w(1) p ark [OF _ assms(3), of rounds] loop [of ?z] ly ark [of 0 ?y]
      InversShiftRow_ByteSub_ok [of "add_key ?c nb rounds bs" nb] nb(1) ce
    by (simp add: decrypt_def Let_def dec_block_def)
  then show ?thesis using keyed_ok [of ?g] w(2) by (auto simp: aes_ok_def)
qed

section \<open>Properties\<close>

text \<open>C14: For every supported combination of key and block length and all bytes, \<open>decrypt\<close> gives back
  what \<open>encrypt\<close> was given; neither leaves an array, whatever the uninitialised locals and the
  globals hold, and the bytes behind the block stay as they are.\<close>

theorem aes_roundtrip:
  assumes "key_params type = Some (nk, nb, rounds)" "length key = 32" "length bs = 32" "aes_ok g"
    and "length junk = 32" "length junk' = 32"
  shows "\<exists>g'. do { (g, s) \<leftarrow> encrypt junk g (map up bs) (map up key) type; decrypt junk' g s (map up key) type }
    = Some (g', map up bs)"
proof -
  let ?c = "key_col nk key"
  obtain g1 where g1: "encrypt junk g (map up bs) (map up key) type = Some (g1, map up (enc_block ?c nb rounds bs))" "aes_ok g1"
    using encrypt_total [OF assms(1-3,5,4)] by blast
  obtain g2 where "decrypt junk' g1 (map up (enc_block ?c nb rounds bs)) (map up key) type =
      Some (g2, map up (dec_block ?c nb rounds (enc_block ?c nb rounds bs)))"
    using decrypt_total [OF assms(1,2) length_rounds(3) [of ?c nb rounds bs] assms(6) g1(2)] by blast
  then show ?thesis
    using g1(1) dec_enc_block [of nb bs rounds ?c] params_nb [OF assms(1)] assms(3) by auto
qed

lemma aes_roundtrip_witness:
  "\<exists>g'. do { (g, s) \<leftarrow> encrypt (replicate 32 7)
       \<lparr>aes_nb = 0, aes_round_val = 0, aes_word = replicate 4 (replicate 120 0), main_result = 0\<rparr>
       (map up (replicate 32 1)) (map up (replicate 32 2)) 256192;
     decrypt (replicate 32 9) g s (map up (replicate 32 2)) 256192 } = Some (g', map up (replicate 32 1))"
  by (rule aes_roundtrip [where nk = 8 and nb = 6 and rounds = 14]) (simp_all add: key_params_def aes_ok_def)

text \<open>\<open>KeySchedule\<close> stores the key expansion of the standard, for each of the nine combinations
  and every key, whatever the array held before.\<close>

theorem KeySchedule_expands:
  assumes "key_params type = Some (nk, nb, rounds)" "length key = 32"
    and "length w = 4" "\<forall>r\<in>set w. length r = 120"
  shows "\<exists>w'. KeySchedule type (map up key) w = Some (0, w') \<and>
    (\<forall>i<4. \<forall>j<nb * (rounds + 1). w' ! i ! j = up (key_col nk key j ! i))"
  using KeySchedule_total [OF assms] unfolding keyed_def by blast

lemma KeySchedule_expands_witness:
  "\<exists>w'. KeySchedule 128128 (map up (replicate 32 3)) (replicate 4 (replicate 120 5)) = Some (0, w') \<and>
    (\<forall>i<4. \<forall>j<44. w' ! i ! j = up (key_col 4 (replicate 32 3) j ! i))"
  using KeySchedule_expands [of 128128 4 4 10 "replicate 32 3" "replicate 4 (replicate 120 5)"]
  by (simp add: key_params_def)

text \<open>\<open>ByteSub_ShiftRow\<close> substitutes every byte of a block and rotates row \<open>i\<close> of its columns to the
  left by the offset of the standard, for each block length; \<open>InversShiftRow_ByteSub\<close> undoes it.\<close>

theorem ByteSub_ShiftRow_standard:
  assumes "length bs = 32" "nb \<in> {4, 6, 8}"
  shows "\<exists>bs'. ByteSub_ShiftRow (map up bs) nb = Some (map up bs') \<and>
    (\<forall>i<4. \<forall>j<nb. bs' ! (i + 4 * j) = sub Sbox (bs ! (i + 4 * ((j + shift_off nb i) mod nb)))) \<and>
    InversShiftRow_ByteSub (map up bs') nb = Some (map up bs)"
proof (intro exI conjI allI impI)
  show "ByteSub_ShiftRow (map up bs) nb = Some (map up (sub_shift nb bs))" using assms by (rule ByteSub_ShiftRow_ok)
  show "InversShiftRow_ByteSub (map up (sub_shift nb bs)) nb = Some (map up bs)"
    using assms by (simp add: InversShiftRow_ByteSub_ok inv_shift_sub_shift)
next
  fix i j :: nat assume "i < 4" "j < nb"
  moreover from this have "i + 4 * j < 32" using assms(2) by auto
  ultimately show "sub_shift nb bs ! (i + 4 * j) = sub Sbox (bs ! (i + 4 * ((j + shift_off nb i) mod nb)))"
    by (simp add: sub_shift_def nth_block shift_src_def)
qed

lemma ByteSub_ShiftRow_standard_witness:
  "\<exists>bs'. ByteSub_ShiftRow (map up (replicate 32 5)) 6 = Some (map up bs') \<and>
    (\<forall>i<4. \<forall>j<6. bs' ! (i + 4 * j) = sub Sbox (replicate 32 5 ! (i + 4 * ((j + shift_off 6 i) mod 6)))) \<and>
    InversShiftRow_ByteSub (map up bs') 6 = Some (map up (replicate 32 5))"
  by (rule ByteSub_ShiftRow_standard) simp_all

text \<open>For a type that is none of the nine, \<open>KeySchedule\<close> reports \<open>-1\<close> and leaves the round keys
  alone, and \<open>encrypt\<close> and \<open>decrypt\<close>, which do not look at the report, run into the uninitialised
  number of columns.\<close>

theorem aes_unsupported_type:
  assumes "key_params type = None"
  shows "KeySchedule type key w = Some (- 1, w) \<and>
    encrypt junk g statemt key type = None \<and> decrypt junk g statemt key type = None"
proof -
  have 1: "KeySchedule type k w = Some (- 1, w)" for k w using assms by (simp add: KeySchedule_def)
  have 2: "AddRoundKey w s type n = None" for w s n
    using assms by (auto simp: AddRoundKey_def key_params_def split: if_splits)
  show ?thesis by (simp add: encrypt_def decrypt_def 1 2)
qed

lemma aes_unsupported_type_witness:
  "KeySchedule 128 [1] [[2]] = Some (- 1, [[2]]) \<and>
   encrypt [] \<lparr>aes_nb = 4, aes_round_val = 0, aes_word = [[2]], main_result = 0\<rparr> [] [1] 128 = None \<and>
   decrypt [] \<lparr>aes_nb = 4, aes_round_val = 0, aes_word = [[2]], main_result = 0\<rparr> [] [1] 128 = None"
  by (rule aes_unsupported_type) (simp add: key_params_def)

text \<open>C15: The benchmark runs through, ends with the plain text of the test vector, and its result is the
  number of bytes in which the cipher text misses the expected one: the check of \<open>decrypt\<close> never adds
  an error. This holds whatever the globals and the uninitialised locals hold.\<close>

theorem aes_main_result:
  assumes "aes_ok g" "length junk = 32" "length bs = 32" "length kb = 32"
  shows "\<exists>g' cipher. aes_main junk g (map up bs) (map up kb) = Some (g', test_statemt @ drop 16 (map up bs)) \<and>
    (\<exists>g1. encrypt junk (g\<lparr>main_result := 0\<rparr>) (test_statemt @ drop 16 (map up bs)) (test_key @ drop 16 (map up kb)) 128128
       = Some (g1, cipher)) \<and>
    main_result g' = card {i. i < 16 \<and> cipher ! i \<noteq> out_enc_statemt ! i}"
proof -
  define bs' kb' where "bs' = map ucast test_statemt @ drop 16 bs" and "kb' = map ucast test_key @ drop 16 kb"
  have s: "test_statemt @ drop 16 (map up bs) = map up bs'" "test_key @ drop 16 (map up kb) = map up kb'"
    by (simp_all add: bs'_def kb'_def test_statemt_def test_key_def drop_map)
  have l: "length bs' = 32" "length kb' = 32"
    using assms(3,4) by (simp_all add: bs'_def kb'_def test_statemt_def test_key_def)
  have p: "key_params 128128 = Some (4, 4, 10)" by (simp add: key_params_def)
  let ?c = "key_col 4 kb'" and ?g = "g\<lparr>main_result := 0\<rparr>"
  let ?x = "enc_block ?c 4 10 bs'"
  have ok: "aes_ok ?g" using assms(1) by (simp add: aes_ok_def)
  obtain g1 where e: "encrypt junk ?g (map up bs') (map up kb') 128128 = Some (g1, map up ?x)" "aes_ok g1"
    "main_result g1 = card {i. i < 16 \<and> map up ?x ! i \<noteq> out_enc_statemt ! i}"
    using encrypt_total [OF p l(2,1) assms(2) ok] by auto
  have inv: "dec_block ?c 4 10 ?x = bs'" using l by (intro dec_enc_block) auto
  have "map up bs' ! i = out_dec_statemt ! i" if "i < 16" for i
  proof -
    have "take 16 (map up bs') = out_dec_statemt"
      unfolding s(1) [symmetric] by (simp add: test_statemt_def out_dec_statemt_def)
    then show ?thesis using that by (metis nth_take)
  qed
  then have z: "{i. i < 16 \<and> map up bs' ! i \<noteq> out_dec_statemt ! i} = {}" by auto
  obtain g2 where d: "decrypt junk g1 (map up ?x) (map up kb') 128128 = Some (g2, map up bs')"
    "main_result g2 = main_result g1"
    using decrypt_total [OF p l(2) length_rounds(3) [of ?c 4 10 bs'] assms(2) e(2)] unfolding inv z by auto
  have "aes_main junk g (map up bs) (map up kb) = Some (g2, map up bs')"
    using e(1) d(1) by (simp add: aes_main_def s)
  then show ?thesis using e(1,3) d(2) unfolding s by metis
qed

lemma aes_main_result_witness:
  "\<exists>g' cipher. aes_main (replicate 32 3) \<lparr>aes_nb = 0, aes_round_val = 0, aes_word = replicate 4 (replicate 120 0), main_result = 5\<rparr>
      (map up (replicate 32 0)) (map up (replicate 32 0)) = Some (g', test_statemt @ drop 16 (map up (replicate 32 0))) \<and>
    (\<exists>g1. encrypt (replicate 32 3) (\<lparr>aes_nb = 0, aes_round_val = 0, aes_word = replicate 4 (replicate 120 0), main_result = 5\<rparr>\<lparr>main_result := 0\<rparr>)
        (test_statemt @ drop 16 (map up (replicate 32 0))) (test_key @ drop 16 (map up (replicate 32 0))) 128128
       = Some (g1, cipher)) \<and>
    main_result g' = card {i. i < 16 \<and> cipher ! i \<noteq> out_enc_statemt ! i}"
  by (rule aes_main_result) (simp_all add: aes_ok_def)

end
