(* ===== verification/OpenAsipCrc.thy ===== *)
theory OpenAsipCrc
  imports Prelude
begin

text \<open>
  \<open>src/lib/openasip/crc\<close>: the bitwise and the table-driven CRC of \<open>crc.c\<close>, for each of the
  three standards of \<open>crc.h\<close>, and the test program of \<open>main.c\<close>. A standard is a record of the
  parameters the preprocessor selects; the remainder has the width of the type \<open>crc\<close>, which is
  the type variable. \<open>CRC_CCITT\<close> is the standard the header selects.
\<close>

section \<open>The standards of \<open>crc.h\<close>\<close>

record 'w crc_std =
  polynomial :: "'w"
  initial_remainder :: "'w"
  final_xor_value :: "'w"
  reflect_data :: bool
  reflect_remainder :: bool
  check_value :: "'w"

definition crc_ccitt :: "16 word crc_std" where
  "crc_ccitt = \<lparr>polynomial = 0x1021, initial_remainder = 0xFFFF, final_xor_value = 0x0000,
     reflect_data = False, reflect_remainder = False, check_value = 0x29B1\<rparr>"

definition crc_16 :: "16 word crc_std" where
  "crc_16 = \<lparr>polynomial = 0x8005, initial_remainder = 0x0000, final_xor_value = 0x0000,
     reflect_data = True, reflect_remainder = True, check_value = 0xBB3D\<rparr>"

definition crc_32 :: "32 word crc_std" where
  "crc_32 = \<lparr>polynomial = 0x04C11DB7, initial_remainder = 0xFFFFFFFF, final_xor_value = 0xFFFFFFFF,
     reflect_data = True, reflect_remainder = True, check_value = 0xCBF43926\<rparr>"

section \<open>Bit reversal\<close>

definition reflect_step :: "nat \<Rightarrow> nat \<Rightarrow> u32 \<times> u32 \<Rightarrow> u32 \<times> u32" where
  "reflect_step n i x =
     (let (data, reflection) = x in
      (drop_bit 1 data, if data AND 0x01 \<noteq> 0 then reflection OR push_bit (n - 1 - i) 1 else reflection))"

definition reflect :: "u32 \<Rightarrow> nat \<Rightarrow> u32" where
  "reflect data n = snd (fold (reflect_step n) [0..<n] (data, 0))"

definition REFLECT_DATA :: "'a::len word crc_std \<Rightarrow> u8 \<Rightarrow> u8" where
  "REFLECT_DATA std x = (if reflect_data std then ucast (reflect (ucast x) 8) else x)"

definition REFLECT_REMAINDER :: "'a::len word crc_std \<Rightarrow> 'a word \<Rightarrow> 'a word" where
  "REFLECT_REMAINDER std x =
     (if reflect_remainder std then ucast (reflect (ucast x) LENGTH('a)) else x)"

section \<open>The bitwise CRC\<close>

definition crc_bit :: "'a::len word crc_std \<Rightarrow> 'a word \<Rightarrow> 'a word" where
  "crc_bit std r =
     (if r AND push_bit (LENGTH('a) - 1) 1 \<noteq> 0 then push_bit 1 r XOR polynomial std else push_bit 1 r)"

definition crc_bits :: "'a::len word crc_std \<Rightarrow> 'a word \<Rightarrow> 'a word" where
  "crc_bits std r = (crc_bit std ^^ 8) r"

definition slow_byte :: "'a::len word crc_std \<Rightarrow> 'a word \<Rightarrow> u8 \<Rightarrow> 'a word" where
  "slow_byte std r c = crc_bits std (r XOR push_bit (LENGTH('a) - 8) (ucast (REFLECT_DATA std c)))"

definition crcSlow :: "'a::len word crc_std \<Rightarrow> u8 list \<Rightarrow> nat \<Rightarrow> 'a word option" where
  "crcSlow std message nBytes =
     do { r \<leftarrow> for_range 0 nBytes (\<lambda>i r. do { c \<leftarrow> rd message i; Some (slow_byte std r c) }) (initial_remainder std);
          Some (REFLECT_REMAINDER std r XOR final_xor_value std) }"

section \<open>The table\<close>

definition crcInit :: "'a::len word crc_std \<Rightarrow> 'a word list \<Rightarrow> 'a word list option" where
  "crcInit std table =
     for_range 0 256 (\<lambda>d table. wr table d (crc_bits std (push_bit (LENGTH('a) - 8) (of_nat d)))) table"

definition fast_byte :: "'a::len word crc_std \<Rightarrow> 'a word list \<Rightarrow> 'a word \<Rightarrow> u8 \<Rightarrow> 'a word option" where
  "fast_byte std table r c =
     do { let data = REFLECT_DATA std c XOR ucast (drop_bit (LENGTH('a) - 8) r);
          t \<leftarrow> rd table (unat data);
          Some (t XOR push_bit 8 r) }"

definition crcFast :: "'a::len word crc_std \<Rightarrow> 'a word list \<Rightarrow> u8 list \<Rightarrow> nat \<Rightarrow> 'a word option" where
  "crcFast std table message nBytes =
     do { r \<leftarrow> for_range 0 nBytes (\<lambda>i r. do { c \<leftarrow> rd message i; fast_byte std table r c }) (initial_remainder std);
          Some (REFLECT_REMAINDER std r XOR final_xor_value std) }"

section \<open>The test program\<close>

record 'w crc_prog =
  crcTable :: "'w list"
  result_slow :: "'w"
  result_fast :: "'w"

definition crc_mlonmcu_init :: "'a::len word crc_std \<Rightarrow> 'a word crc_prog \<Rightarrow> 'a word crc_prog option" where
  "crc_mlonmcu_init std s = do { t \<leftarrow> crcInit std (crcTable s); Some (s\<lparr>crcTable := t\<rparr>) }"

definition crc_test :: "u8 list" where
  "crc_test = [0x31, 0x32, 0x33, 0x34, 0x35, 0x36, 0x37, 0x38, 0x39]"

definition crc_mlonmcu_run :: "'a::len word crc_std \<Rightarrow> 'a word crc_prog \<Rightarrow> 'a word crc_prog option" where
  "crc_mlonmcu_run std s =
     do { slow \<leftarrow> crcSlow std (crc_test @ [0]) (length crc_test);
          fast \<leftarrow> crcFast std (crcTable s) (crc_test @ [0]) (length crc_test);
          Some (s\<lparr>result_slow := slow, result_fast := fast\<rparr>) }"

section \<open>The bit step is linear\<close>

lemma top_bit: "r AND push_bit (LENGTH('a) - 1) 1 \<noteq> 0 \<longleftrightarrow> bit (r :: 'a::len word) (LENGTH('a) - 1)"
  by (simp add: bit_iff_and_push_bit_not_eq_0)

lemma crc_bit_xor: "crc_bit std (x XOR y) = crc_bit std x XOR crc_bit std y"
  unfolding crc_bit_def top_bit by (auto simp: bit_xor_iff push_bit_xor ac_simps)

lemma crc_bits_xor: "crc_bits std (x XOR y) = crc_bits std x XOR crc_bits std y"
proof -
  have "(crc_bit std ^^ n) (x XOR y) = (crc_bit std ^^ n) x XOR (crc_bit std ^^ n) y" for n
    by (induction n) (simp_all add: crc_bit_xor)
  then show ?thesis by (simp add: crc_bits_def)
qed

text \<open>The bits below the top byte only move up.\<close>

lemma crc_bits_low:
  assumes "8 \<le> LENGTH('a)" "\<And>i. LENGTH('a) - 8 \<le> i \<Longrightarrow> \<not> bit (x :: 'a::len word) i"
  shows "crc_bits std x = push_bit 8 x"
proof -
  have "n \<le> 8 \<Longrightarrow> (crc_bit std ^^ n) x = push_bit n x" for n
  proof (induction n)
    case (Suc n)
    have "\<not> bit (push_bit n x) (LENGTH('a) - 1)"
      using Suc(2) assms by (auto simp: bit_push_bit_iff)
    then have "crc_bit std (push_bit n x) = push_bit 1 (push_bit n x)"
      by (simp only: crc_bit_def top_bit) simp
    with Suc show ?case by (simp add: push_bit_push_bit)
  qed simp
  from this [of 8] show ?thesis by (simp add: crc_bits_def)
qed

definition top_byte :: "'a::len word \<Rightarrow> u8" where
  "top_byte r = ucast (drop_bit (LENGTH('a) - 8) r)"

text \<open>A byte step looks at the top byte only.\<close>

lemma slow_byte_top:
  assumes "8 \<le> LENGTH('a)"
  shows "slow_byte std (r :: 'a::len word) c =
    crc_bits std (push_bit (LENGTH('a) - 8) (ucast (REFLECT_DATA std c XOR top_byte r))) XOR push_bit 8 r"
proof -
  let ?c = "REFLECT_DATA std c" and ?k = "LENGTH('a) - 8"
  let ?low = "r XOR push_bit ?k (ucast (top_byte r))"
  have low: "\<not> bit ?low i" if "?k \<le> i" for i
    using that assms by (auto simp: bit_xor_iff bit_push_bit_iff bit_ucast_iff top_byte_def bit_drop_bit_eq dest: bit_imp_le_length)
  have up: "push_bit 8 ?low = push_bit 8 r"
    using assms by (intro bit_word_eqI) (auto simp: bit_xor_iff bit_push_bit_iff)
  have "r XOR push_bit ?k (ucast ?c) = push_bit ?k (ucast (?c XOR top_byte r)) XOR ?low"
    by (intro bit_word_eqI) (auto simp: bit_xor_iff bit_push_bit_iff bit_ucast_iff)
  then show ?thesis
    using crc_bits_low [OF assms, of ?low std] low by (simp add: slow_byte_def crc_bits_xor up)
qed

section \<open>The table holds the byte steps\<close>

definition crc_table :: "'a::len word crc_std \<Rightarrow> 'a word list" where
  "crc_table std = map (\<lambda>d. crc_bits std (push_bit (LENGTH('a) - 8) (of_nat d))) [0..<256]"

lemma crcInit_table: "length table = 256 \<Longrightarrow> crcInit std table = Some (crc_table std)"
  by (simp add: crcInit_def crc_table_def upd_prefix_def
      for_store [where h = "\<lambda>d. crc_bits std (push_bit (LENGTH('a) - 8) (of_nat d))" for std :: "'a::len word crc_std"])

lemma fast_byte_slow:
  fixes std :: "'a::len word crc_std"
  assumes "8 \<le> LENGTH('a)"
  shows "fast_byte std (crc_table std) r c = Some (slow_byte std r c)"
proof -
  let ?d = "REFLECT_DATA std c XOR top_byte r"
  have "unat ?d < 256" using unsigned_less [of ?d, where ?'a = nat] by simp
  then have "rd (crc_table std) (unat ?d) = Some (crc_bits std (push_bit (LENGTH('a) - 8) (ucast ?d)))"
    by (simp add: crc_table_def)
  then show ?thesis
    by (simp add: fast_byte_def slow_byte_top [OF assms] top_byte_def Let_def)
qed

section \<open>What the bitwise CRC computes\<close>

definition crc_fold :: "'a::len word crc_std \<Rightarrow> u8 list \<Rightarrow> 'a word" where
  "crc_fold std msg = foldl (slow_byte std) (initial_remainder std) msg"

lemma crc_loop:
  assumes "n \<le> length msg"
  shows "for_range 0 n (\<lambda>i r. do { c \<leftarrow> rd msg i; Some (slow_byte std r c) }) (initial_remainder std)
    = Some (crc_fold std (take n msg))"
  using assms
  by (intro for_range_eqI [where g = "\<lambda>i. crc_fold std (take i msg)"])
    (auto simp: crc_fold_def take_Suc_conv_app_nth)

lemma crcSlow_fold:
  "n \<le> length msg \<Longrightarrow>
     crcSlow std msg n = Some (REFLECT_REMAINDER std (crc_fold std (take n msg)) XOR final_xor_value std)"
  by (simp add: crcSlow_def crc_loop)

lemma crcFast_slow_eq:
  fixes std :: "'a::len word crc_std"
  assumes "8 \<le> LENGTH('a)"
  shows "crcFast std (crc_table std) msg n = crcSlow std msg n"
  by (simp add: crcFast_def crcSlow_def fast_byte_slow [OF assms])

text \<open>The remainder, appended high byte first, is swallowed by the register.\<close>

lemma slow_byte_own_top:
  fixes r :: "'a::len word"
  assumes "8 \<le> LENGTH('a)" "\<not> reflect_data std"
  shows "slow_byte std r (top_byte r) = push_bit 8 r"
proof -
  have "(crc_bit std ^^ n) 0 = 0" for n by (induction n) (simp_all add: crc_bit_def)
  then show ?thesis
    using assms by (simp add: slow_byte_top REFLECT_DATA_def crc_bits_def)
qed

lemma crc16_residue:
  fixes r :: "16 word"
  assumes "\<not> reflect_data std"
  shows "foldl (slow_byte std) r [ucast (drop_bit 8 r), ucast r] = 0"
proof -
  have "top_byte r = ucast (drop_bit 8 r)" by (simp add: top_byte_def)
  moreover have "top_byte (push_bit 8 r) = ucast r"
    by (intro bit_word_eqI) (auto simp: top_byte_def bit_ucast_iff bit_drop_bit_eq bit_push_bit_iff)
  moreover have "push_bit 8 (push_bit 8 r) = 0"
    by (simp add: push_bit_push_bit)
  ultimately show ?thesis
    using slow_byte_own_top [of std r] slow_byte_own_top [of std "push_bit 8 r"] assms by simp
qed

section \<open>Bit reversal is an involution\<close>

lemma reflect_loop:
  "i \<le> n \<Longrightarrow> n \<le> 32 \<Longrightarrow>
     fst (fold (reflect_step n) [0..<i] (data, 0)) = drop_bit i data \<and>
     (\<forall>k. bit (snd (fold (reflect_step n) [0..<i] (data, 0))) k \<longleftrightarrow> k < n \<and> n - 1 - k < i \<and> bit data (n - 1 - k))"
proof (induction i)
  case (Suc i)
  define x where "x = fold (reflect_step n) [0..<i] (data, 0)"
  have x: "fst x = drop_bit i data" "bit (snd x) k \<longleftrightarrow> k < n \<and> n - 1 - k < i \<and> bit data (n - 1 - k)" for k
    using Suc by (auto simp: x_def)
  have b: "drop_bit i data AND 1 \<noteq> 0 \<longleftrightarrow> bit data i"
    by (simp add: and_one_eq odd_iff_mod_2_eq_one [symmetric] bit_iff_odd_drop_bit [symmetric] mod_2_eq_odd)
  have k: "k < n \<and> n - 1 - k < Suc i \<longleftrightarrow> k < n \<and> n - 1 - k < i \<or> k = n - 1 - i" for k
    using Suc(2) by auto
  have "drop_bit 1 (drop_bit i data) = drop_bit (Suc i) data" by (simp only: drop_bit_drop_bit) simp
  then have "fold (reflect_step n) [0..<Suc i] (data, 0) =
      (drop_bit (Suc i) data, if bit data i then snd x OR push_bit (n - 1 - i) 1 else snd x)"
    using b x(1) by (simp add: reflect_step_def x_def [symmetric] split_beta)
  moreover have "bit (if bit data i then snd x OR push_bit (n - 1 - i) 1 else snd x) k \<longleftrightarrow>
      k < n \<and> n - 1 - k < Suc i \<and> bit data (n - 1 - k)" for k
  proof (cases "k = n - 1 - i")
    case True
    then have "n - 1 - k = i" "k < n" using Suc(2) by auto
    with True x(2) [of k] Suc(2,3) show ?thesis by (auto simp: bit_or_iff bit_push_bit_iff bit_exp_iff)
  next
    case False
    then have "n - 1 - k < Suc i \<longleftrightarrow> n - 1 - k < i" if "k < n" using that Suc(2) by auto
    with False x(2) [of k] show ?thesis by (auto simp: bit_or_iff bit_push_bit_iff bit_exp_iff)
  qed
  ultimately show ?case by (simp only: fst_conv snd_conv simp_thms)
qed simp

lemma bit_reflect: "n \<le> 32 \<Longrightarrow> bit (reflect data n) k \<longleftrightarrow> k < n \<and> bit data (n - 1 - k)"
proof -
  assume "n \<le> 32"
  then have "bit (reflect data n) k \<longleftrightarrow> k < n \<and> n - 1 - k < n \<and> bit data (n - 1 - k)"
    using reflect_loop [of n n data] unfolding reflect_def by blast
  then show ?thesis by auto
qed

lemma reflect_reflect:
  assumes "n \<le> 32"
  shows "reflect (reflect x n) n = take_bit n x"
  using assms by (intro bit_word_eqI) (auto simp: bit_reflect bit_take_bit_iff)

section \<open>Properties\<close>

text \<open>C16: The table-driven CRC that uses the table \<open>crcInit\<close> builds computes, for every standard
  whose remainder has at least eight bits and every message, what the bitwise CRC computes.\<close>

theorem crcFast_crcSlow:
  fixes std :: "'a::len word crc_std"
  assumes "8 \<le> LENGTH('a)" "length table = 256" "nBytes \<le> length message"
  shows "\<exists>t. crcInit std table = Some t \<and> crcFast std t message nBytes = crcSlow std message nBytes \<and>
    crcSlow std message nBytes \<noteq> None"
  using assms by (simp add: crcInit_table crcFast_slow_eq crcSlow_fold)

lemma crcFast_crcSlow_witness:
  "\<exists>t. crcInit crc_16 (replicate 256 0) = Some t \<and> crcFast crc_16 t [1, 2, 3] 2 = crcSlow crc_16 [1, 2, 3] 2 \<and>
    crcSlow crc_16 [1, 2, 3] 2 \<noteq> None"
  by (rule crcFast_crcSlow) simp_all

text \<open>For a 16-bit standard without reflection and final mask, as the selected CRC-CCITT, a
  message with its CRC appended, high byte first, has the CRC 0.\<close>

theorem crc_residue:
  fixes std :: "16 word crc_std"
  assumes "\<not> reflect_data std" "\<not> reflect_remainder std" "final_xor_value std = 0"
  shows "do { c \<leftarrow> crcSlow std message (length message);
              let m = message @ [ucast (drop_bit 8 c), ucast c];
              crcSlow std m (length m) } = Some 0"
  using assms crc16_residue [OF assms(1), of "crc_fold std message"]
  by (simp add: crcSlow_fold REFLECT_REMAINDER_def Let_def) (simp add: crc_fold_def)

lemma crc_residue_witness:
  "do { c \<leftarrow> crcSlow crc_ccitt [1, 2] (length [1, 2 :: u8]);
        let m = [1, 2] @ [ucast (drop_bit 8 c), ucast c];
        crcSlow crc_ccitt m (length m) } = Some 0"
  by (rule crc_residue) (simp_all add: crc_ccitt_def)

text \<open>The test program computes the check value of the selected standard, by both methods,
  whatever the table and the results held before.\<close>

theorem crc_program_check:
  assumes "length (crcTable s) = 256"
  shows "do { s \<leftarrow> crc_mlonmcu_init crc_ccitt s; crc_mlonmcu_run crc_ccitt s } =
    Some \<lparr>crcTable = crc_table crc_ccitt, result_slow = check_value crc_ccitt, result_fast = check_value crc_ccitt\<rparr>"
proof -
  have "REFLECT_REMAINDER crc_ccitt (crc_fold crc_ccitt crc_test) XOR final_xor_value crc_ccitt = check_value crc_ccitt"
    by code_simp
  then have "crcSlow crc_ccitt (crc_test @ [0]) (length crc_test) = Some (check_value crc_ccitt)"
    by (simp add: crcSlow_fold)
  with assms show ?thesis
    by (cases s) (simp add: crc_mlonmcu_init_def crc_mlonmcu_run_def crcInit_table crcFast_slow_eq)
qed

lemma crc_program_check_witness:
  "do { s \<leftarrow> crc_mlonmcu_init crc_ccitt \<lparr>crcTable = replicate 256 7, result_slow = 1, result_fast = 2\<rparr>;
        crc_mlonmcu_run crc_ccitt s } =
    Some \<lparr>crcTable = crc_table crc_ccitt, result_slow = check_value crc_ccitt, result_fast = check_value crc_ccitt\<rparr>"
  by (rule crc_program_check) simp

end
