(* ===== verification/Mathis.thy ===== *)
theory Mathis
  imports Prelude
begin

unbundle bit_operations_syntax

text \<open>
  The vector and matrix kernels of \<open>src/lib/mathis/test.c\<close>. Each kernel exists for
  \<open>int8_t\<close> and \<open>int16_t\<close>; the C code computes in \<open>int\<close>, where none of these sums and
  products overflows, and truncates to the element type when it stores, which is the arithmetic of
  words of the element width. The two widths share one definition over \<open>'w word\<close>. A kernel
  returns the code's return value and the new destination; \<open>d\<close> is \<open>restrict\<close>, so it is an
  array of its own.
\<close>

section \<open>Vector kernels\<close>

definition to_upper :: "nat \<Rightarrow> u8 list \<Rightarrow> (s32 \<times> u8 list) option" where
  "to_upper n c = do {
     c \<leftarrow> for_range 0 n (\<lambda>i c. do {
       x \<leftarrow> rd c i;
       wr c i (x + (if 0x61 \<le> x \<and> x \<le> 0x7a then 0x41 - 0x61 else 0)) }) c;
     Some (0, c) }"

definition vec_add ::
    "nat \<Rightarrow> 'w::len word list \<Rightarrow> 'w word list \<Rightarrow> 'w word list \<Rightarrow> (s32 \<times> 'w word list) option" where
  "vec_add n d a b = do {
     d \<leftarrow> for_range 0 n (\<lambda>i d. do { x \<leftarrow> rd a i; y \<leftarrow> rd b i; wr d i (x + y) }) d;
     Some (0, d) }"

definition add8 :: "nat \<Rightarrow> s8 list \<Rightarrow> s8 list \<Rightarrow> s8 list \<Rightarrow> (s32 \<times> s8 list) option" where
  "add8 = vec_add"

definition add16 :: "nat \<Rightarrow> s16 list \<Rightarrow> s16 list \<Rightarrow> s16 list \<Rightarrow> (s32 \<times> s16 list) option" where
  "add16 = vec_add"

definition gather_add ::
    "nat \<Rightarrow> 'w::len word list \<Rightarrow> 'w word list \<Rightarrow> 'w word list \<Rightarrow> (s32 \<times> 'w word list) option" where
  "gather_add n d a b = do {
     d \<leftarrow> for_range 0 (n div 2) (\<lambda>i d. do { x \<leftarrow> rd a (i * 2); y \<leftarrow> rd b (i * 2); wr d i (x + y) }) d;
     Some (0, d) }"

definition gather_add8 :: "nat \<Rightarrow> s8 list \<Rightarrow> s8 list \<Rightarrow> s8 list \<Rightarrow> (s32 \<times> s8 list) option" where
  "gather_add8 = gather_add"

definition gather_add16 :: "nat \<Rightarrow> s16 list \<Rightarrow> s16 list \<Rightarrow> s16 list \<Rightarrow> (s32 \<times> s16 list) option" where
  "gather_add16 = gather_add"

definition scatter_add ::
    "nat \<Rightarrow> 'w::len word list \<Rightarrow> 'w word list \<Rightarrow> 'w word list \<Rightarrow> (s32 \<times> 'w word list) option" where
  "scatter_add n d a b = do {
     d \<leftarrow> for_range 0 (n div 2) (\<lambda>i d. do { x \<leftarrow> rd a i; y \<leftarrow> rd b i; wr d (i * 2) (x + y) }) d;
     Some (0, d) }"

definition scatter_add8 :: "nat \<Rightarrow> s8 list \<Rightarrow> s8 list \<Rightarrow> s8 list \<Rightarrow> (s32 \<times> s8 list) option" where
  "scatter_add8 = scatter_add"

definition scatter_add16 :: "nat \<Rightarrow> s16 list \<Rightarrow> s16 list \<Rightarrow> s16 list \<Rightarrow> (s32 \<times> s16 list) option" where
  "scatter_add16 = scatter_add"

definition saxpy ::
    "nat \<Rightarrow> 'w::len word list \<Rightarrow> 'w word list \<Rightarrow> 'w word list \<Rightarrow> 'w word \<Rightarrow> (s32 \<times> 'w word list) option" where
  "saxpy n d x y a = do {
     d \<leftarrow> for_range 0 n (\<lambda>i d. do { u \<leftarrow> rd x i; v \<leftarrow> rd y i; wr d i (a * u + v) }) d;
     Some (0, d) }"

definition saxpy8 :: "nat \<Rightarrow> s8 list \<Rightarrow> s8 list \<Rightarrow> s8 list \<Rightarrow> s8 \<Rightarrow> (s32 \<times> s8 list) option" where
  "saxpy8 = saxpy"

definition saxpy16 :: "nat \<Rightarrow> s16 list \<Rightarrow> s16 list \<Rightarrow> s16 list \<Rightarrow> s16 \<Rightarrow> (s32 \<times> s16 list) option" where
  "saxpy16 = saxpy"

text \<open>The dot product accumulates in \<open>uint32_t\<close>; \<open>oa\<close> and \<open>ob\<close> are the offsets of the
  pointers into their arrays.\<close>

definition dot ::
    "nat \<Rightarrow> 'w::len word list \<Rightarrow> nat \<Rightarrow> 'w word list \<Rightarrow> nat \<Rightarrow> u32 option" where
  "dot n a oa b ob =
     for_range 0 n (\<lambda>i acc. do { x \<leftarrow> rd a (oa + i); y \<leftarrow> rd b (ob + i); Some (acc + scast x * scast y) }) 0"

definition dot8 :: "nat \<Rightarrow> s8 list \<Rightarrow> s8 list \<Rightarrow> s32 option" where
  "dot8 n a b = dot n a 0 b 0"

definition dot16 :: "nat \<Rightarrow> s16 list \<Rightarrow> s16 list \<Rightarrow> s32 option" where
  "dot16 n a b = dot n a 0 b 0"

section \<open>Matrix kernels\<close>

text \<open>\<open>d[k] += v\<close> with \<open>v\<close> the product of two elements.\<close>

definition mac :: "'w::len word list \<Rightarrow> nat \<Rightarrow> 'w word list \<Rightarrow> nat \<Rightarrow> nat \<Rightarrow> 'w word list \<Rightarrow> 'w word list option" where
  "mac a i b j k d = do {
     v \<leftarrow> do { x \<leftarrow> rd a i; y \<leftarrow> rd b j; Some (x * y) };
     c \<leftarrow> rd d k;
     wr d k (c + v) }"

definition matmul ::
    "nat \<Rightarrow> 'w::len word list \<Rightarrow> 'w word list \<Rightarrow> 'w word list \<Rightarrow> (s32 \<times> 'w word list) option" where
  "matmul n d a b = do {
     d \<leftarrow> for_range 0 n (\<lambda>y. for_range 0 n (\<lambda>x. for_range 0 n (\<lambda>i.
            mac a (y * n + i) b (i * n + x) (y * n + x)))) d;
     Some (0, d) }"

definition matmul_a ::
    "nat \<Rightarrow> 'w::len word list \<Rightarrow> 'w word list \<Rightarrow> 'w word list \<Rightarrow> (s32 \<times> 'w word list) option" where
  "matmul_a n d a b = do {
     d \<leftarrow> for_range 0 n (\<lambda>a_y. for_range 0 n (\<lambda>b_y. for_range 0 n (\<lambda>i.
            mac a (a_y * n + b_y) b (b_y * n + i) (a_y * n + i)))) d;
     Some (0, d) }"

definition transposed_matmul ::
    "nat \<Rightarrow> 'w::len word list \<Rightarrow> 'w word list \<Rightarrow> 'w word list \<Rightarrow> (s32 \<times> 'w word list) option" where
  "transposed_matmul n d a b = do {
     d \<leftarrow> for_range 0 n (\<lambda>y. for_range 0 n (\<lambda>x. for_range 0 n (\<lambda>i.
            mac a (y * n + i) b (x * n + i) (y * n + x)))) d;
     Some (0, d) }"

definition transposed_matmul_a ::
    "nat \<Rightarrow> 'w::len word list \<Rightarrow> 'w word list \<Rightarrow> 'w word list \<Rightarrow> (s32 \<times> 'w word list) option" where
  "transposed_matmul_a n d a b = do {
     d \<leftarrow> for_range 0 n (\<lambda>a_y. for_range 0 n (\<lambda>b_y. for_range 0 n (\<lambda>i.
            mac a (a_y * n + b_y) b (i * n + b_y) (a_y * n + i)))) d;
     Some (0, d) }"

definition transposed_matmul_b ::
    "nat \<Rightarrow> 'w::len word list \<Rightarrow> 'w word list \<Rightarrow> 'w word list \<Rightarrow> (s32 \<times> 'w word list) option" where
  "transposed_matmul_b n d a b = do {
     d \<leftarrow> for_range 0 n (\<lambda>y. for_range 0 n (\<lambda>x d. do {
            v \<leftarrow> dot n a (y * n) b (x * n);
            wr d (y * n + x) (ucast v) })) d;
     Some (0, d) }"

definition matmul8 :: "nat \<Rightarrow> s8 list \<Rightarrow> s8 list \<Rightarrow> s8 list \<Rightarrow> (s32 \<times> s8 list) option" where
  "matmul8 = matmul"

definition matmul16 :: "nat \<Rightarrow> s16 list \<Rightarrow> s16 list \<Rightarrow> s16 list \<Rightarrow> (s32 \<times> s16 list) option" where
  "matmul16 = matmul"

definition matmul8_a :: "nat \<Rightarrow> s8 list \<Rightarrow> s8 list \<Rightarrow> s8 list \<Rightarrow> (s32 \<times> s8 list) option" where
  "matmul8_a = matmul_a"

definition matmul16_a :: "nat \<Rightarrow> s16 list \<Rightarrow> s16 list \<Rightarrow> s16 list \<Rightarrow> (s32 \<times> s16 list) option" where
  "matmul16_a = matmul_a"

definition transposed_matmul8 :: "nat \<Rightarrow> s8 list \<Rightarrow> s8 list \<Rightarrow> s8 list \<Rightarrow> (s32 \<times> s8 list) option" where
  "transposed_matmul8 = transposed_matmul"

definition transposed_matmul16 :: "nat \<Rightarrow> s16 list \<Rightarrow> s16 list \<Rightarrow> s16 list \<Rightarrow> (s32 \<times> s16 list) option" where
  "transposed_matmul16 = transposed_matmul"

definition transposed_matmul8_a :: "nat \<Rightarrow> s8 list \<Rightarrow> s8 list \<Rightarrow> s8 list \<Rightarrow> (s32 \<times> s8 list) option" where
  "transposed_matmul8_a = transposed_matmul_a"

definition transposed_matmul16_a :: "nat \<Rightarrow> s16 list \<Rightarrow> s16 list \<Rightarrow> s16 list \<Rightarrow> (s32 \<times> s16 list) option" where
  "transposed_matmul16_a = transposed_matmul_a"

definition transposed_matmul8_b :: "nat \<Rightarrow> s8 list \<Rightarrow> s8 list \<Rightarrow> s8 list \<Rightarrow> (s32 \<times> s8 list) option" where
  "transposed_matmul8_b = transposed_matmul_b"

definition transposed_matmul16_b :: "nat \<Rightarrow> s16 list \<Rightarrow> s16 list \<Rightarrow> s16 list \<Rightarrow> (s32 \<times> s16 list) option" where
  "transposed_matmul16_b = transposed_matmul_b"

section \<open>What the vector kernels compute\<close>

text \<open>the element-wise kernels stay inside arrays of the lengths they are told and store
  exactly the element-wise results, modulo the element width; the rest of the destination keeps
  its contents.\<close>

theorem vector_kernels:
  fixes d a b :: "'w::len word list"
  assumes "n \<le> length d" and "n \<le> length a" and "n \<le> length b"
  shows "vec_add n d a b = Some (0, upd_prefix n (\<lambda>i. a ! i + b ! i) d) \<and>
         saxpy n d a b s = Some (0, upd_prefix n (\<lambda>i. s * a ! i + b ! i) d) \<and>
         gather_add n d a b = Some (0, upd_prefix (n div 2) (\<lambda>i. a ! (i * 2) + b ! (i * 2)) d)"
  using assms
  by (simp add: vec_add_def saxpy_def gather_add_def
      for_store [where h = "\<lambda>i. a ! i + b ! i"] for_store [where h = "\<lambda>i. s * a ! i + b ! i"]
      for_store [where h = "\<lambda>i. a ! (i * 2) + b ! (i * 2)"])

theorem vector_kernels_witness:
  "vec_add 2 [0, 0, 9] [200, 1] [100, 2 :: 8 word] = Some (0, [44, 3, 9])"
  using vector_kernels [of 2 "[0, 0, 9]" "[200, 1]" "[100, 2 :: 8 word]"]
  by (simp add: upd_prefix_def upt_rec)

lemma dot_eq:
  assumes "oa + n \<le> length a" and "ob + n \<le> length b"
  shows "dot n a oa b ob = Some (\<Sum>i<n. scast (a ! (oa + i)) * scast (b ! (ob + i)))"
  unfolding dot_def using assms
  by (intro for_range_eqI [where g = "\<lambda>k. \<Sum>i<k. scast (a ! (oa + i)) * scast (b ! (ob + i))"]) auto

section \<open>What the matrix kernels compute\<close>

text \<open>Accumulating one element at a time: the dot-product order.\<close>

lemma mac_loop:
  assumes "k < length d" and "\<And>i. i < n \<Longrightarrow> f i < length a \<and> g i < length b"
  shows "for_range 0 n (\<lambda>i. mac a (f i) b (g i) k) d = Some (d[k := d ! k + (\<Sum>i<n. a ! f i * b ! g i)])"
  unfolding mac_def using assms by (intro for_accumulate) auto

lemma dot_order:
  fixes d :: "'w::len word list"
  assumes "n * n \<le> length d"
    and "\<And>y x i. y < n \<Longrightarrow> x < n \<Longrightarrow> i < n \<Longrightarrow> f y x i < length a \<and> g y x i < length b"
  shows "for_range 0 n (\<lambda>y. for_range 0 n (\<lambda>x. for_range 0 n (\<lambda>i. mac a (f y x i) b (g y x i) (y * n + x)))) d
    = Some (upd_prefix (n * n) (\<lambda>p. d ! p + (\<Sum>i<n. a ! f (p div n) (p mod n) i * b ! g (p div n) (p mod n) i)) d)"
proof (subst for_range_matrix, rule for_store [OF assms(1)])
  fix p assume p: "p < n * n"
  note idx = matrix_index [OF p]
  let ?d = "upd_prefix p (\<lambda>p. d ! p + (\<Sum>i<n. a ! f (p div n) (p mod n) i * b ! g (p div n) (p mod n) i)) d"
  have "?d ! p = d ! p" using p assms(1) by (simp add: nth_upd_prefix)
  then show "for_range 0 n (\<lambda>i. mac a (f (p div n) (p mod n) i) b (g (p div n) (p mod n) i) (p div n * n + p mod n)) ?d
      = Some (?d[p := d ! p + (\<Sum>i<n. a ! f (p div n) (p mod n) i * b ! g (p div n) (p mod n) i)])"
    using p idx assms by (simp add: mac_loop)
qed

text \<open>Accumulating a scaled row at a time: the order of the \<open>_a\<close> kernels. The state after
  \<open>ay\<close> rows and \<open>k\<close> of the \<open>n\<close> contributions to the next row.\<close>

definition row_state ::
    "nat \<Rightarrow> (nat \<Rightarrow> nat \<Rightarrow> nat \<Rightarrow> 'w::len word) \<Rightarrow> 'w word list \<Rightarrow> nat \<Rightarrow> nat \<Rightarrow> nat \<Rightarrow> 'w word list" where
  "row_state n h d ay k c = map (\<lambda>p. d ! p +
     (if p < n * n then
        (\<Sum>i < (if p div n < ay then n else if p div n = ay then (if p mod n < c then Suc k else k) else 0).
           h (p div n) (p mod n) i)
      else 0)) [0..<length d]"

lemma row_state_simps:
  assumes "n * n \<le> length d"
  shows "row_state n h d 0 0 0 = d"
    and "k < n \<Longrightarrow> row_state n h d ay k n = row_state n h d ay (Suc k) 0"
    and "row_state n h d ay n 0 = row_state n h d (Suc ay) 0 0"
    and "row_state n h d n 0 0 = upd_prefix (n * n) (\<lambda>p. d ! p + (\<Sum>i<n. h (p div n) (p mod n) i)) d"
  using assms matrix_index(1,2)
  by (auto intro!: nth_equalityI simp: row_state_def nth_upd_prefix less_Suc_eq)

lemma row_state_step:
  assumes "n * n \<le> length d" and "ay < n" and "k < n" and "c < n"
  shows "(row_state n h d ay k c)[ay * n + c := row_state n h d ay k c ! (ay * n + c) + h ay c k]
    = row_state n h d ay k (Suc c)"
proof (rule nth_equalityI)
  fix p assume "p < length ((row_state n h d ay k c)[ay * n + c := row_state n h d ay k c ! (ay * n + c) + h ay c k])"
  then have p: "p < length d" by (simp add: row_state_def)
  have i: "ay * n + c < n * n" using assms by (intro matrix_row)
  show "(row_state n h d ay k c)[ay * n + c := row_state n h d ay k c ! (ay * n + c) + h ay c k] ! p
      = row_state n h d ay k (Suc c) ! p"
  proof (cases "p = ay * n + c")
    case True
    then show ?thesis using assms i p by (simp add: row_state_def)
  next
    case False
    then have "\<not> (p div n = ay \<and> p mod n = c)" by auto
    then show ?thesis using False p i assms(1) by (auto simp: row_state_def less_Suc_eq)
  qed
qed (simp add: row_state_def)

lemma saxpy_order:
  fixes d :: "'w::len word list"
  assumes "n * n \<le> length d"
    and "\<And>y x i. y < n \<Longrightarrow> x < n \<Longrightarrow> i < n \<Longrightarrow> f y x i < length a \<and> g y x i < length b"
  shows "for_range 0 n (\<lambda>y. for_range 0 n (\<lambda>k. for_range 0 n (\<lambda>x. mac a (f y x k) b (g y x k) (y * n + x)))) d
    = Some (upd_prefix (n * n) (\<lambda>p. d ! p + (\<Sum>i<n. a ! f (p div n) (p mod n) i * b ! g (p div n) (p mod n) i)) d)"
proof -
  let ?h = "\<lambda>y x i. a ! f y x i * b ! g y x i"
  note simps = row_state_simps [OF assms(1), where h = ?h]
  have inner: "for_range 0 n (\<lambda>x. mac a (f y x k) b (g y x k) (y * n + x)) (row_state n ?h d y k 0)
      = Some (row_state n ?h d y (Suc k) 0)" if "y < n" "k < n" for y k
  proof -
    have "mac a (f y x k) b (g y x k) (y * n + x) (row_state n ?h d y k x) = Some (row_state n ?h d y k (Suc x))"
      if "x < n" for x
      using row_state_step [OF assms(1) \<open>y < n\<close> \<open>k < n\<close> that, where h = ?h] assms matrix_row [OF \<open>y < n\<close> that] that \<open>y < n\<close> \<open>k < n\<close>
      by (simp add: mac_def row_state_def [of n ?h d y k x])
    then have "for_range 0 n (\<lambda>x. mac a (f y x k) b (g y x k) (y * n + x)) (row_state n ?h d y k 0)
        = Some (row_state n ?h d y k n)"
      by (intro for_range_eqI [where g = "row_state n ?h d y k"]) auto
    then show ?thesis by (simp only: simps(2) [OF that(2)])
  qed
  have "for_range 0 n (\<lambda>k. for_range 0 n (\<lambda>x. mac a (f y x k) b (g y x k) (y * n + x))) (row_state n ?h d y 0 0)
      = Some (row_state n ?h d (Suc y) 0 0)" if "y < n" for y
    unfolding simps(3) [symmetric]
    using inner that by (intro for_range_eqI [where g = "\<lambda>k. row_state n ?h d y k 0"]) auto
  then have "for_range 0 n (\<lambda>y. for_range 0 n (\<lambda>k. for_range 0 n (\<lambda>x. mac a (f y x k) b (g y x k) (y * n + x)))) d
      = Some (row_state n ?h d n 0 0)"
    using simps(1) by (intro for_range_eqI [where g = "\<lambda>y. row_state n ?h d y 0 0"]) auto
  then show ?thesis by (simp add: simps(4))
qed


lemma matrix_bounds:
  "n * n \<le> length a \<Longrightarrow> y < n \<Longrightarrow> i < n \<Longrightarrow> y * n + i < length (a :: 'a list)"
  using matrix_row [of y n i] by simp

lemma matmul_eq:
  fixes d a b :: "'w::len word list"
  assumes "n * n \<le> length d" and "n * n \<le> length a" and "n * n \<le> length b"
  shows "matmul n d a b = Some (0, upd_prefix (n * n)
      (\<lambda>p. d ! p + (\<Sum>i<n. a ! (p div n * n + i) * b ! (i * n + p mod n))) d)"
    and "matmul_a n d a b = Some (0, upd_prefix (n * n)
      (\<lambda>p. d ! p + (\<Sum>i<n. a ! (p div n * n + i) * b ! (i * n + p mod n))) d)"
    and "transposed_matmul n d a b = Some (0, upd_prefix (n * n)
      (\<lambda>p. d ! p + (\<Sum>i<n. a ! (p div n * n + i) * b ! (p mod n * n + i))) d)"
    and "transposed_matmul_a n d a b = Some (0, upd_prefix (n * n)
      (\<lambda>p. d ! p + (\<Sum>i<n. a ! (p div n * n + i) * b ! (p mod n * n + i))) d)"
proof -
  note [simp] = matrix_bounds [OF assms(2)] matrix_bounds [OF assms(3)]
  show "matmul n d a b = Some (0, upd_prefix (n * n)
      (\<lambda>p. d ! p + (\<Sum>i<n. a ! (p div n * n + i) * b ! (i * n + p mod n))) d)"
    unfolding matmul_def by (subst dot_order [OF assms(1)]) simp_all
  show "matmul_a n d a b = Some (0, upd_prefix (n * n)
      (\<lambda>p. d ! p + (\<Sum>i<n. a ! (p div n * n + i) * b ! (i * n + p mod n))) d)"
    unfolding matmul_a_def
    by (subst saxpy_order [OF assms(1), where f = "\<lambda>y x i. y * n + i" and g = "\<lambda>y x i. i * n + x"])
      simp_all
  show "transposed_matmul n d a b = Some (0, upd_prefix (n * n)
      (\<lambda>p. d ! p + (\<Sum>i<n. a ! (p div n * n + i) * b ! (p mod n * n + i))) d)"
    unfolding transposed_matmul_def by (subst dot_order [OF assms(1)]) simp_all
  show "transposed_matmul_a n d a b = Some (0, upd_prefix (n * n)
      (\<lambda>p. d ! p + (\<Sum>i<n. a ! (p div n * n + i) * b ! (p mod n * n + i))) d)"
    unfolding transposed_matmul_a_def
    by (subst saxpy_order [OF assms(1), where f = "\<lambda>y x i. y * n + i" and g = "\<lambda>y x i. x * n + i"])
      simp_all
qed

text \<open>the two loop orders agree: \<open>matmul\<close> (one dot product per element) and \<open>matmul_a\<close>
  (one scaled row at a time), and likewise the transposed pair, leave the same destination, which
  is the old contents plus the matrix product modulo the element width; this is for 8 and for 16
  bits.\<close>

theorem matmul_orders_agree:
  fixes d a b :: "s8 list" and d' a' b' :: "s16 list"
  assumes "n * n \<le> length d" and "n * n \<le> length a" and "n * n \<le> length b"
    and "n * n \<le> length d'" and "n * n \<le> length a'" and "n * n \<le> length b'"
  shows "matmul8_a n d a b = matmul8 n d a b \<and> matmul16_a n d' a' b' = matmul16 n d' a' b' \<and>
         transposed_matmul8_a n d a b = transposed_matmul8 n d a b \<and>
         transposed_matmul16_a n d' a' b' = transposed_matmul16 n d' a' b' \<and>
         matmul8 n d a b = Some (0, upd_prefix (n * n)
           (\<lambda>p. d ! p + (\<Sum>i<n. a ! (p div n * n + i) * b ! (i * n + p mod n))) d)"
  using assms
  by (simp add: matmul8_a_def matmul8_def matmul16_a_def matmul16_def transposed_matmul8_a_def
      transposed_matmul8_def transposed_matmul16_a_def transposed_matmul16_def matmul_eq)

theorem matmul_orders_agree_witness:
  "matmul8_a 2 [0, 0, 0, 0] [1, 2, 3, 4] [5, 6, 7, 100] = matmul8 2 [0, 0, 0, 0] [1, 2, 3, 4] [5, 6, 7, 100]"
  using matmul_orders_agree [of 2 "[0, 0, 0, 0]" "[1, 2, 3, 4]" "[5, 6, 7, 100]"
      "[0, 0, 0, 0]" "[1, 2, 3, 4]" "[5, 6, 7, 100]"] by simp

lemma ucast_sum_products:
  fixes x y :: "nat \<Rightarrow> 'w::len word"
  assumes "LENGTH('w) \<le> 32"
  shows "(ucast ((\<Sum>i<n. scast (x i) * scast (y i)) :: u32) :: 'w word) = (\<Sum>i<n. x i * y i)"
proof -
  have "((\<Sum>i<n. scast (x i) * scast (y i)) :: u32) = word_of_int (\<Sum>i<n. sint (x i) * sint (y i))"
    by (simp only: of_int_sum of_int_mult scast_eq)
  moreover have "(ucast (word_of_int z :: u32) :: 'w word) = word_of_int z" for z
    using assms by (intro bit_word_eqI) (auto simp: bit_simps)
  ultimately have "(ucast ((\<Sum>i<n. scast (x i) * scast (y i)) :: u32) :: 'w word)
      = word_of_int (\<Sum>i<n. sint (x i) * sint (y i))" by (simp only:)
  also have "\<dots> = (\<Sum>i<n. x i * y i)"
    by (simp only: of_int_sum of_int_mult scast_eq [symmetric] scast_id)
  finally show ?thesis .
qed

text \<open>The kernels that call the dot product compute the transposed product too: on a zeroed
  destination they give what the accumulating transposed kernels give, the 32-bit accumulator
  notwithstanding.\<close>

theorem transposed_b_agrees:
  fixes d a b :: "s8 list" and d' a' b' :: "s16 list"
  assumes "n * n = length d" and "n * n \<le> length a" and "n * n \<le> length b" and "\<forall>x \<in> set d. x = 0"
    and "n * n = length d'" and "n * n \<le> length a'" and "n * n \<le> length b'" and "\<forall>x \<in> set d'. x = 0"
  shows "transposed_matmul8_b n d a b = transposed_matmul8 n d a b \<and>
         transposed_matmul16_b n d' a' b' = transposed_matmul16 n d' a' b'"
proof -
  have gen: "transposed_matmul_b n e u v = transposed_matmul n e u v"
    if "LENGTH('w) \<le> 32" "n * n = length e" "n * n \<le> length u" "n * n \<le> length v" "\<forall>x \<in> set e. x = 0"
    for e u v :: "'w::len word list"
  proof -
    let ?s = "\<lambda>p. \<Sum>i<n. u ! (p div n * n + i) * v ! (p mod n * n + i)"
    have "for_range 0 n (\<lambda>y. for_range 0 n (\<lambda>x d. do {
            w \<leftarrow> dot n u (y * n) v (x * n); wr d (y * n + x) (ucast w) })) e = Some (upd_prefix (n * n) ?s e)"
    proof (subst for_range_matrix, rule for_store)
      fix p assume p: "p < n * n"
      note idx = matrix_index [OF p]
      have row: "y * n + n \<le> n * n" if "y < n" for y
        using mult_le_mono1 [of "Suc y" n n] that by simp
      have "dot n u (p div n * n) v (p mod n * n)
          = Some (\<Sum>i<n. scast (u ! (p div n * n + i)) * scast (v ! (p mod n * n + i)))"
        using row idx that(3,4) by (intro dot_eq) (meson order.trans)+
      then show "do { w \<leftarrow> dot n u (p div n * n) v (p mod n * n);
            wr (upd_prefix p ?s e) (p div n * n + p mod n) (ucast w) } = Some ((upd_prefix p ?s e)[p := ?s p])"
        using p idx that(1,2) by (simp add: ucast_sum_products)
    qed (simp add: that(2))
    moreover have "upd_prefix (n * n) ?s e = upd_prefix (n * n) (\<lambda>p. e ! p + ?s p) e"
      using that(2,5) by (intro nth_equalityI) (auto simp: nth_upd_prefix)
    ultimately show ?thesis using that(2-4) by (simp add: transposed_matmul_b_def matmul_eq)
  qed
  show ?thesis
    using assms by (simp add: transposed_matmul8_b_def transposed_matmul8_def transposed_matmul16_b_def
        transposed_matmul16_def gen)
qed

theorem transposed_b_agrees_witness:
  "transposed_matmul8_b 2 [0, 0, 0, 0] [1, 2, 3, 4] [5, 6, 7, 100]
     = transposed_matmul8 2 [0, 0, 0, 0] [1, 2, 3, 4] [5, 6, 7, 100]"
  using transposed_b_agrees [of 2 "[0, 0, 0, 0]" "[1, 2, 3, 4]" "[5, 6, 7, 100]"
      "[0, 0, 0, 0]" "[1, 2, 3, 4]" "[5, 6, 7, 100]"] by simp

end
