(* ===== verification/Spec2Isabelle.thy ===== *)
theory Spec2Isabelle
  imports McControlbits McSponge McSort CoreMain Dhrystone Uart Sha256 BeebsLib MlInterface MallocExternal MlifIO AesCipher OpenAsipCrc CoreListInit CoreState CoreMatrix CoreUtil Mathis MallocInternal
begin

text \<open>
  Verification of the C code of mlonmcu-sw.

  The repository holds the target software of MLonMCU: a main program with a measurement library, benchmark
  programs that are linked to it, an interface to machine-learning runtimes, and the run-time system (memory
  allocators, events, drivers) of the GVSOC target. Every program consists of four functions,
  \<open>mlonmcu_init\<close>, \<open>mlonmcu_run\<close>, \<open>mlonmcu_check\<close> and \<open>mlonmcu_deinit\<close>, which \<open>src/generic/main.c\<close> calls
  in this order between reads of a clock. The theories follow the parts of the code; each states the
  operations in the order of the source, under the names of the source, and then their properties.

  \<^bold>\<open>How C is read.\<close> Integers of the code are words of their width on an ILP32 target (\<^theory_text>\<open>u8\<close>, \<^theory_text>\<open>u16\<close>,
  \<^theory_text>\<open>u32\<close>, \<^theory_text>\<open>u64\<close> and signed readings of them), with the wrap-around C prescribes; where the code computes
  with \<open>int\<close> the addition that may overflow is written out and overflow is a fault. Undefined behaviour
  (access outside an array, a null or dangling pointer, overflow of \<open>int\<close>, a read of a local variable that no
  statement has set) is the value \<^theory_text>\<open>None\<close>, and a sequence of statements is the bind of the option monad. Where the
  code reads a byte of an array or a field of a structure on the stack that nothing has written (the type string
  of \<open>mlifio.c\<close>, the search item of the list benchmark), the value is unspecified: it is a parameter of the
  definition, and the properties hold for each of its values or name those for which they hold. Conversions to and
  shifts of signed integers are those of two's complement, as the compilers of the targets (gcc and clang) define
  them, left shifts of negative numbers and into the sign bit included. A loop whose end depends on the data
  is a function with a termination proof, or carries fuel; then a theorem shows that it returns. A loop
  that may run for ever has the value \<^theory_text>\<open>None\<close> too. Memory is what the code uses of it: maps from word
  addresses to words for the allocators, cells named by pointers for linked lists, lists for arrays. Loop
  counters and sizes that cannot wrap for the arrays at hand are natural numbers. Two kinds of arrays are
  lists with a total access: the buffers of fixed size of the cryptographic code, whose lengths are then
  hypotheses of the properties, and tables of constants.

  \<^bold>\<open>Shared theories.\<close> \<^theory_text>\<open>Prelude\<close>: types, checked accesses, the counting loop, collections of rules.
  \<^theory_text>\<open>CLib\<close>: the string and stream functions of the C library that input and output use.
  \<^theory_text>\<open>Allocator\<close>: the contract of an allocator as the locale \<^theory_text>\<open>allocator\<close>, with the lemmas about its clients
  proved once; \<^theory_text>\<open>FreeList\<close>: the abstract list of free blocks with first fit and coalescing.

  \<^bold>\<open>Harness\<close> (\<open>src/generic/main.c\<close>, \<open>src/lib/bench\<close>, \<open>exit.h\<close>): the program for any clock and any four
  functions. It ends with the first status that is not 0 and runs no later step; the numbers printed are the
  true elapsed counts also across one wrap-around of the counter, or their low 32 bits on the targets whose print
  format has no more.

  \<^bold>\<open>CoreMark\<close> (\<open>src/lib/coremark\<close>). \<^theory_text>\<open>CoreUtil\<close>: the CRC (with its polynomial reading and the detection of a
  changed word), \<open>parseval\<close>, seeds. \<^theory_text>\<open>CoreMatrix\<close>: construction of the matrices and the matrix benchmark; the
  condition \<^theory_text>\<open>mat_fits\<close> says exactly when no sum overflows, then the benchmark returns and restores its operands, and
  the product is the mathematical one. \<^theory_text>\<open>CoreState\<close>: the scanner and
  its benchmark, against a definition of the number formats. \<^theory_text>\<open>CoreSort\<close>: the merge sort on linked cells,
  for any comparison that satisfies the locale \<^theory_text>\<open>comparator\<close> (it may change the cells it compares).
  \<^theory_text>\<open>CoreList\<close>, \<^theory_text>\<open>CoreListInit\<close>: the list benchmark, which interprets the locale for its two comparisons;
  the list and its data are as before after a run. \<^theory_text>\<open>CoreMain\<close>: \<open>core_main.c\<close> with its port in the build of
  the repository (one context, static memory, no floating point): partition of the memory, calibration,
  iterations, verdict. The whole program is shown to end without undefined behaviour for every clock and every given
  number of iterations, under conditions on the sizes (\<^theory_text>\<open>config_ok\<close>), on the seeds (\<^theory_text>\<open>seeds_ok\<close>) and on the sums
  over the matrices they generate (\<^theory_text>\<open>matrices_fit\<close>), which are decidable and hold for the performance run; with
  \<open>iterations\<close> 0 the program calibrates itself by the clock, which need not end.
  The model was also evaluated for the configurations of the documentation (performance, validation and
  profile runs on 2000 bytes) and gives the published checksums.

  \<^bold>\<open>Dhrystone\<close> (\<open>src/lib/dhrystone\<close>): all procedures on the globals and the two records; for every number of
  runs the final values are the documented ones.

  \<^bold>\<open>Mathis\<close> (\<open>src/lib/mathis/test.c\<close>): the kernels; all loop orders of the matrix product agree.

  \<^bold>\<open>Memory allocators of GVSOC\<close> (\<open>src/cmake/targets/gvsoc/libc/malloc\<close>). \<^theory_text>\<open>MallocInternal\<close>: the allocator that
  keeps its free list in the free memory, on a memory of words. A representation relation connects it with
  \<^theory_text>\<open>FreeList\<close>; allocation implements first fit, deallocation coalescing. The interpretation of \<^theory_text>\<open>allocator\<close>
  gives the separation of live blocks for every sequence of calls. \<^theory_text>\<open>MallocFronts\<close>: the three heaps and
  \<open>pi_malloc\<close>. \<^theory_text>\<open>MallocExternal\<close>: the allocator for memory the core cannot address, whose descriptors live in
  the L2 heap.

  \<^bold>\<open>Tasks, events and the UART of GVSOC\<close> (\<open>src/cmake/targets/gvsoc/drivers\<close>). \<^theory_text>\<open>GvsocEvents\<close>: the life of a task,
  the table of event handlers, the masks, and the locale \<^theory_text>\<open>task_fifo\<close> of a queue of tasks. \<^theory_text>\<open>Uart\<close>: the
  driver with its queues in shared memory. The micro-DMA and the interrupts are an environment: a
  configuration has the transfers in flight, and the step relation \<^theory_text>\<open>uart_step\<close> has a step for a call that
  submits a transfer, one for the end of a transfer (the interrupt handler runs), one for a control command, one for
  an abort, and one for opening the device again and for closing a handle that is not the last; the last close ends the
  run. The invariant of the queues holds in every reachable configuration. A queue of tasks that are waited for and
  short enough for one transfer each drains, and a blocking write of that length returns; lemmas at the end of the
  theory state what happens to longer transfers, refused buffers and the tasks an abort drops.

  \<^bold>\<open>Machine learning\<close> (\<open>src/lib/ml_interface\<close>). \<^theory_text>\<open>MlInterface\<close>: both versions with the programs for TVM, IREE
  and emx; the runtime is a parameter. \<^theory_text>\<open>MlifIO\<close>: npy, raw and comma-separated files on a model of streams.

  \<^bold>\<open>OpenASIP benchmarks\<close> (\<open>src/lib/openasip\<close>). \<^theory_text>\<open>OpenAsipCrc\<close>: bitwise and table-driven CRC are equal.
  \<^theory_text>\<open>OpenAsipAes\<close>, \<^theory_text>\<open>AesBytes\<close>, \<^theory_text>\<open>AesCipher\<close>: Rijndael for nine combinations of lengths; decryption inverts
  encryption. \<^theory_text>\<open>OpenAsipSha\<close>, \<^theory_text>\<open>Sha256\<close>: the code with its rotating variables computes the hash of FIPS 180-4.
  \<^theory_text>\<open>BeebsLib\<close>: the support library of the benchmark.

  \<^bold>\<open>Classic McEliece\<close> (\<open>src/lib/crypto_bench/mceliece348864\<close>). \<^theory_text>\<open>McGf\<close>: arithmetic of the field with 4096
  elements; the type \<^theory_text>\<open>gfe\<close> of 12-bit words is an instance of the class of fields whose inverse is the
  one the code computes. \<^theory_text>\<open>McVec\<close>: the bit-sliced arithmetic computes 64 such operations at once. \<^theory_text>\<open>McBenes\<close>:
  loads and stores, the transposition of a bit matrix, and the Benes network as a composition of routes of
  the 4096 bits. \<^theory_text>\<open>McControlbits\<close>: the layers with which the control bits are checked route in the same way.
  \<^theory_text>\<open>McKeccak\<close>: the unrolled permutation is Keccak-f[1600] of FIPS 202, whose offsets and constants are computed by the
  algorithms of the standard; \<^theory_text>\<open>McSponge\<close>: the one-shot and the incremental interface of SHAKE and SHA-3 are the sponge
  construction. \<^theory_text>\<open>McNetwork\<close>, \<^theory_text>\<open>McSort\<close>: the three sorting networks sort; the locale \<^theory_text>\<open>minmax\<close> is the promise of a
  comparison, and the three comparisons of the code keep it for values that are not too far apart.

  \<^bold>\<open>Bounds and fuel.\<close> Fuel occurs where a pointer structure is walked; the lemmas give it as the length of the
  list plus one. Event lists of the environment (clock reads, ends of transfers) are as long as the code
  reads them; the properties say how many they need.

  \<^bold>\<open>Not modelled.\<close> SPI, I2C and GPIO drivers, clocks, timers and interrupts of GVSOC, its cluster and
  system start: register accesses and hardware state that no code of the repository describes. System calls
  and start-up code of the targets: assembly and stubs. The vector benchmarks: vendored drivers of assembly
  kernels. The key generation, encryption and decryption of Classic McEliece and the recursion that computes the
  control bits. The wrappers of benchmark suites that are fetched when the program is built. C++ code.
\<close>

end
